(* ===== verification/Xsix_Prelude.thy ===== *)
theory Xsix_Prelude
  imports Main "HOL-Library.Word"
begin

text \<open>
  Shared vocabulary of the development: the faults a C++ statement can run into, the result type
  that carries them, checked accesses to a memory block, the integer conversions of C++, decimal
  printing, and the list lemmas about ring buffers that the components use.
\<close>

section \<open>Faults and results\<close>

text \<open>
  A statement of the program either produces a value (\<open>Inr\<close>) or runs into one of the
  behaviours the language standard leaves undefined, an exception, or a call that never returns.
\<close>

datatype cerr =
    Out_Of_Bounds
  | Null_Deref
  | Use_After_Free
  | Signed_Overflow
  | Div_By_Zero
  | Indeterminate_Read
  | Empty_Access
  | Diverges
  | Runtime_Error string

type_synonym 'a res = "cerr + 'a"

definition bind_res :: "'a res \<Rightarrow> ('a \<Rightarrow> 'b res) \<Rightarrow> 'b res" where
  "bind_res m f = (case m of Inl e \<Rightarrow> Inl e | Inr a \<Rightarrow> f a)"

named_theorems mem_simps \<open>simplification rules for checked memory accesses\<close>
named_theorems inv_defs \<open>unfolding rules of the component invariants\<close>

lemma bind_res_simps [simp]:
  "bind_res (Inl e) f = Inl e"
  "bind_res (Inr a) f = f a"
  by (simp_all add: bind_res_def)

lemma bind_res_eq_Inr [simp]:
  "bind_res m f = Inr b \<longleftrightarrow> (\<exists>a. m = Inr a \<and> f a = Inr b)"
  by (cases m) auto

lemma bind_res_eq_Inl:
  "bind_res m f = Inl e \<longleftrightarrow> m = Inl e \<or> (\<exists>a. m = Inr a \<and> f a = Inl e)"
  by (cases m) auto

section \<open>Checked memory blocks\<close>

text \<open>
  A block of memory is a list; its length is the number of elements allocated. Offsets and counts
  are C++ integers; a negative count turns into a huge \<open>size_t\<close> and so is out of bounds.
\<close>

definition mem_read :: "'a list \<Rightarrow> int \<Rightarrow> int \<Rightarrow> 'a list res" where
  "mem_read d off n =
     (if 0 \<le> off \<and> 0 \<le> n \<and> off + n \<le> int (length d)
      then Inr (take (nat n) (drop (nat off) d)) else Inl Out_Of_Bounds)"

definition mem_write :: "'a list \<Rightarrow> int \<Rightarrow> 'a list \<Rightarrow> 'a list res" where
  "mem_write d off xs =
     (if 0 \<le> off \<and> off + int (length xs) \<le> int (length d)
      then Inr (take (nat off) d @ xs @ drop (nat off + length xs) d) else Inl Out_Of_Bounds)"

lemma mem_read_ok [mem_simps]:
  "0 \<le> off \<Longrightarrow> 0 \<le> n \<Longrightarrow> off + n \<le> int (length d) \<Longrightarrow>
   mem_read d off n = Inr (take (nat n) (drop (nat off) d))"
  by (simp add: mem_read_def)

lemma mem_write_ok [mem_simps]:
  "0 \<le> off \<Longrightarrow> off + int (length xs) \<le> int (length d) \<Longrightarrow>
   mem_write d off xs = Inr (take (nat off) d @ xs @ drop (nat off + length xs) d)"
  by (simp add: mem_write_def)

lemma mem_write_length: "mem_write d off xs = Inr d' \<Longrightarrow> length d' = length d"
  by (auto simp: mem_write_def split: if_splits)

lemma mem_read_length: "mem_read d off n = Inr xs \<Longrightarrow> int (length xs) = n"
  by (auto simp: mem_read_def split: if_splits)

section \<open>Integer conversions and division of C++\<close>

definition in_i32 :: "int \<Rightarrow> bool" where
  "in_i32 x \<longleftrightarrow> - (2 ^ 31) \<le> x \<and> x < 2 ^ 31"

definition in_i64 :: "int \<Rightarrow> bool" where
  "in_i64 x \<longleftrightarrow> - (2 ^ 63) \<le> x \<and> x < 2 ^ 63"

text \<open>A signed result out of range is undefined behaviour.\<close>

definition chk_i32 :: "int \<Rightarrow> int res" where
  "chk_i32 x = (if in_i32 x then Inr x else Inl Signed_Overflow)"

definition chk_i64 :: "int \<Rightarrow> int res" where
  "chk_i64 x = (if in_i64 x then Inr x else Inl Signed_Overflow)"

text \<open>A conversion keeps the value modulo the width of the target type.\<close>

definition to_i32 :: "int \<Rightarrow> int" where
  "to_i32 x = (x + 2 ^ 31) mod 2 ^ 32 - 2 ^ 31"

definition to_i64 :: "int \<Rightarrow> int" where
  "to_i64 x = (x + 2 ^ 63) mod 2 ^ 64 - 2 ^ 63"

definition to_u16 :: "int \<Rightarrow> int" where
  "to_u16 x = x mod 2 ^ 16"

definition to_u64 :: "int \<Rightarrow> int" where
  "to_u64 x = x mod 2 ^ 64"

lemma to_i32_id [simp]: "in_i32 x \<Longrightarrow> to_i32 x = x"
  by (simp add: to_i32_def in_i32_def)

lemma to_i64_id [simp]: "in_i64 x \<Longrightarrow> to_i64 x = x"
  by (simp add: to_i64_def in_i64_def)

lemma to_u64_id [simp]: "0 \<le> x \<Longrightarrow> x < 2 ^ 64 \<Longrightarrow> to_u64 x = x"
  by (simp add: to_u64_def)

lemma in_i32_to_i32 [simp]: "in_i32 (to_i32 x)"
proof -
  have "0 \<le> (x + 2 ^ 31) mod 2 ^ 32" and "(x + 2 ^ 31) mod 2 ^ 32 < 2 ^ 32"
    by simp_all
  then show ?thesis by (simp add: to_i32_def in_i32_def)
qed

lemma chk_i32_ok [simp]: "in_i32 x \<Longrightarrow> chk_i32 x = Inr x"
  by (simp add: chk_i32_def)

lemma chk_i64_ok [simp]: "in_i64 x \<Longrightarrow> chk_i64 x = Inr x"
  by (simp add: chk_i64_def)

text \<open>Division truncates towards zero, and the remainder has the sign of the dividend.\<close>

definition c_quot :: "int \<Rightarrow> int \<Rightarrow> int" where
  "c_quot a b = sgn a * sgn b * (\<bar>a\<bar> div \<bar>b\<bar>)"

definition c_rem :: "int \<Rightarrow> int \<Rightarrow> int" where
  "c_rem a b = a - b * c_quot a b"

text \<open>The remainder operator applied to a divisor that may be zero.\<close>

definition chk_rem :: "int \<Rightarrow> int \<Rightarrow> int res" where
  "chk_rem a b = (if b = 0 then Inl Div_By_Zero else Inr (c_rem a b))"

lemma c_quot_nonneg: "0 \<le> a \<Longrightarrow> 0 < b \<Longrightarrow> c_quot a b = a div b"
  by (cases "a = 0") (simp_all add: c_quot_def)

lemma c_quot_neg: "a < 0 \<Longrightarrow> 0 < b \<Longrightarrow> c_quot a b = - ((- a) div b)"
  by (simp add: c_quot_def)

lemma c_rem_nonneg: "0 \<le> a \<Longrightarrow> 0 < b \<Longrightarrow> c_rem a b = a mod b"
  by (simp add: c_rem_def c_quot_nonneg minus_mult_div_eq_mod)

lemma chk_rem_nonneg [simp]: "0 \<le> a \<Longrightarrow> 0 < b \<Longrightarrow> chk_rem a b = Inr (a mod b)"
  by (simp add: chk_rem_def c_rem_nonneg)

lemma c_rem_neg: "a < 0 \<Longrightarrow> 0 < b \<Longrightarrow> c_rem a b = - ((- a) mod b)"
  by (simp add: c_rem_def c_quot_neg minus_mult_div_eq_mod [symmetric])

lemma c_quot_rem: "b * c_quot a b + c_rem a b = a"
  by (simp add: c_rem_def)

section \<open>Decimal printing\<close>

definition digit_char :: "nat \<Rightarrow> char" where
  "digit_char n = char_of (48 + n mod 10)"

fun dec_of_nat :: "nat \<Rightarrow> string" where
  "dec_of_nat n = (if n < 10 then [digit_char n] else dec_of_nat (n div 10) @ [digit_char n])"

declare dec_of_nat.simps [simp del]

definition dec_of_int :: "int \<Rightarrow> string" where
  "dec_of_int x = (if x < 0 then CHR ''-'' # dec_of_nat (nat (- x)) else dec_of_nat (nat x))"

text \<open>A C string ends before the first NUL; the length of a \<open>const char*\<close> is what precedes it.\<close>

definition nul :: char where
  "nul = CHR 0x00"

definition c_str :: "string \<Rightarrow> string" where
  "c_str s = takeWhile (\<lambda>c. c \<noteq> nul) s"

lemma c_str_no_nul [simp]: "nul \<notin> set s \<Longrightarrow> c_str s = s"
  by (auto simp: c_str_def takeWhile_eq_all_conv)

lemma c_str_append_nul [simp]: "nul \<notin> set s \<Longrightarrow> c_str (s @ nul # t) = s"
  by (auto simp: c_str_def takeWhile_append)

lemma nul_notin_c_str [simp]: "nul \<notin> set (c_str s)"
  by (auto simp: c_str_def dest: set_takeWhileD)

section \<open>Ring buffers over lists\<close>

lemma take_min_length [simp]: "take (min (length xs) n) xs = take n xs"
  by (simp add: min_def)

text \<open>
  \<open>ring_slice d h n\<close> reads \<open>n\<close> elements of the ring \<open>d\<close> from position \<open>h\<close> on, and
  \<open>ring_put d t xs\<close> stores \<open>xs\<close> from position \<open>t\<close> on, wrapping at the end of \<open>d\<close>.
\<close>

definition ring_slice :: "'a list \<Rightarrow> nat \<Rightarrow> nat \<Rightarrow> 'a list" where
  "ring_slice d h n = map (\<lambda>i. d ! ((h + i) mod length d)) [0..<n]"

definition ring_put :: "'a list \<Rightarrow> nat \<Rightarrow> 'a list \<Rightarrow> 'a list" where
  "ring_put d t xs =
     (if t + length xs \<le> length d then take t d @ xs @ drop (t + length xs) d
      else let k = length d - t in
        drop k xs @ drop (length xs - k) (take t d) @ take k xs)"

lemma length_ring_slice [simp]: "length (ring_slice d h n) = n"
  by (simp add: ring_slice_def)

lemma ring_slice_0 [simp]: "ring_slice d h 0 = []"
  by (simp add: ring_slice_def)

lemma nth_ring_slice [simp]: "i < n \<Longrightarrow> ring_slice d h n ! i = d ! ((h + i) mod length d)"
  by (simp add: ring_slice_def)

lemma ring_slice_nowrap:
  assumes "h + n \<le> length d"
  shows "ring_slice d h n = take n (drop h d)"
  using assms by (intro nth_equalityI) simp_all

lemma ring_slice_wrap:
  assumes "h \<le> length d" and "length d \<le> h + n" and "n \<le> length d"
  shows "ring_slice d h n = drop h d @ take (h + n - length d) d"
proof (rule nth_equalityI)
  show "length (ring_slice d h n) = length (drop h d @ take (h + n - length d) d)"
    using assms by simp
  fix i assume "i < length (ring_slice d h n)"
  then have i: "i < n" by simp
  show "ring_slice d h n ! i = (drop h d @ take (h + n - length d) d) ! i"
  proof (cases "h + i < length d")
    case True
    then have "i < length d - h" by simp
    with i True show ?thesis by (simp add: nth_append)
  next
    case False
    with i assms have "(h + i) mod length d = h + i - length d"
      by (simp add: mod_if)
    moreover from False have "\<not> i < length d - h" by simp
    ultimately show ?thesis using i False assms by (simp add: nth_append add.commute)
  qed
qed

lemma take_ring_slice: "k \<le> n \<Longrightarrow> take k (ring_slice d h n) = ring_slice d h k"
  by (intro nth_equalityI) simp_all

lemma drop_ring_slice:
  assumes "k \<le> n"
  shows "drop k (ring_slice d h n) = ring_slice d ((h + k) mod length d) (n - k)"
proof (rule nth_equalityI)
  fix i assume "i < length (drop k (ring_slice d h n))"
  then have "i < n - k" by simp
  with assms show "drop k (ring_slice d h n) ! i = ring_slice d ((h + k) mod length d) (n - k) ! i"
    by (simp add: mod_add_left_eq add.assoc)
qed simp

lemma length_ring_put [simp]:
  "t \<le> length d \<Longrightarrow> length xs \<le> length d \<Longrightarrow> length (ring_put d t xs) = length d"
  by (auto simp: ring_put_def Let_def)

lemma nth_ring_put:
  assumes "t < length d" and "length xs \<le> length d" and "p < length d"
  shows "ring_put d t xs ! p =
    (let j = (if t \<le> p then p - t else p + length d - t) in
       if j < length xs then xs ! j else d ! p)"
proof (cases "t + length xs \<le> length d")
  case True
  with assms show ?thesis
    by (auto simp: ring_put_def Let_def nth_append)
next
  case False
  with assms show ?thesis
    by (auto simp: ring_put_def Let_def nth_append add.commute)
qed

lemma ring_slice_put:
  assumes "h < length d" and "n + length xs \<le> length d" and t: "t = (h + n) mod length d"
  shows "ring_slice (ring_put d t xs) h (n + length xs) = ring_slice d h n @ xs"
proof (rule nth_equalityI)
  have tl: "t < length d" unfolding t by (rule mod_less_divisor) (use assms(1) in linarith)
  have teq: "t = (if h + n < length d then h + n else h + n - length d)"
    using assms by (auto simp: mod_if)
  fix i assume "i < length (ring_slice (ring_put d t xs) h (n + length xs))"
  then have i: "i < n + length xs" by simp
  let ?p = "(h + i) mod length d"
  have peq: "?p = (if h + i < length d then h + i else h + i - length d)"
    using assms i by (auto simp: mod_if)
  have pl: "?p < length d" by (rule mod_less_divisor) (use assms(1) in linarith)
  have "ring_put d t xs ! ?p = (ring_slice d h n @ xs) ! i"
    unfolding nth_ring_put [OF tl _ pl, of xs, OF order_trans [OF le_add2 assms(2)]] Let_def
    using i teq peq assms(1,2)
    by (auto simp: nth_append split: if_splits)
  with i show "ring_slice (ring_put d t xs) h (n + length xs) ! i = (ring_slice d h n @ xs) ! i"
    using tl assms(2) by simp
qed simp

end
