(* ===== verification/Asio_Scheduler.thy ===== *)
theory Asio_Scheduler
  imports Xsix_Prelude "HOL-Library.Multiset"
begin

text \<open>
  The scheduler behind \<open>io_context\<close>, \<open>src/3rd/asio/include/asio/detail/impl/scheduler.ipp\<close>, with the
  condition \<open>detail/std_event.hpp\<close> its threads wait on. The scheduler is a record; each piece of code
  between taking and releasing the mutex is one function on it. Any number of threads run the scheduler
  and call it, in any interleaving of these pieces: the step relation \<open>sched_step\<close>. What a handler does
  and what the reactor completes is chosen freely by the steps. Operations are numbers, and the
  \<open>task_operation_\<close> that stands for the reactor in the queue is \<open>Q_Task\<close>.

  Not modelled: exceptions from handlers, a handler that calls \<open>run\<close> or \<open>poll\<close> itself, and the thread
  the scheduler may own.
\<close>

section \<open>The event\<close>

text \<open>\<open>state_\<close> holds the signal in its lowest bit and twice the number of waiting threads above it.\<close>

record std_event =
  ev_signalled :: bool
  ev_waiters :: nat

definition ev_signal :: "std_event \<Rightarrow> std_event" where
  "ev_signal e = e\<lparr>ev_signalled := True\<rparr>"

definition ev_maybe_signal_one :: "std_event \<Rightarrow> std_event \<times> bool" where
  "ev_maybe_signal_one e = (e\<lparr>ev_signalled := True\<rparr>, ev_waiters e > 0)"

definition ev_clear :: "std_event \<Rightarrow> std_event" where
  "ev_clear e = e\<lparr>ev_signalled := False\<rparr>"

definition ev_wait_begin :: "std_event \<Rightarrow> std_event" where
  "ev_wait_begin e = e\<lparr>ev_waiters := ev_waiters e + 1\<rparr>"

definition ev_wait_end :: "std_event \<Rightarrow> std_event" where
  "ev_wait_end e = e\<lparr>ev_waiters := ev_waiters e - 1\<rparr>"

section \<open>The scheduler\<close>

datatype qitem = Q_Task | Q_Op nat

record sched =
  sc_one_thread :: bool
  sc_event :: std_event
  sc_task :: bool
  sc_task_interrupted :: bool
  sc_interrupts :: nat
  sc_outstanding_work :: int
  sc_op_queue :: "qitem list"
  sc_stopped :: bool
  sc_shutdown :: bool

text \<open>Where a thread is: outside, about to look at the queue, waiting on the event, in the reactor, looking
  at the queue again after the wait or the reactor, in a handler, and in the two parts of \<open>work_cleanup\<close>
  (the flag tells that \<open>work_finished\<close> still has to call \<open>stop\<close>).\<close>

datatype mode = M_Run | M_Run_One | M_Wait_One | M_Poll | M_Poll_One

datatype tloc = T_Out | T_Loop mode | T_Waiting mode | T_Task mode | T_Look mode
  | T_Handler mode nat | T_Clean mode bool

record thread_info =
  th_loc :: tloc
  th_private_work :: int
  th_private_queue :: "nat list"
  th_n :: nat

definition scheduler_ctor :: "bool \<Rightarrow> sched" where
  "scheduler_ctor one_thread =
     \<lparr> sc_one_thread = one_thread, sc_event = \<lparr> ev_signalled = False, ev_waiters = 0 \<rparr>, sc_task = False,
       sc_task_interrupted = True, sc_interrupts = 0, sc_outstanding_work = 0, sc_op_queue = [],
       sc_stopped = False, sc_shutdown = False \<rparr>"

definition interrupt_task :: "sched \<Rightarrow> sched" where
  "interrupt_task s =
     (if \<not> sc_task_interrupted s \<and> sc_task s
      then s\<lparr>sc_task_interrupted := True, sc_interrupts := sc_interrupts s + 1\<rparr> else s)"

definition stop_all_threads :: "sched \<Rightarrow> sched" where
  "stop_all_threads s = interrupt_task (s\<lparr>sc_stopped := True, sc_event := ev_signal (sc_event s)\<rparr>)"

definition wake_one_thread_and_unlock :: "sched \<Rightarrow> sched" where
  "wake_one_thread_and_unlock s =
     (case ev_maybe_signal_one (sc_event s) of (e, woken) \<Rightarrow>
        let s = s\<lparr>sc_event := e\<rparr> in if woken then s else interrupt_task s)"

definition stop :: "sched \<Rightarrow> sched" where
  "stop s = stop_all_threads s"

definition restart :: "sched \<Rightarrow> sched" where
  "restart s = s\<lparr>sc_stopped := False\<rparr>"

definition work_started :: "sched \<Rightarrow> sched" where
  "work_started s = s\<lparr>sc_outstanding_work := sc_outstanding_work s + 1\<rparr>"

text \<open>The decrement of \<open>work_finished\<close>, and whether \<open>stop\<close> has to follow.\<close>

definition work_finished :: "sched \<Rightarrow> sched \<times> bool" where
  "work_finished s =
     (let s = s\<lparr>sc_outstanding_work := sc_outstanding_work s - 1\<rparr> in (s, sc_outstanding_work s = 0))"

definition init_task :: "sched \<Rightarrow> sched" where
  "init_task s =
     (if \<not> sc_shutdown s \<and> \<not> sc_task s
      then wake_one_thread_and_unlock (s\<lparr>sc_task := True, sc_op_queue := sc_op_queue s @ [Q_Task]\<rparr>)
      else s)"

definition shutdown :: "sched \<Rightarrow> sched \<times> nat list" where
  "shutdown s =
     (s\<lparr>sc_shutdown := True, sc_op_queue := [], sc_task := False\<rparr>,
      concat (map (\<lambda>q. case q of Q_Task \<Rightarrow> [] | Q_Op o1 \<Rightarrow> [o1]) (sc_op_queue s)))"

definition enqueue :: "sched \<Rightarrow> nat list \<Rightarrow> sched" where
  "enqueue s ops = wake_one_thread_and_unlock (s\<lparr>sc_op_queue := sc_op_queue s @ map Q_Op ops\<rparr>)"

text \<open>The posting operations; \<open>inside\<close> tells that the calling thread runs the scheduler.\<close>

definition post_immediate_completions ::
    "sched \<Rightarrow> thread_info \<Rightarrow> bool \<Rightarrow> nat \<Rightarrow> nat list \<Rightarrow> bool \<Rightarrow> sched \<times> thread_info" where
  "post_immediate_completions s th inside n ops is_continuation =
     (if (sc_one_thread s \<or> is_continuation) \<and> inside then
        (s, th\<lparr>th_private_work := th_private_work th + int n,
               th_private_queue := th_private_queue th @ ops\<rparr>)
      else (enqueue (s\<lparr>sc_outstanding_work := sc_outstanding_work s + int n\<rparr>) ops, th))"

definition post_immediate_completion ::
    "sched \<Rightarrow> thread_info \<Rightarrow> bool \<Rightarrow> nat \<Rightarrow> bool \<Rightarrow> sched \<times> thread_info" where
  "post_immediate_completion s th inside op is_continuation =
     (if (sc_one_thread s \<or> is_continuation) \<and> inside then
        (s, th\<lparr>th_private_work := th_private_work th + 1,
               th_private_queue := th_private_queue th @ [op]\<rparr>)
      else (enqueue (work_started s) [op], th))"

definition post_deferred_completion :: "sched \<Rightarrow> thread_info \<Rightarrow> bool \<Rightarrow> nat \<Rightarrow> sched \<times> thread_info" where
  "post_deferred_completion s th inside op =
     (if sc_one_thread s \<and> inside then (s, th\<lparr>th_private_queue := th_private_queue th @ [op]\<rparr>)
      else (enqueue s [op], th))"

definition post_deferred_completions :: "sched \<Rightarrow> thread_info \<Rightarrow> bool \<Rightarrow> nat list \<Rightarrow> sched \<times> thread_info" where
  "post_deferred_completions s th inside ops =
     (if ops = [] then (s, th)
      else if sc_one_thread s \<and> inside then (s, th\<lparr>th_private_queue := th_private_queue th @ ops\<rparr>)
      else (enqueue s ops, th))"

definition do_dispatch :: "sched \<Rightarrow> nat \<Rightarrow> sched" where
  "do_dispatch s op = enqueue (work_started s) [op]"

section \<open>Running\<close>

text \<open>Calls of the five running functions. Each gives up at once when there is no work; otherwise the
  thread gets fresh private data and goes on to look at the queue. The loops of \<open>run\<close> and \<open>poll\<close> come back
  there from \<open>work_cleanup_queue\<close>, which also counts the handlers run. A call from outside has no outer
  private queue for \<open>poll\<close> and \<open>poll_one\<close> to hand over.\<close>

definition begin_run :: "mode \<Rightarrow> thread_info \<Rightarrow> thread_info" where
  "begin_run m th = th\<lparr>th_loc := T_Loop m, th_private_work := 0, th_private_queue := [], th_n := 0\<rparr>"

definition sched_run :: "sched \<Rightarrow> thread_info \<Rightarrow> sched \<times> thread_info" where
  "sched_run s th =
     (if sc_outstanding_work s = 0 then (stop s, th\<lparr>th_n := 0\<rparr>) else (s, begin_run M_Run th))"

definition sched_run_one :: "sched \<Rightarrow> thread_info \<Rightarrow> sched \<times> thread_info" where
  "sched_run_one s th =
     (if sc_outstanding_work s = 0 then (stop s, th\<lparr>th_n := 0\<rparr>) else (s, begin_run M_Run_One th))"

definition sched_wait_one :: "sched \<Rightarrow> thread_info \<Rightarrow> sched \<times> thread_info" where
  "sched_wait_one s th =
     (if sc_outstanding_work s = 0 then (stop s, th\<lparr>th_n := 0\<rparr>) else (s, begin_run M_Wait_One th))"

definition sched_poll :: "sched \<Rightarrow> thread_info \<Rightarrow> sched \<times> thread_info" where
  "sched_poll s th =
     (if sc_outstanding_work s = 0 then (stop s, th\<lparr>th_n := 0\<rparr>) else (s, begin_run M_Poll th))"

definition sched_poll_one :: "sched \<Rightarrow> thread_info \<Rightarrow> sched \<times> thread_info" where
  "sched_poll_one s th =
     (if sc_outstanding_work s = 0 then (stop s, th\<lparr>th_n := 0\<rparr>) else (s, begin_run M_Poll_One th))"

definition enter_run :: "mode \<Rightarrow> sched \<Rightarrow> thread_info \<Rightarrow> sched \<times> thread_info" where
  "enter_run m s th =
     (case m of M_Run \<Rightarrow> sched_run s th | M_Run_One \<Rightarrow> sched_run_one s th | M_Wait_One \<Rightarrow> sched_wait_one s th
      | M_Poll \<Rightarrow> sched_poll s th | M_Poll_One \<Rightarrow> sched_poll_one s th)"

lemmas enter_defs = enter_run_def sched_run_def sched_run_one_def sched_wait_one_def sched_poll_def
  sched_poll_one_def begin_run_def

text \<open>Taking a handler off the queue: the common end of the three \<open>do_\<dots>_one\<close> functions.\<close>

definition take_handler :: "mode \<Rightarrow> sched \<Rightarrow> thread_info \<Rightarrow> nat \<Rightarrow> qitem list \<Rightarrow> sched \<times> thread_info" where
  "take_handler m s th op q =
     (let s = s\<lparr>sc_op_queue := q\<rparr>; more_handlers = (q \<noteq> []);
          s = (if more_handlers \<and> \<not> sc_one_thread s then wake_one_thread_and_unlock s else s)
      in (s, th\<lparr>th_loc := T_Handler m op\<rparr>))"

definition take_task :: "mode \<Rightarrow> sched \<Rightarrow> thread_info \<Rightarrow> qitem list \<Rightarrow> sched \<times> thread_info" where
  "take_task m s th q =
     (let more_handlers = (q \<noteq> []);
          s = s\<lparr>sc_op_queue := q, sc_task_interrupted := more_handlers\<rparr>;
          s = (if more_handlers \<and> \<not> sc_one_thread s then s\<lparr>sc_event := ev_signal (sc_event s)\<rparr> else s)
      in (s, th\<lparr>th_loc := T_Task m\<rparr>))"

definition do_run_one :: "mode \<Rightarrow> sched \<Rightarrow> thread_info \<Rightarrow> sched \<times> thread_info" where
  "do_run_one m s th =
     (if sc_stopped s then (s, th\<lparr>th_loc := T_Out\<rparr>)
      else case sc_op_queue s of
        Q_Task # q \<Rightarrow> take_task m s th q
      | Q_Op o1 # q \<Rightarrow> take_handler m s th o1 q
      | [] \<Rightarrow> (s\<lparr>sc_event := ev_wait_begin (ev_clear (sc_event s))\<rparr>, th\<lparr>th_loc := T_Waiting m\<rparr>))"

definition do_wait_one :: "sched \<Rightarrow> thread_info \<Rightarrow> sched \<times> thread_info" where
  "do_wait_one s th =
     (if sc_stopped s then (s, th\<lparr>th_loc := T_Out\<rparr>)
      else case sc_op_queue s of
        Q_Task # q \<Rightarrow> take_task M_Wait_One s th q
      | Q_Op o1 # q \<Rightarrow> take_handler M_Wait_One s th o1 q
      | [] \<Rightarrow> (s\<lparr>sc_event := ev_wait_begin (ev_clear (sc_event s))\<rparr>, th\<lparr>th_loc := T_Waiting M_Wait_One\<rparr>))"

definition do_poll_one :: "mode \<Rightarrow> sched \<Rightarrow> thread_info \<Rightarrow> sched \<times> thread_info" where
  "do_poll_one m s th =
     (if sc_stopped s then (s, th\<lparr>th_loc := T_Out\<rparr>)
      else case sc_op_queue s of
        Q_Task # q \<Rightarrow> (s\<lparr>sc_op_queue := q\<rparr>, th\<lparr>th_loc := T_Task m\<rparr>)
      | Q_Op o1 # q \<Rightarrow> take_handler m s th o1 q
      | [] \<Rightarrow> (s, th\<lparr>th_loc := T_Out\<rparr>))"

text \<open>The second look of \<open>do_poll_one\<close> and \<open>do_wait_one\<close>, after the reactor has run.\<close>

definition second_look :: "mode \<Rightarrow> sched \<Rightarrow> thread_info \<Rightarrow> sched \<times> thread_info" where
  "second_look m s th =
     (case sc_op_queue s of
        Q_Task # q \<Rightarrow>
          (if m = M_Wait_One \<and> sc_one_thread s then s else s\<lparr>sc_event := ev_signal (sc_event s)\<rparr>,
           th\<lparr>th_loc := T_Out\<rparr>)
      | Q_Op o1 # q \<Rightarrow> take_handler m s th o1 q
      | [] \<Rightarrow> (s, th\<lparr>th_loc := T_Out\<rparr>))"

text \<open>\<open>do_wait_one\<close> after its wait: it looks at the queue once more, without looking at \<open>stopped_\<close> again.\<close>

definition after_wait :: "sched \<Rightarrow> thread_info \<Rightarrow> sched \<times> thread_info" where
  "after_wait s th =
     (case sc_op_queue s of
        Q_Task # q \<Rightarrow> take_task M_Wait_One s th q
      | Q_Op o1 # q \<Rightarrow> take_handler M_Wait_One s th o1 q
      | [] \<Rightarrow> (s, th\<lparr>th_loc := T_Out\<rparr>))"

definition loop_body :: "mode \<Rightarrow> sched \<Rightarrow> thread_info \<Rightarrow> sched \<times> thread_info" where
  "loop_body m s th =
     (case m of M_Run \<Rightarrow> do_run_one m s th | M_Run_One \<Rightarrow> do_run_one m s th
      | M_Wait_One \<Rightarrow> do_wait_one s th | M_Poll \<Rightarrow> do_poll_one m s th | M_Poll_One \<Rightarrow> do_poll_one m s th)"

definition end_wait :: "mode \<Rightarrow> sched \<Rightarrow> thread_info \<Rightarrow> sched \<times> thread_info" where
  "end_wait m s th =
     (let s = s\<lparr>sc_event := ev_wait_end (sc_event s)\<rparr>
      in if m = M_Wait_One then after_wait s th else (s, th\<lparr>th_loc := T_Loop m\<rparr>))"

definition task_cleanup :: "mode \<Rightarrow> sched \<Rightarrow> thread_info \<Rightarrow> sched \<times> thread_info" where
  "task_cleanup m s th =
     (let s = (if th_private_work th > 0
               then s\<lparr>sc_outstanding_work := sc_outstanding_work s + th_private_work th\<rparr> else s);
          s = s\<lparr>sc_task_interrupted := True,
                sc_op_queue := sc_op_queue s @ map Q_Op (th_private_queue th) @ [Q_Task]\<rparr>
      in (s, th\<lparr>th_private_work := 0, th_private_queue := [],
               th_loc := (if m = M_Run \<or> m = M_Run_One then T_Loop m else T_Look m)\<rparr>))"

text \<open>\<open>work_cleanup\<close> runs when a handler is done: the count of work first, then the private queue.\<close>

definition work_cleanup_count :: "mode \<Rightarrow> sched \<Rightarrow> thread_info \<Rightarrow> sched \<times> thread_info" where
  "work_cleanup_count m s th =
     (case (if th_private_work th > 1
            then (s\<lparr>sc_outstanding_work := sc_outstanding_work s + (th_private_work th - 1)\<rparr>, False)
            else if th_private_work th < 1 then work_finished s else (s, False)) of
        (s, stopping) \<Rightarrow> (s, th\<lparr>th_private_work := 0, th_loc := T_Clean m stopping\<rparr>))"

definition size_t_max :: nat where
  "size_t_max = 2 ^ 64 - 1"

definition work_cleanup_queue :: "mode \<Rightarrow> sched \<Rightarrow> thread_info \<Rightarrow> sched \<times> thread_info" where
  "work_cleanup_queue m s th =
     (let s = (if th_private_queue th \<noteq> []
               then s\<lparr>sc_op_queue := sc_op_queue s @ map Q_Op (th_private_queue th)\<rparr> else s)
      in (s, th\<lparr>th_private_queue := [],
               th_n := (if th_n th \<noteq> size_t_max then th_n th + 1 else th_n th),
               th_loc := (if m = M_Run \<or> m = M_Poll then T_Loop m else T_Out)\<rparr>))"

section \<open>Threads and the reactor\<close>

text \<open>The system: the scheduler, its threads, the operations the reactor holds, the work guards, and three
  histories (everything ever submitted, what handlers were run, what was destroyed at shutdown).\<close>

record system =
  sy_sched :: sched
  sy_threads :: "thread_info list"
  sy_reactor :: "nat multiset"
  sy_guards :: nat
  sy_submitted :: "nat multiset"
  sy_done :: "nat list"
  sy_destroyed :: "nat multiset"

definition idle_thread :: thread_info where
  "idle_thread = \<lparr> th_loc = T_Out, th_private_work = 0, th_private_queue = [], th_n = 0 \<rparr>"

definition system_init :: "bool \<Rightarrow> nat \<Rightarrow> system" where
  "system_init one_thread n =
     \<lparr> sy_sched = scheduler_ctor one_thread, sy_threads = replicate n idle_thread, sy_reactor = {#},
       sy_guards = 0, sy_submitted = {#}, sy_done = [], sy_destroyed = {#} \<rparr>"

definition put :: "nat \<Rightarrow> sched \<times> thread_info \<Rightarrow> system \<Rightarrow> system" where
  "put i r c = c\<lparr>sy_sched := fst r, sy_threads := (sy_threads c)[i := snd r]\<rparr>"

text \<open>A thread that may call the scheduler: one outside, or a handler.\<close>

definition calling :: "thread_info \<Rightarrow> bool" where
  "calling th \<longleftrightarrow> (case th_loc th of T_Out \<Rightarrow> True | T_Handler m o1 \<Rightarrow> True | _ \<Rightarrow> False)"

definition inside :: "thread_info \<Rightarrow> bool" where
  "inside th \<longleftrightarrow> th_loc th \<noteq> T_Out"

inductive sched_step :: "system \<Rightarrow> system \<Rightarrow> bool" where
  s_enter: "i < length (sy_threads c) \<Longrightarrow> th_loc (sy_threads c ! i) = T_Out \<Longrightarrow>
    sched_step c (put i (enter_run m (sy_sched c) (sy_threads c ! i)) c)"
| s_loop: "i < length (sy_threads c) \<Longrightarrow> th_loc (sy_threads c ! i) = T_Loop m \<Longrightarrow>
    sched_step c (put i (loop_body m (sy_sched c) (sy_threads c ! i)) c)"
| s_wake: "i < length (sy_threads c) \<Longrightarrow> th_loc (sy_threads c ! i) = T_Waiting m \<Longrightarrow>
    ev_signalled (sc_event (sy_sched c)) \<or> m = M_Wait_One \<Longrightarrow>
    sched_step c (put i (end_wait m (sy_sched c) (sy_threads c ! i)) c)"
| s_react: "i < length (sy_threads c) \<Longrightarrow> th = sy_threads c ! i \<Longrightarrow> th_loc th = T_Task m \<Longrightarrow>
    mset ops \<subseteq># sy_reactor c \<Longrightarrow>
    sched_step c ((put i (sy_sched c, th\<lparr>th_private_queue := th_private_queue th @ ops\<rparr>) c)
      \<lparr>sy_reactor := sy_reactor c - mset ops\<rparr>)"
| s_task_done: "i < length (sy_threads c) \<Longrightarrow> th_loc (sy_threads c ! i) = T_Task m \<Longrightarrow>
    sched_step c (put i (task_cleanup m (sy_sched c) (sy_threads c ! i)) c)"
| s_look: "i < length (sy_threads c) \<Longrightarrow> th_loc (sy_threads c ! i) = T_Look m \<Longrightarrow>
    sched_step c (put i (second_look m (sy_sched c) (sy_threads c ! i)) c)"
| s_handled: "i < length (sy_threads c) \<Longrightarrow> th_loc (sy_threads c ! i) = T_Handler m o1 \<Longrightarrow>
    sched_step c ((put i (work_cleanup_count m (sy_sched c) (sy_threads c ! i)) c)
      \<lparr>sy_done := sy_done c @ [o1]\<rparr>)"
| s_stopping: "i < length (sy_threads c) \<Longrightarrow> th = sy_threads c ! i \<Longrightarrow> th_loc th = T_Clean m True \<Longrightarrow>
    sched_step c (put i (stop (sy_sched c), th\<lparr>th_loc := T_Clean m False\<rparr>) c)"
| s_clean: "i < length (sy_threads c) \<Longrightarrow> th_loc (sy_threads c ! i) = T_Clean m False \<Longrightarrow>
    sched_step c (put i (work_cleanup_queue m (sy_sched c) (sy_threads c ! i)) c)"
| s_post: "i < length (sy_threads c) \<Longrightarrow> th = sy_threads c ! i \<Longrightarrow> calling th \<Longrightarrow>
    sched_step c ((put i (post_immediate_completion (sy_sched c) th (inside th) op cont) c)
      \<lparr>sy_submitted := add_mset op (sy_submitted c)\<rparr>)"
| s_posts: "i < length (sy_threads c) \<Longrightarrow> th = sy_threads c ! i \<Longrightarrow> calling th \<Longrightarrow>
    sched_step c ((put i (post_immediate_completions (sy_sched c) th (inside th) (length ops) ops cont) c)
      \<lparr>sy_submitted := sy_submitted c + mset ops\<rparr>)"
| s_dispatch: "i < length (sy_threads c) \<Longrightarrow> th = sy_threads c ! i \<Longrightarrow> calling th \<Longrightarrow>
    sched_step c ((put i (do_dispatch (sy_sched c) op, th) c)\<lparr>sy_submitted := add_mset op (sy_submitted c)\<rparr>)"
| s_start: "i < length (sy_threads c) \<Longrightarrow> th = sy_threads c ! i \<Longrightarrow> calling th \<Longrightarrow>
    sched_step c ((put i (work_started (sy_sched c), th) c)
      \<lparr>sy_submitted := add_mset op (sy_submitted c), sy_reactor := add_mset op (sy_reactor c)\<rparr>)"
| s_deferred: "i < length (sy_threads c) \<Longrightarrow> th = sy_threads c ! i \<Longrightarrow> calling th \<Longrightarrow> op \<in># sy_reactor c \<Longrightarrow>
    sched_step c ((put i (post_deferred_completion (sy_sched c) th (inside th) op) c)
      \<lparr>sy_reactor := sy_reactor c - {#op#}\<rparr>)"
| s_deferreds: "i < length (sy_threads c) \<Longrightarrow> th = sy_threads c ! i \<Longrightarrow> calling th \<Longrightarrow>
    mset ops \<subseteq># sy_reactor c \<Longrightarrow>
    sched_step c ((put i (post_deferred_completions (sy_sched c) th (inside th) ops) c)
      \<lparr>sy_reactor := sy_reactor c - mset ops\<rparr>)"
| s_guard: "i < length (sy_threads c) \<Longrightarrow> th = sy_threads c ! i \<Longrightarrow> calling th \<Longrightarrow>
    sched_step c ((put i (work_started (sy_sched c), th) c)\<lparr>sy_guards := sy_guards c + 1\<rparr>)"
| s_unguard: "i < length (sy_threads c) \<Longrightarrow> th = sy_threads c ! i \<Longrightarrow> calling th \<Longrightarrow> 0 < sy_guards c \<Longrightarrow>
    sched_step c ((put i (fst (work_finished (sy_sched c)), th) c)\<lparr>sy_guards := sy_guards c - 1\<rparr>)"
| s_stop: "i < length (sy_threads c) \<Longrightarrow> th = sy_threads c ! i \<Longrightarrow> calling th \<Longrightarrow>
    sched_step c (put i (stop (sy_sched c), th) c)"
| s_restart: "i < length (sy_threads c) \<Longrightarrow> th = sy_threads c ! i \<Longrightarrow> calling th \<Longrightarrow>
    sched_step c (put i (restart (sy_sched c), th) c)"
| s_init: "i < length (sy_threads c) \<Longrightarrow> th = sy_threads c ! i \<Longrightarrow> calling th \<Longrightarrow>
    sched_step c (put i (init_task (sy_sched c), th) c)"
| s_shutdown: "\<forall>th \<in> set (sy_threads c). th_loc th = T_Out \<Longrightarrow> shutdown (sy_sched c) = (s', ops) \<Longrightarrow>
    sched_step c (c\<lparr>sy_sched := s', sy_destroyed := sy_destroyed c + mset ops\<rparr>)"

text \<open>The release of a guard may also have to stop the scheduler; \<open>stop\<close> is a step of its own there, as
  the code calls it after the count was changed.\<close>

inductive reachable :: "bool \<Rightarrow> nat \<Rightarrow> system \<Rightarrow> bool" for one_thread :: bool and n :: nat where
  reach_init: "reachable one_thread n (system_init one_thread n)"
| reach_step: "reachable one_thread n c \<Longrightarrow> sched_step c c' \<Longrightarrow> reachable one_thread n c'"

section \<open>The invariant\<close>

definition queue_ops :: "sched \<Rightarrow> nat multiset" where
  "queue_ops s = mset (concat (map (\<lambda>q. case q of Q_Task \<Rightarrow> [] | Q_Op o1 \<Rightarrow> [o1]) (sc_op_queue s)))"

definition in_handler :: "thread_info \<Rightarrow> nat multiset" where
  "in_handler th = (case th_loc th of T_Handler m o1 \<Rightarrow> {#o1#} | _ \<Rightarrow> {#})"

definition held :: "thread_info \<Rightarrow> nat multiset" where
  "held th = mset (th_private_queue th) + in_handler th"

definition task_tokens :: "sched \<Rightarrow> nat" where
  "task_tokens s = length (filter (\<lambda>q. q = Q_Task) (sc_op_queue s))"

definition in_task :: "thread_info \<Rightarrow> nat" where
  "in_task th = (case th_loc th of T_Task m \<Rightarrow> 1 | _ \<Rightarrow> 0)"

definition thread_ok :: "thread_info \<Rightarrow> bool" where
  "thread_ok th \<longleftrightarrow> 0 \<le> th_private_work th \<and> th_private_work th \<le> int (length (th_private_queue th)) \<and>
     (case th_loc th of T_Handler m o1 \<Rightarrow> True | T_Task m \<Rightarrow> th_private_work th = 0
      | T_Clean m b \<Rightarrow> th_private_work th = 0
      | _ \<Rightarrow> th_private_work th = 0 \<and> th_private_queue th = [])"

definition conserved :: "system \<Rightarrow> bool" where
  "conserved c \<longleftrightarrow> sy_submitted c = mset (sy_done c) + sy_destroyed c + sy_reactor c + queue_ops (sy_sched c) +
     (\<Sum>th\<leftarrow>sy_threads c. held th)"

definition work_counted :: "system \<Rightarrow> bool" where
  "work_counted c \<longleftrightarrow> sc_shutdown (sy_sched c) \<or>
     sc_outstanding_work (sy_sched c) + (\<Sum>th\<leftarrow>sy_threads c. th_private_work th) =
       int (size (queue_ops (sy_sched c))) + (\<Sum>th\<leftarrow>sy_threads c. int (size (held th))) +
       int (size (sy_reactor c)) + int (sy_guards c)"

definition one_task :: "system \<Rightarrow> bool" where
  "one_task c \<longleftrightarrow> task_tokens (sy_sched c) + (\<Sum>th\<leftarrow>sy_threads c. in_task th) = of_bool (sc_task (sy_sched c))"

definition sched_inv :: "system \<Rightarrow> bool" where
  "sched_inv c \<longleftrightarrow> conserved c \<and> work_counted c \<and> one_task c \<and> (\<forall>th \<in> set (sy_threads c). thread_ok th)"

lemma sum_list_update:
  fixes f :: "'a \<Rightarrow> 'b :: comm_monoid_add"
  shows "i < length xs \<Longrightarrow> (\<Sum>x\<leftarrow>xs[i := y]. f x) + f (xs ! i) = (\<Sum>x\<leftarrow>xs. f x) + f y"
proof (induction xs arbitrary: i)
  case (Cons x xs)
  then show ?case by (cases i) (simp_all add: ac_simps)
qed simp

text \<open>What a step has to balance locally, on the scheduler and the one thread it changes.\<close>

definition balanced :: "system \<Rightarrow> nat \<Rightarrow> system \<Rightarrow> bool" where
  "balanced c i c' \<longleftrightarrow>
     (let s = sy_sched c; s' = sy_sched c'; th = sy_threads c ! i; th' = sy_threads c' ! i in
      sy_submitted c' + (mset (sy_done c) + sy_reactor c + queue_ops s + held th) =
        sy_submitted c + (mset (sy_done c') + sy_reactor c' + queue_ops s' + held th') \<and>
      sc_shutdown s' = sc_shutdown s \<and>
      sc_outstanding_work s' + th_private_work th' + int (size (queue_ops s)) + int (size (held th)) +
        int (size (sy_reactor c)) + int (sy_guards c) =
        sc_outstanding_work s + th_private_work th + int (size (queue_ops s')) + int (size (held th')) +
        int (size (sy_reactor c')) + int (sy_guards c') \<and>
      task_tokens s' + in_task th' + of_bool (sc_task s) = task_tokens s + in_task th + of_bool (sc_task s') \<and>
      thread_ok th')"

lemma sched_inv_local:
  assumes inv: "sched_inv c" and i: "i < length (sy_threads c)"
    and ts: "sy_threads c' = (sy_threads c)[i := th']" and d: "sy_destroyed c' = sy_destroyed c"
    and b: "balanced c i c'"
  shows "sched_inv c'"
proof -
  let ?th = "sy_threads c ! i"
  have th': "sy_threads c' ! i = th'" using ts i by simp
  note b' = b [unfolded balanced_def Let_def th']
  have S: "(\<Sum>th\<leftarrow>sy_threads c'. held th) + held ?th = (\<Sum>th\<leftarrow>sy_threads c. held th) + held th'"
    unfolding ts by (rule sum_list_update [OF i])
  let ?old = "mset (sy_done c) + sy_reactor c + queue_ops (sy_sched c)"
  let ?new = "mset (sy_done c') + sy_reactor c' + queue_ops (sy_sched c')"
  have "sy_submitted c' + (?old + held ?th) = sy_submitted c + (?new + held th')"
    using b' by (simp only: simp_thms)
  also have "\<dots> = sy_destroyed c + ?old + ?new + ((\<Sum>th\<leftarrow>sy_threads c. held th) + held th')"
    using inv by (simp add: sched_inv_def conserved_def ac_simps)
  also have "\<dots> = (mset (sy_done c') + sy_destroyed c' + sy_reactor c' + queue_ops (sy_sched c') +
      (\<Sum>th\<leftarrow>sy_threads c'. held th)) + (?old + held ?th)"
    unfolding S [symmetric] d by (simp add: ac_simps)
  finally have 1: "conserved c'" by (simp add: conserved_def)
  have "(\<Sum>th\<leftarrow>sy_threads c'. th_private_work th) + th_private_work ?th = (\<Sum>th\<leftarrow>sy_threads c. th_private_work th) + th_private_work th'"
    and "(\<Sum>th\<leftarrow>sy_threads c'. int (size (held th))) + int (size (held ?th)) =
      (\<Sum>th\<leftarrow>sy_threads c. int (size (held th))) + int (size (held th'))"
    unfolding ts by (rule sum_list_update [OF i])+
  then have 2: "work_counted c'" using inv b' by (auto simp: sched_inv_def work_counted_def)
  have "(\<Sum>th\<leftarrow>sy_threads c'. in_task th) + in_task ?th = (\<Sum>th\<leftarrow>sy_threads c. in_task th) + in_task th'"
    unfolding ts by (rule sum_list_update [OF i])
  then have 3: "one_task c'" using inv b' by (auto simp: sched_inv_def one_task_def)
  have "thread_ok th" if "th \<in> set (sy_threads c')" for th
    using that inv b' set_update_subset_insert [of "sy_threads c" i th'] unfolding ts
    by (auto simp: sched_inv_def)
  then show ?thesis using 1 2 3 by (simp add: sched_inv_def)
qed

text \<open>Signals and interrupts do not touch what the invariant counts.\<close>

lemma queue_ops_cong: "sc_op_queue s' = sc_op_queue s \<Longrightarrow> queue_ops s' = queue_ops s"
  "sc_op_queue s' = sc_op_queue s \<Longrightarrow> task_tokens s' = task_tokens s"
  by (simp_all add: queue_ops_def task_tokens_def)

lemma interrupt_fields [simp]:
  "sc_op_queue (interrupt_task s) = sc_op_queue s" "sc_outstanding_work (interrupt_task s) = sc_outstanding_work s"
  "sc_shutdown (interrupt_task s) = sc_shutdown s" "sc_task (interrupt_task s) = sc_task s"
  "sc_one_thread (interrupt_task s) = sc_one_thread s"
  by (simp_all add: interrupt_task_def)

lemma wake_fields [simp]:
  "sc_op_queue (wake_one_thread_and_unlock s) = sc_op_queue s"
  "sc_outstanding_work (wake_one_thread_and_unlock s) = sc_outstanding_work s"
  "sc_shutdown (wake_one_thread_and_unlock s) = sc_shutdown s"
  "sc_task (wake_one_thread_and_unlock s) = sc_task s"
  by (simp_all add: wake_one_thread_and_unlock_def ev_maybe_signal_one_def Let_def)

lemma stop_fields [simp]:
  "sc_op_queue (stop s) = sc_op_queue s" "sc_outstanding_work (stop s) = sc_outstanding_work s"
  "sc_shutdown (stop s) = sc_shutdown s" "sc_task (stop s) = sc_task s"
  by (simp_all add: stop_def stop_all_threads_def)

lemma enqueue_fields [simp]:
  "sc_op_queue (enqueue s ops) = sc_op_queue s @ map Q_Op ops"
  "sc_outstanding_work (enqueue s ops) = sc_outstanding_work s"
  "sc_shutdown (enqueue s ops) = sc_shutdown s" "sc_task (enqueue s ops) = sc_task s"
  by (simp_all add: enqueue_def)

lemma queue_counts [simp]:
  "concat (map (\<lambda>q. case q of Q_Task \<Rightarrow> [] | Q_Op o1 \<Rightarrow> [o1]) (map Q_Op ops)) = ops"
  "concat (map (case_qitem [] (\<lambda>o1. [o1]) \<circ> Q_Op) ops) = ops"
  "filter (\<lambda>q. q = Q_Task) (map Q_Op ops) = []"
  by (induction ops) auto

lemmas local_defs = queue_ops_def task_tokens_def held_def in_handler_def in_task_def thread_ok_def

text \<open>A piece of scheduler code that moves operations between the queue and the thread, and nothing else.\<close>

definition neutral :: "sched \<Rightarrow> thread_info \<Rightarrow> sched \<times> thread_info \<Rightarrow> bool" where
  "neutral s th r \<longleftrightarrow>
     queue_ops (fst r) + held (snd r) = queue_ops s + held th \<and> sc_shutdown (fst r) = sc_shutdown s \<and>
     sc_outstanding_work (fst r) + th_private_work (snd r) = sc_outstanding_work s + th_private_work th \<and>
     task_tokens (fst r) + in_task (snd r) + of_bool (sc_task s) = task_tokens s + in_task th + of_bool (sc_task (fst r)) \<and>
     thread_ok (snd r)"

lemma neutral_inv:
  assumes "sched_inv c" "i < length (sy_threads c)" "neutral (sy_sched c) (sy_threads c ! i) r"
  shows "sched_inv (put i r c)"
proof (rule sched_inv_local [OF assms(1,2), of _ "snd r"])
  have q: "queue_ops (fst r) + held (snd r) = queue_ops (sy_sched c) + held (sy_threads c ! i)"
    using assms(3) by (simp add: neutral_def)
  have "int (size (queue_ops (fst r))) + int (size (held (snd r))) =
      int (size (queue_ops (sy_sched c))) + int (size (held (sy_threads c ! i)))"
    using arg_cong [OF q, of size] by simp
  moreover have "mset (sy_done c) + sy_reactor c + queue_ops (sy_sched c) + held (sy_threads c ! i) =
      mset (sy_done c) + sy_reactor c + queue_ops (fst r) + held (snd r)"
    using q by (simp add: ac_simps)
  ultimately show "balanced c i (put i r c)" using assms(2,3) by (simp add: balanced_def neutral_def put_def)
qed (simp_all add: put_def)

definition resting :: "thread_info \<Rightarrow> bool" where
  "resting th \<longleftrightarrow> th_private_work th = 0 \<and> th_private_queue th = [] \<and> in_handler th = {#} \<and> in_task th = 0"

lemma take_handler_neutral:
  "sc_op_queue s = Q_Op o1 # q \<Longrightarrow> resting th \<Longrightarrow> neutral s th (take_handler m s th o1 q)"
  by (auto simp: neutral_def take_handler_def Let_def resting_def local_defs)

lemma take_task_neutral:
  "sc_op_queue s = Q_Task # q \<Longrightarrow> resting th \<Longrightarrow> neutral s th (take_task m s th q)"
  by (auto simp: neutral_def take_task_def Let_def resting_def local_defs)

lemma leave_neutral:
  "sc_op_queue s' = sc_op_queue s \<Longrightarrow> sc_outstanding_work s' = sc_outstanding_work s \<Longrightarrow> sc_shutdown s' = sc_shutdown s \<Longrightarrow>
   sc_task s' = sc_task s \<Longrightarrow> resting th \<Longrightarrow> l = T_Out \<or> (\<exists>m. l = T_Loop m) \<or> (\<exists>m. l = T_Waiting m) \<Longrightarrow>
   neutral s th (s', th\<lparr>th_loc := l\<rparr>)"
  by (auto simp: neutral_def resting_def local_defs)

lemma resting_at:
  "thread_ok th \<Longrightarrow> th_loc th = T_Loop m \<Longrightarrow> resting th" "thread_ok th \<Longrightarrow> th_loc th = T_Waiting m \<Longrightarrow> resting th"
  "thread_ok th \<Longrightarrow> th_loc th = T_Look m \<Longrightarrow> resting th"
  by (auto simp: resting_def thread_ok_def in_handler_def in_task_def)

lemma poll_task_neutral:
  "sc_op_queue s = Q_Task # q \<Longrightarrow> resting th \<Longrightarrow> neutral s th (s\<lparr>sc_op_queue := q\<rparr>, th\<lparr>th_loc := T_Task m\<rparr>)"
  by (auto simp: neutral_def resting_def local_defs)

lemma do_poll_one_neutral: "resting th \<Longrightarrow> neutral s th (do_poll_one m s th)"
  unfolding do_poll_one_def
  by (simp add: leave_neutral poll_task_neutral take_handler_neutral split: list.split qitem.split)

lemma loop_body_neutral: "resting th \<Longrightarrow> neutral s th (loop_body m s th)"
  by (auto simp: loop_body_def do_run_one_def do_wait_one_def
      split: mode.splits list.splits qitem.splits
      intro!: take_handler_neutral take_task_neutral leave_neutral do_poll_one_neutral)

lemma second_look_neutral: "resting th \<Longrightarrow> neutral s th (second_look m s th)"
  by (auto simp: second_look_def split: list.splits qitem.splits intro!: take_handler_neutral leave_neutral)

lemma end_wait_neutral: "resting th \<Longrightarrow> neutral s th (end_wait m s th)"
proof -
  assume r: "resting th"
  let ?s = "s\<lparr>sc_event := ev_wait_end (sc_event s)\<rparr>"
  have e: "neutral ?s th x \<Longrightarrow> neutral s th x" for x
    by (simp add: neutral_def queue_ops_def task_tokens_def)
  show ?thesis using r
    by (auto simp: end_wait_def after_wait_def Let_def split: list.splits qitem.splits
        intro!: leave_neutral e take_handler_neutral take_task_neutral)
qed

lemma task_cleanup_neutral:
  "thread_ok th \<Longrightarrow> th_loc th = T_Task m \<Longrightarrow> neutral s th (task_cleanup m s th)"
  by (auto simp: neutral_def task_cleanup_def Let_def local_defs)

lemma work_cleanup_queue_neutral:
  "thread_ok th \<Longrightarrow> th_loc th = T_Clean m b \<Longrightarrow> neutral s th (work_cleanup_queue m s th)"
  by (auto simp: neutral_def work_cleanup_queue_def Let_def local_defs)

lemma init_task_neutral:
  "thread_ok th \<Longrightarrow> neutral s th (init_task s, th)"
  by (auto simp: neutral_def init_task_def queue_ops_def task_tokens_def)

lemma sched_inv_init: "sched_inv (system_init one_thread n)"
proof -
  have "(\<Sum>th\<leftarrow>replicate n idle_thread. held th) = {#}" "(\<Sum>th\<leftarrow>replicate n idle_thread. th_private_work th) = 0"
    "(\<Sum>th\<leftarrow>replicate n idle_thread. int (size (held th))) = 0" "(\<Sum>th\<leftarrow>replicate n idle_thread. in_task th) = 0"
    by (induction n) (auto simp: idle_thread_def held_def in_handler_def in_task_def)
  then show ?thesis
    by (auto simp: sched_inv_def conserved_def work_counted_def one_task_def system_init_def scheduler_ctor_def
        queue_ops_def task_tokens_def thread_ok_def idle_thread_def)
qed

lemma calling_ok:
  "thread_ok th \<Longrightarrow> calling th \<Longrightarrow> (th_loc th = T_Out \<and> resting th) \<or> (\<exists>m o1. th_loc th = T_Handler m o1)"
  by (auto simp: calling_def resting_def thread_ok_def in_handler_def in_task_def split: tloc.splits)

lemma enter_run_neutral:
  "thread_ok th \<Longrightarrow> th_loc th = T_Out \<Longrightarrow> neutral s th (enter_run m s th)"
  by (auto simp: neutral_def enter_defs local_defs split: mode.splits)

lemma stop_neutral: "thread_ok th \<Longrightarrow> neutral s th (stop s, th)"
  and restart_neutral: "thread_ok th \<Longrightarrow> neutral s th (restart s, th)"
  by (auto simp: neutral_def queue_ops_def task_tokens_def restart_def)

lemma sched_inv_handled:
  assumes inv: "sched_inv c" and i: "i < length (sy_threads c)" and l: "th_loc (sy_threads c ! i) = T_Handler m o1"
  shows "sched_inv ((put i (work_cleanup_count m (sy_sched c) (sy_threads c ! i)) c)\<lparr>sy_done := sy_done c @ [o1]\<rparr>)"
proof (rule sched_inv_local [OF inv i])
  let ?th = "sy_threads c ! i"
  have "thread_ok ?th" using inv i by (simp add: sched_inv_def)
  then show "balanced c i ((put i (work_cleanup_count m (sy_sched c) ?th) c)\<lparr>sy_done := sy_done c @ [o1]\<rparr>)"
    using i l by (auto simp: balanced_def put_def work_cleanup_count_def work_finished_def Let_def local_defs)
qed (simp_all add: put_def)

text \<open>The steps that submit an operation or take one from the reactor.\<close>

text \<open>A call from outside a handler or from inside one adds as much work as it adds operations or guards.\<close>

lemma sched_inv_post:
  assumes "sched_inv c" and "i < length (sy_threads c)" and "th = sy_threads c ! i" and "calling th"
  shows "sched_inv ((put i (post_immediate_completion (sy_sched c) th (inside th) op cont) c)
      \<lparr>sy_submitted := add_mset op (sy_submitted c)\<rparr>)"
proof (rule sched_inv_local [OF assms(1,2)])
  have ok: "thread_ok th" using assms(1-3) by (simp add: sched_inv_def)
  show "balanced c i ((put i (post_immediate_completion (sy_sched c) th (inside th) op cont) c)
      \<lparr>sy_submitted := add_mset op (sy_submitted c)\<rparr>)"
    using assms(2) ok calling_ok [OF ok assms(4)]
    by (auto simp: balanced_def put_def post_immediate_completion_def inside_def work_started_def resting_def local_defs
        assms(3) [symmetric])
qed (simp_all add: put_def)

lemma sched_inv_posts:
  assumes "sched_inv c" and "i < length (sy_threads c)" and "th = sy_threads c ! i" and "calling th"
  shows "sched_inv ((put i (post_immediate_completions (sy_sched c) th (inside th) (length ops) ops cont) c)
      \<lparr>sy_submitted := sy_submitted c + mset ops\<rparr>)"
proof (rule sched_inv_local [OF assms(1,2)])
  have ok: "thread_ok th" using assms(1-3) by (simp add: sched_inv_def)
  show "balanced c i ((put i (post_immediate_completions (sy_sched c) th (inside th) (length ops) ops cont) c)
      \<lparr>sy_submitted := sy_submitted c + mset ops\<rparr>)"
    using assms(2) ok calling_ok [OF ok assms(4)]
    by (auto simp: balanced_def put_def post_immediate_completions_def inside_def resting_def local_defs
        assms(3) [symmetric])
qed (simp_all add: put_def)

lemma sched_inv_dispatch:
  assumes "sched_inv c" and "i < length (sy_threads c)" and "th = sy_threads c ! i" and "calling th"
  shows "sched_inv ((put i (do_dispatch (sy_sched c) op, th) c)\<lparr>sy_submitted := add_mset op (sy_submitted c)\<rparr>)"
proof (rule sched_inv_local [OF assms(1,2)])
  have ok: "thread_ok th" using assms(1-3) by (simp add: sched_inv_def)
  show "balanced c i ((put i (do_dispatch (sy_sched c) op, th) c)\<lparr>sy_submitted := add_mset op (sy_submitted c)\<rparr>)"
    using assms(2) ok
    by (auto simp: balanced_def put_def do_dispatch_def work_started_def queue_ops_def task_tokens_def
        assms(3) [symmetric])
qed (simp_all add: put_def)

lemma sched_inv_register:
  assumes "sched_inv c" and "i < length (sy_threads c)" and "th = sy_threads c ! i" and "calling th"
  shows "sched_inv ((put i (work_started (sy_sched c), th) c)
      \<lparr>sy_submitted := add_mset op (sy_submitted c), sy_reactor := add_mset op (sy_reactor c)\<rparr>)"
proof (rule sched_inv_local [OF assms(1,2)])
  have ok: "thread_ok th" using assms(1-3) by (simp add: sched_inv_def)
  show "balanced c i ((put i (work_started (sy_sched c), th) c)
      \<lparr>sy_submitted := add_mset op (sy_submitted c), sy_reactor := add_mset op (sy_reactor c)\<rparr>)"
    using assms(2) ok
    by (auto simp: balanced_def put_def work_started_def queue_ops_def task_tokens_def
        assms(3) [symmetric])
qed (simp_all add: put_def)

lemma sched_inv_guard:
  assumes "sched_inv c" and "i < length (sy_threads c)" and "th = sy_threads c ! i" and "calling th"
  shows "sched_inv ((put i (work_started (sy_sched c), th) c)\<lparr>sy_guards := sy_guards c + 1\<rparr>)"
proof (rule sched_inv_local [OF assms(1,2)])
  have ok: "thread_ok th" using assms(1-3) by (simp add: sched_inv_def)
  show "balanced c i ((put i (work_started (sy_sched c), th) c)\<lparr>sy_guards := sy_guards c + 1\<rparr>)"
    using assms(2) ok
    by (auto simp: balanced_def put_def work_started_def queue_ops_def task_tokens_def
        assms(3) [symmetric])
qed (simp_all add: put_def)

lemma sched_inv_unguard:
  assumes "sched_inv c" and "i < length (sy_threads c)" and "th = sy_threads c ! i" and "calling th"
    and "0 < sy_guards c"
  shows "sched_inv ((put i (fst (work_finished (sy_sched c)), th) c)\<lparr>sy_guards := sy_guards c - 1\<rparr>)"
proof (rule sched_inv_local [OF assms(1,2)])
  have ok: "thread_ok th" using assms(1-3) by (simp add: sched_inv_def)
  show "balanced c i ((put i (fst (work_finished (sy_sched c)), th) c)\<lparr>sy_guards := sy_guards c - 1\<rparr>)"
    using assms(2) ok assms(5)
    by (auto simp: balanced_def put_def work_finished_def Let_def queue_ops_def task_tokens_def
        assms(3) [symmetric])
qed (simp_all add: put_def)

lemmas sched_inv_submit =
  sched_inv_post sched_inv_posts sched_inv_dispatch sched_inv_register sched_inv_guard sched_inv_unguard

lemma sched_inv_from_reactor:
  assumes inv: "sched_inv c" and i: "i < length (sy_threads c)" and th: "th = sy_threads c ! i"
    and sub: "mset ops \<subseteq># sy_reactor c"
  shows "th_loc th = T_Task m \<Longrightarrow>
      sched_inv ((put i (sy_sched c, th\<lparr>th_private_queue := th_private_queue th @ ops\<rparr>) c)
        \<lparr>sy_reactor := sy_reactor c - mset ops\<rparr>)"
    "calling th \<Longrightarrow> sched_inv ((put i (post_deferred_completions (sy_sched c) th (inside th) ops) c)
      \<lparr>sy_reactor := sy_reactor c - mset ops\<rparr>)"
    "calling th \<Longrightarrow> ops = [op] \<Longrightarrow> sched_inv ((put i (post_deferred_completion (sy_sched c) th (inside th) op) c)
      \<lparr>sy_reactor := sy_reactor c - {#op#}\<rparr>)"
proof -
  have ok: "thread_ok th" using inv i th by (simp add: sched_inv_def)
  obtain R where R: "sy_reactor c = mset ops + R" using sub by (metis subset_mset.le_iff_add)
  show "sched_inv ((put i (sy_sched c, th\<lparr>th_private_queue := th_private_queue th @ ops\<rparr>) c)
        \<lparr>sy_reactor := sy_reactor c - mset ops\<rparr>)" if "th_loc th = T_Task m"
  proof (rule sched_inv_local [OF inv i])
    show "balanced c i ((put i (sy_sched c, th\<lparr>th_private_queue := th_private_queue th @ ops\<rparr>) c)
        \<lparr>sy_reactor := sy_reactor c - mset ops\<rparr>)"
      using i ok that R by (auto simp: balanced_def put_def local_defs th [symmetric])
  qed (simp_all add: put_def)
  have many: "sched_inv ((put i (post_deferred_completions (sy_sched c) th (inside th) ops) c)
      \<lparr>sy_reactor := sy_reactor c - mset ops\<rparr>)" if call: "calling th"
  proof (rule sched_inv_local [OF inv i])
    show "balanced c i ((put i (post_deferred_completions (sy_sched c) th (inside th) ops) c)
      \<lparr>sy_reactor := sy_reactor c - mset ops\<rparr>)"
      using i ok R calling_ok [OF ok call]
      by (auto simp: balanced_def put_def post_deferred_completions_def inside_def resting_def local_defs th [symmetric])
  qed (simp_all add: put_def)
  then show "calling th \<Longrightarrow> sched_inv ((put i (post_deferred_completions (sy_sched c) th (inside th) ops) c)
      \<lparr>sy_reactor := sy_reactor c - mset ops\<rparr>)" .
  assume "calling th" "ops = [op]"
  then show "sched_inv ((put i (post_deferred_completion (sy_sched c) th (inside th) op) c)
      \<lparr>sy_reactor := sy_reactor c - {#op#}\<rparr>)"
    using many by (simp add: post_deferred_completion_def post_deferred_completions_def)
qed

lemma sched_inv_shutdown:
  assumes inv: "sched_inv c" and out: "\<forall>th \<in> set (sy_threads c). th_loc th = T_Out"
    and s: "shutdown (sy_sched c) = (s', ops)"
  shows "sched_inv (c\<lparr>sy_sched := s', sy_destroyed := sy_destroyed c + mset ops\<rparr>)"
proof -
  have s': "s' = (sy_sched c)\<lparr>sc_shutdown := True, sc_op_queue := [], sc_task := False\<rparr>" "mset ops = queue_ops (sy_sched c)"
    using s by (auto simp: shutdown_def queue_ops_def)
  have "(\<Sum>th\<leftarrow>sy_threads c. in_task th) = 0"
    using out by (auto simp: sum_list_eq_0_iff in_task_def)
  then show ?thesis using inv
    by (auto simp: s' sched_inv_def conserved_def work_counted_def one_task_def queue_ops_def task_tokens_def ac_simps)
qed

lemma stopping_neutral:
  "thread_ok th \<Longrightarrow> th_loc th = T_Clean m True \<Longrightarrow> neutral s th (stop s, th\<lparr>th_loc := T_Clean m False\<rparr>)"
  by (auto simp: neutral_def local_defs)

lemma inv_thread_ok: "sched_inv c \<Longrightarrow> i < length (sy_threads c) \<Longrightarrow> thread_ok (sy_threads c ! i)"
  by (simp add: sched_inv_def)

lemma sched_inv_step: "sched_step c c' \<Longrightarrow> sched_inv c \<Longrightarrow> sched_inv c'"
proof (induction rule: sched_step.induct)
  case (s_shutdown c s' ops)
  then show ?case by (simp add: sched_inv_shutdown)
next
  case (s_deferred i c th op)
  then show ?case using sched_inv_from_reactor(3) [of c i th "[op]"] by simp
next
  case (s_guard i c th)
  then show ?case using sched_inv_guard [of c i th] by simp
next
  case (s_unguard i c th)
  then show ?case using sched_inv_unguard [of c i th] by simp
qed (auto intro!: neutral_inv sched_inv_handled sched_inv_submit sched_inv_from_reactor
    intro: enter_run_neutral loop_body_neutral end_wait_neutral second_look_neutral task_cleanup_neutral
      work_cleanup_queue_neutral init_task_neutral stop_neutral restart_neutral stopping_neutral
      resting_at inv_thread_ok)

lemma reachable_inv: "reachable one_thread n c \<Longrightarrow> sched_inv c"
  by (induction rule: reachable.induct) (auto intro: sched_inv_init sched_inv_step)

section \<open>When the count of work reaches zero\<close>

definition uncounted :: "thread_info \<Rightarrow> int" where
  "uncounted th = int (size (held th)) - th_private_work th"

lemma uncounted_ok:
  "thread_ok th \<Longrightarrow> int (size (in_handler th)) \<le> uncounted th"
  "thread_ok th \<Longrightarrow> uncounted th = 0 \<Longrightarrow> held th = {#}"
  by (auto simp: uncounted_def held_def thread_ok_def in_handler_def split: tloc.splits)

lemma work_counted_uncounted:
  "sched_inv c \<Longrightarrow> \<not> sc_shutdown (sy_sched c) \<Longrightarrow>
   sc_outstanding_work (sy_sched c) = int (size (queue_ops (sy_sched c))) + (\<Sum>th\<leftarrow>sy_threads c. uncounted th) +
     int (size (sy_reactor c)) + int (sy_guards c)"
  by (simp add: sched_inv_def work_counted_def uncounted_def sum_list_subtractf)

lemma last_work:
  assumes inv: "sched_inv c" "\<not> sc_shutdown (sy_sched c)" and i: "i < length (sy_threads c)"
    and h: "th_loc (sy_threads c ! i) = T_Handler m o1"
    and stop: "th_loc (snd (work_cleanup_count m (sy_sched c) (sy_threads c ! i))) = T_Clean m True"
  shows "queue_ops (sy_sched c) = {#} \<and> sy_reactor c = {#} \<and> sy_guards c = 0 \<and>
    th_private_queue (sy_threads c ! i) = [] \<and>
    (\<forall>j < length (sy_threads c). j \<noteq> i \<longrightarrow> held (sy_threads c ! j) = {#})"
proof -
  let ?ts = "sy_threads c" and ?th = "sy_threads c ! i"
  have ok: "\<forall>th \<in> set ?ts. thread_ok th" using inv(1) by (simp add: sched_inv_def)
  then have oki: "thread_ok ?th" using i by simp
  have pw: "th_private_work ?th = 0" "sc_outstanding_work (sy_sched c) = 1"
    using stop oki by (auto simp: work_cleanup_count_def work_finished_def Let_def thread_ok_def split: if_splits)
  have ui: "uncounted ?th = int (length (th_private_queue ?th)) + 1"
    using pw(1) h by (simp add: uncounted_def held_def in_handler_def)
  let ?us = "?ts[i := idle_thread]"
  have sum: "(\<Sum>th\<leftarrow>?us. uncounted th) + uncounted ?th = (\<Sum>th\<leftarrow>?ts. uncounted th)"
    using sum_list_update [OF i, of uncounted idle_thread]
    by (simp add: uncounted_def held_def in_handler_def idle_thread_def)
  have oku: "thread_ok th" if "th \<in> set ?us" for th
    using that ok set_update_subset_insert [of ?ts i idle_thread] by (auto simp: thread_ok_def idle_thread_def)
  then have nn: "\<forall>u \<in> set (map uncounted ?us). 0 \<le> u"
    using uncounted_ok(1) by (force intro: order_trans [of 0 "int (size _)"])
  then have "0 \<le> (\<Sum>th\<leftarrow>?us. uncounted th)" by (meson sum_list_nonneg)
  then have "size (queue_ops (sy_sched c)) = 0" "size (sy_reactor c) = 0" "sy_guards c = 0"
      "length (th_private_queue ?th) = 0" "(\<Sum>th\<leftarrow>?us. uncounted th) = 0"
    using work_counted_uncounted [OF inv] pw(2) ui sum by linarith+
  then have z: "queue_ops (sy_sched c) = {#}" "sy_reactor c = {#}" "sy_guards c = 0" "th_private_queue ?th = []"
      "(\<Sum>th\<leftarrow>?us. uncounted th) = 0" by auto
  have "uncounted th = 0" if "th \<in> set ?us" for th
    using z(5) nn that by (subst (asm) sum_list_nonneg_eq_0_iff) auto
  then have "held th = {#}" if "th \<in> set ?us" for th using that oku uncounted_ok(2) by blast
  moreover have "?ts ! j \<in> set ?us" if "j < length ?ts" "j \<noteq> i" for j
    using that by (metis length_list_update nth_list_update_neq nth_mem)
  ultimately show ?thesis using z by blast
qed

lemma one_in_task:
  assumes inv: "sched_inv c" and ij: "i < length (sy_threads c)" "j < length (sy_threads c)" "i \<noteq> j"
    and i: "th_loc (sy_threads c ! i) = T_Task m"
  shows "th_loc (sy_threads c ! j) \<noteq> T_Task m' \<and> Q_Task \<notin> set (sc_op_queue (sy_sched c))"
proof -
  let ?us = "(sy_threads c)[i := idle_thread]"
  have "(\<Sum>th\<leftarrow>?us. in_task th) + in_task (sy_threads c ! i) = (\<Sum>th\<leftarrow>sy_threads c. in_task th)"
    using sum_list_update [OF ij(1), of in_task idle_thread] by (simp add: in_task_def idle_thread_def)
  moreover have "in_task (sy_threads c ! i) = 1" using i by (simp add: in_task_def)
  moreover have "task_tokens (sy_sched c) + (\<Sum>th\<leftarrow>sy_threads c. in_task th) \<le> 1"
    using inv by (simp add: sched_inv_def one_task_def)
  ultimately have "(\<Sum>th\<leftarrow>?us. in_task th) = 0" "task_tokens (sy_sched c) = 0" by linarith+
  moreover have "in_task (sy_threads c ! j) \<in> set (map in_task ?us)"
    using ij by (metis (no_types) length_list_update length_map nth_list_update_neq nth_map nth_mem)
  ultimately show ?thesis by (auto simp: sum_list_eq_0_iff in_task_def task_tokens_def filter_empty_conv)
qed

section \<open>Properties of the scheduler\<close>

text \<open>A run of one thread: it posts operation 7, calls \<open>run\<close> and takes the handler.\<close>

definition posted_system :: "bool \<Rightarrow> system" where
  "posted_system one_thread = (let c = system_init one_thread 1 in
     (put 0 (post_immediate_completion (sy_sched c) idle_thread False 7 False) c)\<lparr>sy_submitted := {#7#}\<rparr>)"

definition handling_system :: "bool \<Rightarrow> system" where
  "handling_system one_thread =
     (let c = posted_system one_thread;
          c = put 0 (enter_run M_Run (sy_sched c) (sy_threads c ! 0)) c
      in put 0 (loop_body M_Run (sy_sched c) (sy_threads c ! 0)) c)"

lemma posted_reachable: "reachable one_thread 1 (posted_system one_thread)"
proof -
  let ?c = "system_init one_thread 1"
  have "sched_step ?c ((put 0 (post_immediate_completion (sy_sched ?c) idle_thread (inside idle_thread) 7 False) ?c)
      \<lparr>sy_submitted := add_mset 7 (sy_submitted ?c)\<rparr>)"
    by (rule s_post) (simp_all add: system_init_def calling_def idle_thread_def)
  then have "sched_step ?c (posted_system one_thread)"
    by (simp add: posted_system_def inside_def idle_thread_def system_init_def)
  then show ?thesis by (rule reach_step [OF reach_init])
qed

lemmas example_defs = handling_system_def posted_system_def put_def post_immediate_completion_def work_started_def
  enqueue_def wake_one_thread_and_unlock_def ev_maybe_signal_one_def interrupt_task_def system_init_def
  scheduler_ctor_def idle_thread_def enter_defs loop_body_def do_run_one_def take_handler_def Let_def

lemma handling_reachable: "reachable one_thread 1 (handling_system one_thread)"
proof -
  let ?c = "posted_system one_thread"
  let ?d = "put 0 (enter_run M_Run (sy_sched ?c) (sy_threads ?c ! 0)) ?c"
  have "sched_step ?c ?d" by (rule s_enter) (simp_all add: example_defs)
  moreover have "sched_step ?d (put 0 (loop_body M_Run (sy_sched ?d) (sy_threads ?d ! 0)) ?d)"
    by (rule s_loop) (simp_all add: example_defs)
  ultimately show ?thesis using posted_reachable reach_step unfolding handling_system_def Let_def by meson
qed

text \<open>C21: The scheduler neither loses nor duplicates an operation. However the threads interleave, and
  whatever the handlers post and the reactor completes, every operation ever submitted is at every
  moment in exactly one place: already run, destroyed at shutdown, in the reactor, in the shared queue,
  on the private queue of a thread, or in the handler a thread is running; so no operation runs more
  often than it was submitted.\<close>

theorem scheduler_conserves_operations:
  assumes "reachable one_thread n c"
  shows "sy_submitted c = mset (sy_done c) + sy_destroyed c + sy_reactor c + queue_ops (sy_sched c) +
      (\<Sum>th\<leftarrow>sy_threads c. held th) \<and>
    (\<forall>x. count (mset (sy_done c)) x \<le> count (sy_submitted c) x)"
  using reachable_inv [OF assms] by (auto simp: sched_inv_def conserved_def)

theorem scheduler_conserves_operations_witness:
  "sy_submitted (handling_system True) = {#7#} \<and>
   {#7#} = (\<Sum>th\<leftarrow>sy_threads (handling_system True). held th)"
proof -
  have "sy_submitted (handling_system True) = {#7#}" "sy_done (handling_system True) = []"
    "sy_destroyed (handling_system True) = {#}" "sy_reactor (handling_system True) = {#}"
    "queue_ops (sy_sched (handling_system True)) = {#}"
    by (simp_all add: example_defs queue_ops_def)
  then show ?thesis using scheduler_conserves_operations [OF handling_reachable, of True] by simp
qed

text \<open>C34: At most one thread is in the reactor. In every reachable state of any number of threads, while one
  thread runs the reactor no other thread does, and the marker that would let one enter is not in the
  queue.\<close>

theorem reactor_exclusive:
  assumes "reachable one_thread n c" and "i < length (sy_threads c)" and "j < length (sy_threads c)"
    and "i \<noteq> j" and "th_loc (sy_threads c ! i) = T_Task m"
  shows "th_loc (sy_threads c ! j) \<noteq> T_Task m' \<and> Q_Task \<notin> set (sc_op_queue (sy_sched c))"
  using one_in_task [OF reachable_inv [OF assms(1)] assms(2-5)] .

definition task_system :: system where
  "task_system =
     (let c = system_init False 2;
          c = (put 0 (work_started (sy_sched c), sy_threads c ! 0) c)\<lparr>sy_guards := sy_guards c + 1\<rparr>;
          c = put 0 (init_task (sy_sched c), sy_threads c ! 0) c;
          c = put 0 (enter_run M_Run (sy_sched c) (sy_threads c ! 0)) c
      in put 0 (loop_body M_Run (sy_sched c) (sy_threads c ! 0)) c)"

lemma task_reachable: "reachable False 2 task_system"
proof -
  let ?a = "system_init False 2"
  let ?b = "(put 0 (work_started (sy_sched ?a), sy_threads ?a ! 0) ?a)\<lparr>sy_guards := sy_guards ?a + 1\<rparr>"
  let ?c = "put 0 (init_task (sy_sched ?b), sy_threads ?b ! 0) ?b"
  let ?d = "put 0 (enter_run M_Run (sy_sched ?c) (sy_threads ?c ! 0)) ?c"
  have "sched_step ?a ?b" by (rule s_guard [OF _ refl]) (simp_all add: example_defs calling_def)
  moreover have "sched_step ?b ?c" by (rule s_init [OF _ refl]) (simp_all add: example_defs calling_def)
  moreover have "sched_step ?c ?d" by (rule s_enter) (simp_all add: example_defs)
  moreover have "sched_step ?d (put 0 (loop_body M_Run (sy_sched ?d) (sy_threads ?d ! 0)) ?d)"
    by (rule s_loop) (simp_all add: example_defs init_task_def)
  ultimately show ?thesis using reach_init reach_step unfolding task_system_def Let_def by meson
qed

theorem reactor_exclusive_witness:
  "th_loc (sy_threads task_system ! 0) = T_Task M_Run \<and> th_loc (sy_threads task_system ! 1) \<noteq> T_Task M_Run"
proof -
  have l: "length (sy_threads task_system) = 2" "th_loc (sy_threads task_system ! 0) = T_Task M_Run"
    by (simp_all add: task_system_def example_defs init_task_def take_task_def)
  show ?thesis using reactor_exclusive [OF task_reachable, of 0 1 M_Run M_Run] l by simp
qed

text \<open>C22: \<open>run\<close> does not give up work. When the last \<open>work_finished\<close> after a handler makes the scheduler stop
  itself, there is no operation left anywhere: none in the shared queue, in the reactor, on any private
  queue or in another thread's handler, and no work guard is held.\<close>

theorem stops_only_without_work:
  assumes "reachable one_thread n c" and "\<not> sc_shutdown (sy_sched c)" and "i < length (sy_threads c)"
    and "th_loc (sy_threads c ! i) = T_Handler m o1"
    and "th_loc (snd (work_cleanup_count m (sy_sched c) (sy_threads c ! i))) = T_Clean m True"
  shows "queue_ops (sy_sched c) = {#} \<and> sy_reactor c = {#} \<and> sy_guards c = 0 \<and>
    th_private_queue (sy_threads c ! i) = [] \<and>
    (\<forall>j < length (sy_threads c). j \<noteq> i \<longrightarrow> held (sy_threads c ! j) = {#})"
  using last_work [OF reachable_inv [OF assms(1)] assms(2-5)] .

theorem stops_only_without_work_witness:
  "th_loc (snd (work_cleanup_count M_Run (sy_sched (handling_system True)) (sy_threads (handling_system True) ! 0))) =
     T_Clean M_Run True \<and> queue_ops (sy_sched (handling_system True)) = {#}"
proof -
  let ?c = "handling_system True"
  have l: "\<not> sc_shutdown (sy_sched ?c)" "0 < length (sy_threads ?c)" "th_loc (sy_threads ?c ! 0) = T_Handler M_Run 7"
    and s: "th_loc (snd (work_cleanup_count M_Run (sy_sched ?c) (sy_threads ?c ! 0))) = T_Clean M_Run True"
    by (simp_all add: example_defs work_cleanup_count_def work_finished_def)
  show ?thesis using stops_only_without_work [OF handling_reachable l s] s by blast
qed

end
