(* ===== verification/Asio_Buffer.thy ===== *)
theory Asio_Buffer
  imports Xsix_Prelude
begin

text \<open>
  The buffers of asio, \<open>src/3rd/asio/include/asio/buffer.hpp\<close>. A \<open>mutable_buffer\<close> or \<open>const_buffer\<close> is an
  address and a size over a memory of bytes; a buffer sequence is a list of them. The overloads of
  \<open>buffer_copy\<close> are modelled one by one, on an explicit memory. Sizes are naturals: the regions are
  memory that exists, so that their sums stay below \<open>2 ^ 64\<close>.
\<close>

section \<open>Buffers\<close>

record abuf =
  ab_data :: nat
  ab_size :: nat

type_synonym 'b memory = "nat \<Rightarrow> 'b"

definition mk_buf :: "nat \<Rightarrow> nat \<Rightarrow> abuf" where
  "mk_buf d n = \<lparr> ab_data = d, ab_size = n \<rparr>"

definition buf_advance :: "abuf \<Rightarrow> nat \<Rightarrow> abuf" where
  "buf_advance b n =
     (let offset = (if n < ab_size b then n else ab_size b)
      in b\<lparr>ab_data := ab_data b + offset, ab_size := ab_size b - offset\<rparr>)"

definition buf_plus :: "abuf \<Rightarrow> nat \<Rightarrow> abuf" where
  "buf_plus b n =
     (let offset = (if n < ab_size b then n else ab_size b);
          new_data = ab_data b + offset;
          new_size = ab_size b - offset
      in mk_buf new_data new_size)"

definition buf_limit :: "abuf \<Rightarrow> nat \<Rightarrow> abuf" where
  "buf_limit b max_size_in_bytes =
     mk_buf (ab_data b) (if ab_size b < max_size_in_bytes then ab_size b else max_size_in_bytes)"

fun buffer_size :: "abuf list \<Rightarrow> nat" where
  "buffer_size [] = 0"
| "buffer_size (b # bs) = ab_size b + buffer_size bs"

section \<open>Copying\<close>

definition memcpy :: "'b memory \<Rightarrow> nat \<Rightarrow> nat \<Rightarrow> nat \<Rightarrow> 'b memory" where
  "memcpy mem dst src n = (\<lambda>a. if dst \<le> a \<and> a < dst + n then mem (src + (a - dst)) else mem a)"

definition buffer_copy_1 :: "'b memory \<Rightarrow> abuf \<Rightarrow> abuf \<Rightarrow> 'b memory \<times> nat" where
  "buffer_copy_1 mem target source =
     (let target_size = ab_size target;
          source_size = ab_size source;
          n = (if target_size < source_size then target_size else source_size)
      in (if n > 0 then memcpy mem (ab_data target) (ab_data source) n else mem, n))"

definition copy_one_one :: "'b memory \<Rightarrow> abuf \<Rightarrow> abuf \<Rightarrow> 'b memory \<times> nat" where
  "copy_one_one mem target source = buffer_copy_1 mem target source"

definition copy_one_one_max :: "'b memory \<Rightarrow> abuf \<Rightarrow> abuf \<Rightarrow> nat \<Rightarrow> 'b memory \<times> nat" where
  "copy_one_one_max mem target source max_bytes_to_copy =
     buffer_copy_1 mem target (buf_limit source max_bytes_to_copy)"

fun copy_one_loop :: "'b memory \<Rightarrow> abuf \<Rightarrow> abuf list \<Rightarrow> nat \<Rightarrow> 'b memory \<times> nat" where
  "copy_one_loop mem target_buffer source_iter total_copied =
     (case source_iter of
        [] \<Rightarrow> (mem, total_copied)
      | source_buffer # rest \<Rightarrow>
          if ab_size target_buffer = 0 then (mem, total_copied)
          else (case buffer_copy_1 mem target_buffer source_buffer of (mem, bytes_copied) \<Rightarrow>
            copy_one_loop mem (buf_advance target_buffer bytes_copied) rest (total_copied + bytes_copied)))"

definition copy_one_multi :: "'b memory \<Rightarrow> abuf \<Rightarrow> abuf list \<Rightarrow> nat \<Rightarrow> 'b memory \<times> nat" where
  "copy_one_multi mem target source max_bytes_to_copy =
     copy_one_loop mem (buf_limit target max_bytes_to_copy) source 0"

fun copy_multi_loop :: "'b memory \<Rightarrow> abuf list \<Rightarrow> abuf \<Rightarrow> nat \<Rightarrow> 'b memory \<times> nat" where
  "copy_multi_loop mem target_iter source_buffer total_copied =
     (case target_iter of
        [] \<Rightarrow> (mem, total_copied)
      | target_buffer # rest \<Rightarrow>
          if ab_size source_buffer = 0 then (mem, total_copied)
          else (case buffer_copy_1 mem target_buffer source_buffer of (mem, bytes_copied) \<Rightarrow>
            copy_multi_loop mem rest (buf_advance source_buffer bytes_copied) (total_copied + bytes_copied)))"

definition copy_multi_one :: "'b memory \<Rightarrow> abuf list \<Rightarrow> abuf \<Rightarrow> nat \<Rightarrow> 'b memory \<times> nat" where
  "copy_multi_one mem target source max_bytes_to_copy =
     copy_multi_loop mem target (buf_limit source max_bytes_to_copy) 0"

text \<open>The two loops over sequences on both sides; \<open>lim\<close> is the bound of the second overload, whose loop
  ends only when exactly that many bytes are copied.\<close>

function copy_mm_loop :: "'b memory \<Rightarrow> abuf list \<Rightarrow> nat \<Rightarrow> abuf list \<Rightarrow> nat \<Rightarrow> nat \<Rightarrow> 'b memory \<times> nat" where
  "copy_mm_loop mem target_iter toff source_iter soff total_copied =
     (case target_iter of [] \<Rightarrow> (mem, total_copied) | t # ts \<Rightarrow>
      (case source_iter of [] \<Rightarrow> (mem, total_copied) | s # ss \<Rightarrow>
         let target_buffer = buf_plus t toff; source_buffer = buf_plus s soff in
         (case buffer_copy_1 mem target_buffer source_buffer of (mem', n) \<Rightarrow>
            copy_mm_loop mem'
              (if n = ab_size target_buffer then ts else target_iter)
              (if n = ab_size target_buffer then 0 else toff + n)
              (if n = ab_size source_buffer then ss else source_iter)
              (if n = ab_size source_buffer then 0 else soff + n)
              (total_copied + n))))"
  by pat_completeness auto
termination
  by (relation "measure (\<lambda>(mem, t, toff, s, soff, total_copied). length t + length s)")
     (auto simp: buffer_copy_1_def Let_def split: if_splits)

partial_function (option) copy_mm_max_loop ::
    "nat \<Rightarrow> 'b memory \<Rightarrow> abuf list \<Rightarrow> nat \<Rightarrow> abuf list \<Rightarrow> nat \<Rightarrow> nat \<Rightarrow> ('b memory \<times> nat) option" where
  "copy_mm_max_loop lim mem target_iter toff source_iter soff total_copied =
     (if total_copied = lim then Some (mem, total_copied) else
      case target_iter of [] \<Rightarrow> Some (mem, total_copied) | t # ts \<Rightarrow>
      (case source_iter of [] \<Rightarrow> Some (mem, total_copied) | s # ss \<Rightarrow>
         let target_buffer = buf_plus t toff; source_buffer = buf_plus s soff in
         (case buffer_copy_1 mem target_buffer (buf_limit source_buffer (lim - total_copied)) of (mem', n) \<Rightarrow>
            copy_mm_max_loop lim mem'
              (if n = ab_size target_buffer then ts else target_iter)
              (if n = ab_size target_buffer then 0 else toff + n)
              (if n = ab_size source_buffer then ss else source_iter)
              (if n = ab_size source_buffer then 0 else soff + n)
              (total_copied + n))))"

declare copy_one_loop.simps [simp del] copy_multi_loop.simps [simp del]
  copy_mm_loop.simps [simp del]

definition copy_multi_multi :: "'b memory \<Rightarrow> abuf list \<Rightarrow> abuf list \<Rightarrow> 'b memory \<times> nat" where
  "copy_multi_multi mem target source = copy_mm_loop mem target 0 source 0 0"

definition copy_multi_multi_max ::
    "'b memory \<Rightarrow> abuf list \<Rightarrow> abuf list \<Rightarrow> nat \<Rightarrow> ('b memory \<times> nat) option" where
  "copy_multi_multi_max mem target source max_bytes_to_copy =
     copy_mm_max_loop max_bytes_to_copy mem target 0 source 0 0"

section \<open>Copying as a sequence of byte assignments\<close>

definition buf_addrs :: "abuf \<Rightarrow> nat list" where
  "buf_addrs b = [ab_data b ..< ab_data b + ab_size b]"

definition seq_addrs :: "abuf list \<Rightarrow> nat list" where
  "seq_addrs bs = concat (map buf_addrs bs)"

text \<open>The specification: the bytes are assigned one after the other, in order.\<close>

fun assign_bytes :: "(nat \<times> nat) list \<Rightarrow> 'b memory \<Rightarrow> 'b memory" where
  "assign_bytes [] mem = mem"
| "assign_bytes ((d, s) # ps) mem = assign_bytes ps (mem(d := mem s))"

lemma length_buf_addrs [simp]: "length (buf_addrs b) = ab_size b"
  by (simp add: buf_addrs_def)

lemma seq_addrs_simps [simp]: "seq_addrs [] = []" "seq_addrs (b # bs) = buf_addrs b @ seq_addrs bs"
  by (simp_all add: seq_addrs_def)

lemma length_seq_addrs [simp]: "length (seq_addrs bs) = buffer_size bs"
  by (induction bs) auto

lemma buf_fields [simp]:
  "ab_size (buf_plus b n) = ab_size b - n" "ab_size (buf_advance b n) = ab_size b - n"
  "ab_size (buf_limit b n) = min (ab_size b) n" "ab_data (buf_limit b n) = ab_data b"
  by (auto simp: buf_plus_def buf_advance_def buf_limit_def mk_buf_def Let_def)

lemma buf_addrs_ops [simp]:
  "buf_addrs (buf_plus b n) = drop n (buf_addrs b)" "buf_addrs (buf_advance b n) = drop n (buf_addrs b)"
  "buf_addrs (buf_limit b n) = take n (buf_addrs b)"
  by (auto simp: buf_addrs_def buf_plus_def buf_advance_def buf_limit_def mk_buf_def Let_def drop_upt take_upt)

lemma assign_bytes_append: "assign_bytes (xs @ ys) mem = assign_bytes ys (assign_bytes xs mem)"
  by (induction xs arbitrary: mem) auto

lemma memcpy_0 [simp]: "memcpy mem d s 0 = mem"
  by (auto simp: memcpy_def fun_eq_iff)

lemma assign_bytes_range:
  "(\<And>x y. x < n \<Longrightarrow> y < n \<Longrightarrow> d + x \<noteq> s + y) \<Longrightarrow>
   assign_bytes (zip [d ..< d + n] [s ..< s + n]) mem = memcpy mem d s n"
proof (induction n)
  case 0
  then show ?case by (auto simp: memcpy_def fun_eq_iff)
next
  case (Suc n)
  have "assign_bytes (zip [d ..< d + n] [s ..< s + n]) mem = memcpy mem d s n"
    using Suc.prems by (intro Suc.IH) auto
  moreover have "memcpy mem d s n (s + n) = mem (s + n)"
  proof -
    have False if a: "d \<le> s + n" "s + n < d + n"
    proof -
      have "s + n - d < Suc n" using a by linarith
      then show False using Suc.prems [of "s + n - d" n] a(1) by simp
    qed
    then show ?thesis by (auto simp: memcpy_def)
  qed
  ultimately show ?case using Suc.prems
    by (auto simp: assign_bytes_append memcpy_def fun_eq_iff less_Suc_eq)
qed

lemma buffer_copy_1_eq:
  assumes "set (buf_addrs t) \<inter> set (buf_addrs s) = {}"
  shows "buffer_copy_1 mem t s = (assign_bytes (zip (buf_addrs t) (buf_addrs s)) mem, min (ab_size t) (ab_size s))"
proof -
  let ?n = "min (ab_size t) (ab_size s)"
  have "zip (buf_addrs t) (buf_addrs s) = zip (take ?n (buf_addrs t)) (take ?n (buf_addrs s))"
    by (simp add: take_zip [symmetric])
  also have "\<dots> = zip [ab_data t ..< ab_data t + ?n] [ab_data s ..< ab_data s + ?n]"
    by (simp add: buf_addrs_def take_upt)
  finally have z: "zip (buf_addrs t) (buf_addrs s) = zip [ab_data t ..< ab_data t + ?n] [ab_data s ..< ab_data s + ?n]" .
  have "ab_data t + x \<noteq> ab_data s + y" if "x < ?n" "y < ?n" for x y
    using that assms by (auto simp: buf_addrs_def disjoint_iff)
  then have "assign_bytes (zip (buf_addrs t) (buf_addrs s)) mem = memcpy mem (ab_data t) (ab_data s) ?n"
    unfolding z by (rule assign_bytes_range)
  then show ?thesis by (auto simp: buffer_copy_1_def Let_def min_def)
qed

text \<open>A pass over two sequences advances by the shorter of the two current buffers.\<close>

lemma zip_pass:
  "zip (A @ D) (B @ R) =
     zip A B @ zip (drop (min (length A) (length B)) A @ D) (drop (min (length A) (length B)) B @ R)"
  using take_zip [of "length A" A B] take_zip [of "length B" A B]
  by (cases "length A \<le> length B") (simp_all add: zip_append1 zip_append2 min_def)

lemma take_zip_left: "zip (take r xs) ys = take r (zip xs ys)"
proof (induction xs arbitrary: ys r)
  case (Cons x xs)
  then show ?case by (cases ys; cases r) auto
qed simp

lemma take_zip_right: "zip xs (take r ys) = take r (zip xs ys)"
proof (induction xs arbitrary: ys r)
  case (Cons x xs)
  then show ?case by (cases ys; cases r) auto
qed simp

text \<open>The position in a sequence after \<open>n\<close> more bytes of its current buffer.\<close>

definition pos_ok :: "abuf list \<Rightarrow> nat \<Rightarrow> bool" where
  "pos_ok bs off \<longleftrightarrow> (case bs of [] \<Rightarrow> off = 0 | b # _ \<Rightarrow> off \<le> ab_size b)"

lemma pos_ok_0 [simp]: "pos_ok bs 0"
  by (simp add: pos_ok_def split: list.splits)

lemma pos_step:
  fixes bs :: "abuf list"
  assumes "off \<le> ab_size b" and "n \<le> ab_size b - off"
  defines "bs' \<equiv> if n = ab_size b - off then bs else b # bs"
    and "off' \<equiv> if n = ab_size b - off then 0 else off + n"
  shows "drop off' (seq_addrs bs') = drop n (drop off (buf_addrs b)) @ seq_addrs bs"
    "buffer_size bs' - off' = ab_size b - off - n + buffer_size bs"
    "pos_ok bs' off'" "set (seq_addrs bs') \<subseteq> set (seq_addrs (b # bs))"
  using assms by (auto simp: bs'_def off'_def pos_ok_def add.commute split: list.splits)

lemma min_pass:
  fixes n :: nat
  assumes "n = min a b" "n \<le> r"
  shows "n + min (r - n) (min (a - n + x) (b - n + y)) = min r (min (a + x) (b + y))"
  using assms by (cases "a \<le> b") (auto simp: min_def)

lemma copy_mm_loop_eq:
  "set (seq_addrs ts) \<inter> set (seq_addrs ss) = {} \<Longrightarrow> pos_ok ts toff \<Longrightarrow> pos_ok ss soff \<Longrightarrow>
   copy_mm_loop mem ts toff ss soff k =
     (assign_bytes (zip (drop toff (seq_addrs ts)) (drop soff (seq_addrs ss))) mem,
      k + min (buffer_size ts - toff) (buffer_size ss - soff))"
proof (induction "length ts + length ss" arbitrary: mem ts toff ss soff k rule: less_induct)
  case less
  note 1 = less.hyps less.prems
  show ?case
  proof (cases "ts = [] \<or> ss = []")
    case True
    then show ?thesis using 1(3,4) by (subst copy_mm_loop.simps) (auto simp: pos_ok_def split: list.splits)
  next
    case False
    then obtain t ts' s ss' where l: "ts = t # ts'" "ss = s # ss'" by (meson neq_Nil_conv)
    let ?A = "drop toff (buf_addrs t)" and ?B = "drop soff (buf_addrs s)"
    define n where "n = min (ab_size t - toff) (ab_size s - soff)"
    have o: "toff \<le> ab_size t" "soff \<le> ab_size s" using 1(3,4) by (simp_all add: l pos_ok_def)
    have "set ?A \<inter> set ?B = {}" using 1(2) set_drop_subset unfolding l by fastforce
    then have c: "buffer_copy_1 mem (buf_plus t toff) (buf_plus s soff) = (assign_bytes (zip ?A ?B) mem, n)"
      using buffer_copy_1_eq [of "buf_plus t toff" "buf_plus s soff" mem] by (simp add: n_def)
    let ?ts = "if n = ab_size t - toff then ts' else ts" and ?toff = "if n = ab_size t - toff then 0 else toff + n"
    let ?ss = "if n = ab_size s - soff then ss' else ss" and ?soff = "if n = ab_size s - soff then 0 else soff + n"
    have st: "copy_mm_loop mem ts toff ss soff k = copy_mm_loop (assign_bytes (zip ?A ?B) mem) ?ts ?toff ?ss ?soff (k + n)"
      using c by (subst copy_mm_loop.simps) (simp add: l Let_def)
    have nl: "n \<le> ab_size t - toff" "n \<le> ab_size s - soff" by (simp_all add: n_def)
    note p = pos_step [of toff t n ts', OF o(1) nl(1), folded l] pos_step [of soff s n ss', OF o(2) nl(2), folded l]
    have ih: "copy_mm_loop (assign_bytes (zip ?A ?B) mem) ?ts ?toff ?ss ?soff (k + n) =
      (assign_bytes (zip (drop ?toff (seq_addrs ?ts)) (drop ?soff (seq_addrs ?ss))) (assign_bytes (zip ?A ?B) mem),
       k + n + min (buffer_size ?ts - ?toff) (buffer_size ?ss - ?soff))"
      using 1(2) p(3,4,7,8) by (intro 1(1)) (fastforce simp: l n_def min_def)+
    have mn: "n + min (ab_size t - toff - n + buffer_size ts') (ab_size s - soff - n + buffer_size ss') =
        min (buffer_size ts - toff) (buffer_size ss - soff)"
      using o by (auto simp: l n_def min_def)
    have zs: "zip (drop toff (seq_addrs ts)) (drop soff (seq_addrs ss)) =
        zip ?A ?B @ zip (drop n ?A @ seq_addrs ts') (drop n ?B @ seq_addrs ss')"
      using o zip_pass [of ?A "seq_addrs ts'" ?B "seq_addrs ss'"] by (simp add: l n_def)
    show ?thesis unfolding st ih p(1,2,5,6) zs assign_bytes_append mn [symmetric] by (simp only: add.assoc)
  qed
qed

text \<open>One turn of the bounded loop: the two buffers at the current positions and the bound.\<close>

lemma copy_mm_max_turn:
  assumes "set (seq_addrs (t # ts)) \<inter> set (seq_addrs (s # ss)) = {}" and "k \<noteq> lim"
    and "n = min (ab_size t - toff) (min (ab_size s - soff) (lim - k))"
  shows "copy_mm_max_loop lim mem (t # ts) toff (s # ss) soff k =
    copy_mm_max_loop lim
      (assign_bytes (take (lim - k) (zip (drop toff (buf_addrs t)) (drop soff (buf_addrs s)))) mem)
      (if n = ab_size t - toff then ts else t # ts) (if n = ab_size t - toff then 0 else toff + n)
      (if n = ab_size s - soff then ss else s # ss) (if n = ab_size s - soff then 0 else soff + n) (k + n)"
proof -
  let ?A = "drop toff (buf_addrs t)" and ?B = "drop soff (buf_addrs s)"
  have "set ?A \<inter> set (take (lim - k) ?B) = {}"
    using assms(1) set_drop_subset [of toff "buf_addrs t"] set_drop_subset [of soff "buf_addrs s"]
      set_take_subset [of "lim - k" ?B] by auto
  then have "buffer_copy_1 mem (buf_plus t toff) (buf_limit (buf_plus s soff) (lim - k)) =
      (assign_bytes (take (lim - k) (zip ?A ?B)) mem, n)"
    using buffer_copy_1_eq [of "buf_plus t toff" "buf_limit (buf_plus s soff) (lim - k)" mem] assms(3)
    by (simp flip: take_zip_right)
  then show ?thesis using assms(2) by (subst copy_mm_max_loop.simps) (simp add: Let_def)
qed

lemma copy_mm_max_last:
  assumes "set (seq_addrs (t # ts)) \<inter> set (seq_addrs (s # ss)) = {}" and "k < lim"
    and "lim - k \<le> ab_size t - toff" and "lim - k \<le> ab_size s - soff"
  shows "copy_mm_max_loop lim mem (t # ts) toff (s # ss) soff k =
    Some (assign_bytes (take (lim - k) (zip (drop toff (seq_addrs (t # ts))) (drop soff (seq_addrs (s # ss))))) mem,
      k + min (lim - k) (min (buffer_size (t # ts) - toff) (buffer_size (s # ss) - soff)))"
proof -
  let ?A = "drop toff (buf_addrs t)" and ?B = "drop soff (buf_addrs s)"
  have "copy_mm_max_loop lim mem (t # ts) toff (s # ss) soff k = Some (assign_bytes (take (lim - k) (zip ?A ?B)) mem, lim)"
    using copy_mm_max_turn [OF assms(1) _ refl, of k lim mem toff soff] assms(2-4)
    by (simp add: min_absorb2 copy_mm_max_loop.simps [of lim _ _ _ _ _ lim] del: if_split)
  moreover have "take (lim - k) (zip (drop toff (seq_addrs (t # ts))) (drop soff (seq_addrs (s # ss)))) =
      take (lim - k) (zip ?A ?B)"
    using assms(2-4) zip_pass [of ?A "seq_addrs ts" ?B "seq_addrs ss"] by simp
  moreover have "lim - k \<le> min (buffer_size (t # ts) - toff) (buffer_size (s # ss) - soff)" using assms(2-4) by auto
  ultimately show ?thesis using assms(2) by (simp add: min_absorb1)
qed

lemma copy_mm_max_loop_eq:
  "set (seq_addrs ts) \<inter> set (seq_addrs ss) = {} \<Longrightarrow> k \<le> lim \<Longrightarrow> pos_ok ts toff \<Longrightarrow> pos_ok ss soff \<Longrightarrow>
   copy_mm_max_loop lim mem ts toff ss soff k =
     Some (assign_bytes (take (lim - k) (zip (drop toff (seq_addrs ts)) (drop soff (seq_addrs ss)))) mem,
      k + min (lim - k) (min (buffer_size ts - toff) (buffer_size ss - soff)))"
proof (induction "length ts + length ss" arbitrary: mem ts toff ss soff k rule: less_induct)
  case less
  note 1 = less.hyps less.prems
  show ?case
  proof (cases "k = lim \<or> ts = [] \<or> ss = []")
    case True
    then show ?thesis using 1(4,5) by (subst copy_mm_max_loop.simps) (auto simp: pos_ok_def split: list.splits)
  next
    case False
    then obtain t ts' s ss' where l: "ts = t # ts'" "ss = s # ss'" by (meson neq_Nil_conv)
    define r where "r = lim - k"
    let ?A = "drop toff (buf_addrs t)" and ?B = "drop soff (buf_addrs s)"
    define n where "n = min (ab_size t - toff) (min (ab_size s - soff) r)"
    have o: "toff \<le> ab_size t" "soff \<le> ab_size s" using 1(4,5) by (simp_all add: l pos_ok_def)
    note st = copy_mm_max_turn [of t ts' s ss' k lim n toff soff mem, folded l r_def, OF 1(2) _ n_def]
    have sz: "buffer_size ts - toff = ab_size t - toff + buffer_size ts'"
      "buffer_size ss - soff = ab_size s - soff + buffer_size ss'" using o by (simp_all add: l)
    note zs = zip_pass [of ?A "seq_addrs ts'" ?B "seq_addrs ss'"]
    show ?thesis
    proof (cases "n = r")
      case True
      then show ?thesis using copy_mm_max_last [of t ts' s ss' k lim toff soff mem, folded l r_def] 1(2,3) False o
        by (simp add: n_def r_def min_def split: if_splits)
    next
      case nr: False
      then have n: "n = min (ab_size t - toff) (ab_size s - soff)" "n < r" by (auto simp: n_def min_def split: if_splits)
      let ?ts = "if n = ab_size t - toff then ts' else ts" and ?toff = "if n = ab_size t - toff then 0 else toff + n"
      let ?ss = "if n = ab_size s - soff then ss' else ss" and ?soff = "if n = ab_size s - soff then 0 else soff + n"
      have nl: "n \<le> ab_size t - toff" "n \<le> ab_size s - soff" by (simp_all add: n(1))
      note p = pos_step [of toff t n ts', OF o(1) nl(1), folded l] pos_step [of soff s n ss', OF o(2) nl(2), folded l]
      let ?m = "assign_bytes (take r (zip ?A ?B)) mem"
      have ih: "copy_mm_max_loop lim ?m ?ts ?toff ?ss ?soff (k + n) =
        Some (assign_bytes (take (lim - (k + n)) (zip (drop ?toff (seq_addrs ?ts)) (drop ?soff (seq_addrs ?ss)))) ?m,
         k + n + min (lim - (k + n)) (min (buffer_size ?ts - ?toff) (buffer_size ?ss - ?soff)))"
      proof (rule 1(1))
        show "length ?ts + length ?ss < length ts + length ss" using n(1) by (auto simp: l min_def)
        show "set (seq_addrs ?ts) \<inter> set (seq_addrs ?ss) = {}" using 1(2) p(4,8) by blast
      qed (use n(2) p(3,7) in \<open>simp_all add: r_def\<close>)
      have tk: "take r (zip (drop toff (seq_addrs ts)) (drop soff (seq_addrs ss))) =
          take r (zip ?A ?B) @ take (r - n) (zip (drop n ?A @ seq_addrs ts') (drop n ?B @ seq_addrs ss'))"
        using o zs by (simp add: l n(1))
      have lk: "lim - (k + n) = r - n" and k: "k \<noteq> lim" using False by (simp_all add: r_def)
      note mn = min_pass [OF n(1) less_imp_le [OF n(2)], of "buffer_size ts'" "buffer_size ss'"]
      show ?thesis unfolding st [OF k] ih p(1,2,5,6) lk r_def [symmetric] tk sz mn [symmetric]
        by (simp only: assign_bytes_append add.assoc)
    qed
  qed
qed

lemma copy_one_loop_eq:
  "set (buf_addrs t) \<inter> set (seq_addrs ss) = {} \<Longrightarrow>
   copy_one_loop mem t ss k = (assign_bytes (zip (buf_addrs t) (seq_addrs ss)) mem,
     k + min (ab_size t) (buffer_size ss))"
proof (induction ss arbitrary: mem t k)
  case Nil
  then show ?case by (subst copy_one_loop.simps) simp
next
  case (Cons s ss)
  define n where "n = min (ab_size t) (ab_size s)"
  have c: "buffer_copy_1 mem t s = (assign_bytes (zip (buf_addrs t) (buf_addrs s)) mem, n)"
    using Cons.prems by (subst buffer_copy_1_eq) (auto simp: n_def)
  have ih: "copy_one_loop (assign_bytes (zip (buf_addrs t) (buf_addrs s)) mem) (buf_advance t n) ss (k + n) =
    (assign_bytes (zip (drop n (buf_addrs t)) (seq_addrs ss)) (assign_bytes (zip (buf_addrs t) (buf_addrs s)) mem),
     k + n + min (ab_size t - n) (buffer_size ss))"
    using Cons.prems set_drop_subset [of n "buf_addrs t"] by (subst Cons.IH) auto
  have mn: "n + min (ab_size t - n) (buffer_size ss) = min (ab_size t) (buffer_size (s # ss))"
    by (auto simp: n_def min_def)
  have zs: "zip (buf_addrs t) (seq_addrs (s # ss)) =
      zip (buf_addrs t) (buf_addrs s) @ zip (drop n (buf_addrs t)) (seq_addrs ss)"
    using zip_pass [of "buf_addrs t" "[]" "buf_addrs s" "seq_addrs ss"]
    by (cases "ab_size t \<le> ab_size s") (simp_all add: n_def min_def)
  have "copy_one_loop mem t (s # ss) k =
      copy_one_loop (assign_bytes (zip (buf_addrs t) (buf_addrs s)) mem) (buf_advance t n) ss (k + n)"
    if "ab_size t \<noteq> 0" using that c by (subst copy_one_loop.simps) simp
  then show ?case
  proof (cases "ab_size t = 0")
    case True
    then show ?thesis by (subst copy_one_loop.simps) (simp add: buf_addrs_def)
  qed (simp only: ih zs mn [symmetric] assign_bytes_append add.assoc simp_thms)
qed

lemma copy_multi_loop_eq:
  "set (seq_addrs ts) \<inter> set (buf_addrs s) = {} \<Longrightarrow>
   copy_multi_loop mem ts s k = (assign_bytes (zip (seq_addrs ts) (buf_addrs s)) mem,
     k + min (buffer_size ts) (ab_size s))"
proof (induction ts arbitrary: mem s k)
  case Nil
  then show ?case by (subst copy_multi_loop.simps) simp
next
  case (Cons t ts)
  define n where "n = min (ab_size t) (ab_size s)"
  have c: "buffer_copy_1 mem t s = (assign_bytes (zip (buf_addrs t) (buf_addrs s)) mem, n)"
    using Cons.prems by (subst buffer_copy_1_eq) (auto simp: n_def)
  have ih: "copy_multi_loop (assign_bytes (zip (buf_addrs t) (buf_addrs s)) mem) ts (buf_advance s n) (k + n) =
    (assign_bytes (zip (seq_addrs ts) (drop n (buf_addrs s))) (assign_bytes (zip (buf_addrs t) (buf_addrs s)) mem),
     k + n + min (buffer_size ts) (ab_size s - n))"
    using Cons.prems set_drop_subset [of n "buf_addrs s"] by (subst Cons.IH) auto
  have mn: "n + min (buffer_size ts) (ab_size s - n) = min (buffer_size (t # ts)) (ab_size s)"
    by (auto simp: n_def min_def)
  have zs: "zip (seq_addrs (t # ts)) (buf_addrs s) =
      zip (buf_addrs t) (buf_addrs s) @ zip (seq_addrs ts) (drop n (buf_addrs s))"
    using zip_pass [of "buf_addrs t" "seq_addrs ts" "buf_addrs s" "[]"]
    by (cases "ab_size t \<le> ab_size s") (simp_all add: n_def min_def)
  have "copy_multi_loop mem (t # ts) s k =
      copy_multi_loop (assign_bytes (zip (buf_addrs t) (buf_addrs s)) mem) ts (buf_advance s n) (k + n)"
    if "ab_size s \<noteq> 0" using that c by (subst copy_multi_loop.simps) simp
  then show ?case
  proof (cases "ab_size s = 0")
    case True
    then show ?thesis by (subst copy_multi_loop.simps) (simp add: buf_addrs_def)
  qed (simp only: ih zs mn [symmetric] assign_bytes_append add.assoc simp_thms)
qed

text \<open>What the assignments do when the target bytes are distinct and apart from the source.\<close>

lemma assign_bytes_other: "a \<notin> fst ` set ps \<Longrightarrow> assign_bytes ps mem a = mem a"
  by (induction ps arbitrary: mem) auto

lemma assign_bytes_at:
  "distinct (map fst ps) \<Longrightarrow> fst ` set ps \<inter> snd ` set ps = {} \<Longrightarrow> (d, s) \<in> set ps \<Longrightarrow>
   assign_bytes ps mem d = mem s"
proof (induction ps arbitrary: mem)
  case (Cons p ps)
  obtain d' s' where p: "p = (d', s')" by (cases p)
  show ?case
  proof (cases "(d, s) = p")
    case True
    then have "d \<notin> fst ` set ps" using Cons.prems(1) p by auto
    then show ?thesis using True p by (simp add: assign_bytes_other)
  next
    case False
    then have "(d, s) \<in> set ps" using Cons.prems(3) by auto
    moreover from this have "s \<noteq> d'" using Cons.prems(2) p by force
    ultimately show ?thesis using Cons p by auto
  qed
qed simp

section \<open>Properties of buffer copies\<close>

text \<open>All the overloads of \<open>buffer_copy\<close> agree with one definition. For a target and a source that do
  not overlap, each of the loops copies the same bytes in the same order as assigning, one byte at a
  time, the concatenation of the source buffers to the concatenation of the target buffers, up to the
  bound; it returns the number of bytes copied, the least of the two sizes and the bound, and it
  terminates however the two sequences are divided into buffers, empty ones included.\<close>

theorem buffer_copy_overloads_agree:
  assumes "set (seq_addrs T) \<inter> set (seq_addrs S) = {}"
  shows "copy_multi_multi_max mem T S m = Some (assign_bytes (take m (zip (seq_addrs T) (seq_addrs S))) mem,
      min m (min (buffer_size T) (buffer_size S))) \<and>
    copy_multi_multi mem T S = (assign_bytes (zip (seq_addrs T) (seq_addrs S)) mem,
      min (buffer_size T) (buffer_size S)) \<and>
    (\<forall>t. T = [t] \<longrightarrow> Some (copy_one_multi mem t S m) = copy_multi_multi_max mem T S m) \<and>
    (\<forall>s. S = [s] \<longrightarrow> Some (copy_multi_one mem T s m) = copy_multi_multi_max mem T S m) \<and>
    (\<forall>t s. T = [t] \<longrightarrow> S = [s] \<longrightarrow> Some (copy_one_one_max mem t s m) = copy_multi_multi_max mem T S m \<and>
       copy_one_one mem t s = copy_multi_multi mem T S)"
proof -
  have mm: "copy_multi_multi_max mem T S m = Some (assign_bytes (take m (zip (seq_addrs T) (seq_addrs S))) mem,
      min m (min (buffer_size T) (buffer_size S)))"
    using copy_mm_max_loop_eq [OF assms, of 0 m 0 0 mem] by (simp add: copy_multi_multi_max_def)
  have nn: "copy_multi_multi mem T S = (assign_bytes (zip (seq_addrs T) (seq_addrs S)) mem,
      min (buffer_size T) (buffer_size S))"
    using copy_mm_loop_eq [OF assms, of 0 0 mem 0] by (simp add: copy_multi_multi_def)
  have dt: "set (take m (seq_addrs T)) \<inter> set (seq_addrs S) = {}" "set (seq_addrs T) \<inter> set (take m (seq_addrs S)) = {}"
    using assms set_take_subset by fast+
  have "Some (copy_one_multi mem t S m) = copy_multi_multi_max mem T S m" if "T = [t]" for t
    unfolding mm using copy_one_loop_eq [of "buf_limit t m" S mem 0] dt(1) that
    by (simp add: copy_one_multi_def take_zip_left ac_simps)
  moreover have "Some (copy_multi_one mem T s m) = copy_multi_multi_max mem T S m" if "S = [s]" for s
    unfolding mm using copy_multi_loop_eq [of T "buf_limit s m" mem 0] dt(2) that
    by (simp add: copy_multi_one_def take_zip_right ac_simps)
  moreover have "Some (copy_one_one_max mem t s m) = copy_multi_multi_max mem T S m \<and>
       copy_one_one mem t s = copy_multi_multi mem T S" if "T = [t]" "S = [s]" for t s
    unfolding mm nn using buffer_copy_1_eq [of t "buf_limit s m" mem] buffer_copy_1_eq [of t s mem] dt(2) assms that
    by (simp add: copy_one_one_def copy_one_one_max_def take_zip_right ac_simps)
  ultimately show ?thesis using mm nn by blast
qed

theorem buffer_copy_overloads_agree_witness:
  "copy_multi_multi_max (\<lambda>a. a) [mk_buf 0 2, mk_buf 5 0, mk_buf 10 2] [mk_buf 20 3] 9 =
     Some (assign_bytes [(0, 20), (1, 21), (10, 22)] (\<lambda>a. a), 3)"
  using buffer_copy_overloads_agree [of "[mk_buf 0 2, mk_buf 5 0, mk_buf 10 2]" "[mk_buf 20 3]" "\<lambda>a. a" 9]
  by (simp add: mk_buf_def buf_addrs_def upt_rec)

end
