(* ===== verification/Asio_Error.thy ===== *)
theory Asio_Error
  imports Xsix_Prelude
begin

text \<open>
  The error codes of asio, \<open>src/3rd/asio/include/asio/error.hpp\<close>. An \<open>asio::error_code\<close> with value 0 is
  \<open>None\<close>; any other one is a value with its category. The values of the system category are the error
  numbers of Linux, where \<open>EAGAIN\<close> and \<open>EWOULDBLOCK\<close> are the same.
\<close>

datatype error_value = Sys_Error nat | Misc_Error nat

type_synonym error_code = "error_value option"

definition sys_error :: "nat \<Rightarrow> error_code" where
  "sys_error e = (if e = 0 then None else Some (Sys_Error e))"

definition E_PERM :: nat where "E_PERM = 1"
definition E_INTR :: nat where "E_INTR = 4"
definition E_BADF :: nat where "E_BADF = 9"
definition E_AGAIN :: nat where "E_AGAIN = 11"
definition E_NOMEM :: nat where "E_NOMEM = 12"
definition E_ACCES :: nat where "E_ACCES = 13"
definition E_FAULT :: nat where "E_FAULT = 14"
definition E_NODEV :: nat where "E_NODEV = 19"
definition E_INVAL :: nat where "E_INVAL = 22"
definition E_MFILE :: nat where "E_MFILE = 24"
definition E_NOTTY :: nat where "E_NOTTY = 25"
definition E_PIPE :: nat where "E_PIPE = 32"
definition E_NAMETOOLONG :: nat where "E_NAMETOOLONG = 36"
definition E_PROTO :: nat where "E_PROTO = 71"
definition E_NOTSOCK :: nat where "E_NOTSOCK = 88"
definition E_MSGSIZE :: nat where "E_MSGSIZE = 90"
definition E_NOPROTOOPT :: nat where "E_NOPROTOOPT = 92"
definition E_OPNOTSUPP :: nat where "E_OPNOTSUPP = 95"
definition E_AFNOSUPPORT :: nat where "E_AFNOSUPPORT = 97"
definition E_ADDRINUSE :: nat where "E_ADDRINUSE = 98"
definition E_NETDOWN :: nat where "E_NETDOWN = 100"
definition E_NETUNREACH :: nat where "E_NETUNREACH = 101"
definition E_NETRESET :: nat where "E_NETRESET = 102"
definition E_CONNABORTED :: nat where "E_CONNABORTED = 103"
definition E_CONNRESET :: nat where "E_CONNRESET = 104"
definition E_NOBUFS :: nat where "E_NOBUFS = 105"
definition E_ISCONN :: nat where "E_ISCONN = 106"
definition E_NOTCONN :: nat where "E_NOTCONN = 107"
definition E_SHUTDOWN :: nat where "E_SHUTDOWN = 108"
definition E_TIMEDOUT :: nat where "E_TIMEDOUT = 110"
definition E_CONNREFUSED :: nat where "E_CONNREFUSED = 111"
definition E_HOSTUNREACH :: nat where "E_HOSTUNREACH = 113"
definition E_ALREADY :: nat where "E_ALREADY = 114"
definition E_INPROGRESS :: nat where "E_INPROGRESS = 115"
definition E_CANCELED :: nat where "E_CANCELED = 125"

lemmas errno_defs = E_PERM_def E_INTR_def E_BADF_def E_AGAIN_def E_NOMEM_def E_ACCES_def E_FAULT_def
  E_NODEV_def E_INVAL_def E_MFILE_def E_NOTTY_def E_PIPE_def E_NAMETOOLONG_def E_PROTO_def E_NOTSOCK_def
  E_MSGSIZE_def E_NOPROTOOPT_def E_OPNOTSUPP_def E_AFNOSUPPORT_def E_ADDRINUSE_def E_NETDOWN_def
  E_NETUNREACH_def E_NETRESET_def E_CONNABORTED_def E_CONNRESET_def E_NOBUFS_def E_ISCONN_def
  E_NOTCONN_def E_SHUTDOWN_def E_TIMEDOUT_def E_CONNREFUSED_def E_HOSTUNREACH_def E_ALREADY_def
  E_INPROGRESS_def E_CANCELED_def

datatype basic_error =
    access_denied | address_family_not_supported | address_in_use | already_connected | already_started
  | broken_pipe | connection_aborted | connection_refused | connection_reset | bad_descriptor | fault
  | host_unreachable | in_progress | interrupted | invalid_argument | message_size | name_too_long
  | network_down | network_reset | network_unreachable | no_descriptors | no_buffer_space | no_memory
  | no_permission | no_protocol_option | no_such_device | not_connected | not_socket | operation_aborted
  | operation_not_supported | shut_down | timed_out | try_again | would_block

fun basic_errno :: "basic_error \<Rightarrow> nat" where
  "basic_errno access_denied = E_ACCES"
| "basic_errno address_family_not_supported = E_AFNOSUPPORT"
| "basic_errno address_in_use = E_ADDRINUSE"
| "basic_errno already_connected = E_ISCONN"
| "basic_errno already_started = E_ALREADY"
| "basic_errno broken_pipe = E_PIPE"
| "basic_errno connection_aborted = E_CONNABORTED"
| "basic_errno connection_refused = E_CONNREFUSED"
| "basic_errno connection_reset = E_CONNRESET"
| "basic_errno bad_descriptor = E_BADF"
| "basic_errno fault = E_FAULT"
| "basic_errno host_unreachable = E_HOSTUNREACH"
| "basic_errno in_progress = E_INPROGRESS"
| "basic_errno interrupted = E_INTR"
| "basic_errno invalid_argument = E_INVAL"
| "basic_errno message_size = E_MSGSIZE"
| "basic_errno name_too_long = E_NAMETOOLONG"
| "basic_errno network_down = E_NETDOWN"
| "basic_errno network_reset = E_NETRESET"
| "basic_errno network_unreachable = E_NETUNREACH"
| "basic_errno no_descriptors = E_MFILE"
| "basic_errno no_buffer_space = E_NOBUFS"
| "basic_errno no_memory = E_NOMEM"
| "basic_errno no_permission = E_PERM"
| "basic_errno no_protocol_option = E_NOPROTOOPT"
| "basic_errno no_such_device = E_NODEV"
| "basic_errno not_connected = E_NOTCONN"
| "basic_errno not_socket = E_NOTSOCK"
| "basic_errno operation_aborted = E_CANCELED"
| "basic_errno operation_not_supported = E_OPNOTSUPP"
| "basic_errno shut_down = E_SHUTDOWN"
| "basic_errno timed_out = E_TIMEDOUT"
| "basic_errno try_again = E_AGAIN"
| "basic_errno would_block = E_AGAIN"

definition basic :: "basic_error \<Rightarrow> error_code" where
  "basic e = sys_error (basic_errno e)"

datatype misc_error = already_open | eof | not_found | fd_set_failure

fun misc_value :: "misc_error \<Rightarrow> nat" where
  "misc_value already_open = 1"
| "misc_value eof = 2"
| "misc_value not_found = 3"
| "misc_value fd_set_failure = 4"

definition misc :: "misc_error \<Rightarrow> error_code" where
  "misc e = Some (Misc_Error (misc_value e))"

lemma basic_not_None [simp]: "basic e \<noteq> None" "misc m \<noteq> None" "None \<noteq> basic e" "None \<noteq> misc m"
  by (cases e; simp add: basic_def sys_error_def misc_def errno_defs)+

lemma misc_not_basic [simp]: "misc m \<noteq> basic e" "basic e \<noteq> misc m"
  by (cases e; simp add: basic_def sys_error_def misc_def errno_defs)+

lemma try_again_would_block [simp]: "basic try_again = basic would_block"
  by (simp add: basic_def)

lemma basic_eq_iff: "basic e = basic e' \<longleftrightarrow> basic_errno e = basic_errno e'"
  by (auto simp: basic_def sys_error_def)

end
