(* ===== verification/Asio_Socket_Ops.thy ===== *)
theory Asio_Socket_Ops
  imports Asio_Buffer Asio_Error "HOL-Library.Word"
begin

unbundle bit_operations_syntax

text \<open>
  The socket operations of asio on Linux, \<open>src/3rd/asio/include/asio/detail/impl/socket_ops.ipp\<close>: the
  branches that are compiled there, for the calls that stream sockets use. The operating system is a
  parameter: a record of system calls over a state of its own. A system call returns its value and the
  value of \<open>errno\<close>; the addresses that calls take or fill in are part of the state of the system. A loop
  that retries is a \<open>partial_function\<close>, because the system may report an interruption for ever.
\<close>

section \<open>System calls\<close>

type_synonym 's sys_call = "'s \<Rightarrow> (int \<times> nat) \<times> 's"

record 's os =
  sys_accept :: "int \<Rightarrow> 's sys_call"
  sys_bind :: "int \<Rightarrow> 's sys_call"
  sys_close :: "int \<Rightarrow> 's sys_call"
  sys_connect :: "int \<Rightarrow> 's sys_call"
  sys_listen :: "int \<Rightarrow> int \<Rightarrow> 's sys_call"
  sys_shutdown :: "int \<Rightarrow> int \<Rightarrow> 's sys_call"
  sys_socket :: "int \<Rightarrow> int \<Rightarrow> int \<Rightarrow> 's sys_call"
  sys_poll :: "int \<Rightarrow> nat \<Rightarrow> int \<Rightarrow> 's sys_call"
  sys_recv :: "int \<Rightarrow> abuf \<Rightarrow> nat \<Rightarrow> 's sys_call"
  sys_recvmsg :: "int \<Rightarrow> abuf list \<Rightarrow> nat \<Rightarrow> 's sys_call"
  sys_send :: "int \<Rightarrow> abuf \<Rightarrow> nat \<Rightarrow> 's sys_call"
  sys_sendmsg :: "int \<Rightarrow> abuf list \<Rightarrow> nat \<Rightarrow> 's sys_call"
  sys_ioctl :: "int \<Rightarrow> nat \<Rightarrow> int \<Rightarrow> 's \<Rightarrow> (int \<times> nat \<times> int) \<times> 's"
  sys_setsockopt :: "int \<Rightarrow> nat \<Rightarrow> nat \<Rightarrow> int list \<Rightarrow> 's sys_call"
  sys_getsockopt :: "int \<Rightarrow> nat \<Rightarrow> nat \<Rightarrow> nat \<Rightarrow> 's \<Rightarrow> (int \<times> nat \<times> int list \<times> nat) \<times> 's"

abbreviation invalid_socket :: int where "invalid_socket \<equiv> - 1"
abbreviation socket_error_retval :: int where "socket_error_retval \<equiv> - 1"

definition SOL_SOCKET :: nat where "SOL_SOCKET = 1"
definition SO_ERROR :: nat where "SO_ERROR = 4"
definition SO_SNDBUF :: nat where "SO_SNDBUF = 7"
definition SO_RCVBUF :: nat where "SO_RCVBUF = 8"
definition SO_LINGER :: nat where "SO_LINGER = 13"
definition FIONBIO :: nat where "FIONBIO = 0x5421"
definition FIONREAD :: nat where "FIONREAD = 0x541B"
definition POLL_IN :: nat where "POLL_IN = 1"
definition POLL_PRI :: nat where "POLL_PRI = 2"
definition POLL_OUT :: nat where "POLL_OUT = 4"
definition POLL_ERR :: nat where "POLL_ERR = 8"
definition POLL_HUP :: nat where "POLL_HUP = 16"
definition MSG_NOSIGNAL :: nat where "MSG_NOSIGNAL = 0x4000"

definition custom_socket_option_level :: nat where "custom_socket_option_level = 0xA5100000"
definition enable_connection_aborted_option :: nat where "enable_connection_aborted_option = 1"
definition always_fail_option :: nat where "always_fail_option = 2"

section \<open>Socket state bits\<close>

type_synonym state_type = "8 word"

definition user_set_non_blocking :: state_type where "user_set_non_blocking = 1"
definition internal_non_blocking :: state_type where "internal_non_blocking = 2"
definition non_blocking :: state_type where "non_blocking = user_set_non_blocking OR internal_non_blocking"
definition enable_connection_aborted :: state_type where "enable_connection_aborted = 4"
definition user_set_linger :: state_type where "user_set_linger = 8"
definition stream_oriented :: state_type where "stream_oriented = 16"
definition datagram_oriented :: state_type where "datagram_oriented = 32"
definition possible_dup :: state_type where "possible_dup = 64"

lemmas state_bits = user_set_non_blocking_def internal_non_blocking_def non_blocking_def
  enable_connection_aborted_def user_set_linger_def stream_oriented_def datagram_oriented_def possible_dup_def

definition has :: "state_type \<Rightarrow> state_type \<Rightarrow> bool" where
  "has state flag \<longleftrightarrow> state AND flag \<noteq> 0"

section \<open>Errors of the system\<close>

definition get_last_error :: "nat \<Rightarrow> bool \<Rightarrow> error_code" where
  "get_last_error errno is_error_condition = (if \<not> is_error_condition then None else sys_error errno)"

text \<open>The first word of an option value; the variables that \<open>getsockopt\<close> fills in start as 0.\<close>

definition int_value :: "int list \<Rightarrow> int" where
  "int_value optval = (case optval of [] \<Rightarrow> 0 | v # _ \<Rightarrow> v)"

section \<open>Waiting\<close>

definition poll_for ::
    "'s os \<Rightarrow> nat \<Rightarrow> int \<Rightarrow> state_type \<Rightarrow> int \<Rightarrow> 's \<Rightarrow> (int \<times> error_code) \<times> 's" where
  "poll_for os events s state msec w =
     (if s = invalid_socket then ((socket_error_retval, basic bad_descriptor), w)
      else
        let timeout = (if has state user_set_non_blocking then 0 else msec) in
        (case sys_poll os s events timeout w of ((result, errno), w) \<Rightarrow>
           let ec = get_last_error errno (result < 0);
               ec = (if result = 0 \<and> has state user_set_non_blocking then basic would_block else ec)
           in ((result, ec), w)))"

definition poll_read :: "'s os \<Rightarrow> int \<Rightarrow> state_type \<Rightarrow> int \<Rightarrow> 's \<Rightarrow> (int \<times> error_code) \<times> 's" where
  "poll_read os = poll_for os POLL_IN"

definition poll_write :: "'s os \<Rightarrow> int \<Rightarrow> state_type \<Rightarrow> int \<Rightarrow> 's \<Rightarrow> (int \<times> error_code) \<times> 's" where
  "poll_write os = poll_for os POLL_OUT"

definition poll_error :: "'s os \<Rightarrow> int \<Rightarrow> state_type \<Rightarrow> int \<Rightarrow> 's \<Rightarrow> (int \<times> error_code) \<times> 's" where
  "poll_error os = poll_for os (POLL_PRI OR POLL_ERR OR POLL_HUP)"

definition poll_connect :: "'s os \<Rightarrow> int \<Rightarrow> int \<Rightarrow> 's \<Rightarrow> (int \<times> error_code) \<times> 's" where
  "poll_connect os s msec w =
     (if s = invalid_socket then ((socket_error_retval, basic bad_descriptor), w)
      else (case sys_poll os s POLL_OUT msec w of ((result, errno), w) \<Rightarrow>
        ((result, get_last_error errno (result < 0)), w)))"

section \<open>Options and modes\<close>

definition so_setsockopt ::
    "'s os \<Rightarrow> int \<Rightarrow> state_type \<Rightarrow> nat \<Rightarrow> nat \<Rightarrow> int list \<Rightarrow> nat \<Rightarrow> 's \<Rightarrow> (int \<times> error_code \<times> state_type) \<times> 's" where
  "so_setsockopt os s state level optname optval optlen w =
     (if s = invalid_socket then ((socket_error_retval, basic bad_descriptor, state), w)
      else if level = custom_socket_option_level \<and> optname = always_fail_option
      then ((socket_error_retval, basic invalid_argument, state), w)
      else if level = custom_socket_option_level \<and> optname = enable_connection_aborted_option
      then
        (if optlen \<noteq> 4 then ((socket_error_retval, basic invalid_argument, state), w)
         else if int_value optval \<noteq> 0 then ((0, None, state OR enable_connection_aborted), w)
         else ((0, None, state AND NOT enable_connection_aborted), w))
      else
        let state = (if level = SOL_SOCKET \<and> optname = SO_LINGER then state OR user_set_linger else state) in
        (case sys_setsockopt os s level optname optval w of ((result, errno), w) \<Rightarrow>
           ((result, get_last_error errno (result \<noteq> 0), state), w)))"

definition so_getsockopt ::
    "'s os \<Rightarrow> int \<Rightarrow> state_type \<Rightarrow> nat \<Rightarrow> nat \<Rightarrow> nat \<Rightarrow> 's \<Rightarrow> (int \<times> error_code \<times> int list \<times> nat) \<times> 's" where
  "so_getsockopt os s state level optname optlen w =
     (if s = invalid_socket then ((socket_error_retval, basic bad_descriptor, [], optlen), w)
      else if level = custom_socket_option_level \<and> optname = always_fail_option
      then ((socket_error_retval, basic invalid_argument, [], optlen), w)
      else if level = custom_socket_option_level \<and> optname = enable_connection_aborted_option
      then
        (if optlen \<noteq> 4 then ((socket_error_retval, basic invalid_argument, [], optlen), w)
         else ((0, None, [if has state enable_connection_aborted then 1 else 0], optlen), w))
      else
        (case sys_getsockopt os s level optname optlen w of ((result, errno, optval, optlen), w) \<Rightarrow>
           let optval = (if result = 0 \<and> level = SOL_SOCKET \<and> optlen = 4 \<and>
                            (optname = SO_SNDBUF \<or> optname = SO_RCVBUF)
                         then map (\<lambda>v. c_quot v 2) optval else optval)
           in ((result, get_last_error errno (result \<noteq> 0), optval, optlen), w)))"

definition set_user_non_blocking ::
    "'s os \<Rightarrow> int \<Rightarrow> state_type \<Rightarrow> bool \<Rightarrow> 's \<Rightarrow> (bool \<times> error_code \<times> state_type) \<times> 's" where
  "set_user_non_blocking os s state value w =
     (if s = invalid_socket then ((False, basic bad_descriptor, state), w)
      else (case sys_ioctl os s FIONBIO (if value then 1 else 0) w of ((result, errno, _), w) \<Rightarrow>
        let ec = get_last_error errno (result < 0) in
        if result \<ge> 0 then
          ((True, ec, if value then state OR user_set_non_blocking
                      else state AND NOT (user_set_non_blocking OR internal_non_blocking)), w)
        else ((False, ec, state), w)))"

definition set_internal_non_blocking ::
    "'s os \<Rightarrow> int \<Rightarrow> state_type \<Rightarrow> bool \<Rightarrow> 's \<Rightarrow> (bool \<times> error_code \<times> state_type) \<times> 's" where
  "set_internal_non_blocking os s state value w =
     (if s = invalid_socket then ((False, basic bad_descriptor, state), w)
      else if \<not> value \<and> has state user_set_non_blocking then ((False, basic invalid_argument, state), w)
      else (case sys_ioctl os s FIONBIO (if value then 1 else 0) w of ((result, errno, _), w) \<Rightarrow>
        let ec = get_last_error errno (result < 0) in
        if result \<ge> 0 then
          ((True, ec, if value then state OR internal_non_blocking
                      else state AND NOT internal_non_blocking), w)
        else ((False, ec, state), w)))"

definition so_ioctl ::
    "'s os \<Rightarrow> int \<Rightarrow> state_type \<Rightarrow> nat \<Rightarrow> int \<Rightarrow> 's \<Rightarrow> (int \<times> error_code \<times> state_type \<times> int) \<times> 's" where
  "so_ioctl os s state cmd arg w =
     (if s = invalid_socket then ((socket_error_retval, basic bad_descriptor, state, arg), w)
      else (case sys_ioctl os s cmd arg w of ((result, errno, arg), w) \<Rightarrow>
        let state = (if result \<ge> 0 \<and> cmd = FIONBIO then
                       (if arg \<noteq> 0 then state OR user_set_non_blocking
                        else state AND NOT (user_set_non_blocking OR internal_non_blocking))
                     else state)
        in ((result, get_last_error errno (result < 0), state, arg), w)))"

definition available :: "'s os \<Rightarrow> int \<Rightarrow> 's \<Rightarrow> (nat \<times> error_code) \<times> 's" where
  "available os s w =
     (if s = invalid_socket then ((0, basic bad_descriptor), w)
      else (case sys_ioctl os s FIONREAD 0 w of ((result, errno, val), w) \<Rightarrow>
        let ec = get_last_error errno (result < 0);
            ec = (if ec = Some (Sys_Error E_NOTTY) then basic not_socket else ec)
        in ((if ec \<noteq> None then 0 else nat val, ec), w)))"

section \<open>Opening, connecting and closing\<close>

definition so_socket :: "'s os \<Rightarrow> int \<Rightarrow> int \<Rightarrow> int \<Rightarrow> 's \<Rightarrow> (int \<times> error_code) \<times> 's" where
  "so_socket os af type protocol w =
     (case sys_socket os af type protocol w of ((s, errno), w) \<Rightarrow> ((s, get_last_error errno (s < 0)), w))"

definition so_bind :: "'s os \<Rightarrow> int \<Rightarrow> 's \<Rightarrow> (int \<times> error_code) \<times> 's" where
  "so_bind os s w =
     (if s = invalid_socket then ((socket_error_retval, basic bad_descriptor), w)
      else (case sys_bind os s w of ((result, errno), w) \<Rightarrow> ((result, get_last_error errno (result \<noteq> 0)), w)))"

definition so_listen :: "'s os \<Rightarrow> int \<Rightarrow> int \<Rightarrow> 's \<Rightarrow> (int \<times> error_code) \<times> 's" where
  "so_listen os s backlog w =
     (if s = invalid_socket then ((socket_error_retval, basic bad_descriptor), w)
      else (case sys_listen os s backlog w of ((result, errno), w) \<Rightarrow>
        ((result, get_last_error errno (result \<noteq> 0)), w)))"

definition so_shutdown :: "'s os \<Rightarrow> int \<Rightarrow> int \<Rightarrow> 's \<Rightarrow> (int \<times> error_code) \<times> 's" where
  "so_shutdown os s what w =
     (if s = invalid_socket then ((socket_error_retval, basic bad_descriptor), w)
      else (case sys_shutdown os s what w of ((result, errno), w) \<Rightarrow>
        ((result, get_last_error errno (result \<noteq> 0)), w)))"

definition so_connect :: "'s os \<Rightarrow> int \<Rightarrow> 's \<Rightarrow> (int \<times> error_code) \<times> 's" where
  "so_connect os s w =
     (if s = invalid_socket then ((socket_error_retval, basic bad_descriptor), w)
      else (case sys_connect os s w of ((result, errno), w) \<Rightarrow>
        let ec = get_last_error errno (result \<noteq> 0);
            ec = (if result \<noteq> 0 \<and> ec = basic try_again then basic no_buffer_space else ec)
        in ((result, ec), w)))"

definition sync_connect :: "'s os \<Rightarrow> int \<Rightarrow> 's \<Rightarrow> error_code \<times> 's" where
  "sync_connect os s w =
     (case so_connect os s w of ((_, ec), w) \<Rightarrow>
        if ec \<noteq> basic in_progress \<and> ec \<noteq> basic would_block then (ec, w)
        else (case poll_connect os s (- 1) w of ((r, ec), w) \<Rightarrow>
          if r < 0 then (ec, w)
          else (case so_getsockopt os s 0 SOL_SOCKET SO_ERROR 4 w of ((r, ec, optval, _), w) \<Rightarrow>
            if r = socket_error_retval then (ec, w)
            else (sys_error (nat (int_value optval)), w))))"

definition non_blocking_connect :: "'s os \<Rightarrow> int \<Rightarrow> error_code \<Rightarrow> 's \<Rightarrow> (bool \<times> error_code) \<times> 's" where
  "non_blocking_connect os s ec w =
     (case sys_poll os s POLL_OUT 0 w of ((ready, _), w) \<Rightarrow>
        if ready = 0 then ((False, ec), w)
        else (case so_getsockopt os s 0 SOL_SOCKET SO_ERROR 4 w of ((r, ec, optval, _), w) \<Rightarrow>
          ((True, if r = 0 then sys_error (nat (int_value optval)) else ec), w)))"

definition so_close ::
    "'s os \<Rightarrow> int \<Rightarrow> state_type \<Rightarrow> bool \<Rightarrow> error_code \<Rightarrow> 's \<Rightarrow> (int \<times> error_code \<times> state_type) \<times> 's" where
  "so_close os s state destruction ec w =
     (if s = invalid_socket then ((0, ec, state), w)
      else
        (case (if destruction \<and> has state user_set_linger
               then so_setsockopt os s state SOL_SOCKET SO_LINGER [0, 0] 8 w
               else ((0, None, state), w)) of ((_, _, state), w) \<Rightarrow>
         (case sys_close os s w of ((result, errno), w) \<Rightarrow>
            let ec = get_last_error errno (result \<noteq> 0) in
            if result \<noteq> 0 \<and> (ec = basic would_block \<or> ec = basic try_again) then
              (case sys_ioctl os s FIONBIO 0 w of (_, w) \<Rightarrow>
               (case sys_close os s w of ((result, errno), w) \<Rightarrow>
                  ((result, get_last_error errno (result \<noteq> 0), state AND NOT non_blocking), w)))
            else ((result, ec, state), w))))"

section \<open>Accepting\<close>

definition so_accept :: "'s os \<Rightarrow> int \<Rightarrow> 's \<Rightarrow> (int \<times> error_code) \<times> 's" where
  "so_accept os s w =
     (if s = invalid_socket then ((invalid_socket, basic bad_descriptor), w)
      else (case sys_accept os s w of ((new_s, errno), w) \<Rightarrow>
        if new_s = invalid_socket then ((new_s, get_last_error errno True), w)
        else ((new_s, None), w)))"

partial_function (option) sync_accept ::
    "'s os \<Rightarrow> int \<Rightarrow> state_type \<Rightarrow> 's \<Rightarrow> ((int \<times> error_code) \<times> 's) option" where
  "sync_accept os s state w =
     (case so_accept os s w of ((new_socket, ec), w) \<Rightarrow>
        if new_socket \<noteq> invalid_socket then Some ((new_socket, ec), w)
        else
          let leave =
            (if ec = basic would_block \<or> ec = basic try_again then has state user_set_non_blocking
             else if ec = basic connection_aborted then has state enable_connection_aborted
             else if ec = Some (Sys_Error E_PROTO) then has state enable_connection_aborted
             else True)
          in if leave then Some ((invalid_socket, ec), w)
             else (case poll_read os s 0 (- 1) w of ((r, ec), w) \<Rightarrow>
               if r < 0 then Some ((invalid_socket, ec), w) else sync_accept os s state w))"

partial_function (option) non_blocking_accept ::
    "'s os \<Rightarrow> int \<Rightarrow> state_type \<Rightarrow> 's \<Rightarrow> ((bool \<times> int \<times> error_code) \<times> 's) option" where
  "non_blocking_accept os s state w =
     (case so_accept os s w of ((new_socket, ec), w) \<Rightarrow>
        if new_socket \<noteq> invalid_socket then Some ((True, new_socket, ec), w)
        else if ec = basic interrupted then non_blocking_accept os s state w
        else
          let result =
            (if ec = basic would_block \<or> ec = basic try_again then False
             else if ec = basic connection_aborted then has state enable_connection_aborted
             else if ec = Some (Sys_Error E_PROTO) then has state enable_connection_aborted
             else True)
          in Some ((result, new_socket, ec), w))"

section \<open>Receiving and sending\<close>

definition so_recv :: "'s os \<Rightarrow> int \<Rightarrow> abuf list \<Rightarrow> nat \<Rightarrow> 's \<Rightarrow> (int \<times> error_code) \<times> 's" where
  "so_recv os s bufs flags w =
     (case sys_recvmsg os s bufs flags w of ((result, errno), w) \<Rightarrow> ((result, get_last_error errno (result < 0)), w))"

definition so_recv1 :: "'s os \<Rightarrow> int \<Rightarrow> abuf \<Rightarrow> nat \<Rightarrow> 's \<Rightarrow> (int \<times> error_code) \<times> 's" where
  "so_recv1 os s buf flags w =
     (case sys_recv os s buf flags w of ((result, errno), w) \<Rightarrow> ((result, get_last_error errno (result < 0)), w))"

definition so_send :: "'s os \<Rightarrow> int \<Rightarrow> abuf list \<Rightarrow> nat \<Rightarrow> 's \<Rightarrow> (int \<times> error_code) \<times> 's" where
  "so_send os s bufs flags w =
     (case sys_sendmsg os s bufs (flags OR MSG_NOSIGNAL) w of ((result, errno), w) \<Rightarrow>
        ((result, get_last_error errno (result < 0)), w))"

definition so_send1 :: "'s os \<Rightarrow> int \<Rightarrow> abuf \<Rightarrow> nat \<Rightarrow> 's \<Rightarrow> (int \<times> error_code) \<times> 's" where
  "so_send1 os s buf flags w =
     (case sys_send os s buf (flags OR MSG_NOSIGNAL) w of ((result, errno), w) \<Rightarrow>
        ((result, get_last_error errno (result < 0)), w))"

text \<open>The loop of the synchronous transfers: \<open>attempt\<close> is the transfer, \<open>wait\<close> the wait for readiness, and
  \<open>is_stream\<close> whether a transfer of no bytes is the end of the stream.\<close>

partial_function (option) sync_loop ::
    "bool \<Rightarrow> state_type \<Rightarrow> ('s \<Rightarrow> (int \<times> error_code) \<times> 's) \<Rightarrow> ('s \<Rightarrow> (int \<times> error_code) \<times> 's) \<Rightarrow> 's \<Rightarrow>
     ((nat \<times> error_code) \<times> 's) option" where
  "sync_loop is_stream state attempt wait w =
     (case attempt w of ((bytes, ec), w) \<Rightarrow>
        if is_stream \<and> bytes = 0 then Some ((0, misc eof), w)
        else if bytes \<ge> 0 then Some ((nat bytes, ec), w)
        else if has state user_set_non_blocking \<or> ec \<noteq> basic would_block \<and> ec \<noteq> basic try_again
        then Some ((0, ec), w)
        else (case wait w of ((r, ec), w) \<Rightarrow>
          if r < 0 then Some ((0, ec), w) else sync_loop is_stream state attempt wait w))"

definition sync_recv ::
    "'s os \<Rightarrow> int \<Rightarrow> state_type \<Rightarrow> abuf list \<Rightarrow> nat \<Rightarrow> bool \<Rightarrow> 's \<Rightarrow> ((nat \<times> error_code) \<times> 's) option" where
  "sync_recv os s state bufs flags all_empty w =
     (if s = invalid_socket then Some ((0, basic bad_descriptor), w)
      else if all_empty \<and> has state stream_oriented then Some ((0, None), w)
      else sync_loop (has state stream_oriented) state (so_recv os s bufs flags) (poll_read os s 0 (- 1)) w)"

definition sync_recv1 ::
    "'s os \<Rightarrow> int \<Rightarrow> state_type \<Rightarrow> abuf \<Rightarrow> nat \<Rightarrow> 's \<Rightarrow> ((nat \<times> error_code) \<times> 's) option" where
  "sync_recv1 os s state buf flags w =
     (if s = invalid_socket then Some ((0, basic bad_descriptor), w)
      else if ab_size buf = 0 \<and> has state stream_oriented then Some ((0, None), w)
      else sync_loop (has state stream_oriented) state (so_recv1 os s buf flags) (poll_read os s 0 (- 1)) w)"

definition sync_send ::
    "'s os \<Rightarrow> int \<Rightarrow> state_type \<Rightarrow> abuf list \<Rightarrow> nat \<Rightarrow> bool \<Rightarrow> 's \<Rightarrow> ((nat \<times> error_code) \<times> 's) option" where
  "sync_send os s state bufs flags all_empty w =
     (if s = invalid_socket then Some ((0, basic bad_descriptor), w)
      else if all_empty \<and> has state stream_oriented then Some ((0, None), w)
      else sync_loop False state (so_send os s bufs flags) (poll_write os s 0 (- 1)) w)"

definition sync_send1 ::
    "'s os \<Rightarrow> int \<Rightarrow> state_type \<Rightarrow> abuf \<Rightarrow> nat \<Rightarrow> 's \<Rightarrow> ((nat \<times> error_code) \<times> 's) option" where
  "sync_send1 os s state buf flags w =
     (if s = invalid_socket then Some ((0, basic bad_descriptor), w)
      else if ab_size buf = 0 \<and> has state stream_oriented then Some ((0, None), w)
      else sync_loop False state (so_send1 os s buf flags) (poll_write os s 0 (- 1)) w)"

text \<open>The loop of the non-blocking transfers: whether the operation is finished, its error, and the number
  of bytes, which keeps its old value at the end of a stream and while the operation goes on.\<close>

partial_function (option) non_blocking_loop ::
    "bool \<Rightarrow> ('s \<Rightarrow> (int \<times> error_code) \<times> 's) \<Rightarrow> nat \<Rightarrow> 's \<Rightarrow> ((bool \<times> error_code \<times> nat) \<times> 's) option" where
  "non_blocking_loop is_stream attempt bytes_transferred w =
     (case attempt w of ((bytes, ec), w) \<Rightarrow>
        if is_stream \<and> bytes = 0 then Some ((True, misc eof, bytes_transferred), w)
        else if bytes \<ge> 0 then Some ((True, ec, nat bytes), w)
        else if ec = basic interrupted then non_blocking_loop is_stream attempt bytes_transferred w
        else if ec = basic would_block \<or> ec = basic try_again then Some ((False, ec, bytes_transferred), w)
        else Some ((True, ec, 0), w))"

definition non_blocking_recv ::
    "'s os \<Rightarrow> int \<Rightarrow> abuf list \<Rightarrow> nat \<Rightarrow> bool \<Rightarrow> nat \<Rightarrow> 's \<Rightarrow> ((bool \<times> error_code \<times> nat) \<times> 's) option" where
  "non_blocking_recv os s bufs flags is_stream = non_blocking_loop is_stream (so_recv os s bufs flags)"

definition non_blocking_recv1 ::
    "'s os \<Rightarrow> int \<Rightarrow> abuf \<Rightarrow> nat \<Rightarrow> bool \<Rightarrow> nat \<Rightarrow> 's \<Rightarrow> ((bool \<times> error_code \<times> nat) \<times> 's) option" where
  "non_blocking_recv1 os s buf flags is_stream = non_blocking_loop is_stream (so_recv1 os s buf flags)"

definition non_blocking_send ::
    "'s os \<Rightarrow> int \<Rightarrow> abuf list \<Rightarrow> nat \<Rightarrow> nat \<Rightarrow> 's \<Rightarrow> ((bool \<times> error_code \<times> nat) \<times> 's) option" where
  "non_blocking_send os s bufs flags = non_blocking_loop False (so_send os s bufs flags)"

definition non_blocking_send1 ::
    "'s os \<Rightarrow> int \<Rightarrow> abuf \<Rightarrow> nat \<Rightarrow> nat \<Rightarrow> 's \<Rightarrow> ((bool \<times> error_code \<times> nat) \<times> 's) option" where
  "non_blocking_send1 os s buf flags = non_blocking_loop False (so_send1 os s buf flags)"

section \<open>The flags and the mode of the socket\<close>

lemma has_OR: "has (st OR f) g \<longleftrightarrow> has st g \<or> has f g"
  by (simp add: has_def bit.conj_disj_distrib2 or_eq_0_iff)

lemma has_flags [simp]:
  "has st non_blocking \<longleftrightarrow> has st user_set_non_blocking \<or> has st internal_non_blocking"
  "\<not> has (st AND NOT user_set_non_blocking AND NOT internal_non_blocking) user_set_non_blocking"
  "\<not> has (st AND NOT user_set_non_blocking AND NOT internal_non_blocking) internal_non_blocking"
  "has (st AND NOT internal_non_blocking) user_set_non_blocking \<longleftrightarrow> has st user_set_non_blocking"
  "\<not> has (st AND NOT internal_non_blocking) internal_non_blocking"
proof -
  show "has st non_blocking \<longleftrightarrow> has st user_set_non_blocking \<or> has st internal_non_blocking"
    by (simp add: has_def non_blocking_def bit.conj_disj_distrib or_eq_0_iff)
  have m: "NOT user_set_non_blocking AND NOT internal_non_blocking AND f = 0"
    if "f = user_set_non_blocking \<or> f = internal_non_blocking" for f
    using that by (auto simp: state_bits)
  show "\<not> has (st AND NOT user_set_non_blocking AND NOT internal_non_blocking) user_set_non_blocking"
    "\<not> has (st AND NOT user_set_non_blocking AND NOT internal_non_blocking) internal_non_blocking"
    using m by (simp_all add: has_def and.assoc)
  have "NOT internal_non_blocking AND user_set_non_blocking = user_set_non_blocking"
    "NOT internal_non_blocking AND internal_non_blocking = 0" by (simp_all add: state_bits)
  then show "has (st AND NOT internal_non_blocking) user_set_non_blocking \<longleftrightarrow> has st user_set_non_blocking"
    "\<not> has (st AND NOT internal_non_blocking) internal_non_blocking"
    by (simp_all add: has_def and.assoc)
qed

datatype mode_call =
    Set_User bool
  | Set_Internal bool
  | Io_Control nat int
  | Set_Option nat nat "int list" nat

fun mode_step :: "'s os \<Rightarrow> int \<Rightarrow> mode_call \<Rightarrow> state_type \<times> 's \<Rightarrow> state_type \<times> 's" where
  "mode_step os s (Set_User v) (st, w) = (case set_user_non_blocking os s st v w of ((_, _, st), w) \<Rightarrow> (st, w))"
| "mode_step os s (Set_Internal v) (st, w) = (case set_internal_non_blocking os s st v w of ((_, _, st), w) \<Rightarrow> (st, w))"
| "mode_step os s (Io_Control cmd arg) (st, w) = (case so_ioctl os s st cmd arg w of ((_, _, st, _), w) \<Rightarrow> (st, w))"
| "mode_step os s (Set_Option level name val len) (st, w) =
     (case so_setsockopt os s st level name val len w of ((_, _, st), w) \<Rightarrow> (st, w))"

definition mode_run :: "'s os \<Rightarrow> int \<Rightarrow> mode_call list \<Rightarrow> state_type \<times> 's \<Rightarrow> state_type \<times> 's" where
  "mode_run os s cs x = fold (mode_step os s) cs x"

text \<open>What the system promises: \<open>FIONBIO\<close> sets the mode to its argument when it succeeds and changes nothing
  when it fails, and no other control or option changes the mode.\<close>

definition mode_contract :: "'s os \<Rightarrow> int \<Rightarrow> ('s \<Rightarrow> bool) \<Rightarrow> bool" where
  "mode_contract os s nb \<longleftrightarrow>
     (\<forall>cmd arg w r e arg' w'. sys_ioctl os s cmd arg w = ((r, e, arg'), w') \<longrightarrow>
        (if cmd = FIONBIO then arg' = arg \<and> nb w' = (if r \<ge> 0 then arg \<noteq> 0 else nb w) else nb w' = nb w)) \<and>
     (\<forall>level name val w r w'. sys_setsockopt os s level name val w = (r, w') \<longrightarrow> nb w' = nb w)"

lemma mode_contract_ioctl:
  assumes "mode_contract os s nb" and "sys_ioctl os s cmd arg w = ((r, e, arg'), w')"
  shows "cmd = FIONBIO \<Longrightarrow> arg' = arg" "cmd = FIONBIO \<Longrightarrow> nb w' = (if r \<ge> 0 then arg \<noteq> 0 else nb w)"
    "cmd \<noteq> FIONBIO \<Longrightarrow> nb w' = nb w"
  using assms unfolding mode_contract_def by (metis (no_types, lifting))+

lemma mode_contract_setsockopt:
  "mode_contract os s nb \<Longrightarrow> sys_setsockopt os s level name val w = (r, w') \<Longrightarrow> nb w' = nb w"
  unfolding mode_contract_def by blast

lemma other_bits [simp]:
  "has (st OR user_set_non_blocking) user_set_non_blocking"
  "has (st OR internal_non_blocking) internal_non_blocking"
  "has (st OR enable_connection_aborted) user_set_non_blocking \<longleftrightarrow> has st user_set_non_blocking"
  "has (st OR enable_connection_aborted) internal_non_blocking \<longleftrightarrow> has st internal_non_blocking"
  "has (st OR user_set_linger) user_set_non_blocking \<longleftrightarrow> has st user_set_non_blocking"
  "has (st OR user_set_linger) internal_non_blocking \<longleftrightarrow> has st internal_non_blocking"
  by (simp_all add: has_OR) (simp_all add: has_def state_bits)

lemma aborted_bit [simp]:
  "has (st AND NOT enable_connection_aborted) user_set_non_blocking \<longleftrightarrow> has st user_set_non_blocking"
  "has (st AND NOT enable_connection_aborted) internal_non_blocking \<longleftrightarrow> has st internal_non_blocking"
proof -
  have "NOT enable_connection_aborted AND f = f" if "f = user_set_non_blocking \<or> f = internal_non_blocking" for f
    using that by (auto simp: state_bits)
  then show "has (st AND NOT enable_connection_aborted) user_set_non_blocking \<longleftrightarrow> has st user_set_non_blocking"
    "has (st AND NOT enable_connection_aborted) internal_non_blocking \<longleftrightarrow> has st internal_non_blocking"
    by (simp_all add: has_def and.assoc)
qed

lemma mode_step_mirrors:
  assumes c: "mode_contract os s nb" and m: "has st non_blocking \<longleftrightarrow> nb w"
    and step: "mode_step os s call (st, w) = (st', w')"
  shows "has st' non_blocking \<longleftrightarrow> nb w'"
proof (cases call)
  case (Set_User v)
  then show ?thesis using step m
    by (auto simp: set_user_non_blocking_def Let_def split: prod.splits if_splits
        dest: mode_contract_ioctl [OF c])
next
  case (Set_Internal v)
  then show ?thesis using step m
    by (auto simp: set_internal_non_blocking_def Let_def split: prod.splits if_splits
        dest: mode_contract_ioctl [OF c])
next
  case (Io_Control cmd arg)
  obtain r e arg' v where i: "sys_ioctl os s cmd arg w = ((r, e, arg'), v)" by (metis surj_pair)
  note k = mode_contract_ioctl [OF c i]
  show ?thesis using step m Io_Control i k
    by (cases "s = invalid_socket"; cases "cmd = FIONBIO") (auto simp: so_ioctl_def Let_def split: if_splits)
next
  case (Set_Option level name val len)
  then show ?thesis using step m
    by (auto simp: so_setsockopt_def Let_def split: prod.splits if_splits dest: mode_contract_setsockopt [OF c])
qed

section \<open>The loops\<close>

text \<open>The state in which the first \<open>k\<close> attempts, all interrupted, leave the system.\<close>

fun after_interrupts :: "('s \<Rightarrow> (int \<times> error_code) \<times> 's) \<Rightarrow> nat \<Rightarrow> 's \<Rightarrow> 's option" where
  "after_interrupts attempt 0 w = Some w"
| "after_interrupts attempt (Suc k) w =
     (case attempt w of ((b, ec), w') \<Rightarrow>
        if b < 0 \<and> ec = basic interrupted then after_interrupts attempt k w' else None)"

lemma interrupted_not_would_block [simp]:
  "basic interrupted \<noteq> basic would_block" "basic would_block \<noteq> basic interrupted"
  by (simp_all add: basic_eq_iff errno_defs)

lemma non_blocking_loop_eq:
  assumes "after_interrupts attempt k w = Some w1" and "attempt w1 = ((b, ec), w2)"
    and "0 \<le> b \<or> ec \<noteq> basic interrupted"
  shows "non_blocking_loop is_stream attempt bt w = Some
    (if is_stream \<and> b = 0 then (True, misc eof, bt)
     else if 0 \<le> b then (True, ec, nat b)
     else if ec = basic would_block then (False, ec, bt) else (True, ec, 0), w2)"
  using assms
proof (induction k arbitrary: w)
  case 0
  then show ?case by (subst non_blocking_loop.simps) auto
next
  case (Suc k)
  obtain b' ec' w' where a: "attempt w = ((b', ec'), w')" by (metis surj_pair)
  then have i: "b' < 0" "ec' = basic interrupted" "after_interrupts attempt k w' = Some w1"
    using Suc.prems(1) by (auto split: if_splits)
  show ?case using Suc.IH [OF i(3) Suc.prems(2,3)] a i(1,2) by (subst non_blocking_loop.simps) simp
qed

text \<open>The state in which the first \<open>k\<close> attempts, each refused because the call would block and followed by a
  wait, leave the system.\<close>

fun after_waits ::
    "('s \<Rightarrow> (int \<times> error_code) \<times> 's) \<Rightarrow> ('s \<Rightarrow> (int \<times> error_code) \<times> 's) \<Rightarrow> nat \<Rightarrow> 's \<Rightarrow> 's option" where
  "after_waits attempt wait 0 w = Some w"
| "after_waits attempt wait (Suc k) w =
     (case attempt w of ((b, ec), w') \<Rightarrow>
        if b < 0 \<and> ec = basic would_block
        then (case wait w' of ((r, _), w'') \<Rightarrow> if r < 0 then None else after_waits attempt wait k w'')
        else None)"

lemma sync_loop_eq:
  assumes "after_waits attempt wait k w = Some w1" and "attempt w1 = ((b, ec), w2)"
    and "0 \<le> b \<or> ec \<noteq> basic would_block" and "\<not> has state user_set_non_blocking"
  shows "sync_loop is_stream state attempt wait w = Some
    (if is_stream \<and> b = 0 then (0, misc eof) else if 0 \<le> b then (nat b, ec) else (0, ec), w2)"
  using assms
proof (induction k arbitrary: w)
  case 0
  then show ?case by (subst sync_loop.simps) auto
next
  case (Suc k)
  obtain b' ec' w' r ec'' w'' where a: "attempt w = ((b', ec'), w')" "wait w' = ((r, ec''), w'')"
    by (metis surj_pair)
  then have i: "b' < 0" "ec' = basic would_block" "0 \<le> r" "after_waits attempt wait k w'' = Some w1"
    using Suc.prems(1) by (auto split: if_splits)
  show ?case using Suc.IH [OF i(4) Suc.prems(2-4)] a i(1-3) Suc.prems(4) by (subst sync_loop.simps) simp
qed

text \<open>What the system promises of a transfer: at most the bytes that were offered, and an error number with
  every failure.\<close>

definition transfer_contract :: "nat \<Rightarrow> 's sys_call \<Rightarrow> bool" where
  "transfer_contract sz call \<longleftrightarrow>
     (\<forall>w r e w'. call w = ((r, e), w') \<longrightarrow> r \<le> int sz \<and> (r < 0 \<longrightarrow> e \<noteq> 0))"

lemma transfer_contractD:
  "transfer_contract sz call \<Longrightarrow> call w = ((r, e), w') \<Longrightarrow> r \<le> int sz"
  "transfer_contract sz call \<Longrightarrow> call w = ((r, e), w') \<Longrightarrow> r < 0 \<Longrightarrow> e \<noteq> 0"
  unfolding transfer_contract_def by blast+

lemma so_send_contract:
  assumes "transfer_contract (buffer_size bufs) (sys_sendmsg os s bufs (flags OR MSG_NOSIGNAL))"
    and "so_send os s bufs flags w = ((b, ec), w')"
  shows "b \<le> int (buffer_size bufs)" "0 \<le> b \<longleftrightarrow> ec = None"
  using assms(2) by (auto simp: so_send_def get_last_error_def sys_error_def split: prod.splits if_splits
      dest: transfer_contractD [OF assms(1)])

lemma so_recv_contract:
  assumes "transfer_contract (buffer_size bufs) (sys_recvmsg os s bufs flags)"
    and "so_recv os s bufs flags w = ((b, ec), w')"
  shows "b \<le> int (buffer_size bufs)" "0 \<le> b \<longleftrightarrow> ec = None"
  using assms(2) by (auto simp: so_recv_def get_last_error_def sys_error_def split: prod.splits if_splits
      dest: transfer_contractD [OF assms(1)])

section \<open>Properties of the socket operations\<close>

text \<open>C26: The flags of a socket tell its mode. On a system whose \<open>FIONBIO\<close> control sets the blocking mode,
  every sequence of calls that change the mode, of other controls and of socket options keeps the
  non-blocking flags of the socket state equal to the mode the system keeps: the user's flag and the
  internal one together say whether the socket is non-blocking, failed calls included.\<close>

theorem non_blocking_flags_mirror_mode:
  assumes "mode_contract os s nb" and "has st non_blocking \<longleftrightarrow> nb w"
    and "mode_run os s cs (st, w) = (st', w')"
  shows "has st' non_blocking \<longleftrightarrow> nb w'"
  using assms(2,3) unfolding mode_run_def
proof (induction cs arbitrary: st w)
  case (Cons c cs)
  obtain st1 w1 where s: "mode_step os s c (st, w) = (st1, w1)" by fastforce
  show ?case using Cons.IH [OF mode_step_mirrors [OF assms(1) Cons.prems(1) s]] Cons.prems(2) s by simp
qed simp

text \<open>A system with one socket, whose state is the mode of that socket.\<close>

definition mode_os :: "bool os" where
  "mode_os = \<lparr> sys_accept = \<lambda>_ w. ((- 1, E_AGAIN), w), sys_bind = \<lambda>_ w. ((0, 0), w), sys_close = \<lambda>_ w. ((0, 0), w),
     sys_connect = \<lambda>_ w. ((0, 0), w), sys_listen = \<lambda>_ _ w. ((0, 0), w), sys_shutdown = \<lambda>_ _ w. ((0, 0), w),
     sys_socket = \<lambda>_ _ _ w. ((3, 0), w), sys_poll = \<lambda>_ _ _ w. ((1, 0), w), sys_recv = \<lambda>_ _ _ w. ((0, 0), w),
     sys_recvmsg = \<lambda>_ _ _ w. ((0, 0), w), sys_send = \<lambda>_ b _ w. ((int (ab_size b), 0), w),
     sys_sendmsg = \<lambda>_ bs _ w. ((int (buffer_size bs), 0), w),
     sys_ioctl = \<lambda>_ cmd arg w. ((0, 0, arg), if cmd = FIONBIO then arg \<noteq> 0 else w),
     sys_setsockopt = \<lambda>_ _ _ _ w. ((0, 0), w), sys_getsockopt = \<lambda>_ _ _ n w. ((0, 0, [0], n), w) \<rparr>"

theorem non_blocking_flags_mirror_mode_witness:
  "mode_run mode_os 3 [Set_Internal True, Set_User True, Set_Internal False] (stream_oriented, False) =
     (stream_oriented OR internal_non_blocking OR user_set_non_blocking, True) \<and>
   has (stream_oriented OR internal_non_blocking OR user_set_non_blocking) non_blocking"
proof -
  have c: "mode_contract mode_os 3 (\<lambda>w. w)" by (simp add: mode_contract_def mode_os_def)
  have st: "has stream_oriented non_blocking \<longleftrightarrow> False" by (simp add: has_def state_bits)
  have r: "mode_run mode_os 3 [Set_Internal True, Set_User True, Set_Internal False] (stream_oriented, False) =
     (stream_oriented OR internal_non_blocking OR user_set_non_blocking, True)"
    by (simp add: mode_run_def set_internal_non_blocking_def set_user_non_blocking_def mode_os_def get_last_error_def
        Let_def or.assoc has_OR) (simp add: has_def state_bits)
  show ?thesis using non_blocking_flags_mirror_mode [OF c st r] r by simp
qed

text \<open>C27: What a non-blocking send or receive reports. Once the system stops interrupting it, the call returns,
  and its result is that of the first attempt that was not interrupted: finished with a number of bytes
  that is at most what was offered and no error, finished with an error and no bytes, or not finished
  because it would block, with the number of bytes left as it was. A receive of no bytes on a stream is
  the end of the stream.\<close>

theorem non_blocking_transfer_outcome:
  assumes "transfer_contract (buffer_size bufs) (sys_sendmsg os s bufs (flags OR MSG_NOSIGNAL))"
    and "transfer_contract (buffer_size bufs) (sys_recvmsg os s bufs flags)"
    and "after_interrupts (so_send os s bufs flags) k w = Some w1" and "so_send os s bufs flags w1 = ((b, ec), w2)"
    and "ec \<noteq> basic interrupted"
    and "after_interrupts (so_recv os s bufs flags) j w = Some v1" and "so_recv os s bufs flags v1 = ((b', ec'), v2)"
    and "ec' \<noteq> basic interrupted"
  shows "non_blocking_send os s bufs flags bt w = Some
      (if ec = None then (True, None, nat b) else if ec = basic would_block then (False, ec, bt) else (True, ec, 0), w2) \<and>
    nat b \<le> buffer_size bufs \<and>
    non_blocking_recv os s bufs flags is_stream bt w = Some
      (if is_stream \<and> b' = 0 then (True, misc eof, bt) else if ec' = None then (True, None, nat b')
       else if ec' = basic would_block then (False, ec', bt) else (True, ec', 0), v2) \<and>
    nat b' \<le> buffer_size bufs"
proof -
  note s = so_send_contract [OF assms(1,4)] and r = so_recv_contract [OF assms(2,7)]
  have "non_blocking_send os s bufs flags bt w = Some
      (if ec = None then (True, None, nat b) else if ec = basic would_block then (False, ec, bt) else (True, ec, 0), w2)"
    using non_blocking_loop_eq [OF assms(3,4), of False bt] assms(5) s by (auto simp: non_blocking_send_def)
  moreover have "non_blocking_recv os s bufs flags is_stream bt w = Some
      (if is_stream \<and> b' = 0 then (True, misc eof, bt) else if ec' = None then (True, None, nat b')
       else if ec' = basic would_block then (False, ec', bt) else (True, ec', 0), v2)"
    using non_blocking_loop_eq [OF assms(6,7), of is_stream bt] assms(8) r by (auto simp: non_blocking_recv_def)
  moreover have "nat b \<le> buffer_size bufs" "nat b' \<le> buffer_size bufs" using s(1) r(1) by linarith+
  ultimately show ?thesis by blast
qed

text \<open>A system that interrupts the first transfer and lets the next ones move two bytes.\<close>

definition interrupting_os :: "nat os" where
  "interrupting_os = \<lparr> sys_accept = \<lambda>_ w. ((- 1, E_AGAIN), w), sys_bind = \<lambda>_ w. ((0, 0), w), sys_close = \<lambda>_ w. ((0, 0), w),
     sys_connect = \<lambda>_ w. ((0, 0), w), sys_listen = \<lambda>_ _ w. ((0, 0), w), sys_shutdown = \<lambda>_ _ w. ((0, 0), w),
     sys_socket = \<lambda>_ _ _ w. ((3, 0), w), sys_poll = \<lambda>_ _ _ w. ((1, 0), w), sys_recv = \<lambda>_ _ _ w. ((0, 0), w),
     sys_recvmsg = \<lambda>_ bs _ w. (if w = 0 then (- 1, E_INTR) else (int (min 2 (buffer_size bs)), 0), w + 1),
     sys_send = \<lambda>_ _ _ w. ((0, 0), w),
     sys_sendmsg = \<lambda>_ bs _ w. (if w = 0 then (- 1, E_INTR) else (int (min 2 (buffer_size bs)), 0), w + 1),
     sys_ioctl = \<lambda>_ _ arg w. ((0, 0, arg), w),
     sys_setsockopt = \<lambda>_ _ _ _ w. ((0, 0), w), sys_getsockopt = \<lambda>_ _ _ n w. ((0, 0, [0], n), w) \<rparr>"

theorem non_blocking_transfer_outcome_witness:
  "non_blocking_send interrupting_os 3 [mk_buf 0 5] 0 0 0 = Some ((True, None, 2), 2) \<and>
   non_blocking_recv interrupting_os 3 [mk_buf 0 5] 0 True 0 0 = Some ((True, None, 2), 2)"
proof -
  let ?os = interrupting_os and ?bs = "[mk_buf 0 5]"
  have c: "transfer_contract (buffer_size ?bs) (sys_sendmsg ?os 3 ?bs (0 OR MSG_NOSIGNAL))"
    "transfer_contract (buffer_size ?bs) (sys_recvmsg ?os 3 ?bs 0)"
    by (auto simp: transfer_contract_def interrupting_os_def errno_defs mk_buf_def split: if_splits)
  have i: "(- 1 :: int, sys_error E_INTR) = (- 1, basic interrupted)" by (simp add: basic_def)
  have s: "after_interrupts (so_send ?os 3 ?bs 0) 1 0 = Some 1" "so_send ?os 3 ?bs 0 1 = ((2, None), 2)"
    and r: "after_interrupts (so_recv ?os 3 ?bs 0) 1 0 = Some 1" "so_recv ?os 3 ?bs 0 1 = ((2, None), 2)"
    using i by (simp_all add: so_send_def so_recv_def interrupting_os_def get_last_error_def mk_buf_def)
  show ?thesis using non_blocking_transfer_outcome [OF c s _ r, of 0 True] by simp
qed

end
