(* ===== verification/Asio_Time.thy ===== *)
theory Asio_Time
  imports Xsix_Prelude
begin

text \<open>
  Time arithmetic of the timers under \<open>xsix\<close>: \<open>chrono_time_traits\<close> of
  \<open>src/3rd/asio/include/asio/detail/chrono_time_traits.hpp\<close>. Time points and durations are tick
  counts of type \<open>int64_t\<close>, and the period of the clock is a ratio \<open>num / den\<close>; every 64-bit
  operation of the code is checked for overflow. The wait traits are the default ones, which return
  the duration unchanged.
\<close>

section \<open>Template arithmetic\<close>

definition i64_max :: int where "i64_max = 2 ^ 63 - 1"
definition i64_min :: int where "i64_min = - (2 ^ 63)"

text \<open>The greatest common divisor as the two templates compute it, on the positive arguments they get.\<close>

fun tgcd :: "nat \<Rightarrow> nat \<Rightarrow> nat" where
  "tgcd v1 v2 = (if v2 = 0 then v1 else tgcd v2 (v1 mod v2))"

declare tgcd.simps [simp del]

section \<open>chrono_time_traits\<close>

definition time_add :: "int \<Rightarrow> int \<Rightarrow> int res" where
  "time_add t d =
     (let epoch = 0 in
      if t \<ge> epoch then
        bind_res (chk_i64 (i64_max - t)) (\<lambda>room.
        if room < d then Inr i64_max else chk_i64 (t + d))
      else
        bind_res (chk_i64 (t - i64_min)) (\<lambda>x.
        bind_res (chk_i64 (- x)) (\<lambda>room.
        if room > d then Inr i64_min else chk_i64 (t + d))))"

definition time_subtract :: "int \<Rightarrow> int \<Rightarrow> int res" where
  "time_subtract t1 t2 =
     (let epoch = 0 in
      if t1 \<ge> epoch then
        if t2 \<ge> epoch then chk_i64 (t1 - t2)
        else if t2 = i64_min then Inr i64_max
        else
          bind_res (chk_i64 (i64_max - t1)) (\<lambda>room.
          bind_res (chk_i64 (epoch - t2)) (\<lambda>x.
          if room < x then Inr i64_max else chk_i64 (t1 - t2)))
      else
        if t2 < epoch then chk_i64 (t1 - t2)
        else if t1 = i64_min then Inr i64_min
        else
          bind_res (chk_i64 (i64_max - t2)) (\<lambda>room.
          bind_res (chk_i64 (epoch - t1)) (\<lambda>x.
          if room < x then Inr i64_min
          else bind_res (chk_i64 (t2 - t1)) (\<lambda>y. chk_i64 (- y)))))"

definition less_than :: "int \<Rightarrow> int \<Rightarrow> bool" where
  "less_than t1 t2 \<longleftrightarrow> t1 < t2"

text \<open>\<open>duration_cast<Num, Den>\<close> for a clock with period \<open>pnum / pden\<close>.\<close>

definition duration_cast :: "nat \<Rightarrow> nat \<Rightarrow> nat \<Rightarrow> nat \<Rightarrow> int \<Rightarrow> int res" where
  "duration_cast pnum pden Num Den ticks =
     (let num1 = pnum div tgcd pnum Num;
          num2 = Num div tgcd pnum Num;
          den1 = pden div tgcd pden Den;
          den2 = Den div tgcd pden Den;
          num = int (num1 * den2);
          den = int (num2 * den1)
      in if num = 1 \<and> den = 1 then Inr ticks
         else if num \<noteq> 1 \<and> den = 1 then chk_i64 (ticks * num)
         else if num = 1 \<and> pden \<noteq> 1 then Inr (c_quot ticks den)
         else bind_res (chk_i64 (ticks * num)) (\<lambda>x. Inr (c_quot x den)))"

definition total_seconds :: "nat \<Rightarrow> nat \<Rightarrow> int \<Rightarrow> int res" where
  "total_seconds pnum pden ticks = duration_cast pnum pden 1 1 ticks"

definition total_milliseconds :: "nat \<Rightarrow> nat \<Rightarrow> int \<Rightarrow> int res" where
  "total_milliseconds pnum pden ticks = duration_cast pnum pden 1 1000 ticks"

definition total_microseconds :: "nat \<Rightarrow> nat \<Rightarrow> int \<Rightarrow> int res" where
  "total_microseconds pnum pden ticks = duration_cast pnum pden 1 1000000 ticks"

section \<open>Saturation\<close>

definition clamp64 :: "int \<Rightarrow> int" where
  "clamp64 x = max i64_min (min i64_max x)"

lemmas i64_defs = i64_max_def i64_min_def in_i64_def

lemma in_i64_iff: "in_i64 x \<longleftrightarrow> i64_min \<le> x \<and> x \<le> i64_max"
  by (auto simp: i64_defs)

lemma clamp64_id: "in_i64 x \<Longrightarrow> clamp64 x = x"
  by (simp add: clamp64_def in_i64_iff)

lemma time_add_clamps:
  assumes "in_i64 t" and "in_i64 d"
  shows "time_add t d = Inr (clamp64 (t + d))"
  using assms by (auto simp: time_add_def chk_i64_def clamp64_def i64_defs)

lemma time_subtract_clamps:
  assumes "in_i64 t1" and "in_i64 t2"
  shows "time_subtract t1 t2 = Inr (clamp64 (t1 - t2))"
  using assms by (auto simp: time_subtract_def chk_i64_def clamp64_def i64_defs)

lemma tgcd_gcd: "tgcd a b = gcd a b"
  by (induction a b rule: tgcd.induct) (subst tgcd.simps, auto simp: gcd.commute gcd_red_nat [symmetric])

text \<open>For a clock that counts nanoseconds (the steady clock), the conversions divide.\<close>

lemma cast_ns:
  "total_seconds 1 1000000000 x = Inr (c_quot x 1000000000)"
  "total_milliseconds 1 1000000000 x = Inr (c_quot x 1000000)"
  "total_microseconds 1 1000000000 x = Inr (c_quot x 1000)"
proof -
  have "gcd (1000000000 :: nat) 1000 = 1000" "gcd (1000000000 :: nat) 1000000 = 1000000"
    by (simp_all add: gcd_red_nat [of 1000000000])
  then show "total_seconds 1 1000000000 x = Inr (c_quot x 1000000000)"
    "total_milliseconds 1 1000000000 x = Inr (c_quot x 1000000)"
    "total_microseconds 1 1000000000 x = Inr (c_quot x 1000)"
    by (simp_all add: total_seconds_def total_milliseconds_def total_microseconds_def duration_cast_def
        tgcd_gcd Let_def)
qed

section \<open>Properties\<close>

text \<open>Time arithmetic saturates and never overflows: for all 64-bit time points and durations, adding
  and subtracting return the exact result clamped to the 64-bit range, although every intermediate
  expression of the code is computed in 64 bits.\<close>

theorem time_arithmetic_saturates:
  assumes "in_i64 t" and "in_i64 d"
  shows "time_add t d = Inr (clamp64 (t + d)) \<and> time_subtract t d = Inr (clamp64 (t - d))"
  using time_add_clamps [OF assms] time_subtract_clamps [OF assms] by simp

theorem time_arithmetic_saturates_witness:
  "time_add (2 ^ 63 - 1) 1 = Inr (2 ^ 63 - 1) \<and> time_subtract (2 ^ 63 - 1) 1 = Inr (2 ^ 63 - 2)"
  using time_arithmetic_saturates [of "2 ^ 63 - 1" 1] by (simp add: clamp64_def i64_defs)

end
