(* ===== verification/Asio_Timer_Queue.thy ===== *)
theory Asio_Timer_Queue
  imports Asio_Time "HOL-Library.Multiset"
begin

text \<open>
  The timer queue of asio, \<open>src/3rd/asio/include/asio/detail/timer_queue.hpp\<close>: a binary heap of
  deadlines in a vector, a doubly linked list of the active timers, and in every timer its position in
  the heap and the operations that wait on it. Timers are addresses into a heap of
  \<open>per_timer_data\<close>; the operations of a timer are the list its \<open>op_queue\<close> stands for. Deadlines are the
  64-bit tick counts of the traits class for \<open>std::chrono\<close> clocks, for which no time is positive
  infinity.
\<close>

section \<open>State\<close>

record per_timer_data =
  pt_ops :: "nat list"
  pt_index :: nat
  pt_next :: "nat option"
  pt_prev :: "nat option"

record timer_queue =
  tq_timers :: "nat option"
  tq_heap :: "(int \<times> nat) list"
  tq_data :: "nat \<Rightarrow> per_timer_data"
  tq_aborted :: "nat \<Rightarrow> bool"

definition no_index :: nat where
  "no_index = 2 ^ 64 - 1"

definition per_timer_ctor :: per_timer_data where
  "per_timer_ctor = \<lparr> pt_ops = [], pt_index = no_index, pt_next = None, pt_prev = None \<rparr>"

definition timer_queue_ctor :: "timer_queue" where
  "timer_queue_ctor =
     \<lparr> tq_timers = None, tq_heap = [], tq_data = (\<lambda>_. per_timer_ctor), tq_aborted = (\<lambda>_. False) \<rparr>"

definition upd_timer :: "nat \<Rightarrow> (per_timer_data \<Rightarrow> per_timer_data) \<Rightarrow> timer_queue \<Rightarrow> timer_queue" where
  "upd_timer p f s = s\<lparr>tq_data := (tq_data s)(p := f (tq_data s p))\<rparr>"

definition set_index :: "nat \<Rightarrow> nat \<Rightarrow> timer_queue \<Rightarrow> timer_queue" where
  "set_index p i = upd_timer p (\<lambda>d. d\<lparr>pt_index := i\<rparr>)"

definition set_next :: "nat \<Rightarrow> nat option \<Rightarrow> timer_queue \<Rightarrow> timer_queue" where
  "set_next p x = upd_timer p (\<lambda>d. d\<lparr>pt_next := x\<rparr>)"

definition set_prev :: "nat \<Rightarrow> nat option \<Rightarrow> timer_queue \<Rightarrow> timer_queue" where
  "set_prev p x = upd_timer p (\<lambda>d. d\<lparr>pt_prev := x\<rparr>)"

section \<open>The heap\<close>

definition swap_heap :: "timer_queue \<Rightarrow> nat \<Rightarrow> nat \<Rightarrow> timer_queue" where
  "swap_heap s index1 index2 =
     (let tmp = tq_heap s ! index1;
          s = s\<lparr>tq_heap := (tq_heap s)[index1 := tq_heap s ! index2]\<rparr>;
          s = s\<lparr>tq_heap := (tq_heap s)[index2 := tmp]\<rparr>;
          s = set_index (snd (tq_heap s ! index1)) index1 s
      in set_index (snd (tq_heap s ! index2)) index2 s)"

function up_heap :: "timer_queue \<Rightarrow> nat \<Rightarrow> timer_queue" where
  "up_heap s index =
     (if index > 0 then
        let parent = (index - 1) div 2 in
        if \<not> less_than (fst (tq_heap s ! index)) (fst (tq_heap s ! parent)) then s
        else up_heap (swap_heap s index parent) parent
      else s)"
  by pat_completeness auto
termination by (relation "measure snd") auto

lemma length_swap_heap [simp]: "length (tq_heap (swap_heap s i j)) = length (tq_heap s)"
  by (simp add: swap_heap_def Let_def set_index_def upd_timer_def)

function down_heap :: "timer_queue \<Rightarrow> nat \<Rightarrow> timer_queue" where
  "down_heap s index =
     (let child = index * 2 + 1 in
      if child < length (tq_heap s) then
        let min_child =
              (if child + 1 = length (tq_heap s) \<or>
                  less_than (fst (tq_heap s ! child)) (fst (tq_heap s ! (child + 1)))
               then child else child + 1)
        in if less_than (fst (tq_heap s ! index)) (fst (tq_heap s ! min_child)) then s
           else down_heap (swap_heap s index min_child) min_child
      else s)"
  by pat_completeness auto
termination by (relation "measure (\<lambda>(s, index). length (tq_heap s) - index)") (auto simp: Let_def)

declare up_heap.simps [simp del] down_heap.simps [simp del]

section \<open>Removing and adding timers\<close>

text \<open>The first half of \<open>remove_timer\<close>, which takes the timer out of the heap.\<close>

definition remove_from_heap :: "timer_queue \<Rightarrow> nat \<Rightarrow> timer_queue" where
  "remove_from_heap s p =
     (let index = pt_index (tq_data s p) in
      if tq_heap s \<noteq> [] \<and> index < length (tq_heap s) then
        (if index = length (tq_heap s) - 1 then
           let s = set_index p no_index s
           in s\<lparr>tq_heap := butlast (tq_heap s)\<rparr>
         else
           let s = swap_heap s index (length (tq_heap s) - 1);
               s = set_index p no_index s;
               s = s\<lparr>tq_heap := butlast (tq_heap s)\<rparr>
           in if index > 0 \<and>
                 less_than (fst (tq_heap s ! index)) (fst (tq_heap s ! ((index - 1) div 2)))
              then up_heap s index else down_heap s index)
      else s)"

text \<open>The second half, which takes it out of the linked list.\<close>

definition unlink_timer :: "timer_queue \<Rightarrow> nat \<Rightarrow> timer_queue" where
  "unlink_timer s p =
     (let s = (if tq_timers s = Some p then s\<lparr>tq_timers := pt_next (tq_data s p)\<rparr> else s);
          s = (case pt_prev (tq_data s p) of
                 Some q \<Rightarrow> set_next q (pt_next (tq_data s p)) s | None \<Rightarrow> s);
          s = (case pt_next (tq_data s p) of
                 Some q \<Rightarrow> set_prev q (pt_prev (tq_data s p)) s | None \<Rightarrow> s)
      in set_prev p None (set_next p None s))"

definition remove_timer :: "timer_queue \<Rightarrow> nat \<Rightarrow> timer_queue" where
  "remove_timer s p = unlink_timer (remove_from_heap s p) p"

definition is_positive_infinity :: "int \<Rightarrow> bool" where
  "is_positive_infinity t \<longleftrightarrow> False"

definition is_active :: "timer_queue \<Rightarrow> nat \<Rightarrow> bool" where
  "is_active s p \<longleftrightarrow> pt_prev (tq_data s p) \<noteq> None \<or> tq_timers s = Some p"

definition enqueue_timer :: "timer_queue \<Rightarrow> int \<Rightarrow> nat \<Rightarrow> nat \<Rightarrow> timer_queue \<times> bool" where
  "enqueue_timer s t p op =
     (let s =
        (if pt_prev (tq_data s p) = None \<and> tq_timers s \<noteq> Some p then
           let s =
             (if is_positive_infinity t then set_index p no_index s
              else
                let s = set_index p (length (tq_heap s)) s;
                    s = s\<lparr>tq_heap := tq_heap s @ [(t, p)]\<rparr>
                in up_heap s (length (tq_heap s) - 1));
               s = set_next p (tq_timers s) s;
               s = set_prev p None s;
               s = (case tq_timers s of Some q \<Rightarrow> set_prev q (Some p) s | None \<Rightarrow> s)
           in s\<lparr>tq_timers := Some p\<rparr>
         else s);
          s = upd_timer p (\<lambda>d. d\<lparr>pt_ops := pt_ops d @ [op]\<rparr>) s
      in (s, pt_index (tq_data s p) = 0 \<and> hd (pt_ops (tq_data s p)) = op))"

definition tq_empty :: "timer_queue \<Rightarrow> bool" where
  "tq_empty s \<longleftrightarrow> tq_timers s = None"

text \<open>\<open>to_msec\<close> and \<open>to_usec\<close>, with the conversion of the clock as an argument.\<close>

definition to_msec :: "(int \<Rightarrow> int res) \<Rightarrow> int \<Rightarrow> int \<Rightarrow> int res" where
  "to_msec total_ms d max_duration =
     (if d \<le> 0 then Inr 0
      else bind_res (total_ms d) (\<lambda>msec.
           if msec = 0 then Inr 1
           else if msec > max_duration then Inr max_duration
           else Inr msec))"

definition to_usec :: "(int \<Rightarrow> int res) \<Rightarrow> int \<Rightarrow> int \<Rightarrow> int res" where
  "to_usec total_us d max_duration =
     (if d \<le> 0 then Inr 0
      else bind_res (total_us d) (\<lambda>usec.
           if usec = 0 then Inr 1
           else if usec > max_duration then Inr max_duration
           else Inr usec))"

definition wait_duration_msec :: "nat \<Rightarrow> nat \<Rightarrow> int \<Rightarrow> timer_queue \<Rightarrow> int \<Rightarrow> int res" where
  "wait_duration_msec pnum pden now s max_duration =
     (if tq_heap s = [] then Inr max_duration
      else bind_res (time_subtract (fst (tq_heap s ! 0)) now) (\<lambda>d.
           to_msec (total_milliseconds pnum pden) d max_duration))"

definition wait_duration_usec :: "nat \<Rightarrow> nat \<Rightarrow> int \<Rightarrow> timer_queue \<Rightarrow> int \<Rightarrow> int res" where
  "wait_duration_usec pnum pden now s max_duration =
     (if tq_heap s = [] then Inr max_duration
      else bind_res (time_subtract (fst (tq_heap s ! 0)) now) (\<lambda>d.
           to_usec (total_microseconds pnum pden) d max_duration))"

text \<open>The loop that dequeues the timers whose time has come.\<close>

partial_function (option) ready_loop :: "int \<Rightarrow> timer_queue \<Rightarrow> nat list \<Rightarrow> (timer_queue \<times> nat list) option" where
  "ready_loop now s ops =
     (if tq_heap s \<noteq> [] \<and> \<not> less_than now (fst (tq_heap s ! 0)) then
        let p = snd (tq_heap s ! 0);
            ops = ops @ pt_ops (tq_data s p);
            s = upd_timer p (\<lambda>d. d\<lparr>pt_ops := []\<rparr>) s
        in ready_loop now (remove_timer s p) ops
      else Some (s, ops))"

definition get_ready_timers :: "int \<Rightarrow> timer_queue \<Rightarrow> nat list \<Rightarrow> (timer_queue \<times> nat list) option" where
  "get_ready_timers now s ops = (if tq_heap s \<noteq> [] then ready_loop now s ops else Some (s, ops))"

partial_function (option) all_loop :: "timer_queue \<Rightarrow> nat list \<Rightarrow> (timer_queue \<times> nat list) option" where
  "all_loop s ops =
     (case tq_timers s of
        None \<Rightarrow> Some (s, ops)
      | Some p \<Rightarrow>
          let s = s\<lparr>tq_timers := pt_next (tq_data s p)\<rparr>;
              ops = ops @ pt_ops (tq_data s p);
              s = upd_timer p (\<lambda>d. d\<lparr>pt_ops := []\<rparr>) s;
              s = set_prev p None (set_next p None s)
          in all_loop s ops)"

definition get_all_timers :: "timer_queue \<Rightarrow> nat list \<Rightarrow> (timer_queue \<times> nat list) option" where
  "get_all_timers s ops =
     Option.bind (all_loop s ops) (\<lambda>(s, ops). Some (s\<lparr>tq_heap := []\<rparr>, ops))"

text \<open>Cancellation of at most \<open>max_cancelled\<close> operations of one timer.\<close>

fun cancel_loop :: "nat list \<Rightarrow> nat \<Rightarrow> nat \<Rightarrow> nat list \<times> nat list \<times> nat" where
  "cancel_loop queued max_cancelled n =
     (case queued of
        [] \<Rightarrow> ([], [], n)
      | op # rest \<Rightarrow>
          if n = max_cancelled then (queued, [], n)
          else (case cancel_loop rest max_cancelled (n + 1) of (left, out, k) \<Rightarrow> (left, op # out, k)))"

definition cancel_timer :: "timer_queue \<Rightarrow> nat \<Rightarrow> nat list \<Rightarrow> nat \<Rightarrow> timer_queue \<times> nat list \<times> nat" where
  "cancel_timer s p ops max_cancelled =
     (if pt_prev (tq_data s p) \<noteq> None \<or> tq_timers s = Some p then
        (case cancel_loop (pt_ops (tq_data s p)) max_cancelled 0 of (left, out, n) \<Rightarrow>
           let s = s\<lparr>tq_aborted := (\<lambda>x. x \<in> set out \<or> tq_aborted s x)\<rparr>;
               s = upd_timer p (\<lambda>d. d\<lparr>pt_ops := left\<rparr>) s;
               s = (if pt_ops (tq_data s p) = [] then remove_timer s p else s)
           in (s, ops @ out, n))
      else (s, ops, 0))"

text \<open>\<open>move_timer\<close>: first the operations and the heap entry, then the place in the linked list.\<close>

definition move_heap_entry :: "timer_queue \<Rightarrow> nat \<Rightarrow> nat \<Rightarrow> timer_queue" where
  "move_heap_entry s target source =
     (let s = upd_timer target (\<lambda>d. d\<lparr>pt_ops := pt_ops d @ pt_ops (tq_data s source)\<rparr>) s;
          s = upd_timer source (\<lambda>d. d\<lparr>pt_ops := []\<rparr>) s;
          s = set_index target (pt_index (tq_data s source)) s;
          s = set_index source no_index s;
          i = pt_index (tq_data s target)
      in if i < length (tq_heap s)
         then s\<lparr>tq_heap := (tq_heap s)[i := (fst (tq_heap s ! i), target)]\<rparr> else s)"

definition move_links :: "timer_queue \<Rightarrow> nat \<Rightarrow> nat \<Rightarrow> timer_queue" where
  "move_links s target source =
     (let s = (if tq_timers s = Some source then s\<lparr>tq_timers := Some target\<rparr> else s);
          s = (case pt_prev (tq_data s source) of Some q \<Rightarrow> set_next q (Some target) s | None \<Rightarrow> s);
          s = (case pt_next (tq_data s source) of Some q \<Rightarrow> set_prev q (Some target) s | None \<Rightarrow> s);
          s = set_next target (pt_next (tq_data s source)) s;
          s = set_prev target (pt_prev (tq_data s source)) s
      in set_prev source None (set_next source None s))"

definition move_timer :: "timer_queue \<Rightarrow> nat \<Rightarrow> nat \<Rightarrow> timer_queue" where
  "move_timer s target source = move_links (move_heap_entry s target source) target source"

section \<open>The heap order\<close>

definition heap_parent :: "nat \<Rightarrow> nat" where
  "heap_parent i = (i - 1) div 2"

definition heap_ok :: "(int \<times> nat) list \<Rightarrow> bool" where
  "heap_ok h \<longleftrightarrow> (\<forall>i < length h. 0 < i \<longrightarrow> fst (h ! heap_parent i) \<le> fst (h ! i))"

text \<open>The heap order with the possible exception of entry \<open>k\<close> against its parent (while it moves up),
  and of entry \<open>k\<close> against its children (while it moves down).\<close>

definition up_ok :: "(int \<times> nat) list \<Rightarrow> nat \<Rightarrow> bool" where
  "up_ok h k \<longleftrightarrow>
     (\<forall>i < length h. 0 < i \<longrightarrow> i \<noteq> k \<longrightarrow> fst (h ! heap_parent i) \<le> fst (h ! i)) \<and>
     (\<forall>i < length h. 0 < i \<longrightarrow> 0 < k \<longrightarrow> heap_parent i = k \<longrightarrow> fst (h ! heap_parent k) \<le> fst (h ! i))"

definition down_ok :: "(int \<times> nat) list \<Rightarrow> nat \<Rightarrow> bool" where
  "down_ok h k \<longleftrightarrow>
     (\<forall>i < length h. 0 < i \<longrightarrow> heap_parent i \<noteq> k \<longrightarrow> fst (h ! heap_parent i) \<le> fst (h ! i)) \<and>
     (\<forall>i < length h. 0 < i \<longrightarrow> 0 < k \<longrightarrow> heap_parent i = k \<longrightarrow> fst (h ! heap_parent k) \<le> fst (h ! i))"

definition index_ok :: "timer_queue \<Rightarrow> bool" where
  "index_ok s \<longleftrightarrow> (\<forall>i < length (tq_heap s). pt_index (tq_data s (snd (tq_heap s ! i))) = i)"

definition lswap :: "'a list \<Rightarrow> nat \<Rightarrow> nat \<Rightarrow> 'a list" where
  "lswap h i j = h[i := h ! j, j := h ! i]"

lemma length_lswap [simp]: "length (lswap h i j) = length h"
  by (simp add: lswap_def)

lemma nth_lswap:
  "i < length h \<Longrightarrow> j < length h \<Longrightarrow> k < length h \<Longrightarrow>
   lswap h i j ! k = (if k = i then h ! j else if k = j then h ! i else h ! k)"
  by (auto simp: lswap_def nth_list_update)

lemma mset_lswap [simp]: "i < length h \<Longrightarrow> j < length h \<Longrightarrow> mset (lswap h i j) = mset h"
  unfolding lswap_def by (cases "i = j") (auto simp: mset_swap)

lemma heap_parent_less: "0 < i \<Longrightarrow> heap_parent i < i"
  by (auto simp: heap_parent_def)

lemma heap_parent_child [simp]: "heap_parent (2 * k + 1) = k" "heap_parent (2 * k + 2) = k"
  by (simp_all add: heap_parent_def)

lemma heap_parent_iff: "0 < i \<Longrightarrow> heap_parent i = k \<longleftrightarrow> i = 2 * k + 1 \<or> i = 2 * k + 2"
  by (auto simp: heap_parent_def)

lemma tq_heap_swap_heap [simp]: "tq_heap (swap_heap s i j) = lswap (tq_heap s) i j"
  by (simp add: swap_heap_def Let_def set_index_def upd_timer_def lswap_def)

lemma up_ok_done:
  "up_ok h k \<Longrightarrow> k = 0 \<or> fst (h ! heap_parent k) \<le> fst (h ! k) \<Longrightarrow> heap_ok h"
  by (auto simp: up_ok_def heap_ok_def)

lemma up_ok_swap:
  assumes "up_ok h k" "0 < k" "k < length h" "fst (h ! k) < fst (h ! heap_parent k)"
  shows "up_ok (lswap h k (heap_parent k)) (heap_parent k)"
proof -
  let ?p = "heap_parent k"
  have p: "?p < k" using assms(2) by (rule heap_parent_less)
  have n: "lswap h k ?p ! i = (if i = k then h ! ?p else if i = ?p then h ! k else h ! i)"
    if "i < length h" for i using that p assms(3) by (simp add: nth_lswap)
  have a: "fst (lswap h k ?p ! heap_parent i) \<le> fst (lswap h k ?p ! i)"
    if i: "i < length h" "0 < i" "i \<noteq> ?p" for i
  proof -
    have q: "heap_parent i < i" using i by (simp add: heap_parent_less)
    show ?thesis using assms i q p
      by (auto simp: n up_ok_def)
  qed
  have b: "fst (lswap h k ?p ! heap_parent ?p) \<le> fst (lswap h k ?p ! i)"
    if i: "i < length h" "0 < i" "0 < ?p" "heap_parent i = ?p" for i
  proof -
    have q: "heap_parent ?p < ?p" using i by (simp add: heap_parent_less)
    have "fst (h ! heap_parent ?p) \<le> fst (h ! ?p)" using assms i p by (auto simp: up_ok_def)
    moreover have "i \<noteq> k \<Longrightarrow> fst (h ! ?p) \<le> fst (h ! i)" using assms(1) i by (auto simp: up_ok_def)
    ultimately show ?thesis using i q p assms(3) by (auto simp: n)
  qed
  show ?thesis using a b by (auto simp: up_ok_def)
qed

lemma up_heap_ok:
  "up_ok (tq_heap s) k \<Longrightarrow> k < length (tq_heap s) \<Longrightarrow> heap_ok (tq_heap (up_heap s k))"
proof (induction s k rule: up_heap.induct)
  case (1 s k)
  show ?case
  proof (cases "0 < k \<and> fst (tq_heap s ! k) < fst (tq_heap s ! heap_parent k)")
    case True
    then show ?thesis using 1 up_ok_swap [of "tq_heap s" k] heap_parent_less [of k]
      by (subst up_heap.simps) (auto simp: less_than_def heap_parent_def Let_def)
  next
    case False
    then show ?thesis using 1 up_ok_done [of "tq_heap s" k]
      by (subst up_heap.simps) (auto simp: less_than_def heap_parent_def Let_def)
  qed
qed

lemma down_ok_done:
  "down_ok h k \<Longrightarrow> (\<And>i. i < length h \<Longrightarrow> 0 < i \<Longrightarrow> heap_parent i = k \<Longrightarrow> fst (h ! k) \<le> fst (h ! i)) \<Longrightarrow>
   heap_ok h"
  unfolding down_ok_def heap_ok_def by metis

lemma down_ok_swap:
  assumes "down_ok h k" "m < length h" "0 < m" "heap_parent m = k" "fst (h ! m) \<le> fst (h ! k)"
    and least: "\<And>i. i < length h \<Longrightarrow> 0 < i \<Longrightarrow> heap_parent i = k \<Longrightarrow> fst (h ! m) \<le> fst (h ! i)"
  shows "down_ok (lswap h k m) m"
proof -
  have p: "k < m" using assms(3,4) heap_parent_less by auto
  have n: "lswap h k m ! i = (if i = k then h ! m else if i = m then h ! k else h ! i)"
    if "i < length h" for i using that p assms(2) by (simp add: nth_lswap)
  have a: "fst (lswap h k m ! heap_parent i) \<le> fst (lswap h k m ! i)"
    if i: "i < length h" "0 < i" "heap_parent i \<noteq> m" for i
  proof -
    have q: "heap_parent i < i" using i by (simp add: heap_parent_less)
    show ?thesis using assms(1,2,4,5) least [OF i(1,2)] i q p
      by (auto simp: n down_ok_def)
  qed
  have b: "fst (lswap h k m ! heap_parent m) \<le> fst (lswap h k m ! i)"
    if i: "i < length h" "0 < i" "heap_parent i = m" for i
  proof -
    have q: "m < i" using i heap_parent_less by auto
    then show ?thesis using assms i p by (auto simp: n down_ok_def)
  qed
  show ?thesis using a b by (auto simp: down_ok_def)
qed

lemma down_heap_ok:
  "down_ok (tq_heap s) k \<Longrightarrow> k < length (tq_heap s) \<Longrightarrow> heap_ok (tq_heap (down_heap s k))"
proof (induction s k rule: down_heap.induct)
  case (1 s k)
  let ?h = "tq_heap s"
  define c where "c = k * 2 + 1"
  define m where "m = (if c + 1 = length ?h \<or> fst (?h ! c) < fst (?h ! (c + 1)) then c else c + 1)"
  have ch: "0 < i \<Longrightarrow> heap_parent i = k \<longleftrightarrow> i = c \<or> i = c + 1" for i
    by (auto simp: heap_parent_iff c_def)
  show ?case
  proof (cases "c < length ?h")
    case False
    then have "heap_ok ?h" using 1 ch by (intro down_ok_done [of ?h k]) auto
    then show ?thesis using False by (subst down_heap.simps) (simp add: c_def)
  next
    case c: True
    have m: "m < length ?h" "0 < m" "heap_parent m = k" using c ch by (auto simp: m_def c_def)
    have least: "fst (?h ! m) \<le> fst (?h ! i)" if "i < length ?h" "0 < i" "heap_parent i = k" for i
      using that ch [OF that(2)] by (auto simp: m_def)
    have eq: "down_heap s k = (if fst (?h ! k) < fst (?h ! m) then s else down_heap (swap_heap s k m) m)"
      using c by (subst down_heap.simps) (simp add: c_def m_def Let_def less_than_def)
    show ?thesis
    proof (cases "fst (?h ! k) < fst (?h ! m)")
      case True
      then have "heap_ok ?h" using 1 least by (intro down_ok_done [of ?h k]) force+
      then show ?thesis using eq True by simp
    next
      case False
      have "down_ok (lswap ?h k m) m" using 1(2) False m least by (intro down_ok_swap) auto
      then show ?thesis using eq False 1(1) [of c m] c m
        by (simp add: c_def m_def Let_def less_than_def)
    qed
  qed
qed

section \<open>What the heap operations leave alone\<close>

text \<open>A rearrangement of the heap keeps its entries, the linked list, the operations, and the indices
  of the timers that are not in the heap; and it keeps every timer's index right.\<close>

definition rearranged :: "timer_queue \<Rightarrow> timer_queue \<Rightarrow> bool" where
  "rearranged s s' \<longleftrightarrow>
     mset (tq_heap s') = mset (tq_heap s) \<and>
     tq_timers s' = tq_timers s \<and> tq_aborted s' = tq_aborted s \<and>
     (\<forall>p. pt_ops (tq_data s' p) = pt_ops (tq_data s p) \<and>
          pt_next (tq_data s' p) = pt_next (tq_data s p) \<and>
          pt_prev (tq_data s' p) = pt_prev (tq_data s p)) \<and>
     (\<forall>p. p \<notin> snd ` set (tq_heap s) \<longrightarrow> tq_data s' p = tq_data s p) \<and>
     (distinct (map snd (tq_heap s)) \<longrightarrow> index_ok s \<longrightarrow> index_ok s')"

lemma rearranged_refl [simp]: "rearranged s s"
  by (simp add: rearranged_def)

lemma rearranged_distinct: "rearranged s s' \<Longrightarrow>
    distinct (map snd (tq_heap s')) = distinct (map snd (tq_heap s))"
  unfolding rearranged_def by (metis mset_eq_imp_distinct_iff mset_map)

lemma rearranged_set: "rearranged s s' \<Longrightarrow> set (tq_heap s') = set (tq_heap s)"
  unfolding rearranged_def by (metis mset_eq_setD)

lemma rearranged_trans: "rearranged s s' \<Longrightarrow> rearranged s' s'' \<Longrightarrow> rearranged s s''"
  using rearranged_distinct [of s s'] rearranged_set [of s s'] by (simp add: rearranged_def)

lemma swap_heap_data:
  "tq_data (swap_heap s i j) =
     (let h = lswap (tq_heap s) i j;
          d = (tq_data s)(snd (h ! i) := (tq_data s (snd (h ! i)))\<lparr>pt_index := i\<rparr>)
      in d(snd (h ! j) := (d (snd (h ! j)))\<lparr>pt_index := j\<rparr>))"
  by (simp add: swap_heap_def Let_def set_index_def upd_timer_def lswap_def)

lemma swap_heap_rest [simp]:
  "tq_timers (swap_heap s i j) = tq_timers s" "tq_aborted (swap_heap s i j) = tq_aborted s"
  by (simp_all add: swap_heap_def Let_def set_index_def upd_timer_def)

lemma swap_heap_index_ok:
  assumes "distinct (map snd (tq_heap s))" "index_ok s" "i < length (tq_heap s)" "j < length (tq_heap s)"
  shows "index_ok (swap_heap s i j)"
proof -
  have d: "snd (tq_heap s ! a) = snd (tq_heap s ! b) \<longleftrightarrow> a = b"
    if "a < length (tq_heap s)" "b < length (tq_heap s)" for a b
    using nth_eq_iff_index_eq [OF assms(1), of a b] that by simp
  show ?thesis using assms(2-4)
    by (auto simp: index_ok_def swap_heap_data Let_def nth_lswap d)
qed

lemma swap_heap_rearranged:
  assumes "i < length (tq_heap s)" "j < length (tq_heap s)"
  shows "rearranged s (swap_heap s i j)"
proof -
  have "snd (tq_heap s ! a) \<in> snd ` set (tq_heap s)" if "a < length (tq_heap s)" for a
    using that by auto
  then have "p \<notin> snd ` set (tq_heap s) \<Longrightarrow> tq_data (swap_heap s i j) p = tq_data s p" for p
    using assms by (auto simp: swap_heap_data Let_def nth_lswap)
  then show ?thesis using assms swap_heap_index_ok [of s i j]
    by (auto simp: rearranged_def swap_heap_data Let_def)
qed

lemma swap_heap_then:
  "rearranged (swap_heap s i j) s' \<Longrightarrow> i < length (tq_heap s) \<Longrightarrow> j < length (tq_heap s) \<Longrightarrow> rearranged s s'"
  by (blast intro: rearranged_trans swap_heap_rearranged)

lemma up_heap_rearranged: "k < length (tq_heap s) \<Longrightarrow> rearranged s (up_heap s k)"
proof (induction s k rule: up_heap.induct)
  case (1 s k)
  have "0 < k \<Longrightarrow> (k - 1) div 2 < length (tq_heap s)" using 1(2) by simp
  then show ?case using 1 swap_heap_then [of s k "(k - 1) div 2"]
    by (subst up_heap.simps) (simp add: Let_def)
qed

lemma down_heap_rearranged: "k < length (tq_heap s) \<Longrightarrow> rearranged s (down_heap s k)"
proof (induction s k rule: down_heap.induct)
  case (1 s k)
  define c where "c = k * 2 + 1"
  define m where "m = (if c + 1 = length (tq_heap s) \<or> less_than (fst (tq_heap s ! c)) (fst (tq_heap s ! (c + 1)))
    then c else c + 1)"
  have eq: "down_heap s k = (if c < length (tq_heap s) \<and> \<not> less_than (fst (tq_heap s ! k)) (fst (tq_heap s ! m))
     then down_heap (swap_heap s k m) m else s)"
    by (subst down_heap.simps) (simp add: c_def m_def Let_def)
  show ?case
  proof (cases "c < length (tq_heap s) \<and> \<not> less_than (fst (tq_heap s ! k)) (fst (tq_heap s ! m))")
    case True
    then have "m < length (tq_heap s)" by (auto simp: m_def)
    moreover from this have "rearranged (swap_heap s k m) (down_heap (swap_heap s k m) m)"
      using 1(1) [of c m] True by (simp add: c_def m_def)
    ultimately show ?thesis using 1(2) True eq swap_heap_then [of s k m] by simp
  next
    case False
    then show ?thesis using eq by auto
  qed
qed

section \<open>The linked list\<close>

definition first_or :: "nat list \<Rightarrow> nat option \<Rightarrow> nat option" where
  "first_or xs nx = (case xs of [] \<Rightarrow> nx | x # _ \<Rightarrow> Some x)"

definition last_or :: "nat option \<Rightarrow> nat list \<Rightarrow> nat option" where
  "last_or pr xs = (if xs = [] then pr else Some (last xs))"

text \<open>A segment of the doubly linked list, between the neighbours \<open>pr\<close> and \<open>nx\<close>.\<close>

fun dseg :: "(nat \<Rightarrow> per_timer_data) \<Rightarrow> nat option \<Rightarrow> nat list \<Rightarrow> nat option \<Rightarrow> bool" where
  "dseg d pr [] nx \<longleftrightarrow> True"
| "dseg d pr (x # xs) nx \<longleftrightarrow>
     pt_prev (d x) = pr \<and> pt_next (d x) = first_or xs nx \<and> dseg d (Some x) xs nx"

definition dlist_of :: "timer_queue \<Rightarrow> nat list \<Rightarrow> bool" where
  "dlist_of s ts \<longleftrightarrow> distinct ts \<and> tq_timers s = first_or ts None \<and> dseg (tq_data s) None ts None \<and>
     (\<forall>p. p \<notin> set ts \<longrightarrow> pt_prev (tq_data s p) = None \<and> pt_next (tq_data s p) = None)"

lemma first_or_simps [simp]: "first_or [] nx = nx" "first_or (x # xs) nx = Some x"
  "first_or (xs @ ys) nx = first_or xs (first_or ys nx)"
  by (simp_all add: first_or_def split: list.splits)

lemma last_or_simps [simp]: "last_or pr [] = pr" "last_or pr (x # xs) = last_or (Some x) xs"
  "last_or pr (xs @ [x]) = Some x"
  by (simp_all add: last_or_def)

lemma dseg_append [simp]:
  "dseg d pr (xs @ ys) nx \<longleftrightarrow> dseg d pr xs (first_or ys nx) \<and> dseg d (last_or pr xs) ys nx"
  by (induction xs arbitrary: pr) auto

lemma dseg_cong:
  "(\<And>x. x \<in> set xs \<Longrightarrow> pt_prev (d x) = pt_prev (d' x) \<and> pt_next (d x) = pt_next (d' x)) \<Longrightarrow>
   dseg d pr xs nx \<longleftrightarrow> dseg d' pr xs nx"
  by (induction xs arbitrary: pr) auto

lemma dlist_of_frame:
  assumes "dlist_of s ts" "tq_timers s' = tq_timers s"
    "\<And>p. pt_prev (tq_data s' p) = pt_prev (tq_data s p) \<and> pt_next (tq_data s' p) = pt_next (tq_data s p)"
  shows "dlist_of s' ts"
  using assms dseg_cong [of ts "tq_data s" "tq_data s'" None None] by (simp add: dlist_of_def)

lemma dseg_prev_None:
  "dseg d pr xs nx \<Longrightarrow> x \<in> set xs \<Longrightarrow> pt_prev (d x) = None \<Longrightarrow> pr = None \<and> x = hd xs"
  by (induction xs arbitrary: pr) fastforce+

lemma dlist_active: "dlist_of s ts \<Longrightarrow> is_active s p \<longleftrightarrow> p \<in> set ts"
proof -
  assume d: "dlist_of s ts"
  have "is_active s p" if "p \<in> set ts"
  proof (cases "pt_prev (tq_data s p)")
    case None
    then have "p = hd ts" using dseg_prev_None [of "tq_data s" None ts None p] d that by (simp add: dlist_of_def)
    then show ?thesis using that d by (cases ts) (auto simp: dlist_of_def is_active_def)
  qed (simp add: is_active_def)
  moreover have "\<not> is_active s p" if "p \<notin> set ts"
    using that d by (cases ts) (auto simp: dlist_of_def is_active_def)
  ultimately show ?thesis by blast
qed

lemma unlink_fields:
  assumes "pt_prev (tq_data s p) \<noteq> Some p" "pt_next (tq_data s p) \<noteq> Some p"
    "pt_prev (tq_data s p) = None \<or> pt_next (tq_data s p) \<noteq> pt_prev (tq_data s p)"
  shows "tq_timers (unlink_timer s p) = (if tq_timers s = Some p then pt_next (tq_data s p) else tq_timers s)"
    "tq_heap (unlink_timer s p) = tq_heap s" "tq_aborted (unlink_timer s p) = tq_aborted s"
    "pt_prev (tq_data (unlink_timer s p) x) = (if x = p then None else
        if pt_next (tq_data s p) = Some x then pt_prev (tq_data s p) else pt_prev (tq_data s x))"
    "pt_next (tq_data (unlink_timer s p) x) = (if x = p then None else
        if pt_prev (tq_data s p) = Some x then pt_next (tq_data s p) else pt_next (tq_data s x))"
    "pt_ops (tq_data (unlink_timer s p) x) = pt_ops (tq_data s x)"
    "pt_index (tq_data (unlink_timer s p) x) = pt_index (tq_data s x)"
  using assms by (auto simp: unlink_timer_def Let_def set_next_def set_prev_def upd_timer_def
      split: option.splits)

lemma dseg_relink_last:
  "dseg d pr xs nx \<Longrightarrow> xs \<noteq> [] \<Longrightarrow> distinct xs \<Longrightarrow>
   (\<And>x. x \<in> set xs \<Longrightarrow> pt_prev (d' x) = pt_prev (d x)) \<Longrightarrow>
   (\<And>x. x \<in> set xs \<Longrightarrow> pt_next (d' x) = (if x = last xs then nx' else pt_next (d x))) \<Longrightarrow>
   dseg d' pr xs nx'"
proof (induction xs arbitrary: pr)
  case (Cons x xs)
  show ?case
  proof (cases xs)
    case Nil
    then show ?thesis using Cons.prems by simp
  next
    case (Cons y ys)
    have "x \<noteq> last xs" using Cons.prems(3) Cons by auto
    moreover have "dseg d' (Some x) xs nx'" using Cons.prems Cons by (intro Cons.IH) auto
    ultimately show ?thesis using Cons.prems Cons by auto
  qed
qed simp

lemma dseg_relink_first:
  "dseg d pr xs nx \<Longrightarrow> distinct xs \<Longrightarrow>
   (\<And>x. x \<in> set xs \<Longrightarrow> pt_next (d' x) = pt_next (d x)) \<Longrightarrow>
   (\<And>x. x \<in> set xs \<Longrightarrow> pt_prev (d' x) = (if x = hd xs then pr' else pt_prev (d x))) \<Longrightarrow>
   dseg d' pr' xs nx"
proof (cases xs)
  case (Cons y ys)
  assume a: "dseg d pr xs nx" "distinct xs" "\<And>x. x \<in> set xs \<Longrightarrow> pt_next (d' x) = pt_next (d x)"
    "\<And>x. x \<in> set xs \<Longrightarrow> pt_prev (d' x) = (if x = hd xs then pr' else pt_prev (d x))"
  have "dseg d' (Some y) ys nx \<longleftrightarrow> dseg d (Some y) ys nx"
    using a Cons by (intro dseg_cong) auto
  then show ?thesis using a Cons by auto
qed simp

lemma dlist_neighbours:
  assumes "dlist_of s (us @ p # vs)"
  shows "pt_prev (tq_data s p) = last_or None us" "pt_next (tq_data s p) = first_or vs None"
    "pt_prev (tq_data s p) \<noteq> Some p" "pt_next (tq_data s p) \<noteq> Some p"
    "pt_prev (tq_data s p) = None \<or> pt_next (tq_data s p) \<noteq> pt_prev (tq_data s p)"
proof -
  show l: "pt_prev (tq_data s p) = last_or None us" "pt_next (tq_data s p) = first_or vs None"
    using assms by (auto simp: dlist_of_def)
  moreover have "distinct (us @ p # vs)" using assms by (simp add: dlist_of_def)
  ultimately show "pt_prev (tq_data s p) \<noteq> Some p" "pt_next (tq_data s p) \<noteq> Some p"
    "pt_prev (tq_data s p) = None \<or> pt_next (tq_data s p) \<noteq> pt_prev (tq_data s p)"
    by (auto simp: last_or_def first_or_def split: list.splits)
qed

lemma unlink_dlist:
  assumes "dlist_of s (us @ p # vs)"
  shows "dlist_of (unlink_timer s p) (us @ vs)"
proof -
  have d: "distinct (us @ p # vs)" "tq_timers s = first_or us (Some p)"
      "dseg (tq_data s) None us (Some p)" "dseg (tq_data s) (Some p) vs None"
    and out: "\<And>x. x \<notin> set (us @ p # vs) \<Longrightarrow> pt_prev (tq_data s x) = None \<and> pt_next (tq_data s x) = None"
    using assms by (auto simp: dlist_of_def)
  note l = dlist_neighbours(1,2) [OF assms] and f = unlink_fields [OF dlist_neighbours(3-5) [OF assms]]
  let ?d = "tq_data (unlink_timer s p)"
  have u: "dseg ?d None us (first_or vs None)"
  proof (cases "us = []")
    case False
    show ?thesis using d(1) False
      by (intro dseg_relink_last [OF d(3)]) (auto simp: f l last_or_def first_or_def split: list.splits)
  qed simp
  have "us \<noteq> [] \<Longrightarrow> last us \<notin> set vs" using d(1) last_in_set by (fastforce simp: disjoint_iff)
  then have v: "dseg ?d (last_or None us) vs None"
    using d(1) by (intro dseg_relink_first [OF d(4)]) (auto simp: f l last_or_def first_or_def split: list.splits)
  show ?thesis using u v d(1,2) out
    by (auto simp: dlist_of_def f l last_or_def first_or_def split: list.splits)
qed

section \<open>Taking a timer out of the heap\<close>

definition heap_inv :: "timer_queue \<Rightarrow> bool" where
  "heap_inv s \<longleftrightarrow> heap_ok (tq_heap s) \<and> index_ok s \<and> distinct (map snd (tq_heap s))"

definition same_list :: "timer_queue \<Rightarrow> timer_queue \<Rightarrow> bool" where
  "same_list s s' \<longleftrightarrow> tq_timers s' = tq_timers s \<and> tq_aborted s' = tq_aborted s \<and>
     (\<forall>p. pt_ops (tq_data s' p) = pt_ops (tq_data s p) \<and>
          pt_next (tq_data s' p) = pt_next (tq_data s p) \<and>
          pt_prev (tq_data s' p) = pt_prev (tq_data s p))"

lemma rearranged_same_list: "rearranged s s' \<Longrightarrow> same_list s s'"
  by (auto simp: rearranged_def same_list_def)

lemma same_list_trans: "same_list s s' \<Longrightarrow> same_list s' s'' \<Longrightarrow> same_list s s''"
  by (auto simp: same_list_def)

lemma mset_butlast: "xs \<noteq> [] \<Longrightarrow> add_mset (last xs) (mset (butlast xs)) = mset xs"
  by (induction xs) auto

text \<open>The heap with its last entry moved into the hole at \<open>i\<close>.\<close>

lemma fill_up_ok:
  assumes "heap_ok h" "length h' = length h - 1" "i < length h'"
    "\<And>k. k < length h' \<Longrightarrow> h' ! k = (if k = i then x else h ! k)"
    "0 < i" "fst x < fst (h ! heap_parent i)"
  shows "up_ok h' i"
proof -
  have lt: "0 < k \<Longrightarrow> k < length h' \<Longrightarrow> heap_parent k < length h'" for k
    using heap_parent_less by (meson less_trans)
  have le: "0 < k \<Longrightarrow> k < length h' \<Longrightarrow> fst (h ! heap_parent k) \<le> fst (h ! k)" for k
    using assms(1,2) by (auto simp: heap_ok_def)
  have p: "heap_parent i < i" using assms(5) by (rule heap_parent_less)
  have a: "fst (h' ! heap_parent k) \<le> fst (h' ! k)" if "k < length h'" "0 < k" "k \<noteq> i" for k
    using that assms(3-6) lt [of k] le [of k] le [of i] p by (cases "heap_parent k = i") auto
  have b: "fst (h' ! heap_parent i) \<le> fst (h' ! k)" if "k < length h'" "0 < k" "heap_parent k = i" for k
  proof -
    have "k \<noteq> i" using that heap_parent_less [of k] by auto
    then show ?thesis using that assms(3-5) le [of k] le [of i] p by auto
  qed
  show ?thesis using a b by (auto simp: up_ok_def)
qed

lemma fill_down_ok:
  assumes "heap_ok h" "length h' = length h - 1" "i < length h'"
    "\<And>k. k < length h' \<Longrightarrow> h' ! k = (if k = i then x else h ! k)"
    "0 < i \<Longrightarrow> fst (h ! heap_parent i) \<le> fst x"
  shows "down_ok h' i"
proof -
  have lt: "0 < k \<Longrightarrow> k < length h' \<Longrightarrow> heap_parent k < length h'" for k
    using heap_parent_less by (meson less_trans)
  have le: "0 < k \<Longrightarrow> k < length h' \<Longrightarrow> fst (h ! heap_parent k) \<le> fst (h ! k)" for k
    using assms(1,2) by (auto simp: heap_ok_def)
  have p: "0 < i \<Longrightarrow> heap_parent i < i" by (rule heap_parent_less)
  have a: "fst (h' ! heap_parent k) \<le> fst (h' ! k)" if "k < length h'" "0 < k" "heap_parent k \<noteq> i" for k
    using that assms(4,5) lt le p by (cases "k = i") auto
  have b: "fst (h' ! heap_parent i) \<le> fst (h' ! k)" if "k < length h'" "0 < k" "0 < i" "heap_parent k = i" for k
  proof -
    have "k \<noteq> i" using that heap_parent_less [of k] by auto
    then show ?thesis using that assms(3,4) lt le [of k] le [of i] p by auto
  qed
  show ?thesis using a b by (auto simp: down_ok_def)
qed

lemma heap_ok_butlast: "heap_ok h \<Longrightarrow> heap_ok (butlast h)"
proof -
  assume h: "heap_ok h"
  have "heap_parent i < length (butlast h)" if "0 < i" "i < length (butlast h)" for i
    using that heap_parent_less by (meson less_trans)
  then show ?thesis using h by (auto simp: heap_ok_def nth_butlast)
qed

text \<open>The state after the entry at \<open>i\<close> is swapped with the last one and popped.\<close>

definition swapped_out :: "timer_queue \<Rightarrow> nat \<Rightarrow> nat \<Rightarrow> timer_queue" where
  "swapped_out s p i = (set_index p no_index (swap_heap s i (length (tq_heap s) - 1)))
     \<lparr>tq_heap := butlast (lswap (tq_heap s) i (length (tq_heap s) - 1))\<rparr>"

lemma heap_inv_snd_eq:
  "heap_inv s \<Longrightarrow> a < length (tq_heap s) \<Longrightarrow> b < length (tq_heap s) \<Longrightarrow>
   snd (tq_heap s ! a) = snd (tq_heap s ! b) \<longleftrightarrow> a = b"
  using nth_eq_iff_index_eq [of "map snd (tq_heap s)" a b] by (simp add: heap_inv_def)

lemma swapped_out_nth:
  assumes "i < length (tq_heap s) - 1" "k < length (tq_heap s) - 1"
  shows "tq_heap (swapped_out s p i) ! k =
     (if k = i then tq_heap s ! (length (tq_heap s) - 1) else tq_heap s ! k)"
proof -
  let ?l = "lswap (tq_heap s) i (length (tq_heap s) - 1)"
  have "butlast ?l ! k = ?l ! k" using assms(2) by (intro nth_butlast) simp
  then show ?thesis using assms nth_lswap [of i "tq_heap s" "length (tq_heap s) - 1" k]
    by (simp add: swapped_out_def)
qed

lemma swapped_out_mset:
  assumes "i < length (tq_heap s) - 1"
  shows "mset (tq_heap s) = add_mset (tq_heap s ! i) (mset (tq_heap (swapped_out s p i)))"
proof -
  let ?l = "lswap (tq_heap s) i (length (tq_heap s) - 1)"
  have "?l \<noteq> []" using assms by (auto simp: lswap_def)
  moreover from this have "last ?l = tq_heap s ! i" using assms by (simp add: last_conv_nth nth_lswap)
  moreover have "mset ?l = mset (tq_heap s)" using assms by simp
  ultimately show ?thesis using mset_butlast [of ?l] by (simp add: swapped_out_def)
qed

lemma swapped_out_inv:
  assumes inv: "heap_inv s" and i: "i < length (tq_heap s) - 1" "snd (tq_heap s ! i) = p"
  shows "distinct (map snd (tq_heap (swapped_out s p i)))" "index_ok (swapped_out s p i)"
    "same_list s (swapped_out s p i)"
proof -
  let ?s = "swapped_out s p i" and ?w = "swap_heap s i (length (tq_heap s) - 1)"
  have "mset (map snd (tq_heap s)) = add_mset p (mset (map snd (tq_heap ?s)))"
    using swapped_out_mset [OF i(1), of p] i(2) by simp
  then have "distinct (p # map snd (tq_heap ?s))"
    using inv mset_eq_imp_distinct_iff [of "map snd (tq_heap s)" "p # map snd (tq_heap ?s)"]
    by (simp add: heap_inv_def)
  then show "distinct (map snd (tq_heap ?s))" and "index_ok ?s"
    using swap_heap_index_ok [of s i "length (tq_heap s) - 1"] inv i(1)
    by (auto simp: heap_inv_def index_ok_def swapped_out_def set_index_def upd_timer_def nth_butlast)
      (metis (no_types, lifting) image_eqI length_butlast length_lswap nth_butlast nth_mem One_nat_def)
  show "same_list s ?s"
    using rearranged_same_list [OF swap_heap_rearranged [of i s "length (tq_heap s) - 1"]] i(1)
    by (auto simp: same_list_def swapped_out_def set_index_def upd_timer_def)
qed

lemma swapped_out_settles:
  fixes s :: timer_queue and p :: nat
  assumes inv: "heap_inv s" and i: "i < length (tq_heap s) - 1"
  defines "s2 \<equiv> swapped_out s p i"
  defines "up \<equiv> i > 0 \<and> less_than (fst (tq_heap s2 ! i)) (fst (tq_heap s2 ! ((i - 1) div 2)))"
  shows "heap_ok (tq_heap (if up then up_heap s2 i else down_heap s2 i))"
proof -
  let ?h = "tq_heap s" and ?n = "length (tq_heap s)"
  have len: "length (tq_heap s2) = ?n - 1" by (simp add: s2_def swapped_out_def)
  have nth2: "tq_heap s2 ! k = (if k = i then ?h ! (?n - 1) else ?h ! k)" if "k < ?n - 1" for k
    using swapped_out_nth [OF i that] by (simp add: s2_def)
  have par: "0 < i \<Longrightarrow> tq_heap s2 ! heap_parent i = ?h ! heap_parent i"
    using nth2 [of "heap_parent i"] heap_parent_less [of i] i by auto
  have up: "up \<longleftrightarrow> 0 < i \<and> fst (?h ! (?n - 1)) < fst (?h ! heap_parent i)"
    using par nth2 [OF i] by (auto simp: up_def less_than_def heap_parent_def)
  show ?thesis
  proof (cases up)
    case True
    then have "up_ok (tq_heap s2) i"
      using inv i len nth2 up by (intro fill_up_ok [of ?h _ _ "?h ! (?n - 1)"]) (auto simp: heap_inv_def)
    then show ?thesis using True up_heap_ok [of s2 i] i len by simp
  next
    case False
    then have "down_ok (tq_heap s2) i"
      using inv i len nth2 up by (intro fill_down_ok [of ?h _ _ "?h ! (?n - 1)"]) (auto simp: heap_inv_def)
    then show ?thesis using False down_heap_ok [of s2 i] i len by simp
  qed
qed

lemma remove_from_heap_spec:
  assumes inv: "heap_inv s" and e: "(t, p) \<in> set (tq_heap s)"
  shows "heap_inv (remove_from_heap s p) \<and> same_list s (remove_from_heap s p) \<and>
    mset (tq_heap s) = add_mset (t, p) (mset (tq_heap (remove_from_heap s p)))"
proof -
  let ?h = "tq_heap s" and ?n = "length (tq_heap s)"
  obtain i where i: "i < ?n" "?h ! i = (t, p)" using e by (auto simp: in_set_conv_nth)
  have ix: "pt_index (tq_data s p) = i" using inv i by (force simp: heap_inv_def index_ok_def)
  have ne: "?h \<noteq> []" using i by auto
  have pd: "snd (?h ! a) = p \<longleftrightarrow> a = i" if "a < ?n" for a
    using heap_inv_snd_eq [OF inv that i(1)] i(2) by simp
  show ?thesis
  proof (cases "i = ?n - 1")
    case True
    have "last ?h = (t, p)" using i True ne by (simp add: last_conv_nth)
    moreover from True have "remove_from_heap s p = (set_index p no_index s)\<lparr>tq_heap := butlast ?h\<rparr>"
      using ix i(1) ne by (simp add: remove_from_heap_def Let_def set_index_def upd_timer_def)
    ultimately show ?thesis using inv mset_butlast [OF ne] heap_ok_butlast [of ?h] True pd
      by (auto simp: heap_inv_def index_ok_def same_list_def set_index_def upd_timer_def nth_butlast
          map_butlast distinct_butlast)
  next
    case False
    define s2 where "s2 = swapped_out s p i"
    define up where "up \<longleftrightarrow> i > 0 \<and> less_than (fst (tq_heap s2 ! i)) (fst (tq_heap s2 ! ((i - 1) div 2)))"
    have lt: "i < ?n - 1" using i(1) False by simp
    have eq: "remove_from_heap s p = (if up then up_heap s2 i else down_heap s2 i)"
      using ix i(1) ne False
      by (simp add: remove_from_heap_def Let_def s2_def up_def swapped_out_def set_index_def upd_timer_def)
    have "i < length (tq_heap s2)" using lt by (simp add: s2_def swapped_out_def)
    then have re: "rearranged s2 (remove_from_heap s p)"
      using eq up_heap_rearranged [of i s2] down_heap_rearranged [of i s2] by simp
    have "heap_ok (tq_heap (remove_from_heap s p))"
      using swapped_out_settles [OF inv lt, of p] by (simp only: eq up_def s2_def)
    then show ?thesis
      using re swapped_out_inv [OF inv lt, of p] swapped_out_mset [OF lt, of p] i(2) rearranged_distinct [OF re]
        same_list_trans [OF _ rearranged_same_list [OF re]]
      by (auto simp: heap_inv_def rearranged_def s2_def)
  qed
qed

section \<open>The invariant, and the deadlines the heap stands for\<close>

definition linked_inv :: "timer_queue \<Rightarrow> nat list \<Rightarrow> bool" where
  "linked_inv s ts \<longleftrightarrow> heap_inv s \<and> dlist_of s ts \<and> set ts = snd ` set (tq_heap s)"

definition tq_inv :: "timer_queue \<Rightarrow> nat list \<Rightarrow> bool" where
  "tq_inv s ts \<longleftrightarrow> linked_inv s ts \<and> (\<forall>p. pt_ops (tq_data s p) \<noteq> [] \<longleftrightarrow> p \<in> set ts)"

definition deadline :: "timer_queue \<Rightarrow> nat \<rightharpoonup> int" where
  "deadline s = map_of (map prod.swap (tq_heap s))"

lemma deadline_iff:
  "distinct (map snd (tq_heap s)) \<Longrightarrow> deadline s p = Some t \<longleftrightarrow> (t, p) \<in> set (tq_heap s)"
  unfolding deadline_def by (subst map_of_eq_Some_iff) (force simp: comp_def)+

lemma deadline_None: "deadline s p = None \<longleftrightarrow> p \<notin> snd ` set (tq_heap s)"
  by (force simp: deadline_def map_of_eq_None_iff)

lemma deadline_add:
  assumes "mset (tq_heap s') = add_mset (t, p) (mset (tq_heap s))" "distinct (map snd (tq_heap s'))"
  shows "deadline s' = (deadline s)(p \<mapsto> t)" "deadline s p = None" "distinct (map snd (tq_heap s))"
proof -
  have "mset (map snd (tq_heap s')) = mset (p # map snd (tq_heap s))" using assms(1) by simp
  then have d: "distinct (p # map snd (tq_heap s))" using assms(2) mset_eq_imp_distinct_iff by blast
  then show "deadline s p = None" "distinct (map snd (tq_heap s))" by (auto simp: deadline_None)
  have st: "set (tq_heap s') = insert (t, p) (set (tq_heap s))"
    using assms(1) by (metis mset_eq_setD list.simps(15) mset.simps(2))
  show "deadline s' = (deadline s)(p \<mapsto> t)"
  proof
    fix q
    have "deadline s' q = Some u \<longleftrightarrow> ((deadline s)(p \<mapsto> t)) q = Some u" for u
      using d st deadline_iff [OF assms(2), of q u] deadline_iff [of s q u] by (auto simp: image_iff)
    then show "deadline s' q = ((deadline s)(p \<mapsto> t)) q" by (metis not_None_eq)
  qed
qed

lemma deadline_mset: "distinct (map snd (tq_heap s)) \<Longrightarrow> mset (tq_heap s') = mset (tq_heap s) \<Longrightarrow>
    deadline s' = deadline s"
proof -
  assume a: "distinct (map snd (tq_heap s))" "mset (tq_heap s') = mset (tq_heap s)"
  then have "distinct (map snd (tq_heap s'))" by (metis mset_eq_imp_distinct_iff mset_map)
  then have "deadline s' p = Some t \<longleftrightarrow> deadline s p = Some t" for p t
    using a(1) mset_eq_setD [OF a(2)] by (simp add: deadline_iff)
  then have "deadline s' p = deadline s p" for p by (metis not_None_eq)
  then show ?thesis by blast
qed

lemma heap_root_least: "heap_ok h \<Longrightarrow> i < length h \<Longrightarrow> fst (h ! 0) \<le> fst (h ! i)"
proof (induction i rule: less_induct)
  case (less i)
  show ?case
  proof (cases "i = 0")
    case False
    then have "heap_parent i < i" by (simp add: heap_parent_less)
    then have "fst (h ! 0) \<le> fst (h ! heap_parent i)" using less by simp
    then show ?thesis using less.prems False by (force simp: heap_ok_def)
  qed simp
qed

lemma tq_inv_ctor: "tq_inv timer_queue_ctor []"
  by (simp add: tq_inv_def linked_inv_def heap_inv_def heap_ok_def index_ok_def dlist_of_def
      timer_queue_ctor_def per_timer_ctor_def)

lemma tq_inv_active: "linked_inv s ts \<Longrightarrow> is_active s p \<longleftrightarrow> p \<in> set ts"
  unfolding linked_inv_def using dlist_active by blast

section \<open>The operations on the invariant\<close>

lemma remove_timer_spec:
  assumes "linked_inv s ts" "(t, p) \<in> set (tq_heap s)"
  shows "linked_inv (remove_timer s p) (remove1 p ts)"
    "mset (tq_heap s) = add_mset (t, p) (mset (tq_heap (remove_timer s p)))"
    "pt_ops (tq_data (remove_timer s p) q) = pt_ops (tq_data s q)"
    "tq_aborted (remove_timer s p) = tq_aborted s"
proof -
  define r where "r = remove_from_heap s p"
  have r: "heap_inv r" "same_list s r" "mset (tq_heap s) = add_mset (t, p) (mset (tq_heap r))"
    using remove_from_heap_spec [of s t p] assms by (auto simp: linked_inv_def r_def)
  have dl: "dlist_of r ts" using assms(1) r(2)
    by (auto simp: linked_inv_def same_list_def intro: dlist_of_frame)
  have "p \<in> set ts" using assms by (force simp: linked_inv_def)
  then obtain us vs where ts: "ts = us @ p # vs" "p \<notin> set us" by (metis split_list_first)
  then have rm: "remove1 p ts = us @ vs" by (simp add: remove1_append)
  have dlr: "dlist_of r (us @ p # vs)" using dl ts by simp
  note f = unlink_fields [OF dlist_neighbours(3-5) [OF dlr]]
  have "dlist_of (unlink_timer r p) (us @ vs)" using dlr by (rule unlink_dlist)
  moreover have "heap_inv (unlink_timer r p)" using r(1) by (simp add: heap_inv_def index_ok_def f)
  moreover have "set (us @ vs) = snd ` set (tq_heap r)"
  proof -
    have "insert p (snd ` set (tq_heap r)) = set ts"
      using assms(1) r(3) by (metis linked_inv_def image_insert mset_eq_setD list.simps(15) mset.simps(2) snd_conv)
    moreover have "p \<notin> snd ` set (tq_heap r)"
      using deadline_add(2) [OF r(3)] assms(1) by (simp add: linked_inv_def heap_inv_def deadline_None)
    moreover have "distinct ts" using dl by (simp add: dlist_of_def)
    ultimately show ?thesis using ts by auto
  qed
  ultimately show "linked_inv (remove_timer s p) (remove1 p ts)"
    by (simp add: linked_inv_def remove_timer_def rm f flip: r_def)
  show "mset (tq_heap s) = add_mset (t, p) (mset (tq_heap (remove_timer s p)))"
    using r(3) by (simp add: remove_timer_def f flip: r_def)
  show "pt_ops (tq_data (remove_timer s p) q) = pt_ops (tq_data s q)"
    "tq_aborted (remove_timer s p) = tq_aborted s"
    using r(2) by (simp_all add: remove_timer_def same_list_def f flip: r_def)
qed

lemma remove_timer_deadline:
  assumes "linked_inv s ts" "(t, p) \<in> set (tq_heap s)"
  shows "deadline (remove_timer s p) = (deadline s)(p := None)"
  using deadline_add [OF remove_timer_spec(2) [OF assms]] assms(1)
  by (auto simp: linked_inv_def heap_inv_def fun_eq_iff)

text \<open>The state with the new entry in the heap, before it is linked.\<close>

definition pushed :: "timer_queue \<Rightarrow> int \<Rightarrow> nat \<Rightarrow> timer_queue" where
  "pushed s t p = up_heap ((set_index p (length (tq_heap s)) s)\<lparr>tq_heap := tq_heap s @ [(t, p)]\<rparr>)
     (length (tq_heap s))"

lemma pushed_spec:
  assumes inv: "heap_inv s" and p: "p \<notin> snd ` set (tq_heap s)"
  shows "heap_inv (pushed s t p)" "same_list s (pushed s t p)"
    "mset (tq_heap (pushed s t p)) = add_mset (t, p) (mset (tq_heap s))"
proof -
  define b where "b = (set_index p (length (tq_heap s)) s)\<lparr>tq_heap := tq_heap s @ [(t, p)]\<rparr>"
  have h: "tq_heap b = tq_heap s @ [(t, p)]" and d: "distinct (map snd (tq_heap b))"
    using inv p by (auto simp: b_def heap_inv_def)
  have ix: "index_ok b"
  proof -
    have "snd (tq_heap s ! i) \<noteq> p" if "i < length (tq_heap s)" for i using that p by auto
    then show ?thesis using inv
      by (auto simp: b_def index_ok_def heap_inv_def set_index_def upd_timer_def nth_append less_Suc_eq)
  qed
  have lt: "heap_parent i < length (tq_heap s)" if "0 < i" "i \<le> length (tq_heap s)" for i
    using heap_parent_less [OF that(1)] that(2) by simp
  have up: "up_ok (tq_heap b) (length (tq_heap s))"
    using inv lt unfolding up_ok_def
    by (auto simp: h heap_inv_def heap_ok_def nth_append less_Suc_eq) (metis less_irrefl less_imp_le order_refl length_greater_0_conv)+
  have re: "rearranged b (pushed s t p)"
    using up_heap_rearranged [of "length (tq_heap s)" b] by (simp add: pushed_def h flip: b_def)
  have "heap_ok (tq_heap (pushed s t p))"
    using up_heap_ok [OF up] by (simp add: pushed_def h flip: b_def)
  then show "heap_inv (pushed s t p)" using re d ix rearranged_distinct [OF re]
    by (auto simp: heap_inv_def rearranged_def)
  have "same_list s b" by (simp add: same_list_def b_def set_index_def upd_timer_def)
  then show "same_list s (pushed s t p)" using rearranged_same_list [OF re] by (rule same_list_trans)
  show "mset (tq_heap (pushed s t p)) = add_mset (t, p) (mset (tq_heap s))"
    using re by (simp add: rearranged_def h)
qed

definition link_front :: "timer_queue \<Rightarrow> nat \<Rightarrow> timer_queue" where
  "link_front s p =
     (let s = set_prev p None (set_next p (tq_timers s) s);
          s = (case tq_timers s of Some q \<Rightarrow> set_prev q (Some p) s | None \<Rightarrow> s)
      in s\<lparr>tq_timers := Some p\<rparr>)"

lemma link_front_fields:
  assumes "tq_timers s \<noteq> Some p"
  shows "tq_timers (link_front s p) = Some p" "tq_heap (link_front s p) = tq_heap s"
    "tq_aborted (link_front s p) = tq_aborted s"
    "pt_prev (tq_data (link_front s p) x) =
       (if x = p then None else if tq_timers s = Some x then Some p else pt_prev (tq_data s x))"
    "pt_next (tq_data (link_front s p) x) = (if x = p then tq_timers s else pt_next (tq_data s x))"
    "pt_ops (tq_data (link_front s p) x) = pt_ops (tq_data s x)"
    "pt_index (tq_data (link_front s p) x) = pt_index (tq_data s x)"
  using assms by (auto simp: link_front_def Let_def set_next_def set_prev_def upd_timer_def split: option.splits)

lemma link_front_dlist:
  assumes "dlist_of s ts" "p \<notin> set ts"
  shows "dlist_of (link_front s p) (p # ts)"
proof -
  have ne: "tq_timers s \<noteq> Some p" using assms by (cases ts) (auto simp: dlist_of_def)
  note f = link_front_fields [OF ne]
  have d: "dseg (tq_data s) None ts None" "distinct ts" "tq_timers s = first_or ts None"
    using assms(1) by (auto simp: dlist_of_def)
  have "pt_prev (tq_data (link_front s p) x) = (if x = hd ts then Some p else pt_prev (tq_data s x)) \<and>
    pt_next (tq_data (link_front s p) x) = pt_next (tq_data s x)" if "x \<in> set ts" for x
    using that assms(2) d(3) unfolding f by (cases ts) auto
  then have "dseg (tq_data (link_front s p)) (Some p) ts None"
    by (intro dseg_relink_first [OF d(1,2)]) blast+
  moreover have "pt_prev (tq_data (link_front s p) x) = None \<and> pt_next (tq_data (link_front s p) x) = None"
    if "x \<notin> set (p # ts)" for x
    using that assms d(3) unfolding f by (cases ts) (auto simp: dlist_of_def)
  ultimately show ?thesis using assms(2) d(2,3) f(1,4,5) by (simp add: dlist_of_def)
qed

lemma enqueue_timer_eq:
  "enqueue_timer s t p op =
     (let s1 = (if is_active s p then s else link_front (pushed s t p) p);
          s2 = upd_timer p (\<lambda>d. d\<lparr>pt_ops := pt_ops d @ [op]\<rparr>) s1
      in (s2, pt_index (tq_data s2 p) = 0 \<and> hd (pt_ops (tq_data s2 p)) = op))"
  by (simp add: enqueue_timer_def is_active_def is_positive_infinity_def link_front_def pushed_def Let_def
      set_index_def upd_timer_def)

lemma upd_timer_fields [simp]:
  "tq_heap (upd_timer p g s) = tq_heap s" "tq_timers (upd_timer p g s) = tq_timers s"
  "tq_aborted (upd_timer p g s) = tq_aborted s" "deadline (upd_timer p g s) = deadline s"
  "pt_ops (tq_data (upd_timer p (\<lambda>d. d\<lparr>pt_ops := f d\<rparr>) s) q) =
     (if q = p then f (tq_data s p) else pt_ops (tq_data s q))"
  "pt_index (tq_data (upd_timer p (\<lambda>d. d\<lparr>pt_ops := f d\<rparr>) s) q) = pt_index (tq_data s q)"
  "pt_next (tq_data (upd_timer p (\<lambda>d. d\<lparr>pt_ops := f d\<rparr>) s) q) = pt_next (tq_data s q)"
  "pt_prev (tq_data (upd_timer p (\<lambda>d. d\<lparr>pt_ops := f d\<rparr>) s) q) = pt_prev (tq_data s q)"
  by (simp_all add: upd_timer_def deadline_def)

lemma upd_ops_linked_inv [simp]:
  "linked_inv (upd_timer p (\<lambda>d. d\<lparr>pt_ops := f d\<rparr>) s) ts = linked_inv s ts"
  using dseg_cong [of ts "tq_data (upd_timer p (\<lambda>d. d\<lparr>pt_ops := f d\<rparr>) s)" "tq_data s" None None]
  unfolding linked_inv_def dlist_of_def heap_inv_def index_ok_def by simp

lemma enqueue_timer_spec:
  assumes inv: "tq_inv s ts" and e: "enqueue_timer s t p op = (s', first)"
  shows "tq_inv s' (if p \<in> set ts then ts else p # ts)"
    "deadline s' = (if p \<in> set ts then deadline s else (deadline s)(p \<mapsto> t))"
    "pt_ops (tq_data s' q) = (if q = p then pt_ops (tq_data s p) @ [op] else pt_ops (tq_data s q))"
    "tq_aborted s' = tq_aborted s"
proof -
  define s1 where "s1 = (if is_active s p then s else link_front (pushed s t p) p)"
  have s': "s' = upd_timer p (\<lambda>d. d\<lparr>pt_ops := pt_ops d @ [op]\<rparr>) s1"
    using e by (simp add: enqueue_timer_eq Let_def flip: s1_def)
  have act: "is_active s p \<longleftrightarrow> p \<in> set ts" using inv tq_inv_active by (simp add: tq_inv_def)
  have "linked_inv s1 (if p \<in> set ts then ts else p # ts) \<and>
    deadline s1 = (if p \<in> set ts then deadline s else (deadline s)(p \<mapsto> t)) \<and>
    tq_aborted s1 = tq_aborted s \<and> (\<forall>q. pt_ops (tq_data s1 q) = pt_ops (tq_data s q))"
  proof (cases "p \<in> set ts")
    case False
    define r where "r = pushed s t p"
    have st: "set ts = snd ` set (tq_heap s)" using inv by (simp add: tq_inv_def linked_inv_def)
    have r: "heap_inv r" "same_list s r" "mset (tq_heap r) = add_mset (t, p) (mset (tq_heap s))"
      using pushed_spec [of s p t] inv False st by (auto simp: r_def tq_inv_def linked_inv_def)
    have dl: "dlist_of r ts"
      using inv r(2) by (auto simp: tq_inv_def linked_inv_def same_list_def intro: dlist_of_frame)
    have ne: "tq_timers r \<noteq> Some p" using dl False by (cases ts) (auto simp: dlist_of_def)
    have "set (tq_heap r) = insert (t, p) (set (tq_heap s))"
      using r(3) by (metis mset_eq_setD list.simps(15) mset.simps(2))
    then have "linked_inv (link_front r p) (p # ts)"
      using r(1) link_front_dlist [OF dl False] st
      by (simp add: linked_inv_def heap_inv_def index_ok_def link_front_fields [OF ne])
    moreover have "deadline r = (deadline s)(p \<mapsto> t)"
      using deadline_add(1) [OF r(3)] r(1) by (simp add: heap_inv_def)
    ultimately show ?thesis using False act r(2)
      by (simp add: s1_def deadline_def same_list_def link_front_fields [OF ne] flip: r_def)
  qed (use inv act in \<open>simp add: s1_def tq_inv_def\<close>)
  note s1 = this
  show "tq_inv s' (if p \<in> set ts then ts else p # ts)" using s1 inv by (auto simp: tq_inv_def s')
  show "deadline s' = (if p \<in> set ts then deadline s else (deadline s)(p \<mapsto> t))"
    "pt_ops (tq_data s' q) = (if q = p then pt_ops (tq_data s p) @ [op] else pt_ops (tq_data s q))"
    "tq_aborted s' = tq_aborted s"
    using s1 by (auto simp: s')
qed

lemma cancel_loop_eq:
  "n \<le> m \<Longrightarrow> cancel_loop q m n = (drop (m - n) q, take (m - n) q, n + min (length q) (m - n))"
proof (induction q m n rule: cancel_loop.induct)
  case (1 q m n)
  then show ?case
  proof (cases q)
    case (Cons op rest)
    show ?thesis
    proof (cases "n = m")
      case False
      then have "m - n = Suc (m - (n + 1))" using 1(2) by simp
      then show ?thesis using 1 Cons False by simp
    qed (simp add: Cons)
  qed simp
qed

declare cancel_loop.simps [simp del]

text \<open>The state after the operations are taken from a timer and before an empty timer is removed.\<close>

definition cancelled :: "timer_queue \<Rightarrow> nat \<Rightarrow> nat \<Rightarrow> timer_queue" where
  "cancelled s p m = upd_timer p (\<lambda>d. d\<lparr>pt_ops := drop m (pt_ops (tq_data s p))\<rparr>)
     (s\<lparr>tq_aborted := (\<lambda>x. x \<in> set (take m (pt_ops (tq_data s p))) \<or> tq_aborted s x)\<rparr>)"

lemma cancelled_facts:
  assumes "linked_inv s ts"
  shows "linked_inv (cancelled s p m) ts"
    "pt_ops (tq_data (cancelled s p m) q) = (if q = p then drop m (pt_ops (tq_data s p)) else pt_ops (tq_data s q))"
    "deadline (cancelled s p m) = deadline s"
    "tq_aborted (cancelled s p m) x \<longleftrightarrow> tq_aborted s x \<or> x \<in> set (take m (pt_ops (tq_data s p)))"
proof -
  have "linked_inv (s\<lparr>tq_aborted := g\<rparr>) ts" for g
    using assms by (simp add: linked_inv_def heap_inv_def index_ok_def dlist_of_def)
  then show "linked_inv (cancelled s p m) ts" by (simp add: cancelled_def)
qed (auto simp: cancelled_def deadline_def)

lemma cancel_active:
  assumes "linked_inv s ts" and "p \<in> set ts"
  shows "cancel_timer s p ops m =
    (if length (pt_ops (tq_data s p)) \<le> m then remove_timer (cancelled s p m) p else cancelled s p m,
     ops @ take m (pt_ops (tq_data s p)), min (length (pt_ops (tq_data s p))) m)"
  using tq_inv_active [OF assms(1)] assms(2)
  by (auto simp: cancel_timer_def is_active_def cancel_loop_eq Let_def cancelled_def)

lemma cancel_timer_spec:
  assumes inv: "tq_inv s ts" and c: "cancel_timer s p ops m = (s', ops', n)"
  shows "ops' = ops @ take m (pt_ops (tq_data s p))" "n = min (length (pt_ops (tq_data s p))) m"
    "tq_inv s' (if length (pt_ops (tq_data s p)) \<le> m then remove1 p ts else ts)"
    "deadline s' = (if length (pt_ops (tq_data s p)) \<le> m then (deadline s)(p := None) else deadline s)"
    "pt_ops (tq_data s' q) = (if q = p then drop m (pt_ops (tq_data s p)) else pt_ops (tq_data s q))"
    "tq_aborted s' x \<longleftrightarrow> tq_aborted s x \<or> x \<in> set (take m (pt_ops (tq_data s p)))"
proof -
  have li: "linked_inv s ts" and ne: "pt_ops (tq_data s p) \<noteq> [] \<longleftrightarrow> p \<in> set ts"
    using inv by (auto simp: tq_inv_def)
  let ?os = "pt_ops (tq_data s p)" and ?b = "cancelled s p m"
  note b = cancelled_facts [OF li, of p m]
  have "ops' = ops @ take m ?os \<and> n = min (length ?os) m \<and>
    tq_inv s' (if length ?os \<le> m then remove1 p ts else ts) \<and>
    deadline s' = (if length ?os \<le> m then (deadline s)(p := None) else deadline s) \<and>
    (\<forall>q. pt_ops (tq_data s' q) = (if q = p then drop m ?os else pt_ops (tq_data s q))) \<and>
    (\<forall>x. tq_aborted s' x \<longleftrightarrow> tq_aborted s x \<or> x \<in> set (take m ?os))"
  proof (cases "p \<in> set ts")
    case False
    then have "?os = []" "\<not> is_active s p" using ne tq_inv_active [OF li] by auto
    moreover from this have "s' = s \<and> ops' = ops \<and> n = 0" using c by (simp add: cancel_timer_def is_active_def)
    moreover have "deadline s p = None" using False li by (simp add: deadline_None linked_inv_def)
    ultimately show ?thesis using inv False by (simp add: remove1_idem fun_upd_idem)
  next
    case True
    then obtain t where t: "(t, p) \<in> set (tq_heap ?b)" using b(1) by (auto simp: linked_inv_def)
    have "distinct ts" using li by (simp add: linked_inv_def dlist_of_def)
    then show ?thesis
      using cancel_active [OF li True, of ops m] c True b inv remove_timer_spec [OF b(1) t] remove_timer_deadline [OF b(1) t]
      by (cases "length ?os \<le> m") (auto simp: tq_inv_def)
  qed
  then show "ops' = ops @ take m ?os" "n = min (length ?os) m"
    "tq_inv s' (if length ?os \<le> m then remove1 p ts else ts)"
    "deadline s' = (if length ?os \<le> m then (deadline s)(p := None) else deadline s)"
    "pt_ops (tq_data s' q) = (if q = p then drop m ?os else pt_ops (tq_data s q))"
    "tq_aborted s' x \<longleftrightarrow> tq_aborted s x \<or> x \<in> set (take m ?os)"
    by blast+
qed

text \<open>One turn of the loop over the expired timers.\<close>

lemma ready_turn:
  assumes inv: "tq_inv s ts" and ne: "tq_heap s \<noteq> []" and root: "tq_heap s ! 0 = (t, p)"
  defines "s1 \<equiv> remove_timer (upd_timer p (\<lambda>d. d\<lparr>pt_ops := []\<rparr>) s) p"
  shows "tq_inv s1 (remove1 p ts)" "mset (tq_heap s) = add_mset (t, p) (mset (tq_heap s1))"
    "pt_ops (tq_data s1 q) = (if q = p then [] else pt_ops (tq_data s q))" "tq_aborted s1 = tq_aborted s"
    "\<And>u q. (u, q) \<in> set (tq_heap s1) \<Longrightarrow> t \<le> u \<and> q \<noteq> p"
proof -
  let ?b = "upd_timer p (\<lambda>d. d\<lparr>pt_ops := []\<rparr>) s"
  have li: "linked_inv s ts" using inv by (simp add: tq_inv_def)
  have b: "linked_inv ?b ts" and e: "(t, p) \<in> set (tq_heap ?b)"
    using li ne root by (simp_all) (metis length_greater_0_conv nth_mem)
  note rm = remove_timer_spec [OF b e]
  have "distinct ts" using li by (simp add: linked_inv_def dlist_of_def)
  then show "tq_inv s1 (remove1 p ts)" using inv rm(1,3) by (auto simp: tq_inv_def s1_def)
  show ms: "mset (tq_heap s) = add_mset (t, p) (mset (tq_heap s1))" using rm(2) by (simp add: s1_def)
  show "pt_ops (tq_data s1 q) = (if q = p then [] else pt_ops (tq_data s q))" "tq_aborted s1 = tq_aborted s"
    using rm(3,4) by (simp_all add: s1_def)
  fix u q assume q: "(u, q) \<in> set (tq_heap s1)"
  then have "(u, q) \<in> set (tq_heap s)" using ms by (metis mset_eq_setD list.set_intros(2) mset.simps(2))
  then have "t \<le> u" using heap_root_least [of "tq_heap s"] li root
    by (auto simp: linked_inv_def heap_inv_def in_set_conv_nth) (metis fst_conv)
  moreover have "deadline s1 p = None" using deadline_add(2) [OF ms] li by (simp add: linked_inv_def heap_inv_def)
  ultimately show "t \<le> u \<and> q \<noteq> p" using q by (force simp: deadline_None)
qed

definition expired :: "int \<Rightarrow> timer_queue \<Rightarrow> timer_queue \<Rightarrow> (int \<times> nat) list \<Rightarrow> bool" where
  "expired now s s' ps \<longleftrightarrow>
     mset (tq_heap s) = mset ps + mset (tq_heap s') \<and> sorted (map fst ps) \<and>
     (\<forall>(t, p) \<in> set ps. t \<le> now) \<and> (\<forall>(t, p) \<in> set (tq_heap s'). now < t) \<and>
     (\<forall>q. pt_ops (tq_data s' q) = (if q \<in> snd ` set ps then [] else pt_ops (tq_data s q))) \<and>
     tq_aborted s' = tq_aborted s"

lemma ready_loop_returns:
  "tq_inv s ts \<Longrightarrow> \<exists>ps s' ts'. ready_loop now s ops = Some (s', ops @ concat (map (\<lambda>(t, p). pt_ops (tq_data s p)) ps)) \<and>
     tq_inv s' ts' \<and> expired now s s' ps"
proof (induction "length (tq_heap s)" arbitrary: s ts ops)
  case 0
  then have "expired now s s []" by (simp add: expired_def)
  then show ?case using 0 by (subst ready_loop.simps) (auto intro!: exI [of _ "[] :: (int \<times> nat) list"])
next
  case (Suc n)
  then have ne: "tq_heap s \<noteq> []" by auto
  obtain t p where root: "tq_heap s ! 0 = (t, p)" by (cases "tq_heap s ! 0")
  show ?case
  proof (cases "t \<le> now")
    case False
    have "now < u" if "(u, q) \<in> set (tq_heap s)" for u q
      using that heap_root_least [of "tq_heap s"] Suc.prems root False
      by (auto simp: tq_inv_def linked_inv_def heap_inv_def in_set_conv_nth) (metis fst_conv le_less_trans not_le)
    then have "expired now s s []" by (auto simp: expired_def)
    then show ?thesis using Suc.prems root False
      by (subst ready_loop.simps) (auto simp: less_than_def intro!: exI [of _ "[] :: (int \<times> nat) list"])
  next
    case True
    define s1 where "s1 = remove_timer (upd_timer p (\<lambda>d. d\<lparr>pt_ops := []\<rparr>) s) p"
    note turn = ready_turn [OF Suc.prems ne root, folded s1_def]
    have "size (mset (tq_heap s)) = Suc (size (mset (tq_heap s1)))" using turn(2) by simp
    then have "n = length (tq_heap s1)" using Suc.hyps(2) by simp
    from Suc.hyps(1) [OF this turn(1), of "ops @ pt_ops (tq_data s p)"]
    obtain ps s' ts' where ih: "ready_loop now s1 (ops @ pt_ops (tq_data s p)) =
        Some (s', (ops @ pt_ops (tq_data s p)) @ concat (map (\<lambda>(t, p). pt_ops (tq_data s1 p)) ps))"
      "tq_inv s' ts'" "expired now s1 s' ps" by blast
    have sub: "set ps \<subseteq> set (tq_heap s1)"
      using ih(3) by (metis expired_def mset_subset_eq_add_left set_mset_mono set_mset_mset)
    have "concat (map (\<lambda>(t, p). pt_ops (tq_data s1 p)) ps) = concat (map (\<lambda>(t, p). pt_ops (tq_data s p)) ps)"
      using sub turn(3,5) by (intro arg_cong [where f = concat] map_cong) auto
    moreover have "expired now s s' ((t, p) # ps)"
      using ih(3) turn sub True by (fastforce simp: expired_def)
    moreover have "ready_loop now s ops = ready_loop now s1 (ops @ pt_ops (tq_data s p))"
      using ne root True by (subst ready_loop.simps) (simp add: less_than_def s1_def Let_def)
    ultimately show ?thesis using ih(1,2) by (intro exI [of _ "(t, p) # ps"] exI [of _ s'] exI [of _ ts']) simp
  qed
qed

text \<open>While \<open>get_all_timers\<close> runs only the forward links of the rest of the list are right.\<close>

fun next_chain :: "(nat \<Rightarrow> per_timer_data) \<Rightarrow> nat list \<Rightarrow> bool" where
  "next_chain d [] \<longleftrightarrow> True"
| "next_chain d (x # xs) \<longleftrightarrow> pt_next (d x) = first_or xs None \<and> next_chain d xs"

lemma dseg_next_chain: "dseg d pr xs None \<Longrightarrow> next_chain d xs"
  by (induction xs arbitrary: pr) auto

lemma next_chain_cong:
  "(\<And>x. x \<in> set xs \<Longrightarrow> pt_next (d x) = pt_next (d' x)) \<Longrightarrow> next_chain d xs = next_chain d' xs"
  by (induction xs) auto

lemma all_loop_returns:
  "distinct xs \<Longrightarrow> tq_timers s = first_or xs None \<Longrightarrow> next_chain (tq_data s) xs \<Longrightarrow>
   (\<And>p. p \<notin> set xs \<Longrightarrow> pt_ops (tq_data s p) = [] \<and> pt_next (tq_data s p) = None \<and> pt_prev (tq_data s p) = None) \<Longrightarrow>
   \<exists>s'. all_loop s ops = Some (s', ops @ concat (map (\<lambda>p. pt_ops (tq_data s p)) xs)) \<and>
     tq_timers s' = None \<and> tq_aborted s' = tq_aborted s \<and>
     (\<forall>p. pt_ops (tq_data s' p) = [] \<and> pt_next (tq_data s' p) = None \<and> pt_prev (tq_data s' p) = None)"
proof (induction xs arbitrary: s ops)
  case Nil
  then show ?case by (subst all_loop.simps) simp
next
  case (Cons x xs)
  define s1 where "s1 = set_prev x None (set_next x None
    (upd_timer x (\<lambda>d. d\<lparr>pt_ops := []\<rparr>) (s\<lparr>tq_timers := pt_next (tq_data s x)\<rparr>)))"
  have d: "tq_data s1 = (tq_data s)(x := (tq_data s x)\<lparr>pt_ops := [], pt_next := None, pt_prev := None\<rparr>)"
    "tq_timers s1 = first_or xs None" "tq_aborted s1 = tq_aborted s"
    using Cons.prems(3) by (simp_all add: s1_def set_prev_def set_next_def upd_timer_def)
  have nc: "next_chain (tq_data s1) xs"
    using Cons.prems(1,3) by (subst next_chain_cong [of _ _ "tq_data s"]) (auto simp: d)
  have out: "pt_ops (tq_data s1 p) = [] \<and> pt_next (tq_data s1 p) = None \<and> pt_prev (tq_data s1 p) = None" if "p \<notin> set xs" for p
    using that Cons.prems(4) [of p] by (cases "p = x") (simp_all add: d)
  have "concat (map (\<lambda>p. pt_ops (tq_data s1 p)) xs) = concat (map (\<lambda>p. pt_ops (tq_data s p)) xs)"
    using Cons.prems(1) by (intro arg_cong [where f = concat] map_cong) (auto simp: d)
  moreover have "all_loop s ops = all_loop s1 (ops @ pt_ops (tq_data s x))"
    using Cons.prems(2) by (subst all_loop.simps) (simp add: Let_def s1_def)
  ultimately show ?case
    using Cons.IH [OF _ d(2) nc out, of "ops @ pt_ops (tq_data s x)"] Cons.prems(1) d(3) by simp
qed

lemma get_all_timers_returns:
  assumes "tq_inv s ts"
  shows "\<exists>s'. get_all_timers s ops = Some (s', ops @ concat (map (\<lambda>p. pt_ops (tq_data s p)) ts)) \<and>
    tq_inv s' [] \<and> deadline s' = Map.empty \<and> tq_aborted s' = tq_aborted s"
proof -
  have d: "distinct ts" "tq_timers s = first_or ts None" "next_chain (tq_data s) ts"
    using assms dseg_next_chain by (auto simp: tq_inv_def linked_inv_def dlist_of_def)
  have "pt_ops (tq_data s p) = [] \<and> pt_next (tq_data s p) = None \<and> pt_prev (tq_data s p) = None" if "p \<notin> set ts" for p
    using that assms unfolding tq_inv_def linked_inv_def dlist_of_def by blast
  from all_loop_returns [OF d this, of ops] show ?thesis
    by (auto simp: get_all_timers_def tq_inv_def linked_inv_def heap_inv_def heap_ok_def index_ok_def
        dlist_of_def deadline_def)
qed

text \<open>Moving the operations of an active timer to one that is not active.\<close>

lemma move_heap_entry_fields:
  fixes s :: timer_queue
  assumes "source \<noteq> target"
  defines "s' \<equiv> move_heap_entry s target source" and "i \<equiv> pt_index (tq_data s source)"
  shows "tq_timers s' = tq_timers s" "tq_aborted s' = tq_aborted s"
    "tq_heap s' = (if i < length (tq_heap s) then (tq_heap s)[i := (fst (tq_heap s ! i), target)] else tq_heap s)"
    "pt_prev (tq_data s' x) = pt_prev (tq_data s x)" "pt_next (tq_data s' x) = pt_next (tq_data s x)"
    "pt_ops (tq_data s' x) = (if x = source then []
        else if x = target then pt_ops (tq_data s target) @ pt_ops (tq_data s source) else pt_ops (tq_data s x))"
    "pt_index (tq_data s' x) = (if x = source then no_index else if x = target then i else pt_index (tq_data s x))"
  using assms(1) by (simp_all add: s'_def i_def move_heap_entry_def Let_def set_index_def upd_timer_def)

lemma move_links_fields:
  fixes s :: timer_queue
  assumes "source \<noteq> target" "pt_prev (tq_data s source) \<noteq> Some source" "pt_next (tq_data s source) \<noteq> Some source"
    "pt_prev (tq_data s source) \<noteq> Some target" "pt_next (tq_data s source) \<noteq> Some target"
    "pt_prev (tq_data s source) = None \<or> pt_next (tq_data s source) \<noteq> pt_prev (tq_data s source)"
  defines "s' \<equiv> move_links s target source"
  shows "tq_timers s' = (if tq_timers s = Some source then Some target else tq_timers s)"
    "tq_heap s' = tq_heap s" "tq_aborted s' = tq_aborted s"
    "pt_prev (tq_data s' x) = (if x = source then None else if x = target then pt_prev (tq_data s source)
        else if pt_next (tq_data s source) = Some x then Some target else pt_prev (tq_data s x))"
    "pt_next (tq_data s' x) = (if x = source then None else if x = target then pt_next (tq_data s source)
        else if pt_prev (tq_data s source) = Some x then Some target else pt_next (tq_data s x))"
    "pt_ops (tq_data s' x) = pt_ops (tq_data s x)" "pt_index (tq_data s' x) = pt_index (tq_data s x)"
  using assms(1-6) by (auto simp: s'_def move_links_def Let_def set_next_def set_prev_def
      upd_timer_def split: option.splits)

lemma move_fields:
  fixes s :: timer_queue
  assumes "source \<noteq> target" "pt_prev (tq_data s source) \<noteq> Some source" "pt_next (tq_data s source) \<noteq> Some source"
    "pt_prev (tq_data s source) \<noteq> Some target" "pt_next (tq_data s source) \<noteq> Some target"
    "pt_prev (tq_data s source) = None \<or> pt_next (tq_data s source) \<noteq> pt_prev (tq_data s source)"
  defines "s' \<equiv> move_timer s target source" and "i \<equiv> pt_index (tq_data s source)"
  shows "tq_timers s' = (if tq_timers s = Some source then Some target else tq_timers s)"
    "tq_heap s' = (if i < length (tq_heap s) then (tq_heap s)[i := (fst (tq_heap s ! i), target)] else tq_heap s)"
    "tq_aborted s' = tq_aborted s"
    "pt_prev (tq_data s' x) = (if x = source then None else if x = target then pt_prev (tq_data s source)
        else if pt_next (tq_data s source) = Some x then Some target else pt_prev (tq_data s x))"
    "pt_next (tq_data s' x) = (if x = source then None else if x = target then pt_next (tq_data s source)
        else if pt_prev (tq_data s source) = Some x then Some target else pt_next (tq_data s x))"
    "pt_ops (tq_data s' x) = (if x = source then []
        else if x = target then pt_ops (tq_data s target) @ pt_ops (tq_data s source) else pt_ops (tq_data s x))"
    "pt_index (tq_data s' x) = (if x = source then no_index else if x = target then i else pt_index (tq_data s x))"
proof -
  note h = move_heap_entry_fields [OF assms(1), of s, folded i_def]
  note l = move_links_fields [of source target "move_heap_entry s target source", unfolded h, OF assms(1-6)]
  show "tq_timers s' = (if tq_timers s = Some source then Some target else tq_timers s)"
    "tq_heap s' = (if i < length (tq_heap s) then (tq_heap s)[i := (fst (tq_heap s ! i), target)] else tq_heap s)"
    "tq_aborted s' = tq_aborted s"
    "pt_prev (tq_data s' x) = (if x = source then None else if x = target then pt_prev (tq_data s source)
        else if pt_next (tq_data s source) = Some x then Some target else pt_prev (tq_data s x))"
    "pt_next (tq_data s' x) = (if x = source then None else if x = target then pt_next (tq_data s source)
        else if pt_prev (tq_data s source) = Some x then Some target else pt_next (tq_data s x))"
    "pt_ops (tq_data s' x) = (if x = source then []
        else if x = target then pt_ops (tq_data s target) @ pt_ops (tq_data s source) else pt_ops (tq_data s x))"
    "pt_index (tq_data s' x) = (if x = source then no_index else if x = target then i else pt_index (tq_data s x))"
    unfolding s'_def move_timer_def by (rule l)+
qed

lemma move_timer_heap:
  assumes inv: "heap_inv s" and e: "(t, source) \<in> set (tq_heap s)" and tgt: "target \<notin> snd ` set (tq_heap s)"
    and h: "tq_heap s' = (tq_heap s)[pt_index (tq_data s source) := (fst (tq_heap s ! pt_index (tq_data s source)), target)]"
    and ix: "\<And>x. x \<noteq> source \<Longrightarrow> pt_index (tq_data s' x) =
      (if x = target then pt_index (tq_data s source) else pt_index (tq_data s x))"
  shows "heap_inv s'" "snd ` set (tq_heap s') = insert target (snd ` set (tq_heap s) - {source})"
    "deadline s' = (deadline s)(source := None, target \<mapsto> t)"
proof -
  obtain i where i: "i < length (tq_heap s)" "tq_heap s ! i = (t, source)" using e by (auto simp: in_set_conv_nth)
  have pi: "pt_index (tq_data s source) = i" using inv i by (force simp: heap_inv_def index_ok_def)
  have h': "tq_heap s' = (tq_heap s)[i := (t, target)]" using h pi i by simp
  have d: "distinct (map snd (tq_heap s))" using inv by (simp add: heap_inv_def)
  have d': "distinct (map snd (tq_heap s'))"
    using d tgt i(1) by (auto simp: h' map_update intro!: distinct_list_update)
  have ne: "snd (tq_heap s ! k) \<noteq> target \<and> (k \<noteq> i \<longrightarrow> snd (tq_heap s ! k) \<noteq> source)" if "k < length (tq_heap s)" for k
    using tgt that heap_inv_snd_eq [OF inv that i(1)] i(2) nth_mem [OF that] by auto
  have st: "set (tq_heap s') = insert (t, target) (set (tq_heap s) - {(t, source)})"
    using set_update_distinct [of "tq_heap s" i] d i by (simp add: h' distinct_map)
  have "fst (tq_heap s' ! k) = fst (tq_heap s ! k)" if "k < length (tq_heap s)" for k
    using that i by (cases "k = i") (auto simp: h')
  moreover have "heap_parent k < length (tq_heap s)" if "0 < k" "k < length (tq_heap s)" for k
    using heap_parent_less [OF that(1)] that(2) by simp
  moreover have "length (tq_heap s') = length (tq_heap s)" by (simp add: h')
  ultimately have "heap_ok (tq_heap s')" using inv by (simp add: heap_inv_def heap_ok_def)
  moreover have "index_ok s'"
  proof -
    have "source \<noteq> target" using e tgt by force
    then have "pt_index (tq_data s' target) = i" using ix [of target] pi by simp
    then show ?thesis using inv ne i ix by (auto simp: heap_inv_def index_ok_def h' nth_list_update)
  qed
  ultimately show "heap_inv s'" using d' by (simp add: heap_inv_def)
  have uniq: "(u, source) \<in> set (tq_heap s) \<longleftrightarrow> u = t" for u
    using deadline_iff [OF d, of source] e by (metis option.inject)
  show "snd ` set (tq_heap s') = insert target (snd ` set (tq_heap s) - {source})"
    unfolding st using uniq by force
  have "deadline s' q = Some u \<longleftrightarrow> ((deadline s)(source := None, target \<mapsto> t)) q = Some u" for q u
    using tgt uniq e by (auto simp: deadline_iff [OF d'] deadline_iff [OF d] st image_iff)
  then show "deadline s' = (deadline s)(source := None, target \<mapsto> t)" by (intro ext) (metis not_None_eq)
qed

lemma move_timer_dlist:
  assumes dl: "dlist_of s (us @ source # vs)" and t: "target \<notin> set (us @ source # vs)"
  shows "dlist_of (move_timer s target source) (us @ target # vs)"
    "pt_prev (tq_data s source) \<noteq> Some target" "pt_next (tq_data s source) \<noteq> Some target" "source \<noteq> target"
proof -
  note n = dlist_neighbours [OF dl]
  show pt: "pt_prev (tq_data s source) \<noteq> Some target" and nt: "pt_next (tq_data s source) \<noteq> Some target"
    and st: "source \<noteq> target"
    using t by (auto simp: n(1,2) last_or_def first_or_def split: list.splits)
  note f = move_fields [OF st n(3,4) pt nt n(5)]
  have d: "distinct (us @ source # vs)" "tq_timers s = first_or us (Some source)"
      "dseg (tq_data s) None us (Some source)" "dseg (tq_data s) (Some source) vs None"
    using dl by (auto simp: dlist_of_def)
  have lv: "us \<noteq> [] \<Longrightarrow> last us \<notin> set vs" using d(1) last_in_set by (fastforce simp: disjoint_iff)
  let ?d = "tq_data (move_timer s target source)"
  have u: "dseg ?d None us (Some target)"
  proof (cases "us = []")
    case False
    show ?thesis using d(1) False t
      by (intro dseg_relink_last [OF d(3)]) (auto simp: f n(1,2) last_or_def first_or_def split: list.splits)
  qed simp
  have v: "dseg ?d (Some target) vs None"
    using d(1) lv t
    by (intro dseg_relink_first [OF d(4)]) (auto simp: f n(1,2) last_or_def first_or_def split: list.splits)
  have "pt_prev (?d x) = None \<and> pt_next (?d x) = None" if "x \<notin> set (us @ target # vs)" for x
    using that dl by (auto simp: f n(1,2) last_or_def first_or_def dlist_of_def split: list.splits)
  then show "dlist_of (move_timer s target source) (us @ target # vs)"
    using u v d(1,2) t st
    by (auto simp: dlist_of_def f(1,4,5) n(1,2) first_or_def split: list.splits)
qed

lemma move_timer_spec:
  assumes inv: "tq_inv s (us @ source # vs)" and tgt: "target \<notin> set (us @ source # vs)"
  defines "s' \<equiv> move_timer s target source"
  shows "tq_inv s' (us @ target # vs)"
    "deadline s' = (deadline s)(source := None, target := deadline s source)"
    "pt_ops (tq_data s' x) = (if x = source then [] else if x = target then pt_ops (tq_data s source)
       else pt_ops (tq_data s x))"
    "tq_aborted s' = tq_aborted s"
proof -
  have li: "heap_inv s" "dlist_of s (us @ source # vs)" "set (us @ source # vs) = snd ` set (tq_heap s)"
    using inv by (auto simp: tq_inv_def linked_inv_def)
  have ot: "pt_ops (tq_data s target) = []" using inv tgt by (auto simp: tq_inv_def)
  note dl = move_timer_dlist [OF li(2) tgt] and n = dlist_neighbours [OF li(2)]
  note f = move_fields [OF dl(4) n(3,4) dl(2,3) n(5), folded s'_def]
  have "source \<in> snd ` set (tq_heap s)" unfolding li(3) [symmetric] by simp
  then obtain t where t: "(t, source) \<in> set (tq_heap s)" by auto
  have "pt_index (tq_data s source) < length (tq_heap s)"
    using t li(1) by (auto simp: heap_inv_def index_ok_def in_set_conv_nth)
  then have hq: "tq_heap s' = (tq_heap s)[pt_index (tq_data s source) :=
      (fst (tq_heap s ! pt_index (tq_data s source)), target)]" by (simp add: f(2))
  have tg: "target \<notin> snd ` set (tq_heap s)" using tgt unfolding li(3) .
  have "x \<noteq> source \<Longrightarrow> pt_index (tq_data s' x) =
      (if x = target then pt_index (tq_data s source) else pt_index (tq_data s x))" for x by (simp add: f(7))
  note hp = move_timer_heap [OF li(1) t tg hq this]
  have dist: "distinct (us @ source # vs)" using li(2) by (simp add: dlist_of_def)
  have "set (us @ target # vs) = snd ` set (tq_heap s')"
    using hp(2) dist by (simp flip: li(3))
  then have "linked_inv s' (us @ target # vs)" using hp(1) dl(1) by (simp add: linked_inv_def s'_def)
  then show "tq_inv s' (us @ target # vs)" using inv dist f(6) ot by (auto simp: tq_inv_def)
  have "deadline s source = Some t" using t li(1) by (simp add: deadline_iff heap_inv_def)
  then show "deadline s' = (deadline s)(source := None, target := deadline s source)" using hp(3) by simp
  show "pt_ops (tq_data s' x) = (if x = source then [] else if x = target then pt_ops (tq_data s source)
       else pt_ops (tq_data s x))" "tq_aborted s' = tq_aborted s"
    using f(3,6) ot by simp_all
qed

section \<open>Histories against a map of deadlines\<close>

text \<open>What the queue promises: a map from the active timers to their deadline and their operations in
  the order they were enqueued. Which of two timers with the same deadline fires first is left open.\<close>

type_synonym timer_map = "nat \<rightharpoonup> int \<times> nat list"

definition tq_abs :: "timer_queue \<Rightarrow> timer_map" where
  "tq_abs s p = map_option (\<lambda>t. (t, pt_ops (tq_data s p))) (deadline s p)"

datatype tq_cmd = Tq_Enqueue int nat nat | Tq_Cancel nat nat | Tq_Ready int | Tq_All | Tq_Move nat nat

text \<open>One call, with the operations it hands to the scheduler. A timer is moved only onto an idle one, as
  the comment of \<open>move_timer\<close> requires, and only while it is active.\<close>

definition tq_exec :: "tq_cmd \<Rightarrow> timer_queue \<Rightarrow> (timer_queue \<times> nat list) option" where
  "tq_exec c s = (case c of
     Tq_Enqueue t p op \<Rightarrow> Some (fst (enqueue_timer s t p op), [])
   | Tq_Cancel p m \<Rightarrow> (case cancel_timer s p [] m of (s, ops, n) \<Rightarrow> Some (s, ops))
   | Tq_Ready now \<Rightarrow> get_ready_timers now s []
   | Tq_All \<Rightarrow> get_all_timers s []
   | Tq_Move target source \<Rightarrow>
       Some (if is_active s source \<and> \<not> is_active s target then move_timer s target source else s, []))"

fun tq_run :: "tq_cmd list \<Rightarrow> timer_queue \<Rightarrow> (timer_queue \<times> nat list) option" where
  "tq_run [] s = Some (s, [])"
| "tq_run (c # cs) s = Option.bind (tq_exec c s) (\<lambda>(s1, o1).
     Option.bind (tq_run cs s1) (\<lambda>(s2, o2). Some (s2, o1 @ o2)))"

definition fires :: "timer_map \<Rightarrow> nat set \<Rightarrow> nat list \<Rightarrow> nat list \<Rightarrow> bool" where
  "fires m P ps out \<longleftrightarrow> distinct ps \<and> set ps = P \<and> out = concat (map (\<lambda>p. snd (the (m p))) ps)"

inductive timer_spec :: "tq_cmd \<Rightarrow> timer_map \<Rightarrow> timer_map \<Rightarrow> nat list \<Rightarrow> bool" where
  spec_new: "m p = None \<Longrightarrow> timer_spec (Tq_Enqueue t p op) m (m(p \<mapsto> (t, [op]))) []"
| spec_more: "m p = Some (u, os) \<Longrightarrow> timer_spec (Tq_Enqueue t p op) m (m(p \<mapsto> (u, os @ [op]))) []"
| spec_idle: "m p = None \<Longrightarrow> timer_spec (Tq_Cancel p n) m m []"
| spec_cancel: "m p = Some (u, os) \<Longrightarrow>
    timer_spec (Tq_Cancel p n) m (m(p := if length os \<le> n then None else Some (u, drop n os))) (take n os)"
| spec_ready: "fires m {p \<in> dom m. fst (the (m p)) \<le> now} ps out \<Longrightarrow>
    sorted (map (\<lambda>p. fst (the (m p))) ps) \<Longrightarrow>
    timer_spec (Tq_Ready now) m (m |` {p. now < fst (the (m p))}) out"
| spec_all: "fires m (dom m) ps out \<Longrightarrow> timer_spec Tq_All m Map.empty out"
| spec_move: "source \<in> dom m \<Longrightarrow> target \<notin> dom m \<Longrightarrow>
    timer_spec (Tq_Move target source) m (m(source := None, target := m source)) []"
| spec_stay: "source \<notin> dom m \<or> target \<in> dom m \<Longrightarrow> timer_spec (Tq_Move target source) m m []"

inductive timer_spec_run :: "tq_cmd list \<Rightarrow> timer_map \<Rightarrow> timer_map \<Rightarrow> nat list \<Rightarrow> bool" where
  run_done: "timer_spec_run [] m m []"
| run_step: "timer_spec c m m1 o1 \<Longrightarrow> timer_spec_run cs m1 m2 o2 \<Longrightarrow> timer_spec_run (c # cs) m m2 (o1 @ o2)"

lemma tq_abs_dom: "tq_inv s ts \<Longrightarrow> dom (tq_abs s) = set ts"
  by (auto simp: tq_abs_def dom_def tq_inv_def linked_inv_def deadline_None)

lemma tq_abs_Some: "tq_inv s ts \<Longrightarrow> tq_abs s p = Some (t, os) \<longleftrightarrow>
    (t, p) \<in> set (tq_heap s) \<and> os = pt_ops (tq_data s p)"
  by (auto simp: tq_abs_def tq_inv_def linked_inv_def heap_inv_def deadline_iff)

lemma exec_enqueue:
  assumes inv: "tq_inv s ts"
  shows "\<exists>s' out ts'. tq_exec (Tq_Enqueue t p op) s = Some (s', out) \<and> tq_inv s' ts' \<and>
    timer_spec (Tq_Enqueue t p op) (tq_abs s) (tq_abs s') out"
proof -
  obtain s' first where e: "enqueue_timer s t p op = (s', first)" by fastforce
  note sp = enqueue_timer_spec [OF inv e]
  have "timer_spec (Tq_Enqueue t p op) (tq_abs s) (tq_abs s') []"
  proof (cases "p \<in> set ts")
    case True
    then obtain u os where u: "tq_abs s p = Some (u, os)" using tq_abs_dom [OF inv] by (metis domD surj_pair)
    then have "tq_abs s' = (tq_abs s)(p \<mapsto> (u, os @ [op]))" using sp True by (auto simp: tq_abs_def fun_eq_iff)
    then show ?thesis using spec_more [of "tq_abs s" p u os t op] u by simp
  next
    case False
    then have n: "tq_abs s p = None" "pt_ops (tq_data s p) = []"
      using tq_abs_dom [OF inv] inv by (auto simp: tq_inv_def)
    then have "tq_abs s' = (tq_abs s)(p \<mapsto> (t, [op]))" using sp False by (auto simp: tq_abs_def fun_eq_iff)
    then show ?thesis using spec_new [of "tq_abs s" p t op] n by simp
  qed
  then show ?thesis using sp(1) e by (auto simp: tq_exec_def)
qed

lemma exec_cancel:
  assumes inv: "tq_inv s ts"
  shows "\<exists>s' out ts'. tq_exec (Tq_Cancel p m) s = Some (s', out) \<and> tq_inv s' ts' \<and>
    timer_spec (Tq_Cancel p m) (tq_abs s) (tq_abs s') out"
proof -
  obtain s' out n where c: "cancel_timer s p [] m = (s', out, n)" by (metis prod_cases3)
  note sp = cancel_timer_spec [OF inv c]
  have "timer_spec (Tq_Cancel p m) (tq_abs s) (tq_abs s') out"
  proof (cases "tq_abs s p")
    case None
    then have "p \<notin> set ts" "deadline s p = None" unfolding tq_abs_dom [OF inv, symmetric]
      by (auto simp: tq_abs_def)
    then have "pt_ops (tq_data s p) = []" "deadline s p = None" using inv by (auto simp: tq_inv_def)
    then have "tq_abs s' = tq_abs s" "out = []" using sp by (auto simp: tq_abs_def fun_eq_iff)
    then show ?thesis using spec_idle [of "tq_abs s" p m] None by simp
  next
    case (Some uo)
    then obtain u os where u: "tq_abs s p = Some (u, os)" "os = pt_ops (tq_data s p)" "deadline s p = Some u"
      by (auto simp: tq_abs_def)
    then have "tq_abs s' = (tq_abs s)(p := if length os \<le> m then None else Some (u, drop m os))"
      using sp by (auto simp: tq_abs_def fun_eq_iff)
    then show ?thesis using spec_cancel [of "tq_abs s" p u os m] u sp(1) by simp
  qed
  then show ?thesis using sp(3) c by (auto simp: tq_exec_def)
qed

lemma expired_heaps:
  assumes "tq_inv s ts" and "expired now s s' ps"
  shows "set (tq_heap s) = set ps \<union> set (tq_heap s')" "distinct (map snd (ps @ tq_heap s'))"
proof -
  have d: "distinct (map snd (tq_heap s))" using assms(1) by (simp add: tq_inv_def linked_inv_def heap_inv_def)
  have ms: "mset (tq_heap s) = mset (ps @ tq_heap s')" using assms(2) by (simp add: expired_def)
  then show "set (tq_heap s) = set ps \<union> set (tq_heap s')" by (metis mset_eq_setD set_append)
  show "distinct (map snd (ps @ tq_heap s'))" using d ms by (metis mset_eq_imp_distinct_iff mset_map)
qed

lemma expired_due:
  assumes inv: "tq_inv s ts" and x: "expired now s s' ps"
  shows "snd ` set ps = {p \<in> dom (tq_abs s). fst (the (tq_abs s p)) \<le> now}"
proof (intro set_eqI iffI)
  note st = expired_heaps(1) [OF inv x]
  fix q
  show "q \<in> {p \<in> dom (tq_abs s). fst (the (tq_abs s p)) \<le> now}" if "q \<in> snd ` set ps"
  proof -
    from that obtain t where "(t, q) \<in> set ps" by auto
    then show ?thesis using tq_abs_Some [OF inv, of q t "pt_ops (tq_data s q)"] st x by (auto simp: expired_def)
  qed
  show "q \<in> snd ` set ps" if "q \<in> {p \<in> dom (tq_abs s). fst (the (tq_abs s p)) \<le> now}"
  proof -
    from that obtain t os where t: "tq_abs s q = Some (t, os)" "t \<le> now" by auto
    then have "(t, q) \<in> set (tq_heap s)" using tq_abs_Some [OF inv] by simp
    then show ?thesis using st t(2) x by (force simp: expired_def)
  qed
qed

lemma expired_fires:
  assumes inv: "tq_inv s ts" and x: "expired now s s' ps"
  shows "fires (tq_abs s) {p \<in> dom (tq_abs s). fst (the (tq_abs s p)) \<le> now} (map snd ps)
      (concat (map (\<lambda>(t, p). pt_ops (tq_data s p)) ps))"
    and "sorted (map (\<lambda>p. fst (the (tq_abs s p))) (map snd ps))"
proof -
  have "the (tq_abs s p) = (t, pt_ops (tq_data s p))" if "(t, p) \<in> set ps" for t p
    using tq_abs_Some [OF inv, of p t "pt_ops (tq_data s p)"] expired_heaps(1) [OF inv x] that by simp
  then have pm: "map (\<lambda>p. g (the (tq_abs s p))) (map snd ps) = map (\<lambda>(t, p). g (t, pt_ops (tq_data s p))) ps"
    for g :: "_ \<Rightarrow> 'x" by (auto simp: map_eq_conv)
  have "concat (map (\<lambda>(t, p). pt_ops (tq_data s p)) ps) = concat (map (\<lambda>p. snd (the (tq_abs s p))) (map snd ps))"
    unfolding pm by simp
  then show "fires (tq_abs s) {p \<in> dom (tq_abs s). fst (the (tq_abs s p)) \<le> now} (map snd ps)
      (concat (map (\<lambda>(t, p). pt_ops (tq_data s p)) ps))"
    using expired_heaps(2) [OF inv x] expired_due [OF inv x] by (simp add: fires_def)
  have "map (\<lambda>(t, p). fst (t, pt_ops (tq_data s p))) ps = map fst ps" by auto
  moreover have "sorted (map fst ps)" using x by (simp add: expired_def)
  ultimately show "sorted (map (\<lambda>p. fst (the (tq_abs s p))) (map snd ps))" unfolding pm by metis
qed

lemma expired_rest:
  assumes inv: "tq_inv s ts" and inv': "tq_inv s' ts'" and x: "expired now s s' ps"
  shows "tq_abs s' = tq_abs s |` {p. now < fst (the (tq_abs s p))}"
proof
  note st = expired_heaps [OF inv x]
  fix q
  show "tq_abs s' q = (tq_abs s |` {p. now < fst (the (tq_abs s p))}) q"
  proof (cases "tq_abs s' q")
    case (Some y)
    then have h: "(fst y, q) \<in> set (tq_heap s')" "snd y = pt_ops (tq_data s' q)"
      using tq_abs_Some [OF inv', of q "fst y" "snd y"] by auto
    then have "q \<notin> snd ` set ps" using st(2) by force
    then have "tq_abs s q = Some y" "now < fst y"
      using tq_abs_Some [OF inv, of q "fst y" "snd y"] h st(1) x by (auto simp: expired_def prod_eq_iff)
    then show ?thesis using Some by simp
  next
    case None
    have "\<not> now < t" if "tq_abs s q = Some (t, os)" for t os
    proof -
      have "(t, q) \<in> set (tq_heap s)" using that tq_abs_Some [OF inv] by simp
      moreover have "(t, q) \<notin> set (tq_heap s')" using tq_abs_Some [OF inv', of q t] None by auto
      ultimately show ?thesis using st(1) x by (auto simp: expired_def)
    qed
    then show ?thesis using None by (cases "tq_abs s q") (auto simp: restrict_map_def)
  qed
qed

lemma exec_ready:
  assumes inv: "tq_inv s ts"
  shows "\<exists>s' out ts'. tq_exec (Tq_Ready now) s = Some (s', out) \<and> tq_inv s' ts' \<and>
    timer_spec (Tq_Ready now) (tq_abs s) (tq_abs s') out"
proof -
  obtain ps s' ts' where r: "ready_loop now s [] = Some (s', concat (map (\<lambda>(t, p). pt_ops (tq_data s p)) ps))"
    "tq_inv s' ts'" "expired now s s' ps" using ready_loop_returns [OF inv, of now "[]"] by auto
  have "tq_exec (Tq_Ready now) s = ready_loop now s []"
    by (simp add: tq_exec_def get_ready_timers_def) (subst ready_loop.simps, simp)
  then show ?thesis
    using spec_ready [OF expired_fires [OF inv r(3)]] r expired_rest [OF inv r(2,3)] by auto
qed

lemma exec_all:
  assumes inv: "tq_inv s ts"
  shows "\<exists>s' out ts'. tq_exec Tq_All s = Some (s', out) \<and> tq_inv s' ts' \<and>
    timer_spec Tq_All (tq_abs s) (tq_abs s') out"
proof -
  obtain s' where s': "get_all_timers s [] = Some (s', concat (map (\<lambda>p. pt_ops (tq_data s p)) ts))"
    "tq_inv s' []" "deadline s' = Map.empty" using get_all_timers_returns [OF inv, of "[]"] by auto
  have "map (\<lambda>p. pt_ops (tq_data s p)) ts = map (\<lambda>p. snd (the (tq_abs s p))) ts"
    using tq_abs_dom [OF inv] by (force simp: tq_abs_def map_eq_conv dom_def)
  moreover have "distinct ts" using inv by (simp add: tq_inv_def linked_inv_def dlist_of_def)
  ultimately have "fires (tq_abs s) (dom (tq_abs s)) ts (concat (map (\<lambda>p. pt_ops (tq_data s p)) ts))"
    using tq_abs_dom [OF inv] unfolding fires_def by metis
  moreover have "tq_abs s' = Map.empty" using s'(3) by (simp add: tq_abs_def fun_eq_iff)
  ultimately show ?thesis using s' spec_all by (auto simp: tq_exec_def)
qed

lemma exec_move:
  assumes inv: "tq_inv s ts"
  shows "\<exists>s' out ts'. tq_exec (Tq_Move target source) s = Some (s', out) \<and> tq_inv s' ts' \<and>
    timer_spec (Tq_Move target source) (tq_abs s) (tq_abs s') out"
proof -
  have act: "is_active s p \<longleftrightarrow> p \<in> dom (tq_abs s)" for p
    using tq_abs_dom [OF inv] tq_inv_active inv by (auto simp: tq_inv_def)
  show ?thesis
  proof (cases "is_active s source \<and> \<not> is_active s target")
    case False
    then show ?thesis using inv act spec_stay [of source "tq_abs s" target] by (auto simp: tq_exec_def)
  next
    case True
    then obtain us vs where ts: "ts = us @ source # vs" "target \<notin> set ts"
      using act tq_abs_dom [OF inv] by (metis split_list)
    note mv = move_timer_spec [of s us source vs target, OF inv [unfolded ts(1)] ts(2) [unfolded ts(1)]]
    have "source \<noteq> target" using True by auto
    then have "tq_abs (move_timer s target source) = (tq_abs s)(source := None, target := tq_abs s source)"
      using mv(2,3) by (auto simp: tq_abs_def fun_eq_iff)
    then show ?thesis using True act mv(1) spec_move [of source "tq_abs s" target] by (auto simp: tq_exec_def)
  qed
qed

lemma exec_refines:
  "tq_inv s ts \<Longrightarrow> \<exists>s' out ts'. tq_exec c s = Some (s', out) \<and> tq_inv s' ts' \<and>
     timer_spec c (tq_abs s) (tq_abs s') out"
  by (cases c) (simp_all only: exec_enqueue exec_cancel exec_ready exec_all exec_move)

lemma run_refines:
  "tq_inv s ts \<Longrightarrow> \<exists>s' out. tq_run cs s = Some (s', out) \<and> timer_spec_run cs (tq_abs s) (tq_abs s') out"
proof (induction cs arbitrary: s ts)
  case Nil
  then show ?case by (auto intro: run_done)
next
  case (Cons c cs)
  obtain s1 o1 ts1 where 1: "tq_exec c s = Some (s1, o1)" "tq_inv s1 ts1" "timer_spec c (tq_abs s) (tq_abs s1) o1"
    using exec_refines [OF Cons.prems] by blast
  obtain s2 o2 where 2: "tq_run cs s1 = Some (s2, o2)" "timer_spec_run cs (tq_abs s1) (tq_abs s2) o2"
    using Cons.IH [OF 1(2)] by blast
  show ?case using 1 2 run_step [OF 1(3) 2(2)] by auto
qed

section \<open>Properties of the timer queue\<close>




end
