(* ===== verification/Asio_Reactor.thy ===== *)
theory Asio_Reactor
  imports Asio_Scheduler Asio_Socket_Ops Asio_Timer_Queue
begin

unbundle bit_operations_syntax

text \<open>
  The reactor of asio on Linux: \<open>src/3rd/asio/include/asio/detail/impl/epoll_reactor.ipp\<close> and
  \<open>detail/epoll_reactor.hpp\<close>, the operations it performs (\<open>detail/reactor_op.hpp\<close>,
  \<open>detail/reactive_socket_send_op.hpp\<close>, \<open>detail/reactive_socket_recv_op.hpp\<close>) and the socket service that
  starts them (\<open>detail/impl/reactive_socket_service_base.ipp\<close>). A descriptor state and an operation are
  addresses into maps of records; each function is the piece of code that runs under the mutex it takes. The
  pool of descriptor states is its two lists. What an operation does when it is performed is a
  parameter \<open>perform\<close>, and so is \<open>epoll_ctl\<close>; both act on a state \<open>'w\<close> of the environment.
\<close>

section \<open>Operations\<close>

datatype op_status = Not_Done | Done | Done_And_Exhausted

record rop =
  ro_ec :: error_code
  ro_bytes :: nat

definition reactor_op_ctor :: rop where
  "reactor_op_ctor = \<lparr> ro_ec = None, ro_bytes = 0 \<rparr>"

type_synonym 'w perform = "nat \<Rightarrow> rop \<Rightarrow> 'w \<Rightarrow> op_status \<times> rop \<times> 'w"

text \<open>\<open>do_perform\<close> of a send and of a receive; the buffers are those of a \<open>buffer_sequence_adapter\<close>, at most
  64 of the sequence; a sequence whose type is a single buffer takes the calls for one buffer.\<close>

definition max_buffers :: nat where
  "max_buffers = 64"

definition adapter_buffers :: "abuf list \<Rightarrow> abuf list" where
  "adapter_buffers bs = take max_buffers bs"

definition adapter_all_empty :: "abuf list \<Rightarrow> bool" where
  "adapter_all_empty bs = list_all (\<lambda>b. ab_size b = 0) (take max_buffers bs)"

definition send_do_perform ::
    "'s os \<Rightarrow> int \<Rightarrow> state_type \<Rightarrow> bool \<Rightarrow> abuf list \<Rightarrow> nat \<Rightarrow> rop \<Rightarrow> 's \<Rightarrow> (op_status \<times> rop \<times> 's) option" where
  "send_do_perform os s state is_single_buffer bs flags ro w =
     (case (if is_single_buffer then non_blocking_send1 os s (hd bs) flags (ro_bytes ro) w
            else non_blocking_send os s (adapter_buffers bs) flags (ro_bytes ro) w) of
        None \<Rightarrow> None
      | Some ((finished, ec, bytes), w) \<Rightarrow>
          let total_size = (if is_single_buffer then ab_size (hd bs) else buffer_size (adapter_buffers bs));
              result = (if finished then Done else Not_Done);
              result = (if result = Done \<and> has state stream_oriented \<and> bytes < total_size
                        then Done_And_Exhausted else result)
          in Some (result, \<lparr> ro_ec = ec, ro_bytes = bytes \<rparr>, w))"

definition recv_do_perform ::
    "'s os \<Rightarrow> int \<Rightarrow> state_type \<Rightarrow> bool \<Rightarrow> abuf list \<Rightarrow> nat \<Rightarrow> rop \<Rightarrow> 's \<Rightarrow> (op_status \<times> rop \<times> 's) option" where
  "recv_do_perform os s state is_single_buffer bs flags ro w =
     (case (if is_single_buffer
            then non_blocking_recv1 os s (hd bs) flags (has state stream_oriented) (ro_bytes ro) w
            else non_blocking_recv os s (adapter_buffers bs) flags (has state stream_oriented) (ro_bytes ro) w) of
        None \<Rightarrow> None
      | Some ((finished, ec, bytes), w) \<Rightarrow>
          let result = (if finished then Done else Not_Done);
              result = (if result = Done \<and> has state stream_oriented \<and> bytes = 0
                        then Done_And_Exhausted else result)
          in Some (result, \<lparr> ro_ec = ec, ro_bytes = bytes \<rparr>, w))"

definition connect_do_perform :: "'s os \<Rightarrow> int \<Rightarrow> rop \<Rightarrow> 's \<Rightarrow> op_status \<times> rop \<times> 's" where
  "connect_do_perform os s ro w =
     (case non_blocking_connect os s (ro_ec ro) w of ((finished, ec), w) \<Rightarrow>
        (if finished then Done else Not_Done, ro\<lparr>ro_ec := ec\<rparr>, w))"

section \<open>Descriptor states\<close>

datatype op_type = Read_Op | Write_Op | Except_Op

definition EPOLLIN :: "32 word" where "EPOLLIN = 1"
definition EPOLLPRI :: "32 word" where "EPOLLPRI = 2"
definition EPOLLOUT :: "32 word" where "EPOLLOUT = 4"
definition EPOLLERR :: "32 word" where "EPOLLERR = 8"
definition EPOLLHUP :: "32 word" where "EPOLLHUP = 16"
definition EPOLLET :: "32 word" where "EPOLLET = 0x80000000"

lemmas epoll_bits = EPOLLIN_def EPOLLPRI_def EPOLLOUT_def EPOLLERR_def EPOLLHUP_def EPOLLET_def

fun event_flag :: "op_type \<Rightarrow> 32 word" where
  "event_flag Read_Op = EPOLLIN"
| "event_flag Write_Op = EPOLLOUT"
| "event_flag Except_Op = EPOLLPRI"

record descriptor_state =
  ds_descriptor :: int
  ds_registered_events :: "32 word"
  ds_queue :: "op_type \<Rightarrow> nat list"
  ds_speculative :: "op_type \<Rightarrow> bool"
  ds_shutdown :: bool
  ds_task_result :: "32 word"

datatype ctl_op = Ctl_Add | Ctl_Mod | Ctl_Del

type_synonym 'w ctl = "ctl_op \<Rightarrow> int \<Rightarrow> 32 word \<Rightarrow> nat \<Rightarrow> 'w sys_call"

text \<open>The reactor: the scheduler it posts to, the thread that calls it, its pool of descriptor states, the
  operations and the environment.\<close>

record 'w reactor =
  er_sched :: sched
  er_thread :: thread_info
  er_inside :: bool
  er_states :: "nat \<Rightarrow> descriptor_state"
  er_live :: "nat list"
  er_free :: "nat list"
  er_fresh :: nat
  er_ops :: "nat \<Rightarrow> rop"
  er_shutdown :: bool
  er_timer_fd :: bool
  er_timers :: "timer_queue list"
  er_aborted :: "nat list"
  er_world :: 'w

definition upd_state :: "nat \<Rightarrow> (descriptor_state \<Rightarrow> descriptor_state) \<Rightarrow> 'w reactor \<Rightarrow> 'w reactor" where
  "upd_state p f r = r\<lparr>er_states := (er_states r)(p := f (er_states r p))\<rparr>"

definition set_ec :: "nat \<Rightarrow> error_code \<Rightarrow> 'w reactor \<Rightarrow> 'w reactor" where
  "set_ec op ec r = r\<lparr>er_ops := (er_ops r)(op := (er_ops r op)\<lparr>ro_ec := ec\<rparr>)\<rparr>"

definition er_post_immediate :: "nat \<Rightarrow> bool \<Rightarrow> 'w reactor \<Rightarrow> 'w reactor" where
  "er_post_immediate op is_continuation r =
     (case post_immediate_completion (er_sched r) (er_thread r) (er_inside r) op is_continuation of
        (s, th) \<Rightarrow> r\<lparr>er_sched := s, er_thread := th\<rparr>)"

definition er_post_deferred :: "nat list \<Rightarrow> 'w reactor \<Rightarrow> 'w reactor" where
  "er_post_deferred ops r =
     (case post_deferred_completions (er_sched r) (er_thread r) (er_inside r) ops of
        (s, th) \<Rightarrow> r\<lparr>er_sched := s, er_thread := th\<rparr>)"

definition er_work_started :: "'w reactor \<Rightarrow> 'w reactor" where
  "er_work_started r = r\<lparr>er_sched := work_started (er_sched r)\<rparr>"

definition compensating_work_started :: "'w reactor \<Rightarrow> 'w reactor" where
  "compensating_work_started r =
     r\<lparr>er_thread := (er_thread r)\<lparr>th_private_work := th_private_work (er_thread r) + 1\<rparr>\<rparr>"

section \<open>Registration\<close>

text \<open>\<open>object_pool::alloc\<close> and \<open>object_pool::free\<close> on the two lists of the pool.\<close>

definition allocate_descriptor_state :: "'w reactor \<Rightarrow> nat \<times> 'w reactor" where
  "allocate_descriptor_state r =
     (case er_free r of
        p # ps \<Rightarrow> (p, r\<lparr>er_free := ps, er_live := p # er_live r\<rparr>)
      | [] \<Rightarrow> (er_fresh r, r\<lparr>er_fresh := er_fresh r + 1, er_live := er_fresh r # er_live r,
                  er_states := (er_states r)(er_fresh r := (er_states r (er_fresh r))\<lparr>ds_queue := (\<lambda>_. [])\<rparr>)\<rparr>))"

definition free_descriptor_state :: "nat \<Rightarrow> 'w reactor \<Rightarrow> 'w reactor" where
  "free_descriptor_state p r = r\<lparr>er_live := remove1 p (er_live r), er_free := p # er_free r\<rparr>"

definition reset_ds :: "int \<Rightarrow> 32 word \<Rightarrow> descriptor_state \<Rightarrow> descriptor_state" where
  "reset_ds descriptor events d =
     d\<lparr>ds_descriptor := descriptor, ds_shutdown := False, ds_speculative := (\<lambda>_. True),
       ds_registered_events := events\<rparr>"

definition register_descriptor :: "'w ctl \<Rightarrow> int \<Rightarrow> 'w reactor \<Rightarrow> nat \<times> nat \<times> 'w reactor" where
  "register_descriptor ctl descriptor r =
     (case allocate_descriptor_state r of (p, r) \<Rightarrow>
        let events = EPOLLIN OR EPOLLERR OR EPOLLHUP OR EPOLLPRI OR EPOLLET;
            r = upd_state p (reset_ds descriptor events) r
        in (case ctl Ctl_Add descriptor events p (er_world r) of ((result, errno), w) \<Rightarrow>
              let r = r\<lparr>er_world := w\<rparr> in
              if result \<noteq> 0 then
                if errno = E_PERM then (0, p, upd_state p (\<lambda>d. d\<lparr>ds_registered_events := 0\<rparr>) r)
                else (errno, p, r)
              else (0, p, r)))"

definition register_internal_descriptor ::
    "'w ctl \<Rightarrow> op_type \<Rightarrow> int \<Rightarrow> nat \<Rightarrow> 'w reactor \<Rightarrow> nat \<times> nat \<times> 'w reactor" where
  "register_internal_descriptor ctl ty descriptor op r =
     (case allocate_descriptor_state r of (p, r) \<Rightarrow>
        let events = EPOLLIN OR EPOLLERR OR EPOLLHUP OR EPOLLPRI OR EPOLLET;
            r = upd_state p (\<lambda>d. (reset_ds descriptor events d)
                  \<lparr>ds_queue := (ds_queue d)(ty := ds_queue d ty @ [op])\<rparr>) r
        in (case ctl Ctl_Add descriptor events p (er_world r) of ((result, errno), w) \<Rightarrow>
              (if result \<noteq> 0 then errno else 0, p, r\<lparr>er_world := w\<rparr>)))"

section \<open>Starting an operation\<close>

definition enqueue_op :: "op_type \<Rightarrow> nat \<Rightarrow> nat \<Rightarrow> 'w reactor \<Rightarrow> 'w reactor" where
  "enqueue_op ty p op r =
     er_work_started (upd_state p (\<lambda>d. d\<lparr>ds_queue := (ds_queue d)(ty := ds_queue d ty @ [op])\<rparr>) r)"

text \<open>The registration for writing that the first write operation needs; \<open>None\<close> when it succeeds.\<close>

definition add_write_event :: "'w ctl \<Rightarrow> int \<Rightarrow> nat \<Rightarrow> 'w reactor \<Rightarrow> error_code \<times> 'w reactor" where
  "add_write_event ctl descriptor p r =
     (let d = er_states r p in
      if ds_registered_events d AND EPOLLOUT = 0 then
        let events = ds_registered_events d OR EPOLLOUT in
        (case ctl Ctl_Mod descriptor events p (er_world r) of ((result, errno), w) \<Rightarrow>
           let r = r\<lparr>er_world := w\<rparr> in
           if result = 0
           then (None, upd_state p (\<lambda>d. d\<lparr>ds_registered_events := ds_registered_events d OR events\<rparr>) r)
           else (sys_error errno, r))
      else (None, r))"

definition er_start_op ::
    "'w ctl \<Rightarrow> 'w perform \<Rightarrow> op_type \<Rightarrow> int \<Rightarrow> nat option \<Rightarrow> nat \<Rightarrow> bool \<Rightarrow> bool \<Rightarrow> 'w reactor \<Rightarrow> 'w reactor" where
  "er_start_op ctl perform ty descriptor data op is_continuation allow_speculative r =
     (case data of
        None \<Rightarrow> er_post_immediate op is_continuation (set_ec op (basic bad_descriptor) r)
      | Some p \<Rightarrow>
          let d = er_states r p in
          if ds_shutdown d then er_post_immediate op is_continuation r
          else if ds_queue d ty \<noteq> [] then enqueue_op ty p op r
          else if allow_speculative \<and> (ty \<noteq> Read_Op \<or> ds_queue d Except_Op = []) then
            (case (if ds_speculative d ty then
                     (case perform op (er_ops r op) (er_world r) of (st, ro, w) \<Rightarrow>
                        (st, r\<lparr>er_ops := (er_ops r)(op := ro), er_world := w\<rparr>))
                   else (Not_Done, r)) of (st, r) \<Rightarrow>
               if st \<noteq> Not_Done then
                 er_post_immediate op is_continuation
                   (if st = Done_And_Exhausted \<and> ds_registered_events d \<noteq> 0
                    then upd_state p (\<lambda>d. d\<lparr>ds_speculative := (ds_speculative d)(ty := False)\<rparr>) r else r)
               else if ds_registered_events d = 0 then
                 er_post_immediate op is_continuation (set_ec op (basic operation_not_supported) r)
               else if ty = Write_Op then
                 (case add_write_event ctl descriptor p r of (ec, r) \<Rightarrow>
                    if ec = None then enqueue_op ty p op r
                    else er_post_immediate op is_continuation (set_ec op ec r))
               else enqueue_op ty p op r)
          else if ds_registered_events d = 0 then
            er_post_immediate op is_continuation (set_ec op (basic operation_not_supported) r)
          else
            let r = (if ty = Write_Op
                     then upd_state p (\<lambda>d. d\<lparr>ds_registered_events := ds_registered_events d OR EPOLLOUT\<rparr>) r else r)
            in (case ctl Ctl_Mod descriptor (ds_registered_events (er_states r p)) p (er_world r) of (_, w) \<Rightarrow>
                  enqueue_op ty p op (r\<lparr>er_world := w\<rparr>)))"

section \<open>Performing\<close>

text \<open>The loop over one queue: the operations that completed, those that stay, the operations and the
  environment afterwards, and whether the next operation may be tried at once.\<close>

fun perform_loop ::
    "'w perform \<Rightarrow> nat list \<Rightarrow> (nat \<Rightarrow> rop) \<Rightarrow> 'w \<Rightarrow> nat list \<times> nat list \<times> (nat \<Rightarrow> rop) \<times> 'w \<times> bool" where
  "perform_loop perform [] h w = ([], [], h, w, True)"
| "perform_loop perform (op # q) h w =
     (case perform op (h op) w of (st, ro, w) \<Rightarrow>
        let h = h(op := ro) in
        (case st of
           Not_Done \<Rightarrow> ([], op # q, h, w, True)
         | Done_And_Exhausted \<Rightarrow> ([op], q, h, w, False)
         | Done \<Rightarrow> (case perform_loop perform q h w of (out, left, h, w, sp) \<Rightarrow> (op # out, left, h, w, sp))))"

definition perform_type ::
    "'w perform \<Rightarrow> nat \<Rightarrow> 32 word \<Rightarrow> op_type \<Rightarrow> nat list \<times> 'w reactor \<Rightarrow> nat list \<times> 'w reactor" where
  "perform_type perform p events ty x =
     (case x of (ops, r) \<Rightarrow>
        if events AND (event_flag ty OR EPOLLERR OR EPOLLHUP) \<noteq> 0 then
          (case perform_loop perform (ds_queue (er_states r p) ty) (er_ops r) (er_world r) of (out, left, h, w, sp) \<Rightarrow>
             (ops @ out, upd_state p (\<lambda>d. d\<lparr>ds_queue := (ds_queue d)(ty := left),
                ds_speculative := (ds_speculative d)(ty := sp)\<rparr>) (r\<lparr>er_ops := h, er_world := w\<rparr>)))
        else (ops, r))"

definition perform_io :: "'w perform \<Rightarrow> nat \<Rightarrow> 32 word \<Rightarrow> 'w reactor \<Rightarrow> nat option \<times> 'w reactor" where
  "perform_io perform p events r =
     (case perform_type perform p events Read_Op
            (perform_type perform p events Write_Op
              (perform_type perform p events Except_Op ([], r))) of (ops, r) \<Rightarrow>
        (case ops of
           [] \<Rightarrow> (None, compensating_work_started r)
         | op # rest \<Rightarrow> (Some op, if rest \<noteq> [] then er_post_deferred rest r else r)))"

section \<open>Cancelling and deregistering\<close>

text \<open>The three queues, in their order, with every operation marked as aborted.\<close>

definition take_ops :: "nat \<Rightarrow> 'w reactor \<Rightarrow> nat list \<times> 'w reactor" where
  "take_ops p r =
     (let q = ds_queue (er_states r p); ops = q Read_Op @ q Write_Op @ q Except_Op
      in (ops, upd_state p (\<lambda>d. d\<lparr>ds_queue := (\<lambda>_. [])\<rparr>) (fold (\<lambda>op. set_ec op (basic operation_aborted)) ops r)))"

definition cancel_ops :: "nat option \<Rightarrow> 'w reactor \<Rightarrow> 'w reactor" where
  "cancel_ops data r =
     (case data of
        None \<Rightarrow> r
      | Some p \<Rightarrow> (case take_ops p r of (ops, r) \<Rightarrow> er_post_deferred ops r))"

definition deregister_descriptor ::
    "'w ctl \<Rightarrow> int \<Rightarrow> nat option \<Rightarrow> bool \<Rightarrow> 'w reactor \<Rightarrow> nat option \<times> 'w reactor" where
  "deregister_descriptor ctl descriptor data closing r =
     (case data of
        None \<Rightarrow> (None, r)
      | Some p \<Rightarrow>
          if \<not> ds_shutdown (er_states r p) then
            let r = (if \<not> closing \<and> ds_registered_events (er_states r p) \<noteq> 0
                     then r\<lparr>er_world := snd (ctl Ctl_Del descriptor 0 p (er_world r))\<rparr> else r)
            in (case take_ops p r of (ops, r) \<Rightarrow>
                  (Some p, er_post_deferred ops
                    (upd_state p (\<lambda>d. d\<lparr>ds_descriptor := - 1, ds_shutdown := True\<rparr>) r)))
          else (None, r))"

definition deregister_internal_descriptor ::
    "'w ctl \<Rightarrow> int \<Rightarrow> nat option \<Rightarrow> 'w reactor \<Rightarrow> nat option \<times> 'w reactor" where
  "deregister_internal_descriptor ctl descriptor data r =
     (case data of
        None \<Rightarrow> (None, r)
      | Some p \<Rightarrow>
          if \<not> ds_shutdown (er_states r p) then
            let r = r\<lparr>er_world := snd (ctl Ctl_Del descriptor 0 p (er_world r))\<rparr>;
                q = ds_queue (er_states r p);
                r = r\<lparr>er_aborted := er_aborted r @ q Read_Op @ q Write_Op @ q Except_Op\<rparr>
            in (Some p, upd_state p (\<lambda>d. d\<lparr>ds_queue := (\<lambda>_. []), ds_descriptor := - 1, ds_shutdown := True\<rparr>) r)
          else (None, r))"

definition cleanup_descriptor_data :: "nat option \<Rightarrow> 'w reactor \<Rightarrow> 'w reactor" where
  "cleanup_descriptor_data data r = (case data of None \<Rightarrow> r | Some p \<Rightarrow> free_descriptor_state p r)"

section \<open>Timers\<close>

definition get_timeout_msec :: "nat \<Rightarrow> nat \<Rightarrow> int \<Rightarrow> timer_queue list \<Rightarrow> int \<Rightarrow> int res" where
  "get_timeout_msec pnum pden now qs msec =
     (let max_msec = 5 * 60 * 1000 in
      fold (\<lambda>q d. bind_res d (wait_duration_msec pnum pden now q)) qs
        (Inr (if msec < 0 \<or> max_msec < msec then max_msec else msec)))"

text \<open>The expiry for the timer descriptor: seconds, nanoseconds, and whether it is absolute.\<close>

definition get_timeout_spec :: "nat \<Rightarrow> nat \<Rightarrow> int \<Rightarrow> timer_queue list \<Rightarrow> (int \<times> int \<times> bool) res" where
  "get_timeout_spec pnum pden now qs =
     bind_res (fold (\<lambda>q d. bind_res d (wait_duration_usec pnum pden now q)) qs (Inr (5 * 60 * 1000 * 1000)))
       (\<lambda>usec. Inr (c_quot usec 1000000, if usec \<noteq> 0 then c_rem usec 1000000 * 1000 else 1, usec = 0))"

definition schedule_timer :: "nat \<Rightarrow> int \<Rightarrow> nat \<Rightarrow> nat \<Rightarrow> 'w reactor \<Rightarrow> bool \<times> 'w reactor" where
  "schedule_timer i time timer op r =
     (if er_shutdown r then (False, er_post_immediate op False r)
      else (case enqueue_timer (er_timers r ! i) time timer op of (q, earliest) \<Rightarrow>
        (earliest, er_work_started (r\<lparr>er_timers := (er_timers r)[i := q]\<rparr>))))"

definition er_cancel_timer :: "nat \<Rightarrow> nat \<Rightarrow> nat \<Rightarrow> 'w reactor \<Rightarrow> nat \<times> 'w reactor" where
  "er_cancel_timer i timer max_cancelled r =
     (case cancel_timer (er_timers r ! i) timer [] max_cancelled of (q, ops, n) \<Rightarrow>
        (n, er_post_deferred ops (r\<lparr>er_timers := (er_timers r)[i := q]\<rparr>)))"

definition er_move_timer :: "nat \<Rightarrow> nat \<Rightarrow> nat \<Rightarrow> 'w reactor \<Rightarrow> 'w reactor" where
  "er_move_timer i target source r =
     (case cancel_timer (er_timers r ! i) target [] size_t_max of (q, ops, _) \<Rightarrow>
        er_post_deferred ops (r\<lparr>er_timers := (er_timers r)[i := move_timer q target source]\<rparr>))"

section \<open>Running\<close>

definition run_timeout :: "nat \<Rightarrow> nat \<Rightarrow> int \<Rightarrow> int \<Rightarrow> 'w reactor \<Rightarrow> int res" where
  "run_timeout pnum pden now usec r =
     (if usec = 0 then Inr 0
      else
        let timeout = (if usec < 0 then - 1 else c_quot (usec - 1) 1000 + 1) in
        if \<not> er_timer_fd r then get_timeout_msec pnum pden now (er_timers r) timeout else Inr timeout)"

datatype epoll_ptr = Ptr_Interrupter | Ptr_Timer | Ptr_State nat

datatype run_item = It_State nat | It_Op nat

definition dispatch_event ::
    "epoll_ptr \<times> 32 word \<Rightarrow> bool \<times> run_item list \<times> 'w reactor \<Rightarrow> bool \<times> run_item list \<times> 'w reactor" where
  "dispatch_event ev x =
     (case (ev, x) of ((ptr, events), (check_timers, ops, r)) \<Rightarrow>
        (case ptr of
           Ptr_Interrupter \<Rightarrow> (check_timers \<or> \<not> er_timer_fd r, ops, r)
         | Ptr_Timer \<Rightarrow> (True, ops, r)
         | Ptr_State p \<Rightarrow>
             if It_State p \<notin> set ops
             then (check_timers, ops @ [It_State p], upd_state p (\<lambda>d. d\<lparr>ds_task_result := events\<rparr>) r)
             else (check_timers, ops, upd_state p (\<lambda>d. d\<lparr>ds_task_result := ds_task_result d OR events\<rparr>) r)))"

fun ready_timers :: "int \<Rightarrow> timer_queue list \<Rightarrow> nat list \<Rightarrow> (timer_queue list \<times> nat list) option" where
  "ready_timers now [] ops = Some ([], ops)"
| "ready_timers now (q # qs) ops =
     (case get_ready_timers now q ops of
        None \<Rightarrow> None
      | Some (q, ops) \<Rightarrow> (case ready_timers now qs ops of None \<Rightarrow> None | Some (qs, ops) \<Rightarrow> Some (q # qs, ops)))"

definition er_run ::
    "int \<Rightarrow> (epoll_ptr \<times> 32 word) list \<Rightarrow> 'w reactor \<Rightarrow> (run_item list \<times> 'w reactor) option" where
  "er_run now events r =
     (case fold dispatch_event events (\<not> er_timer_fd r, [], r) of (check_timers, ops, r) \<Rightarrow>
        if check_timers then
          (case ready_timers now (er_timers r) [] of
             None \<Rightarrow> None
           | Some (qs, ts) \<Rightarrow> Some (ops @ map It_Op ts, r\<lparr>er_timers := qs\<rparr>))
        else Some (ops, r))"

text \<open>\<open>descriptor_state::do_complete\<close>, which the scheduler calls with the events of \<open>run\<close>, followed by the
  completion of the returned operation and by the \<open>work_finished\<close> of the scheduler.\<close>

definition complete_state :: "'w perform \<Rightarrow> nat \<Rightarrow> 'w reactor \<Rightarrow> nat option \<times> 'w reactor" where
  "complete_state perform p r = perform_io perform p (ds_task_result (er_states r p)) r"

section \<open>Shutting down\<close>

text \<open>The loop over the live descriptor states; the operations go to \<open>abandon_operations\<close>, which destroys
  them.\<close>

definition shutdown_states :: "'w reactor \<Rightarrow> nat list \<times> 'w reactor" where
  "shutdown_states r =
     fold (\<lambda>p (ops, r).
        let q = ds_queue (er_states r p)
        in (ops @ q Read_Op @ q Write_Op @ q Except_Op,
            free_descriptor_state p (upd_state p (\<lambda>d. d\<lparr>ds_queue := (\<lambda>_. []), ds_shutdown := True\<rparr>) r)))
       (er_live r) ([], r)"

fun all_timers :: "timer_queue list \<Rightarrow> nat list \<Rightarrow> (timer_queue list \<times> nat list) option" where
  "all_timers [] ops = Some ([], ops)"
| "all_timers (q # qs) ops =
     (case get_all_timers q ops of
        None \<Rightarrow> None
      | Some (q, ops) \<Rightarrow> (case all_timers qs ops of None \<Rightarrow> None | Some (qs, ops) \<Rightarrow> Some (q # qs, ops)))"

definition er_shutdown_reactor :: "'w reactor \<Rightarrow> 'w reactor option" where
  "er_shutdown_reactor r =
     (case shutdown_states (r\<lparr>er_shutdown := True\<rparr>) of (ops, r) \<Rightarrow>
        (case all_timers (er_timers r) ops of
           None \<Rightarrow> None
         | Some (qs, ops) \<Rightarrow> Some (r\<lparr>er_timers := qs, er_aborted := er_aborted r @ ops\<rparr>)))"

section \<open>The socket service\<close>

record socket_impl =
  si_socket :: int
  si_state :: state_type
  si_reactor_data :: "nat option"

definition svc_construct :: "socket_impl \<Rightarrow> socket_impl" where
  "svc_construct impl = impl\<lparr>si_socket := invalid_socket, si_state := 0\<rparr>"

definition svc_is_open :: "socket_impl \<Rightarrow> bool" where
  "svc_is_open impl \<longleftrightarrow> si_socket impl \<noteq> invalid_socket"

definition socket_kind :: "int \<Rightarrow> state_type" where
  "socket_kind type = (if type = 1 then stream_oriented else if type = 2 then datagram_oriented else 0)"

definition svc_do_open ::
    "'w os \<Rightarrow> 'w ctl \<Rightarrow> int \<Rightarrow> int \<Rightarrow> int \<Rightarrow> socket_impl \<Rightarrow> 'w reactor \<Rightarrow> error_code \<times> socket_impl \<times> 'w reactor" where
  "svc_do_open os ctl af type protocol impl r =
     (if svc_is_open impl then (misc already_open, impl, r)
      else (case so_socket os af type protocol (er_world r) of ((s, ec), w) \<Rightarrow>
        let r = r\<lparr>er_world := w\<rparr> in
        if s = invalid_socket then (ec, impl, r)
        else (case register_descriptor ctl s r of (err, p, r) \<Rightarrow>
          let impl = impl\<lparr>si_reactor_data := Some p\<rparr> in
          if err \<noteq> 0 then (sys_error err, impl, r\<lparr>er_world := snd (so_close os s 0 True None (er_world r))\<rparr>)
          else (None, impl\<lparr>si_socket := s, si_state := socket_kind type\<rparr>, r))))"

definition svc_do_assign ::
    "'w ctl \<Rightarrow> int \<Rightarrow> int \<Rightarrow> socket_impl \<Rightarrow> 'w reactor \<Rightarrow> error_code \<times> socket_impl \<times> 'w reactor" where
  "svc_do_assign ctl type native_socket impl r =
     (if svc_is_open impl then (misc already_open, impl, r)
      else (case register_descriptor ctl native_socket r of (err, p, r) \<Rightarrow>
        let impl = impl\<lparr>si_reactor_data := Some p\<rparr> in
        if err \<noteq> 0 then (sys_error err, impl, r)
        else (None, impl\<lparr>si_socket := native_socket, si_state := socket_kind type OR possible_dup\<rparr>, r)))"

definition svc_close ::
    "'w os \<Rightarrow> 'w ctl \<Rightarrow> socket_impl \<Rightarrow> 'w reactor \<Rightarrow> error_code \<times> socket_impl \<times> 'w reactor" where
  "svc_close os ctl impl r =
     (if svc_is_open impl then
        (case deregister_descriptor ctl (si_socket impl) (si_reactor_data impl)
               (\<not> has (si_state impl) possible_dup) r of (data, r) \<Rightarrow>
         (case so_close os (si_socket impl) (si_state impl) False None (er_world r) of ((_, ec, state), w) \<Rightarrow>
            (ec, svc_construct (impl\<lparr>si_reactor_data := None\<rparr>), cleanup_descriptor_data data (r\<lparr>er_world := w\<rparr>))))
      else (None, svc_construct impl, r))"

definition svc_destroy :: "'w os \<Rightarrow> 'w ctl \<Rightarrow> socket_impl \<Rightarrow> 'w reactor \<Rightarrow> socket_impl \<times> 'w reactor" where
  "svc_destroy os ctl impl r =
     (if si_socket impl \<noteq> invalid_socket then
        (case deregister_descriptor ctl (si_socket impl) (si_reactor_data impl)
               (\<not> has (si_state impl) possible_dup) r of (data, r) \<Rightarrow>
         (case so_close os (si_socket impl) (si_state impl) True None (er_world r) of ((_, _, state), w) \<Rightarrow>
            (impl\<lparr>si_state := state, si_reactor_data := None\<rparr>, cleanup_descriptor_data data (r\<lparr>er_world := w\<rparr>))))
      else (impl, r))"

text \<open>The new object and what is left of the other one.\<close>

definition svc_move_construct :: "socket_impl \<Rightarrow> socket_impl \<Rightarrow> socket_impl \<times> socket_impl" where
  "svc_move_construct impl other =
     (impl\<lparr>si_socket := si_socket other, si_state := si_state other, si_reactor_data := si_reactor_data other\<rparr>,
      other\<lparr>si_socket := invalid_socket, si_state := 0, si_reactor_data := None\<rparr>)"

definition svc_move_assign ::
    "'w os \<Rightarrow> 'w ctl \<Rightarrow> socket_impl \<Rightarrow> socket_impl \<Rightarrow> 'w reactor \<Rightarrow> (socket_impl \<times> socket_impl) \<times> 'w reactor" where
  "svc_move_assign os ctl impl other r =
     (case svc_destroy os ctl impl r of (impl, r) \<Rightarrow> (svc_move_construct impl other, r))"

definition svc_release :: "'w ctl \<Rightarrow> socket_impl \<Rightarrow> 'w reactor \<Rightarrow> (int \<times> error_code) \<times> socket_impl \<times> 'w reactor" where
  "svc_release ctl impl r =
     (if \<not> svc_is_open impl then ((invalid_socket, basic bad_descriptor), impl, r)
      else (case deregister_descriptor ctl (si_socket impl) (si_reactor_data impl) False r of (data, r) \<Rightarrow>
        ((si_socket impl, None), svc_construct (impl\<lparr>si_reactor_data := None\<rparr>), cleanup_descriptor_data data r)))"

definition svc_cancel :: "socket_impl \<Rightarrow> 'w reactor \<Rightarrow> error_code \<times> 'w reactor" where
  "svc_cancel impl r =
     (if \<not> svc_is_open impl then (basic bad_descriptor, r)
      else (None, cancel_ops (si_reactor_data impl) r))"

definition svc_start_op ::
    "'w os \<Rightarrow> 'w ctl \<Rightarrow> 'w perform \<Rightarrow> op_type \<Rightarrow> nat \<Rightarrow> bool \<Rightarrow> bool \<Rightarrow> bool \<Rightarrow> socket_impl \<Rightarrow> 'w reactor \<Rightarrow>
     socket_impl \<times> 'w reactor" where
  "svc_start_op os ctl perform ty op is_continuation is_non_blocking noop impl r =
     (if \<not> noop then
        (case (if has (si_state impl) non_blocking then ((True, ro_ec (er_ops r op), si_state impl), er_world r)
               else set_internal_non_blocking os (si_socket impl) (si_state impl) True (er_world r)) of
           ((ready, ec, state), w) \<Rightarrow>
             let r = set_ec op ec (r\<lparr>er_world := w\<rparr>); impl = impl\<lparr>si_state := state\<rparr> in
             if ready
             then (impl, er_start_op ctl perform ty (si_socket impl) (si_reactor_data impl) op is_continuation is_non_blocking r)
             else (impl, er_post_immediate op is_continuation r))
      else (impl, er_post_immediate op is_continuation r))"

definition svc_start_accept_op ::
    "'w os \<Rightarrow> 'w ctl \<Rightarrow> 'w perform \<Rightarrow> nat \<Rightarrow> bool \<Rightarrow> bool \<Rightarrow> socket_impl \<Rightarrow> 'w reactor \<Rightarrow> socket_impl \<times> 'w reactor" where
  "svc_start_accept_op os ctl perform op is_continuation peer_is_open impl r =
     (if \<not> peer_is_open then svc_start_op os ctl perform Read_Op op is_continuation True False impl r
      else (impl, er_post_immediate op is_continuation (set_ec op (misc already_open) r)))"

definition svc_start_connect_op ::
    "'w os \<Rightarrow> 'w ctl \<Rightarrow> 'w perform \<Rightarrow> nat \<Rightarrow> bool \<Rightarrow> socket_impl \<Rightarrow> 'w reactor \<Rightarrow> socket_impl \<times> 'w reactor" where
  "svc_start_connect_op os ctl perform op is_continuation impl r =
     (case (if has (si_state impl) non_blocking then ((True, ro_ec (er_ops r op), si_state impl), er_world r)
            else set_internal_non_blocking os (si_socket impl) (si_state impl) True (er_world r)) of
        ((ready, ec, state), w) \<Rightarrow>
          let r = set_ec op ec (r\<lparr>er_world := w\<rparr>); impl = impl\<lparr>si_state := state\<rparr> in
          if ready then
            (case so_connect os (si_socket impl) (er_world r) of ((result, ec), w) \<Rightarrow>
               let r = set_ec op ec (r\<lparr>er_world := w\<rparr>) in
               if result \<noteq> 0 \<and> (ec = basic in_progress \<or> ec = basic would_block)
               then (impl, er_start_op ctl perform Write_Op (si_socket impl) (si_reactor_data impl) op is_continuation False
                             (set_ec op None r))
               else (impl, er_post_immediate op is_continuation r))
          else (impl, er_post_immediate op is_continuation r))"

section \<open>Where the operations are\<close>

text \<open>The operations that wait on a descriptor, on any descriptor, and for their handlers; and the work the
  scheduler counts, the part the calling thread keeps private included.\<close>

definition ds_ops :: "descriptor_state \<Rightarrow> nat list" where
  "ds_ops d = ds_queue d Read_Op @ ds_queue d Write_Op @ ds_queue d Except_Op"

definition queued_ops :: "'w reactor \<Rightarrow> nat multiset" where
  "queued_ops r = (\<Sum>p<er_fresh r. mset (ds_ops (er_states r p)))"

definition posted_ops :: "'w reactor \<Rightarrow> nat multiset" where
  "posted_ops r = queue_ops (er_sched r) + mset (th_private_queue (er_thread r))"

definition er_work :: "'w reactor \<Rightarrow> int" where
  "er_work r = sc_outstanding_work (er_sched r) + th_private_work (er_thread r)"

text \<open>Every state of the pool is in exactly one of its lists, a free one has nothing queued, and neither has one
  that is shut down.\<close>

definition er_inv :: "'w reactor \<Rightarrow> bool" where
  "er_inv r \<longleftrightarrow> distinct (er_live r @ er_free r) \<and> set (er_live r @ er_free r) = {..<er_fresh r} \<and>
     (\<forall>p \<in> set (er_free r). ds_ops (er_states r p) = []) \<and>
     (\<forall>p < er_fresh r. ds_shutdown (er_states r p) \<longrightarrow> ds_ops (er_states r p) = [])"

text \<open>A call that takes in the operations \<open>A\<close> and hands out the operations \<open>B\<close> accounts for both.\<close>

definition accounts :: "nat multiset \<Rightarrow> nat multiset \<Rightarrow> 'w reactor \<Rightarrow> 'w reactor \<Rightarrow> bool" where
  "accounts A B r r' \<longleftrightarrow>
     queued_ops r' + posted_ops r' + B = queued_ops r + posted_ops r + A \<and>
     er_work r' - er_work r = int (size A) - int (size B)"

lemma accounts_refl [simp]: "accounts {#} {#} r r"
  by (simp add: accounts_def)

lemma accounts_trans: "accounts A B r r' \<Longrightarrow> accounts A' B' r' r'' \<Longrightarrow> accounts (A + A') (B + B') r r''"
  by (auto simp: accounts_def ac_simps)

lemma ds_ops_simps [simp]:
  "ds_ops (d\<lparr>ds_descriptor := x\<rparr>) = ds_ops d" "ds_ops (d\<lparr>ds_registered_events := e\<rparr>) = ds_ops d"
  "ds_ops (d\<lparr>ds_speculative := s\<rparr>) = ds_ops d" "ds_ops (d\<lparr>ds_shutdown := b\<rparr>) = ds_ops d"
  "ds_ops (d\<lparr>ds_task_result := t\<rparr>) = ds_ops d" "ds_ops (d\<lparr>ds_queue := (\<lambda>_. [])\<rparr>) = []"
  by (simp_all add: ds_ops_def)

text \<open>The parts of the reactor the accounts look at are exactly these.\<close>

definition same_places :: "'w reactor \<Rightarrow> 'w reactor \<Rightarrow> bool" where
  "same_places r r' \<longleftrightarrow> er_live r' = er_live r \<and> er_free r' = er_free r \<and> er_fresh r' = er_fresh r \<and>
     (\<forall>q. ds_ops (er_states r' q) = ds_ops (er_states r q) \<and> ds_shutdown (er_states r' q) = ds_shutdown (er_states r q)) \<and>
     er_sched r' = er_sched r \<and> er_thread r' = er_thread r"

lemma same_places_refl [simp]: "same_places r r"
  by (simp add: same_places_def)

lemma same_places_trans: "same_places r r' \<Longrightarrow> same_places r' r'' \<Longrightarrow> same_places r r''"
  by (simp add: same_places_def)

lemma same_places_inv: "same_places r r' \<Longrightarrow> er_inv r' = er_inv r"
  by (simp add: same_places_def er_inv_def)

lemma same_places_accounts: "same_places r r' \<Longrightarrow> accounts A B r' r'' = accounts A B r r''"
  by (simp add: same_places_def accounts_def queued_ops_def posted_ops_def er_work_def)

lemma same_places_simps [simp]:
  "same_places r (r\<lparr>er_world := w\<rparr>)" "same_places r (r\<lparr>er_ops := h\<rparr>)" "same_places r (set_ec op ec r)"
  "same_places r (r\<lparr>er_ops := h, er_world := w\<rparr>)"
  by (simp_all add: same_places_def set_ec_def)

lemma same_places_upd:
  "ds_ops (f (er_states r p)) = ds_ops (er_states r p) \<Longrightarrow>
   ds_shutdown (f (er_states r p)) = ds_shutdown (er_states r p) \<Longrightarrow> same_places r (upd_state p f r)"
  by (simp add: same_places_def upd_state_def)

text \<open>Posting.\<close>

lemma er_post_immediate_frame [simp]:
  "er_states (er_post_immediate op c r) = er_states r" "er_live (er_post_immediate op c r) = er_live r"
  "er_free (er_post_immediate op c r) = er_free r" "er_fresh (er_post_immediate op c r) = er_fresh r"
  "er_ops (er_post_immediate op c r) = er_ops r" "er_world (er_post_immediate op c r) = er_world r"
  by (simp_all add: er_post_immediate_def split: prod.split)

lemma er_post_deferred_frame [simp]:
  "er_states (er_post_deferred ops r) = er_states r" "er_live (er_post_deferred ops r) = er_live r"
  "er_free (er_post_deferred ops r) = er_free r" "er_fresh (er_post_deferred ops r) = er_fresh r"
  "er_ops (er_post_deferred ops r) = er_ops r" "er_world (er_post_deferred ops r) = er_world r"
  by (simp_all add: er_post_deferred_def split: prod.split)

lemma er_post_immediate_accounts: "accounts {#op#} {#} r (er_post_immediate op c r)"
  by (auto simp: accounts_def queued_ops_def posted_ops_def er_work_def er_post_immediate_def
        post_immediate_completion_def work_started_def queue_ops_def)

lemma er_post_deferred_posts:
  "posted_ops (er_post_deferred ops r) = posted_ops r + mset ops" "er_work (er_post_deferred ops r) = er_work r"
  by (auto simp: posted_ops_def er_work_def er_post_deferred_def post_deferred_completions_def queue_ops_def)

lemma er_inv_frame:
  "er_states r' = er_states r \<Longrightarrow> er_live r' = er_live r \<Longrightarrow> er_free r' = er_free r \<Longrightarrow> er_fresh r' = er_fresh r \<Longrightarrow>
   er_inv r' = er_inv r"
  by (simp add: er_inv_def)

lemma queued_ops_update:
  assumes "p < er_fresh r"
  shows "queued_ops (upd_state p f r) + mset (ds_ops (er_states r p)) =
    queued_ops r + mset (ds_ops (f (er_states r p)))"
proof -
  have split: "(\<Sum>q<er_fresh r. g q) = g p + (\<Sum>q\<in>{..<er_fresh r} - {p}. g q)" for g :: "nat \<Rightarrow> nat multiset"
    using assms by (simp add: sum.remove)
  show ?thesis by (simp add: queued_ops_def upd_state_def split ac_simps)
qed

lemma er_inv_update:
  assumes "er_inv r" "p \<in> set (er_live r)"
    and "ds_shutdown (f (er_states r p)) \<Longrightarrow> ds_ops (f (er_states r p)) = []"
  shows "er_inv (upd_state p f r)"
  using assms by (auto simp: er_inv_def upd_state_def)

lemma er_inv_live: "er_inv r \<Longrightarrow> p \<in> set (er_live r) \<Longrightarrow> p < er_fresh r"
  by (auto simp: er_inv_def)

section \<open>Starting an operation\<close>

lemma ds_ops_push: "mset (ds_ops (d\<lparr>ds_queue := (ds_queue d)(ty := ds_queue d ty @ [op])\<rparr>)) = add_mset op (mset (ds_ops d))"
  by (cases ty) (simp_all add: ds_ops_def)

lemma enqueue_op_accounts:
  assumes "er_inv r" "p \<in> set (er_live r)" "\<not> ds_shutdown (er_states r p)"
  shows "accounts {#op#} {#} r (enqueue_op ty p op r) \<and> er_inv (enqueue_op ty p op r)"
proof -
  let ?r = "upd_state p (\<lambda>d. d\<lparr>ds_queue := (ds_queue d)(ty := ds_queue d ty @ [op])\<rparr>) r"
  have "queued_ops ?r = add_mset op (queued_ops r)"
    using queued_ops_update [OF er_inv_live [OF assms(1, 2)],
        of "\<lambda>d. d\<lparr>ds_queue := (ds_queue d)(ty := ds_queue d ty @ [op])\<rparr>"]
    by (simp add: ds_ops_push)
  moreover have "queued_ops (er_work_started ?r) = queued_ops ?r" "posted_ops (er_work_started ?r) = posted_ops r"
    "er_work (er_work_started ?r) = er_work r + 1"
    by (simp_all add: queued_ops_def posted_ops_def er_work_def er_work_started_def work_started_def upd_state_def
          queue_ops_def)
  moreover have "er_inv (er_work_started ?r) = er_inv ?r" by (simp add: er_inv_def er_work_started_def)
  moreover have "er_inv ?r" using assms by (intro er_inv_update) auto
  ultimately show ?thesis by (simp add: accounts_def enqueue_op_def)
qed

lemma post_after:
  assumes "same_places r r'" "er_inv r"
  shows "accounts {#op#} {#} r (er_post_immediate op c r') \<and> er_inv (er_post_immediate op c r')"
  using assms er_post_immediate_accounts [of op r' c]
  by (simp add: same_places_accounts same_places_inv er_inv_frame [of "er_post_immediate op c r'" r'])

lemma enqueue_after:
  assumes "same_places r r'" "er_inv r" "p \<in> set (er_live r)" "\<not> ds_shutdown (er_states r p)"
  shows "accounts {#op#} {#} r (enqueue_op ty p op r') \<and> er_inv (enqueue_op ty p op r')"
  using enqueue_op_accounts [of r' p op ty] assms same_places_inv [OF assms(1)]
  by (simp add: same_places_accounts [OF assms(1)] ) (simp add: same_places_def)

lemma add_write_event_places: "same_places r (snd (add_write_event ctl descriptor p r))"
  by (auto simp: add_write_event_def Let_def same_places_def upd_state_def split: prod.split)

text \<open>Every branch of \<open>start_op\<close> changes the registration at most and then posts or queues the operation.\<close>

definition starts :: "op_type \<Rightarrow> nat option \<Rightarrow> nat \<Rightarrow> bool \<Rightarrow> 'w reactor \<Rightarrow> 'w reactor \<Rightarrow> bool" where
  "starts ty data op c r r' \<longleftrightarrow>
     (\<exists>m. same_places r m \<and>
        (r' = er_post_immediate op c m \<or>
         (\<exists>p. data = Some p \<and> \<not> ds_shutdown (er_states r p) \<and> r' = enqueue_op ty p op m)))"

lemma startsI:
  "same_places r m \<Longrightarrow> starts ty data op c r (er_post_immediate op c m)"
  "same_places r m \<Longrightarrow> data = Some p \<Longrightarrow> \<not> ds_shutdown (er_states r p) \<Longrightarrow> starts ty data op c r (enqueue_op ty p op m)"
  by (auto simp: starts_def)

lemma same_places_then:
  "same_places r m \<Longrightarrow> same_places r (set_ec op ec m)"
  "same_places r m \<Longrightarrow> same_places r (m\<lparr>er_world := w\<rparr>)"
  "same_places r m \<Longrightarrow> same_places r (upd_state p (\<lambda>d. d\<lparr>ds_speculative := s d\<rparr>) m)"
  "same_places r m \<Longrightarrow> same_places r (upd_state p (\<lambda>d. d\<lparr>ds_registered_events := e d\<rparr>) m)"
  "same_places r m \<Longrightarrow> same_places r (snd (add_write_event ctl descriptor p m))"
  using same_places_trans add_write_event_places
  by (auto intro: same_places_upd elim!: same_places_trans)

lemma er_start_op_starts:
  "starts ty data op c r (er_start_op ctl perform ty descriptor data op c allow r)"
proof (cases data)
  case None
  then show ?thesis by (simp add: er_start_op_def startsI)
next
  case (Some p)
  have aw: "add_write_event ctl descriptor p m = (ec, m') \<Longrightarrow> same_places r m \<Longrightarrow> same_places r m'" for m ec m'
    using same_places_then(5) [of r m ctl descriptor p] by simp
  show ?thesis
    unfolding er_start_op_def Some option.case Let_def
    by (auto split: prod.split if_split simp: startsI same_places_then aw intro!: startsI same_places_then elim!: aw)
qed

lemma starts_accounts:
  assumes "starts ty data op c r r'" "er_inv r" "\<forall>p. data = Some p \<longrightarrow> p \<in> set (er_live r)"
  shows "accounts {#op#} {#} r r' \<and> er_inv r'"
  using assms by (auto simp: starts_def dest: post_after enqueue_after)

section \<open>Performing\<close>

lemma perform_loop_splits: "perform_loop perform q h w = (out, left, h', w', sp) \<Longrightarrow> q = out @ left"
  by (induction perform q h w arbitrary: out left h' w' sp rule: perform_loop.induct)
     (auto simp: Let_def split: prod.splits op_status.splits)

lemma ds_ops_take:
  "ds_queue d ty = out @ left \<Longrightarrow>
   mset (ds_ops (d\<lparr>ds_queue := (ds_queue d)(ty := left), ds_speculative := s\<rparr>)) + mset out = mset (ds_ops d)"
  by (cases ty) (simp_all add: ds_ops_def)

lemma perform_type_moves:
  assumes "perform_type perform p events ty (ops, r) = (ops', r')" "er_inv r" "p \<in> set (er_live r)"
  shows "queued_ops r' + mset ops' = queued_ops r + mset ops \<and> er_inv r' \<and> er_live r' = er_live r \<and>
    er_sched r' = er_sched r \<and> er_thread r' = er_thread r"
proof (cases "events AND (event_flag ty OR EPOLLERR OR EPOLLHUP) \<noteq> 0")
  case True
  obtain out left h w sp where
    loop: "perform_loop perform (ds_queue (er_states r p) ty) (er_ops r) (er_world r) = (out, left, h, w, sp)"
    by (metis prod_cases5)
  let ?f = "\<lambda>d. d\<lparr>ds_queue := (ds_queue d)(ty := left), ds_speculative := (ds_speculative d)(ty := sp)\<rparr>"
  let ?m = "r\<lparr>er_ops := h, er_world := w\<rparr>"
  have res: "ops' = ops @ out" "r' = upd_state p ?f ?m"
    using assms(1) True loop by (simp_all add: perform_type_def)
  have inv: "er_inv ?m" using assms(2) by (simp add: er_inv_def)
  have split: "mset (ds_ops (?f (er_states r p))) + mset out = mset (ds_ops (er_states r p))"
    using ds_ops_take [OF perform_loop_splits [OF loop]] .
  have "queued_ops r' + mset (ds_ops (er_states r p)) = queued_ops r + mset (ds_ops (?f (er_states r p)))"
    using queued_ops_update [OF er_inv_live [OF inv], of p ?f] assms(3) res(2) by (simp add: queued_ops_def)
  then have "queued_ops r' + mset out = queued_ops r"
    unfolding split [symmetric] by (simp add: ac_simps)
  moreover have "er_inv r'"
    using assms(2, 3) er_inv_live [OF assms(2, 3)] split unfolding res(2)
    by (intro er_inv_update inv) (auto simp: er_inv_def)
  ultimately show ?thesis using res by (simp add: upd_state_def)
qed (use assms in \<open>simp add: perform_type_def\<close>)

text \<open>The scheduler's \<open>work_finished\<close> after a descriptor operation.\<close>

definition after_complete :: "'w reactor \<Rightarrow> 'w reactor" where
  "after_complete r = r\<lparr>er_sched := fst (work_finished (er_sched r))\<rparr>"

lemma after_complete_simps [simp]:
  "queued_ops (after_complete r) = queued_ops r" "posted_ops (after_complete r) = posted_ops r"
  "er_work (after_complete r) = er_work r - 1" "er_inv (after_complete r) = er_inv r"
  by (simp_all add: after_complete_def queued_ops_def posted_ops_def er_work_def er_inv_def work_finished_def Let_def
        queue_ops_def)

lemma compensating_simps [simp]:
  "queued_ops (compensating_work_started r) = queued_ops r" "posted_ops (compensating_work_started r) = posted_ops r"
  "er_work (compensating_work_started r) = er_work r + 1" "er_inv (compensating_work_started r) = er_inv r"
  by (simp_all add: compensating_work_started_def queued_ops_def posted_ops_def er_work_def er_inv_def)

lemma queued_ops_deferred [simp]: "queued_ops (er_post_deferred ops r) = queued_ops r"
  "er_inv (er_post_deferred ops r) = er_inv r"
  by (simp_all add: queued_ops_def er_inv_def)

lemma er_post_deferred_Nil [simp]: "er_post_deferred [] r = r"
  by (simp add: er_post_deferred_def post_deferred_completions_def)

lemma perform_io_result:
  assumes "perform_io perform p events r = (res, r')"
  obtains o1 r1 o2 r2 o3 r3 where
    "perform_type perform p events Except_Op ([], r) = (o1, r1)"
    "perform_type perform p events Write_Op (o1, r1) = (o2, r2)"
    "perform_type perform p events Read_Op (o2, r2) = (o3, r3)"
    "case o3 of [] \<Rightarrow> res = None \<and> r' = compensating_work_started r3
     | op # rest \<Rightarrow> res = Some op \<and> r' = er_post_deferred rest r3"
proof -
  obtain o1 r1 where e: "perform_type perform p events Except_Op ([], r) = (o1, r1)" by force
  obtain o2 r2 where w: "perform_type perform p events Write_Op (o1, r1) = (o2, r2)" by force
  obtain o3 r3 where d: "perform_type perform p events Read_Op (o2, r2) = (o3, r3)" by force
  show ?thesis using assms by (intro that [OF e w d]) (auto simp: perform_io_def e w d split: list.splits)
qed

lemma perform_io_accounts:
  assumes "perform_io perform p events r = (res, r')" "er_inv r" "p \<in> set (er_live r)"
  shows "accounts {#} (mset_set (set_option res)) r (after_complete r') \<and> er_inv (after_complete r')"
proof -
  obtain o1 r1 o2 r2 o3 r3 where
    e: "perform_type perform p events Except_Op ([], r) = (o1, r1)" and
    w: "perform_type perform p events Write_Op (o1, r1) = (o2, r2)" and
    d: "perform_type perform p events Read_Op (o2, r2) = (o3, r3)" and
    out: "case o3 of [] \<Rightarrow> res = None \<and> r' = compensating_work_started r3
     | op # rest \<Rightarrow> res = Some op \<and> r' = er_post_deferred rest r3"
    by (rule perform_io_result [OF assms(1)])
  note m1 = perform_type_moves [OF e assms(2, 3)]
  then have l1: "er_inv r1" "p \<in> set (er_live r1)" using assms(3) by simp_all
  note m2 = perform_type_moves [OF w l1]
  then have l2: "er_inv r2" "p \<in> set (er_live r2)" using l1 by simp_all
  note m3 = perform_type_moves [OF d l2]
  have q: "queued_ops r3 + mset o3 = queued_ops r" using m1 m2 m3 by simp
  have rest: "posted_ops r3 = posted_ops r" "er_work r3 = er_work r" "er_inv r3"
    using m1 m2 m3 by (simp_all add: posted_ops_def er_work_def)
  show ?thesis
    using out q rest by (auto simp: accounts_def er_post_deferred_posts split: list.split_asm if_split_asm)
qed

section \<open>Cancelling\<close>

lemma fold_set_ec:
  "fold (\<lambda>op. set_ec op ec) ops r =
   r\<lparr>er_ops := (\<lambda>op. if op \<in> set ops then (er_ops r op)\<lparr>ro_ec := ec\<rparr> else er_ops r op)\<rparr>"
  by (induction ops arbitrary: r) (auto simp: set_ec_def fun_eq_iff)

definition mark_aborted :: "nat list \<Rightarrow> (nat \<Rightarrow> rop) \<Rightarrow> nat \<Rightarrow> rop" where
  "mark_aborted ops h op = (if op \<in> set ops then (h op)\<lparr>ro_ec := basic operation_aborted\<rparr> else h op)"

lemma take_ops_eq:
  "take_ops p r = (ds_ops (er_states r p),
     upd_state p (\<lambda>d. d\<lparr>ds_queue := (\<lambda>_. [])\<rparr>)
       (r\<lparr>er_ops := mark_aborted (ds_ops (er_states r p)) (er_ops r)\<rparr>))"
  by (simp add: take_ops_def fold_set_ec ds_ops_def Let_def mark_aborted_def [abs_def])

lemma emptied_accounts:
  assumes "same_places r m" "er_inv r" "p \<in> set (er_live r)" "ds_ops (f (er_states m p)) = []"
  shows "accounts {#} {#} r (er_post_deferred (ds_ops (er_states r p)) (upd_state p f m)) \<and>
    er_inv (er_post_deferred (ds_ops (er_states r p)) (upd_state p f m))"
proof -
  have m: "er_inv m" "p \<in> set (er_live m)" "ds_ops (er_states m p) = ds_ops (er_states r p)"
    using assms same_places_inv [OF assms(1)] by (simp_all add: same_places_def)
  have "queued_ops (upd_state p f m) + mset (ds_ops (er_states r p)) = queued_ops m"
    using queued_ops_update [OF er_inv_live [OF m(1, 2)], of f] assms(4) m(3) by simp
  moreover have "queued_ops m = queued_ops r" "posted_ops (upd_state p f m) = posted_ops r"
    "er_work (upd_state p f m) = er_work r"
    using assms(1) by (simp_all add: same_places_def queued_ops_def posted_ops_def er_work_def upd_state_def)
  moreover have "er_inv (upd_state p f m)" using m assms(4) by (intro er_inv_update) auto
  ultimately show ?thesis by (simp add: accounts_def er_post_deferred_posts ac_simps)
qed

lemma cancel_ops_accounts:
  assumes "er_inv r" "\<forall>p. data = Some p \<longrightarrow> p \<in> set (er_live r)"
  shows "accounts {#} {#} r (cancel_ops data r) \<and> er_inv (cancel_ops data r)"
  using assms by (cases data) (auto simp: cancel_ops_def take_ops_eq intro!: emptied_accounts [THEN conjunct1]
      emptied_accounts [THEN conjunct2, simplified])

text \<open>\<open>deregister_descriptor\<close>, as one update of the state it empties.\<close>

lemma upd_state_upd [simp]: "upd_state p g (upd_state p f r) = upd_state p (\<lambda>d. g (f d)) r"
  by (simp add: upd_state_def)

lemma deregister_eq:
  "\<not> ds_shutdown (er_states r p) \<Longrightarrow>
   \<exists>w. deregister_descriptor ctl descriptor (Some p) closing r =
     (Some p, er_post_deferred (ds_ops (er_states r p))
        (upd_state p (\<lambda>d. d\<lparr>ds_queue := (\<lambda>_. []), ds_descriptor := - 1, ds_shutdown := True\<rparr>)
          (r\<lparr>er_world := w, er_ops := mark_aborted (ds_ops (er_states r p)) (er_ops r)\<rparr>)))"
  by (rule exI [of _ "if \<not> closing \<and> ds_registered_events (er_states r p) \<noteq> 0
        then snd (ctl Ctl_Del descriptor 0 p (er_world r)) else er_world r"])
     (simp add: deregister_descriptor_def take_ops_eq Let_def)

lemma deregister_accounts:
  assumes "er_inv r" "\<forall>p. data = Some p \<longrightarrow> p \<in> set (er_live r)"
    and "deregister_descriptor ctl descriptor data closing r = (data', r')"
  shows "accounts {#} {#} r r' \<and> er_inv r'"
proof (cases "\<exists>p. data = Some p \<and> \<not> ds_shutdown (er_states r p)")
  case True
  then obtain p where p: "data = Some p" "\<not> ds_shutdown (er_states r p)" by blast
  obtain w where r': "r' = er_post_deferred (ds_ops (er_states r p))
        (upd_state p (\<lambda>d. d\<lparr>ds_queue := (\<lambda>_. []), ds_descriptor := - 1, ds_shutdown := True\<rparr>)
          (r\<lparr>er_world := w, er_ops := mark_aborted (ds_ops (er_states r p)) (er_ops r)\<rparr>))"
    using deregister_eq [OF p(2), of ctl descriptor closing] assms(3) p(1) by auto
  show ?thesis unfolding r' using assms(1, 2) p
    by (intro emptied_accounts) (auto simp: same_places_def ds_ops_def)
qed (use assms in \<open>auto simp: deregister_descriptor_def split: option.splits\<close>)

lemma cleanup_accounts:
  assumes "er_inv r" "p \<in> set (er_live r)" "ds_shutdown (er_states r p)"
  shows "accounts {#} {#} r (free_descriptor_state p r) \<and> er_inv (free_descriptor_state p r)"
proof -
  have d: "distinct (er_live r @ er_free r)" "ds_ops (er_states r p) = []"
    using assms er_inv_live [OF assms(1, 2)] by (simp_all add: er_inv_def)
  have "distinct (remove1 p (er_live r) @ p # er_free r)"
    "set (remove1 p (er_live r) @ p # er_free r) = set (er_live r @ er_free r)"
    using d(1) assms(2) by (auto simp: set_remove1_eq)
  then have "er_inv (free_descriptor_state p r)"
    using assms d by (auto simp: er_inv_def free_descriptor_state_def)
  then show ?thesis
    by (simp add: accounts_def queued_ops_def posted_ops_def er_work_def free_descriptor_state_def)
qed

section \<open>Registering\<close>

lemma allocate_facts:
  assumes "allocate_descriptor_state r = (p, r')" "er_inv r"
  shows "er_inv r' \<and> p \<in> set (er_live r') \<and> p \<notin> set (er_live r) \<and> er_live r' = p # er_live r \<and>
    ds_ops (er_states r' p) = [] \<and> er_sched r' = er_sched r \<and> er_thread r' = er_thread r \<and>
    er_ops r' = er_ops r \<and> queued_ops r' = queued_ops r"
proof (cases "er_free r")
  case Nil
  then have "p = er_fresh r" "r' = r\<lparr>er_fresh := er_fresh r + 1, er_live := er_fresh r # er_live r,
     er_states := (er_states r)(er_fresh r := (er_states r (er_fresh r))\<lparr>ds_queue := (\<lambda>_. [])\<rparr>)\<rparr>"
    using assms(1) by (auto simp: allocate_descriptor_state_def)
  then show ?thesis using assms(2) Nil by (auto simp: er_inv_def queued_ops_def less_Suc_eq lessThan_Suc)
next
  case (Cons q qs)
  then have "p = q" "r' = r\<lparr>er_free := qs, er_live := q # er_live r\<rparr>"
    using assms(1) by (auto simp: allocate_descriptor_state_def)
  then show ?thesis using assms(2) Cons by (auto simp: er_inv_def queued_ops_def)
qed

lemma register_facts:
  assumes "register_descriptor ctl descriptor r = (err, p, r')" "er_inv r"
  shows "accounts {#} {#} r r' \<and> er_inv r' \<and> er_live r' = p # er_live r \<and> p \<notin> set (er_live r)"
proof -
  obtain p' m where a: "allocate_descriptor_state r = (p', m)" by force
  note f = allocate_facts [OF a assms(2)]
  let ?ev = "EPOLLIN OR EPOLLERR OR EPOLLHUP OR EPOLLPRI OR EPOLLET"
  obtain f w where r': "p = p'" "r' = upd_state p f (m\<lparr>er_world := w\<rparr>)"
    and ops: "\<And>d. ds_ops (f d) = ds_ops d" "\<And>d. \<not> ds_shutdown (f d)"
  proof -
    obtain result errno w where c: "ctl Ctl_Add descriptor ?ev p' (er_world m) = ((result, errno), w)"
      by (metis surj_pair)
    let ?g = "reset_ds descriptor ?ev"
    have "upd_state p' ?g m\<lparr>er_world := w\<rparr> = upd_state p' ?g (m\<lparr>er_world := w\<rparr>)"
      by (simp add: upd_state_def)
    moreover have "er_world (upd_state p' ?g m) = er_world m" by (simp add: upd_state_def)
    ultimately have "p = p' \<and> (r' = upd_state p' ?g (m\<lparr>er_world := w\<rparr>) \<or>
        r' = upd_state p' (\<lambda>d. (?g d)\<lparr>ds_registered_events := 0\<rparr>) (m\<lparr>er_world := w\<rparr>))"
      using assms(1) by (auto simp: register_descriptor_def a c Let_def split: if_split_asm)
    moreover have "ds_ops (?g d) = ds_ops d" "\<not> ds_shutdown (?g d)" for d
      by (simp_all add: reset_ds_def ds_ops_def)
    ultimately show ?thesis
      using that [of ?g w] that [of "\<lambda>d. (?g d)\<lparr>ds_registered_events := 0\<rparr>" w] by auto
  qed
  have live: "p \<in> set (er_live (m\<lparr>er_world := w\<rparr>))" "er_inv (m\<lparr>er_world := w\<rparr>)"
    using f r'(1) er_inv_frame [of "m\<lparr>er_world := w\<rparr>" m] by auto
  have "queued_ops r' = queued_ops m"
    using queued_ops_update [OF er_inv_live [OF live(2, 1)], of f] ops(1) r'(2) by (simp add: queued_ops_def)
  moreover have "er_inv r'" unfolding r'(2) using live ops by (intro er_inv_update) auto
  moreover have "posted_ops r' = posted_ops r" "er_work r' = er_work r" "er_live r' = er_live m"
    using f r'(2) by (simp_all add: posted_ops_def er_work_def upd_state_def)
  ultimately show ?thesis using f r'(1) by (simp add: accounts_def)
qed

section \<open>Any sequence of calls\<close>

text \<open>The calls a socket service makes, the scheduler's calls of \<open>do_complete\<close>, and the scheduler running an
  operation that was posted; \<open>A\<close> is what the call starts, \<open>B\<close> what it hands to a handler.\<close>

inductive er_step :: "nat multiset \<Rightarrow> nat multiset \<Rightarrow> 'w reactor \<Rightarrow> 'w reactor \<Rightarrow> bool" where
  e_register: "register_descriptor ctl descriptor r = (err, p, r') \<Longrightarrow> er_step {#} {#} r r'"
| e_start: "(\<forall>p. data = Some p \<longrightarrow> p \<in> set (er_live r)) \<Longrightarrow>
     er_step {#op#} {#} r (er_start_op ctl perform ty descriptor data op is_continuation allow_speculative r)"
| e_cancel: "(\<forall>p. data = Some p \<longrightarrow> p \<in> set (er_live r)) \<Longrightarrow> er_step {#} {#} r (cancel_ops data r)"
| e_deregister: "(\<forall>p. data = Some p \<longrightarrow> p \<in> set (er_live r)) \<Longrightarrow>
     deregister_descriptor ctl descriptor data closing r = (data', r') \<Longrightarrow> er_step {#} {#} r r'"
| e_cleanup: "p \<in> set (er_live r) \<Longrightarrow> ds_shutdown (er_states r p) \<Longrightarrow>
     er_step {#} {#} r (cleanup_descriptor_data (Some p) r)"
| e_complete: "p \<in> set (er_live r) \<Longrightarrow> complete_state perform p r = (res, r') \<Longrightarrow>
     er_step {#} (mset_set (set_option res)) r (after_complete r')"
| e_event: "dispatch_event ev (check_timers, items, r) = (check_timers', items', r') \<Longrightarrow> er_step {#} {#} r r'"
| e_handle: "sc_op_queue (er_sched r) = Q_Op op # q \<Longrightarrow>
     er_step {#} {#op#} r (after_complete (r\<lparr>er_sched := (er_sched r)\<lparr>sc_op_queue := q\<rparr>\<rparr>))"

inductive er_steps :: "nat multiset \<Rightarrow> nat multiset \<Rightarrow> 'w reactor \<Rightarrow> 'w reactor \<Rightarrow> bool" where
  es_none: "er_steps {#} {#} r r"
| es_more: "er_steps A B r r' \<Longrightarrow> er_step A' B' r' r'' \<Longrightarrow> er_steps (A + A') (B + B') r r''"

lemma dispatch_event_places:
  "dispatch_event ev (check_timers, items, r) = (check_timers', items', r') \<Longrightarrow> same_places r r'"
  by (auto simp: dispatch_event_def intro: same_places_upd split: prod.splits epoll_ptr.splits if_split_asm)

lemma er_step_accounts: "er_step A B r r' \<Longrightarrow> er_inv r \<Longrightarrow> accounts A B r r' \<and> er_inv r'"
proof (induction rule: er_step.induct)
  case (e_register ctl descriptor r err p r')
  then show ?case using register_facts by blast
next
  case (e_start data r op ctl perform ty descriptor is_continuation allow_speculative)
  then show ?case using starts_accounts [OF er_start_op_starts] by blast
next
  case (e_cancel data r)
  then show ?case using cancel_ops_accounts by blast
next
  case (e_deregister data r ctl descriptor closing data' r')
  then show ?case using deregister_accounts by blast
next
  case (e_cleanup p r)
  then show ?case using cleanup_accounts by (simp add: cleanup_descriptor_data_def)
next
  case (e_complete p r perform res r')
  then show ?case using perform_io_accounts by (simp add: complete_state_def)
next
  case (e_event ev check_timers items r check_timers' items' r')
  then show ?case using dispatch_event_places same_places_inv same_places_accounts accounts_refl by blast
next
  case (e_handle r op q)
  then show ?case
    by (simp add: accounts_def after_complete_def work_finished_def Let_def queued_ops_def posted_ops_def er_work_def
        er_inv_def queue_ops_def)
qed

lemma er_steps_accounts: "er_steps A B r r' \<Longrightarrow> er_inv r \<Longrightarrow> accounts A B r r' \<and> er_inv r'"
  by (induction rule: er_steps.induct) (auto dest: er_step_accounts intro: accounts_trans)

definition er_ctor :: "bool \<Rightarrow> bool \<Rightarrow> (nat \<Rightarrow> descriptor_state) \<Rightarrow> (nat \<Rightarrow> rop) \<Rightarrow> 'w \<Rightarrow> 'w reactor" where
  "er_ctor one_thread timer_fd states ops w =
     \<lparr> er_sched = scheduler_ctor one_thread, er_thread = idle_thread, er_inside = False, er_states = states,
       er_live = [], er_free = [], er_fresh = 0, er_ops = ops, er_shutdown = False, er_timer_fd = timer_fd,
       er_timers = [], er_aborted = [], er_world = w \<rparr>"

lemma er_ctor_facts [simp]:
  "er_inv (er_ctor one_thread timer_fd states ops w)" "queued_ops (er_ctor one_thread timer_fd states ops w) = {#}"
  "posted_ops (er_ctor one_thread timer_fd states ops w) = {#}" "er_work (er_ctor one_thread timer_fd states ops w) = 0"
  by (simp_all add: er_ctor_def er_inv_def queued_ops_def posted_ops_def er_work_def idle_thread_def scheduler_ctor_def
        queue_ops_def)



section \<open>The order of completion\<close>

text \<open>Performing operations one after the other; and what it means that the loop over a queue went as far as it
  could: it completed the operations \<open>out\<close> in their order, all but the last of them without exhausting the
  descriptor, and stopped because the queue was empty, the descriptor exhausted or the next operation not done.\<close>

fun runs :: "'w perform \<Rightarrow> nat list \<Rightarrow> (nat \<Rightarrow> rop) \<times> 'w \<Rightarrow> op_status list \<times> (nat \<Rightarrow> rop) \<times> 'w" where
  "runs perform [] (h, w) = ([], h, w)"
| "runs perform (op # ops) (h, w) =
     (case perform op (h op) w of (st, ro, w) \<Rightarrow>
        (case runs perform ops (h(op := ro), w) of (sts, e) \<Rightarrow> (st # sts, e)))"

definition drained ::
    "'w perform \<Rightarrow> nat list \<Rightarrow> (nat \<Rightarrow> rop) \<times> 'w \<Rightarrow> nat list \<Rightarrow> nat list \<Rightarrow> (nat \<Rightarrow> rop) \<times> 'w \<Rightarrow> bool \<Rightarrow> bool" where
  "drained perform q e out left e' speculative \<longleftrightarrow>
     q = out @ left \<and>
     (\<exists>sts e1. runs perform out e = (sts, e1) \<and>
        (if speculative
         then (\<forall>st \<in> set sts. st = Done) \<and>
           (left = [] \<and> e' = e1 \<or> left \<noteq> [] \<and> runs perform [hd left] e1 = ([Not_Done], e'))
         else e' = e1 \<and> sts \<noteq> [] \<and> last sts = Done_And_Exhausted \<and> (\<forall>st \<in> set (butlast sts). st = Done)))"

lemma drained_Done:
  assumes "perform op (h op) w = (Done, ro, w1)" "drained perform q (h(op := ro), w1) out left e' sp"
  shows "drained perform (op # q) (h, w) (op # out) left e' sp"
proof -
  obtain sts e1 where "runs perform out (h(op := ro), w1) = (sts, e1)" by (metis surj_pair)
  then have "runs perform (op # out) (h, w) = (Done # sts, e1)" using assms(1) by simp
  then show ?thesis using assms(2) \<open>runs perform out _ = _\<close> by (cases sp) (auto simp: drained_def)
qed

lemma perform_loop_drained:
  "perform_loop perform q h w = (out, left, h', w', sp) \<Longrightarrow> drained perform q (h, w) out left (h', w') sp"
proof (induction perform q h w arbitrary: out left h' w' sp rule: perform_loop.induct)
  case (1 perform h w)
  then show ?case by (auto simp: drained_def)
next
  case (2 perform op q h w)
  obtain st ro w1 where p: "perform op (h op) w = (st, ro, w1)" by (metis prod_cases3)
  show ?case
  proof (cases st)
    case Done
    obtain out1 left1 h1 w2 sp1 where l: "perform_loop perform q (h(op := ro)) w1 = (out1, left1, h1, w2, sp1)"
      by (metis prod_cases5)
    then have "drained perform q (h(op := ro), w1) out1 left1 (h1, w2) sp1"
      using "2.IH" p Done by (auto simp: fun_upd_def)
    then show ?thesis using "2.prems" p Done l by (auto intro: drained_Done)
  qed (use "2.prems" p in \<open>auto simp: drained_def\<close>)
qed

definition wants :: "32 word \<Rightarrow> op_type \<Rightarrow> bool" where
  "wants events ty \<longleftrightarrow> events AND (event_flag ty OR EPOLLERR OR EPOLLHUP) \<noteq> 0"

definition served ::
    "'w perform \<Rightarrow> 32 word \<Rightarrow> op_type \<Rightarrow> descriptor_state \<Rightarrow> (nat \<Rightarrow> rop) \<times> 'w \<Rightarrow> nat list \<Rightarrow>
     descriptor_state \<Rightarrow> (nat \<Rightarrow> rop) \<times> 'w \<Rightarrow> bool" where
  "served perform events ty d e out d' e' \<longleftrightarrow>
     (if wants events ty
      then drained perform (ds_queue d ty) e out (ds_queue d' ty) e' (ds_speculative d' ty)
      else out = [] \<and> ds_queue d' ty = ds_queue d ty \<and> ds_speculative d' ty = ds_speculative d ty \<and> e' = e)"

definition same_type :: "op_type \<Rightarrow> descriptor_state \<Rightarrow> descriptor_state \<Rightarrow> bool" where
  "same_type ty d d' \<longleftrightarrow> ds_queue d' ty = ds_queue d ty \<and> ds_speculative d' ty = ds_speculative d ty"

lemma served_cong:
  "served perform events ty d e out d' e' \<Longrightarrow> same_type ty d d0 \<Longrightarrow> same_type ty d' d1 \<Longrightarrow>
   served perform events ty d0 e out d1 e'"
  by (simp add: served_def same_type_def)

lemma perform_type_served:
  assumes "perform_type perform p events ty (ops, r) = (ops', r')"
  shows "\<exists>out. ops' = ops @ out \<and>
    served perform events ty (er_states r p) (er_ops r, er_world r) out (er_states r' p) (er_ops r', er_world r') \<and>
    (\<forall>ty'. ty' \<noteq> ty \<longrightarrow> same_type ty' (er_states r p) (er_states r' p)) \<and>
    (\<forall>q. q \<noteq> p \<longrightarrow> er_states r' q = er_states r q) \<and> er_sched r' = er_sched r \<and> er_thread r' = er_thread r"
proof (cases "wants events ty")
  case True
  obtain out left h w sp where
    loop: "perform_loop perform (ds_queue (er_states r p) ty) (er_ops r) (er_world r) = (out, left, h, w, sp)"
    by (metis prod_cases5)
  then have "ops' = ops @ out" "r' = upd_state p (\<lambda>d. d\<lparr>ds_queue := (ds_queue d)(ty := left),
      ds_speculative := (ds_speculative d)(ty := sp)\<rparr>) (r\<lparr>er_ops := h, er_world := w\<rparr>)"
    using assms True by (simp_all add: perform_type_def wants_def)
  then show ?thesis
    using True perform_loop_drained [OF loop] by (simp add: served_def upd_state_def same_type_def)
qed (use assms in \<open>auto simp: perform_type_def wants_def served_def same_type_def\<close>)

text \<open>C24: The reactor performs the operations that wait on a ready descriptor in a fixed order: out-of-band
  operations first, then writes, then reads, each queue from its front and only if the events ask for it. In a queue
  it stops when the queue is empty, when an operation exhausts the descriptor or when one cannot be done, which
  then stays at the front. The first operation completed is handed back, the others are posted in order, and if
  there is none the work that the scheduler is going to subtract is added.\<close>

theorem perform_io_in_order:
  assumes "perform_io perform p events r = (res, r')"
  shows "\<exists>ex wr rd e1 e2 m.
    served perform events Except_Op (er_states r p) (er_ops r, er_world r) ex (er_states m p) e1 \<and>
    served perform events Write_Op (er_states r p) e1 wr (er_states m p) e2 \<and>
    served perform events Read_Op (er_states r p) e2 rd (er_states m p) (er_ops m, er_world m) \<and>
    (\<forall>q. q \<noteq> p \<longrightarrow> er_states m q = er_states r q) \<and> er_sched m = er_sched r \<and> er_thread m = er_thread r \<and>
    (case ex @ wr @ rd of
       [] \<Rightarrow> res = None \<and> r' = compensating_work_started m
     | op # rest \<Rightarrow> res = Some op \<and> r' = er_post_deferred rest m)"
proof -
  obtain o1 r1 o2 r2 o3 r3 where
    e: "perform_type perform p events Except_Op ([], r) = (o1, r1)" and
    w: "perform_type perform p events Write_Op (o1, r1) = (o2, r2)" and
    d: "perform_type perform p events Read_Op (o2, r2) = (o3, r3)" and
    out: "case o3 of [] \<Rightarrow> res = None \<and> r' = compensating_work_started r3
     | op # rest \<Rightarrow> res = Some op \<and> r' = er_post_deferred rest r3"
    by (rule perform_io_result [OF assms(1)])
  obtain ex where ex: "o1 = ex"
    "served perform events Except_Op (er_states r p) (er_ops r, er_world r) ex (er_states r1 p) (er_ops r1, er_world r1)"
    "\<forall>ty. ty \<noteq> Except_Op \<longrightarrow> same_type ty (er_states r p) (er_states r1 p)"
    "\<forall>q. q \<noteq> p \<longrightarrow> er_states r1 q = er_states r q" "er_sched r1 = er_sched r" "er_thread r1 = er_thread r"
    using perform_type_served [OF e] by auto
  obtain wr where wr: "o2 = o1 @ wr"
    "served perform events Write_Op (er_states r1 p) (er_ops r1, er_world r1) wr (er_states r2 p) (er_ops r2, er_world r2)"
    "\<forall>ty. ty \<noteq> Write_Op \<longrightarrow> same_type ty (er_states r1 p) (er_states r2 p)"
    "\<forall>q. q \<noteq> p \<longrightarrow> er_states r2 q = er_states r1 q" "er_sched r2 = er_sched r1" "er_thread r2 = er_thread r1"
    using perform_type_served [OF w] by auto
  obtain rd where rd: "o3 = o2 @ rd"
    "served perform events Read_Op (er_states r2 p) (er_ops r2, er_world r2) rd (er_states r3 p) (er_ops r3, er_world r3)"
    "\<forall>ty. ty \<noteq> Read_Op \<longrightarrow> same_type ty (er_states r2 p) (er_states r3 p)"
    "\<forall>q. q \<noteq> p \<longrightarrow> er_states r3 q = er_states r2 q" "er_sched r3 = er_sched r2" "er_thread r3 = er_thread r2"
    using perform_type_served [OF d] by auto
  have "served perform events Except_Op (er_states r p) (er_ops r, er_world r) ex (er_states r3 p) (er_ops r1, er_world r1)"
    "served perform events Write_Op (er_states r p) (er_ops r1, er_world r1) wr (er_states r3 p) (er_ops r2, er_world r2)"
    "served perform events Read_Op (er_states r p) (er_ops r2, er_world r2) rd (er_states r3 p) (er_ops r3, er_world r3)"
    using ex(3) wr(3) rd(3)
    by (auto intro: served_cong [OF ex(2)] served_cong [OF wr(2)] served_cong [OF rd(2)] simp: same_type_def)
  moreover have "case ex @ wr @ rd of [] \<Rightarrow> res = None \<and> r' = compensating_work_started r3
     | op # rest \<Rightarrow> res = Some op \<and> r' = er_post_deferred rest r3"
    using out unfolding rd(1) wr(1) ex(1) by simp
  moreover have "\<forall>q. q \<noteq> p \<longrightarrow> er_states r3 q = er_states r q" "er_sched r3 = er_sched r" "er_thread r3 = er_thread r"
    using ex(4-) wr(4-) rd(4-) by simp_all
  ultimately show ?thesis by blast
qed

section \<open>Closing a socket\<close>

text \<open>Operations that come to the end of the scheduler's queue, or of the private queue of the calling thread.\<close>

definition appended :: "nat list \<Rightarrow> 'w reactor \<Rightarrow> 'w reactor \<Rightarrow> bool" where
  "appended ops r r' \<longleftrightarrow>
     (let in_queue = (\<lambda>r. sc_op_queue (er_sched r)); private = (\<lambda>r. th_private_queue (er_thread r)) in
      in_queue r' = in_queue r @ map Q_Op ops \<and> private r' = private r \<or>
      in_queue r' = in_queue r \<and> private r' = private r @ ops)"

lemma er_post_deferred_appended:
  "er_sched m = er_sched r \<Longrightarrow> er_thread m = er_thread r \<Longrightarrow> appended ops r (er_post_deferred ops m)"
  by (simp add: appended_def Let_def er_post_deferred_def post_deferred_completions_def)

text \<open>C25: Closing an open socket aborts what waits on it: each operation queued on its descriptor gets the error
  \<open>operation_aborted\<close> and is posted, reads before writes before out-of-band operations, no other operation
  is touched, and nothing is left behind: the descriptor state is back in the pool with empty queues and the
  socket object is closed. The work that the scheduler counts stays the same.\<close>

theorem close_aborts_operations:
  assumes "er_inv r" "svc_is_open impl" "si_reactor_data impl = Some p" "p \<in> set (er_live r)"
    and "\<not> ds_shutdown (er_states r p)" "svc_close os ctl impl r = (ec, impl', r')"
  shows "(\<forall>op. er_ops r' op = (if op \<in> set (ds_ops (er_states r p))
       then (er_ops r op)\<lparr>ro_ec := basic operation_aborted\<rparr> else er_ops r op)) \<and>
    appended (ds_ops (er_states r p)) r r' \<and> er_work r' = er_work r \<and> ds_ops (er_states r' p) = [] \<and> p \<in> set (er_free r') \<and> p \<notin> set (er_live r') \<and>
    (\<forall>q. q \<noteq> p \<longrightarrow> er_states r' q = er_states r q) \<and> er_inv r' \<and>
    \<not> svc_is_open impl' \<and> si_reactor_data impl' = None"
proof -
  let ?f = "\<lambda>d. d\<lparr>ds_queue := (\<lambda>_. []), ds_descriptor := - 1, ds_shutdown := True\<rparr>"
  let ?ops = "ds_ops (er_states r p)"
  obtain w where dereg: "deregister_descriptor ctl (si_socket impl) (Some p) (\<not> has (si_state impl) possible_dup) r =
      (Some p, er_post_deferred ?ops (upd_state p ?f (r\<lparr>er_world := w, er_ops := mark_aborted ?ops (er_ops r)\<rparr>)))"
    using deregister_eq [OF assms(5)] by blast
  define m where "m = er_post_deferred ?ops (upd_state p ?f (r\<lparr>er_world := w, er_ops := mark_aborted ?ops (er_ops r)\<rparr>))"
  obtain w' where r': "r' = free_descriptor_state p (m\<lparr>er_world := w'\<rparr>)"
      "impl' = svc_construct (impl\<lparr>si_reactor_data := None\<rparr>)"
    using assms(6, 2, 3) dereg unfolding m_def [symmetric]
    by (auto simp: svc_close_def cleanup_descriptor_data_def split: prod.splits)
  have live: "er_live m = er_live r" "er_free m = er_free r"
    "er_states m = (er_states r)(p := ?f (er_states r p))" "er_ops m = mark_aborted ?ops (er_ops r)"
    by (simp_all add: m_def upd_state_def)
  have "er_inv m" using deregister_accounts [OF assms(1) _ dereg] assms(4) by (simp add: m_def)
  then have inv: "er_inv (m\<lparr>er_world := w'\<rparr>)" using er_inv_frame [of "m\<lparr>er_world := w'\<rparr>" m] by simp
  have "er_inv r'" unfolding r' using cleanup_accounts [OF inv, of p] assms(4) live by simp
  moreover have "appended ?ops r r' = appended ?ops r m" "er_work r' = er_work m"
    by (simp_all add: r' appended_def er_work_def free_descriptor_state_def)
  moreover have "appended ?ops r m"
    unfolding m_def by (rule er_post_deferred_appended) (simp_all add: upd_state_def)
  moreover have "er_work m = er_work r"
    unfolding m_def er_post_deferred_posts by (simp add: er_work_def upd_state_def)
  moreover have "p \<notin> set (remove1 p (er_live r))" using assms(1) by (simp add: er_inv_def set_remove1_eq)
  ultimately show ?thesis using live
    by (simp add: r' free_descriptor_state_def mark_aborted_def svc_construct_def svc_is_open_def)
qed

text \<open>A reactor with one registered descriptor, on which two reads and an out-of-band operation wait.\<close>

definition waiting_reactor :: "bool reactor" where
  "waiting_reactor = (er_ctor False True (\<lambda>_. \<lparr> ds_descriptor = 5, ds_registered_events = EPOLLIN,
       ds_queue = (\<lambda>ty. case ty of Read_Op \<Rightarrow> [1, 2] | Write_Op \<Rightarrow> [] | Except_Op \<Rightarrow> [3]), ds_speculative = (\<lambda>_. True),
       ds_shutdown = False, ds_task_result = 0 \<rparr>) (\<lambda>_. reactor_op_ctor) False)\<lparr>er_live := [0], er_fresh := 1\<rparr>"

lemma waiting_reactor_facts [simp]:
  "er_inv waiting_reactor" "er_live waiting_reactor = [0]" "\<not> ds_shutdown (er_states waiting_reactor 0)"
  "ds_ops (er_states waiting_reactor 0) = [1, 2, 3]" "er_ops waiting_reactor op = reactor_op_ctor"
  by (auto simp: waiting_reactor_def er_ctor_def er_inv_def ds_ops_def)

theorem perform_io_in_order_witness:
  "\<exists>r'. perform_io (\<lambda>op ro w. (if op = 2 then Not_Done else Done, ro, w)) 0 EPOLLERR waiting_reactor = (Some 3, r') \<and>
    (\<exists>ex wr rd e1 e2 (m :: bool reactor).
      served (\<lambda>op ro w. (if op = 2 then Not_Done else Done, ro, w)) EPOLLERR Except_Op (er_states waiting_reactor 0)
        (er_ops waiting_reactor, er_world waiting_reactor) ex (er_states m 0) e1 \<and>
      served (\<lambda>op ro w. (if op = 2 then Not_Done else Done, ro, w)) EPOLLERR Write_Op (er_states waiting_reactor 0)
        e1 wr (er_states m 0) e2 \<and>
      served (\<lambda>op ro w. (if op = 2 then Not_Done else Done, ro, w)) EPOLLERR Read_Op (er_states waiting_reactor 0)
        e2 rd (er_states m 0) (er_ops m, er_world m) \<and>
      hd (ex @ wr @ rd) = 3)"
proof -
  let ?perform = "\<lambda>op ro w. (if op = 2 then Not_Done else Done, ro, w :: bool)"
  have "fst (perform_io ?perform 0 EPOLLERR waiting_reactor) = Some 3"
    by (simp add: perform_io_def perform_type_def waiting_reactor_def er_ctor_def upd_state_def epoll_bits)
  then obtain r' where io: "perform_io ?perform 0 EPOLLERR waiting_reactor = (Some 3, r')" by (metis prod.collapse)
  obtain ex wr rd e1 e2 m where
    "served ?perform EPOLLERR Except_Op (er_states waiting_reactor 0)
        (er_ops waiting_reactor, er_world waiting_reactor) ex (er_states m 0) e1"
    "served ?perform EPOLLERR Write_Op (er_states waiting_reactor 0) e1 wr (er_states m 0) e2"
    "served ?perform EPOLLERR Read_Op (er_states waiting_reactor 0) e2 rd (er_states m 0) (er_ops m, er_world m)"
    "case ex @ wr @ rd of [] \<Rightarrow> Some 3 = (None :: nat option) \<and> r' = compensating_work_started m
     | op # rest \<Rightarrow> Some 3 = Some op \<and> r' = er_post_deferred rest m"
    using perform_io_in_order [OF io] by blast
  moreover from this(4) have "hd (ex @ wr @ rd) = 3" by (auto split: list.splits)
  ultimately show ?thesis using io by (intro exI conjI)
qed

theorem close_aborts_operations_witness:
  "\<exists>impl' ec r'.
     svc_close mode_os (\<lambda>_ _ _ _ w. ((0, 0), w)) \<lparr> si_socket = 5, si_state = 0, si_reactor_data = Some 0 \<rparr>
       waiting_reactor = (ec, impl', r') \<and>
     ro_ec (er_ops r' 2) = basic operation_aborted \<and> appended [1, 2, 3] waiting_reactor r' \<and> ds_ops (er_states r' 0) = [] \<and>
     \<not> svc_is_open impl'"
proof -
  let ?impl = "\<lparr> si_socket = 5, si_state = 0, si_reactor_data = Some 0 \<rparr>"
  let ?ctl = "\<lambda>_ _ _ _ w. ((0, 0), w)"
  obtain ec impl' r' where c: "svc_close mode_os ?ctl ?impl waiting_reactor = (ec, impl', r')" by (metis prod_cases3)
  have "svc_is_open ?impl" by (simp add: svc_is_open_def)
  then show ?thesis
    using close_aborts_operations [OF _ _ _ _ _ c, of 0] c by (intro exI) auto
qed

end
