(* ===== verification/Asio_Acceptor.thy ===== *)
theory Asio_Acceptor
  imports Asio_Reactor
begin

unbundle bit_operations_syntax

text \<open>
  Sockets and acceptors over the reactor: \<open>src/3rd/asio/include/asio/detail/reactive_socket_service.hpp\<close>, the
  operation of \<open>async_accept\<close> (\<open>detail/reactive_socket_accept_op.hpp\<close>) and the owner of a descriptor that no
  socket has yet (\<open>detail/socket_holder.hpp\<close>). A program is a map of socket objects and one of accept operations, over
  a reactor. The holder of an operation lives where \<open>do_perform\<close> writes it, so it is a part of the environment of
  the reactor, which the system calls leave alone. The addresses of peers are part of the state of the system.
\<close>

section \<open>State\<close>

record 'x acc_world =
  aw_sys :: 'x
  aw_holder :: "nat \<Rightarrow> int"

type_synonym protocol = "int \<times> int \<times> int"

text \<open>The protocol of a default endpoint: \<open>AF_INET\<close>, \<open>SOCK_STREAM\<close>, \<open>IPPROTO_TCP\<close>.\<close>

definition default_protocol :: protocol where
  "default_protocol = (2, 1, 6)"

record rs_impl =
  rs_base :: socket_impl
  rs_protocol :: protocol

record accept_op =
  ao_socket :: int
  ao_state :: state_type
  ao_peer :: nat
  ao_protocol :: protocol

record 'x socket_system =
  sk_impls :: "nat \<Rightarrow> rs_impl"
  sk_accepts :: "nat \<Rightarrow> accept_op"
  sk_reactor :: "'x acc_world reactor"

definition put_base :: "nat \<Rightarrow> socket_impl \<Rightarrow> 'x socket_system \<Rightarrow> 'x socket_system" where
  "put_base p impl s = s\<lparr>sk_impls := (sk_impls s)(p := (sk_impls s p)\<lparr>rs_base := impl\<rparr>)\<rparr>"

definition put_protocol :: "nat \<Rightarrow> protocol \<Rightarrow> 'x socket_system \<Rightarrow> 'x socket_system" where
  "put_protocol p pr s = s\<lparr>sk_impls := (sk_impls s)(p := (sk_impls s p)\<lparr>rs_protocol := pr\<rparr>)\<rparr>"

abbreviation base_of :: "'x socket_system \<Rightarrow> nat \<Rightarrow> socket_impl" where
  "base_of s p \<equiv> rs_base (sk_impls s p)"

definition closed_impl :: rs_impl where
  "closed_impl = \<lparr> rs_base = \<lparr> si_socket = invalid_socket, si_state = 0, si_reactor_data = None \<rparr>, rs_protocol = default_protocol \<rparr>"

section \<open>The holder of a descriptor\<close>

definition set_holder :: "nat \<Rightarrow> int \<Rightarrow> 'x acc_world \<Rightarrow> 'x acc_world" where
  "set_holder op fd w = w\<lparr>aw_holder := (aw_holder w)(op := fd)\<rparr>"

definition holder_reset :: "'x acc_world os \<Rightarrow> nat \<Rightarrow> 'x acc_world \<Rightarrow> 'x acc_world" where
  "holder_reset os op w =
     (if aw_holder w op \<noteq> invalid_socket
      then set_holder op invalid_socket (snd (so_close os (aw_holder w op) 0 True None w)) else w)"

definition holder_reset_to :: "'x acc_world os \<Rightarrow> nat \<Rightarrow> int \<Rightarrow> 'x acc_world \<Rightarrow> 'x acc_world" where
  "holder_reset_to os op fd w = set_holder op fd (holder_reset os op w)"

definition holder_release :: "nat \<Rightarrow> 'x acc_world \<Rightarrow> int \<times> 'x acc_world" where
  "holder_release op w = (aw_holder w op, set_holder op invalid_socket w)"

section \<open>The socket service\<close>

definition rs_open :: "'x acc_world os \<Rightarrow> 'x acc_world ctl \<Rightarrow> protocol \<Rightarrow> nat \<Rightarrow> 'x socket_system \<Rightarrow> error_code \<times> 'x socket_system" where
  "rs_open os ctl pr p s =
     (case pr of (family, type, proto) \<Rightarrow>
       (case svc_do_open os ctl family type proto (base_of s p) (sk_reactor s) of (ec, impl, r) \<Rightarrow>
          let s = (put_base p impl s)\<lparr>sk_reactor := r\<rparr>
          in (ec, if ec = None then put_protocol p pr s else s)))"

definition rs_assign :: "'x acc_world ctl \<Rightarrow> protocol \<Rightarrow> int \<Rightarrow> nat \<Rightarrow> 'x socket_system \<Rightarrow> error_code \<times> 'x socket_system" where
  "rs_assign ctl pr native_socket p s =
     (case svc_do_assign ctl (fst (snd pr)) native_socket (base_of s p) (sk_reactor s) of (ec, impl, r) \<Rightarrow>
        let s = (put_base p impl s)\<lparr>sk_reactor := r\<rparr>
        in (ec, if ec = None then put_protocol p pr s else s))"

definition rs_close :: "'x acc_world os \<Rightarrow> 'x acc_world ctl \<Rightarrow> nat \<Rightarrow> 'x socket_system \<Rightarrow> error_code \<times> 'x socket_system" where
  "rs_close os ctl p s =
     (case svc_close os ctl (base_of s p) (sk_reactor s) of (ec, impl, r) \<Rightarrow> (ec, (put_base p impl s)\<lparr>sk_reactor := r\<rparr>))"

text \<open>The destructor of a socket; its memory may then hold a new, closed one.\<close>

definition rs_destroy :: "'x acc_world os \<Rightarrow> 'x acc_world ctl \<Rightarrow> nat \<Rightarrow> 'x socket_system \<Rightarrow> 'x socket_system" where
  "rs_destroy os ctl p s =
     (case svc_destroy os ctl (base_of s p) (sk_reactor s) of (impl, r) \<Rightarrow>
        s\<lparr>sk_reactor := r, sk_impls := (sk_impls s)(p := closed_impl)\<rparr>)"

definition rs_move_construct :: "nat \<Rightarrow> nat \<Rightarrow> 'x socket_system \<Rightarrow> 'x socket_system" where
  "rs_move_construct p q s =
     (case svc_move_construct (base_of s p) (base_of s q) of (impl, other) \<Rightarrow>
        put_protocol q default_protocol (put_protocol p (rs_protocol (sk_impls s q)) (put_base q other (put_base p impl s))))"

definition rs_move_assign :: "'x acc_world os \<Rightarrow> 'x acc_world ctl \<Rightarrow> nat \<Rightarrow> nat \<Rightarrow> 'x socket_system \<Rightarrow> 'x socket_system" where
  "rs_move_assign os ctl p q s =
     (case svc_move_assign os ctl (base_of s p) (base_of s q) (sk_reactor s) of ((impl, other), r) \<Rightarrow>
        put_protocol q default_protocol (put_protocol p (rs_protocol (sk_impls s q))
          (put_base q other (put_base p impl (s\<lparr>sk_reactor := r\<rparr>)))))"

definition rs_on_world :: "('x acc_world \<Rightarrow> 'a \<times> 'x acc_world) \<Rightarrow> 'x socket_system \<Rightarrow> 'a \<times> 'x socket_system" where
  "rs_on_world f s =
     (case f (er_world (sk_reactor s)) of (a, w) \<Rightarrow> (a, s\<lparr>sk_reactor := (sk_reactor s)\<lparr>er_world := w\<rparr>\<rparr>))"

definition rs_bind :: "'x acc_world os \<Rightarrow> nat \<Rightarrow> 'x socket_system \<Rightarrow> error_code \<times> 'x socket_system" where
  "rs_bind os p s =
     (case rs_on_world (so_bind os (si_socket (base_of s p))) s of ((_, ec), s) \<Rightarrow> (ec, s))"

definition rs_shutdown :: "'x acc_world os \<Rightarrow> int \<Rightarrow> nat \<Rightarrow> 'x socket_system \<Rightarrow> error_code \<times> 'x socket_system" where
  "rs_shutdown os what p s =
     (case rs_on_world (so_shutdown os (si_socket (base_of s p)) what) s of ((_, ec), s) \<Rightarrow> (ec, s))"

definition rs_set_option ::
    "'x acc_world os \<Rightarrow> nat \<Rightarrow> nat \<Rightarrow> int list \<Rightarrow> nat \<Rightarrow> nat \<Rightarrow> 'x socket_system \<Rightarrow> error_code \<times> 'x socket_system" where
  "rs_set_option os level name data optlen p s =
     (case rs_on_world (so_setsockopt os (si_socket (base_of s p)) (si_state (base_of s p)) level name data optlen) s of
        ((_, ec, state), s) \<Rightarrow> (ec, put_base p ((base_of s p)\<lparr>si_state := state\<rparr>) s))"

definition rs_connect :: "'x acc_world os \<Rightarrow> nat \<Rightarrow> 'x socket_system \<Rightarrow> error_code \<times> 'x socket_system" where
  "rs_connect os p s = rs_on_world (sync_connect os (si_socket (base_of s p))) s"

section \<open>Accepting\<close>

text \<open>\<open>accept\<close> for the acceptor \<open>p\<close> and the peer \<open>q\<close>; the local holder closes a descriptor that the peer does not take.\<close>

definition rs_accept ::
    "'x acc_world os \<Rightarrow> 'x acc_world ctl \<Rightarrow> nat \<Rightarrow> nat \<Rightarrow> 'x socket_system \<Rightarrow> (error_code \<times> 'x socket_system) option" where
  "rs_accept os ctl p q s =
     (if svc_is_open (base_of s q) then Some (misc already_open, s)
      else
        (case sync_accept os (si_socket (base_of s p)) (si_state (base_of s p)) (er_world (sk_reactor s)) of
           None \<Rightarrow> None
         | Some ((new_socket, ec), w) \<Rightarrow>
             let s = s\<lparr>sk_reactor := (sk_reactor s)\<lparr>er_world := w\<rparr>\<rparr> in
             Some (if new_socket \<noteq> invalid_socket then
                     (case rs_assign ctl (rs_protocol (sk_impls s p)) new_socket q s of (ec, s) \<Rightarrow>
                        if ec = None then (ec, s)
                        else (ec, snd (rs_on_world (so_close os new_socket 0 True None) s)))
                   else (ec, s))))"

definition accept_do_perform ::
    "'x acc_world os \<Rightarrow> (nat \<Rightarrow> accept_op) \<Rightarrow> nat \<Rightarrow> rop \<Rightarrow> 'x acc_world \<Rightarrow> (op_status \<times> rop \<times> 'x acc_world) option" where
  "accept_do_perform os ops op ro w =
     (case non_blocking_accept os (ao_socket (ops op)) (ao_state (ops op)) w of
        None \<Rightarrow> None
      | Some ((result, new_socket, ec), w) \<Rightarrow>
          Some (if result then Done else Not_Done, ro\<lparr>ro_ec := ec\<rparr>, holder_reset_to os op new_socket w))"

text \<open>\<open>async_accept\<close>: the constructor of the operation and its start.\<close>

definition accept_op_ctor :: "'x socket_system \<Rightarrow> nat \<Rightarrow> nat \<Rightarrow> accept_op" where
  "accept_op_ctor s p q =
     \<lparr> ao_socket = si_socket (base_of s p), ao_state = si_state (base_of s p), ao_peer = q,
       ao_protocol = rs_protocol (sk_impls s p) \<rparr>"

definition rs_async_accept ::
    "'x acc_world os \<Rightarrow> 'x acc_world ctl \<Rightarrow> 'x acc_world perform \<Rightarrow> bool \<Rightarrow> nat \<Rightarrow> nat \<Rightarrow> nat \<Rightarrow> 'x socket_system \<Rightarrow>
     'x socket_system" where
  "rs_async_accept os ctl perform is_continuation p q op s =
     (let impl = base_of s p; r = sk_reactor s;
          r = r\<lparr>er_ops := (er_ops r)(op := reactor_op_ctor), er_world := set_holder op invalid_socket (er_world r)\<rparr>
      in (case svc_start_accept_op os ctl perform op is_continuation (svc_is_open (base_of s q)) impl r of (impl, r) \<Rightarrow>
            put_base p impl (s\<lparr>sk_reactor := r, sk_accepts := (sk_accepts s)(op := accept_op_ctor s p q)\<rparr>)))"

definition accept_do_assign :: "'x acc_world ctl \<Rightarrow> nat \<Rightarrow> 'x socket_system \<Rightarrow> 'x socket_system" where
  "accept_do_assign ctl op s =
     (let ao = sk_accepts s op; new_socket = aw_holder (er_world (sk_reactor s)) op in
      if new_socket \<noteq> invalid_socket then
        (case rs_assign ctl (ao_protocol ao) new_socket (ao_peer ao) s of (ec, s) \<Rightarrow>
           let s = s\<lparr>sk_reactor := set_ec op ec (sk_reactor s)\<rparr>
           in if ec = None then snd (rs_on_world (holder_release op) s) else s)
      else s)"

text \<open>\<open>do_complete\<close>: the error the handler gets, if it is called, after the operation is destroyed.\<close>

definition accept_do_complete ::
    "'x acc_world os \<Rightarrow> 'x acc_world ctl \<Rightarrow> bool \<Rightarrow> nat \<Rightarrow> 'x socket_system \<Rightarrow> error_code option \<times> 'x socket_system" where
  "accept_do_complete os ctl owner op s =
     (let s = (if owner then accept_do_assign ctl op s else s);
          ec = ro_ec (er_ops (sk_reactor s) op);
          s = snd (rs_on_world (\<lambda>w. ((), holder_reset os op w)) s)
      in (if owner then Some ec else None, s))"

section \<open>Who owns a descriptor\<close>

text \<open>The owners are the sockets and the holders of the operations; the descriptors \<open>F\<close> that are open in the process
  are owned, each by one of them.\<close>

definition owned :: "('o \<Rightarrow> int) \<Rightarrow> int set \<Rightarrow> bool" where
  "owned own F \<longleftrightarrow> F = range own - {invalid_socket} \<and> (\<forall>x y. own x = own y \<longrightarrow> own x \<noteq> invalid_socket \<longrightarrow> x = y)"

lemma owned_take: "owned own F \<Longrightarrow> own x = invalid_socket \<Longrightarrow> fd \<notin> F \<Longrightarrow> fd \<noteq> invalid_socket \<Longrightarrow> owned (own(x := fd)) (insert fd F)"
  by (auto simp: owned_def)

lemma owned_drop: "owned own F \<Longrightarrow> owned (own(x := invalid_socket)) (F - {own x})"
  by (auto simp: owned_def)

lemma owned_move:
  "owned own F \<Longrightarrow> own y = invalid_socket \<Longrightarrow> x \<noteq> y \<Longrightarrow> owned (own(x := invalid_socket, y := own x)) F"
proof (cases "own x = invalid_socket")
  case False
  assume a: "owned own F" "own y = invalid_socket" "x \<noteq> y"
  from owned_take [OF owned_drop [OF a(1), of x], of y "own x"] a(2,3) False
  have "owned (own(x := invalid_socket, y := own x)) (insert (own x) (F - {own x}))" by simp
  moreover have "own x \<in> F" using a(1) False by (auto simp: owned_def)
  ultimately show ?thesis by (simp add: insert_absorb)
qed (simp add: fun_upd_idem)

definition owner_map :: "(nat \<Rightarrow> rs_impl) \<Rightarrow> (nat \<Rightarrow> int) \<Rightarrow> nat + nat \<Rightarrow> int" where
  "owner_map impls holder x = (case x of Inl p \<Rightarrow> si_socket (rs_base (impls p)) | Inr op \<Rightarrow> holder op)"

text \<open>What Linux documents of its calls: \<open>socket\<close> and \<open>accept\<close> return a new descriptor or none, \<open>close\<close> always frees the
  descriptor and does not report that it would block, and no other call opens or closes one.\<close>

definition keeps_fds :: "('x \<Rightarrow> int set) \<Rightarrow> 'x acc_world \<Rightarrow> 'x acc_world \<Rightarrow> bool" where
  "keeps_fds fds w w' \<longleftrightarrow> aw_holder w' = aw_holder w \<and> fds (aw_sys w') = fds (aw_sys w)"

definition new_fd :: "('x \<Rightarrow> int set) \<Rightarrow> 'x acc_world \<Rightarrow> int \<Rightarrow> 'x acc_world \<Rightarrow> bool" where
  "new_fd fds w fd w' \<longleftrightarrow> aw_holder w' = aw_holder w \<and>
     (if fd = invalid_socket then fds (aw_sys w') = fds (aw_sys w)
      else fd \<notin> fds (aw_sys w) \<and> fds (aw_sys w') = insert fd (fds (aw_sys w)))"

definition fd_contract :: "'x acc_world os \<Rightarrow> 'x acc_world ctl \<Rightarrow> ('x \<Rightarrow> int set) \<Rightarrow> bool" where
  "fd_contract os ctl fds \<longleftrightarrow>
     (\<forall>s w. case sys_accept os s w of ((n, _), w') \<Rightarrow> new_fd fds w n w') \<and>
     (\<forall>a b c w. case sys_socket os a b c w of ((n, _), w') \<Rightarrow> new_fd fds w n w') \<and>
     (\<forall>s w. case sys_close os s w of ((n, e), w') \<Rightarrow>
        aw_holder w' = aw_holder w \<and> fds (aw_sys w') = fds (aw_sys w) - {s} \<and> (n \<noteq> 0 \<longrightarrow> e \<noteq> E_AGAIN)) \<and>
     (\<forall>s w. keeps_fds fds w (snd (sys_bind os s w))) \<and>
     (\<forall>s w. keeps_fds fds w (snd (sys_connect os s w))) \<and>
     (\<forall>s a w. keeps_fds fds w (snd (sys_listen os s a w))) \<and>
     (\<forall>s a w. keeps_fds fds w (snd (sys_shutdown os s a w))) \<and>
     (\<forall>s a b w. keeps_fds fds w (snd (sys_poll os s a b w))) \<and>
     (\<forall>s a b w. keeps_fds fds w (snd (sys_ioctl os s a b w))) \<and>
     (\<forall>s a b c w. keeps_fds fds w (snd (sys_setsockopt os s a b c w))) \<and>
     (\<forall>s a b c w. keeps_fds fds w (snd (sys_getsockopt os s a b c w))) \<and>
     (\<forall>a d e p w. keeps_fds fds w (snd (ctl a d e p w)))"

definition own_ok :: "('x \<Rightarrow> int set) \<Rightarrow> 'x socket_system \<Rightarrow> bool" where
  "own_ok fds s \<longleftrightarrow>
     owned (owner_map (sk_impls s) (aw_holder (er_world (sk_reactor s)))) (fds (aw_sys (er_world (sk_reactor s))))"

section \<open>Calls and the descriptors\<close>

lemma owner_map_upd [simp]:
  "owner_map impls (h(op := fd)) = (owner_map impls h)(Inr op := fd)"
  "owner_map (impls(p := i)) h = (owner_map impls h)(Inl p := si_socket (rs_base i))"
  by (auto simp: owner_map_def fun_eq_iff split: sum.split)

lemma keeps_refl [simp]: "keeps_fds fds w w" by (simp add: keeps_fds_def)

lemma keeps_trans: "keeps_fds fds w w1 \<Longrightarrow> keeps_fds fds w1 w2 \<Longrightarrow> keeps_fds fds w w2"
  by (simp add: keeps_fds_def)

lemma new_fd_keeps: "keeps_fds fds w w1 \<Longrightarrow> new_fd fds w1 fd w2 \<Longrightarrow> new_fd fds w fd w2"
  by (auto simp: keeps_fds_def new_fd_def split: if_splits)

lemma new_fd_invalid: "new_fd fds w invalid_socket w' \<longleftrightarrow> keeps_fds fds w w'"
  by (simp add: keeps_fds_def new_fd_def)

lemma contract_accept: "fd_contract os ctl fds \<Longrightarrow> sys_accept os s w = ((n, e), w') \<Longrightarrow> new_fd fds w n w'"
  unfolding fd_contract_def by (metis (mono_tags, lifting) old.prod.case)

lemma contract_socket: "fd_contract os ctl fds \<Longrightarrow> sys_socket os a b c w = ((n, e), w') \<Longrightarrow> new_fd fds w n w'"
  unfolding fd_contract_def by (metis (mono_tags, lifting) old.prod.case)

lemma contract_close:
  assumes "fd_contract os ctl fds" "sys_close os s w = ((n, e), w')"
  shows "aw_holder w' = aw_holder w \<and> fds (aw_sys w') = fds (aw_sys w) - {s} \<and> (n \<noteq> 0 \<longrightarrow> e \<noteq> E_AGAIN)"
proof -
  from assms(1) have "case sys_close os s w of ((n, e), w') \<Rightarrow>
      aw_holder w' = aw_holder w \<and> fds (aw_sys w') = fds (aw_sys w) - {s} \<and> (n \<noteq> 0 \<longrightarrow> e \<noteq> E_AGAIN)"
    by (auto simp: fd_contract_def)
  with assms(2) show ?thesis by simp
qed

lemma contract_keeps:
  assumes "fd_contract os ctl fds"
  shows "keeps_fds fds w (snd (sys_bind os s w))" "keeps_fds fds w (snd (sys_connect os s w))"
    "keeps_fds fds w (snd (sys_listen os s a w))" "keeps_fds fds w (snd (sys_shutdown os s a w))"
    "keeps_fds fds w (snd (sys_poll os s i j w))" "keeps_fds fds w (snd (sys_ioctl os s i j w))"
    "keeps_fds fds w (snd (sys_setsockopt os s i m l w))" "keeps_fds fds w (snd (sys_getsockopt os s i m k w))"
    "keeps_fds fds w (snd (ctl c s e k w))"
  using assms by (simp_all add: fd_contract_def)

lemma contract_keepsD:
  assumes "fd_contract os ctl fds"
  shows "sys_bind os s w = (x, w') \<Longrightarrow> keeps_fds fds w w'" "sys_connect os s w = (x, w') \<Longrightarrow> keeps_fds fds w w'"
    "sys_shutdown os s a w = (x, w') \<Longrightarrow> keeps_fds fds w w'" "sys_poll os s i j w = (x, w') \<Longrightarrow> keeps_fds fds w w'"
    "sys_ioctl os s i j w = (y, w') \<Longrightarrow> keeps_fds fds w w'" "sys_setsockopt os s i m l w = (x, w') \<Longrightarrow> keeps_fds fds w w'"
    "sys_getsockopt os s i m k w = (z, w') \<Longrightarrow> keeps_fds fds w w'" "ctl c s e k w = (x, w') \<Longrightarrow> keeps_fds fds w w'"
  using contract_keeps [OF assms] by (metis snd_conv)+

lemma so_setsockopt_keeps:
  "fd_contract os ctl fds \<Longrightarrow> keeps_fds fds w (snd (so_setsockopt os s st l n v k w))"
  by (auto simp: so_setsockopt_def Let_def split: prod.split dest: contract_keepsD)

lemma so_connect_keeps: "fd_contract os ctl fds \<Longrightarrow> keeps_fds fds w (snd (so_connect os s w))"
  by (auto simp: so_connect_def Let_def split: prod.split dest: contract_keepsD)

lemma so_getsockopt_keeps:
  "fd_contract os ctl fds \<Longrightarrow> keeps_fds fds w (snd (so_getsockopt os s st l n k w))"
  by (auto simp: so_getsockopt_def Let_def split: prod.split dest: contract_keepsD)

lemma poll_keeps:
  "fd_contract os ctl fds \<Longrightarrow> keeps_fds fds w (snd (poll_for os e s st msec w))"
  "fd_contract os ctl fds \<Longrightarrow> keeps_fds fds w (snd (poll_connect os s msec w))"
  by (auto simp: poll_for_def poll_connect_def Let_def split: prod.split dest: contract_keepsD)

lemma set_internal_keeps:
  "fd_contract os ctl fds \<Longrightarrow> keeps_fds fds w (snd (set_internal_non_blocking os s st v w))"
  by (auto simp: set_internal_non_blocking_def Let_def split: prod.split dest: contract_keepsD)

lemma sync_connect_keeps: "fd_contract os ctl fds \<Longrightarrow> keeps_fds fds w (snd (sync_connect os s w))"
  unfolding sync_connect_def
  using so_connect_keeps [of os ctl fds] poll_keeps [of os ctl fds] so_getsockopt_keeps [of os ctl fds]
  by (auto split: prod.split) (metis keeps_trans snd_conv)+

lemma so_close_closes:
  assumes "fd_contract os ctl fds" "s \<noteq> invalid_socket" "so_close os s st d ec w = (x, w')"
  shows "aw_holder w' = aw_holder w \<and> fds (aw_sys w') = fds (aw_sys w) - {s}"
proof -
  obtain y w1 where o: "(if d \<and> has st user_set_linger then so_setsockopt os s st SOL_SOCKET SO_LINGER [0, 0] 8 w
      else ((0, None, st), w)) = (y, w1)" by fastforce
  then have k: "keeps_fds fds w w1"
    using so_setsockopt_keeps [OF assms(1), of w s st SOL_SOCKET SO_LINGER "[0, 0]" 8] by (auto split: if_splits)
  obtain n e w2 where c: "sys_close os s w1 = ((n, e), w2)" by (metis surj_pair)
  note closed = contract_close [OF assms(1) c]
  then have "\<not> (n \<noteq> 0 \<and> (get_last_error e (n \<noteq> 0) = basic would_block \<or> get_last_error e (n \<noteq> 0) = basic try_again))"
    by (auto simp: get_last_error_def sys_error_def basic_def errno_defs)
  then have "w' = w2" using assms(2,3) o c by (auto simp: so_close_def Let_def split: prod.splits if_splits)
  with closed k show ?thesis by (simp add: keeps_fds_def)
qed

lemma so_accept_new: "fd_contract os ctl fds \<Longrightarrow> so_accept os s w = ((n, e), w') \<Longrightarrow> new_fd fds w n w'"
  by (auto simp: so_accept_def new_fd_invalid split: if_splits prod.splits dest: contract_accept)

lemma non_blocking_accept_new:
  assumes "fd_contract os ctl fds" "non_blocking_accept os s st w = Some ((res, n, ec), w')"
  shows "new_fd fds w n w'"
proof -
  have "new_fd fds w (fst (snd (fst r))) (snd r)" if "non_blocking_accept os s st w = Some r" for r
    using that assms(1)
  proof (induction rule: non_blocking_accept.raw_induct [rotated 1, consumes 1])
    case (1 loop os s st w r)
    obtain n e w1 where a: "so_accept os s w = ((n, e), w1)" by (metis surj_pair)
    then have new: "new_fd fds w n w1" using 1 by (auto intro: so_accept_new)
    show ?case
    proof (cases "n = invalid_socket \<and> e = basic interrupted")
      case True
      then have "new_fd fds w1 (fst (snd (fst r))) (snd r)" using 1 a by auto
      with new True show ?thesis by (auto simp: new_fd_invalid intro: new_fd_keeps)
    next
      case False
      with 1 a have "fst (snd (fst r)) = n \<and> snd r = w1" by (auto simp: Let_def split: if_splits)
      with new show ?thesis by simp
    qed
  qed
  with assms(2) show ?thesis by fastforce
qed

lemma sync_accept_new:
  assumes "fd_contract os ctl fds" "sync_accept os s st w = Some ((n, ec), w')"
  shows "new_fd fds w n w' \<and> (n \<noteq> invalid_socket \<longrightarrow> ec = None)"
proof -
  have "new_fd fds w (fst (fst r)) (snd r) \<and> (fst (fst r) \<noteq> invalid_socket \<longrightarrow> snd (fst r) = None)"
    if "sync_accept os s st w = Some r" for r
    using that assms(1)
  proof (induction rule: sync_accept.raw_induct [rotated 1, consumes 1])
    case (1 loop os s st w r)
    obtain n e w1 where a: "so_accept os s w = ((n, e), w1)" by (metis surj_pair)
    then have new: "new_fd fds w n w1" using 1 by (auto intro: so_accept_new)
    obtain b e' w2 where poll: "poll_read os s 0 (- 1) w1 = ((b, e'), w2)" by (metis surj_pair)
    then have k: "keeps_fds fds w1 w2" using poll_keeps(1) [of os ctl fds] 1 by (metis poll_read_def snd_conv)
    show ?case
    proof (cases "n = invalid_socket")
      case True
      with new have k0: "keeps_fds fds w w1" by (simp add: new_fd_invalid)
      from True 1(2) a poll have "r = ((invalid_socket, e), w1) \<or> r = ((invalid_socket, e'), w2) \<or> loop os s st w2 = Some r"
        by (auto simp: Let_def split: if_splits)
      then show ?thesis
      proof (elim disjE)
        assume "loop os s st w2 = Some r"
        with 1 have "new_fd fds w2 (fst (fst r)) (snd r) \<and> (fst (fst r) \<noteq> invalid_socket \<longrightarrow> snd (fst r) = None)" by blast
        with keeps_trans [OF k0 k] show ?thesis by (blast intro: new_fd_keeps)
      qed (use k0 k in \<open>auto simp: new_fd_invalid intro: keeps_trans\<close>)
    next
      case False
      then have "e = None" using a by (auto simp: so_accept_def split: if_splits prod.splits)
      with 1 a False new show ?thesis by auto
    qed
  qed
  with assms(2) show ?thesis by fastforce
qed

text \<open>The invariant over the environment of the reactor, for the sockets \<open>impls\<close>.\<close>

definition own_world :: "('x \<Rightarrow> int set) \<Rightarrow> (nat \<Rightarrow> rs_impl) \<Rightarrow> 'x acc_world \<Rightarrow> bool" where
  "own_world fds impls w \<longleftrightarrow> owned (owner_map impls (aw_holder w)) (fds (aw_sys w))"

lemma own_world_keeps: "keeps_fds fds w w' \<Longrightarrow> own_world fds impls w' = own_world fds impls w"
  by (simp add: keeps_fds_def own_world_def)

lemma own_world_sockets:
  "\<forall>p. si_socket (rs_base (impls' p)) = si_socket (rs_base (impls p)) \<Longrightarrow> own_world fds impls' w = own_world fds impls w"
  by (simp add: own_world_def owner_map_def [abs_def])

lemma set_holder_simps [simp]:
  "aw_holder (set_holder op fd w) = (aw_holder w)(op := fd)" "aw_sys (set_holder op fd w) = aw_sys w"
  by (simp_all add: set_holder_def)

lemma holder_reset_closes:
  assumes "fd_contract os ctl fds"
  shows "aw_holder (holder_reset os op w) = (aw_holder w)(op := invalid_socket) \<and>
    fds (aw_sys (holder_reset os op w)) =
      (if aw_holder w op = invalid_socket then fds (aw_sys w) else fds (aw_sys w) - {aw_holder w op})"
proof (cases "aw_holder w op = invalid_socket")
  case True
  then show ?thesis by (auto simp: holder_reset_def fun_upd_idem)
next
  case False
  obtain x w1 where "so_close os (aw_holder w op) 0 True None w = (x, w1)" by fastforce
  with so_close_closes [OF assms False this] False show ?thesis by (simp add: holder_reset_def)
qed

lemma holder_reset_own: "fd_contract os ctl fds \<Longrightarrow> own_world fds impls w \<Longrightarrow> own_world fds impls (holder_reset os op w)"
  using holder_reset_closes [of os ctl fds op w] owned_drop [of "owner_map impls (aw_holder w)" "fds (aw_sys w)" "Inr op"]
  by (auto simp: own_world_def owner_map_def fun_upd_idem split: if_splits)

lemma holder_take_own:
  assumes c: "fd_contract os ctl fds" and own: "own_world fds impls w" and new: "new_fd fds w fd w'"
  shows "own_world fds impls (holder_reset_to os op fd w')"
proof (cases "fd = invalid_socket")
  case True
  then have "own_world fds impls w'" using own new own_world_keeps by (auto simp: new_fd_invalid)
  from holder_reset_own [OF c this, of op] True holder_reset_closes [OF c, of op w'] show ?thesis
    by (simp add: holder_reset_to_def own_world_def)
next
  case False
  let ?F = "fds (aw_sys w)" and ?own = "owner_map impls (aw_holder w)" and ?old = "aw_holder w op"
  from new False have n: "aw_holder w' = aw_holder w" "fd \<notin> ?F" "fds (aw_sys w') = insert fd ?F" by (simp_all add: new_fd_def)
  have o: "owned ?own ?F" using own by (simp add: own_world_def)
  let ?F' = "if ?old = invalid_socket then ?F else ?F - {?old}"
  have old: "?own (Inr op) = ?old" by (simp add: owner_map_def)
  have drop: "owned (?own(Inr op := invalid_socket)) ?F'"
    using owned_drop [OF o, of "Inr op"] o old by (cases "?old = invalid_socket") (simp_all add: fun_upd_idem)
  have "?F = range ?own - {invalid_socket}" using o by (simp add: owned_def)
  with old have "?old \<noteq> invalid_socket \<Longrightarrow> ?old \<in> ?F" using rangeI [of ?own "Inr op"] by simp
  then have "fds (aw_sys (holder_reset os op w')) = insert fd ?F'"
    using holder_reset_closes [OF c, of op w'] n by auto
  moreover have "owned (?own(Inr op := fd)) (insert fd ?F')"
    using owned_take [OF drop, of "Inr op" fd] n(2) False by simp
  ultimately show ?thesis
    using holder_reset_closes [OF c, of op w'] n(1) by (simp add: holder_reset_to_def own_world_def)
qed

lemma accept_do_perform_own:
  assumes "fd_contract os ctl fds" "own_world fds impls w" "accept_do_perform os ops op ro w = Some (st, ro', w')"
  shows "own_world fds impls w'"
  using assms(3) holder_take_own [OF assms(1,2) non_blocking_accept_new [OF assms(1)]]
  by (auto simp: accept_do_perform_def split: option.splits)

section \<open>The reactor and its environment\<close>

lemma er_world_simps [simp]:
  "er_world (er_post_immediate op c r) = er_world r" "er_world (er_post_deferred ops r) = er_world r"
  "er_world (set_ec op ec r) = er_world r" "er_world (upd_state p f r) = er_world r"
  "er_world (enqueue_op ty p op r) = er_world r" "er_world (compensating_work_started r) = er_world r"
  "er_world (er_work_started r) = er_world r" "er_world (free_descriptor_state p r) = er_world r"
  "er_world (cleanup_descriptor_data d r) = er_world r"
  by (simp_all add: er_post_immediate_def er_post_deferred_def set_ec_def upd_state_def enqueue_op_def er_work_started_def
      compensating_work_started_def free_descriptor_state_def cleanup_descriptor_data_def split: prod.split option.split)

lemma fold_set_ec_world [simp]: "er_world (fold (\<lambda>op. set_ec op ec) ops r) = er_world r"
  by (induction ops arbitrary: r) simp_all

lemma take_ops_world: "take_ops p r = (ops, r') \<Longrightarrow> er_world r' = er_world r"
  by (auto simp: take_ops_def Let_def)

lemma cancel_ops_world [simp]: "er_world (cancel_ops d r) = er_world r"
  by (auto simp: cancel_ops_def take_ops_world split: option.split prod.split)

definition ctl_keeps :: "('w \<Rightarrow> bool) \<Rightarrow> 'w ctl \<Rightarrow> bool" where
  "ctl_keeps P ctl \<longleftrightarrow> (\<forall>a d e p w. P w \<longrightarrow> P (snd (ctl a d e p w)))"

definition perform_keeps :: "('w \<Rightarrow> bool) \<Rightarrow> 'w perform \<Rightarrow> bool" where
  "perform_keeps P perform \<longleftrightarrow> (\<forall>op ro w. P w \<longrightarrow> P (snd (snd (perform op ro w))))"

lemma ctl_keepsD: "ctl_keeps P ctl \<Longrightarrow> P w \<Longrightarrow> ctl a d e p w = (x, w') \<Longrightarrow> P w'"
  unfolding ctl_keeps_def by (metis snd_conv)

lemma perform_keepsD: "perform_keeps P perform \<Longrightarrow> P w \<Longrightarrow> perform op ro w = (st, ro', w') \<Longrightarrow> P w'"
  unfolding perform_keeps_def by (metis snd_conv)

lemma register_world:
  assumes "ctl_keeps P ctl" "P (er_world r)" "register_descriptor ctl d r = (err, p, r')"
  shows "P (er_world r')"
  using assms(2,3)
  by (auto simp: register_descriptor_def allocate_descriptor_state_def Let_def split: list.splits prod.splits if_splits
      dest: ctl_keepsD [OF assms(1)])

lemma deregister_world:
  assumes "ctl_keeps P ctl" "P (er_world r)" "deregister_descriptor ctl d data closing r = (x, r')"
  shows "P (er_world r')"
  using assms ctl_keepsD [OF assms(1,2)] unfolding ctl_keeps_def
  by (auto simp: deregister_descriptor_def Let_def split: option.splits prod.splits if_splits dest: take_ops_world)

lemma add_write_event_world:
  assumes "ctl_keeps P ctl" "P (er_world r)" "add_write_event ctl d p r = (ec, r')"
  shows "P (er_world r')"
  using assms(2,3)
  by (auto simp: add_write_event_def Let_def split: prod.splits if_splits dest: ctl_keepsD [OF assms(1)])

lemma er_start_op_world:
  assumes "ctl_keeps P ctl" "perform_keeps P perform" "P (er_world r)"
  shows "P (er_world (er_start_op ctl perform ty d data op c spec r))"
proof (cases data)
  case None
  with assms(3) show ?thesis by (simp add: er_start_op_def)
next
  case (Some p)
  have mod: "ctl a d e p (er_world r) = (x, w') \<Longrightarrow> P w'" for a e x w'
    using ctl_keepsD [OF assms(1,3)] .
  obtain st r1 where t: "(if ds_speculative (er_states r p) ty then
      (case perform op (er_ops r op) (er_world r) of (st, ro, w) \<Rightarrow> (st, r\<lparr>er_ops := (er_ops r)(op := ro), er_world := w\<rparr>))
      else (Not_Done, r)) = (st, r1)" by fastforce
  then have r1: "P (er_world r1)"
    using assms(3) perform_keepsD [OF assms(2,3)] by (auto split: if_splits prod.splits)
  obtain ec r2 where a: "add_write_event ctl d p r1 = (ec, r2)" by fastforce
  have r2: "P (er_world r2)" by (rule add_write_event_world [OF assms(1) r1 a])
  show ?thesis
    using assms(3) r1 r2 mod unfolding er_start_op_def Some
    by (auto simp: Let_def t a split: prod.split)
qed

lemma perform_loop_world:
  assumes "perform_keeps P perform"
  shows "P w \<Longrightarrow> perform_loop perform q h w = (out, left, h', w', sp) \<Longrightarrow> P w'"
proof (induction q arbitrary: h w out)
  case (Cons op q)
  obtain st ro w1 where p: "perform op (h op) w = (st, ro, w1)" by (metis prod_cases3)
  have w1: "P w1" using perform_keepsD [OF assms Cons.prems(1) p] .
  show ?case
  proof (cases st)
    case Done
    obtain out1 where "perform_loop perform q (h(op := ro)) w1 = (out1, left, h', w', sp)"
      using Cons.prems(2) p Done by (auto simp: Let_def split: prod.splits)
    with Cons.IH w1 show ?thesis by blast
  qed (use Cons.prems(2) p w1 in \<open>auto simp: Let_def\<close>)
qed simp

lemma perform_type_world:
  assumes "perform_keeps P perform" "P (er_world r)" "perform_type perform p events ty (ops, r) = (ops', r')"
  shows "P (er_world r')"
  using assms(2,3)
  by (auto simp: perform_type_def split: prod.splits if_splits dest: perform_loop_world [OF assms(1)])

lemma perform_io_world:
  assumes "perform_keeps P perform" "P (er_world r)"
  shows "P (er_world (snd (perform_io perform p events r)))"
proof -
  obtain o1 r1 where 1: "perform_type perform p events Except_Op ([], r) = (o1, r1)" by fastforce
  obtain o2 r2 where 2: "perform_type perform p events Write_Op (o1, r1) = (o2, r2)" by fastforce
  obtain o3 r3 where 3: "perform_type perform p events Read_Op (o2, r2) = (o3, r3)" by fastforce
  note w = perform_type_world [OF assms(1)]
  have "P (er_world r3)" by (rule w [OF w [OF w [OF assms(2) 1] 2] 3])
  then show ?thesis by (simp add: perform_io_def 1 2 3 split: list.split)
qed

section \<open>Every operation keeps the owners\<close>

lemma own_ctl: "fd_contract os ctl fds \<Longrightarrow> ctl_keeps (own_world fds impls) ctl"
  unfolding ctl_keeps_def using contract_keeps(9) [of os ctl fds] own_world_keeps by blast

text \<open>An operation is an accept, or it leaves the descriptors and the holders alone.\<close>

definition performs :: "'x acc_world os \<Rightarrow> ('x \<Rightarrow> int set) \<Rightarrow> (nat \<Rightarrow> accept_op) \<Rightarrow> 'x acc_world perform \<Rightarrow> bool" where
  "performs os fds ops perform \<longleftrightarrow>
     (\<forall>op ro w. accept_do_perform os ops op ro w = Some (perform op ro w) \<or> keeps_fds fds w (snd (snd (perform op ro w))))"

lemma own_perform:
  assumes "fd_contract os ctl fds" "performs os fds ops perform"
  shows "perform_keeps (own_world fds impls) perform"
  unfolding perform_keeps_def
proof (intro allI impI)
  fix op ro w
  assume w: "own_world fds impls w"
  obtain st ro' w' where p: "perform op ro w = (st, ro', w')" by (metis prod_cases3)
  from assms(2) consider "accept_do_perform os ops op ro w = Some (st, ro', w')" | "keeps_fds fds w w'"
    unfolding performs_def using p by (metis snd_conv)
  then show "own_world fds impls (snd (snd (perform op ro w)))"
  proof cases
    case 1
    with p accept_do_perform_own [OF assms(1) w] show ?thesis by simp
  next
    case 2
    with p w own_world_keeps [OF 2] show ?thesis by simp
  qed
qed

text \<open>The two ways in which the state of a socket object changes.\<close>

lemma own_ok_world: "own_ok fds s \<longleftrightarrow> own_world fds (sk_impls s) (er_world (sk_reactor s))"
  by (simp add: own_ok_def own_world_def)

lemma own_world_put:
  "si_socket impl = si_socket (rs_base (impls p)) \<Longrightarrow>
   own_world fds (impls(p := (impls p)\<lparr>rs_base := impl\<rparr>)) w = own_world fds impls w"
  by (rule own_world_sockets) simp

lemma owner_fields:
  "sk_impls (put_base p impl s) = (sk_impls s)(p := (sk_impls s p)\<lparr>rs_base := impl\<rparr>)"
  "sk_reactor (put_base p impl s) = sk_reactor s" "sk_reactor (put_protocol p pr s) = sk_reactor s"
  "sk_accepts (put_base p impl s) = sk_accepts s" "sk_accepts (put_protocol p pr s) = sk_accepts s"
  by (simp_all add: put_base_def put_protocol_def)

lemma put_protocol_own [simp]: "own_ok fds (put_protocol p pr s) = own_ok fds s"
  unfolding own_ok_world owner_fields by (rule own_world_sockets) (simp add: put_protocol_def)

lemma own_world_new:
  assumes "own_world fds impls w" "new_fd fds w fd w'" "si_socket (rs_base (impls p)) = invalid_socket" "si_socket impl = fd"
    "fd \<noteq> invalid_socket"
  shows "own_world fds (impls(p := (impls p)\<lparr>rs_base := impl\<rparr>)) w'"
proof -
  have "owner_map impls (aw_holder w) (Inl p) = invalid_socket" using assms(3) by (simp add: owner_map_def)
  with owned_take [of "owner_map impls (aw_holder w)" "fds (aw_sys w)" "Inl p" fd] assms show ?thesis
    by (simp add: own_world_def new_fd_def)
qed

lemma own_world_close:
  assumes c: "fd_contract os ctl fds" and w: "own_world fds impls w" "si_socket (rs_base (impls p)) \<noteq> invalid_socket"
    and "so_close os (si_socket (rs_base (impls p))) st d ec w = (x, w')" "si_socket (rs_base i) = invalid_socket"
  shows "own_world fds (impls(p := i)) w'"
  using so_close_closes [OF c w(2) assms(4)] owned_drop [of "owner_map impls (aw_holder w)" "fds (aw_sys w)" "Inl p"] w(1) assms(5)
  by (simp add: own_world_def owner_map_def [of impls "aw_holder w" "Inl p"])

lemma own_world_move:
  assumes "own_world fds impls w" "si_socket (rs_base (impls p)) = invalid_socket" "p \<noteq> q"
    "si_socket (rs_base i) = si_socket (rs_base (impls q))" "si_socket (rs_base j) = invalid_socket"
  shows "own_world fds (impls(q := j, p := i)) w"
  using owned_move [of "owner_map impls (aw_holder w)" "fds (aw_sys w)" "Inl p" "Inl q"] assms
  by (simp add: own_world_def owner_map_def [of impls "aw_holder w" "Inl p"] owner_map_def [of impls "aw_holder w" "Inl q"])

lemma new_fd_ctl: "fd_contract os ctl fds \<Longrightarrow> ctl_keeps (\<lambda>w'. new_fd fds w fd w') ctl"
  unfolding ctl_keeps_def using contract_keeps(9) [of os ctl fds] by (auto simp: new_fd_def keeps_fds_def)

lemma own_world_new_close:
  assumes "fd_contract os ctl fds" "own_world fds impls w" "new_fd fds w fd w1" "fd \<noteq> invalid_socket"
    "so_close os fd st d ec w1 = (x, w2)"
  shows "own_world fds impls w2"
proof -
  have "keeps_fds fds w w2"
    using so_close_closes [OF assms(1,4,5)] assms(3,4) by (auto simp: new_fd_def keeps_fds_def)
  with assms(2) show ?thesis using own_world_keeps by blast
qed

lemma assign_cases:
  assumes "ctl_keeps P ctl" "P (er_world r)" "svc_do_assign ctl ty fd impl r = (ec, impl', r')"
  shows "P (er_world r') \<and> (ec = None \<longrightarrow> si_socket impl = invalid_socket \<and> si_socket impl' = fd) \<and>
    (ec \<noteq> None \<longrightarrow> si_socket impl' = si_socket impl)"
proof (cases "svc_is_open impl")
  case True
  with assms show ?thesis by (auto simp: svc_do_assign_def misc_def)
next
  case False
  obtain err p r1 where reg: "register_descriptor ctl fd r = (err, p, r1)" by (metis prod_cases3)
  have "P (er_world r1)" by (rule register_world [OF assms(1,2) reg])
  with False assms(3) reg show ?thesis by (auto simp: svc_do_assign_def svc_is_open_def sys_error_def Let_def split: if_splits)
qed

lemma rs_open_ok:
  assumes c: "fd_contract os ctl fds" and ok: "own_ok fds s"
  shows "own_ok fds (snd (rs_open os ctl pr p s))"
proof -
  obtain f t n where pr: "pr = (f, t, n)" by (metis prod_cases3)
  obtain ec impl r where o: "svc_do_open os ctl f t n (base_of s p) (sk_reactor s) = (ec, impl, r)" by (metis prod_cases3)
  have w: "own_world fds (sk_impls s) (er_world (sk_reactor s))" using ok by (simp add: own_ok_world)
  have "own_world fds ((sk_impls s)(p := (sk_impls s p)\<lparr>rs_base := impl\<rparr>)) (er_world r)"
  proof (cases "svc_is_open (base_of s p)")
    case True
    with o w show ?thesis by (simp add: svc_do_open_def own_world_put)
  next
    case False
    then have closed: "si_socket (base_of s p) = invalid_socket" by (simp add: svc_is_open_def)
    obtain fd e w1 where sock: "so_socket os f t n (er_world (sk_reactor s)) = ((fd, e), w1)" by (metis surj_pair)
    then have new: "new_fd fds (er_world (sk_reactor s)) fd w1"
      using contract_socket [OF c] by (auto simp: so_socket_def split: prod.splits)
    show ?thesis
    proof (cases "fd = invalid_socket")
      case True
      then have "own_world fds (sk_impls s) w1" using new w own_world_keeps by (auto simp: new_fd_invalid)
      with True False o sock show ?thesis by (auto simp: svc_do_open_def own_world_put)
    next
      case valid: False
      obtain err k r1 where reg: "register_descriptor ctl fd ((sk_reactor s)\<lparr>er_world := w1\<rparr>) = (err, k, r1)"
        by (metis prod_cases3)
      have new1: "new_fd fds (er_world (sk_reactor s)) fd (er_world r1)"
        using register_world [OF new_fd_ctl [OF c] _ reg] new by simp
      show ?thesis
      proof (cases "err = 0")
        case True
        with o False sock valid reg have "si_socket impl = fd" "r = r1" by (auto simp: svc_do_open_def)
        with own_world_new [OF w new1 closed] valid show ?thesis by simp
      next
        case failed: False
        obtain x w2 where cl: "so_close os fd 0 True None (er_world r1) = (x, w2)" by fastforce
        have "own_world fds (sk_impls s) w2" by (rule own_world_new_close [OF c w new1 valid cl])
        with o False sock valid reg failed cl show ?thesis by (auto simp: svc_do_open_def Let_def own_world_put)
      qed
    qed
  qed
  then have "own_ok fds ((put_base p impl s)\<lparr>sk_reactor := r\<rparr>)" by (simp add: own_ok_world owner_fields)
  then show ?thesis by (simp add: rs_open_def pr o Let_def)
qed

lemma rs_assign_cases:
  assumes "ctl_keeps P ctl" "P (er_world (sk_reactor s))" "rs_assign ctl pr fd p s = (ec, s')"
  shows "P (er_world (sk_reactor s')) \<and>
    (ec = None \<longrightarrow> si_socket (base_of s p) = invalid_socket \<and> si_socket (base_of s' p) = fd) \<and>
    (ec \<noteq> None \<longrightarrow> si_socket (base_of s' p) = si_socket (base_of s p)) \<and>
    (\<forall>q. q \<noteq> p \<longrightarrow> base_of s' q = base_of s q) \<and> sk_accepts s' = sk_accepts s"
proof -
  obtain ec1 impl r where a: "svc_do_assign ctl (fst (snd pr)) fd (base_of s p) (sk_reactor s) = (ec1, impl, r)"
    by (metis prod_cases3)
  from assign_cases [OF assms(1,2) a] assms(3) show ?thesis
    by (auto simp: rs_assign_def a Let_def put_base_def put_protocol_def split: if_splits)
qed

lemma deregister_close_ok:
  assumes c: "fd_contract os ctl fds" and ok: "own_ok fds s"
    and dereg: "deregister_descriptor ctl (si_socket (base_of s p)) data closing (sk_reactor s) = (d, r)"
    and close: "so_close os (si_socket (base_of s p)) st b ec (er_world r) = (x, w')"
    and op: "si_socket (base_of s p) \<noteq> invalid_socket" "si_socket (rs_base i) = invalid_socket"
  shows "own_world fds ((sk_impls s)(p := i)) w'"
proof -
  have "own_world fds (sk_impls s) (er_world (sk_reactor s))" using ok by (simp add: own_ok_world)
  from deregister_world [OF own_ctl [OF c] this dereg] have "own_world fds (sk_impls s) (er_world r)" .
  from own_world_close [where impls = "sk_impls s" and p = p, OF c this op(1) close op(2)] show ?thesis .
qed

lemma svc_close_ok:
  assumes "fd_contract os ctl fds" "own_ok fds s" "svc_close os ctl (base_of s p) (sk_reactor s) = (ec, impl, r)"
  shows "own_world fds ((sk_impls s)(p := (sk_impls s p)\<lparr>rs_base := impl\<rparr>)) (er_world r) \<and> si_socket impl = invalid_socket"
proof (cases "svc_is_open (base_of s p)")
  case True
  obtain d r1 where dereg: "deregister_descriptor ctl (si_socket (base_of s p)) (si_reactor_data (base_of s p))
      (\<not> has (si_state (base_of s p)) possible_dup) (sk_reactor s) = (d, r1)" by fastforce
  obtain x w' where close: "so_close os (si_socket (base_of s p)) (si_state (base_of s p)) False None (er_world r1) = (x, w')"
    by fastforce
  have "si_socket impl = invalid_socket" "er_world r = w'"
    using assms(3) True dereg close by (auto simp: svc_close_def svc_construct_def split: prod.splits)
  with deregister_close_ok [OF assms(1,2) dereg close, of "(sk_impls s p)\<lparr>rs_base := impl\<rparr>"] True show ?thesis
    by (simp add: svc_is_open_def)
next
  case False
  with assms show ?thesis
    by (auto simp: svc_close_def svc_construct_def svc_is_open_def own_ok_world own_world_put)
qed

lemma svc_destroy_ok:
  assumes "fd_contract os ctl fds" "own_ok fds s" "svc_destroy os ctl (base_of s p) (sk_reactor s) = (impl, r)"
    "si_socket (rs_base i) = invalid_socket"
  shows "own_world fds ((sk_impls s)(p := i)) (er_world r)"
proof (cases "si_socket (base_of s p) = invalid_socket")
  case False
  obtain d r1 where dereg: "deregister_descriptor ctl (si_socket (base_of s p)) (si_reactor_data (base_of s p))
      (\<not> has (si_state (base_of s p)) possible_dup) (sk_reactor s) = (d, r1)" by fastforce
  obtain x w' where close: "so_close os (si_socket (base_of s p)) (si_state (base_of s p)) True None (er_world r1) = (x, w')"
    by fastforce
  have "er_world r = w'"
    using assms(3) False dereg close by (auto simp: svc_destroy_def split: prod.splits)
  with deregister_close_ok [OF assms(1,2) dereg close False assms(4)] show ?thesis by simp
next
  case True
  with assms have "own_world fds (sk_impls s) (er_world r)" by (auto simp: svc_destroy_def own_ok_world)
  then show ?thesis using True assms(4) own_world_sockets [of "(sk_impls s)(p := i)" "sk_impls s" fds] by simp
qed

lemma rs_close_ok: "fd_contract os ctl fds \<Longrightarrow> own_ok fds s \<Longrightarrow> own_ok fds (snd (rs_close os ctl p s))"
  by (auto simp: rs_close_def own_ok_world [of fds "_\<lparr>sk_reactor := _\<rparr>"] owner_fields split: prod.split
      dest: svc_close_ok)

lemma rs_destroy_ok: "fd_contract os ctl fds \<Longrightarrow> own_ok fds s \<Longrightarrow> own_ok fds (rs_destroy os ctl p s)"
  using svc_destroy_ok [of os ctl fds s p _ _ closed_impl]
  by (auto simp: rs_destroy_def own_ok_world closed_impl_def split: prod.split)

lemma on_world_ok:
  assumes "own_ok fds s" "\<And>w. keeps_fds fds w (snd (f w))" "rs_on_world f s = (a, s')"
  shows "own_ok fds s'"
proof -
  obtain w' where f: "f (er_world (sk_reactor s)) = (a, w')" and s': "s' = s\<lparr>sk_reactor := (sk_reactor s)\<lparr>er_world := w'\<rparr>\<rparr>"
    using assms(3) by (auto simp: rs_on_world_def split: prod.splits)
  have "keeps_fds fds (er_world (sk_reactor s)) w'" using assms(2) f by (metis snd_conv)
  from own_world_keeps [OF this] assms(1) show ?thesis by (simp add: own_ok_world s')
qed

lemma rs_bind_ok: "fd_contract os ctl fds \<Longrightarrow> own_ok fds s \<Longrightarrow> own_ok fds (snd (rs_bind os p s))"
  by (auto simp: rs_bind_def so_bind_def split: prod.split intro: contract_keepsD elim!: on_world_ok [rotated 2])

lemma rs_shutdown_ok: "fd_contract os ctl fds \<Longrightarrow> own_ok fds s \<Longrightarrow> own_ok fds (snd (rs_shutdown os h p s))"
  by (auto simp: rs_shutdown_def so_shutdown_def split: prod.split intro: contract_keepsD elim!: on_world_ok [rotated 2])

lemma rs_connect_ok: "fd_contract os ctl fds \<Longrightarrow> own_ok fds s \<Longrightarrow> own_ok fds (snd (rs_connect os p s))"
proof -
  assume c: "fd_contract os ctl fds" and ok: "own_ok fds s"
  obtain ec s1 where o: "rs_on_world (sync_connect os (si_socket (base_of s p))) s = (ec, s1)" by fastforce
  with on_world_ok [OF ok sync_connect_keeps [OF c] o] show ?thesis by (simp add: rs_connect_def)
qed

lemma rs_set_option_ok: "fd_contract os ctl fds \<Longrightarrow> own_ok fds s \<Longrightarrow> own_ok fds (snd (rs_set_option os l n v k p s))"
proof -
  assume c: "fd_contract os ctl fds" and ok: "own_ok fds s"
  obtain a ec st s1 where o: "rs_on_world (so_setsockopt os (si_socket (base_of s p)) (si_state (base_of s p)) l n v k) s = ((a, ec, st), s1)"
    by (metis prod.exhaust)
  have "own_ok fds s1" by (rule on_world_ok [OF ok so_setsockopt_keeps [OF c] o])
  moreover have "sk_impls s1 = sk_impls s" using o by (auto simp: rs_on_world_def split: prod.splits)
  ultimately show ?thesis by (simp add: rs_set_option_def o own_ok_world owner_fields own_world_put)
qed

lemma rs_move_construct_ok:
  assumes "own_ok fds s" "si_socket (base_of s p) = invalid_socket" "p \<noteq> q"
  shows "own_ok fds (rs_move_construct p q s)"
proof -
  obtain i j where m: "svc_move_construct (base_of s p) (base_of s q) = (i, j)" by fastforce
  have "own_world fds ((sk_impls s)(q := (sk_impls s q)\<lparr>rs_base := j\<rparr>, p := (sk_impls s p)\<lparr>rs_base := i\<rparr>)) (er_world (sk_reactor s))"
    using assms m by (intro own_world_move) (auto simp: own_ok_world svc_move_construct_def)
  then have "own_ok fds (put_base q j (put_base p i s))"
    using assms(3) by (simp add: own_ok_world owner_fields fun_upd_twist)
  then show ?thesis by (simp add: rs_move_construct_def m)
qed

lemma rs_move_assign_ok:
  assumes "fd_contract os ctl fds" "own_ok fds s" "p \<noteq> q"
  shows "own_ok fds (rs_move_assign os ctl p q s)"
proof -
  obtain im r where d: "svc_destroy os ctl (base_of s p) (sk_reactor s) = (im, r)" by fastforce
  obtain i j where m: "svc_move_construct im (base_of s q) = (i, j)" by fastforce
  have w: "own_world fds ((sk_impls s)(p := closed_impl)) (er_world r)"
    by (rule svc_destroy_ok [OF assms(1,2) d]) (simp add: closed_impl_def)
  have "own_world fds ((sk_impls s)(p := closed_impl, q := (sk_impls s q)\<lparr>rs_base := j\<rparr>, p := (sk_impls s p)\<lparr>rs_base := i\<rparr>)) (er_world r)"
    using assms(3) m by (intro own_world_move [OF w]) (auto simp: svc_move_construct_def closed_impl_def)
  then have "own_ok fds (put_base q j (put_base p i (s\<lparr>sk_reactor := r\<rparr>)))"
    using assms(3) by (simp add: own_ok_world owner_fields fun_upd_twist)
  then show ?thesis by (simp add: rs_move_assign_def svc_move_assign_def d m)
qed

lemma assigned_impls:
  assumes "\<forall>q. q \<noteq> p \<longrightarrow> base_of s' q = base_of s q"
  shows "own_world fds (sk_impls s') w = own_world fds ((sk_impls s)(p := (sk_impls s p)\<lparr>rs_base := base_of s' p\<rparr>)) w"
  using assms by (intro own_world_sockets) auto

lemma rs_accept_ok:
  assumes c: "fd_contract os ctl fds" and ok: "own_ok fds s" and a: "rs_accept os ctl p q s = Some (ec, s')"
  shows "own_ok fds s'"
proof (cases "svc_is_open (base_of s q)")
  case True
  with a ok show ?thesis by (simp add: rs_accept_def)
next
  case False
  then have closed: "si_socket (base_of s q) = invalid_socket" by (simp add: svc_is_open_def)
  have w: "own_world fds (sk_impls s) (er_world (sk_reactor s))" using ok by (simp add: own_ok_world)
  obtain fd e w1 where acc: "sync_accept os (si_socket (base_of s p)) (si_state (base_of s p)) (er_world (sk_reactor s)) = Some ((fd, e), w1)"
    using a False by (auto simp: rs_accept_def split: option.splits)
  from sync_accept_new [OF c this] have new: "new_fd fds (er_world (sk_reactor s)) fd w1" ..
  define s1 where "s1 = s\<lparr>sk_reactor := (sk_reactor s)\<lparr>er_world := w1\<rparr>\<rparr>"
  show ?thesis
  proof (cases "fd = invalid_socket")
    case True
    then have "s' = s1" using a False acc by (simp add: rs_accept_def s1_def)
    with True new w own_world_keeps show ?thesis by (auto simp: own_ok_world s1_def new_fd_invalid)
  next
    case valid: False
    obtain ec2 s2 where assign: "rs_assign ctl (rs_protocol (sk_impls s p)) fd q s1 = (ec2, s2)" by fastforce
    have s1: "sk_impls s1 = sk_impls s" "new_fd fds (er_world (sk_reactor s)) fd (er_world (sk_reactor s1))"
      using new by (simp_all add: s1_def)
    note r = rs_assign_cases [OF new_fd_ctl [OF c] s1(2) assign]
    then have impls: "own_world fds (sk_impls s2) w = own_world fds ((sk_impls s)(q := (sk_impls s q)\<lparr>rs_base := base_of s2 q\<rparr>)) w" for w
      using s1(1) by (intro assigned_impls) simp
    show ?thesis
    proof (cases "ec2 = None")
      case True
      then have "s' = s2" using a False acc valid assign by (simp add: rs_accept_def s1_def)
      moreover have "own_world fds (sk_impls s2) (er_world (sk_reactor s2))"
        unfolding impls using r True valid closed by (intro own_world_new [OF w]) auto
      ultimately show ?thesis by (simp add: own_ok_world)
    next
      case failed: False
      obtain x w3 where close: "so_close os fd 0 True None (er_world (sk_reactor s2)) = (x, w3)" by fastforce
      have "s' = s2\<lparr>sk_reactor := (sk_reactor s2)\<lparr>er_world := w3\<rparr>\<rparr>"
        using a False acc valid assign failed close by (auto simp: rs_accept_def s1_def rs_on_world_def)
      moreover have "own_world fds (sk_impls s) w3" using r by (intro own_world_new_close [OF c w _ valid close]) simp
      moreover have "own_world fds (sk_impls s2) w3 = own_world fds (sk_impls s) w3"
        unfolding impls using r failed s1(1) by (intro own_world_put) simp
      ultimately show ?thesis by (simp add: own_ok_world)
    qed
  qed
qed

lemma svc_start_op_sockets:
  assumes c: "fd_contract os ctl fds" and perform: "performs os fds ops perform" and w: "own_world fds impls (er_world r)"
    and "svc_start_op os ctl perform ty op con nb noop impl r = (impl', r')"
  shows "own_world fds impls (er_world r') \<and> si_socket impl' = si_socket impl"
proof (cases noop)
  case True
  with assms(4) w show ?thesis by (auto simp: svc_start_op_def)
next
  case False
  obtain ready ec state w1 where i: "(if has (si_state impl) non_blocking
      then ((True, ro_ec (er_ops r op), si_state impl), er_world r)
      else set_internal_non_blocking os (si_socket impl) (si_state impl) True (er_world r)) = ((ready, ec, state), w1)"
    by (metis prod.exhaust)
  have "keeps_fds fds (er_world r) w1"
    using i set_internal_keeps [OF c, of "er_world r" "si_socket impl" "si_state impl" True] by (auto split: if_splits)
  then have "own_world fds impls w1" using w own_world_keeps by blast
  then have "own_world fds impls (er_world (set_ec op ec (r\<lparr>er_world := w1\<rparr>)))" by simp
  from er_start_op_world [OF own_ctl [OF c] own_perform [OF c perform] this] assms(4) False i \<open>own_world fds impls w1\<close>
  show ?thesis by (auto simp: svc_start_op_def Let_def split: if_splits)
qed

lemma rs_async_accept_ok:
  assumes c: "fd_contract os ctl fds" and ok: "own_ok fds s"
    and perform: "performs os fds ((sk_accepts s)(op := accept_op_ctor s p q)) perform"
    and new: "aw_holder (er_world (sk_reactor s)) op = invalid_socket"
  shows "own_ok fds (rs_async_accept os ctl perform con p q op s)"
proof -
  define r where "r = (sk_reactor s)\<lparr>er_ops := (er_ops (sk_reactor s))(op := reactor_op_ctor),
    er_world := set_holder op invalid_socket (er_world (sk_reactor s))\<rparr>"
  have "set_holder op invalid_socket (er_world (sk_reactor s)) = er_world (sk_reactor s)"
    using new by (simp add: set_holder_def fun_upd_idem)
  with ok have w: "own_world fds (sk_impls s) (er_world r)" by (simp add: own_ok_world r_def)
  obtain impl r1 where start: "svc_start_accept_op os ctl perform op con (svc_is_open (base_of s q)) (base_of s p) r = (impl, r1)"
    by fastforce
  have "own_world fds (sk_impls s) (er_world r1) \<and> si_socket impl = si_socket (base_of s p)"
    using start w svc_start_op_sockets [OF c perform w] by (auto simp: svc_start_accept_op_def split: if_splits)
  moreover have "rs_async_accept os ctl perform con p q op s =
      put_base p impl (s\<lparr>sk_reactor := r1, sk_accepts := (sk_accepts s)(op := accept_op_ctor s p q)\<rparr>)"
    using start by (simp add: rs_async_accept_def Let_def r_def)
  ultimately show ?thesis by (simp add: own_ok_world owner_fields own_world_put)
qed

text \<open>Completing an accept: the descriptor goes from the holder to the peer, or is closed.\<close>

lemma accept_do_assign_cases:
  assumes c: "fd_contract os ctl fds" and ok: "own_ok fds s"
    and fd_def: "fd = aw_holder (er_world (sk_reactor s)) op" and q_def: "q = ao_peer (sk_accepts s op)"
    and s'_def: "s' = accept_do_assign ctl op s" and ec_def: "ec = ro_ec (er_ops (sk_reactor s') op)"
    and fd: "fd \<noteq> invalid_socket"
  shows "own_ok fds s' \<and>
    (if ec = None then si_socket (base_of s q) = invalid_socket \<and> si_socket (base_of s' q) = fd \<and> aw_holder (er_world (sk_reactor s')) op = invalid_socket
     else si_socket (base_of s' q) = si_socket (base_of s q) \<and> aw_holder (er_world (sk_reactor s')) op = fd) \<and>
    (\<forall>p. p \<noteq> q \<longrightarrow> si_socket (base_of s' p) = si_socket (base_of s p)) \<and>
    fds (aw_sys (er_world (sk_reactor s'))) = fds (aw_sys (er_world (sk_reactor s)))"
proof -
  let ?w = "er_world (sk_reactor s)"
  let ?P = "\<lambda>w. keeps_fds fds ?w w"
  have ctl: "ctl_keeps ?P ctl"
    unfolding ctl_keeps_def using contract_keeps(9) [OF c] by (blast intro: keeps_trans)
  obtain e s1 where assign: "rs_assign ctl (ao_protocol (sk_accepts s op)) fd q s = (e, s1)" by fastforce
  note a = rs_assign_cases [where P = ?P, OF ctl _ assign, simplified]
  have w1: "keeps_fds fds ?w (er_world (sk_reactor s1))" using a by simp
  have w: "own_world fds (sk_impls s) ?w" using ok by (simp add: own_ok_world)
  have impls: "own_world fds (sk_impls s1) w = own_world fds ((sk_impls s)(q := (sk_impls s q)\<lparr>rs_base := base_of s1 q\<rparr>)) w" for w
    using a by (intro assigned_impls) simp
  show ?thesis
  proof (cases "e = None")
    case True
    have s': "s' = s1\<lparr>sk_reactor := (set_ec op None (sk_reactor s1))\<lparr>er_world := set_holder op invalid_socket (er_world (sk_reactor s1))\<rparr>\<rparr>"
      using fd assign True by (simp add: s'_def accept_do_assign_def fd_def q_def Let_def rs_on_world_def holder_release_def)
    have e: "ec = None" by (simp add: ec_def s' set_ec_def)
    let ?own = "owner_map (sk_impls s) (aw_holder ?w)"
    have "owned (?own(Inr op := invalid_socket, Inl q := ?own (Inr op))) (fds (aw_sys ?w))"
      using w a True by (intro owned_move) (simp_all add: own_world_def owner_map_def)
    then have "own_world fds ((sk_impls s)(q := (sk_impls s q)\<lparr>rs_base := base_of s1 q\<rparr>)) (set_holder op invalid_socket (er_world (sk_reactor s1)))"
      using a True w1 by (simp add: own_world_def keeps_fds_def fd_def owner_map_def [of _ _ "Inr op"] fun_upd_twist [of "Inl q" "Inr op"])
    then have "own_ok fds s'" by (simp add: own_ok_world s' impls)
    with e a True w1 show ?thesis by (auto simp: s' keeps_fds_def)
  next
    case False
    have s': "s' = s1\<lparr>sk_reactor := set_ec op e (sk_reactor s1)\<rparr>"
      using fd assign False by (auto simp: s'_def accept_do_assign_def fd_def q_def Let_def)
    have e: "ec = e" by (simp add: ec_def s' set_ec_def)
    have "own_world fds (sk_impls s1) (er_world (sk_reactor s1)) = own_world fds (sk_impls s) (er_world (sk_reactor s1))"
      unfolding impls using a False by (intro own_world_put) simp
    then have "own_ok fds s'" using own_world_keeps [OF w1] w by (simp add: own_ok_world s')
    with e a False w1 show ?thesis by (auto simp: s' keeps_fds_def fd_def)
  qed
qed

lemma holder_reset_ok:
  "fd_contract os ctl fds \<Longrightarrow> own_ok fds s \<Longrightarrow> own_ok fds (snd (rs_on_world (\<lambda>w. ((), holder_reset os op w)) s))"
  by (simp add: rs_on_world_def own_ok_world holder_reset_own)

lemma holder_open:
  assumes "own_ok fds s" "aw_holder (er_world (sk_reactor s)) op \<noteq> invalid_socket"
  shows "aw_holder (er_world (sk_reactor s)) op \<in> fds (aw_sys (er_world (sk_reactor s)))"
proof -
  let ?own = "owner_map (sk_impls s) (aw_holder (er_world (sk_reactor s)))"
  have "?own (Inr op) \<in> range ?own" by (rule rangeI)
  with assms show ?thesis by (auto simp: own_ok_def owned_def owner_map_def [of _ _ "Inr op"])
qed

lemma accept_do_assign_ok: "fd_contract os ctl fds \<Longrightarrow> own_ok fds s \<Longrightarrow> own_ok fds (accept_do_assign ctl op s)"
  using accept_do_assign_cases [of os ctl fds s _ op, OF _ _ refl refl refl refl]
  by (cases "aw_holder (er_world (sk_reactor s)) op = invalid_socket") (simp_all add: accept_do_assign_def)

lemma accept_do_complete_ok:
  assumes "fd_contract os ctl fds" "own_ok fds s"
  shows "own_ok fds (snd (accept_do_complete os ctl owner op s))"
  using holder_reset_ok [OF assms(1)] accept_do_assign_ok [OF assms] assms(2)
  by (cases owner) (simp_all add: accept_do_complete_def Let_def)

section \<open>The program\<close>

text \<open>The operations of a program on its sockets. A socket is constructed where none is open and an operation where none
  holds a descriptor; everything else the reactor and the system do leaves the descriptors and the holders alone.\<close>

inductive rs_steps :: "'x acc_world os \<Rightarrow> 'x acc_world ctl \<Rightarrow> ('x \<Rightarrow> int set) \<Rightarrow> 'x socket_system \<Rightarrow> bool"
  for os ctl fds where
  rs_init: "\<forall>p. sk_impls s p = closed_impl \<Longrightarrow> \<forall>op. aw_holder (er_world (sk_reactor s)) op = invalid_socket \<Longrightarrow>
    fds (aw_sys (er_world (sk_reactor s))) = {} \<Longrightarrow> rs_steps os ctl fds s"
| rs_open: "rs_steps os ctl fds s \<Longrightarrow> rs_steps os ctl fds (snd (rs_open os ctl pr p s))"
| rs_close: "rs_steps os ctl fds s \<Longrightarrow> rs_steps os ctl fds (snd (rs_close os ctl p s))"
| rs_destroy: "rs_steps os ctl fds s \<Longrightarrow> rs_steps os ctl fds (rs_destroy os ctl p s)"
| rs_move_construct: "rs_steps os ctl fds s \<Longrightarrow> si_socket (base_of s p) = invalid_socket \<Longrightarrow> p \<noteq> q \<Longrightarrow>
    rs_steps os ctl fds (rs_move_construct p q s)"
| rs_move_assign: "rs_steps os ctl fds s \<Longrightarrow> p \<noteq> q \<Longrightarrow> rs_steps os ctl fds (rs_move_assign os ctl p q s)"
| rs_bind: "rs_steps os ctl fds s \<Longrightarrow> rs_steps os ctl fds (snd (rs_bind os p s))"
| rs_shutdown: "rs_steps os ctl fds s \<Longrightarrow> rs_steps os ctl fds (snd (rs_shutdown os what p s))"
| rs_set_option: "rs_steps os ctl fds s \<Longrightarrow> rs_steps os ctl fds (snd (rs_set_option os level name data optlen p s))"
| rs_connect: "rs_steps os ctl fds s \<Longrightarrow> rs_steps os ctl fds (snd (rs_connect os p s))"
| rs_accept: "rs_steps os ctl fds s \<Longrightarrow> rs_accept os ctl p q s = Some (ec, s') \<Longrightarrow> rs_steps os ctl fds s'"
| rs_async_accept: "rs_steps os ctl fds s \<Longrightarrow> aw_holder (er_world (sk_reactor s)) op = invalid_socket \<Longrightarrow>
    performs os fds ((sk_accepts s)(op := accept_op_ctor s p q)) perform \<Longrightarrow>
    rs_steps os ctl fds (rs_async_accept os ctl perform is_continuation p q op s)"
| rs_perform: "rs_steps os ctl fds s \<Longrightarrow> performs os fds (sk_accepts s) perform \<Longrightarrow>
    rs_steps os ctl fds (s\<lparr>sk_reactor := snd (perform_io perform d events (sk_reactor s))\<rparr>)"
| rs_complete: "rs_steps os ctl fds s \<Longrightarrow> rs_steps os ctl fds (snd (accept_do_complete os ctl owner op s))"
| rs_other: "rs_steps os ctl fds s \<Longrightarrow> keeps_fds fds (er_world (sk_reactor s)) (er_world r) \<Longrightarrow>
    rs_steps os ctl fds (s\<lparr>sk_reactor := r\<rparr>)"

lemma rs_steps_own_ok:
  assumes c: "fd_contract os ctl fds"
  shows "rs_steps os ctl fds s \<Longrightarrow> own_ok fds s"
proof (induction rule: rs_steps.induct)
  case (rs_init s)
  then have "owner_map (sk_impls s) (aw_holder (er_world (sk_reactor s))) = (\<lambda>_. invalid_socket)"
    by (auto simp: owner_map_def closed_impl_def fun_eq_iff split: sum.split)
  with rs_init(3) show ?case by (simp add: own_ok_def owned_def)
next
  case (rs_async_accept s op p q perform is_continuation)
  then show ?case by (intro rs_async_accept_ok [OF c])
next
  case (rs_perform s perform d events)
  then have "own_world fds (sk_impls s) (er_world (sk_reactor s))" by (simp add: own_ok_world)
  from perform_io_world [OF own_perform [OF c rs_perform(2)] this] show ?case by (simp add: own_ok_world)
next
  case (rs_other s r)
  then show ?case using own_world_keeps by (auto simp: own_ok_world)
qed (simp_all add: rs_open_ok rs_close_ok rs_destroy_ok rs_move_construct_ok rs_move_assign_ok accept_do_complete_ok c
    rs_bind_ok [OF c] rs_shutdown_ok [OF c] rs_set_option_ok [OF c] rs_connect_ok [OF c] rs_accept_ok [OF c])

section \<open>Properties of acceptors\<close>

text \<open>C12: No descriptor leaks and none is closed twice. After every history of opening, closing, destroying and moving
  sockets, of synchronous and asynchronous accepts in every order of performing, completing and destroying their
  operations, the descriptors open in the process are those of the open sockets and those that pending operations hold
  for sockets they accepted; and no descriptor belongs to two of them.\<close>

theorem descriptors_have_one_owner:
  assumes "fd_contract os ctl fds" "rs_steps os ctl fds s"
  shows "let sock = (\<lambda>p. si_socket (base_of s p)); hold = aw_holder (er_world (sk_reactor s)) in
    fds (aw_sys (er_world (sk_reactor s))) = (range sock \<union> range hold) - {invalid_socket} \<and>
    (\<forall>p q. sock p = sock q \<longrightarrow> sock p = invalid_socket \<or> p = q) \<and>
    (\<forall>op op'. hold op = hold op' \<longrightarrow> hold op = invalid_socket \<or> op = op') \<and>
    (\<forall>p op. sock p = hold op \<longrightarrow> sock p = invalid_socket)"
proof -
  let ?own = "owner_map (sk_impls s) (aw_holder (er_world (sk_reactor s)))"
  have own: "\<And>p. ?own (Inl p) = si_socket (base_of s p)" "\<And>op. ?own (Inr op) = aw_holder (er_world (sk_reactor s)) op"
    by (simp_all add: owner_map_def)
  have o: "owned ?own (fds (aw_sys (er_world (sk_reactor s))))" using rs_steps_own_ok [OF assms] by (simp add: own_ok_def)
  have "range ?own = range (\<lambda>p. si_socket (base_of s p)) \<union> range (aw_holder (er_world (sk_reactor s)))"
    unfolding UNIV_Plus_UNIV [symmetric] by (auto simp: Plus_def own image_Un image_image)
  moreover have "?own x = ?own y \<Longrightarrow> ?own x = invalid_socket \<or> x = y" for x y using o by (auto simp: owned_def)
  from this [of "Inl p" "Inl q" for p q] this [of "Inr p" "Inr q" for p q] this [of "Inl p" "Inr q" for p q]
  have "\<forall>p q. si_socket (base_of s p) = si_socket (base_of s q) \<longrightarrow> si_socket (base_of s p) = invalid_socket \<or> p = q"
    "\<forall>op op'. aw_holder (er_world (sk_reactor s)) op = aw_holder (er_world (sk_reactor s)) op' \<longrightarrow>
       aw_holder (er_world (sk_reactor s)) op = invalid_socket \<or> op = op'"
    "\<forall>p op. si_socket (base_of s p) = aw_holder (er_world (sk_reactor s)) op \<longrightarrow> si_socket (base_of s p) = invalid_socket"
    unfolding own by blast+
  ultimately show ?thesis using o by (simp add: owned_def)
qed


text \<open>A system whose state is the list of open descriptors; a new one is above all of them.\<close>

definition next_fd :: "int list \<Rightarrow> int" where
  "next_fd fs = fold max fs 2 + 1"

definition fd_new :: "int list acc_world \<Rightarrow> (int \<times> nat) \<times> int list acc_world" where
  "fd_new w = ((next_fd (aw_sys w), 0), w\<lparr>aw_sys := next_fd (aw_sys w) # aw_sys w\<rparr>)"

definition listing_os :: "int list acc_world os" where
  "listing_os = \<lparr> sys_accept = (\<lambda>_. fd_new), sys_bind = (\<lambda>_ w. ((0, 0), w)),
     sys_close = (\<lambda>s w. ((0, 0), w\<lparr>aw_sys := filter (\<lambda>f. f \<noteq> s) (aw_sys w)\<rparr>)), sys_connect = (\<lambda>_ w. ((0, 0), w)),
     sys_listen = (\<lambda>_ _ w. ((0, 0), w)), sys_shutdown = (\<lambda>_ _ w. ((0, 0), w)), sys_socket = (\<lambda>_ _ _. fd_new),
     sys_poll = (\<lambda>_ _ _ w. ((1, 0), w)), sys_recv = (\<lambda>_ _ _ w. ((0, 0), w)), sys_recvmsg = (\<lambda>_ _ _ w. ((0, 0), w)),
     sys_send = (\<lambda>_ _ _ w. ((0, 0), w)), sys_sendmsg = (\<lambda>_ _ _ w. ((0, 0), w)),
     sys_ioctl = (\<lambda>_ _ v w. ((0, 0, v), w)), sys_setsockopt = (\<lambda>_ _ _ _ w. ((0, 0), w)),
     sys_getsockopt = (\<lambda>_ _ _ _ w. ((0, 0, [0], 4), w)) \<rparr>"

definition working_ctl :: "int list acc_world ctl" where
  "working_ctl = (\<lambda>_ _ _ _ w. ((0, 0), w))"

lemma next_fd_new: "next_fd fs \<notin> set fs" "next_fd fs > 2"
proof -
  have "(\<forall>f \<in> set fs. f \<le> fold max fs m) \<and> m \<le> fold max fs m" for m :: int
  proof (induction fs arbitrary: m)
    case (Cons f fs)
    from Cons.IH [of "max f m"] show ?case by auto
  qed simp
  from this [of 2] show "next_fd fs \<notin> set fs" "next_fd fs > 2" by (auto simp: next_fd_def)
qed

lemma next_fd_valid: "next_fd fs \<noteq> invalid_socket"
  using next_fd_new(2) [of fs] by simp

lemma listing_contract: "fd_contract listing_os working_ctl set"
  using next_fd_new(1) by (auto simp: next_fd_valid fd_contract_def listing_os_def working_ctl_def fd_new_def new_fd_def keeps_fds_def)

text \<open>An acceptor 0 on which an accept for the socket 1 has been performed.\<close>

definition accept_start :: "int list socket_system" where
  "accept_start = \<lparr> sk_impls = (\<lambda>_. closed_impl),
     sk_accepts = (\<lambda>_. \<lparr> ao_socket = - 1, ao_state = 0, ao_peer = 0, ao_protocol = default_protocol \<rparr>),
     sk_reactor = er_ctor False True (\<lambda>_. \<lparr> ds_descriptor = - 1, ds_registered_events = 0, ds_queue = (\<lambda>_. []),
       ds_speculative = (\<lambda>_. False), ds_shutdown = False, ds_task_result = 0 \<rparr>) (\<lambda>_. reactor_op_ctor)
       \<lparr> aw_sys = [], aw_holder = (\<lambda>_. - 1) \<rparr> \<rparr>"

definition accept_listener :: "int list socket_system" where
  "accept_listener = snd (rs_open listing_os working_ctl default_protocol 0 accept_start)"

definition accept_once :: "int list acc_world perform" where
  "accept_once op ro w =
     (if op = 5 then (Done, ro\<lparr>ro_ec := None\<rparr>, holder_reset_to listing_os op (next_fd (aw_sys w)) (snd (fd_new w)))
      else (Not_Done, ro, w))"

definition accept_example :: "int list socket_system" where
  "accept_example = rs_async_accept listing_os working_ctl accept_once False 0 1 5 accept_listener"

lemma accept_example_steps: "rs_steps listing_os working_ctl set accept_example"
proof -
  have s: "rs_steps listing_os working_ctl set accept_listener"
    unfolding accept_listener_def by (intro rs_open rs_init) (simp_all add: accept_start_def er_ctor_def)
  have sock: "si_socket (base_of accept_listener 0) = 3" by code_simp
  have hold: "aw_holder (er_world (sk_reactor accept_listener)) 5 = - 1" by code_simp
  let ?ops = "(sk_accepts accept_listener)(5 := accept_op_ctor accept_listener 0 1)"
  have "accept_do_perform listing_os ?ops 5 ro w = Some (accept_once 5 ro w)" for ro w
  proof -
    have "ao_socket (?ops 5) = 3" using sock by (simp add: accept_op_ctor_def)
    moreover have "non_blocking_accept listing_os 3 st w = Some ((True, next_fd (aw_sys w), None), snd (fd_new w))" for st
      using next_fd_valid by (subst non_blocking_accept.simps) (simp add: so_accept_def listing_os_def fd_new_def)
    ultimately show ?thesis by (simp add: accept_do_perform_def accept_once_def)
  qed
  then have "performs listing_os set ?ops accept_once" by (auto simp: performs_def accept_once_def)
  then show ?thesis unfolding accept_example_def by (intro rs_async_accept s hold)
qed

lemma accept_example_facts:
  "aw_holder (er_world (sk_reactor accept_example)) 5 = 4" "ao_peer (sk_accepts accept_example 5) = 1"
  "fst (accept_do_complete listing_os working_ctl True 5 accept_example) = Some None"
  by code_simp+

theorem descriptors_have_one_owner_witness:
  "set (aw_sys (er_world (sk_reactor accept_example))) = {3, 4} \<and> aw_holder (er_world (sk_reactor accept_example)) 5 = 4 \<and>
   (\<nexists>p. si_socket (base_of accept_example p) = 4) \<and> (\<exists>p. si_socket (base_of accept_example p) = 3)"
proof -
  note T = descriptors_have_one_owner [OF listing_contract accept_example_steps, unfolded Let_def]
  have "aw_sys (er_world (sk_reactor accept_example)) = [4, 3]" "si_socket (base_of accept_example 0) = 3" by code_simp+
  moreover have "si_socket (base_of accept_example p) \<noteq> 4" for p
  proof
    assume p: "si_socket (base_of accept_example p) = 4"
    have "si_socket (base_of accept_example p) = aw_holder (er_world (sk_reactor accept_example)) 5"
      unfolding p accept_example_facts(1) ..
    with T have "si_socket (base_of accept_example p) = invalid_socket" by blast
    with p show False by simp
  qed
  ultimately show ?thesis using accept_example_facts(1) by (auto simp: insert_commute)
qed


end
