(* ===== verification/Asio_Connect.thy ===== *)
theory Asio_Connect
  imports Asio_Acceptor
begin

text \<open>
  Connecting to the first endpoint of a sequence that accepts: \<open>src/3rd/asio/include/asio/impl/connect.hpp\<close>, over
  \<open>connect\<close> and \<open>async_connect\<close> of \<open>basic_socket.hpp\<close> and the socket service. Iterators are positions in the list of
  endpoints. A call of \<open>connect\<close> gives the system an address: \<open>dest\<close>, a parameter, writes it into the state of the system, from which the
  call reads it.
\<close>

section \<open>Endpoints\<close>

record tcp_endpoint =
  ep_v4 :: bool
  ep_address :: nat
  ep_port :: nat

definition tcp_v4 :: protocol where "tcp_v4 = (2, 1, 6)"
definition tcp_v6 :: protocol where "tcp_v6 = (10, 1, 6)"

definition ep_protocol :: "tcp_endpoint \<Rightarrow> protocol" where
  "ep_protocol e = (if ep_v4 e then tcp_v4 else tcp_v6)"

section \<open>The socket\<close>

type_synonym 'x dest = "tcp_endpoint \<Rightarrow> 'x \<Rightarrow> 'x"

definition service_connect :: "'x acc_world os \<Rightarrow> 'x dest \<Rightarrow> tcp_endpoint \<Rightarrow> nat \<Rightarrow> 'x socket_system \<Rightarrow> error_code \<times> 'x socket_system" where
  "service_connect os dest e p s =
     rs_connect os p (snd (rs_on_world (\<lambda>w. ((), w\<lparr>aw_sys := dest e (aw_sys w)\<rparr>)) s))"

definition bs_connect ::
    "'x acc_world os \<Rightarrow> 'x acc_world ctl \<Rightarrow> 'x dest \<Rightarrow> tcp_endpoint \<Rightarrow> nat \<Rightarrow> 'x socket_system \<Rightarrow> error_code \<times> 'x socket_system" where
  "bs_connect os ctl dest e p s =
     (if \<not> svc_is_open (base_of s p) then
        (case rs_open os ctl (ep_protocol e) p s of (ec, s) \<Rightarrow>
           if ec \<noteq> None then (ec, s) else service_connect os dest e p s)
      else service_connect os dest e p s)"

text \<open>The part of \<open>async_connect\<close> before the operation starts: the error the socket could not be opened with.\<close>

definition bs_async_open :: "'x acc_world os \<Rightarrow> 'x acc_world ctl \<Rightarrow> tcp_endpoint \<Rightarrow> nat \<Rightarrow> 'x socket_system \<Rightarrow> error_code \<times> 'x socket_system" where
  "bs_async_open os ctl e p s =
     (if \<not> svc_is_open (base_of s p) then rs_open os ctl (ep_protocol e) p s else (None, s))"

section \<open>The condition\<close>

text \<open>The default condition, one that looks at an endpoint, and the older form that returns the next position to try.\<close>

datatype connect_condition =
    Default_Condition
  | Condition "error_code \<Rightarrow> tcp_endpoint \<Rightarrow> bool"
  | Legacy_Condition "error_code \<Rightarrow> nat \<Rightarrow> nat"

definition default_connect_condition :: "error_code \<Rightarrow> tcp_endpoint \<Rightarrow> bool" where
  "default_connect_condition ec e = True"

function find_endpoint :: "(error_code \<Rightarrow> tcp_endpoint \<Rightarrow> bool) \<Rightarrow> error_code \<Rightarrow> tcp_endpoint list \<Rightarrow> nat \<Rightarrow> nat" where
  "find_endpoint f ec es next =
     (if next < length es then if f ec (es ! next) then next else find_endpoint f ec es (next + 1) else length es)"
  by auto

termination by (relation "measure (\<lambda>(_, _, es, next). length es - next)") auto

declare find_endpoint.simps [simp del]

fun call_connect_condition :: "connect_condition \<Rightarrow> error_code \<Rightarrow> tcp_endpoint list \<Rightarrow> nat \<Rightarrow> nat" where
  "call_connect_condition Default_Condition ec es next = find_endpoint default_connect_condition ec es next"
| "call_connect_condition (Condition f) ec es next = find_endpoint f ec es next"
| "call_connect_condition (Legacy_Condition f) ec es next = (if next \<noteq> length es then f ec next else length es)"

section \<open>Connecting\<close>

text \<open>The loop of \<open>connect\<close>; a position outside the sequence has no result, and neither has a loop that goes on forever.\<close>

partial_function (option) connect_loop ::
    "'x acc_world os \<Rightarrow> 'x acc_world ctl \<Rightarrow> 'x dest \<Rightarrow> connect_condition \<Rightarrow> tcp_endpoint list \<Rightarrow> nat \<Rightarrow> nat \<Rightarrow> error_code \<Rightarrow>
     'x socket_system \<Rightarrow> (nat \<times> error_code \<times> 'x socket_system) option" where
  "connect_loop os ctl dest c es p iter ec s =
     (if iter = length es then Some (iter, ec, s)
      else
        (let iter = call_connect_condition c ec es iter in
         if iter = length es then Some (iter, ec, s)
         else if iter < length es then
           (case rs_close os ctl p s of (_, s) \<Rightarrow>
            (case bs_connect os ctl dest (es ! iter) p s of (ec, s) \<Rightarrow>
               if ec = None then Some (iter, ec, s) else connect_loop os ctl dest c es p (iter + 1) ec s))
         else None))"

definition connect_iter ::
    "'x acc_world os \<Rightarrow> 'x acc_world ctl \<Rightarrow> 'x dest \<Rightarrow> connect_condition \<Rightarrow> tcp_endpoint list \<Rightarrow> nat \<Rightarrow> nat \<Rightarrow>
     'x socket_system \<Rightarrow> (nat \<times> error_code \<times> 'x socket_system) option" where
  "connect_iter os ctl dest c es begin p s =
     (case connect_loop os ctl dest c es p begin None s of
        None \<Rightarrow> None
      | Some (iter, ec, s) \<Rightarrow>
          if iter < length es then Some (iter, ec, s)
          else Some (length es, if ec = None then misc not_found else ec, s))"

text \<open>\<open>deref_connect_result\<close>: a default endpoint is \<open>None\<close>.\<close>

definition deref_connect_result :: "tcp_endpoint list \<Rightarrow> nat \<Rightarrow> error_code \<Rightarrow> tcp_endpoint option" where
  "deref_connect_result es iter ec = (if ec \<noteq> None then None else Some (es ! iter))"

definition connect ::
    "'x acc_world os \<Rightarrow> 'x acc_world ctl \<Rightarrow> 'x dest \<Rightarrow> connect_condition \<Rightarrow> tcp_endpoint list \<Rightarrow> nat \<Rightarrow>
     'x socket_system \<Rightarrow> (tcp_endpoint option \<times> error_code \<times> 'x socket_system) option" where
  "connect os ctl dest c es p s =
     map_option (\<lambda>(iter, ec, s). (deref_connect_result es iter ec, ec, s)) (connect_iter os ctl dest c es 0 p s)"

section \<open>Connecting asynchronously\<close>

text \<open>What a call of \<open>range_connect_op\<close> ends with: a connection attempt, itself posted with an error, or its handler.\<close>

datatype connect_action = Async_Connect tcp_endpoint | Post_Self error_code | Invoke_Handler error_code "tcp_endpoint option"

definition check_condition :: "connect_condition \<Rightarrow> error_code \<Rightarrow> tcp_endpoint list \<Rightarrow> nat \<Rightarrow> nat" where
  "check_condition c ec es iter = (if c = Default_Condition then iter else call_connect_condition c ec es iter)"

text \<open>After the \<open>switch\<close>, from the label \<open>default\<close> when the loop ends there, and the head of the loop.\<close>

definition range_connect_done :: "tcp_endpoint list \<Rightarrow> error_code \<Rightarrow> nat \<Rightarrow> connect_action" where
  "range_connect_done es ec iter =
     Invoke_Handler ec (if ec \<noteq> None \<or> iter = length es then None else Some (es ! iter))"

definition range_connect_head ::
    "'x acc_world os \<Rightarrow> 'x acc_world ctl \<Rightarrow> connect_condition \<Rightarrow> tcp_endpoint list \<Rightarrow> nat \<Rightarrow> bool \<Rightarrow> error_code \<Rightarrow> nat \<Rightarrow>
     'x socket_system \<Rightarrow> (connect_action \<times> nat \<times> 'x socket_system) option" where
  "range_connect_head os ctl c es p start ec iter s =
     (let iter = check_condition c ec es iter; index = iter in
      if iter < length es then
        (case rs_close os ctl p s of (ec, s) \<Rightarrow> Some (Async_Connect (es ! iter), index, s))
      else if iter > length es then None
      else if start then Some (Post_Self (misc not_found), index, s)
      else Some (range_connect_done es ec iter, index, s))"

definition range_connect_process ::
    "'x acc_world os \<Rightarrow> 'x acc_world ctl \<Rightarrow> connect_condition \<Rightarrow> tcp_endpoint list \<Rightarrow> nat \<Rightarrow> bool \<Rightarrow> error_code \<Rightarrow> nat \<Rightarrow>
     'x socket_system \<Rightarrow> (connect_action \<times> nat \<times> 'x socket_system) option" where
  "range_connect_process os ctl c es p start ec index s =
     (let iter = index in
      if start then range_connect_head os ctl c es p start ec iter s
      else if iter = length es then Some (range_connect_done es ec iter, index, s)
      else if \<not> svc_is_open (base_of s p) then Some (range_connect_done es (basic operation_aborted) iter, index, s)
      else if ec = None then Some (range_connect_done es ec iter, index, s)
      else range_connect_head os ctl c es p start ec (iter + 1) s)"

text \<open>A call of the operation and what follows until it is called again, or its handler is. \<open>attempt\<close> is what the reactor, the
  system and other code do between the start of an asynchronous connection and the call of its handler, with the error the handler gets.\<close>

definition range_connect_follow ::
    "'x acc_world os \<Rightarrow> 'x acc_world ctl \<Rightarrow> (tcp_endpoint \<Rightarrow> 'x socket_system \<Rightarrow> error_code \<times> 'x socket_system) \<Rightarrow> nat \<Rightarrow>
     connect_action \<times> nat \<times> 'x socket_system \<Rightarrow> (tcp_endpoint option \<times> error_code \<times> 'x socket_system) + (error_code \<times> nat \<times> 'x socket_system)" where
  "range_connect_follow os ctl attempt p x =
     (case x of (a, index, s) \<Rightarrow>
        (case a of
           Invoke_Handler ec e \<Rightarrow> Inl (e, ec, s)
         | Post_Self ec \<Rightarrow> Inr (ec, index, s)
         | Async_Connect e \<Rightarrow>
             (case bs_async_open os ctl e p s of (open_ec, s) \<Rightarrow>
                if open_ec \<noteq> None then Inr (open_ec, index, s)
                else (case attempt e s of (ec, s) \<Rightarrow> Inr (ec, index, s)))))"

definition range_connect_call ::
    "'x acc_world os \<Rightarrow> 'x acc_world ctl \<Rightarrow> (tcp_endpoint \<Rightarrow> 'x socket_system \<Rightarrow> error_code \<times> 'x socket_system) \<Rightarrow> connect_condition \<Rightarrow>
     tcp_endpoint list \<Rightarrow> nat \<Rightarrow> bool \<Rightarrow> error_code \<Rightarrow> nat \<Rightarrow> 'x socket_system \<Rightarrow>
     ((tcp_endpoint option \<times> error_code \<times> 'x socket_system) + (error_code \<times> nat \<times> 'x socket_system)) option" where
  "range_connect_call os ctl attempt c es p start ec index s =
     map_option (range_connect_follow os ctl attempt p) (range_connect_process os ctl c es p start ec index s)"

partial_function (option) calls_to_handler ::
    "(bool \<Rightarrow> error_code \<Rightarrow> nat \<Rightarrow> 's \<Rightarrow> ('r + (error_code \<times> nat \<times> 's)) option) \<Rightarrow> bool \<Rightarrow> error_code \<Rightarrow> nat \<Rightarrow> 's \<Rightarrow> 'r option" where
  "calls_to_handler call start ec index s =
     (case call start ec index s of
        None \<Rightarrow> None
      | Some (Inl r) \<Rightarrow> Some r
      | Some (Inr (ec, index, s)) \<Rightarrow> calls_to_handler call False ec index s)"

definition async_connect_range ::
    "'x acc_world os \<Rightarrow> 'x acc_world ctl \<Rightarrow> (tcp_endpoint \<Rightarrow> 'x socket_system \<Rightarrow> error_code \<times> 'x socket_system) \<Rightarrow> connect_condition \<Rightarrow>
     tcp_endpoint list \<Rightarrow> nat \<Rightarrow> 'x socket_system \<Rightarrow> (tcp_endpoint option \<times> error_code \<times> 'x socket_system) option" where
  "async_connect_range os ctl attempt c es p s = calls_to_handler (range_connect_call os ctl attempt c es p) True None 0 s"

section \<open>The reference\<close>

text \<open>The first endpoint, in order, that the condition allows and that connects on a socket closed before.\<close>

fun first_connected ::
    "(tcp_endpoint \<Rightarrow> 's \<Rightarrow> error_code \<times> 's) \<Rightarrow> (error_code \<Rightarrow> tcp_endpoint \<Rightarrow> bool) \<Rightarrow> tcp_endpoint list \<Rightarrow> error_code \<Rightarrow> 's \<Rightarrow>
     tcp_endpoint option \<times> error_code \<times> 's" where
  "first_connected try_ep f [] ec s = (None, if ec = None then misc not_found else ec, s)"
| "first_connected try_ep f (e # es) ec s =
     (if f ec e then (case try_ep e s of (ec, s) \<Rightarrow> if ec = None then (Some e, None, s) else first_connected try_ep f es ec s)
      else first_connected try_ep f es ec s)"

definition try_endpoint ::
    "'x acc_world os \<Rightarrow> 'x acc_world ctl \<Rightarrow> 'x dest \<Rightarrow> nat \<Rightarrow> tcp_endpoint \<Rightarrow> 'x socket_system \<Rightarrow> error_code \<times> 'x socket_system" where
  "try_endpoint os ctl dest p e s = bs_connect os ctl dest e p (snd (rs_close os ctl p s))"

fun condition_fun :: "connect_condition \<Rightarrow> (error_code \<Rightarrow> tcp_endpoint \<Rightarrow> bool) option" where
  "condition_fun Default_Condition = Some default_connect_condition"
| "condition_fun (Condition f) = Some f"
| "condition_fun (Legacy_Condition g) = None"

lemma call_condition: "condition_fun c = Some f \<Longrightarrow> call_connect_condition c ec es i = find_endpoint f ec es i"
  by (cases c) auto

lemma find_endpoint_spec:
  assumes "i \<le> length es"
  shows "i \<le> find_endpoint f ec es i \<and> find_endpoint f ec es i \<le> length es \<and>
    (find_endpoint f ec es i < length es \<longrightarrow> f ec (es ! find_endpoint f ec es i)) \<and>
    first_connected try_ep f (drop i es) ec s = first_connected try_ep f (drop (find_endpoint f ec es i) es) ec s"
  using assms
proof (induction f ec es i rule: find_endpoint.induct)
  case (1 f ec es i)
  show ?case
  proof (cases "i < length es \<and> \<not> f ec (es ! i)")
    case True
    then have "drop i es = es ! i # drop (i + 1) es" by (simp add: Cons_nth_drop_Suc)
    with True 1 show ?thesis by (simp add: find_endpoint.simps [of f ec es i])
  next
    case False
    with 1 show ?thesis by (auto simp: find_endpoint.simps [of f ec es i])
  qed
qed

lemma connect_loop_first:
  assumes "condition_fun c = Some f" "i \<le> length es"
  shows "\<exists>k ec' s'. connect_loop os ctl dest c es p i ec s = Some (k, ec', s') \<and>
    (k < length es \<longrightarrow> ec' = None) \<and> k \<le> length es \<and>
    first_connected (try_endpoint os ctl dest p) f (drop i es) ec s =
      (if k < length es then (Some (es ! k), None, s') else (None, if ec' = None then misc not_found else ec', s'))"
  using assms(2)
proof (induction "length es - i" arbitrary: i ec s rule: less_induct)
  case less
  let ?try_ep = "try_endpoint os ctl dest p"
  define k where "k = call_connect_condition c ec es i"
  from find_endpoint_spec [OF less.prems, of f ec ?try_ep s] call_condition [OF assms(1), of ec es i]
  have k: "i \<le> k" "k \<le> length es" "k < length es \<longrightarrow> f ec (es ! k)"
    "first_connected ?try_ep f (drop i es) ec s = first_connected ?try_ep f (drop k es) ec s" by (simp_all add: k_def)
  show ?case
  proof (cases "k < length es")
    case False
    with k show ?thesis
      by (subst connect_loop.simps) (auto simp: Let_def simp flip: k_def)
  next
    case True
    then have d: "drop k es = es ! k # drop (k + 1) es" by (simp add: Cons_nth_drop_Suc)
    obtain ec1 s1 where t: "?try_ep (es ! k) s = (ec1, s1)" by fastforce
    then have c: "bs_connect os ctl dest (es ! k) p (snd (rs_close os ctl p s)) = (ec1, s1)" by (simp add: try_endpoint_def)
    have step: "connect_loop os ctl dest c es p i ec s =
        (if ec1 = None then Some (k, ec1, s1) else connect_loop os ctl dest c es p (k + 1) ec1 s1)"
      using True k(1) c by (subst connect_loop.simps) (simp add: Let_def split_beta flip: k_def)
    show ?thesis
    proof (cases "ec1 = None")
      case True
      with step k d t \<open>k < length es\<close> show ?thesis by auto
    next
      case False
      have "length es - (k + 1) < length es - i" "k + 1 \<le> length es" using \<open>k < length es\<close> k(1) by auto
      from less.hyps [OF this, of ec1 s1] False step k d t \<open>k < length es\<close> show ?thesis by auto
    qed
  qed
qed

lemma connect_first:
  assumes "condition_fun c = Some f"
  shows "connect os ctl dest c es p s = Some (first_connected (try_endpoint os ctl dest p) f es None s)"
proof -
  from connect_loop_first [OF assms, of 0 es os ctl dest p None s] obtain k ec' s' where
    k: "connect_loop os ctl dest c es p 0 None s = Some (k, ec', s')" "k < length es \<longrightarrow> ec' = None" "k \<le> length es"
    "first_connected (try_endpoint os ctl dest p) f es None s =
      (if k < length es then (Some (es ! k), None, s') else (None, if ec' = None then misc not_found else ec', s'))" by auto
  then show ?thesis by (auto simp: connect_def connect_iter_def deref_connect_result_def)
qed

lemma rs_close_closed: "\<not> svc_is_open (base_of (snd (rs_close os ctl p s)) p)"
  by (auto simp: rs_close_def svc_close_def svc_construct_def svc_is_open_def put_base_def split: prod.split)

lemma rs_open_failed:
  "\<not> svc_is_open (base_of s p) \<Longrightarrow> fst (rs_open os ctl pr p s) \<noteq> None \<Longrightarrow> \<not> svc_is_open (base_of (snd (rs_open os ctl pr p s)) p)"
  by (auto simp: rs_open_def svc_do_open_def svc_is_open_def put_base_def put_protocol_def Let_def split: prod.split if_splits)

lemma service_connect_open [simp]: "base_of (snd (service_connect os dest e p s)) q = base_of s q"
  by (simp add: service_connect_def rs_connect_def rs_on_world_def split_beta)

text \<open>A closed socket can always be opened for the endpoints.\<close>

definition opens :: "'x acc_world os \<Rightarrow> 'x acc_world ctl \<Rightarrow> nat \<Rightarrow> tcp_endpoint list \<Rightarrow> bool" where
  "opens os ctl p es \<longleftrightarrow>
     (\<forall>e \<in> set es. \<forall>s. \<not> svc_is_open (base_of s p) \<longrightarrow>
        (case rs_open os ctl (ep_protocol e) p s of (ec, s) \<Rightarrow> ec = None \<and> svc_is_open (base_of s p)))"

text \<open>An attempt from its start to the next call of the operation, in a system where a socket can be opened.\<close>

lemma follow_connect:
  assumes "opens os ctl p es" "e \<in> set es" "snd (rs_close os ctl p s) = s0"
  shows "range_connect_follow os ctl (\<lambda>e s. service_connect os dest e p s) p (Async_Connect e, i, s0) =
      Inr (fst (try_endpoint os ctl dest p e s), i, snd (try_endpoint os ctl dest p e s)) \<and>
    svc_is_open (base_of (snd (try_endpoint os ctl dest p e s)) p)"
proof -
  have c: "\<not> svc_is_open (base_of s0 p)" using rs_close_closed assms(3) by blast
  obtain s1 where o: "rs_open os ctl (ep_protocol e) p s0 = (None, s1)" "svc_is_open (base_of s1 p)"
    using assms(1,2) c unfolding opens_def by fastforce
  then show ?thesis using c assms(3)
    by (simp add: range_connect_follow_def bs_async_open_def try_endpoint_def bs_connect_def split_beta)
qed

lemma check_condition_find: "condition_fun c = Some f \<Longrightarrow> i \<le> length es \<Longrightarrow> check_condition c ec es i = find_endpoint f ec es i"
proof (cases c)
  case Default_Condition
  moreover assume "condition_fun c = Some f" "i \<le> length es"
  ultimately show ?thesis by (auto simp: check_condition_def default_connect_condition_def find_endpoint.simps [of _ ec es i])
qed (auto simp: check_condition_def)

lemma head_run:
  assumes "condition_fun c = Some f" "opens os ctl p es" "i \<le> length es" "start \<longleftrightarrow> ec = None"
  shows "\<exists>x. range_connect_head os ctl c es p start ec i s = Some x \<and>
    (case range_connect_follow os ctl (\<lambda>e s. service_connect os dest e p s) p x of
       Inl r \<Rightarrow> Some r
     | Inr (ec, index, s) \<Rightarrow>
         calls_to_handler (range_connect_call os ctl (\<lambda>e s. service_connect os dest e p s) c es p) False ec index s) =
    Some (first_connected (try_endpoint os ctl dest p) f (drop i es) ec s)"
  using assms(3,4)
proof (induction "length es - i" arbitrary: i start ec s rule: less_induct)
  case less
  let ?try_ep = "try_endpoint os ctl dest p" and ?att = "\<lambda>e s. service_connect os dest e p s"
  let ?call = "range_connect_call os ctl ?att c es p"
  define k where "k = check_condition c ec es i"
  from find_endpoint_spec [OF less.prems(1), of f ec ?try_ep s] check_condition_find [OF assms(1) less.prems(1), of ec]
  have k: "i \<le> k" "k \<le> length es" "k < length es \<longrightarrow> f ec (es ! k)"
    "first_connected ?try_ep f (drop i es) ec s = first_connected ?try_ep f (drop k es) ec s" by (simp_all add: k_def)
  show ?case
  proof (cases "k < length es")
    case False
    then have k': "k = length es" using k(2) by simp
    have fin: "?call False (misc not_found) (length es) s = Some (Inl (None, misc not_found, s))"
      by (simp add: range_connect_call_def range_connect_process_def range_connect_done_def range_connect_follow_def)
    have h: "range_connect_head os ctl c es p start ec i s =
        Some (if start then Post_Self (misc not_found) else range_connect_done es ec k, k, s)"
      using k' by (simp add: range_connect_head_def Let_def flip: k_def)
    show ?thesis unfolding h using k(4) k' less.prems(2) fin
      by (simp add: range_connect_follow_def range_connect_done_def calls_to_handler.simps [of _ False])
  next
    case True
    then have d: "drop k es = es ! k # drop (k + 1) es" by (simp add: Cons_nth_drop_Suc)
    obtain ec0 s0 where cl: "rs_close os ctl p s = (ec0, s0)" by fastforce
    have h: "range_connect_head os ctl c es p start ec i s = Some (Async_Connect (es ! k), k, s0)"
      using True cl by (simp add: range_connect_head_def flip: k_def)
    obtain ec1 s1 where t: "?try_ep (es ! k) s = (ec1, s1)" by fastforce
    from follow_connect [OF assms(2), of "es ! k" s s0 dest k] True cl t
    have fo: "range_connect_follow os ctl ?att p (Async_Connect (es ! k), k, s0) = Inr (ec1, k, s1)" "svc_is_open (base_of s1 p)"
      by simp_all
    have run: "calls_to_handler ?call False ec1 k s1 = Some (first_connected ?try_ep f (drop k es) ec s)"
    proof (cases "ec1 = None")
      case N: True
      then have "?call False ec1 k s1 = Some (Inl (Some (es ! k), None, s1))"
        using True fo(2) by (simp add: range_connect_call_def range_connect_process_def range_connect_done_def range_connect_follow_def)
      then show ?thesis using k(3) True d t N by (simp add: calls_to_handler.simps [of _ False])
    next
      case S: False
      then obtain er where er: "ec1 = Some er" by blast
      have "length es - (k + 1) < length es - i" "k + 1 \<le> length es" "False \<longleftrightarrow> ec1 = None" using True k(1) S by auto
      from less.hyps [OF this, of s1] obtain x where x: "range_connect_head os ctl c es p False ec1 (k + 1) s1 = Some x"
        "(case range_connect_follow os ctl ?att p x of Inl r \<Rightarrow> Some r | Inr (ec, index, s) \<Rightarrow> calls_to_handler ?call False ec index s) =
          Some (first_connected ?try_ep f (drop (k + 1) es) ec1 s1)" by blast
      have "?call False ec1 k s1 = Some (range_connect_follow os ctl ?att p x)"
        using True fo(2) x(1) unfolding er by (cases x) (simp add: range_connect_call_def range_connect_process_def)
      then have "calls_to_handler ?call False ec1 k s1 = Some (first_connected ?try_ep f (drop (k + 1) es) ec1 s1)"
        using x(2) by (simp add: calls_to_handler.simps [of _ False])
      then show ?thesis using k(3) True d t er by simp
    qed
    show ?thesis using h fo(1) run k(4) by simp
  qed
qed

lemma async_connect_first:
  assumes "condition_fun c = Some f" "opens os ctl p es"
  shows "async_connect_range os ctl (\<lambda>e s. service_connect os dest e p s) c es p s =
    Some (first_connected (try_endpoint os ctl dest p) f es None s)"
  using head_run [OF assms, of 0 True None s dest]
  by (auto simp: async_connect_range_def calls_to_handler.simps [of _ True] range_connect_call_def range_connect_process_def)

text \<open>A socket that cannot be opened for an endpoint looks like one that was closed by its user.\<close>

lemma async_connect_open_fails:
  assumes "condition_fun c = Some f" "f None e" "rs_open os ctl (ep_protocol e) p (snd (rs_close os ctl p s)) = (Some er, s')"
  shows "async_connect_range os ctl attempt c (e # es) p s = Some (None, basic operation_aborted, s')"
proof -
  define s0 where "s0 = snd (rs_close os ctl p s)"
  have cl: "\<not> svc_is_open (base_of s0 p)" unfolding s0_def by (rule rs_close_closed)
  have no: "\<not> svc_is_open (base_of s' p)" using rs_open_failed [OF cl, of os ctl "ep_protocol e"] assms(3) by (simp add: s0_def)
  let ?call = "range_connect_call os ctl attempt c (e # es) p"
  have "check_condition c None (e # es) 0 = 0"
    using assms(2) check_condition_find [OF assms(1), of 0 "e # es" None] by (simp add: find_endpoint.simps)
  then have "?call True None 0 s = Some (Inr (Some er, 0, s'))"
    using cl assms(3)
    by (simp add: range_connect_call_def range_connect_process_def range_connect_head_def range_connect_follow_def bs_async_open_def
        split_beta flip: s0_def)
  moreover have "?call False (Some er) 0 s' = Some (Inl (None, basic operation_aborted, s'))"
    using no by (simp add: range_connect_call_def range_connect_process_def range_connect_done_def range_connect_follow_def)
  ultimately show ?thesis
    by (simp add: async_connect_range_def calls_to_handler.simps [of _ True] calls_to_handler.simps [of _ False])
qed

text \<open>C16: \<open>async_connect\<close> over a sequence ends like \<open>connect\<close>, with the same endpoint, error and state, when each of its attempts ends
  like the attempt of \<open>connect\<close> and a socket can be opened for every endpoint. When the socket cannot be opened for the first endpoint,
  \<open>connect\<close> goes on to the next, but \<open>async_connect\<close> takes the closed socket for one its user closed, gives up and reports
  \<open>operation_aborted\<close>.\<close>

theorem async_connect_agrees:
  assumes "condition_fun c = Some f"
  shows "(opens os ctl p es \<longrightarrow>
      async_connect_range os ctl (\<lambda>e s. service_connect os dest e p s) c es p s = connect os ctl dest c es p s) \<and>
    (\<forall>e es' er s'. es = e # es' \<longrightarrow> f None e \<longrightarrow> rs_open os ctl (ep_protocol e) p (snd (rs_close os ctl p s)) = (Some er, s') \<longrightarrow>
      connect os ctl dest c es p s = Some (first_connected (try_endpoint os ctl dest p) f es' (Some er) s') \<and>
      async_connect_range os ctl (\<lambda>e s. service_connect os dest e p s) c es p s = Some (None, basic operation_aborted, s'))"
proof (intro conjI impI allI)
  note sync = connect_first [OF assms]
  show "async_connect_range os ctl (\<lambda>e s. service_connect os dest e p s) c es p s = connect os ctl dest c es p s"
    if "opens os ctl p es" unfolding sync by (rule async_connect_first [OF assms that])
  fix e es' er s'
  assume es: "es = e # es'" and f: "f None e" and o: "rs_open os ctl (ep_protocol e) p (snd (rs_close os ctl p s)) = (Some er, s')"
  from async_connect_open_fails [OF assms f o] es
  show "async_connect_range os ctl (\<lambda>e s. service_connect os dest e p s) c es p s = Some (None, basic operation_aborted, s')" by simp
  have "try_endpoint os ctl dest p e s = (Some er, s')"
    using o rs_close_closed [of os ctl p s] by (simp add: try_endpoint_def bs_connect_def)
  with f es show "connect os ctl dest c es p s = Some (first_connected (try_endpoint os ctl dest p) f es' (Some er) s')"
    by (simp add: sync)
qed

section \<open>Descriptors\<close>

lemma service_connect_steps:
  assumes "\<forall>e x. fds (dest e x) = fds x" "rs_steps os ctl fds s"
  shows "rs_steps os ctl fds (snd (service_connect os dest e p s))"
proof -
  have "keeps_fds fds w (w\<lparr>aw_sys := dest e (aw_sys w)\<rparr>)" for w :: "'a acc_world" using assms(1) by (simp add: keeps_fds_def)
  then show ?thesis unfolding service_connect_def rs_on_world_def
    by (auto intro!: rs_connect rs_other assms(2))
qed

lemma try_endpoint_steps:
  assumes "\<forall>e x. fds (dest e x) = fds x" "rs_steps os ctl fds s"
  shows "rs_steps os ctl fds (snd (try_endpoint os ctl dest p e s)) \<and>
    (\<forall>q. q \<noteq> p \<longrightarrow> base_of (snd (try_endpoint os ctl dest p e s)) q = base_of s q)"
proof -
  define s0 where "s0 = snd (rs_close os ctl p s)"
  have s0: "rs_steps os ctl fds s0" "\<And>q. q \<noteq> p \<Longrightarrow> base_of s0 q = base_of s q" unfolding s0_def
    by (intro rs_close assms(2)) (auto simp: rs_close_def put_base_def split: prod.split)
  obtain ec s1 where o: "rs_open os ctl (ep_protocol e) p s0 = (ec, s1)" by fastforce
  then have s1: "rs_steps os ctl fds s1" using rs_open [OF s0(1), of "ep_protocol e" p] by simp
  have "base_of s1 q = base_of s0 q" if "q \<noteq> p" for q
    using o that by (auto simp: rs_open_def put_base_def put_protocol_def Let_def split: prod.splits if_splits)
  moreover have "try_endpoint os ctl dest p e s = (if ec \<noteq> None then (ec, s1) else service_connect os dest e p s1)"
    using o rs_close_closed [of os ctl p s] by (simp add: try_endpoint_def bs_connect_def flip: s0_def)
  ultimately show ?thesis using s0(2) s1 service_connect_steps [OF assms(1) s1] by auto
qed

lemma first_connected_error:
  "case first_connected try_ep f es ec s of (e, ec, s) \<Rightarrow> ec = None \<longleftrightarrow> e \<noteq> None"
proof (induction es arbitrary: ec s)
  case (Cons e es)
  obtain ec1 s1 where "try_ep e s = (ec1, s1)" by fastforce
  with Cons show ?case by simp
qed (simp add: misc_def)

lemma first_connected_keeps:
  assumes "\<And>e s. P s \<Longrightarrow> P (snd (try_ep e s))"
  shows "P s \<Longrightarrow> P (snd (snd (first_connected try_ep f es ec s)))"
proof (induction es arbitrary: ec s)
  case (Cons e es)
  obtain ec1 s1 where t: "try_ep e s = (ec1, s1)" by fastforce
  then have "P s1" using assms [OF Cons.prems, of e] by simp
  with Cons t show ?case by simp
qed simp

text \<open>C15: \<open>connect\<close> over a sequence of endpoints always returns, with the first endpoint, in their order, that the condition
  allows and that a freshly closed socket connects to. When there is none, it reports the error of the last attempt, or \<open>not_found\<close> if there was
  no attempt, and no endpoint; the condition is asked with the error of the attempt before. No other socket changes, and the descriptors stay
  accounted for.\<close>

theorem connect_returns_first:
  assumes "condition_fun c = Some f"
  shows "\<exists>e ec s'. connect os ctl dest c es p s = Some (e, ec, s') \<and>
    (e, ec, s') = first_connected (try_endpoint os ctl dest p) f es None s \<and> (ec = None \<longleftrightarrow> e \<noteq> None) \<and>
    (\<forall>fds. (\<forall>e x. fds (dest e x) = fds x) \<longrightarrow> rs_steps os ctl fds s \<longrightarrow>
       rs_steps os ctl fds s' \<and> (\<forall>q. q \<noteq> p \<longrightarrow> base_of s' q = base_of s q))"
proof -
  obtain e ec s' where r: "first_connected (try_endpoint os ctl dest p) f es None s = (e, ec, s')" by (metis prod_cases3)
  have "ec = None \<longleftrightarrow> e \<noteq> None"
    using first_connected_error [of "try_endpoint os ctl dest p" f es None s] r by simp
  moreover have "rs_steps os ctl fds s' \<and> (\<forall>q. q \<noteq> p \<longrightarrow> base_of s' q = base_of s q)"
    if "\<forall>e x. fds (dest e x) = fds x" "rs_steps os ctl fds s" for fds
    using first_connected_keeps [of "\<lambda>t. rs_steps os ctl fds t \<and> (\<forall>q. q \<noteq> p \<longrightarrow> base_of t q = base_of s q)"
        "try_endpoint os ctl dest p" s f es None] try_endpoint_steps [OF that(1)] that(2) r by auto
  ultimately show ?thesis using r by (intro exI [of _ e] exI [of _ ec] exI [of _ s']) (simp add: connect_first [OF assms])
qed

text \<open>A system in which only port 80 accepts connections, and which has no IPv6. Its state is the last descriptor and the last port.\<close>

definition web_os :: "(nat \<times> nat) acc_world os" where
  "web_os = \<lparr> sys_accept = (\<lambda>_ w. ((- 1, E_BADF), w)), sys_bind = (\<lambda>_ w. ((0, 0), w)), sys_close = (\<lambda>_ w. ((0, 0), w)),
     sys_connect = (\<lambda>_ w. (if snd (aw_sys w) = 80 then (0, 0) else (- 1, 111), w)),
     sys_listen = (\<lambda>_ _ w. ((0, 0), w)), sys_shutdown = (\<lambda>_ _ w. ((0, 0), w)),
     sys_socket = (\<lambda>family _ _ w. if family = 2 then ((int (fst (aw_sys w)) + 1, 0), w\<lparr>aw_sys := (fst (aw_sys w) + 1, snd (aw_sys w))\<rparr>)
                                 else ((- 1, 97), w)),
     sys_poll = (\<lambda>_ _ _ w. ((1, 0), w)), sys_recv = (\<lambda>_ _ _ w. ((0, 0), w)), sys_recvmsg = (\<lambda>_ _ _ w. ((0, 0), w)),
     sys_send = (\<lambda>_ _ _ w. ((0, 0), w)), sys_sendmsg = (\<lambda>_ _ _ w. ((0, 0), w)),
     sys_ioctl = (\<lambda>_ _ v w. ((0, 0, v), w)), sys_setsockopt = (\<lambda>_ _ _ _ w. ((0, 0), w)),
     sys_getsockopt = (\<lambda>_ _ _ _ w. ((0, 0, [0], 4), w)) \<rparr>"

definition web_ctl :: "(nat \<times> nat) acc_world ctl" where "web_ctl = (\<lambda>_ _ _ _ w. ((0, 0), w))"
definition web_dest :: "(nat \<times> nat) dest" where "web_dest e x = (fst x, ep_port e)"

definition web_start :: "(nat \<times> nat) socket_system" where
  "web_start = \<lparr> sk_impls = (\<lambda>_. closed_impl),
     sk_accepts = (\<lambda>_. \<lparr> ao_socket = - 1, ao_state = 0, ao_peer = 0, ao_protocol = default_protocol \<rparr>),
     sk_reactor = er_ctor False True (\<lambda>_. \<lparr> ds_descriptor = - 1, ds_registered_events = 0, ds_queue = (\<lambda>_. []),
       ds_speculative = (\<lambda>_. False), ds_shutdown = False, ds_task_result = 0 \<rparr>) (\<lambda>_. reactor_op_ctor)
       \<lparr> aw_sys = (2, 0), aw_holder = (\<lambda>_. - 1) \<rparr> \<rparr>"

definition web_endpoints :: "tcp_endpoint list" where
  "web_endpoints = [\<lparr> ep_v4 = True, ep_address = 1, ep_port = 22 \<rparr>, \<lparr> ep_v4 = True, ep_address = 2, ep_port = 80 \<rparr>,
     \<lparr> ep_v4 = True, ep_address = 3, ep_port = 80 \<rparr>]"

lemma web_first: "fst (first_connected (try_endpoint web_os web_ctl web_dest 0) default_connect_condition web_endpoints None web_start) =
   Some \<lparr> ep_v4 = True, ep_address = 2, ep_port = 80 \<rparr>"
  by code_simp

theorem connect_returns_first_witness:
  "\<exists>s'. connect web_os web_ctl web_dest Default_Condition web_endpoints 0 web_start =
     Some (Some \<lparr> ep_v4 = True, ep_address = 2, ep_port = 80 \<rparr>, None, s')"
proof -
  have "condition_fun Default_Condition = Some default_connect_condition" by simp
  from connect_returns_first [OF this, of web_os web_ctl web_dest web_endpoints 0 web_start] web_first show ?thesis
    by (metis fst_conv option.distinct(1))
qed

lemma web_opens: "opens web_os web_ctl 0 web_endpoints"
proof -
  have "case rs_open web_os web_ctl tcp_v4 0 s of (ec, s) \<Rightarrow> ec = None \<and> svc_is_open (base_of s 0)"
    if "\<not> svc_is_open (base_of s 0)" for s
    using that by (simp add: rs_open_def tcp_v4_def svc_do_open_def so_socket_def web_os_def web_ctl_def register_descriptor_def Let_def
      put_base_def put_protocol_def svc_is_open_def get_last_error_def split_beta)
  then show ?thesis by (auto simp: opens_def web_endpoints_def ep_protocol_def)
qed

theorem async_connect_agrees_witness:
  "async_connect_range web_os web_ctl (\<lambda>e s. service_connect web_os web_dest e 0 s) Default_Condition web_endpoints 0 web_start =
     connect web_os web_ctl web_dest Default_Condition web_endpoints 0 web_start \<and>
   (\<exists>s'. async_connect_range web_os web_ctl (\<lambda>e s. service_connect web_os web_dest e 0 s) Default_Condition
       (\<lparr> ep_v4 = False, ep_address = 2, ep_port = 80 \<rparr> # web_endpoints) 0 web_start = Some (None, basic operation_aborted, s'))"
proof -
  have c: "condition_fun Default_Condition = Some default_connect_condition" by simp
  let ?e = "\<lparr> ep_v4 = False, ep_address = 2, ep_port = 80 \<rparr>"
  have "fst (rs_open web_os web_ctl (ep_protocol ?e) 0 (snd (rs_close web_os web_ctl 0 web_start))) = sys_error 97" by code_simp
  then obtain s' where "rs_open web_os web_ctl (ep_protocol ?e) 0 (snd (rs_close web_os web_ctl 0 web_start)) = (Some (Sys_Error 97), s')"
    by (metis sys_error_def prod.collapse zero_neq_numeral)
  with async_connect_agrees [OF c, of web_os web_ctl 0 web_endpoints web_dest web_start]
    async_connect_agrees [OF c, of web_os web_ctl 0 "?e # web_endpoints" web_dest web_start] web_opens
  show ?thesis by (auto simp: default_connect_condition_def)
qed

end
