(* ===== verification/Asio_Thread_Info.thy ===== *)
theory Asio_Thread_Info
  imports Main
begin

text \<open>
  The memory of handlers: \<open>src/3rd/asio/include/asio/detail/thread_info_base.hpp\<close>. A thread keeps one block
  for each purpose and hands it out again when it is large enough. The number of chunks of a block is stored in the
  byte behind the memory in use, and in its first byte while the block is kept. Memory is a map of blocks with
  their capacity and contents; an access outside a block, or to a block that was freed, is \<open>None\<close>. Sizes are \<open>size_t\<close>
  values that wrap around at \<open>2\<^sup>6\<^sup>4\<close>. The pending exception of a thread is modelled as well.
\<close>

section \<open>Blocks\<close>

record mem_block =
  bl_capacity :: nat
  bl_bytes :: "nat \<Rightarrow> nat"

record mem_heap =
  hp_blocks :: "nat \<Rightarrow> mem_block option"
  hp_fresh :: nat

definition operator_new :: "nat \<Rightarrow> mem_heap \<Rightarrow> nat \<times> mem_heap" where
  "operator_new n h =
     (hp_fresh h, h\<lparr>hp_fresh := hp_fresh h + 1, hp_blocks := (hp_blocks h)(hp_fresh h \<mapsto> \<lparr> bl_capacity = n, bl_bytes = (\<lambda>_. 0) \<rparr>)\<rparr>)"

definition operator_delete :: "nat \<Rightarrow> mem_heap \<Rightarrow> mem_heap option" where
  "operator_delete p h = (if hp_blocks h p = None then None else Some (h\<lparr>hp_blocks := (hp_blocks h)(p := None)\<rparr>))"

definition byte_read :: "nat \<Rightarrow> nat \<Rightarrow> mem_heap \<Rightarrow> nat option" where
  "byte_read p i h =
     (case hp_blocks h p of None \<Rightarrow> None | Some b \<Rightarrow> if i < bl_capacity b then Some (bl_bytes b i) else None)"

definition byte_write :: "nat \<Rightarrow> nat \<Rightarrow> nat \<Rightarrow> mem_heap \<Rightarrow> mem_heap option" where
  "byte_write p i v h =
     (case hp_blocks h p of
        None \<Rightarrow> None
      | Some b \<Rightarrow> if i < bl_capacity b
                  then Some (h\<lparr>hp_blocks := (hp_blocks h)(p \<mapsto> b\<lparr>bl_bytes := (bl_bytes b)(i := v)\<rparr>)\<rparr>) else None)"

section \<open>The thread\<close>

definition chunk_size :: nat where "chunk_size = 4"
definition max_mem_index :: nat where "max_mem_index = 3"
definition UCHAR_MAX :: nat where "UCHAR_MAX = 255"

text \<open>The memory index of a purpose: default, awaitable frame, executor function.\<close>

datatype purpose = Default_Tag | Awaitable_Frame_Tag | Executor_Function_Tag

record thread_memory =
  tm_reusable :: "purpose \<Rightarrow> nat option"

definition thread_info_base :: thread_memory where
  "thread_info_base = \<lparr> tm_reusable = (\<lambda>_. None) \<rparr>"

definition chunks_of :: "nat \<Rightarrow> nat" where
  "chunks_of sz = (sz + chunk_size - 1) mod 2 ^ 64 div chunk_size"

text \<open>\<open>allocate\<close>; the thread is \<open>None\<close> when the caller runs no scheduler.\<close>

definition allocate_new :: "nat \<Rightarrow> nat \<Rightarrow> mem_heap \<Rightarrow> (nat \<times> mem_heap) option" where
  "allocate_new chunks sz h =
     (case operator_new ((chunks * chunk_size + 1) mod 2 ^ 64) h of (p, h) \<Rightarrow>
        (case byte_write p sz (if chunks \<le> UCHAR_MAX then chunks else 0) h of None \<Rightarrow> None | Some h \<Rightarrow> Some (p, h)))"

definition allocate ::
    "purpose \<Rightarrow> thread_memory option \<Rightarrow> nat \<Rightarrow> mem_heap \<Rightarrow> (nat \<times> thread_memory option \<times> mem_heap) option" where
  "allocate purpose th sz h =
     (let chunks = chunks_of sz in
      case (case th of None \<Rightarrow> None | Some t \<Rightarrow> map_option (\<lambda>p. (t, p)) (tm_reusable t purpose)) of
        None \<Rightarrow> map_option (\<lambda>(p, h). (p, th, h)) (allocate_new chunks sz h)
      | Some (t, p) \<Rightarrow>
          let th = Some (t\<lparr>tm_reusable := (tm_reusable t)(purpose := None)\<rparr>) in
          (case byte_read p 0 h of
             None \<Rightarrow> None
           | Some m \<Rightarrow>
               if m \<ge> chunks
               then (case byte_write p sz m h of None \<Rightarrow> None | Some h \<Rightarrow> Some (p, th, h))
               else (case operator_delete p h of
                       None \<Rightarrow> None
                     | Some h \<Rightarrow> map_option (\<lambda>(p, h). (p, th, h)) (allocate_new chunks sz h))))"

definition deallocate ::
    "purpose \<Rightarrow> thread_memory option \<Rightarrow> nat \<Rightarrow> nat \<Rightarrow> mem_heap \<Rightarrow> (thread_memory option \<times> mem_heap) option" where
  "deallocate purpose th p sz h =
     (case th of
        Some t \<Rightarrow>
          if sz \<le> chunk_size * UCHAR_MAX \<and> tm_reusable t purpose = None then
            (case byte_read p sz h of
               None \<Rightarrow> None
             | Some m \<Rightarrow>
                 (case byte_write p 0 m h of
                    None \<Rightarrow> None
                  | Some h \<Rightarrow> Some (Some (t\<lparr>tm_reusable := (tm_reusable t)(purpose \<mapsto> p)\<rparr>), h)))
          else map_option (\<lambda>h. (th, h)) (operator_delete p h)
      | None \<Rightarrow> map_option (\<lambda>h. (th, h)) (operator_delete p h))"

text \<open>The destructor.\<close>

definition delete_slot :: "thread_memory \<Rightarrow> purpose \<Rightarrow> mem_heap option \<Rightarrow> mem_heap option" where
  "delete_slot t purpose h =
     (case h of None \<Rightarrow> None
      | Some h \<Rightarrow> (case tm_reusable t purpose of None \<Rightarrow> Some h | Some p \<Rightarrow> operator_delete p h))"

definition thread_info_destroy :: "thread_memory \<Rightarrow> mem_heap \<Rightarrow> mem_heap option" where
  "thread_info_destroy t h =
     delete_slot t Executor_Function_Tag (delete_slot t Awaitable_Frame_Tag (delete_slot t Default_Tag (Some h)))"

section \<open>The pending exception\<close>

datatype 'e exception = Single 'e | Multiple "'e exception"

record 'e pending =
  pe_has :: nat
  pe_exception :: "'e exception option"

definition capture_current_exception :: "'e \<Rightarrow> 'e pending \<Rightarrow> 'e pending" where
  "capture_current_exception e s =
     (if pe_has s = 0 then s\<lparr>pe_has := 1, pe_exception := Some (Single e)\<rparr>
      else if pe_has s = 1 then s\<lparr>pe_has := 2, pe_exception := map_option Multiple (pe_exception s)\<rparr>
      else s)"

definition rethrow_pending_exception :: "'e pending \<Rightarrow> 'e exception option \<times> 'e pending" where
  "rethrow_pending_exception s =
     (if pe_has s > 0 then (pe_exception s, s\<lparr>pe_has := 0, pe_exception := None\<rparr>) else (None, s))"

text \<open>Whatever handlers throw, the first exception is reported, marked when it was not the only one, and none is pending afterwards.\<close>

lemma captured_exceptions:
  assumes "pe_has s = 0"
  shows "rethrow_pending_exception (fold capture_current_exception es s) =
    (case es of [] \<Rightarrow> (None, s) | [e] \<Rightarrow> (Some (Single e), s\<lparr>pe_has := 0, pe_exception := None\<rparr>)
     | e # _ \<Rightarrow> (Some (Multiple (Single e)), s\<lparr>pe_has := 0, pe_exception := None\<rparr>))"
proof -
  have two: "fold capture_current_exception fs t = t" if "pe_has t = 2" for fs and t :: "'a pending"
    using that by (induction fs) (simp_all add: capture_current_exception_def)
  show ?thesis
    using assms two by (cases es rule: list.exhaust; simp split: list.split)
      (auto simp: capture_current_exception_def rethrow_pending_exception_def)
qed

section \<open>Ownership of the blocks\<close>

text \<open>\<open>L\<close> holds the sizes of the memory in use and \<open>S\<close> the slots of all threads. A block in use is larger than its memory
  and the byte behind it tells a number of chunks that fits; so does the first byte of a block that is kept.\<close>

definition tagged :: "mem_block \<Rightarrow> nat \<Rightarrow> bool" where
  "tagged b i \<longleftrightarrow> i < bl_capacity b \<and> bl_bytes b i * chunk_size + 1 \<le> bl_capacity b"

definition blocks_ok :: "(nat \<Rightarrow> mem_block option) \<Rightarrow> nat \<Rightarrow> (nat \<Rightarrow> nat option) \<Rightarrow> ('x \<Rightarrow> nat option) \<Rightarrow> bool" where
  "blocks_ok B f L S \<longleftrightarrow>
     (\<forall>x y p. S x = Some p \<longrightarrow> S y = Some p \<longrightarrow> x = y) \<and>
     (\<forall>x p. S x = Some p \<longrightarrow> L p = None \<and> (\<exists>b. B p = Some b \<and> tagged b 0)) \<and>
     (\<forall>p sz. L p = Some sz \<longrightarrow> (\<exists>b. B p = Some b \<and> tagged b sz)) \<and>
     (\<forall>p. B p \<noteq> None \<longrightarrow> p < f \<and> (L p \<noteq> None \<or> (\<exists>x. S x = Some p)))"

lemma blocks_okD:
  assumes "blocks_ok B f L S"
  shows "S x = Some p \<Longrightarrow> S y = Some p \<Longrightarrow> x = y" "S x = Some p \<Longrightarrow> L p = None"
    "S x = Some p \<Longrightarrow> \<exists>b. B p = Some b \<and> tagged b 0" "L p = Some sz \<Longrightarrow> \<exists>b. B p = Some b \<and> tagged b sz"
    "B p = Some b \<Longrightarrow> p < f" "B p = Some b \<Longrightarrow> L p = None \<Longrightarrow> \<exists>x. S x = Some p"
  using assms unfolding blocks_ok_def by blast+

lemma blocks_okI:
  assumes "\<And>x y p. S x = Some p \<Longrightarrow> S y = Some p \<Longrightarrow> x = y" "\<And>x p. S x = Some p \<Longrightarrow> L p = None"
    "\<And>x p. S x = Some p \<Longrightarrow> \<exists>b. B p = Some b \<and> tagged b 0" "\<And>p sz. L p = Some sz \<Longrightarrow> \<exists>b. B p = Some b \<and> tagged b sz"
    "\<And>p b. B p = Some b \<Longrightarrow> p < f" "\<And>p b. B p = Some b \<Longrightarrow> L p = None \<Longrightarrow> \<exists>x. S x = Some p"
  shows "blocks_ok B f L S"
  unfolding blocks_ok_def
proof (intro conjI allI impI)
  fix p assume "B p \<noteq> None"
  then obtain b where b: "B p = Some b" by blast
  then show "p < f" by (rule assms(5))
  show "L p \<noteq> None \<or> (\<exists>x. S x = Some p)" using assms(6) [OF b] by blast
qed (use assms(1-4) in blast)+

lemma blocks_ok_fresh:
  assumes "blocks_ok B f L S"
  shows "B f = None" "L f = None" "S x \<noteq> Some f"
proof -
  note D = blocks_okD [OF assms]
  show "B f = None" using D(5) [of f] by (cases "B f") auto
  then show "L f = None" using D(4) [of f] by (cases "L f") auto
  from \<open>B f = None\<close> show "S x \<noteq> Some f" using D(3) [of x f] by auto
qed

lemma blocks_ok_new:
  assumes "blocks_ok B f L S" "tagged b sz"
  shows "blocks_ok (B(f \<mapsto> b)) (f + 1) (L(f \<mapsto> sz)) S"
proof -
  note D = blocks_okD [OF assms(1)]
  note new = blocks_ok_fresh [OF assms(1)]
  show ?thesis
  proof (rule blocks_okI)
    fix q c assume q: "(B(f \<mapsto> b)) q = Some c" "(L(f \<mapsto> sz)) q = None"
    then show "\<exists>y. S y = Some q" using D(6) [of q c] by (auto split: if_splits)
  next
    fix q c assume "(B(f \<mapsto> b)) q = Some c"
    then show "q < f + 1" using D(5) [of q c] by (cases "q = f") auto
  qed (use D(1-4) new assms(2) in \<open>auto split: if_splits\<close>)
qed

lemma slot_other: "blocks_ok B f L S \<Longrightarrow> S x = Some p \<Longrightarrow> (S(x := None)) y = Some q \<Longrightarrow> q \<noteq> p"
  using blocks_okD(1) [of B f L S x p y] by (auto split: if_splits)

lemma blocks_ok_reuse:
  assumes "blocks_ok B f L S" "S x = Some p" "tagged b sz"
  shows "blocks_ok (B(p \<mapsto> b)) f (L(p \<mapsto> sz)) (S(x := None))"
proof -
  note D = blocks_okD [OF assms(1)]
  note o = slot_other [OF assms(1,2)]
  have p: "p < f" using D(3) [OF assms(2)] D(5) by blast
  show ?thesis
  proof (rule blocks_okI)
    fix q c assume q: "(B(p \<mapsto> b)) q = Some c" "(L(p \<mapsto> sz)) q = None"
    then obtain y where "S y = Some q" using D(6) [of q c] by (auto split: if_splits)
    with q(2) assms(2) show "\<exists>y. (S(x := None)) y = Some q" by (intro exI [of _ y]) (auto split: if_splits)
  qed (use D o p assms(3) in \<open>auto split: if_splits\<close>)
qed

lemma blocks_ok_delete_slot:
  assumes "blocks_ok B f L S" "S x = Some p"
  shows "blocks_ok (B(p := None)) f L (S(x := None))"
proof -
  note D = blocks_okD [OF assms(1)]
  note o = slot_other [OF assms]
  have p: "L p = None" by (rule D(2) [OF assms(2)])
  show ?thesis
  proof (rule blocks_okI)
    fix q c assume q: "(B(p := None)) q = Some c" "L q = None"
    then obtain y where "S y = Some q" "q \<noteq> p" using D(6) [of q c] by (auto split: if_splits)
    with assms(2) show "\<exists>y. (S(x := None)) y = Some q" by (intro exI [of _ y]) auto
  qed (use D o p in \<open>auto split: if_splits\<close>)
qed

lemma blocks_ok_keep:
  assumes "blocks_ok B f L S" "L p = Some sz" "S x = None" "tagged b 0"
  shows "blocks_ok (B(p \<mapsto> b)) f (L(p := None)) (S(x \<mapsto> p))"
proof -
  note D = blocks_okD [OF assms(1)]
  have o: "S y \<noteq> Some p" for y using D(2) [of y p] assms(2) by auto
  have p: "p < f" using D(4) [OF assms(2)] D(5) by blast
  show ?thesis
  proof (rule blocks_okI)
    fix q c assume q: "(B(p \<mapsto> b)) q = Some c" "(L(p := None)) q = None"
    show "\<exists>y. (S(x \<mapsto> p)) y = Some q"
    proof (cases "q = p")
      case False
      with q obtain y where "S y = Some q" using D(6) [of q c] by auto
      with assms(3) show ?thesis by (intro exI [of _ y]) auto
    qed auto
  qed (use D o p assms(4) in \<open>auto split: if_splits\<close>)
qed

lemma blocks_ok_free:
  assumes "blocks_ok B f L S" "L p = Some sz"
  shows "blocks_ok (B(p := None)) f (L(p := None)) S"
proof -
  note D = blocks_okD [OF assms(1)]
  have o: "S y \<noteq> Some p" for y using D(2) [of y p] assms(2) by auto
  show ?thesis by (rule blocks_okI) (use D o in \<open>auto split: if_splits\<close>)
qed

lemma blocks_ok_write:
  assumes "blocks_ok B f L S" "L p = Some sz" "B p = Some b" "i < sz"
  shows "blocks_ok (B(p \<mapsto> b\<lparr>bl_bytes := (bl_bytes b)(i := v)\<rparr>)) f L S"
proof -
  note D = blocks_okD [OF assms(1)]
  have o: "S y \<noteq> Some p" for y using D(2) [of y p] assms(2) by auto
  have "tagged b sz" using D(4) [OF assms(2)] assms(3) by auto
  then have t: "tagged (b\<lparr>bl_bytes := (bl_bytes b)(i := v)\<rparr>) sz" using assms(4) by (simp add: tagged_def)
  show ?thesis by (rule blocks_okI) (use D o t assms(2,3) in \<open>auto split: if_splits\<close>)
qed

section \<open>Histories\<close>

text \<open>The threads of a program and the memory in use, with the size it was allocated with. A call is made on a thread of the
  scheduler or on none.\<close>

record mem_state =
  ms_heap :: mem_heap
  ms_threads :: "nat \<Rightarrow> thread_memory"
  ms_live :: "nat \<Rightarrow> nat option"

definition mem_start :: mem_state where
  "mem_start = \<lparr> ms_heap = \<lparr> hp_blocks = (\<lambda>_. None), hp_fresh = 0 \<rparr>, ms_threads = (\<lambda>_. thread_info_base), ms_live = (\<lambda>_. None) \<rparr>"

definition put_thread :: "nat option \<Rightarrow> thread_memory option \<Rightarrow> mem_state \<Rightarrow> mem_state" where
  "put_thread i th s = (case i of None \<Rightarrow> s | Some j \<Rightarrow> (case th of None \<Rightarrow> s | Some t \<Rightarrow> s\<lparr>ms_threads := (ms_threads s)(j := t)\<rparr>))"

definition mem_alloc :: "purpose \<Rightarrow> nat option \<Rightarrow> nat \<Rightarrow> mem_state \<Rightarrow> (nat \<times> mem_state) option" where
  "mem_alloc purpose i sz s =
     (case allocate purpose (map_option (ms_threads s) i) sz (ms_heap s) of
        None \<Rightarrow> None
      | Some (p, th, h) \<Rightarrow> Some (p, put_thread i th (s\<lparr>ms_heap := h, ms_live := (ms_live s)(p \<mapsto> sz)\<rparr>)))"

definition mem_dealloc :: "purpose \<Rightarrow> nat option \<Rightarrow> nat \<Rightarrow> nat \<Rightarrow> mem_state \<Rightarrow> mem_state option" where
  "mem_dealloc purpose i p sz s =
     (case deallocate purpose (map_option (ms_threads s) i) p sz (ms_heap s) of
        None \<Rightarrow> None
      | Some (th, h) \<Rightarrow> Some (put_thread i th (s\<lparr>ms_heap := h, ms_live := (ms_live s)(p := None)\<rparr>)))"

definition mem_exit :: "nat \<Rightarrow> mem_state \<Rightarrow> mem_state option" where
  "mem_exit i s =
     (case thread_info_destroy (ms_threads s i) (ms_heap s) of
        None \<Rightarrow> None
      | Some h \<Rightarrow> Some (s\<lparr>ms_heap := h, ms_threads := (ms_threads s)(i := thread_info_base)\<rparr>))"

inductive mem_reach :: "mem_state \<Rightarrow> bool" where
  start: "mem_reach mem_start"
| alloc: "mem_reach s \<Longrightarrow> sz < 2 ^ 64 - 3 \<Longrightarrow> mem_alloc purpose i sz s = Some (p, s') \<Longrightarrow> mem_reach s'"
| dealloc: "mem_reach s \<Longrightarrow> ms_live s p = Some sz \<Longrightarrow> mem_dealloc purpose i p sz s = Some s' \<Longrightarrow> mem_reach s'"
| user: "mem_reach s \<Longrightarrow> ms_live s p = Some sz \<Longrightarrow> j < sz \<Longrightarrow> byte_write p j v (ms_heap s) = Some h \<Longrightarrow>
    mem_reach (s\<lparr>ms_heap := h\<rparr>)"
| exit: "mem_reach s \<Longrightarrow> mem_exit i s = Some s' \<Longrightarrow> mem_reach s'"

definition slots_of :: "mem_state \<Rightarrow> nat \<times> purpose \<Rightarrow> nat option" where
  "slots_of s x = tm_reusable (ms_threads s (fst x)) (snd x)"

definition mem_ok :: "mem_state \<Rightarrow> bool" where
  "mem_ok s \<longleftrightarrow> blocks_ok (hp_blocks (ms_heap s)) (hp_fresh (ms_heap s)) (ms_live s) (slots_of s)"

lemma chunks_enough: "sz < 2 ^ 64 - 3 \<Longrightarrow> sz \<le> chunks_of sz * chunk_size \<and> chunks_of sz * chunk_size + 1 < 2 ^ 64"
proof -
  assume sz: "sz < 2 ^ 64 - 3"
  define k where "k = (sz + 3) div 4"
  have k: "k * 4 \<le> sz + 3" "sz + 3 < k * 4 + 4" unfolding k_def by presburger+
  have "chunks_of sz * chunk_size = k * 4" using sz by (simp add: chunks_of_def chunk_size_def k_def)
  moreover have "k * 4 + 1 < 2 ^ 64" using k(1) sz by (simp, presburger)
  ultimately show ?thesis using k(2) by simp
qed

lemma allocate_new_ok:
  assumes "blocks_ok (hp_blocks h) (hp_fresh h) L S" "sz < 2 ^ 64 - 3"
  shows "\<exists>p b h'. allocate_new (chunks_of sz) sz h = Some (p, h') \<and> L p = None \<and> tagged b sz \<and> hp_blocks h' = (hp_blocks h)(p \<mapsto> b) \<and>
    blocks_ok (hp_blocks h') (hp_fresh h') (L(p \<mapsto> sz)) S"
proof -
  define p c where "p = hp_fresh h" and "c = chunks_of sz * chunk_size + 1"
  define b where "b = \<lparr> bl_capacity = c, bl_bytes = (\<lambda>_. 0)(sz := if chunks_of sz \<le> UCHAR_MAX then chunks_of sz else 0) \<rparr>"
  define h' where "h' = h\<lparr>hp_fresh := p + 1, hp_blocks := (hp_blocks h)(p \<mapsto> b)\<rparr>"
  have c: "sz < c" "c mod 2 ^ 64 = c" using chunks_enough [OF assms(2)] by (simp_all add: c_def)
  have n: "allocate_new (chunks_of sz) sz h = Some (p, h')"
    unfolding allocate_new_def operator_new_def c_def [symmetric] c(2)
    by (simp add: byte_write_def h'_def p_def b_def c(1))
  have t: "tagged b sz" using c(1) by (simp add: tagged_def b_def c_def)
  have "blocks_ok ((hp_blocks h)(p \<mapsto> b)) (p + 1) (L(p \<mapsto> sz)) S"
    unfolding p_def by (rule blocks_ok_new [OF assms(1) t])
  then have "blocks_ok (hp_blocks h') (hp_fresh h') (L(p \<mapsto> sz)) S" by (simp add: h'_def)
  with n t blocks_ok_fresh(2) [OF assms(1)] show ?thesis
    by (intro exI [of _ p] exI [of _ b] exI [of _ h']) (simp add: h'_def p_def)
qed

text \<open>What a call to \<open>allocate\<close> leaves: \<open>f\<close> is the slots of the threads, of which \<open>x\<close> is the one it looks at.\<close>

lemma allocate_ok:
  assumes ok: "blocks_ok (hp_blocks h) (hp_fresh h) L S" and sz: "sz < 2 ^ 64 - 3" and x: "S x = tm_reusable t purpose"
  shows "\<exists>p b t' h'. allocate purpose (Some t) sz h = Some (p, Some t', h') \<and> L p = None \<and>
    hp_blocks h' p = Some b \<and> tagged b sz \<and> (\<forall>q. L q \<noteq> None \<longrightarrow> hp_blocks h' q = hp_blocks h q) \<and>
    tm_reusable t' = (tm_reusable t)(purpose := None) \<and>
    blocks_ok (hp_blocks h') (hp_fresh h') (L(p \<mapsto> sz)) (S(x := None))"
proof (cases "S x")
  case None
  then have S: "S(x := None) = S" and t: "(tm_reusable t)(purpose := None) = tm_reusable t" using x by auto
  from allocate_new_ok [OF ok sz] obtain p b h' where n: "allocate_new (chunks_of sz) sz h = Some (p, h')" "L p = None"
    "tagged b sz" "hp_blocks h' = (hp_blocks h)(p \<mapsto> b)" "blocks_ok (hp_blocks h') (hp_fresh h') (L(p \<mapsto> sz)) S" by blast
  have "allocate purpose (Some t) sz h = Some (p, Some t, h')" using None x n(1) by (simp add: allocate_def Let_def)
  with n S t show ?thesis by (intro exI [of _ p] exI [of _ b] exI [of _ t] exI [of _ h']) auto
next
  case (Some p)
  define t' where "t' = t\<lparr>tm_reusable := (tm_reusable t)(purpose := None)\<rparr>"
  note D = blocks_okD [OF ok]
  obtain b where b: "hp_blocks h p = Some b" "tagged b 0" using D(3) [OF Some] by blast
  have r: "byte_read p 0 h = Some (bl_bytes b 0)" using b by (simp add: byte_read_def tagged_def)
  have L: "L p = None" by (rule D(2) [OF Some])
  show ?thesis
  proof (cases "chunks_of sz \<le> bl_bytes b 0")
    case True
    define c h' where "c = b\<lparr>bl_bytes := (bl_bytes b)(sz := bl_bytes b 0)\<rparr>" and "h' = h\<lparr>hp_blocks := (hp_blocks h)(p \<mapsto> c)\<rparr>"
    have "sz \<le> bl_bytes b 0 * chunk_size" using chunks_enough [OF sz] True by (meson le_trans mult_le_mono1)
    with b(2) have cap: "sz < bl_capacity b" "tagged c sz" by (auto simp: tagged_def c_def)
    then have "byte_write p sz (bl_bytes b 0) h = Some h'" using b by (simp add: byte_write_def c_def h'_def)
    with Some x r True have a: "allocate purpose (Some t) sz h = Some (p, Some t', h')"
      by (simp add: allocate_def Let_def t'_def)
    have "blocks_ok (hp_blocks h') (hp_fresh h') (L(p \<mapsto> sz)) (S(x := None))"
      using blocks_ok_reuse [OF ok Some cap(2)] by (simp add: h'_def)
    with a L cap show ?thesis
      by (intro exI [of _ p] exI [of _ c] exI [of _ t'] exI [of _ h']) (auto simp: h'_def t'_def)
  next
    case False
    define d where "d = h\<lparr>hp_blocks := (hp_blocks h)(p := None)\<rparr>"
    have d: "operator_delete p h = Some d" using b by (simp add: operator_delete_def d_def)
    have "blocks_ok (hp_blocks d) (hp_fresh d) L (S(x := None))"
      using blocks_ok_delete_slot [OF ok Some] by (simp add: d_def)
    from allocate_new_ok [OF this sz] obtain q c h' where n: "allocate_new (chunks_of sz) sz d = Some (q, h')" "L q = None"
      "tagged c sz" "hp_blocks h' = (hp_blocks d)(q \<mapsto> c)" "blocks_ok (hp_blocks h') (hp_fresh h') (L(q \<mapsto> sz)) (S(x := None))" by blast
    have "allocate purpose (Some t) sz h = Some (q, Some t', h')"
      using Some x r False d n(1) by (simp add: allocate_def Let_def t'_def)
    with n L show ?thesis
      by (intro exI [of _ q] exI [of _ c] exI [of _ t'] exI [of _ h']) (auto simp: d_def t'_def)
  qed
qed

lemma deallocate_ok:
  assumes ok: "blocks_ok (hp_blocks h) (hp_fresh h) L S" and p: "L p = Some sz" and x: "S x = tm_reusable t purpose"
  shows "\<exists>t' h'. deallocate purpose (Some t) p sz h = Some (Some t', h') \<and> (\<forall>q. q \<noteq> p \<longrightarrow> hp_blocks h' q = hp_blocks h q) \<and>
    tm_reusable t' = (tm_reusable t)(purpose := tm_reusable t' purpose) \<and>
    blocks_ok (hp_blocks h') (hp_fresh h') (L(p := None)) (S(x := tm_reusable t' purpose))"
proof -
  note D = blocks_okD [OF ok]
  obtain b where b: "hp_blocks h p = Some b" "tagged b sz" using D(4) [OF p] by blast
  show ?thesis
  proof (cases "sz \<le> chunk_size * UCHAR_MAX \<and> tm_reusable t purpose = None")
    case True
    define c h' where "c = b\<lparr>bl_bytes := (bl_bytes b)(0 := bl_bytes b sz)\<rparr>" and "h' = h\<lparr>hp_blocks := (hp_blocks h)(p \<mapsto> c)\<rparr>"
    define t' where "t' = t\<lparr>tm_reusable := (tm_reusable t)(purpose \<mapsto> p)\<rparr>"
    have c: "tagged c 0" using b(2) by (auto simp: tagged_def c_def)
    have "deallocate purpose (Some t) p sz h = Some (Some t', h')"
      using True b by (simp add: deallocate_def byte_read_def byte_write_def tagged_def t'_def h'_def c_def)
    moreover have "blocks_ok (hp_blocks h') (hp_fresh h') (L(p := None)) (S(x := tm_reusable t' purpose))"
      using blocks_ok_keep [OF ok p _ c, of x] True x by (simp add: h'_def t'_def)
    ultimately show ?thesis by (intro exI [of _ t'] exI [of _ h']) (auto simp: t'_def h'_def)
  next
    case False
    define d where "d = h\<lparr>hp_blocks := (hp_blocks h)(p := None)\<rparr>"
    have "operator_delete p h = Some d" using b by (simp add: operator_delete_def d_def)
    with False have "deallocate purpose (Some t) p sz h = Some (Some t, d)" by (auto simp: deallocate_def)
    moreover have "blocks_ok (hp_blocks d) (hp_fresh d) (L(p := None)) S" using blocks_ok_free [OF ok p] by (simp add: d_def)
    moreover have "S(x := tm_reusable t purpose) = S" by (rule ext) (simp add: x)
    ultimately show ?thesis by (intro exI [of _ t] exI [of _ d]) (auto simp: d_def)
  qed
qed

text \<open>The same without a thread.\<close>

lemma allocate_none_ok:
  assumes "blocks_ok (hp_blocks h) (hp_fresh h) L S" "sz < 2 ^ 64 - 3"
  shows "\<exists>p b h'. allocate purpose None sz h = Some (p, None, h') \<and> L p = None \<and> tagged b sz \<and> hp_blocks h' = (hp_blocks h)(p \<mapsto> b) \<and>
    blocks_ok (hp_blocks h') (hp_fresh h') (L(p \<mapsto> sz)) S"
proof -
  from allocate_new_ok [OF assms] obtain p b h' where n: "allocate_new (chunks_of sz) sz h = Some (p, h')" "L p = None"
    "tagged b sz" "hp_blocks h' = (hp_blocks h)(p \<mapsto> b)" "blocks_ok (hp_blocks h') (hp_fresh h') (L(p \<mapsto> sz)) S" by blast
  then show ?thesis by (intro exI [of _ p] exI [of _ b] exI [of _ h']) (simp add: allocate_def Let_def)
qed

lemma deallocate_none_ok:
  assumes "blocks_ok (hp_blocks h) (hp_fresh h) L S" "L p = Some sz"
  shows "\<exists>h'. deallocate purpose None p sz h = Some (None, h') \<and> (\<forall>q. q \<noteq> p \<longrightarrow> hp_blocks h' q = hp_blocks h q) \<and>
    blocks_ok (hp_blocks h') (hp_fresh h') (L(p := None)) S"
proof -
  define d where "d = h\<lparr>hp_blocks := (hp_blocks h)(p := None)\<rparr>"
  have "operator_delete p h = Some d"
    using blocks_okD(4) [OF assms] by (auto simp: operator_delete_def d_def)
  moreover have "blocks_ok (hp_blocks d) (hp_fresh d) (L(p := None)) S" using blocks_ok_free [OF assms] by (simp add: d_def)
  ultimately show ?thesis by (intro exI [of _ d]) (simp add: deallocate_def d_def)
qed

section \<open>Every history keeps the blocks accounted for\<close>

lemma slots_of_put:
  assumes "tm_reusable t = (tm_reusable (ms_threads s j))(purpose := v)"
  shows "slots_of (put_thread (Some j) (Some t) (s\<lparr>ms_heap := h, ms_live := L\<rparr>)) = (slots_of s)((j, purpose) := v)"
  using assms by (auto simp: slots_of_def put_thread_def)

lemma put_thread_fields [simp]:
  "ms_heap (put_thread i th s) = ms_heap s" "ms_live (put_thread i th s) = ms_live s" "put_thread None th s = s"
  by (simp_all add: put_thread_def split: option.splits)

lemma slots_of_same [simp]: "slots_of (s\<lparr>ms_heap := h\<rparr>) = slots_of s" "slots_of (s\<lparr>ms_heap := h, ms_live := L\<rparr>) = slots_of s"
  by (simp_all add: slots_of_def fun_eq_iff)

lemma mem_alloc_ok:
  assumes "mem_ok s" "sz < 2 ^ 64 - 3"
  shows "\<exists>p b s'. mem_alloc purpose i sz s = Some (p, s') \<and> ms_live s p = None \<and> hp_blocks (ms_heap s') p = Some b \<and> sz < bl_capacity b \<and>
    (\<forall>q. ms_live s q \<noteq> None \<longrightarrow> hp_blocks (ms_heap s') q = hp_blocks (ms_heap s) q) \<and> ms_live s' = (ms_live s)(p \<mapsto> sz) \<and> mem_ok s'"
proof (cases i)
  case None
  from allocate_none_ok [OF assms [unfolded mem_ok_def]] obtain p b h where a: "allocate purpose None sz (ms_heap s) = Some (p, None, h)"
    "ms_live s p = None" "tagged b sz" "hp_blocks h = (hp_blocks (ms_heap s))(p \<mapsto> b)"
    "blocks_ok (hp_blocks h) (hp_fresh h) ((ms_live s)(p \<mapsto> sz)) (slots_of s)" by blast
  show ?thesis
    by (rule exI [of _ p], rule exI [of _ b], rule exI [of _ "s\<lparr>ms_heap := h, ms_live := (ms_live s)(p \<mapsto> sz)\<rparr>"])
      (use a None in \<open>auto simp: mem_alloc_def mem_ok_def tagged_def\<close>)
next
  case (Some j)
  have x: "slots_of s (j, purpose) = tm_reusable (ms_threads s j) purpose" by (simp add: slots_of_def)
  from allocate_ok [OF assms [unfolded mem_ok_def] x] obtain p b t h where a:
    "allocate purpose (Some (ms_threads s j)) sz (ms_heap s) = Some (p, Some t, h)" "ms_live s p = None" "hp_blocks h p = Some b" "tagged b sz"
    "\<forall>q. ms_live s q \<noteq> None \<longrightarrow> hp_blocks h q = hp_blocks (ms_heap s) q" "tm_reusable t = (tm_reusable (ms_threads s j))(purpose := None)"
    "blocks_ok (hp_blocks h) (hp_fresh h) ((ms_live s)(p \<mapsto> sz)) ((slots_of s)((j, purpose) := None))" by blast
  define s' where "s' = put_thread (Some j) (Some t) (s\<lparr>ms_heap := h, ms_live := (ms_live s)(p \<mapsto> sz)\<rparr>)"
  have "mem_alloc purpose i sz s = Some (p, s')" using a(1) Some by (simp add: mem_alloc_def s'_def)
  moreover have "mem_ok s'" using a(7) slots_of_put [OF a(6)] by (simp add: mem_ok_def s'_def)
  ultimately show ?thesis
    by - (rule exI [of _ p], rule exI [of _ b], rule exI [of _ s'], use a in \<open>simp add: s'_def tagged_def\<close>)
qed

lemma mem_dealloc_ok:
  assumes "mem_ok s" "ms_live s p = Some sz"
  shows "\<exists>s'. mem_dealloc purpose i p sz s = Some s' \<and> (\<forall>q. q \<noteq> p \<longrightarrow> hp_blocks (ms_heap s') q = hp_blocks (ms_heap s) q) \<and>
    ms_live s' = (ms_live s)(p := None) \<and> mem_ok s'"
proof (cases i)
  case None
  from deallocate_none_ok [OF assms [unfolded mem_ok_def]] obtain h where a: "deallocate purpose None p sz (ms_heap s) = Some (None, h)"
    "\<forall>q. q \<noteq> p \<longrightarrow> hp_blocks h q = hp_blocks (ms_heap s) q" "blocks_ok (hp_blocks h) (hp_fresh h) ((ms_live s)(p := None)) (slots_of s)" by blast
  show ?thesis
    by (rule exI [of _ "s\<lparr>ms_heap := h, ms_live := (ms_live s)(p := None)\<rparr>"]) (use a None in \<open>auto simp: mem_dealloc_def mem_ok_def\<close>)
next
  case (Some j)
  have x: "slots_of s (j, purpose) = tm_reusable (ms_threads s j) purpose" by (simp add: slots_of_def)
  from deallocate_ok [OF assms [unfolded mem_ok_def] x] obtain t h where a:
    "deallocate purpose (Some (ms_threads s j)) p sz (ms_heap s) = Some (Some t, h)" "\<forall>q. q \<noteq> p \<longrightarrow> hp_blocks h q = hp_blocks (ms_heap s) q"
    "tm_reusable t = (tm_reusable (ms_threads s j))(purpose := tm_reusable t purpose)"
    "blocks_ok (hp_blocks h) (hp_fresh h) ((ms_live s)(p := None)) ((slots_of s)((j, purpose) := tm_reusable t purpose))" by blast
  define s' where "s' = put_thread (Some j) (Some t) (s\<lparr>ms_heap := h, ms_live := (ms_live s)(p := None)\<rparr>)"
  have "mem_dealloc purpose i p sz s = Some s'" using a(1) Some by (simp add: mem_dealloc_def s'_def)
  moreover have "mem_ok s'" using a(4) slots_of_put [OF a(3)] by (simp add: mem_ok_def s'_def)
  ultimately show ?thesis by - (rule exI [of _ s'], use a in \<open>simp add: s'_def\<close>)
qed

lemma delete_slot_ok:
  assumes "blocks_ok (hp_blocks h) (hp_fresh h) L S" "S x = tm_reusable t purpose"
  shows "\<exists>h'. delete_slot t purpose (Some h) = Some h' \<and> (\<forall>q. L q \<noteq> None \<longrightarrow> hp_blocks h' q = hp_blocks h q) \<and>
    blocks_ok (hp_blocks h') (hp_fresh h') L (S(x := None))"
proof (cases "S x")
  case None
  then have "S(x := None) = S" by auto
  then show ?thesis using assms None by (intro exI [of _ h]) (simp add: delete_slot_def)
next
  case (Some p)
  obtain b where b: "hp_blocks h p = Some b" using blocks_okD(3) [OF assms(1) Some] by blast
  have "L p = None" by (rule blocks_okD(2) [OF assms(1) Some])
  moreover have "tm_reusable t purpose = Some p" using assms(2) Some by simp
  then have "delete_slot t purpose (Some h) = Some (h\<lparr>hp_blocks := (hp_blocks h)(p := None)\<rparr>)"
    using b by (simp add: delete_slot_def operator_delete_def)
  ultimately show ?thesis
    by - (rule exI [of _ "h\<lparr>hp_blocks := (hp_blocks h)(p := None)\<rparr>"], use blocks_ok_delete_slot [OF assms(1) Some] in auto)
qed

lemma mem_exit_ok:
  assumes "mem_ok s"
  shows "\<exists>s'. mem_exit i s = Some s' \<and> (\<forall>q. ms_live s q \<noteq> None \<longrightarrow> hp_blocks (ms_heap s') q = hp_blocks (ms_heap s) q) \<and>
    ms_live s' = ms_live s \<and> mem_ok s'"
proof -
  let ?t = "ms_threads s i" and ?L = "ms_live s" and ?S = "slots_of s"
  have S: "?S (i, u) = tm_reusable ?t u" for u by (simp add: slots_of_def)
  note ok = assms [unfolded mem_ok_def]
  from delete_slot_ok [OF ok, of "(i, Default_Tag)" ?t Default_Tag] S obtain h1 where
    h1: "delete_slot ?t Default_Tag (Some (ms_heap s)) = Some h1" "\<forall>q. ?L q \<noteq> None \<longrightarrow> hp_blocks h1 q = hp_blocks (ms_heap s) q"
    "blocks_ok (hp_blocks h1) (hp_fresh h1) ?L (?S((i, Default_Tag) := None))" by auto
  from delete_slot_ok [OF h1(3), of "(i, Awaitable_Frame_Tag)" ?t Awaitable_Frame_Tag] S obtain h2 where
    h2: "delete_slot ?t Awaitable_Frame_Tag (Some h1) = Some h2" "\<forall>q. ?L q \<noteq> None \<longrightarrow> hp_blocks h2 q = hp_blocks h1 q"
    "blocks_ok (hp_blocks h2) (hp_fresh h2) ?L ((?S((i, Default_Tag) := None))((i, Awaitable_Frame_Tag) := None))" by auto
  from delete_slot_ok [OF h2(3), of "(i, Executor_Function_Tag)" ?t Executor_Function_Tag] S obtain h3 where
    h3: "delete_slot ?t Executor_Function_Tag (Some h2) = Some h3" "\<forall>q. ?L q \<noteq> None \<longrightarrow> hp_blocks h3 q = hp_blocks h2 q"
    "blocks_ok (hp_blocks h3) (hp_fresh h3) ?L
       (((?S((i, Default_Tag) := None))((i, Awaitable_Frame_Tag) := None))((i, Executor_Function_Tag) := None))" by auto
  define s' where "s' = s\<lparr>ms_heap := h3, ms_threads := (ms_threads s)(i := thread_info_base)\<rparr>"
  have "((?S((i, Default_Tag) := None))((i, Awaitable_Frame_Tag) := None))((i, Executor_Function_Tag) := None) = slots_of s'"
  proof (rule ext)
    fix y :: "nat \<times> purpose"
    show "(((?S((i, Default_Tag) := None))((i, Awaitable_Frame_Tag) := None))((i, Executor_Function_Tag) := None)) y = slots_of s' y"
      by (cases y; cases "snd y") (auto simp: slots_of_def s'_def thread_info_base_def)
  qed
  then have "mem_ok s'" using h3(3) by (simp add: mem_ok_def s'_def)
  moreover have "mem_exit i s = Some s'" using h1(1) h2(1) h3(1) by (simp add: mem_exit_def thread_info_destroy_def s'_def)
  ultimately show ?thesis using h1(2) h2(2) h3(2) by (intro exI [of _ s']) (auto simp: s'_def)
qed

lemma mem_reach_ok: "mem_reach s \<Longrightarrow> mem_ok s"
proof (induction rule: mem_reach.induct)
  case start
  show ?case by (simp add: mem_ok_def blocks_ok_def mem_start_def slots_of_def thread_info_base_def)
next
  case (alloc s sz purpose i p s')
  then show ?case using mem_alloc_ok [OF alloc.IH alloc.hyps(2), of purpose i] by auto
next
  case (dealloc s p sz purpose i s')
  then show ?case using mem_dealloc_ok [OF dealloc.IH dealloc.hyps(2), of purpose i] by auto
next
  case (user s p sz j v h)
  from user.hyps(4) obtain b where b: "hp_blocks (ms_heap s) p = Some b"
    "h = (ms_heap s)\<lparr>hp_blocks := (hp_blocks (ms_heap s))(p \<mapsto> b\<lparr>bl_bytes := (bl_bytes b)(j := v)\<rparr>)\<rparr>"
    by (auto simp: byte_write_def split: option.splits if_splits)
  from blocks_ok_write [OF user.IH [unfolded mem_ok_def] user.hyps(2) b(1) user.hyps(3)] show ?case
    by (simp add: mem_ok_def b(2))
next
  case (exit s i s')
  then show ?case using mem_exit_ok [OF exit.IH, of i] by auto
qed

lemma block_owned:
  assumes "mem_ok s" "hp_blocks (ms_heap s) p = Some b"
  shows "ms_live s p = None \<longleftrightarrow> (\<exists>!x. slots_of s x = Some p)"
  using blocks_okD [OF assms(1) [unfolded mem_ok_def]] assms(2) by blast

text \<open>C14: The memory of handlers is safe. After every history of allocations and deallocations by any threads, writes into
  memory in use, and threads that end, an allocation succeeds, with a block that is not in use, is larger than the memory asked for and
  leaves all memory in use untouched; a deallocation of memory in use accesses only blocks that exist and frees or
  keeps that block alone; a thread can end; and every block is either in use or kept in exactly one slot of one thread, so that
  no block leaks or is handed out twice.\<close>

theorem handler_memory_safe:
  assumes "mem_reach s"
  shows "(\<forall>sz purpose i. sz < 2 ^ 64 - 3 \<longrightarrow> (\<exists>p b s'. mem_alloc purpose i sz s = Some (p, s') \<and> ms_live s p = None \<and>
        hp_blocks (ms_heap s') p = Some b \<and> sz < bl_capacity b \<and>
        (\<forall>q. ms_live s q \<noteq> None \<longrightarrow> hp_blocks (ms_heap s') q = hp_blocks (ms_heap s) q))) \<and>
    (\<forall>p sz purpose i. ms_live s p = Some sz \<longrightarrow> (\<exists>s'. mem_dealloc purpose i p sz s = Some s' \<and>
        (\<forall>q. q \<noteq> p \<longrightarrow> hp_blocks (ms_heap s') q = hp_blocks (ms_heap s) q))) \<and>
    (\<forall>i. \<exists>s'. mem_exit i s = Some s' \<and> (\<forall>q. ms_live s q \<noteq> None \<longrightarrow> hp_blocks (ms_heap s') q = hp_blocks (ms_heap s) q)) \<and>
    (\<forall>p b. hp_blocks (ms_heap s) p = Some b \<longrightarrow> (ms_live s p = None \<longleftrightarrow> (\<exists>!x. slots_of s x = Some p)))"
proof -
  have ok: "mem_ok s" by (rule mem_reach_ok [OF assms])
  show ?thesis
  proof (intro conjI allI impI, goal_cases)
    case (1 sz purpose i)
    then show ?case using mem_alloc_ok [OF ok, of sz purpose i] by metis
  next
    case (2 p sz purpose i)
    then show ?case using mem_dealloc_ok [OF ok, of p sz purpose i] by metis
  next
    case (3 i)
    then show ?case using mem_exit_ok [OF ok, of i] by metis
  next
    case (4 p b)
    then show ?case by (rule block_owned [OF ok])
  qed
qed

text \<open>Two allocations by a thread, with the first given back and handed out again.\<close>

definition mem_demo :: "mem_state option" where
  "mem_demo = Option.bind (mem_alloc Default_Tag (Some 0) 10 mem_start) (\<lambda>(p, s).
     Option.bind (mem_dealloc Default_Tag (Some 0) p 10 s) (\<lambda>s. map_option snd (mem_alloc Default_Tag (Some 0) 8 s)))"

lemmas mem_eval = mem_alloc_def mem_dealloc_def allocate_def deallocate_def Let_def allocate_new_def operator_new_def
  operator_delete_def byte_read_def byte_write_def chunks_of_def chunk_size_def UCHAR_MAX_def put_thread_def

lemma mem_demo_value:
  "\<exists>s. mem_demo = Some s \<and> ms_live s = [0 \<mapsto> 8] \<and> hp_fresh (ms_heap s) = 1 \<and> map_option bl_capacity (hp_blocks (ms_heap s) 0) = Some 13"
  by (simp add: mem_demo_def mem_eval mem_start_def thread_info_base_def)

lemma mem_demo_reach: "mem_demo = Some s \<Longrightarrow> mem_reach s"
proof -
  assume "mem_demo = Some s"
  then obtain p a b q where
    r: "mem_alloc Default_Tag (Some 0) 10 mem_start = Some (p, a)" "mem_dealloc Default_Tag (Some 0) p 10 a = Some b"
       "mem_alloc Default_Tag (Some 0) 8 b = Some (q, s)"
    by (auto simp: mem_demo_def bind_eq_Some_conv)
  have a: "mem_reach a" by (rule mem_reach.alloc [OF mem_reach.start _ r(1)]) simp
  have "ms_live a p = Some 10" using r(1) by (auto simp: mem_alloc_def split: option.splits)
  then have "mem_reach b" by (rule mem_reach.dealloc [OF a _ r(2)])
  then show ?thesis by (rule mem_reach.alloc [OF _ _ r(3)]) simp
qed

theorem handler_memory_safe_witness:
  "\<exists>s. mem_demo = Some s \<and> ms_live s 0 = Some 8 \<and> (\<nexists>x. slots_of s x = Some 0) \<and>
     (\<exists>s'. mem_dealloc Default_Tag None 0 8 s = Some s') \<and>
     (\<exists>p b s'. mem_alloc Awaitable_Frame_Tag (Some 3) 5000 s = Some (p, s') \<and> p \<noteq> 0 \<and> hp_blocks (ms_heap s') p = Some b \<and> 5000 < bl_capacity b)"
proof -
  obtain s where s: "mem_demo = Some s" "ms_live s = [0 \<mapsto> 8]" "map_option bl_capacity (hp_blocks (ms_heap s) 0) = Some 13"
    using mem_demo_value by blast
  note T = handler_memory_safe [OF mem_demo_reach [OF s(1)]]
  have "\<exists>s'. mem_dealloc Default_Tag None 0 8 s = Some s'" using T s(2) by (metis fun_upd_same)
  moreover have "\<exists>p b s'. mem_alloc Awaitable_Frame_Tag (Some 3) 5000 s = Some (p, s') \<and> p \<noteq> 0 \<and>
      hp_blocks (ms_heap s') p = Some b \<and> 5000 < bl_capacity b"
  proof -
    have "(5000::nat) < 2 ^ 64 - 3" by simp
    from conjunct1 [OF T, rule_format, OF this, of Awaitable_Frame_Tag "Some 3"] obtain p b s' where
      n: "mem_alloc Awaitable_Frame_Tag (Some 3) 5000 s = Some (p, s')" "ms_live s p = None"
        "hp_blocks (ms_heap s') p = Some b" "5000 < bl_capacity b" by blast
    then have "p \<noteq> 0" using s(2) by (auto split: if_splits)
    with n show ?thesis by blast
  qed
  moreover have "\<nexists>x. slots_of s x = Some 0"
    using blocks_okD(2) [OF mem_reach_ok [OF mem_demo_reach [OF s(1)], unfolded mem_ok_def]] s(2) by fastforce
  ultimately show ?thesis using s by (intro exI [of _ s]) simp
qed

end
