(* ===== verification/Asio_Service_Registry.thy ===== *)
theory Asio_Service_Registry
  imports Main
begin

text \<open>
  The services of an execution context: \<open>src/3rd/asio/include/asio/detail/service_registry.hpp\<close>, its \<open>impl\<close> files and
  \<open>impl/execution_context.ipp\<close>. The list from \<open>first_service_\<close> along \<open>next_\<close> is a list of addresses, newest first. A
  call of \<open>do_use_service\<close> releases the mutex while it runs the factory, which may call it again; so the threads
  are modelled as a step relation whose steps are the stretches of code between two operations on the mutex, and each
  thread has a stack of calls whose factory runs. The constructors and destructors of the services are not under \<open>src/\<close>
  of this component: a constructor makes any nested calls, and returns or throws.
\<close>

section \<open>Keys and services\<close>

record service_key =
  key_type_info :: "nat option"
  key_id :: "nat option"

definition init_key_from_id :: "nat \<Rightarrow> service_key" where
  "init_key_from_id i = \<lparr> key_type_info = None, key_id = Some i \<rparr>"

definition init_key :: "nat \<Rightarrow> service_key" where
  "init_key t = \<lparr> key_type_info = Some t, key_id = None \<rparr>"

definition keys_match :: "service_key \<Rightarrow> service_key \<Rightarrow> bool" where
  "keys_match key1 key2 =
     (if key_id key1 \<noteq> None \<and> key_id key2 \<noteq> None \<and> key_id key1 = key_id key2 then True
      else if key_type_info key1 \<noteq> None \<and> key_type_info key2 \<noteq> None \<and> key_type_info key1 = key_type_info key2 then True
      else False)"

definition no_key :: service_key where
  "no_key = \<lparr> key_type_info = None, key_id = None \<rparr>"

record service =
  sv_owner :: nat
  sv_key :: service_key

text \<open>The constructor of the base class.\<close>

definition service_ctor :: "nat \<Rightarrow> service" where
  "service_ctor owner = \<lparr> sv_owner = owner, sv_key = no_key \<rparr>"

record service_list =
  rg_owner :: nat
  rg_services :: "nat list"

definition service_registry :: "nat \<Rightarrow> service_list" where
  "service_registry owner = \<lparr> rg_owner = owner, rg_services = [] \<rparr>"

text \<open>The objects that exist, by their address. Access to an address without an object is \<open>None\<close>.\<close>

type_synonym services = "nat \<Rightarrow> service option"

section \<open>The operations\<close>

text \<open>The loop over the list, which all operations share.\<close>

fun find_service :: "services \<Rightarrow> service_key \<Rightarrow> nat list \<Rightarrow> nat option option" where
  "find_service m key [] = Some None"
| "find_service m key (a # as) =
     (case m a of
        None \<Rightarrow> None
      | Some s \<Rightarrow> if keys_match (sv_key s) key then Some (Some a) else find_service m key as)"

definition set_key :: "nat \<Rightarrow> service_key \<Rightarrow> services \<Rightarrow> services option" where
  "set_key a key m = (case m a of None \<Rightarrow> None | Some s \<Rightarrow> Some (m(a \<mapsto> s\<lparr>sv_key := key\<rparr>)))"

definition destroy :: "nat \<Rightarrow> services \<Rightarrow> services option" where
  "destroy a m = (case m a of None \<Rightarrow> None | Some s \<Rightarrow> Some (m(a := None)))"

text \<open>\<open>do_use_service\<close> up to \<open>lock.unlock()\<close>, and from \<open>lock.lock()\<close> with the service \<open>a\<close> the factory returned.\<close>

definition do_use_service_begin :: "service_key \<Rightarrow> service_list \<Rightarrow> services \<Rightarrow> nat option option" where
  "do_use_service_begin key r m = find_service m key (rg_services r)"

definition do_use_service_end :: "service_key \<Rightarrow> nat \<Rightarrow> service_list \<Rightarrow> services \<Rightarrow> (nat \<times> service_list \<times> services) option" where
  "do_use_service_end key a r m =
     (case find_service m key (rg_services r) of
        None \<Rightarrow> None
      | Some (Some b) \<Rightarrow> (case destroy a m of None \<Rightarrow> None | Some m \<Rightarrow> Some (b, r, m))
      | Some None \<Rightarrow> Some (a, r\<lparr>rg_services := a # rg_services r\<rparr>, m))"

datatype add_error = Invalid_Service_Owner | Service_Already_Exists

definition do_add_service :: "service_key \<Rightarrow> nat \<Rightarrow> service_list \<Rightarrow> services \<Rightarrow> (add_error + service_list \<times> services) option" where
  "do_add_service key a r m =
     (case m a of
        None \<Rightarrow> None
      | Some s \<Rightarrow>
          if rg_owner r \<noteq> sv_owner s then Some (Inl Invalid_Service_Owner)
          else (case find_service m key (rg_services r) of
                  None \<Rightarrow> None
                | Some (Some b) \<Rightarrow> Some (Inl Service_Already_Exists)
                | Some None \<Rightarrow> map_option (\<lambda>m. Inr (r\<lparr>rg_services := a # rg_services r\<rparr>, m)) (set_key a key m)))"

definition do_has_service :: "service_key \<Rightarrow> service_list \<Rightarrow> services \<Rightarrow> bool option" where
  "do_has_service key r m = map_option (\<lambda>b. b \<noteq> None) (find_service m key (rg_services r))"

text \<open>What the services are told, in order.\<close>

datatype fork_notice = Prepare_Fork | Parent_Fork | Child_Fork

datatype service_call = Shutdown nat | Notify_Fork fork_notice nat | Destroyed nat

fun shutdown_loop :: "nat list \<Rightarrow> services \<Rightarrow> service_call list option" where
  "shutdown_loop [] m = Some []"
| "shutdown_loop (a # as) m =
     (if m a = None then None else map_option (\<lambda>cs. Shutdown a # cs) (shutdown_loop as m))"

definition shutdown_services :: "service_list \<Rightarrow> services \<Rightarrow> service_call list option" where
  "shutdown_services r m = shutdown_loop (rg_services r) m"

fun destroy_loop :: "nat list \<Rightarrow> services \<Rightarrow> (service_call list \<times> services) option" where
  "destroy_loop [] m = Some ([], m)"
| "destroy_loop (a # as) m =
     (case destroy a m of
        None \<Rightarrow> None
      | Some m \<Rightarrow> map_option (\<lambda>(cs, m). (Destroyed a # cs, m)) (destroy_loop as m))"

definition destroy_services :: "service_list \<Rightarrow> services \<Rightarrow> (service_call list \<times> service_list \<times> services) option" where
  "destroy_services r m =
     map_option (\<lambda>(cs, m). (cs, r\<lparr>rg_services := []\<rparr>, m)) (destroy_loop (rg_services r) m)"

text \<open>The destructor of \<open>execution_context\<close>.\<close>

definition execution_context_destroy :: "service_list \<Rightarrow> services \<Rightarrow> (service_call list \<times> service_list \<times> services) option" where
  "execution_context_destroy r m =
     (case shutdown_services r m of
        None \<Rightarrow> None
      | Some cs \<Rightarrow> map_option (\<lambda>(ds, r, m). (cs @ ds, r, m)) (destroy_services r m))"

text \<open>The two loops of \<open>notify_fork\<close> over the copy of the list.\<close>

fun notify_up :: "fork_notice \<Rightarrow> nat list \<Rightarrow> nat \<Rightarrow> nat \<Rightarrow> service_call list" where
  "notify_up ev services i 0 = []"
| "notify_up ev services i (Suc n) = Notify_Fork ev (services ! i) # notify_up ev services (i + 1) n"

fun notify_down :: "fork_notice \<Rightarrow> nat list \<Rightarrow> nat \<Rightarrow> service_call list" where
  "notify_down ev services 0 = []"
| "notify_down ev services (Suc i) = Notify_Fork ev (services ! (Suc i - 1)) # notify_down ev services i"

definition registry_notify_fork :: "fork_notice \<Rightarrow> service_list \<Rightarrow> service_call list" where
  "registry_notify_fork ev r =
     (let services = rg_services r; num_services = length services in
      if ev = Prepare_Fork then notify_up ev services 0 num_services
      else notify_down ev services num_services)"

section \<open>Threads\<close>

text \<open>A call of \<open>do_use_service\<close> that released the mutex: its factory runs, or has returned a service.\<close>

datatype use_frame = Constructing service_key | Constructed service_key nat

record registry_world =
  rw_registry :: service_list
  rw_objects :: services
  rw_fresh :: nat
  rw_stack :: "nat \<Rightarrow> use_frame list"
  rw_users :: "nat set"
  rw_returned :: "(service_key \<times> nat) list"
  rw_destroyed :: "nat list"

definition registry_start :: "nat \<Rightarrow> registry_world" where
  "registry_start owner = \<lparr> rw_registry = service_registry owner, rw_objects = (\<lambda>_. None), rw_fresh = 0, rw_stack = (\<lambda>_. []),
     rw_users = {}, rw_returned = [], rw_destroyed = [] \<rparr>"

text \<open>A thread runs code of its own, or that of a constructor, unless its factory has just returned.\<close>

fun runs_code :: "use_frame list \<Rightarrow> bool" where
  "runs_code [] = True"
| "runs_code (Constructing key # fs) = True"
| "runs_code (Constructed key a # fs) = False"

text \<open>The first search, and the call of the factory.\<close>

definition use_service_begin :: "nat \<Rightarrow> service_key \<Rightarrow> registry_world \<Rightarrow> registry_world option" where
  "use_service_begin t key w =
     (case do_use_service_begin key (rw_registry w) (rw_objects w) of
        None \<Rightarrow> None
      | Some (Some a) \<Rightarrow> Some (w\<lparr>rw_returned := (key, a) # rw_returned w\<rparr>)
      | Some None \<Rightarrow> Some (w\<lparr>rw_stack := (rw_stack w)(t := Constructing key # rw_stack w t)\<rparr>))"

text \<open>The factory returns a new service, whose key is set; or it throws.\<close>

definition use_service_construct :: "nat \<Rightarrow> registry_world \<Rightarrow> registry_world option" where
  "use_service_construct t w =
     (case rw_stack w t of
        Constructing key # fs \<Rightarrow>
          (let a = rw_fresh w in
           map_option (\<lambda>m. w\<lparr>rw_fresh := a + 1, rw_objects := m, rw_stack := (rw_stack w)(t := Constructed key a # fs)\<rparr>)
             (set_key a key ((rw_objects w)(a \<mapsto> service_ctor (rg_owner (rw_registry w))))))
      | _ \<Rightarrow> Some w)"

definition use_service_throw :: "nat \<Rightarrow> registry_world \<Rightarrow> registry_world" where
  "use_service_throw t w =
     (case rw_stack w t of
        Constructing key # fs \<Rightarrow> w\<lparr>rw_stack := (rw_stack w)(t := fs)\<rparr>
      | _ \<Rightarrow> w)"

text \<open>The second search, and the return.\<close>

definition use_service_end :: "nat \<Rightarrow> registry_world \<Rightarrow> registry_world option" where
  "use_service_end t w =
     (case rw_stack w t of
        Constructed key a # fs \<Rightarrow>
          map_option (\<lambda>(b, r, m).
               w\<lparr>rw_registry := r, rw_objects := m, rw_stack := (rw_stack w)(t := fs), rw_returned := (key, b) # rw_returned w,
                 rw_destroyed := (if b = a then [] else [a]) @ rw_destroyed w\<rparr>)
            (do_use_service_end key a (rw_registry w) (rw_objects w))
      | _ \<Rightarrow> Some w)"

text \<open>A program makes a service of its own, for some context, and adds it; when that fails, it keeps it and may delete it.\<close>

definition user_service :: "nat \<Rightarrow> registry_world \<Rightarrow> registry_world" where
  "user_service owner w =
     w\<lparr>rw_fresh := rw_fresh w + 1, rw_objects := (rw_objects w)(rw_fresh w \<mapsto> service_ctor owner),
       rw_users := insert (rw_fresh w) (rw_users w)\<rparr>"

definition context_add_service :: "service_key \<Rightarrow> nat \<Rightarrow> registry_world \<Rightarrow> registry_world option" where
  "context_add_service key a w =
     (case do_add_service key a (rw_registry w) (rw_objects w) of
        None \<Rightarrow> None
      | Some (Inl e) \<Rightarrow> Some w
      | Some (Inr (r, m)) \<Rightarrow> Some (w\<lparr>rw_registry := r, rw_objects := m, rw_users := rw_users w - {a}\<rparr>))"

definition user_deletes :: "nat \<Rightarrow> registry_world \<Rightarrow> registry_world option" where
  "user_deletes a w =
     map_option (\<lambda>m. w\<lparr>rw_objects := m, rw_users := rw_users w - {a}, rw_destroyed := a # rw_destroyed w\<rparr>)
       (destroy a (rw_objects w))"

text \<open>The keys that the templates of \<open>service_registry.hpp\<close> make.\<close>

definition made_key :: "service_key \<Rightarrow> bool" where
  "made_key key \<longleftrightarrow> (key_id key = None) \<noteq> (key_type_info key = None)"

inductive registry_reach :: "nat \<Rightarrow> registry_world \<Rightarrow> bool" for owner :: nat where
  start: "registry_reach owner (registry_start owner)"
| use_begin: "registry_reach owner w \<Longrightarrow> runs_code (rw_stack w t) \<Longrightarrow> made_key key \<Longrightarrow> use_service_begin t key w = Some w' \<Longrightarrow>
    registry_reach owner w'"
| construct: "registry_reach owner w \<Longrightarrow> use_service_construct t w = Some w' \<Longrightarrow> registry_reach owner w'"
| throw: "registry_reach owner w \<Longrightarrow> registry_reach owner (use_service_throw t w)"
| use_end: "registry_reach owner w \<Longrightarrow> use_service_end t w = Some w' \<Longrightarrow> registry_reach owner w'"
| user: "registry_reach owner w \<Longrightarrow> registry_reach owner (user_service c w)"
| add: "registry_reach owner w \<Longrightarrow> a \<in> rw_users w \<Longrightarrow> made_key key \<Longrightarrow> context_add_service key a w = Some w' \<Longrightarrow> registry_reach owner w'"
| delete: "registry_reach owner w \<Longrightarrow> a \<in> rw_users w \<Longrightarrow> user_deletes a w = Some w' \<Longrightarrow> registry_reach owner w'"

section \<open>The invariant\<close>

lemma made_keys: "made_key (init_key t)" "made_key (init_key_from_id i)"
  by (simp_all add: made_key_def init_key_def init_key_from_id_def)

lemma keys_match_made: "made_key k \<Longrightarrow> made_key l \<Longrightarrow> keys_match k l \<longleftrightarrow> k = l"
  by (cases k; cases l) (auto simp: keys_match_def made_key_def)

text \<open>The service that a thread constructed and that is not in the list yet.\<close>

fun held_service :: "use_frame list \<Rightarrow> nat option" where
  "held_service (Constructed key a # fs) = Some a"
| "held_service fs = None"

definition key_of :: "services \<Rightarrow> nat \<Rightarrow> service_key" where
  "key_of m a = (case m a of None \<Rightarrow> no_key | Some s \<Rightarrow> sv_key s)"

text \<open>Who owns an object.\<close>

datatype holder = In_Registry | With_User | With_Thread nat | Gone

definition held_by :: "registry_world \<Rightarrow> nat \<Rightarrow> holder \<Rightarrow> bool" where
  "held_by w a h \<longleftrightarrow>
     (case h of In_Registry \<Rightarrow> a \<in> set (rg_services (rw_registry w))
      | With_User \<Rightarrow> a \<in> rw_users w
      | With_Thread t \<Rightarrow> held_service (rw_stack w t) = Some a
      | Gone \<Rightarrow> a \<in> set (rw_destroyed w))"

definition list_ok :: "services \<Rightarrow> nat \<Rightarrow> nat list \<Rightarrow> bool" where
  "list_ok m owner as \<longleftrightarrow>
     distinct as \<and> inj_on (key_of m) (set as) \<and>
     (\<forall>a \<in> set as. \<exists>s. m a = Some s \<and> sv_owner s = owner \<and> made_key (sv_key s))"

definition frames_ok :: "services \<Rightarrow> nat \<Rightarrow> use_frame list \<Rightarrow> bool" where
  "frames_ok m owner fs \<longleftrightarrow>
     (\<forall>f \<in> set (tl fs). \<exists>key. f = Constructing key \<and> made_key key) \<and>
     (\<forall>key gs. fs = Constructing key # gs \<longrightarrow> made_key key) \<and>
     (\<forall>key a gs. fs = Constructed key a # gs \<longrightarrow> made_key key \<and> m a = Some \<lparr> sv_owner = owner, sv_key = key \<rparr>)"

definition registry_inv :: "nat \<Rightarrow> (nat \<Rightarrow> holder) \<Rightarrow> registry_world \<Rightarrow> bool" where
  "registry_inv owner own w \<longleftrightarrow>
     rg_owner (rw_registry w) = owner \<and>
     list_ok (rw_objects w) owner (rg_services (rw_registry w)) \<and>
     (\<forall>t. frames_ok (rw_objects w) owner (rw_stack w t)) \<and>
     (\<forall>a h. held_by w a h \<longleftrightarrow> a < rw_fresh w \<and> own a = h) \<and>
     (\<forall>a. rw_objects w a = None \<longleftrightarrow> rw_fresh w \<le> a \<or> own a = Gone) \<and>
     distinct (rw_destroyed w) \<and>
     (\<forall>key a. (key, a) \<in> set (rw_returned w) \<longrightarrow> a \<in> set (rg_services (rw_registry w)) \<and> key_of (rw_objects w) a = key)"

lemma find_service_ok:
  assumes "\<forall>a \<in> set as. \<exists>s. m a = Some s \<and> made_key (sv_key s)" "made_key key"
  shows "\<exists>r. find_service m key as = Some r \<and>
    (case r of None \<Rightarrow> key \<notin> key_of m ` set as | Some a \<Rightarrow> a \<in> set as \<and> key_of m a = key)"
  using assms(1)
proof (induction as)
  case (Cons a as)
  then obtain s where s: "m a = Some s" "made_key (sv_key s)" by auto
  from Cons.IH Cons.prems obtain r where "find_service m key as = Some r"
    "case r of None \<Rightarrow> key \<notin> key_of m ` set as | Some a \<Rightarrow> a \<in> set as \<and> key_of m a = key" by auto
  with s show ?case by (cases r) (auto simp: key_of_def keys_match_made [OF s(2) assms(2)])
qed simp

lemma list_ok_find:
  "list_ok m owner as \<Longrightarrow> made_key key \<Longrightarrow> \<exists>r. find_service m key as = Some r \<and>
    (case r of None \<Rightarrow> key \<notin> key_of m ` set as | Some a \<Rightarrow> a \<in> set as \<and> key_of m a = key)"
  by (rule find_service_ok) (auto simp: list_ok_def)

lemma list_ok_other: "list_ok m owner as \<Longrightarrow> a \<notin> set as \<Longrightarrow> list_ok (m(a := v)) owner as"
  unfolding list_ok_def key_of_def by (auto simp: inj_on_def split: if_splits)

lemma list_ok_Cons:
  "list_ok m owner as \<Longrightarrow> a \<notin> set as \<Longrightarrow> m a = Some s \<Longrightarrow> sv_owner s = owner \<Longrightarrow> made_key (sv_key s) \<Longrightarrow>
    sv_key s \<notin> key_of m ` set as \<Longrightarrow> list_ok m owner (a # as)"
  unfolding list_ok_def by (auto simp: key_of_def)

lemma frames_ok_other: "frames_ok m owner fs \<Longrightarrow> held_service fs \<noteq> Some a \<Longrightarrow> frames_ok (m(a := v)) owner fs"
  unfolding frames_ok_def by auto

lemma frames_ok_push:
  "frames_ok m owner fs \<Longrightarrow> runs_code fs \<Longrightarrow> made_key key \<Longrightarrow> frames_ok m owner (Constructing key # fs)"
  by (cases fs rule: runs_code.cases) (auto simp: frames_ok_def)

lemma frames_ok_pop:
  "frames_ok m owner (f # fs) \<Longrightarrow> frames_ok m owner fs \<and> held_service fs = None"
  by (cases fs rule: runs_code.cases) (fastforce simp: frames_ok_def)+

lemma frames_ok_constructed:
  "frames_ok m owner (Constructing key # fs) \<Longrightarrow> frames_ok (m(a \<mapsto> \<lparr> sv_owner = owner, sv_key = key \<rparr>)) owner (Constructed key a # fs)"
  by (simp add: frames_ok_def)

lemma key_of_other [simp]: "a \<noteq> b \<Longrightarrow> key_of (m(b := v)) a = key_of m a"
  by (simp add: key_of_def)

lemma held_by_simps:
  "held_by w a In_Registry \<longleftrightarrow> a \<in> set (rg_services (rw_registry w))"
  "held_by w a With_User \<longleftrightarrow> a \<in> rw_users w"
  "held_by w a (With_Thread t) \<longleftrightarrow> held_service (rw_stack w t) = Some a"
  "held_by w a Gone \<longleftrightarrow> a \<in> set (rw_destroyed w)"
  by (simp_all add: held_by_def)

lemma runs_code_held: "runs_code fs \<Longrightarrow> held_service fs = None"
  by (cases fs rule: runs_code.cases) auto

lemma registry_invI:
  assumes "rg_owner (rw_registry w) = owner" "list_ok (rw_objects w) owner (rg_services (rw_registry w))"
    "\<And>t. frames_ok (rw_objects w) owner (rw_stack w t)"
    "\<And>a h. held_by w a h \<longleftrightarrow> a < rw_fresh w \<and> own a = h"
    "\<And>a. rw_objects w a = None \<longleftrightarrow> rw_fresh w \<le> a \<or> own a = Gone"
    "distinct (rw_destroyed w)"
    "\<And>key a. (key, a) \<in> set (rw_returned w) \<Longrightarrow> a \<in> set (rg_services (rw_registry w)) \<and> key_of (rw_objects w) a = key"
  shows "registry_inv owner own w"
  unfolding registry_inv_def using assms by simp

lemma registry_invD:
  assumes "registry_inv owner own w"
  shows "rg_owner (rw_registry w) = owner" "list_ok (rw_objects w) owner (rg_services (rw_registry w))"
    "\<And>t. frames_ok (rw_objects w) owner (rw_stack w t)"
    "\<And>a h. held_by w a h \<longleftrightarrow> a < rw_fresh w \<and> own a = h"
    "\<And>a. rw_objects w a = None \<longleftrightarrow> rw_fresh w \<le> a \<or> own a = Gone"
    "distinct (rw_destroyed w)"
    "\<And>key a. (key, a) \<in> set (rw_returned w) \<Longrightarrow> a \<in> set (rg_services (rw_registry w))"
    "\<And>key a. (key, a) \<in> set (rw_returned w) \<Longrightarrow> key_of (rw_objects w) a = key"
    "\<And>a. a \<in> set (rg_services (rw_registry w)) \<longleftrightarrow> a < rw_fresh w \<and> own a = In_Registry"
    "\<And>a. a \<in> rw_users w \<longleftrightarrow> a < rw_fresh w \<and> own a = With_User"
    "\<And>a. a \<in> set (rw_destroyed w) \<longleftrightarrow> a < rw_fresh w \<and> own a = Gone"
    "\<And>a t. held_service (rw_stack w t) = Some a \<longleftrightarrow> a < rw_fresh w \<and> own a = With_Thread t"
  using assms unfolding registry_inv_def by (auto simp flip: held_by_simps)

text \<open>Steps that leave every object with its holder.\<close>

lemma held_by_same:
  assumes "rg_services (rw_registry v) = rg_services (rw_registry w)" "rw_users v = rw_users w" "rw_destroyed v = rw_destroyed w"
    "\<And>t. held_service (rw_stack v t) = held_service (rw_stack w t)"
  shows "held_by v = held_by w"
  by (rule ext, rule ext, unfold held_by_def) (simp add: assms split: holder.split)

lemma use_begin_ok:
  assumes inv: "registry_inv owner own w" and t: "runs_code (rw_stack w t)" and key: "made_key key"
  shows "\<exists>w'. use_service_begin t key w = Some w' \<and> registry_inv owner own w'"
proof -
  note D = registry_invD [OF inv]
  from list_ok_find [OF D(2) key] obtain x where x: "find_service (rw_objects w) key (rg_services (rw_registry w)) = Some x"
    "case x of None \<Rightarrow> key \<notin> key_of (rw_objects w) ` set (rg_services (rw_registry w))
     | Some a \<Rightarrow> a \<in> set (rg_services (rw_registry w)) \<and> key_of (rw_objects w) a = key" by blast
  show ?thesis
  proof (cases x)
    case None
    define v where "v = w\<lparr>rw_stack := (rw_stack w)(t := Constructing key # rw_stack w t)\<rparr>"
    have h: "held_by v = held_by w" by (rule held_by_same) (simp_all add: v_def runs_code_held [OF t])
    have "frames_ok (rw_objects v) owner (rw_stack v u)" for u
      using D(3) [of u] frames_ok_push [OF D(3) t key] by (simp add: v_def)
    then have "registry_inv owner own v"
      by (rule_tac registry_invI) (use D h in \<open>simp_all add: v_def\<close>)
    then show ?thesis using x None by (simp add: use_service_begin_def do_use_service_begin_def v_def)
  next
    case (Some a)
    define v where "v = w\<lparr>rw_returned := (key, a) # rw_returned w\<rparr>"
    have h: "held_by v = held_by w" by (rule held_by_same) (simp_all add: v_def)
    have "registry_inv owner own v" by (rule registry_invI) (use D h x Some in \<open>auto simp: v_def\<close>)
    then show ?thesis using x Some by (simp add: use_service_begin_def do_use_service_begin_def v_def)
  qed
qed

text \<open>Steps that give one object another holder.\<close>

lemma moved_inv:
  assumes "rg_owner (rw_registry v) = owner" "list_ok (rw_objects v) owner (rg_services (rw_registry v))"
    "\<And>t. frames_ok (rw_objects v) owner (rw_stack v t)"
    "\<And>b. b \<in> set (rg_services (rw_registry v)) \<longleftrightarrow> (if b = a then H = In_Registry else b \<in> set (rg_services (rw_registry w)))"
    "\<And>b. b \<in> rw_users v \<longleftrightarrow> (if b = a then H = With_User else b \<in> rw_users w)"
    "\<And>b. b \<in> set (rw_destroyed v) \<longleftrightarrow> (if b = a then H = Gone else b \<in> set (rw_destroyed w))"
    "\<And>b t. held_service (rw_stack v t) = Some b \<longleftrightarrow> (if b = a then H = With_Thread t else held_service (rw_stack w t) = Some b)"
    "rw_fresh v = (if a = rw_fresh w then a + 1 else rw_fresh w)" "a \<le> rw_fresh w"
    "\<And>b. rw_objects v b = None \<longleftrightarrow> (if b = a then H = Gone else rw_objects w b = None)"
    "distinct (rw_destroyed v)"
    "\<And>key b. (key, b) \<in> set (rw_returned v) \<Longrightarrow> b \<in> set (rg_services (rw_registry v)) \<and> key_of (rw_objects v) b = key"
    and inv: "registry_inv owner own w"
  shows "registry_inv owner (own(a := H)) v"
proof (rule registry_invI)
  note D = registry_invD [OF inv]
  fix b h
  have f: "a < rw_fresh v" "b \<noteq> a \<Longrightarrow> b < rw_fresh v \<longleftrightarrow> b < rw_fresh w" unfolding assms(8) using assms(9) by auto
  have "held_by v b h \<longleftrightarrow> (if b = a then H = h else held_by w b h)"
    using assms(4-6) [of b] assms(7) [of _ b] by (cases h) (simp_all add: held_by_simps)
  then show "held_by v b h \<longleftrightarrow> b < rw_fresh v \<and> (own(a := H)) b = h" using f D(4) [of b h] by simp
  show "rw_objects v b = None \<longleftrightarrow> rw_fresh v \<le> b \<or> (own(a := H)) b = Gone"
    using f assms(10) [of b] D(5) [of b] by (cases "b = a") auto
next
  show "rg_owner (rw_registry v) = owner" by (rule assms(1))
  show "list_ok (rw_objects v) owner (rg_services (rw_registry v))" by (rule assms(2))
  show "frames_ok (rw_objects v) owner (rw_stack v t)" for t by (rule assms(3))
  show "distinct (rw_destroyed v)" by (rule assms(11))
  show "b \<in> set (rg_services (rw_registry v)) \<and> key_of (rw_objects v) b = key" if "(key, b) \<in> set (rw_returned v)" for key b
    using that by (rule assms(12))
qed

lemma construct_ok:
  assumes inv: "registry_inv owner own w"
  shows "\<exists>w' own'. use_service_construct t w = Some w' \<and> registry_inv owner own' w'"
proof (cases "\<exists>key fs. rw_stack w t = Constructing key # fs")
  case True
  then obtain key fs where st: "rw_stack w t = Constructing key # fs" by blast
  note D = registry_invD [OF inv]
  define a where "a = rw_fresh w"
  define v where "v = w\<lparr>rw_fresh := a + 1, rw_objects := (rw_objects w)(a \<mapsto> \<lparr> sv_owner = owner, sv_key = key \<rparr>),
    rw_stack := (rw_stack w)(t := Constructed key a # fs)\<rparr>"
  note top = D(3) [of t, unfolded st]
  have free: "a \<notin> set (rg_services (rw_registry w))" "a \<notin> rw_users w" "a \<notin> set (rw_destroyed w)" "held_service (rw_stack w u) \<noteq> Some a" for u
    by (simp_all add: D a_def)
  have "registry_inv owner (own(a := With_Thread t)) v"
  proof (rule moved_inv [OF _ _ _ _ _ _ _ _ _ _ _ _ inv])
    fix u
    show "frames_ok (rw_objects v) owner (rw_stack v u)"
      using frames_ok_other [OF D(3) [of u] free(4) [of u]] frames_ok_constructed [OF top, of a] by (cases "u = t") (simp_all add: v_def)
  next
    fix b u
    show "held_service (rw_stack v u) = Some b \<longleftrightarrow> (if b = a then With_Thread t = With_Thread u else held_service (rw_stack w u) = Some b)"
      using free(4) [of u] st by (cases "u = t") (auto simp: v_def)
  next
    show "list_ok (rw_objects v) owner (rg_services (rw_registry v))" using list_ok_other [OF D(2) free(1)] by (simp add: v_def)
    show "b \<in> set (rg_services (rw_registry v)) \<and> key_of (rw_objects v) b = key'" if "(key', b) \<in> set (rw_returned v)" for key' b
    proof -
      from that have "b \<in> set (rg_services (rw_registry w))" "key_of (rw_objects w) b = key'" using D(7,8) by (simp_all add: v_def)
      moreover from this free(1) have "b \<noteq> a" by auto
      ultimately show ?thesis by (simp add: v_def)
    qed
  qed (use D(1,6) free(1-3) in \<open>simp_all add: v_def a_def\<close>)
  moreover have "use_service_construct t w = Some v"
    using st D(1) by (simp add: use_service_construct_def Let_def set_key_def service_ctor_def v_def a_def)
  ultimately show ?thesis by blast
next
  case False
  then have "use_service_construct t w = Some w" by (auto simp: use_service_construct_def split: list.split use_frame.split)
  with inv show ?thesis by blast
qed

lemma throw_ok:
  assumes inv: "registry_inv owner own w"
  shows "registry_inv owner own (use_service_throw t w)"
proof (cases "\<exists>key fs. rw_stack w t = Constructing key # fs")
  case True
  then obtain key fs where st: "rw_stack w t = Constructing key # fs" by blast
  note D = registry_invD [OF inv]
  note pop = frames_ok_pop [OF D(3) [of t, unfolded st]]
  define v where "v = w\<lparr>rw_stack := (rw_stack w)(t := fs)\<rparr>"
  have h: "held_by v = held_by w" by (rule held_by_same) (simp_all add: v_def st pop)
  have "frames_ok (rw_objects v) owner (rw_stack v u)" for u using D(3) [of u] pop by (simp add: v_def)
  then have "registry_inv owner own v" by (rule_tac registry_invI) (use D h in \<open>simp_all add: v_def\<close>)
  then show ?thesis by (simp add: use_service_throw_def st v_def)
next
  case False
  then have "use_service_throw t w = w" by (auto simp: use_service_throw_def split: list.split use_frame.split)
  with inv show ?thesis by simp
qed

lemma use_end_ok:
  assumes inv: "registry_inv owner own w"
  shows "\<exists>w' own'. use_service_end t w = Some w' \<and> registry_inv owner own' w'"
proof (cases "\<exists>key a fs. rw_stack w t = Constructed key a # fs")
  case True
  then obtain key a fs where st: "rw_stack w t = Constructed key a # fs" by blast
  note D = registry_invD [OF inv]
  note pop = frames_ok_pop [OF D(3) [of t, unfolded st]]
  have top: "made_key key" "rw_objects w a = Some \<lparr> sv_owner = owner, sv_key = key \<rparr>"
    using D(3) [of t] st by (simp_all add: frames_ok_def)
  have a: "a < rw_fresh w" "own a = With_Thread t" using D(12) [of t a] st by simp_all
  have free: "a \<notin> set (rg_services (rw_registry w))" "a \<notin> rw_users w" "a \<notin> set (rw_destroyed w)" by (simp_all add: D a)
  have others: "held_service (rw_stack w u) \<noteq> Some a" if "u \<noteq> t" for u using D(12) [of u a] a that by simp
  from list_ok_find [OF D(2) top(1)] obtain x where x: "find_service (rw_objects w) key (rg_services (rw_registry w)) = Some x"
    "case x of None \<Rightarrow> key \<notin> key_of (rw_objects w) ` set (rg_services (rw_registry w))
     | Some a \<Rightarrow> a \<in> set (rg_services (rw_registry w)) \<and> key_of (rw_objects w) a = key" by blast
  show ?thesis
  proof (cases x)
    case None
    define v where "v = w\<lparr>rw_registry := (rw_registry w)\<lparr>rg_services := a # rg_services (rw_registry w)\<rparr>,
      rw_stack := (rw_stack w)(t := fs), rw_returned := (key, a) # rw_returned w\<rparr>"
    have "registry_inv owner (own(a := In_Registry)) v"
    proof (rule moved_inv [OF _ _ _ _ _ _ _ _ _ _ _ _ inv])
      show "list_ok (rw_objects v) owner (rg_services (rw_registry v))"
        using list_ok_Cons [OF D(2) free(1) top(2)] top(1) x None by (simp add: v_def)
      show "frames_ok (rw_objects v) owner (rw_stack v u)" for u using D(3) [of u] pop by (simp add: v_def)
      show "held_service (rw_stack v u) = Some b \<longleftrightarrow> (if b = a then In_Registry = With_Thread u else held_service (rw_stack w u) = Some b)"
        for b u using others [of u] st pop by (cases "u = t") (auto simp: v_def)
      show "b \<in> set (rg_services (rw_registry v)) \<and> key_of (rw_objects v) b = key'" if "(key', b) \<in> set (rw_returned v)" for key' b
        using that D(7,8) [of key' b] top(2) by (auto simp: v_def key_of_def)
    qed (use D(1,6) free a top in \<open>simp_all add: v_def\<close>)
    moreover have "use_service_end t w = Some v" using x None by (simp add: use_service_end_def do_use_service_end_def st v_def)
    ultimately show ?thesis by blast
  next
    case (Some b)
    with x free(1) have b: "b \<in> set (rg_services (rw_registry w))" "key_of (rw_objects w) b = key" "b \<noteq> a" by auto
    define v where "v = w\<lparr>rw_objects := (rw_objects w)(a := None), rw_stack := (rw_stack w)(t := fs),
      rw_returned := (key, b) # rw_returned w, rw_destroyed := a # rw_destroyed w\<rparr>"
    have "registry_inv owner (own(a := Gone)) v"
    proof (rule moved_inv [OF _ _ _ _ _ _ _ _ _ _ _ _ inv])
      show "list_ok (rw_objects v) owner (rg_services (rw_registry v))" using list_ok_other [OF D(2) free(1)] by (simp add: v_def)
      show "frames_ok (rw_objects v) owner (rw_stack v u)" for u
        using frames_ok_other [OF D(3) [of u] others [of u]] frames_ok_other [OF conjunct1 [OF pop], of a] pop by (cases "u = t") (simp_all add: v_def)
      show "held_service (rw_stack v u) = Some c \<longleftrightarrow> (if c = a then Gone = With_Thread u else held_service (rw_stack w u) = Some c)"
        for c u using others [of u] st pop by (cases "u = t") (auto simp: v_def)
      show "c \<in> set (rg_services (rw_registry v)) \<and> key_of (rw_objects v) c = key'" if "(key', c) \<in> set (rw_returned v)" for key' c
      proof -
        have "c \<in> set (rg_services (rw_registry w)) \<and> key_of (rw_objects w) c = key'" using that D(7,8) [of key' c] b by (auto simp: v_def)
        moreover from this free(1) have "c \<noteq> a" by auto
        ultimately show ?thesis by (simp add: v_def)
      qed
    qed (use D(1,6) free a in \<open>simp_all add: v_def\<close>)
    moreover have "use_service_end t w = Some v"
      using x Some b(3) top(2) by (simp add: use_service_end_def do_use_service_end_def destroy_def st v_def)
    ultimately show ?thesis by blast
  qed
next
  case False
  then have "use_service_end t w = Some w" by (auto simp: use_service_end_def split: list.split use_frame.split)
  with inv show ?thesis by blast
qed

lemma user_ok:
  assumes inv: "registry_inv owner own w"
  shows "\<exists>own'. registry_inv owner own' (user_service c w)"
proof -
  note D = registry_invD [OF inv]
  define a where "a = rw_fresh w"
  have free: "a \<notin> set (rg_services (rw_registry w))" "a \<notin> rw_users w" "a \<notin> set (rw_destroyed w)" "held_service (rw_stack w u) \<noteq> Some a" for u
    by (simp_all add: D a_def)
  have "registry_inv owner (own(a := With_User)) (user_service c w)"
  proof (rule moved_inv [OF _ _ _ _ _ _ _ _ _ _ _ _ inv])
    show "list_ok (rw_objects (user_service c w)) owner (rg_services (rw_registry (user_service c w)))"
      using list_ok_other [OF D(2) free(1)] by (simp add: user_service_def a_def)
    show "frames_ok (rw_objects (user_service c w)) owner (rw_stack (user_service c w) u)" for u
      using frames_ok_other [OF D(3) [of u] free(4) [of u]] by (simp add: user_service_def a_def)
    show "held_service (rw_stack (user_service c w) u) = Some b \<longleftrightarrow>
      (if b = a then With_User = With_Thread u else held_service (rw_stack w u) = Some b)" for b u
      using free(4) [of u] by (auto simp: user_service_def)
    show "b \<in> set (rg_services (rw_registry (user_service c w))) \<and> key_of (rw_objects (user_service c w)) b = key'"
      if "(key', b) \<in> set (rw_returned (user_service c w))" for key' b
    proof -
      from that have "b \<in> set (rg_services (rw_registry w))" "key_of (rw_objects w) b = key'" using D(7,8) by (simp_all add: user_service_def)
      moreover from this free(1) have "b \<noteq> a" by auto
      ultimately show ?thesis by (simp add: user_service_def a_def)
    qed
  qed (use D(1,6) free in \<open>simp_all add: user_service_def a_def\<close>)
  then show ?thesis by blast
qed

lemma user_object:
  assumes "registry_inv owner own w" "a \<in> rw_users w"
  shows "\<exists>s. rw_objects w a = Some s" "a < rw_fresh w" "a \<notin> set (rg_services (rw_registry w))" "a \<notin> set (rw_destroyed w)"
    "held_service (rw_stack w u) \<noteq> Some a"
proof -
  note D = registry_invD [OF assms(1)]
  have a: "a < rw_fresh w" "own a = With_User" using D(10) assms(2) by simp_all
  then show "a < rw_fresh w" "a \<notin> set (rg_services (rw_registry w))" "a \<notin> set (rw_destroyed w)" "held_service (rw_stack w u) \<noteq> Some a"
    by (simp_all add: D)
  show "\<exists>s. rw_objects w a = Some s" using D(5) [of a] a by (cases "rw_objects w a") simp_all
qed

lemma add_ok:
  assumes inv: "registry_inv owner own w" and a: "a \<in> rw_users w" and key: "made_key key"
  shows "\<exists>w' own'. context_add_service key a w = Some w' \<and> registry_inv owner own' w'"
proof -
  note D = registry_invD [OF inv] and free = user_object [OF inv a]
  obtain s where s: "rw_objects w a = Some s" using free(1) by blast
  from list_ok_find [OF D(2) key] obtain x where x: "find_service (rw_objects w) key (rg_services (rw_registry w)) = Some x"
    "case x of None \<Rightarrow> key \<notin> key_of (rw_objects w) ` set (rg_services (rw_registry w))
     | Some a \<Rightarrow> a \<in> set (rg_services (rw_registry w)) \<and> key_of (rw_objects w) a = key" by blast
  show ?thesis
  proof (cases "sv_owner s = owner \<and> x = None")
    case False
    then have "context_add_service key a w = Some w" using x(1) s D(1) by (cases x) (auto simp: context_add_service_def do_add_service_def)
    with inv show ?thesis by blast
  next
    case True
    define m where "m = (rw_objects w)(a \<mapsto> s\<lparr>sv_key := key\<rparr>)"
    define v where "v = w\<lparr>rw_registry := (rw_registry w)\<lparr>rg_services := a # rg_services (rw_registry w)\<rparr>, rw_objects := m,
      rw_users := rw_users w - {a}\<rparr>"
    have k: "key_of m b = key_of (rw_objects w) b" if "b \<in> set (rg_services (rw_registry w))" for b
      using that free(3) by (cases "b = a") (simp_all add: m_def)
    have "registry_inv owner (own(a := In_Registry)) v"
    proof (rule moved_inv [OF _ _ _ _ _ _ _ _ _ _ _ _ inv])
      have "list_ok m owner (rg_services (rw_registry w))" unfolding m_def by (rule list_ok_other [OF D(2) free(3)])
      then have "list_ok m owner (a # rg_services (rw_registry w))"
        by (rule list_ok_Cons [where s = "s\<lparr>sv_key := key\<rparr>"]) (use free(3) True key x k in \<open>auto simp: m_def\<close>)
      then show "list_ok (rw_objects v) owner (rg_services (rw_registry v))" by (simp add: v_def)
      show "frames_ok (rw_objects v) owner (rw_stack v u)" for u using frames_ok_other [OF D(3) [of u] free(5) [of u]] by (simp add: v_def m_def)
      show "held_service (rw_stack v u) = Some b \<longleftrightarrow> (if b = a then In_Registry = With_Thread u else held_service (rw_stack w u) = Some b)"
        for b u using free(5) [of u] by (auto simp: v_def)
      show "b \<in> set (rg_services (rw_registry v)) \<and> key_of (rw_objects v) b = key'" if "(key', b) \<in> set (rw_returned v)" for key' b
        using that D(7,8) [of key' b] k by (simp add: v_def)
    qed (use D(1,6) free(2-4) a in \<open>simp_all add: v_def m_def\<close>)
    moreover have "context_add_service key a w = Some v"
      using x(1) s D(1) True by (simp add: context_add_service_def do_add_service_def set_key_def v_def m_def)
    ultimately show ?thesis by blast
  qed
qed

lemma delete_ok:
  assumes inv: "registry_inv owner own w" and a: "a \<in> rw_users w"
  shows "\<exists>w' own'. user_deletes a w = Some w' \<and> registry_inv owner own' w'"
proof -
  note D = registry_invD [OF inv] and free = user_object [OF inv a]
  obtain s where s: "rw_objects w a = Some s" using free(1) by blast
  define v where "v = w\<lparr>rw_objects := (rw_objects w)(a := None), rw_users := rw_users w - {a}, rw_destroyed := a # rw_destroyed w\<rparr>"
  have "registry_inv owner (own(a := Gone)) v"
  proof (rule moved_inv [OF _ _ _ _ _ _ _ _ _ _ _ _ inv])
    show "list_ok (rw_objects v) owner (rg_services (rw_registry v))" using list_ok_other [OF D(2) free(3)] by (simp add: v_def)
    show "frames_ok (rw_objects v) owner (rw_stack v u)" for u using frames_ok_other [OF D(3) [of u] free(5) [of u]] by (simp add: v_def)
    show "held_service (rw_stack v u) = Some b \<longleftrightarrow> (if b = a then Gone = With_Thread u else held_service (rw_stack w u) = Some b)"
      for b u using free(5) [of u] by (auto simp: v_def)
    show "b \<in> set (rg_services (rw_registry v)) \<and> key_of (rw_objects v) b = key'" if "(key', b) \<in> set (rw_returned v)" for key' b
    proof -
      from that have "b \<in> set (rg_services (rw_registry w))" "key_of (rw_objects w) b = key'" using D(7,8) by (simp_all add: v_def)
      moreover from this free(3) have "b \<noteq> a" by auto
      ultimately show ?thesis by (simp add: v_def)
    qed
  qed (use D(1,6) free(2-4) a in \<open>simp_all add: v_def\<close>)
  moreover have "user_deletes a w = Some v" using s by (simp add: user_deletes_def destroy_def v_def)
  ultimately show ?thesis by blast
qed

lemma registry_start_inv: "registry_inv owner (\<lambda>_. Gone) (registry_start owner)"
  by (rule registry_invI)
    (simp_all add: registry_start_def service_registry_def list_ok_def frames_ok_def held_by_def split: holder.split)

lemma registry_reach_inv: "registry_reach owner w \<Longrightarrow> \<exists>own. registry_inv owner own w"
proof (induction rule: registry_reach.induct)
  case start
  show ?case using registry_start_inv by blast
next
  case (use_begin w t key w')
  then show ?case using use_begin_ok [OF _ use_begin.hyps(2,3)] by (metis option.inject)
next
  case (construct w t w')
  then show ?case using construct_ok by (metis option.inject)
next
  case (throw w t)
  then show ?case using throw_ok by blast
next
  case (use_end w t w')
  then show ?case using use_end_ok by (metis option.inject)
next
  case (user w c)
  then show ?case using user_ok by blast
next
  case (add w a key w')
  then show ?case using add_ok [OF _ add.hyps(2,3)] by (metis option.inject)
next
  case (delete w a w')
  then show ?case using delete_ok [OF _ delete.hyps(2)] by (metis option.inject)
qed

section \<open>What the registry promises\<close>

text \<open>C13: There is one service for each key. After every history of calls by any threads, with factories that call
  back, race each other or throw, all calls of \<open>use_service\<close> for a key have returned the same service, which is in the
  list with that key and belongs to the context; no two services of the list match; every service ever constructed is in exactly one place,
  in the list, with the user who made it, with the one call that constructed it, or destroyed, and none is destroyed twice; and no call of the registry
  follows a pointer to a destroyed service.\<close>

theorem one_service_per_key:
  assumes "registry_reach owner w"
  shows "(\<forall>key a b. (key, a) \<in> set (rw_returned w) \<longrightarrow> (key, b) \<in> set (rw_returned w) \<longrightarrow> a = b) \<and>
    (\<forall>key a. (key, a) \<in> set (rw_returned w) \<longrightarrow> a \<in> set (rg_services (rw_registry w)) \<and>
       rw_objects w a = Some \<lparr> sv_owner = owner, sv_key = key \<rparr>) \<and>
    (\<forall>a s b s'. a \<in> set (rg_services (rw_registry w)) \<longrightarrow> b \<in> set (rg_services (rw_registry w)) \<longrightarrow>
       rw_objects w a = Some s \<longrightarrow> rw_objects w b = Some s' \<longrightarrow> keys_match (sv_key s) (sv_key s') \<longrightarrow> a = b) \<and>
    (\<forall>a < rw_fresh w. (\<exists>!h. held_by w a h) \<and> (rw_objects w a = None \<longleftrightarrow> held_by w a Gone)) \<and>
    distinct (rg_services (rw_registry w)) \<and> distinct (rw_destroyed w) \<and>
    (\<forall>t key. made_key key \<longrightarrow> runs_code (rw_stack w t) \<longrightarrow> use_service_begin t key w \<noteq> None) \<and>
    (\<forall>t. use_service_end t w \<noteq> None) \<and>
    (\<forall>a key. a \<in> rw_users w \<longrightarrow> made_key key \<longrightarrow> context_add_service key a w \<noteq> None) \<and>
    (\<forall>key. made_key key \<longrightarrow> do_has_service key (rw_registry w) (rw_objects w) =
       Some (\<exists>a \<in> set (rg_services (rw_registry w)). key_of (rw_objects w) a = key))"
proof -
  obtain own where inv: "registry_inv owner own w" using registry_reach_inv [OF assms] by blast
  note D = registry_invD [OF inv]
  have inj: "a = b" if "a \<in> set (rg_services (rw_registry w))" "b \<in> set (rg_services (rw_registry w))"
      "key_of (rw_objects w) a = key_of (rw_objects w) b" for a b
    using D(2) that unfolding list_ok_def by (blast dest: inj_onD)
  show ?thesis
  proof (intro conjI allI impI, goal_cases)
    case (1 key a b)
    then show ?case using inj D(7,8) by metis
  next
    case (2 key a)
    then show ?case by (rule D(7))
  next
    case (3 key a)
    have "key_of (rw_objects w) a = key" "a \<in> set (rg_services (rw_registry w))" using D(7,8) [OF 3] by simp_all
    with D(2) show ?case by (auto simp: list_ok_def key_of_def)
  next
    case (4 a s b s')
    then have "made_key (sv_key s)" "made_key (sv_key s')" using D(2) unfolding list_ok_def by fastforce+
    with 4 show ?case by (intro inj) (simp_all add: keys_match_made key_of_def)
  next
    case (5 a)
    then show ?case by (auto simp: D(4))
  next
    case (6 a)
    then show ?case using D(5) [of a] by (simp add: D(4))
  next
    case 7
    then show ?case using D(2) by (simp add: list_ok_def)
  next
    case 8
    then show ?case by (rule D(6))
  next
    case (9 t key)
    then show ?case using use_begin_ok [OF inv, of t key] by auto
  next
    case (10 t)
    then show ?case using use_end_ok [OF inv, of t] by auto
  next
    case (11 a key)
    then show ?case using add_ok [OF inv, of a key] by auto
  next
    case (12 key)
    obtain r where "find_service (rw_objects w) key (rg_services (rw_registry w)) = Some r"
      "case r of None \<Rightarrow> key \<notin> key_of (rw_objects w) ` set (rg_services (rw_registry w))
       | Some a \<Rightarrow> a \<in> set (rg_services (rw_registry w)) \<and> key_of (rw_objects w) a = key"
      using list_ok_find [OF D(2) 12] by blast
    then show ?case by (cases r) (auto simp: do_has_service_def)
  qed
qed

text \<open>Two threads race for one key: the factory of the second makes a nested call.\<close>

definition race :: "registry_world option" where
  "race = Option.bind (use_service_begin 0 (init_key 7) (registry_start 5)) (\<lambda>w.
     Option.bind (use_service_begin 1 (init_key 7) w) (\<lambda>w.
     Option.bind (use_service_begin 1 (init_key 8) w) (\<lambda>w.
     Option.bind (use_service_construct 1 w) (\<lambda>w.
     Option.bind (use_service_end 1 w) (\<lambda>w.
     Option.bind (use_service_construct 1 w) (\<lambda>w.
     Option.bind (use_service_construct 0 w) (\<lambda>w.
     Option.bind (use_service_end 0 w) (\<lambda>w. use_service_end 1 w))))))))"

lemmas registry_eval = use_service_begin_def do_use_service_begin_def use_service_construct_def use_service_end_def do_use_service_end_def
  set_key_def destroy_def service_ctor_def no_key_def init_key_def keys_match_def Let_def

lemma race_value: "\<exists>w. race = Some w \<and> rw_returned w = [(init_key 7, 2), (init_key 7, 2), (init_key 8, 0)] \<and> rw_destroyed w = [1] \<and>
    rg_services (rw_registry w) = [2, 0] \<and> rw_fresh w = 3 \<and> rw_stack w = (\<lambda>_. [])"
  by (simp add: race_def registry_eval registry_start_def service_registry_def fun_eq_iff)

lemma race_reach: "race = Some w \<Longrightarrow> registry_reach 5 w"
proof -
  assume "race = Some w"
  then obtain a b c d e f g h where r:
    "use_service_begin 0 (init_key 7) (registry_start 5) = Some a" "use_service_begin 1 (init_key 7) a = Some b"
    "use_service_begin 1 (init_key 8) b = Some c" "use_service_construct 1 c = Some d" "use_service_end 1 d = Some e"
    "use_service_construct 1 e = Some f" "use_service_construct 0 f = Some g" "use_service_end 0 g = Some h" "use_service_end 1 h = Some w"
    by (auto simp: race_def bind_eq_Some_conv)
  have a: "a = (registry_start 5)\<lparr>rw_stack := (\<lambda>_. [])(0 := [Constructing (init_key 7)])\<rparr>"
    using r(1) by (simp add: use_service_begin_def do_use_service_begin_def registry_start_def service_registry_def)
  have b: "b = a\<lparr>rw_stack := (rw_stack a)(1 := [Constructing (init_key 7)])\<rparr>"
    using r(2) by (simp add: use_service_begin_def do_use_service_begin_def registry_start_def service_registry_def a)
  have "registry_reach 5 a" by (rule registry_reach.use_begin [OF registry_reach.start _ made_keys(1) r(1)]) (simp add: registry_start_def)
  then have "registry_reach 5 b" by (rule registry_reach.use_begin [OF _ _ made_keys(1) r(2)]) (simp add: a)
  then have "registry_reach 5 c" by (rule registry_reach.use_begin [OF _ _ made_keys(1) r(3)]) (simp add: b)
  then show ?thesis using r(4-9) registry_reach.construct registry_reach.use_end by metis
qed

theorem one_service_per_key_witness:
  "\<exists>w. race = Some w \<and> (init_key 7, 2) \<in> set (rw_returned w) \<and> 2 \<in> set (rg_services (rw_registry w)) \<and>
     (\<exists>!h. held_by w 1 h) \<and> rw_objects w 1 = None"
proof -
  obtain w where w: "race = Some w" "(init_key 7, 2) \<in> set (rw_returned w)" "rw_fresh w = 3" "rw_destroyed w = [1]"
    using race_value by force
  note T = one_service_per_key [OF race_reach [OF w(1)]]
  have "2 \<in> set (rg_services (rw_registry w))" using T w(2) by blast
  moreover have "\<exists>!h. held_by w 1 h" "rw_objects w 1 = None \<longleftrightarrow> held_by w 1 Gone" using T w(3) by simp_all
  moreover have "held_by w 1 Gone" by (simp add: held_by_simps w(4))
  ultimately show ?thesis using w by (intro exI [of _ w]) simp
qed

section \<open>The end of a context, and forks\<close>

lemma shutdown_loop_all: "\<forall>a \<in> set as. m a \<noteq> None \<Longrightarrow> shutdown_loop as m = Some (map Shutdown as)"
  by (induction as) auto

lemma destroy_loop_all:
  "\<forall>a \<in> set as. m a \<noteq> None \<Longrightarrow> distinct as \<Longrightarrow>
    destroy_loop as m = Some (map Destroyed as, \<lambda>a. if a \<in> set as then None else m a)"
proof (induction as arbitrary: m)
  case (Cons a as)
  then obtain s where s: "m a = Some s" by auto
  have "destroy_loop as (m(a := None)) = Some (map Destroyed as, \<lambda>b. if b \<in> set as then None else (m(a := None)) b)"
    using Cons.prems by (intro Cons.IH) auto
  with s show ?case by (auto simp: destroy_def fun_eq_iff)
qed simp

lemma notify_up_all: "i + n = length as \<Longrightarrow> notify_up ev as i n = map (Notify_Fork ev) (drop i as)"
  by (induction ev as i n rule: notify_up.induct) (auto simp: Cons_nth_drop_Suc [symmetric])

lemma notify_down_all: "n \<le> length as \<Longrightarrow> notify_down ev as n = map (Notify_Fork ev) (rev (take n as))"
  by (induction ev as n rule: notify_down.induct) (auto simp: take_Suc_conv_app_nth)

text \<open>The destruction of a context, in any reachable state, tells every service of the list to shut down, in the reverse order of
  registration, and only then destroys each of them once, in the same order; the services that users still own stay. A fork is announced in
  the reverse order of registration before it happens and in the order of registration afterwards.\<close>

theorem services_end_in_reverse_order:
  assumes "registry_reach owner w"
  shows "execution_context_destroy (rw_registry w) (rw_objects w) =
      Some (map Shutdown (rg_services (rw_registry w)) @ map Destroyed (rg_services (rw_registry w)), service_registry owner,
        \<lambda>a. if a \<in> set (rg_services (rw_registry w)) then None else rw_objects w a) \<and>
    distinct (rg_services (rw_registry w)) \<and>
    registry_notify_fork Prepare_Fork (rw_registry w) = map (Notify_Fork Prepare_Fork) (rg_services (rw_registry w)) \<and>
    registry_notify_fork Parent_Fork (rw_registry w) = map (Notify_Fork Parent_Fork) (rev (rg_services (rw_registry w))) \<and>
    registry_notify_fork Child_Fork (rw_registry w) = map (Notify_Fork Child_Fork) (rev (rg_services (rw_registry w)))"
proof -
  obtain own where inv: "registry_inv owner own w" using registry_reach_inv [OF assms] by blast
  note D = registry_invD [OF inv]
  have l: "\<forall>a \<in> set (rg_services (rw_registry w)). rw_objects w a \<noteq> None" "distinct (rg_services (rw_registry w))"
    using D(2) by (auto simp: list_ok_def)
  from shutdown_loop_all [OF l(1)] destroy_loop_all [OF l] l(2) D(1) show ?thesis
    by (simp add: execution_context_destroy_def shutdown_services_def destroy_services_def registry_notify_fork_def
        notify_up_all notify_down_all service_registry_def)
qed

theorem services_end_in_reverse_order_witness:
  "\<exists>w. race = Some w \<and> map_option fst (execution_context_destroy (rw_registry w) (rw_objects w)) =
     Some [Shutdown 2, Shutdown 0, Destroyed 2, Destroyed 0] \<and>
     registry_notify_fork Child_Fork (rw_registry w) = [Notify_Fork Child_Fork 0, Notify_Fork Child_Fork 2]"
proof -
  obtain w where w: "race = Some w" "rg_services (rw_registry w) = [2, 0]" using race_value by blast
  from services_end_in_reverse_order [OF race_reach [OF w(1)]] w show ?thesis by (intro exI [of _ w]) simp
qed

end
