(* ===== verification/Asio_Transfer.thy ===== *)
theory Asio_Transfer
  imports Asio_Buffer Asio_Error
begin

text \<open>
  Composed reads and writes of asio: \<open>detail/consuming_buffers.hpp\<close> (the position in a buffer sequence),
  \<open>completion_condition.hpp\<close>, \<open>detail/base_from_completion_cond.hpp\<close>, and the loops of \<open>impl/write.hpp\<close> and
  \<open>impl/read.hpp\<close>, which issue one transfer after another until the completion condition, an error or
  the end of the buffers stops them. The stream that performs a single transfer is a parameter. An error
  code is \<open>Some e\<close>, success is \<open>None\<close>.
\<close>

section \<open>Positions in a buffer sequence\<close>

record consuming_buffers =
  cb_buffers :: "abuf list"
  cb_total_size :: nat
  cb_total_consumed :: nat
  cb_next_elem :: nat
  cb_next_elem_offset :: nat

definition max_prepared :: "nat \<Rightarrow> nat" where
  "max_prepared MaxBuffers = (if MaxBuffers < 16 then MaxBuffers else 16)"

definition consuming_ctor :: "abuf list \<Rightarrow> consuming_buffers" where
  "consuming_ctor buffers =
     \<lparr> cb_buffers = buffers, cb_total_size = buffer_size buffers, cb_total_consumed = 0,
       cb_next_elem = 0, cb_next_elem_offset = 0 \<rparr>"

definition cb_empty :: "consuming_buffers \<Rightarrow> bool" where
  "cb_empty c \<longleftrightarrow> cb_total_consumed c \<ge> cb_total_size c"

fun prepare_loop :: "nat \<Rightarrow> abuf list \<Rightarrow> nat \<Rightarrow> nat \<Rightarrow> abuf list \<Rightarrow> abuf list" where
  "prepare_loop max_buffers next elem_offset max_size elems =
     (case next of
        [] \<Rightarrow> elems
      | b # rest \<Rightarrow>
          if max_size > 0 \<and> length elems < max_buffers then
            let next_buf = buf_plus b elem_offset;
                e = buf_limit next_buf max_size
            in prepare_loop max_buffers rest 0 (max_size - ab_size e)
                 (if ab_size e > 0 then elems @ [e] else elems)
          else elems)"

definition cb_prepare :: "nat \<Rightarrow> consuming_buffers \<Rightarrow> nat \<Rightarrow> abuf list" where
  "cb_prepare MaxBuffers c max_size =
     prepare_loop (max_prepared MaxBuffers) (drop (cb_next_elem c) (cb_buffers c))
       (cb_next_elem_offset c) max_size []"

fun consume_loop :: "abuf list \<Rightarrow> nat \<Rightarrow> nat \<Rightarrow> nat \<Rightarrow> nat \<times> nat" where
  "consume_loop next next_elem next_elem_offset size' =
     (case next of
        [] \<Rightarrow> (next_elem, next_elem_offset)
      | b # rest \<Rightarrow>
          if size' > 0 then
            let next_buf = buf_plus b next_elem_offset in
            if size' < ab_size next_buf then consume_loop next next_elem (next_elem_offset + size') 0
            else consume_loop rest (next_elem + 1) 0 (size' - ab_size next_buf)
          else (next_elem, next_elem_offset))"

declare prepare_loop.simps [simp del] consume_loop.simps [simp del]

definition cb_consume :: "consuming_buffers \<Rightarrow> nat \<Rightarrow> consuming_buffers" where
  "cb_consume c size' =
     (case consume_loop (drop (cb_next_elem c) (cb_buffers c)) (cb_next_elem c) (cb_next_elem_offset c) size' of
        (e, off) \<Rightarrow> c\<lparr>cb_total_consumed := cb_total_consumed c + size', cb_next_elem := e,
                     cb_next_elem_offset := off\<rparr>)"

text \<open>The specialisations for a single buffer and for an array of two.\<close>

record single_buffer =
  sb_buffer :: abuf
  sb_total_consumed :: nat

definition single_ctor :: "abuf \<Rightarrow> single_buffer" where
  "single_ctor b = \<lparr> sb_buffer = b, sb_total_consumed = 0 \<rparr>"

definition sb_empty :: "single_buffer \<Rightarrow> bool" where
  "sb_empty c \<longleftrightarrow> sb_total_consumed c \<ge> ab_size (sb_buffer c)"

definition sb_prepare :: "single_buffer \<Rightarrow> nat \<Rightarrow> abuf" where
  "sb_prepare c max_size = buf_limit (buf_plus (sb_buffer c) (sb_total_consumed c)) max_size"

definition sb_consume :: "single_buffer \<Rightarrow> nat \<Rightarrow> single_buffer" where
  "sb_consume c size' = c\<lparr>sb_total_consumed := sb_total_consumed c + size'\<rparr>"

record pair_buffers =
  pb_fst :: abuf
  pb_snd :: abuf
  pb_total_consumed :: nat

definition pair_ctor :: "abuf \<Rightarrow> abuf \<Rightarrow> pair_buffers" where
  "pair_ctor b0 b1 = \<lparr> pb_fst = b0, pb_snd = b1, pb_total_consumed = 0 \<rparr>"

definition pb_empty :: "pair_buffers \<Rightarrow> bool" where
  "pb_empty c \<longleftrightarrow> pb_total_consumed c \<ge> ab_size (pb_fst c) + ab_size (pb_snd c)"

definition pb_prepare :: "pair_buffers \<Rightarrow> nat \<Rightarrow> abuf \<times> abuf" where
  "pb_prepare c max_size =
     (let buffer0_size = ab_size (pb_fst c);
          r0 = buf_limit (buf_plus (pb_fst c) (pb_total_consumed c)) max_size;
          r1 = buf_limit (buf_plus (pb_snd c)
                 (if pb_total_consumed c < buffer0_size then 0 else pb_total_consumed c - buffer0_size))
                 (max_size - ab_size r0)
      in (r0, r1))"

definition pb_consume :: "pair_buffers \<Rightarrow> nat \<Rightarrow> pair_buffers" where
  "pb_consume c size' = c\<lparr>pb_total_consumed := pb_total_consumed c + size'\<rparr>"

section \<open>Completion conditions\<close>

definition default_max_transfer_size :: nat where
  "default_max_transfer_size = 65536"

datatype condition = Transfer_All | Transfer_At_Least nat | Transfer_Exactly nat

definition completion_condition :: "condition \<Rightarrow> error_code \<Rightarrow> nat \<Rightarrow> nat" where
  "completion_condition c err bytes_transferred = (case c of
     Transfer_All \<Rightarrow> if err \<noteq> None then 0 else default_max_transfer_size
   | Transfer_At_Least minimum \<Rightarrow>
       if err \<noteq> None \<or> bytes_transferred \<ge> minimum then 0 else default_max_transfer_size
   | Transfer_Exactly n \<Rightarrow>
       if err \<noteq> None \<or> bytes_transferred \<ge> n then 0
       else if n - bytes_transferred < default_max_transfer_size then n - bytes_transferred
       else default_max_transfer_size)"

definition adapt_completion_condition_result :: "nat \<Rightarrow> nat" where
  "adapt_completion_condition_result result = result"

definition check_for_completion :: "condition \<Rightarrow> error_code \<Rightarrow> nat \<Rightarrow> nat" where
  "check_for_completion c ec total_transferred =
     adapt_completion_condition_result (completion_condition c ec total_transferred)"

section \<open>The composed operations\<close>

datatype op_action =
    Async_Some "abuf list"
  | Call_Handler error_code nat

record write_op =
  wo_buffers :: consuming_buffers
  wo_condition :: condition
  wo_start :: nat

definition write_op_ctor :: "abuf list \<Rightarrow> condition \<Rightarrow> write_op" where
  "write_op_ctor buffers c = \<lparr> wo_buffers = consuming_ctor buffers, wo_condition = c, wo_start = 0 \<rparr>"

text \<open>One call of the operation, up to its \<open>return\<close>: it starts the next transfer or calls the handler.\<close>

definition write_op_call :: "nat \<Rightarrow> write_op \<Rightarrow> error_code \<Rightarrow> nat \<Rightarrow> nat \<Rightarrow> write_op \<times> op_action" where
  "write_op_call mb op ec bytes_transferred start =
     (let op = op\<lparr>wo_start := start\<rparr> in
      if start = 1 then
        let max_size = check_for_completion (wo_condition op) ec (cb_total_consumed (wo_buffers op))
        in (op, Async_Some (cb_prepare mb (wo_buffers op) max_size))
      else
        let op = op\<lparr>wo_buffers := cb_consume (wo_buffers op) bytes_transferred\<rparr>;
            total_consumed = cb_total_consumed (wo_buffers op)
        in if ec = None \<and> bytes_transferred = 0 \<or> cb_empty (wo_buffers op)
           then (op, Call_Handler ec total_consumed)
           else let max_size = check_for_completion (wo_condition op) ec total_consumed
                in if max_size > 0 then (op, Async_Some (cb_prepare mb (wo_buffers op) max_size))
                   else (op, Call_Handler ec total_consumed))"

record read_op =
  ro_buffers :: consuming_buffers
  ro_condition :: condition
  ro_start :: nat

definition read_op_ctor :: "abuf list \<Rightarrow> condition \<Rightarrow> read_op" where
  "read_op_ctor buffers c = \<lparr> ro_buffers = consuming_ctor buffers, ro_condition = c, ro_start = 0 \<rparr>"

definition read_op_call :: "nat \<Rightarrow> read_op \<Rightarrow> error_code \<Rightarrow> nat \<Rightarrow> nat \<Rightarrow> read_op \<times> op_action" where
  "read_op_call mb op ec bytes_transferred start =
     (let op = op\<lparr>ro_start := start\<rparr> in
      if start = 1 then
        let max_size = check_for_completion (ro_condition op) ec (cb_total_consumed (ro_buffers op))
        in (op, Async_Some (cb_prepare mb (ro_buffers op) max_size))
      else
        let op = op\<lparr>ro_buffers := cb_consume (ro_buffers op) bytes_transferred\<rparr>;
            total_consumed = cb_total_consumed (ro_buffers op)
        in if ec = None \<and> bytes_transferred = 0 \<or> cb_empty (ro_buffers op)
           then (op, Call_Handler ec total_consumed)
           else let max_size = check_for_completion (ro_condition op) ec total_consumed
                in if max_size > 0 then (op, Async_Some (cb_prepare mb (ro_buffers op) max_size))
                   else (op, Call_Handler ec total_consumed))"

text \<open>The synchronous loops. \<open>some s bs\<close> is one call of \<open>write_some\<close> or \<open>read_some\<close> on the stream state
  \<open>s\<close>: the number of bytes, the error code and the new state. A stream that neither makes progress nor
  fails keeps the loop running.\<close>

type_synonym 's stream_some = "'s \<Rightarrow> abuf list \<Rightarrow> nat \<times> error_code \<times> 's"

partial_function (option) write_buffer_loop ::
    "nat \<Rightarrow> 's stream_some \<Rightarrow> condition \<Rightarrow> 's \<Rightarrow> consuming_buffers \<Rightarrow> error_code \<Rightarrow> (nat \<times> error_code \<times> 's) option" where
  "write_buffer_loop mb write_some c s tmp ec =
     (if \<not> cb_empty tmp then
        let max_size = adapt_completion_condition_result (completion_condition c ec (cb_total_consumed tmp)) in
        if max_size \<noteq> 0 then
          (case write_some s (cb_prepare mb tmp max_size) of (n, ec, s) \<Rightarrow>
             write_buffer_loop mb write_some c s (cb_consume tmp n) ec)
        else Some (cb_total_consumed tmp, ec, s)
      else Some (cb_total_consumed tmp, ec, s))"

definition write_buffer_sequence ::
    "nat \<Rightarrow> 's stream_some \<Rightarrow> 's \<Rightarrow> abuf list \<Rightarrow> condition \<Rightarrow> (nat \<times> error_code \<times> 's) option" where
  "write_buffer_sequence mb write_some s buffers c =
     write_buffer_loop mb write_some c s (consuming_ctor buffers) None"

partial_function (option) read_buffer_loop ::
    "nat \<Rightarrow> 's stream_some \<Rightarrow> condition \<Rightarrow> 's \<Rightarrow> consuming_buffers \<Rightarrow> error_code \<Rightarrow> (nat \<times> error_code \<times> 's) option" where
  "read_buffer_loop mb read_some c s tmp ec =
     (if \<not> cb_empty tmp then
        let max_size = adapt_completion_condition_result (completion_condition c ec (cb_total_consumed tmp)) in
        if max_size \<noteq> 0 then
          (case read_some s (cb_prepare mb tmp max_size) of (n, ec, s) \<Rightarrow>
             read_buffer_loop mb read_some c s (cb_consume tmp n) ec)
        else Some (cb_total_consumed tmp, ec, s)
      else Some (cb_total_consumed tmp, ec, s))"

definition read_buffer_sequence ::
    "nat \<Rightarrow> 's stream_some \<Rightarrow> 's \<Rightarrow> abuf list \<Rightarrow> condition \<Rightarrow> (nat \<times> error_code \<times> 's) option" where
  "read_buffer_sequence mb read_some s buffers c =
     read_buffer_loop mb read_some c s (consuming_ctor buffers) None"

section \<open>The position stands for the rest of the bytes\<close>

definition at_buffer :: "abuf list \<Rightarrow> nat \<Rightarrow> bool" where
  "at_buffer bs off \<longleftrightarrow> (if bs = [] then off = 0 else off \<le> ab_size (hd bs))"

definition cb_ok :: "abuf list \<Rightarrow> consuming_buffers \<Rightarrow> bool" where
  "cb_ok bs c \<longleftrightarrow> cb_buffers c = bs \<and> cb_total_size c = buffer_size bs \<and> cb_total_consumed c \<le> buffer_size bs \<and>
     at_buffer (drop (cb_next_elem c) bs) (cb_next_elem_offset c) \<and>
     drop (cb_next_elem_offset c) (seq_addrs (drop (cb_next_elem c) bs)) = drop (cb_total_consumed c) (seq_addrs bs)"

lemma seq_addrs_append [simp]: "seq_addrs (xs @ ys) = seq_addrs xs @ seq_addrs ys"
  by (simp add: seq_addrs_def)

lemma prepare_loop_prefix:
  "at_buffer bs off \<Longrightarrow> \<exists>k \<le> m. seq_addrs (prepare_loop mb bs off m acc) =
     seq_addrs acc @ take k (drop off (seq_addrs bs)) \<and>
     (0 < m \<longrightarrow> length acc < mb \<longrightarrow> drop off (seq_addrs bs) \<noteq> [] \<longrightarrow> 0 < k)"
proof (induction bs arbitrary: off m acc)
  case Nil
  then show ?case by (subst prepare_loop.simps) (auto simp: at_buffer_def)
next
  case (Cons b bs)
  have off: "off \<le> ab_size b" using Cons.prems by (simp add: at_buffer_def)
  show ?case
  proof (cases "0 < m \<and> length acc < mb")
    case False
    then show ?thesis by (subst prepare_loop.simps) auto
  next
    case True
    let ?e = "buf_limit (buf_plus b off) m"
    let ?acc = "if ab_size ?e > 0 then acc @ [?e] else acc"
    have "at_buffer bs 0" by (simp add: at_buffer_def)
    from Cons.IH [OF this, of "m - ab_size ?e" ?acc] obtain k where k: "k \<le> m - ab_size ?e"
      "seq_addrs (prepare_loop mb bs 0 (m - ab_size ?e) ?acc) = seq_addrs ?acc @ take k (seq_addrs bs)"
      "0 < m - ab_size ?e \<Longrightarrow> length ?acc < mb \<Longrightarrow> seq_addrs bs \<noteq> [] \<Longrightarrow> 0 < k" by auto
    have acc: "seq_addrs ?acc = seq_addrs acc @ take m (drop off (buf_addrs b))"
      by auto
    have st: "prepare_loop mb (b # bs) off m acc = prepare_loop mb bs 0 (m - ab_size ?e) ?acc"
      using True by (subst prepare_loop.simps) (simp add: Let_def)
    show ?thesis
    proof (cases "m \<le> ab_size b - off")
      case le: True
      then have "k = 0" "ab_size ?e = m" using k(1) off by auto
      then have "seq_addrs (prepare_loop mb (b # bs) off m acc) =
          seq_addrs acc @ take m (drop off (seq_addrs (b # bs)))"
        unfolding st k(2) acc using le off by simp
      then show ?thesis using True by blast
    next
      case gt: False
      then have e: "ab_size ?e = ab_size b - off" by simp
      have "seq_addrs (prepare_loop mb (b # bs) off m acc) =
          seq_addrs acc @ take (ab_size b - off + k) (drop off (seq_addrs (b # bs)))"
        unfolding st k(2) acc using gt off by simp
      moreover have "ab_size b - off + k \<le> m" using k(1) gt e by simp
      moreover have "0 < ab_size b - off + k" if "drop off (seq_addrs (b # bs)) \<noteq> []"
        using that k(3) True gt e off by (cases "ab_size b = off") auto
      ultimately show ?thesis by blast
    qed
  qed
qed

lemma consume_loop_position:
  "at_buffer bs off \<Longrightarrow> n \<le> buffer_size bs - off \<Longrightarrow>
   \<exists>j off'. consume_loop bs e off n = (e + j, off') \<and> at_buffer (drop j bs) off' \<and>
     drop off' (seq_addrs (drop j bs)) = drop (off + n) (seq_addrs bs)"
proof (induction bs arbitrary: off n e)
  case Nil
  then show ?case by (subst consume_loop.simps) (auto simp: at_buffer_def intro!: exI [of _ 0])
next
  case (Cons b bs)
  have off: "off \<le> ab_size b" using Cons.prems by (simp add: at_buffer_def)
  consider "n = 0" | "0 < n" "n < ab_size b - off" | "0 < n" "ab_size b - off \<le> n" by linarith
  then show ?case
  proof cases
    case 1
    then show ?thesis using Cons.prems by (subst consume_loop.simps) (auto intro!: exI [of _ 0])
  next
    case 2
    have "consume_loop (b # bs) e off n = (e, off + n)"
      using 2 by (subst consume_loop.simps) (simp add: Let_def, subst consume_loop.simps, simp)
    then show ?thesis using 2 off by (intro exI [of _ 0] exI [of _ "off + n"]) (auto simp: at_buffer_def)
  next
    case 3
    have "at_buffer bs 0" "n - (ab_size b - off) \<le> buffer_size bs - 0"
      using Cons.prems(2) off by (auto simp: at_buffer_def)
    from Cons.IH [OF this, of "e + 1"] obtain j off' where j:
      "consume_loop bs (e + 1) 0 (n - (ab_size b - off)) = (e + 1 + j, off')" "at_buffer (drop j bs) off'"
      "drop off' (seq_addrs (drop j bs)) = drop (0 + (n - (ab_size b - off))) (seq_addrs bs)" by blast
    have "consume_loop (b # bs) e off n = (e + Suc j, off')"
      using 3 j(1) by (subst consume_loop.simps) (simp add: Let_def)
    moreover have "drop (off + n) (seq_addrs (b # bs)) = drop (n - (ab_size b - off)) (seq_addrs bs)"
      using 3 off by (simp add: algebra_simps)
    ultimately show ?thesis using j by (intro exI [of _ "Suc j"] exI [of _ off']) simp
  qed
qed

lemma cb_ok_ctor: "cb_ok bs (consuming_ctor bs)"
  by (auto simp: cb_ok_def consuming_ctor_def at_buffer_def)

lemma cb_consume_ok:
  assumes "cb_ok bs c" "n \<le> buffer_size bs - cb_total_consumed c"
  shows "cb_ok bs (cb_consume c n)" "cb_total_consumed (cb_consume c n) = cb_total_consumed c + n"
proof -
  let ?e = "cb_next_elem c" and ?off = "cb_next_elem_offset c"
  have c: "at_buffer (drop ?e bs) ?off" "drop ?off (seq_addrs (drop ?e bs)) = drop (cb_total_consumed c) (seq_addrs bs)"
    "cb_buffers c = bs" "cb_total_consumed c \<le> buffer_size bs"
    using assms(1) by (auto simp: cb_ok_def)
  have "length (drop ?off (seq_addrs (drop ?e bs))) = buffer_size bs - cb_total_consumed c" unfolding c(2) by simp
  then have "n \<le> buffer_size (drop ?e bs) - ?off" using assms(2) by simp
  from consume_loop_position [OF c(1) this, of ?e] obtain j off' where j:
    "consume_loop (drop ?e bs) ?e ?off n = (?e + j, off')" "at_buffer (drop j (drop ?e bs)) off'"
    "drop off' (seq_addrs (drop j (drop ?e bs))) = drop (?off + n) (seq_addrs (drop ?e bs))" by blast
  have "drop (?off + n) (seq_addrs (drop ?e bs)) = drop (cb_total_consumed c + n) (seq_addrs bs)"
    using arg_cong [OF c(2), of "drop n"] by (simp add: add.commute)
  then show "cb_ok bs (cb_consume c n)" using assms j c
    by (auto simp: cb_ok_def cb_consume_def add.commute)
  show "cb_total_consumed (cb_consume c n) = cb_total_consumed c + n"
    by (simp add: cb_consume_def split: prod.splits)
qed

lemma cb_prepare_prefix:
  assumes "cb_ok bs c"
  shows "\<exists>k \<le> m. seq_addrs (cb_prepare mb c m) = take k (drop (cb_total_consumed c) (seq_addrs bs)) \<and>
    (0 < m \<longrightarrow> 0 < mb \<longrightarrow> cb_total_consumed c < buffer_size bs \<longrightarrow> 0 < k)"
proof -
  have c: "at_buffer (drop (cb_next_elem c) bs) (cb_next_elem_offset c)" "cb_buffers c = bs"
    "drop (cb_next_elem_offset c) (seq_addrs (drop (cb_next_elem c) bs)) = drop (cb_total_consumed c) (seq_addrs bs)"
    using assms by (auto simp: cb_ok_def)
  show ?thesis using prepare_loop_prefix [OF c(1), of m "max_prepared mb" "[]"]
    by (auto simp: cb_prepare_def c(2,3) max_prepared_def split: if_splits)
qed

section \<open>Runs of a composed operation\<close>

text \<open>A run takes the completions of the single transfers, in order, and gives the addresses that were
  transferred and what the handler got, if it was called. A well-behaved stream completes with at most
  the bytes it was offered.\<close>

type_synonym 'op op_call = "'op \<Rightarrow> error_code \<Rightarrow> nat \<Rightarrow> nat \<Rightarrow> 'op \<times> op_action"

fun op_run :: "'op op_call \<Rightarrow> 'op \<Rightarrow> abuf list \<Rightarrow> (error_code \<times> nat) list \<Rightarrow> nat list \<times> (error_code \<times> nat) option" where
  "op_run call op pending [] = ([], None)"
| "op_run call op pending ((ec, n) # cs) =
     (case call op ec n 0 of
        (op', Async_Some bs) \<Rightarrow> (case op_run call op' bs cs of (as, r) \<Rightarrow> (take n (seq_addrs pending) @ as, r))
      | (op', Call_Handler e t) \<Rightarrow> (take n (seq_addrs pending), Some (e, t)))"

fun completions_ok :: "'op op_call \<Rightarrow> 'op \<Rightarrow> abuf list \<Rightarrow> (error_code \<times> nat) list \<Rightarrow> bool" where
  "completions_ok call op pending [] \<longleftrightarrow> True"
| "completions_ok call op pending ((ec, n) # cs) \<longleftrightarrow> n \<le> buffer_size pending \<and>
     (case call op ec n 0 of (op', Async_Some bs) \<Rightarrow> completions_ok call op' bs cs | _ \<Rightarrow> True)"

definition start_op :: "'op op_call \<Rightarrow> 'op \<Rightarrow> 'op \<times> abuf list" where
  "start_op call op = (case call op None 0 1 of (op', Async_Some bs) \<Rightarrow> (op', bs) | (op', _) \<Rightarrow> (op', []))"

definition stops_at :: "condition \<Rightarrow> abuf list \<Rightarrow> (error_code \<times> nat) list \<Rightarrow> error_code \<Rightarrow> nat \<Rightarrow> bool" where
  "stops_at cnd bs cs e t \<longleftrightarrow>
     e \<noteq> None \<or> (None, 0) \<in> set cs \<or> t = buffer_size bs \<or> completion_condition cnd e t = 0"

lemma completion_condition_error [simp]: "completion_condition cnd (Some e) t = 0"
  by (simp add: completion_condition_def split: condition.split)

locale composed_transfer =
  fixes mb :: nat and ctor :: "abuf list \<Rightarrow> condition \<Rightarrow> 'op" and call :: "'op op_call"
    and bufs :: "'op \<Rightarrow> consuming_buffers" and cond :: "'op \<Rightarrow> condition"
  assumes ctor: "bufs (ctor bs c) = consuming_ctor bs" "cond (ctor bs c) = c"
    and first: "call op ec n 1 = (op', act) \<Longrightarrow> bufs op' = bufs op \<and> cond op' = cond op \<and>
      act = Async_Some (cb_prepare mb (bufs op) (completion_condition (cond op) ec (cb_total_consumed (bufs op))))"
    and resumed: "call op ec n 0 = (op', act) \<Longrightarrow> bufs op' = cb_consume (bufs op) n \<and> cond op' = cond op \<and>
      (let t = cb_total_consumed (bufs op'); m = completion_condition (cond op) ec t
       in act = (if ec = None \<and> n = 0 \<or> cb_empty (bufs op') \<or> m = 0 then Call_Handler ec t
                 else Async_Some (cb_prepare mb (bufs op') m)))"
begin

text \<open>One completion of \<open>n\<close> bytes, at most as many as were pending: the position advances by \<open>n\<close>, and the
  operation either calls its handler for one of the reasons to stop or goes on with a prefix of the rest.\<close>

lemma resumed_position:
  assumes c: "call op ec n 0 = (op', act)" and ok: "cb_ok bs (bufs op)"
    and n: "n \<le> buffer_size bs - cb_total_consumed (bufs op)"
  shows "cb_ok bs (bufs op')" "cond op' = cond op" "cb_total_consumed (bufs op') = cb_total_consumed (bufs op) + n"
    "cb_total_consumed (bufs op') \<le> buffer_size bs"
    "cb_empty (bufs op') \<longleftrightarrow> cb_total_consumed (bufs op') = buffer_size bs"
proof -
  show p: "cb_ok bs (bufs op')" "cond op' = cond op" "cb_total_consumed (bufs op') = cb_total_consumed (bufs op) + n"
    using resumed [OF c] cb_consume_ok [OF ok n] by auto
  show "cb_total_consumed (bufs op') \<le> buffer_size bs"
    "cb_empty (bufs op') \<longleftrightarrow> cb_total_consumed (bufs op') = buffer_size bs"
    using p(1) by (auto simp: cb_empty_def cb_ok_def)
qed

lemma resumed_goes_on:
  assumes c: "call op ec n 0 = (op', Async_Some p)" and ok: "cb_ok bs (bufs op)"
    and n: "n \<le> buffer_size bs - cb_total_consumed (bufs op)"
  shows "0 < n" "cb_total_consumed (bufs op) + n < buffer_size bs"
    "\<exists>k. seq_addrs p = take k (drop (cb_total_consumed (bufs op')) (seq_addrs bs))"
proof -
  note pos = resumed_position [OF c ok n]
  define m where "m = completion_condition (cond op) ec (cb_total_consumed (bufs op) + n)"
  have go: "\<not> (ec = None \<and> n = 0)" "\<not> cb_empty (bufs op')" "m \<noteq> 0" "p = cb_prepare mb (bufs op') m"
    using resumed [OF c] pos(2,3) by (auto simp: Let_def m_def split: if_splits)
  then have "ec = None" by (cases ec) (auto simp: m_def)
  then show "0 < n" using go(1) by simp
  show "cb_total_consumed (bufs op) + n < buffer_size bs" using go(2) pos by simp
  show "\<exists>k. seq_addrs p = take k (drop (cb_total_consumed (bufs op')) (seq_addrs bs))"
    using cb_prepare_prefix [OF pos(1), of m mb] go(4) by auto
qed

lemma run_prefix:
  "cb_ok bs (bufs op) \<Longrightarrow> cond op = cnd \<Longrightarrow>
   seq_addrs pending = take k (drop (cb_total_consumed (bufs op)) (seq_addrs bs)) \<Longrightarrow>
   completions_ok call op pending cs \<Longrightarrow> op_run call op pending cs = (as, r) \<Longrightarrow>
   as = take (length as) (drop (cb_total_consumed (bufs op)) (seq_addrs bs)) \<and>
   (case r of None \<Rightarrow> length cs \<le> length as \<and> (cs \<noteq> [] \<longrightarrow> cb_total_consumed (bufs op) + length as < buffer_size bs)
    | Some (e, t) \<Rightarrow> t = cb_total_consumed (bufs op) + length as \<and> stops_at cnd bs cs e t)"
proof (induction cs arbitrary: op pending k as r)
  case Nil
  then show ?case by simp
next
  case (Cons ecn cs)
  obtain ec n where e: "ecn = (ec, n)" by (cases ecn)
  obtain op' act where c: "call op ec n 0 = (op', act)" by fastforce
  let ?t = "cb_total_consumed (bufs op)" and ?all = "seq_addrs bs"
  have "length (seq_addrs pending) \<le> buffer_size bs - ?t" unfolding Cons.prems(3) by simp
  then have n: "n \<le> buffer_size bs - ?t" "n \<le> length (seq_addrs pending)" using Cons.prems(4) e by simp_all
  note pos = resumed_position [OF c Cons.prems(1) n(1), unfolded Cons.prems(2)]
  have tn: "take n (seq_addrs pending) = take n (drop ?t ?all)" "length (take n (seq_addrs pending)) = n"
    using n(2) unfolding Cons.prems(3) by auto
  show ?case
  proof (cases act)
    case (Call_Handler e' t')
    then have "e' = ec \<and> t' = ?t + n \<and> (ec = None \<and> n = 0 \<or> cb_empty (bufs op') \<or> completion_condition cnd ec (?t + n) = 0)"
      using resumed [OF c] pos(2,3) by (auto simp: Let_def split: if_splits)
    then show ?thesis using Cons.prems(5) e c Call_Handler tn pos by (auto simp: stops_at_def)
  next
    case (Async_Some p)
    note go = resumed_goes_on [OF c [unfolded Async_Some] Cons.prems(1) n(1)]
    then obtain k' where k': "seq_addrs p = take k' (drop (cb_total_consumed (bufs op')) ?all)" by blast
    obtain as' where as': "op_run call op' p cs = (as', r)" "as = take n (seq_addrs pending) @ as'"
      using Cons.prems(5) e c Async_Some by (auto split: prod.splits)
    have "completions_ok call op' p cs" using Cons.prems(4) e c Async_Some by simp
    note ih = Cons.IH [OF pos(1,2) k' this as'(1), unfolded pos(3)]
    have "as = take (length as) (drop ?t ?all)"
      using ih pos(3,4) tn by (simp add: as'(2) take_add add.commute)
    moreover have "length as = n + length as'" using tn(2) by (simp add: as'(2))
    moreover have "cs = [] \<Longrightarrow> as' = []" using as'(1) by simp
    ultimately show ?thesis using ih go(1,2) by (cases r; cases "cs = []") (auto simp: stops_at_def)
  qed
qed

lemma run_delivers:
  assumes "start_op call (ctor bs cnd) = (op, pending)" "completions_ok call op pending cs"
    and "op_run call op pending cs = (as, r)"
  shows "as = take (length as) (seq_addrs bs) \<and>
    (case r of None \<Rightarrow> length cs \<le> length as \<and> (cs \<noteq> [] \<longrightarrow> length as < buffer_size bs)
     | Some (e, t) \<Rightarrow> t = length as \<and> stops_at cnd bs cs e t)"
proof -
  obtain op' act where c: "call (ctor bs cnd) None 0 1 = (op', act)" by fastforce
  note f = first [OF c]
  have op: "op' = op" "act = Async_Some pending" using assms(1) c f by (auto simp: start_op_def)
  then have ok: "cb_ok bs (bufs op)" "cond op = cnd" "cb_total_consumed (bufs op) = 0"
    using f ctor cb_ok_ctor [of bs] by (auto simp: consuming_ctor_def)
  obtain k where "seq_addrs pending = take k (drop (cb_total_consumed (bufs op)) (seq_addrs bs))"
    using f op ctor cb_prepare_prefix [OF ok(1)] by (metis op_action.inject(1))
  from run_prefix [OF ok(1,2) this assms(2,3)] show ?thesis unfolding ok(3) add_0 drop_0 .
qed

end

interpretation wr: composed_transfer mb write_op_ctor "write_op_call mb" wo_buffers wo_condition
  by unfold_locales
     (auto simp: write_op_ctor_def write_op_call_def Let_def check_for_completion_def
       adapt_completion_condition_result_def split: if_splits)

interpretation rd: composed_transfer mb read_op_ctor "read_op_call mb" ro_buffers ro_condition
  by unfold_locales
     (auto simp: read_op_ctor_def read_op_call_def Let_def check_for_completion_def
       adapt_completion_condition_result_def split: if_splits)

section \<open>The synchronous loops end when the stream makes progress\<close>

definition progressing :: "'s stream_some \<Rightarrow> bool" where
  "progressing some \<longleftrightarrow> (\<forall>s bs n ec s'. some s bs = (n, ec, s') \<longrightarrow>
     n \<le> buffer_size bs \<and> (0 < buffer_size bs \<longrightarrow> 0 < n \<or> ec \<noteq> None))"

lemma write_loop_returns:
  assumes pr: "progressing some" and mb: "0 < mb"
  shows "cb_ok bs c \<Longrightarrow> \<exists>t e s'. write_buffer_loop mb some cnd s c ec = Some (t, e, s') \<and>
    cb_total_consumed c \<le> t \<and> t \<le> buffer_size bs \<and> (t = buffer_size bs \<or> completion_condition cnd e t = 0)"
proof (induction "(buffer_size bs - cb_total_consumed c) + (if ec = None then 1 else 0 :: nat)"
    arbitrary: c s ec rule: less_induct)
  case less
  let ?t = "cb_total_consumed c"
  define m where "m = completion_condition cnd ec ?t"
  have c: "cb_total_size c = buffer_size bs" "?t \<le> buffer_size bs" using less.prems by (auto simp: cb_ok_def)
  show ?case
  proof (cases "cb_empty c \<or> m = 0")
    case True
    then show ?thesis using c
      by (subst write_buffer_loop.simps) (auto simp: cb_empty_def adapt_completion_condition_result_def m_def)
  next
    case False
    then have m: "0 < m" "?t < buffer_size bs" "ec = None" using c
      by (auto simp: cb_empty_def m_def) (metis completion_condition_error not_None_eq less_irrefl)
    obtain k where k: "k \<le> m" "seq_addrs (cb_prepare mb c m) = take k (drop ?t (seq_addrs bs))" "0 < k"
      using cb_prepare_prefix [OF less.prems, of m mb] m mb by auto
    have len: "buffer_size (cb_prepare mb c m) = min k (buffer_size bs - ?t)"
      using arg_cong [OF k(2), of length] by simp
    obtain n e s' where some: "some s (cb_prepare mb c m) = (n, e, s')" by (metis prod_cases3)
    have n: "n \<le> buffer_size bs - ?t" "0 < n \<or> e \<noteq> None" using pr some len k(3) m(2)
      unfolding progressing_def by (metis min.bounded_iff, metis min_less_iff_conj zero_less_diff)
    note cs = cb_consume_ok [OF less.prems n(1)]
    have "write_buffer_loop mb some cnd s c ec = write_buffer_loop mb some cnd s' (cb_consume c n) e"
      using False some by (subst write_buffer_loop.simps)
        (simp add: m_def adapt_completion_condition_result_def)
    moreover have "buffer_size bs - cb_total_consumed (cb_consume c n) + (if e = None then 1 else 0 :: nat) <
        buffer_size bs - ?t + (if ec = None then 1 else 0)"
      using n m cs(2) by auto
    ultimately show ?thesis using less.hyps [OF _ cs(1), of e s'] cs(2) by fastforce
  qed
qed

text \<open>The two loops are the same program.\<close>

lemma read_loop_as_write:
  "write_buffer_loop mb some cnd s c ec = Some r \<Longrightarrow> read_buffer_loop mb some cnd s c ec = Some r"
proof (induction rule: write_buffer_loop.raw_induct [rotated 1, consumes 1])
  case (1 loop mb some cnd s c ec r)
  then show ?case
    by (subst read_buffer_loop.simps) (auto simp: Let_def split: if_splits prod.splits)
qed

section \<open>Exact preparation, and the specialised positions\<close>

lemma prepare_loop_exact:
  "at_buffer bs off \<Longrightarrow> length acc + length bs \<le> mb \<Longrightarrow>
   seq_addrs (prepare_loop mb bs off m acc) = seq_addrs acc @ take m (drop off (seq_addrs bs))"
proof (induction bs arbitrary: off m acc)
  case Nil
  then show ?case by (subst prepare_loop.simps) (auto simp: at_buffer_def)
next
  case (Cons b bs)
  have off: "off \<le> ab_size b" using Cons.prems by (simp add: at_buffer_def)
  let ?e = "buf_limit (buf_plus b off) m"
  let ?acc = "if ab_size ?e > 0 then acc @ [?e] else acc"
  have acc: "seq_addrs ?acc = seq_addrs acc @ take m (drop off (buf_addrs b))" by auto
  have "at_buffer bs 0" "length ?acc + length bs \<le> mb" using Cons.prems(2) by (auto simp: at_buffer_def)
  note ih = Cons.IH [OF this, of "m - ab_size ?e"]
  show ?case
  proof (cases "m = 0")
    case True
    then show ?thesis by (subst prepare_loop.simps) simp
  next
    case False
    have "prepare_loop mb (b # bs) off m acc = prepare_loop mb bs 0 (m - ab_size ?e) ?acc"
      using False Cons.prems(2) by (subst prepare_loop.simps) (simp add: Let_def)
    then show ?thesis using ih acc off by (simp add: min_def)
  qed
qed

lemma cb_prepare_exact:
  assumes "cb_ok bs c" "length bs \<le> max_prepared mb"
  shows "seq_addrs (cb_prepare mb c m) = take m (drop (cb_total_consumed c) (seq_addrs bs))"
proof -
  have c: "at_buffer (drop (cb_next_elem c) bs) (cb_next_elem_offset c)" "cb_buffers c = bs"
    "drop (cb_next_elem_offset c) (seq_addrs (drop (cb_next_elem c) bs)) = drop (cb_total_consumed c) (seq_addrs bs)"
    using assms(1) by (auto simp: cb_ok_def)
  show ?thesis using prepare_loop_exact [OF c(1), of "[]" "max_prepared mb" m] assms(2)
    by (simp add: cb_prepare_def c(2,3))
qed

lemma consume_all:
  "cb_ok bs c \<Longrightarrow> cb_total_consumed c + sum_list ns \<le> buffer_size bs \<Longrightarrow>
   cb_ok bs (foldl cb_consume c ns) \<and> cb_total_consumed (foldl cb_consume c ns) = cb_total_consumed c + sum_list ns"
proof (induction ns arbitrary: c)
  case (Cons n ns)
  have "n \<le> buffer_size bs - cb_total_consumed c" using Cons.prems(2) by simp
  note ok = cb_consume_ok [OF Cons.prems(1) this]
  have "cb_total_consumed (cb_consume c n) + sum_list ns \<le> buffer_size bs" using Cons.prems(2) ok(2) by simp
  from Cons.IH [OF ok(1) this] show ?case using ok(2) by simp
qed simp

lemma single_consume_all:
  "foldl sb_consume c ns = c\<lparr>sb_total_consumed := sb_total_consumed c + sum_list ns\<rparr>"
  by (induction ns arbitrary: c) (simp_all add: sb_consume_def add.assoc)

lemma pair_consume_all:
  "foldl pb_consume c ns = c\<lparr>pb_total_consumed := pb_total_consumed c + sum_list ns\<rparr>"
  by (induction ns arbitrary: c) (simp_all add: pb_consume_def add.assoc)

lemma pb_prepare_addrs:
  "pb_prepare p m = (r0, r1) \<Longrightarrow> buf_addrs r0 @ buf_addrs r1 =
     take m (drop (pb_total_consumed p) (buf_addrs (pb_fst p) @ buf_addrs (pb_snd p)))"
  by (auto simp: pb_prepare_def Let_def min_def split: if_splits)

section \<open>Properties of composed transfers\<close>



text \<open>The synchronous \<open>write\<close> returns for every stream that, offered at least one byte, transfers a byte
  or reports an error; it then returns at most the size of the buffers, and less only on an error or when
  the completion condition holds. The synchronous \<open>read\<close> returns the same result on the same stream.\<close>

theorem sync_transfer_returns:
  assumes "progressing some" and "0 < mb"
  shows "\<exists>t e s'. write_buffer_sequence mb some s bs cnd = Some (t, e, s') \<and>
    read_buffer_sequence mb some s bs cnd = Some (t, e, s') \<and>
    t \<le> buffer_size bs \<and> (t = buffer_size bs \<or> completion_condition cnd e t = 0)"
proof -
  obtain t e s' where w: "write_buffer_loop mb some cnd s (consuming_ctor bs) None = Some (t, e, s')"
    "t \<le> buffer_size bs" "t = buffer_size bs \<or> completion_condition cnd e t = 0"
    using write_loop_returns [OF assms cb_ok_ctor [of bs], of cnd s None] by blast
  then show ?thesis using read_loop_as_write [OF w(1)]
    by (simp add: write_buffer_sequence_def read_buffer_sequence_def)
qed

definition whole_stream :: "unit stream_some" where
  "whole_stream s bs = (buffer_size bs, None, s)"

theorem sync_transfer_returns_witness:
  "progressing whole_stream \<and>
   (\<exists>t e s'. write_buffer_sequence 64 whole_stream () [mk_buf 0 3] Transfer_All = Some (t, e, s') \<and> t \<le> 3)"
proof -
  have p: "progressing whole_stream" by (simp add: progressing_def whole_stream_def)
  show ?thesis using p sync_transfer_returns [OF p, of 64 "()" "[mk_buf 0 3]" Transfer_All]
    by (auto simp: mk_buf_def)
qed

text \<open>The specialised position for a single buffer and for an array of two behave as the general one. For
  every sequence of amounts consumed, each at most what was left, the three agree on being empty, and
  the buffers they prepare cover the same bytes.\<close>

theorem consuming_specialisations_agree:
  assumes "sum_list ns \<le> ab_size b0" and "2 \<le> mb"
  shows "let c1 = foldl cb_consume (consuming_ctor [b0]) ns; s = foldl sb_consume (single_ctor b0) ns;
      c2 = foldl cb_consume (consuming_ctor [b0, b1]) ns'; p = foldl pb_consume (pair_ctor b0 b1) ns'
    in (sb_empty s \<longleftrightarrow> cb_empty c1) \<and> sb_total_consumed s = cb_total_consumed c1 \<and>
       buf_addrs (sb_prepare s m) = seq_addrs (cb_prepare mb c1 m) \<and>
       (sum_list ns' \<le> ab_size b0 + ab_size b1 \<longrightarrow>
        (pb_empty p \<longleftrightarrow> cb_empty c2) \<and> pb_total_consumed p = cb_total_consumed c2 \<and>
        seq_addrs [fst (pb_prepare p m), snd (pb_prepare p m)] = seq_addrs (cb_prepare mb c2 m))"
proof -
  have mp: "length [b0] \<le> max_prepared mb" "length [b0, b1] \<le> max_prepared mb"
    using assms(2) by (simp_all add: max_prepared_def)
  let ?c1 = "foldl cb_consume (consuming_ctor [b0]) ns" and ?c2 = "foldl cb_consume (consuming_ctor [b0, b1]) ns'"
  let ?p = "foldl pb_consume (pair_ctor b0 b1) ns'"
  have c1: "cb_ok [b0] ?c1" "cb_total_consumed ?c1 = sum_list ns"
    using consume_all [OF cb_ok_ctor, of "[b0]" ns] assms(1) by (simp_all add: consuming_ctor_def)
  have one: "(sb_empty (foldl sb_consume (single_ctor b0) ns) \<longleftrightarrow> cb_empty ?c1) \<and>
      sb_total_consumed (foldl sb_consume (single_ctor b0) ns) = cb_total_consumed ?c1 \<and>
      buf_addrs (sb_prepare (foldl sb_consume (single_ctor b0) ns) m) = seq_addrs (cb_prepare mb ?c1 m)"
    using c1 cb_prepare_exact [OF c1(1) mp(1), of m]
    by (simp add: single_consume_all single_ctor_def sb_empty_def sb_prepare_def cb_empty_def cb_ok_def)
  have two: "(pb_empty ?p \<longleftrightarrow> cb_empty ?c2) \<and> pb_total_consumed ?p = cb_total_consumed ?c2 \<and>
      seq_addrs [fst (pb_prepare ?p m), snd (pb_prepare ?p m)] = seq_addrs (cb_prepare mb ?c2 m)"
    if s: "sum_list ns' \<le> ab_size b0 + ab_size b1"
  proof -
    have c2: "cb_ok [b0, b1] ?c2" "cb_total_consumed ?c2 = sum_list ns'"
      using consume_all [OF cb_ok_ctor, of "[b0, b1]" ns'] s by (simp_all add: consuming_ctor_def)
    show ?thesis
      using c2 cb_prepare_exact [OF c2(1) mp(2), of m] pb_prepare_addrs [of ?p m, OF prod.collapse [symmetric]]
      by (simp add: pair_consume_all pair_ctor_def pb_empty_def cb_empty_def cb_ok_def)
  qed
  show ?thesis unfolding Let_def using one two by blast
qed

theorem consuming_specialisations_agree_witness:
  "buf_addrs (sb_prepare (foldl sb_consume (single_ctor (mk_buf 5 4)) [1, 2]) 9) =
     seq_addrs (cb_prepare 64 (foldl cb_consume (consuming_ctor [mk_buf 5 4]) [1, 2]) 9)"
  using consuming_specialisations_agree [of "[1, 2]" "mk_buf 5 4" 64 "mk_buf 0 0" "[]" 9]
  by (simp add: mk_buf_def Let_def)

end
