(* ===== verification/Asio_Buffered_Stream.thy ===== *)
theory Asio_Buffered_Stream
  imports Asio_Transfer
begin

text \<open>
  The buffered streams of asio: \<open>src/3rd/asio/include/asio/detail/buffered_stream_storage.hpp\<close>,
  \<open>detail/buffer_resize_guard.hpp\<close>, \<open>impl/buffered_read_stream.hpp\<close> and \<open>impl/buffered_write_stream.hpp\<close>. The storage is
  an interval of the memory of bytes that also holds the user's buffers. The next layer is a parameter: one call of its \<open>read_some\<close> or
  \<open>write_some\<close> on its state, with the memory. A failed assertion is \<open>None\<close>; where a function throws, the result is \<open>Inl\<close> the error.
\<close>

section \<open>The storage\<close>

record storage =
  bss_base :: nat
  bss_capacity :: nat
  bss_begin :: nat
  bss_end :: nat

definition buffered_stream_storage :: "nat \<Rightarrow> nat \<Rightarrow> storage" where
  "buffered_stream_storage base buffer_capacity =
     \<lparr> bss_base = base, bss_capacity = buffer_capacity, bss_begin = 0, bss_end = 0 \<rparr>"

definition bss_clear :: "storage \<Rightarrow> storage" where
  "bss_clear g = g\<lparr>bss_begin := 0, bss_end := 0\<rparr>"

definition bss_data :: "storage \<Rightarrow> abuf" where
  "bss_data g = buf_plus (mk_buf (bss_base g) (bss_capacity g)) (bss_begin g)"

definition bss_empty :: "storage \<Rightarrow> bool" where
  "bss_empty g \<longleftrightarrow> bss_begin g = bss_end g"

definition bss_size :: "storage \<Rightarrow> nat" where
  "bss_size g = bss_end g - bss_begin g"

text \<open>\<open>memmove\<close> reads the bytes before it writes any, as \<open>memcpy\<close> of the memory model does.\<close>

definition bss_resize :: "nat \<Rightarrow> storage \<Rightarrow> 'b memory \<Rightarrow> (storage \<times> 'b memory) option" where
  "bss_resize n g mem =
     (if n \<le> bss_capacity g then
        if bss_begin g + n \<le> bss_capacity g then Some (g\<lparr>bss_end := bss_begin g + n\<rparr>, mem)
        else Some (g\<lparr>bss_end := n, bss_begin := 0\<rparr>, memcpy mem (bss_base g) (bss_base g + bss_begin g) (bss_size g))
      else None)"

definition bss_consume :: "nat \<Rightarrow> storage \<Rightarrow> storage option" where
  "bss_consume count g =
     (if bss_begin g + count \<le> bss_end g then
        let g = g\<lparr>bss_begin := bss_begin g + count\<rparr> in Some (if bss_empty g then bss_clear g else g)
      else None)"

section \<open>The stream\<close>

record ('b, 't) buffered =
  bf_storage :: storage
  bf_memory :: "'b memory"
  bf_next :: 't

type_synonym ('b, 't) layer = "('b memory \<times> 't) stream_some"

definition bf_resize :: "nat \<Rightarrow> ('b, 't) buffered \<Rightarrow> ('b, 't) buffered option" where
  "bf_resize n b =
     map_option (\<lambda>(g, mem). b\<lparr>bf_storage := g, bf_memory := mem\<rparr>) (bss_resize n (bf_storage b) (bf_memory b))"

definition bf_consume :: "nat \<Rightarrow> ('b, 't) buffered \<Rightarrow> ('b, 't) buffered option" where
  "bf_consume count b = map_option (\<lambda>g. b\<lparr>bf_storage := g\<rparr>) (bss_consume count (bf_storage b))"

definition bf_call :: "('b, 't) layer \<Rightarrow> abuf list \<Rightarrow> ('b, 't) buffered \<Rightarrow> nat \<times> error_code \<times> ('b, 't) buffered" where
  "bf_call some bs b = (case some (bf_memory b, bf_next b) bs of (n, ec, mem, t) \<Rightarrow> (n, ec, b\<lparr>bf_memory := mem, bf_next := t\<rparr>))"

section \<open>Reading\<close>

text \<open>The space behind the data, offered to the next layer.\<close>

definition fill_space :: "nat \<Rightarrow> ('b, 't) buffered \<Rightarrow> abuf" where
  "fill_space previous_size b =
     buf_limit (buf_plus (bss_data (bf_storage b)) previous_size) (bss_size (bf_storage b) - previous_size)"

definition bf_fill_ec :: "('b, 't) layer \<Rightarrow> ('b, 't) buffered \<Rightarrow> (nat \<times> error_code \<times> ('b, 't) buffered) option" where
  "bf_fill_ec next b =
     (let previous_size = bss_size (bf_storage b) in
      case bf_resize (bss_capacity (bf_storage b)) b of
        None \<Rightarrow> None
      | Some b \<Rightarrow>
          (case bf_call next [fill_space previous_size b] b of (n, ec, b) \<Rightarrow>
             map_option (\<lambda>b. (bss_size (bf_storage b) - previous_size, ec, b)) (bf_resize (previous_size + n) b)))"

text \<open>The function that throws: when the next layer does, the guard restores the old size.\<close>

definition bf_fill :: "('b, 't) layer \<Rightarrow> ('b, 't) buffered \<Rightarrow> ((error_value + nat) \<times> ('b, 't) buffered) option" where
  "bf_fill next b =
     (let previous_size = bss_size (bf_storage b); old_size = previous_size in
      case bf_resize (bss_capacity (bf_storage b)) b of
        None \<Rightarrow> None
      | Some b \<Rightarrow>
          (case bf_call next [fill_space previous_size b] b of (n, ec, b) \<Rightarrow>
             (case ec of
                Some e \<Rightarrow> map_option (\<lambda>b. (Inl e, b)) (bf_resize old_size b)
              | None \<Rightarrow> map_option (\<lambda>b. (Inr (bss_size (bf_storage b) - previous_size), b)) (bf_resize (previous_size + n) b))))"

definition peek_copy :: "abuf list \<Rightarrow> ('b, 't) buffered \<Rightarrow> nat \<times> ('b, 't) buffered" where
  "peek_copy buffers b =
     (case copy_multi_one (bf_memory b) buffers (bss_data (bf_storage b)) (bss_size (bf_storage b)) of
        (mem, n) \<Rightarrow> (n, b\<lparr>bf_memory := mem\<rparr>))"

definition read_copy :: "abuf list \<Rightarrow> ('b, 't) buffered \<Rightarrow> (nat \<times> ('b, 't) buffered) option" where
  "read_copy buffers b =
     (case peek_copy buffers b of (n, b) \<Rightarrow> map_option (\<lambda>b. (n, b)) (bf_consume n b))"

definition bf_read_some_ec ::
    "('b, 't) layer \<Rightarrow> abuf list \<Rightarrow> ('b, 't) buffered \<Rightarrow> (nat \<times> error_code \<times> ('b, 't) buffered) option" where
  "bf_read_some_ec next buffers b =
     (if buffer_size buffers = 0 then Some (0, None, b)
      else if bss_empty (bf_storage b) then
        (case bf_fill_ec next b of
           None \<Rightarrow> None
         | Some (n, ec, b) \<Rightarrow>
             if n = 0 then Some (0, ec, b) else map_option (\<lambda>(n, b). (n, ec, b)) (read_copy buffers b))
      else map_option (\<lambda>(n, b). (n, None, b)) (read_copy buffers b))"

definition bf_read_some ::
    "('b, 't) layer \<Rightarrow> abuf list \<Rightarrow> ('b, 't) buffered \<Rightarrow> ((error_value + nat) \<times> ('b, 't) buffered) option" where
  "bf_read_some next buffers b =
     (if buffer_size buffers = 0 then Some (Inr 0, b)
      else if bss_empty (bf_storage b) then
        (case bf_fill next b of
           None \<Rightarrow> None
         | Some (Inl e, b) \<Rightarrow> Some (Inl e, b)
         | Some (Inr n, b) \<Rightarrow> map_option (\<lambda>(n, b). (Inr n, b)) (read_copy buffers b))
      else map_option (\<lambda>(n, b). (Inr n, b)) (read_copy buffers b))"

definition bf_peek_ec ::
    "('b, 't) layer \<Rightarrow> abuf list \<Rightarrow> ('b, 't) buffered \<Rightarrow> (nat \<times> error_code \<times> ('b, 't) buffered) option" where
  "bf_peek_ec next buffers b =
     (if bss_empty (bf_storage b) then
        (case bf_fill_ec next b of
           None \<Rightarrow> None
         | Some (n, ec, b) \<Rightarrow>
             if n = 0 then Some (0, ec, b) else (case peek_copy buffers b of (n, b) \<Rightarrow> Some (n, ec, b)))
      else (case peek_copy buffers b of (n, b) \<Rightarrow> Some (n, None, b)))"

definition bf_in_avail :: "('b, 't) buffered \<Rightarrow> nat" where
  "bf_in_avail b = bss_size (bf_storage b)"

text \<open>\<open>async_fill\<close>: the space that is passed to the \<open>async_read_some\<close> of the next layer, with the size before; and the handler.\<close>

definition async_fill_start :: "('b, 't) buffered \<Rightarrow> (nat \<times> abuf \<times> ('b, 't) buffered) option" where
  "async_fill_start b =
     (let previous_size = bss_size (bf_storage b) in
      map_option (\<lambda>b. (previous_size, fill_space previous_size b, b)) (bf_resize (bss_capacity (bf_storage b)) b))"

definition buffered_fill_handler :: "nat \<Rightarrow> nat \<Rightarrow> ('b, 't) buffered \<Rightarrow> ('b, 't) buffered option" where
  "buffered_fill_handler previous_size bytes_transferred b = bf_resize (previous_size + bytes_transferred) b"

definition buffered_read_some_handler ::
    "abuf list \<Rightarrow> error_code \<Rightarrow> ('b, 't) buffered \<Rightarrow> (nat \<times> ('b, 't) buffered) option" where
  "buffered_read_some_handler buffers ec b =
     (if ec \<noteq> None \<or> bss_empty (bf_storage b) then Some (0, b) else read_copy buffers b)"

text \<open>\<open>async_read_some\<close> from its start to its handler, when nothing else uses the stream. With data in the storage or no room in the buffers
  the next layer reads into an empty buffer, which it completes at once.\<close>

definition bf_async_read_some ::
    "('b, 't) layer \<Rightarrow> abuf list \<Rightarrow> ('b, 't) buffered \<Rightarrow> (nat \<times> error_code \<times> ('b, 't) buffered) option" where
  "bf_async_read_some next buffers b =
     (if buffer_size buffers = 0 \<or> \<not> bss_empty (bf_storage b) then
        (case bf_call next [mk_buf 0 0] b of (n, ec, b) \<Rightarrow>
           map_option (\<lambda>(n, b). (n, ec, b)) (buffered_read_some_handler buffers ec b))
      else
        (case async_fill_start b of
           None \<Rightarrow> None
         | Some (previous_size, space, b) \<Rightarrow>
             (case bf_call next [space] b of (n, ec, b) \<Rightarrow>
                (case buffered_fill_handler previous_size n b of
                   None \<Rightarrow> None
                 | Some b \<Rightarrow> map_option (\<lambda>(n, b). (n, ec, b)) (buffered_read_some_handler buffers ec b)))))"

section \<open>Writing\<close>

definition bf_flush_ec :: "nat \<Rightarrow> ('b, 't) layer \<Rightarrow> ('b, 't) buffered \<Rightarrow> (nat \<times> error_code \<times> ('b, 't) buffered) option" where
  "bf_flush_ec mb next b =
     (case write_buffer_sequence mb next (bf_memory b, bf_next b) [buf_limit (bss_data (bf_storage b)) (bss_size (bf_storage b))] Transfer_All of
        None \<Rightarrow> None
      | Some (n, ec, mem, t) \<Rightarrow> map_option (\<lambda>b. (n, ec, b)) (bf_consume n (b\<lparr>bf_memory := mem, bf_next := t\<rparr>)))"

definition bf_flush :: "nat \<Rightarrow> ('b, 't) layer \<Rightarrow> ('b, 't) buffered \<Rightarrow> ((error_value + nat) \<times> ('b, 't) buffered) option" where
  "bf_flush mb next b =
     (case write_buffer_sequence mb next (bf_memory b, bf_next b) [buf_limit (bss_data (bf_storage b)) (bss_size (bf_storage b))] Transfer_All of
        None \<Rightarrow> None
      | Some (n, ec, mem, t) \<Rightarrow>
          let b = b\<lparr>bf_memory := mem, bf_next := t\<rparr> in
          (case ec of Some e \<Rightarrow> Some (Inl e, b) | None \<Rightarrow> map_option (\<lambda>b. (Inr n, b)) (bf_consume n b)))"

definition write_copy :: "abuf list \<Rightarrow> ('b, 't) buffered \<Rightarrow> (nat \<times> ('b, 't) buffered) option" where
  "write_copy buffers b =
     (let orig_size = bss_size (bf_storage b);
          space_avail = bss_capacity (bf_storage b) - orig_size;
          bytes_avail = buffer_size buffers;
          n = (if bytes_avail < space_avail then bytes_avail else space_avail)
      in (case bf_resize (orig_size + n) b of
            None \<Rightarrow> None
          | Some b \<Rightarrow>
              (case copy_one_multi (bf_memory b) (buf_plus (bss_data (bf_storage b)) orig_size) buffers n of
                 (mem, n) \<Rightarrow> Some (n, b\<lparr>bf_memory := mem\<rparr>))))"

definition bf_write_some_ec ::
    "nat \<Rightarrow> ('b, 't) layer \<Rightarrow> abuf list \<Rightarrow> ('b, 't) buffered \<Rightarrow> (nat \<times> error_code \<times> ('b, 't) buffered) option" where
  "bf_write_some_ec mb next buffers b =
     (if buffer_size buffers = 0 then Some (0, None, b)
      else if bss_size (bf_storage b) = bss_capacity (bf_storage b) then
        (case bf_flush_ec mb next b of
           None \<Rightarrow> None
         | Some (n, ec, b) \<Rightarrow>
             if n = 0 then Some (0, ec, b) else map_option (\<lambda>(n, b). (n, ec, b)) (write_copy buffers b))
      else map_option (\<lambda>(n, b). (n, None, b)) (write_copy buffers b))"

definition bf_write_some ::
    "nat \<Rightarrow> ('b, 't) layer \<Rightarrow> abuf list \<Rightarrow> ('b, 't) buffered \<Rightarrow> ((error_value + nat) \<times> ('b, 't) buffered) option" where
  "bf_write_some mb next buffers b =
     (if buffer_size buffers = 0 then Some (Inr 0, b)
      else if bss_size (bf_storage b) = bss_capacity (bf_storage b) then
        (case bf_flush mb next b of
           None \<Rightarrow> None
         | Some (Inl e, b) \<Rightarrow> Some (Inl e, b)
         | Some (Inr n, b) \<Rightarrow> map_option (\<lambda>(n, b). (Inr n, b)) (write_copy buffers b))
      else map_option (\<lambda>(n, b). (Inr n, b)) (write_copy buffers b))"

text \<open>The handlers of \<open>async_flush\<close> and \<open>async_write_some\<close>, and \<open>async_write_some\<close> from its start to its handler.\<close>

definition buffered_flush_handler :: "nat \<Rightarrow> ('b, 't) buffered \<Rightarrow> ('b, 't) buffered option" where
  "buffered_flush_handler bytes_written b = bf_consume bytes_written b"

definition buffered_write_some_handler ::
    "abuf list \<Rightarrow> error_code \<Rightarrow> ('b, 't) buffered \<Rightarrow> (nat \<times> ('b, 't) buffered) option" where
  "buffered_write_some_handler buffers ec b = (if ec \<noteq> None then Some (0, b) else write_copy buffers b)"

text \<open>\<open>async_write_some\<close> from its start to its handler, when nothing else uses the stream.\<close>

definition bf_async_write_some ::
    "nat \<Rightarrow> ('b, 't) layer \<Rightarrow> abuf list \<Rightarrow> ('b, 't) buffered \<Rightarrow> (nat \<times> error_code \<times> ('b, 't) buffered) option" where
  "bf_async_write_some mb next buffers b =
     (if buffer_size buffers = 0 \<or> bss_size (bf_storage b) < bss_capacity (bf_storage b) then
        (case bf_call next [mk_buf 0 0] b of (n, ec, b) \<Rightarrow>
           map_option (\<lambda>(n, b). (n, ec, b)) (buffered_write_some_handler buffers ec b))
      else
        (case write_buffer_sequence mb next (bf_memory b, bf_next b) [buf_limit (bss_data (bf_storage b)) (bss_size (bf_storage b))] Transfer_All of
           None \<Rightarrow> None
         | Some (n, ec, mem, t) \<Rightarrow>
             (case buffered_flush_handler n (b\<lparr>bf_memory := mem, bf_next := t\<rparr>) of
                None \<Rightarrow> None
              | Some b \<Rightarrow> map_option (\<lambda>(n, b). (n, ec, b)) (buffered_write_some_handler buffers ec b))))"

section \<open>The contents of the storage\<close>

definition bss_ok :: "storage \<Rightarrow> bool" where
  "bss_ok g \<longleftrightarrow> bss_begin g \<le> bss_end g \<and> bss_end g \<le> bss_capacity g"

definition region :: "storage \<Rightarrow> nat set" where
  "region g = {bss_base g ..< bss_base g + bss_capacity g}"

definition stored :: "('b, 't) buffered \<Rightarrow> 'b list" where
  "stored b = map (bf_memory b) [bss_base (bf_storage b) + bss_begin (bf_storage b) ..< bss_base (bf_storage b) + bss_end (bf_storage b)]"

definition same_place :: "storage \<Rightarrow> storage \<Rightarrow> bool" where
  "same_place g h \<longleftrightarrow> bss_base g = bss_base h \<and> bss_capacity g = bss_capacity h"

lemma same_place_refl [simp]: "same_place g g" by (simp add: same_place_def)

lemma same_place_region: "same_place g h \<Longrightarrow> region g = region h" by (simp add: same_place_def region_def)

lemma stored_length [simp]: "length (stored b) = bss_size (bf_storage b)"
  by (auto simp: stored_def bss_size_def)

lemma size_le_capacity: "bss_ok g \<Longrightarrow> bss_size g \<le> bss_capacity g" by (auto simp: bss_ok_def bss_size_def)

lemma take_from: "take m [i ..< i + k] = [i ..< i + min m k]"
  by (cases "m \<le> k") (simp_all add: take_upt min_def)

lemma stored_eq:
  "bss_ok (bf_storage b) \<Longrightarrow> stored b = map (bf_memory b)
     [bss_base (bf_storage b) + bss_begin (bf_storage b) ..< bss_base (bf_storage b) + bss_begin (bf_storage b) + bss_size (bf_storage b)]"
  by (simp add: stored_def bss_size_def bss_ok_def)

lemma empty_stored: "bss_ok (bf_storage b) \<Longrightarrow> bss_empty (bf_storage b) \<longleftrightarrow> stored b = []"
  by (auto simp: bss_empty_def stored_def bss_ok_def)

lemma bf_resize_ok:
  assumes "bss_ok (bf_storage b)" "n \<le> bss_capacity (bf_storage b)"
  shows "\<exists>b'. bf_resize n b = Some b' \<and> bss_ok (bf_storage b') \<and> same_place (bf_storage b') (bf_storage b) \<and> bf_next b' = bf_next b \<and>
    bss_size (bf_storage b') = n \<and> take (bss_size (bf_storage b)) (stored b') = take n (stored b) \<and>
    (\<forall>a. a \<notin> region (bf_storage b) \<longrightarrow> bf_memory b' a = bf_memory b a)"
proof (cases "bss_begin (bf_storage b) + n \<le> bss_capacity (bf_storage b)")
  case True
  let ?b = "b\<lparr>bf_storage := (bf_storage b)\<lparr>bss_end := bss_begin (bf_storage b) + n\<rparr>\<rparr>"
  have "bf_resize n b = Some ?b" using True assms by (simp add: bf_resize_def bss_resize_def)
  moreover have "bss_ok (bf_storage ?b)" using True by (simp add: bss_ok_def)
  then have "take (bss_size (bf_storage b)) (stored ?b) = take n (stored b)"
    unfolding stored_eq [OF assms(1)] by (simp add: stored_eq take_map take_from min.commute bss_size_def)
  ultimately show ?thesis using True assms by (simp add: bss_ok_def bss_size_def same_place_def)
next
  case False
  let ?g = "bf_storage b"
  let ?m = "memcpy (bf_memory b) (bss_base ?g) (bss_base ?g + bss_begin ?g) (bss_size ?g)"
  let ?b = "b\<lparr>bf_storage := ?g\<lparr>bss_end := n, bss_begin := 0\<rparr>, bf_memory := ?m\<rparr>"
  have r: "bf_resize n b = Some ?b" using False assms by (simp add: bf_resize_def bss_resize_def)
  have n: "bss_size ?g \<le> n" using False assms by (auto simp: bss_ok_def bss_size_def)
  have "take (bss_size ?g) (stored ?b) = map ?m [bss_base ?g ..< bss_base ?g + bss_size ?g]"
    using n by (simp add: stored_def take_map take_upt)
  also have "\<dots> = stored b"
    using assms by (intro nth_equalityI) (auto simp: stored_def bss_size_def bss_ok_def memcpy_def)
  also have "\<dots> = take n (stored b)" using n by simp
  finally show ?thesis using r assms n
    by (auto simp: bss_ok_def bss_size_def same_place_def region_def memcpy_def)
qed

lemma bf_consume_ok:
  assumes "bss_ok (bf_storage b)" "n \<le> bss_size (bf_storage b)"
  shows "\<exists>b'. bf_consume n b = Some b' \<and> bss_ok (bf_storage b') \<and> same_place (bf_storage b') (bf_storage b) \<and>
    bf_next b' = bf_next b \<and> stored b' = drop n (stored b) \<and> bf_memory b' = bf_memory b"
  using assms by (auto simp: bf_consume_def bss_consume_def bss_ok_def bss_size_def Let_def bss_empty_def bss_clear_def same_place_def
      stored_def drop_map add.assoc)

section \<open>Filling the storage\<close>

text \<open>What the next layer promises: it transfers no more than it is offered, writes only there, and nothing when it fails.
  \<open>taken\<close> is all that was read from it.\<close>

definition reads_ok :: "('t \<Rightarrow> 'b list) \<Rightarrow> ('b, 't) layer \<Rightarrow> bool" where
  "reads_ok taken next \<longleftrightarrow>
     (\<forall>mem t bs. distinct (seq_addrs bs) \<longrightarrow>
        (case next (mem, t) bs of (n, ec, mem', t') \<Rightarrow>
           n \<le> buffer_size bs \<and> (\<forall>a. a \<notin> set (take n (seq_addrs bs)) \<longrightarrow> mem' a = mem a) \<and>
           taken t' = taken t @ map mem' (take n (seq_addrs bs)) \<and> (ec \<noteq> None \<longrightarrow> n = 0)))"

lemma reads_okD:
  assumes "reads_ok taken next" "distinct (seq_addrs bs)" "bf_call next bs b = (n, ec, b')"
  shows "n \<le> buffer_size bs" "\<And>a. a \<notin> set (take n (seq_addrs bs)) \<Longrightarrow> bf_memory b' a = bf_memory b a"
    "taken (bf_next b') = taken (bf_next b) @ map (bf_memory b') (take n (seq_addrs bs))" "ec \<noteq> None \<Longrightarrow> n = 0"
    "bf_storage b' = bf_storage b"
proof -
  obtain mem' t' where c: "next (bf_memory b, bf_next b) bs = (n, ec, mem', t')" "b' = b\<lparr>bf_memory := mem', bf_next := t'\<rparr>"
    using assms(3) by (auto simp: bf_call_def split: prod.splits)
  from assms(1,2) have "case next (bf_memory b, bf_next b) bs of (n, ec, mem', t') \<Rightarrow>
      n \<le> buffer_size bs \<and> (\<forall>a. a \<notin> set (take n (seq_addrs bs)) \<longrightarrow> mem' a = bf_memory b a) \<and>
      taken t' = taken (bf_next b) @ map mem' (take n (seq_addrs bs)) \<and> (ec \<noteq> None \<longrightarrow> n = 0)" unfolding reads_ok_def by simp
  with c show "n \<le> buffer_size bs" "\<And>a. a \<notin> set (take n (seq_addrs bs)) \<Longrightarrow> bf_memory b' a = bf_memory b a"
    "taken (bf_next b') = taken (bf_next b) @ map (bf_memory b') (take n (seq_addrs bs))" "ec \<noteq> None \<Longrightarrow> n = 0"
    "bf_storage b' = bf_storage b" by simp_all
qed

text \<open>\<open>more b b' new\<close>: the bytes \<open>new\<close> came from the next layer into the storage, and nothing else changed but the free space of the storage.\<close>

definition more :: "('t \<Rightarrow> 'b list) \<Rightarrow> ('b, 't) buffered \<Rightarrow> ('b, 't) buffered \<Rightarrow> 'b list \<Rightarrow> bool" where
  "more taken b b' new \<longleftrightarrow> bss_ok (bf_storage b') \<and> same_place (bf_storage b') (bf_storage b) \<and> stored b' = stored b @ new \<and>
     taken (bf_next b') = taken (bf_next b) @ new \<and> (\<forall>a. a \<notin> region (bf_storage b) \<longrightarrow> bf_memory b' a = bf_memory b a)"

lemma fill_core:
  assumes "bss_ok (bf_storage b)" "reads_ok taken next"
  shows "\<exists>b1 n ec b2 b3 new. bf_resize (bss_capacity (bf_storage b)) b = Some b1 \<and>
    bf_call next [fill_space (bss_size (bf_storage b)) b1] b1 = (n, ec, b2) \<and> (ec \<noteq> None \<longrightarrow> n = 0) \<and>
    bf_resize (bss_size (bf_storage b) + n) b2 = Some b3 \<and> bss_size (bf_storage b3) = bss_size (bf_storage b) + n \<and>
    more taken b b3 new \<and> length new = n"
proof -
  let ?g = "bf_storage b"
  from bf_resize_ok [OF assms(1), of "bss_capacity ?g"] obtain b1 where b1: "bf_resize (bss_capacity ?g) b = Some b1" "bss_ok (bf_storage b1)"
    "same_place (bf_storage b1) ?g" "bf_next b1 = bf_next b" "bss_size (bf_storage b1) = bss_capacity ?g"
    "take (bss_size ?g) (stored b1) = take (bss_capacity ?g) (stored b)"
    "\<forall>a. a \<notin> region ?g \<longrightarrow> bf_memory b1 a = bf_memory b a" by auto
  have pos: "bss_begin (bf_storage b1) = 0" "bss_capacity (bf_storage b1) = bss_capacity ?g" "bss_base (bf_storage b1) = bss_base ?g"
    using b1(2,3,5) by (auto simp: bss_ok_def bss_size_def same_place_def)
  have le: "bss_size ?g \<le> bss_capacity ?g" by (rule size_le_capacity [OF assms(1)])
  define sp where "sp = fill_space (bss_size ?g) b1"
  have sp: "buf_addrs sp = [bss_base ?g + bss_size ?g ..< bss_base ?g + bss_capacity ?g]" "ab_size sp = bss_capacity ?g - bss_size ?g"
    using pos b1(5) by (simp_all add: sp_def fill_space_def bss_data_def mk_buf_def) (simp add: buf_addrs_def drop_upt)
  obtain n ec b2 where call: "bf_call next [sp] b1 = (n, ec, b2)" by (metis prod_cases3)
  have dist: "distinct (seq_addrs [sp])" by (simp add: sp(1))
  note r = reads_okD [OF assms(2) dist call, unfolded seq_addrs_simps append_Nil2 sp(1)]
  have n: "n \<le> bss_capacity ?g - bss_size ?g" using r(1) by (simp add: sp(2))
  define new where "new = map (bf_memory b2) [bss_base ?g + bss_size ?g ..< bss_base ?g + bss_size ?g + n]"
  have new: "take n [bss_base ?g + bss_size ?g ..< bss_base ?g + bss_capacity ?g] = [bss_base ?g + bss_size ?g ..< bss_base ?g + bss_size ?g + n]"
    using n le by (simp add: take_upt)
  have ok2: "bss_ok (bf_storage b2)" using b1(2) r(5) by simp
  have le2: "bss_size ?g + n \<le> bss_capacity (bf_storage b2)" using n le pos r(5) by simp
  from bf_resize_ok [OF ok2 le2] obtain b3 where
    b3: "bf_resize (bss_size ?g + n) b2 = Some b3" "bss_ok (bf_storage b3)" "same_place (bf_storage b3) (bf_storage b2)"
      "bf_next b3 = bf_next b2" "bss_size (bf_storage b3) = bss_size ?g + n"
      "take (bss_size (bf_storage b2)) (stored b3) = take (bss_size ?g + n) (stored b2)"
      "\<forall>a. a \<notin> region (bf_storage b2) \<longrightarrow> bf_memory b3 a = bf_memory b2 a" by auto
  have c2: "stored b2 = map (bf_memory b2) [bss_base ?g ..< bss_base ?g + bss_capacity ?g]"
    using stored_eq [OF ok2] pos b1(5) r(5) by simp
  have c1: "stored b1 = map (bf_memory b1) [bss_base ?g ..< bss_base ?g + bss_capacity ?g]"
    using stored_eq [OF b1(2)] pos b1(5) by simp
  have "take (bss_size ?g) (stored b2) = take (bss_size ?g) (stored b1)"
    unfolding c1 c2 using le by (auto simp: take_map take_from r(2) new)
  also have "\<dots> = stored b" using b1(6) le by simp
  finally have old: "take (bss_size ?g) (stored b2) = stored b" .
  have "take (bss_size ?g + n) (stored b2) = stored b @ new"
    unfolding take_add old using n le by (simp add: c2 new_def drop_map take_map drop_upt take_upt)
  then have c3: "stored b3 = stored b @ new" using b3(5,6) r(5) b1(5) n le by simp
  have "same_place (bf_storage b3) ?g" using b3(3) r(5) b1(3) by (simp add: same_place_def)
  moreover have "taken (bf_next b3) = taken (bf_next b) @ new" using b3(4) r(3) b1(4) by (simp add: new new_def)
  moreover have "bf_memory b3 a = bf_memory b a" if "a \<notin> region ?g" for a
  proof -
    have "a \<notin> region (bf_storage b2)" using that b1(3) r(5) same_place_region by metis
    moreover have "a \<notin> set (take n [bss_base ?g + bss_size ?g ..< bss_base ?g + bss_capacity ?g])"
      using that in_set_takeD [of a n] by (fastforce simp: region_def)
    ultimately show ?thesis using b3(7) r(2) b1(7) that by simp
  qed
  ultimately have "more taken b b3 new" using b3(2) c3 by (simp add: more_def)
  moreover have "length new = n" by (simp add: new_def)
  ultimately show ?thesis using b1(1) call b3(1,5) r(4) unfolding sp_def by blast
qed

lemma bf_fill_ok:
  assumes "bss_ok (bf_storage b)" "reads_ok taken next"
  shows "\<exists>n ec b' new. bf_fill_ec next b = Some (n, ec, b') \<and>
    bf_fill next b = Some (case ec of Some e \<Rightarrow> Inl e | None \<Rightarrow> Inr n, b') \<and>
    (\<exists>b1 b2. async_fill_start b = Some (bss_size (bf_storage b), fill_space (bss_size (bf_storage b)) b1, b1) \<and>
       bf_call next [fill_space (bss_size (bf_storage b)) b1] b1 = (n, ec, b2) \<and>
       buffered_fill_handler (bss_size (bf_storage b)) n b2 = Some b') \<and>
    more taken b b' new \<and> length new = n \<and> (ec \<noteq> None \<longrightarrow> n = 0)"
proof -
  from fill_core [OF assms] obtain b1 n ec b2 b3 new where c: "bf_resize (bss_capacity (bf_storage b)) b = Some b1"
    "bf_call next [fill_space (bss_size (bf_storage b)) b1] b1 = (n, ec, b2)" "ec \<noteq> None \<longrightarrow> n = 0"
    "bf_resize (bss_size (bf_storage b) + n) b2 = Some b3" "bss_size (bf_storage b3) = bss_size (bf_storage b) + n"
    "more taken b b3 new" "length new = n" by blast
  have "bf_fill_ec next b = Some (n, ec, b3)" using c by (simp add: bf_fill_ec_def Let_def)
  moreover have "bf_fill next b = Some (case ec of Some e \<Rightarrow> Inl e | None \<Rightarrow> Inr n, b3)"
    using c by (cases ec) (simp_all add: bf_fill_def Let_def)
  moreover have "async_fill_start b = Some (bss_size (bf_storage b), fill_space (bss_size (bf_storage b)) b1, b1)"
    using c(1) by (simp add: async_fill_start_def Let_def)
  moreover have "buffered_fill_handler (bss_size (bf_storage b)) n b2 = Some b3" using c(4) by (simp add: buffered_fill_handler_def)
  ultimately show ?thesis using c(2,3,6,7) by blast
qed

section \<open>Copying between the storage and the user\<close>

definition user_bufs :: "abuf list \<Rightarrow> storage \<Rightarrow> bool" where
  "user_bufs bs g \<longleftrightarrow> distinct (seq_addrs bs) \<and> set (seq_addrs bs) \<inter> region g = {}"

lemma assign_other: "a \<notin> set ds \<Longrightarrow> assign_bytes (zip ds ss) mem a = mem a"
  by (induction ds ss arbitrary: mem rule: list_induct2') auto

lemma assign_map:
  "distinct ds \<Longrightarrow> set ds \<inter> set ss = {} \<Longrightarrow> n \<le> length ds \<Longrightarrow> n \<le> length ss \<Longrightarrow>
    map (assign_bytes (zip ds ss) mem) (take n ds) = map mem (take n ss)"
proof (induction ds ss arbitrary: mem n rule: list_induct2')
  case (4 d ds s ss)
  show ?case
  proof (cases n)
    case (Suc k)
    have "map (assign_bytes (zip ds ss) (mem(d := mem s))) (take k ds) = map (mem(d := mem s)) (take k ss)"
      using 4 Suc by (intro 4(1)) auto
    also have "\<dots> = map mem (take k ss)" using 4(3) in_set_takeD [of _ k ss] by (intro map_cong refl) auto
    finally show ?thesis using Suc 4(2) by (simp add: assign_other)
  qed simp
qed auto

lemma data_addrs:
  assumes "bss_ok (bf_storage b)"
  shows "stored b = map (bf_memory b) (take (bss_size (bf_storage b)) (buf_addrs (bss_data (bf_storage b))))"
    "bss_size (bf_storage b) \<le> ab_size (bss_data (bf_storage b))" "set (buf_addrs (bss_data (bf_storage b))) \<subseteq> region (bf_storage b)"
proof -
  let ?g = "bf_storage b"
  have a: "buf_addrs (bss_data ?g) = [bss_base ?g + bss_begin ?g ..< bss_base ?g + bss_capacity ?g]"
    by (simp add: bss_data_def mk_buf_def) (simp add: buf_addrs_def drop_upt)
  show "set (buf_addrs (bss_data ?g)) \<subseteq> region ?g" unfolding a by (auto simp: region_def)
  have "bss_base ?g + bss_begin ?g + bss_size ?g \<le> bss_base ?g + bss_capacity ?g" using assms by (simp add: bss_ok_def bss_size_def)
  then show "stored b = map (bf_memory b) (take (bss_size ?g) (buf_addrs (bss_data ?g)))"
    unfolding a stored_eq [OF assms] by (simp add: take_upt)
  show "bss_size ?g \<le> ab_size (bss_data ?g)" using assms by (simp add: bss_data_def mk_buf_def bss_ok_def bss_size_def diff_le_mono)
qed

lemma stored_same:
  "bf_storage b' = bf_storage b \<Longrightarrow> bss_ok (bf_storage b) \<Longrightarrow> (\<And>a. a \<in> region (bf_storage b) \<Longrightarrow> bf_memory b' a = bf_memory b a) \<Longrightarrow>
    stored b' = stored b"
  by (auto simp: stored_def region_def bss_ok_def)

lemma peek_copy_ok:
  assumes "bss_ok (bf_storage b)" "user_bufs bs (bf_storage b)"
  shows "\<exists>b'. peek_copy bs b = (min (buffer_size bs) (bss_size (bf_storage b)), b') \<and>
    map (bf_memory b') (take (min (buffer_size bs) (bss_size (bf_storage b))) (seq_addrs bs)) = take (buffer_size bs) (stored b) \<and>
    stored b' = stored b \<and> bf_storage b' = bf_storage b \<and> bf_next b' = bf_next b"
proof -
  let ?g = "bf_storage b" and ?d = "bss_data (bf_storage b)"
  let ?src = "take (bss_size ?g) (buf_addrs ?d)" and ?n = "min (buffer_size bs) (bss_size ?g)"
  note d = data_addrs [OF assms(1)]
  have dis: "set (seq_addrs bs) \<inter> set ?src = {}" using d(3) assms(2) in_set_takeD unfolding user_bufs_def by fastforce
  define b' where "b' = b\<lparr>bf_memory := assign_bytes (zip (seq_addrs bs) ?src) (bf_memory b)\<rparr>"
  have "peek_copy bs b = (?n, b')"
    using copy_multi_loop_eq [of bs "buf_limit ?d (bss_size ?g)" "bf_memory b" 0] dis d(2)
    by (simp add: peek_copy_def copy_multi_one_def b'_def min_absorb2)
  moreover have "map (bf_memory b') (take ?n (seq_addrs bs)) = map (bf_memory b) (take ?n ?src)"
    using assign_map [OF _ dis, of ?n "bf_memory b"] assms(2) d(2) by (simp add: b'_def user_bufs_def)
  moreover have "map (bf_memory b) (take ?n ?src) = take (buffer_size bs) (stored b)"
    by (simp add: d(1) take_map)
  moreover have "stored b' = stored b"
    by (rule stored_same) (use assms in \<open>auto simp: b'_def user_bufs_def disjoint_iff intro!: assign_other\<close>)
  ultimately show ?thesis by (intro exI [of _ b']) (simp add: b'_def)
qed

lemma read_copy_ok:
  assumes "bss_ok (bf_storage b)" "user_bufs bs (bf_storage b)"
  shows "\<exists>n b'. read_copy bs b = Some (n, b') \<and> n = min (buffer_size bs) (bss_size (bf_storage b)) \<and> bss_ok (bf_storage b') \<and>
    same_place (bf_storage b') (bf_storage b) \<and> bf_next b' = bf_next b \<and>
    map (bf_memory b') (take n (seq_addrs bs)) @ stored b' = stored b"
proof -
  from peek_copy_ok [OF assms] obtain b1 where p: "peek_copy bs b = (min (buffer_size bs) (bss_size (bf_storage b)), b1)"
    "map (bf_memory b1) (take (min (buffer_size bs) (bss_size (bf_storage b))) (seq_addrs bs)) = take (buffer_size bs) (stored b)"
    "stored b1 = stored b" "bf_storage b1 = bf_storage b" "bf_next b1 = bf_next b" by blast
  from bf_consume_ok [of b1 "min (buffer_size bs) (bss_size (bf_storage b))"] assms(1) p(4) obtain b2 where
    c: "bf_consume (min (buffer_size bs) (bss_size (bf_storage b))) b1 = Some b2" "bss_ok (bf_storage b2)"
      "same_place (bf_storage b2) (bf_storage b)" "bf_next b2 = bf_next b1"
      "stored b2 = drop (min (buffer_size bs) (bss_size (bf_storage b))) (stored b1)" "bf_memory b2 = bf_memory b1" by auto
  have "take (buffer_size bs) (stored b) @ drop (min (buffer_size bs) (bss_size (bf_storage b))) (stored b) = stored b"
    by (cases "buffer_size bs \<le> bss_size (bf_storage b)") (simp_all add: min_def)
  with p c show ?thesis by (simp add: read_copy_def)
qed

section \<open>Every history of reads\<close>

text \<open>What a read delivers to the user's buffers.\<close>

definition got_bytes :: "abuf list \<Rightarrow> nat \<Rightarrow> ('b, 't) buffered \<Rightarrow> 'b list" where
  "got_bytes bs n b = map (bf_memory b) (take n (seq_addrs bs))"

inductive read_history :: "('b, 't) layer \<Rightarrow> ('t \<Rightarrow> 'b list) \<Rightarrow> ('b, 't) buffered \<Rightarrow> 'b list \<Rightarrow> bool" for "next" taken where
  rh_start: "bf_storage b = buffered_stream_storage base cap \<Longrightarrow> taken (bf_next b) = [] \<Longrightarrow> read_history next taken b []"
| rh_fill_ec: "read_history next taken b d \<Longrightarrow> bf_fill_ec next b = Some (n, ec, b') \<Longrightarrow> read_history next taken b' d"
| rh_fill: "read_history next taken b d \<Longrightarrow> bf_fill next b = Some (r, b') \<Longrightarrow> read_history next taken b' d"
| rh_read_ec: "read_history next taken b d \<Longrightarrow> user_bufs bs (bf_storage b) \<Longrightarrow> bf_read_some_ec next bs b = Some (n, ec, b') \<Longrightarrow>
    read_history next taken b' (d @ got_bytes bs n b')"
| rh_read: "read_history next taken b d \<Longrightarrow> user_bufs bs (bf_storage b) \<Longrightarrow> bf_read_some next bs b = Some (r, b') \<Longrightarrow>
    read_history next taken b' (d @ (case r of Inl e \<Rightarrow> [] | Inr n \<Rightarrow> got_bytes bs n b'))"
| rh_async: "read_history next taken b d \<Longrightarrow> user_bufs bs (bf_storage b) \<Longrightarrow> bf_async_read_some next bs b = Some (n, ec, b') \<Longrightarrow>
    read_history next taken b' (d @ got_bytes bs n b')"
| rh_peek: "read_history next taken b d \<Longrightarrow> user_bufs bs (bf_storage b) \<Longrightarrow> bf_peek_ec next bs b = Some (n, ec, b') \<Longrightarrow>
    read_history next taken b' d"
| rh_user: "read_history next taken b d \<Longrightarrow> \<forall>a \<in> region (bf_storage b). mem a = bf_memory b a \<Longrightarrow>
    read_history next taken (b\<lparr>bf_memory := mem\<rparr>) d"

definition read_inv :: "('t \<Rightarrow> 'b list) \<Rightarrow> ('b, 't) buffered \<Rightarrow> 'b list \<Rightarrow> bool" where
  "read_inv taken b d \<longleftrightarrow> bss_ok (bf_storage b) \<and> taken (bf_next b) = d @ stored b"

lemma more_inv: "read_inv taken b d \<Longrightarrow> more taken b b' new \<Longrightarrow> read_inv taken b' d"
  by (simp add: read_inv_def more_def)

lemma user_bufs_same: "same_place h g \<Longrightarrow> user_bufs bs g \<Longrightarrow> user_bufs bs h"
  by (simp add: user_bufs_def same_place_region)

text \<open>The result of a read: \<open>n\<close> bytes and \<open>ec\<close>, after it got \<open>k\<close> bytes from the next layer.\<close>

definition read_result :: "nat \<Rightarrow> abuf list \<Rightarrow> ('b, 't) buffered \<Rightarrow> nat \<Rightarrow> error_code \<Rightarrow> bool" where
  "read_result k bs b n ec \<longleftrightarrow> n = min (buffer_size bs) (bss_size (bf_storage b) + k) \<and> (ec \<noteq> None \<longrightarrow> n = 0)"

lemma read_copy_inv:
  assumes "read_inv taken b d" "user_bufs bs (bf_storage b)"
  shows "\<exists>n b'. read_copy bs b = Some (n, b') \<and> n = min (buffer_size bs) (bss_size (bf_storage b)) \<and> read_inv taken b' (d @ got_bytes bs n b')"
  using read_copy_ok [of b bs] assms by (fastforce simp: read_inv_def got_bytes_def)

lemma more_size: "more taken b b' new \<Longrightarrow> bss_size (bf_storage b') = bss_size (bf_storage b) + length new"
  using stored_length [of b'] by (simp add: more_def del: stored_length) (simp)

lemma empty_size: "bss_ok g \<Longrightarrow> bss_empty g \<longleftrightarrow> bss_size g = 0"
  by (auto simp: bss_empty_def bss_size_def bss_ok_def)

lemma fill_then_copy:
  assumes "read_inv taken b d" "reads_ok taken next" "user_bufs bs (bf_storage b)" "bss_empty (bf_storage b)"
  shows "\<exists>k ec b1 n b2. bf_fill_ec next b = Some (k, ec, b1) \<and> bf_fill next b = Some (case ec of Some e \<Rightarrow> Inl e | None \<Rightarrow> Inr k, b1) \<and>
    (\<exists>c1 c2. async_fill_start b = Some (bss_size (bf_storage b), fill_space (bss_size (bf_storage b)) c1, c1) \<and>
       bf_call next [fill_space (bss_size (bf_storage b)) c1] c1 = (k, ec, c2) \<and> buffered_fill_handler (bss_size (bf_storage b)) k c2 = Some b1) \<and>
    (ec \<noteq> None \<longrightarrow> k = 0) \<and> read_inv taken b1 d \<and> (bss_empty (bf_storage b1) \<longleftrightarrow> k = 0) \<and>
    user_bufs bs (bf_storage b1) \<and> peek_copy bs b1 = (n, snd (peek_copy bs b1)) \<and>
    read_copy bs b1 = Some (n, b2) \<and> read_inv taken b2 (d @ got_bytes bs n b2) \<and> n = min (buffer_size bs) (bss_size (bf_storage b) + k)"
proof -
  have ok: "bss_ok (bf_storage b)" using assms(1) by (simp add: read_inv_def)
  from bf_fill_ok [OF ok assms(2)] obtain k ec b1 new where f: "bf_fill_ec next b = Some (k, ec, b1)"
    "bf_fill next b = Some (case ec of Some e \<Rightarrow> Inl e | None \<Rightarrow> Inr k, b1)"
    "\<exists>c1 c2. async_fill_start b = Some (bss_size (bf_storage b), fill_space (bss_size (bf_storage b)) c1, c1) \<and>
       bf_call next [fill_space (bss_size (bf_storage b)) c1] c1 = (k, ec, c2) \<and> buffered_fill_handler (bss_size (bf_storage b)) k c2 = Some b1"
    "more taken b b1 new" "length new = k" "ec \<noteq> None \<longrightarrow> k = 0" by blast
  note i1 = more_inv [OF assms(1) f(4)]
  have u1: "user_bufs bs (bf_storage b1)" using f(4) assms(3) user_bufs_same by (auto simp: more_def)
  have s1: "bss_size (bf_storage b1) = bss_size (bf_storage b) + k" using more_size [OF f(4)] f(5) by simp
  have ok1: "bss_ok (bf_storage b1)" using i1 by (simp add: read_inv_def)
  have e1: "bss_empty (bf_storage b1) \<longleftrightarrow> k = 0" using s1 assms(4) empty_size [OF ok] empty_size [OF ok1] by simp
  from read_copy_inv [OF i1 u1] obtain n b2 where c: "read_copy bs b1 = Some (n, b2)" "n = min (buffer_size bs) (bss_size (bf_storage b1))"
    "read_inv taken b2 (d @ got_bytes bs n b2)" by blast
  have "peek_copy bs b1 = (n, snd (peek_copy bs b1))" using peek_copy_ok [OF ok1 u1] c(2) by auto
  with f(1-3,6) i1 e1 u1 c s1 show ?thesis by metis
qed

definition result_of :: "nat \<Rightarrow> error_code \<Rightarrow> error_value + nat" where
  "result_of n ec = (case ec of None \<Rightarrow> Inr n | Some e \<Rightarrow> Inl e)"

lemma got_bytes_0 [simp]: "got_bytes bs 0 b = []" by (simp add: got_bytes_def)

lemma read_some_ec_ok:
  assumes "read_inv taken b d" "reads_ok taken next" "user_bufs bs (bf_storage b)"
  shows "\<exists>k n ec b'. bf_read_some_ec next bs b = Some (n, ec, b') \<and> read_inv taken b' (d @ got_bytes bs n b') \<and> read_result k bs b n ec"
proof (cases "buffer_size bs = 0")
  case True
  then show ?thesis using assms(1)
    by (intro exI [of _ 0] exI [of _ None] exI [of _ b]) (simp add: bf_read_some_ec_def read_result_def)
next
  case F: False
  show ?thesis
  proof (cases "bss_empty (bf_storage b)")
    case False
    from read_copy_inv [OF assms(1,3)] F False show ?thesis by (auto simp: bf_read_some_ec_def read_result_def intro!: exI [of _ 0])
  next
    case True
    from fill_then_copy [OF assms True] obtain k ec b1 n b2 where f: "bf_fill_ec next b = Some (k, ec, b1)" "ec \<noteq> None \<longrightarrow> k = 0"
      "read_inv taken b1 d" "read_copy bs b1 = Some (n, b2)" "read_inv taken b2 (d @ got_bytes bs n b2)"
      "n = min (buffer_size bs) (bss_size (bf_storage b) + k)" by blast
    have z: "bss_size (bf_storage b) = 0" using True empty_size assms(1) by (auto simp: read_inv_def)
    show ?thesis
    proof (cases "k = 0")
      case True
      with F f z \<open>bss_empty (bf_storage b)\<close> show ?thesis
        by (intro exI [of _ 0] exI [of _ ec] exI [of _ b1]) (simp add: bf_read_some_ec_def read_result_def)
    next
      case False
      with F f \<open>bss_empty (bf_storage b)\<close> show ?thesis
        by (intro exI [of _ k] exI [of _ n] exI [of _ None] exI [of _ b2]) (simp add: bf_read_some_ec_def read_result_def)
    qed
  qed
qed

lemma read_some_ok:
  assumes "read_inv taken b d" "reads_ok taken next" "user_bufs bs (bf_storage b)"
  shows "\<exists>k n ec b'. bf_read_some next bs b = Some (result_of n ec, b') \<and> read_inv taken b' (d @ got_bytes bs n b') \<and> read_result k bs b n ec"
proof (cases "buffer_size bs = 0")
  case True
  then show ?thesis using assms(1)
    by (intro exI [of _ 0] exI [of _ None] exI [of _ b]) (simp add: bf_read_some_def read_result_def result_of_def)
next
  case F: False
  show ?thesis
  proof (cases "bss_empty (bf_storage b)")
    case False
    from read_copy_inv [OF assms(1,3)] obtain n b' where "read_copy bs b = Some (n, b')"
      "n = min (buffer_size bs) (bss_size (bf_storage b))" "read_inv taken b' (d @ got_bytes bs n b')" by blast
    with F False show ?thesis
      by (intro exI [of _ 0] exI [of _ n] exI [of _ None] exI [of _ b']) (simp add: bf_read_some_def read_result_def result_of_def)
  next
    case True
    from fill_then_copy [OF assms True] obtain k ec b1 n b2 where
      f: "bf_fill next b = Some (case ec of Some e \<Rightarrow> Inl e | None \<Rightarrow> Inr k, b1)" "ec \<noteq> None \<longrightarrow> k = 0"
      "read_inv taken b1 d" "read_copy bs b1 = Some (n, b2)" "read_inv taken b2 (d @ got_bytes bs n b2)"
      "n = min (buffer_size bs) (bss_size (bf_storage b) + k)" by blast
    have z: "bss_size (bf_storage b) = 0" using True empty_size assms(1) by (auto simp: read_inv_def)
    show ?thesis
    proof (cases ec)
      case (Some e)
      with F f z True show ?thesis
        by (intro exI [of _ 0] exI [of _ ec] exI [of _ b1]) (simp add: bf_read_some_def read_result_def result_of_def)
    next
      case None
      with F f True show ?thesis
        by (intro exI [of _ k] exI [of _ n] exI [of _ None] exI [of _ b2]) (simp add: bf_read_some_def read_result_def result_of_def)
    qed
  qed
qed

lemma null_call:
  assumes "reads_ok taken next" "bf_call next [mk_buf 0 0] b = (n, ec, b')"
  shows "n = 0" "bf_storage b' = bf_storage b" "bf_memory b' = bf_memory b" "taken (bf_next b') = taken (bf_next b)"
proof -
  have d: "distinct (seq_addrs [mk_buf 0 0])" "seq_addrs [mk_buf 0 0] = []" "buffer_size [mk_buf 0 0] = 0"
    by (simp_all add: buf_addrs_def mk_buf_def)
  note r = reads_okD [OF assms(1) d(1) assms(2)]
  show "n = 0" "bf_storage b' = bf_storage b" "taken (bf_next b') = taken (bf_next b)" using r(1,3,5) d by simp_all
  show "bf_memory b' = bf_memory b" by (rule ext) (use r(2) d in simp)
qed

lemma async_read_some_ok:
  assumes "read_inv taken b d" "reads_ok taken next" "user_bufs bs (bf_storage b)"
  shows "\<exists>k n ec b'. bf_async_read_some next bs b = Some (n, ec, b') \<and> read_inv taken b' (d @ got_bytes bs n b') \<and>
    (ec = None \<longrightarrow> read_result k bs b n ec) \<and> (ec \<noteq> None \<longrightarrow> n = 0)"
proof (cases "buffer_size bs = 0 \<or> \<not> bss_empty (bf_storage b)")
  case True
  obtain n ec b1 where c: "bf_call next [mk_buf 0 0] b = (n, ec, b1)" by (metis prod_cases3)
  note z = null_call [OF assms(2) c]
  have i1: "read_inv taken b1 d" using assms(1) z by (simp add: read_inv_def stored_def)
  show ?thesis
  proof (cases "ec \<noteq> None \<or> bss_empty (bf_storage b1)")
    case E: True
    then have "ec = None \<Longrightarrow> buffer_size bs = 0" using True z(2) by simp
    with E True c i1 show ?thesis
      by (intro exI [of _ 0] exI [of _ ec] exI [of _ b1])
        (auto simp: bf_async_read_some_def buffered_read_some_handler_def read_result_def)
  next
    case False
    have u1: "user_bufs bs (bf_storage b1)" using assms(3) z(2) by simp
    from read_copy_inv [OF i1 u1, unfolded z(2)] obtain m b' where "read_copy bs b1 = Some (m, b')"
      "m = min (buffer_size bs) (bss_size (bf_storage b))" "read_inv taken b' (d @ got_bytes bs m b')" by blast
    with False True c show ?thesis
      by (intro exI [of _ 0] exI [of _ m] exI [of _ None] exI [of _ b'])
        (simp add: bf_async_read_some_def buffered_read_some_handler_def read_result_def)
  qed
next
  case False
  then have em: "bss_empty (bf_storage b)" by simp
  from fill_then_copy [OF assms em] obtain k ec b1 n b2 c1 c2 where
    f: "async_fill_start b = Some (bss_size (bf_storage b), fill_space (bss_size (bf_storage b)) c1, c1)"
      "bf_call next [fill_space (bss_size (bf_storage b)) c1] c1 = (k, ec, c2)" "buffered_fill_handler (bss_size (bf_storage b)) k c2 = Some b1"
      "ec \<noteq> None \<longrightarrow> k = 0" "read_inv taken b1 d" "bss_empty (bf_storage b1) \<longleftrightarrow> k = 0" "read_copy bs b1 = Some (n, b2)"
      "read_inv taken b2 (d @ got_bytes bs n b2)" "n = min (buffer_size bs) (bss_size (bf_storage b) + k)" by blast
  have z: "bss_size (bf_storage b) = 0" using em empty_size assms(1) by (auto simp: read_inv_def)
  show ?thesis
  proof (cases "k = 0")
    case True
    with False f z show ?thesis
      by (intro exI [of _ 0] exI [of _ ec] exI [of _ b1]) (simp add: bf_async_read_some_def buffered_read_some_handler_def read_result_def)
  next
    case K: False
    with False f z show ?thesis
      by (intro exI [of _ k] exI [of _ n] exI [of _ None] exI [of _ b2])
        (simp add: bf_async_read_some_def buffered_read_some_handler_def read_result_def)
  qed
qed

lemma peek_copy_inv:
  assumes "read_inv taken b d" "user_bufs bs (bf_storage b)"
  shows "read_inv taken (snd (peek_copy bs b)) d"
  using peek_copy_ok [of b bs] assms by (auto simp: read_inv_def)

lemma peek_ok:
  assumes "read_inv taken b d" "reads_ok taken next" "user_bufs bs (bf_storage b)"
  shows "\<exists>n ec b'. bf_peek_ec next bs b = Some (n, ec, b') \<and> read_inv taken b' d"
proof (cases "bss_empty (bf_storage b)")
  case False
  then show ?thesis using peek_copy_inv [OF assms(1,3)] by (cases "peek_copy bs b") (simp add: bf_peek_ec_def)
next
  case True
  from fill_then_copy [OF assms True] obtain k ec b1 n where f: "bf_fill_ec next b = Some (k, ec, b1)" "read_inv taken b1 d"
    "user_bufs bs (bf_storage b1)" "peek_copy bs b1 = (n, snd (peek_copy bs b1))" by blast
  with True show ?thesis using peek_copy_inv [OF f(2,3)]
    by (cases "k = 0") (auto simp: bf_peek_ec_def split: prod.splits)
qed

lemma fill_inv:
  assumes "read_inv taken b d" "reads_ok taken next"
  shows "\<exists>n ec b'. bf_fill_ec next b = Some (n, ec, b') \<and> read_inv taken b' d"
    "\<exists>r b'. bf_fill next b = Some (r, b') \<and> read_inv taken b' d"
  using bf_fill_ok [OF _ assms(2), of b] assms(1) more_inv [OF assms(1)] unfolding read_inv_def by metis+

lemma read_history_inv:
  assumes "reads_ok taken next"
  shows "read_history next taken b d \<Longrightarrow> read_inv taken b d"
proof (induction rule: read_history.induct)
  case (rh_start b base cap)
  then show ?case by (simp add: read_inv_def buffered_stream_storage_def bss_ok_def stored_def)
next
  case (rh_fill_ec b d n ec b')
  then show ?case using fill_inv(1) [OF rh_fill_ec.IH assms] by auto
next
  case (rh_fill b d r b')
  then show ?case using fill_inv(2) [OF rh_fill.IH assms] by auto
next
  case (rh_read_ec b d bs n ec b')
  then show ?case using read_some_ec_ok [OF rh_read_ec.IH assms rh_read_ec.hyps(2)] by auto
next
  case (rh_read b d bs r b')
  from read_some_ok [OF rh_read.IH assms rh_read.hyps(2)] rh_read.hyps(3) obtain k n ec where
    r: "r = result_of n ec" "read_inv taken b' (d @ got_bytes bs n b')" "read_result k bs b n ec" by auto
  have "(case r of Inl e \<Rightarrow> [] | Inr n \<Rightarrow> got_bytes bs n b') = got_bytes bs n b'"
    using r(1,3) by (cases ec) (auto simp: result_of_def read_result_def)
  with r(2) show ?case by simp
next
  case (rh_async b d bs n ec b')
  then show ?case using async_read_some_ok [OF rh_async.IH assms rh_async.hyps(2)] by auto
next
  case (rh_peek b d bs n ec b')
  then show ?case using peek_ok [OF rh_peek.IH assms rh_peek.hyps(2)] by auto
next
  case (rh_user b d mem)
  have "stored (b\<lparr>bf_memory := mem\<rparr>) = stored b"
    by (rule stored_same) (use rh_user in \<open>auto simp: read_inv_def\<close>)
  with rh_user.IH show ?case by (simp add: read_inv_def)
qed


text \<open>A layer that delivers the numbers from 0, three at a time at most, and fails after ten.\<close>

definition put_bytes :: "nat list \<Rightarrow> 'b list \<Rightarrow> 'b memory \<Rightarrow> 'b memory" where
  "put_bytes as vs mem = (\<lambda>a. case map_of (zip as vs) a of None \<Rightarrow> mem a | Some v \<Rightarrow> v)"

definition counting_layer :: "(nat, nat) layer" where
  "counting_layer x bs =
     (case x of (mem, t) \<Rightarrow>
        let n = min 3 (buffer_size bs) in
        if 10 < t + n then (0, Some (Sys_Error 5), x)
        else (n, None, put_bytes (take n (seq_addrs bs)) [t ..< t + n] mem, t + n))"

lemma put_bytes_map: "distinct as \<Longrightarrow> length vs = length as \<Longrightarrow> map (put_bytes as vs mem) as = vs"
  by (intro nth_equalityI) (simp_all add: put_bytes_def map_of_zip_nth)

lemma put_bytes_other: "a \<notin> set as \<Longrightarrow> put_bytes as vs mem a = mem a"
  by (auto simp: put_bytes_def split: option.split dest: map_of_SomeD set_zip_leftD)

lemma counting_reads_ok: "reads_ok (\<lambda>t. [0 ..< t]) counting_layer"
proof -
  have "[0 ..< t + n] = [0 ..< t] @ map (put_bytes (take n as) [t ..< t + n] mem) (take n as)"
    if "distinct as" "n \<le> length as" for t n as and mem :: "nat memory"
    using that put_bytes_map [of "take n as" "[t ..< t + n]" mem] upt_add_eq_append [of 0 t n] by simp
  then show ?thesis by (auto simp: reads_ok_def counting_layer_def Let_def put_bytes_other)
qed

definition counting_stream :: "(nat, nat) buffered" where
  "counting_stream = \<lparr> bf_storage = buffered_stream_storage 100 8, bf_memory = (\<lambda>_. 0), bf_next = 0 \<rparr>"

lemma counting_user: "user_bufs [mk_buf 0 2] (bf_storage counting_stream)"
  by (auto simp: user_bufs_def mk_buf_def buf_addrs_def region_def counting_stream_def buffered_stream_storage_def)

lemma counting_value:
  "case bf_read_some_ec counting_layer [mk_buf 0 2] counting_stream of
     Some (n, ec, b) \<Rightarrow> n = 2 \<and> ec = None \<and> got_bytes [mk_buf 0 2] 2 b = [0, 1] \<and> bf_next b = 3
   | None \<Rightarrow> False"
  by code_simp


section \<open>Every history of writes\<close>

text \<open>What the next layer promises: it leaves the memory alone, sends no more than it is offered, and something or reports an error.
  \<open>sent\<close> is all that was written to it.\<close>

definition writes_ok :: "('t \<Rightarrow> 'b list) \<Rightarrow> ('b, 't) layer \<Rightarrow> bool" where
  "writes_ok sent next \<longleftrightarrow>
     (\<forall>mem t bs. case next (mem, t) bs of (n, ec, mem', t') \<Rightarrow>
        mem' = mem \<and> n \<le> buffer_size bs \<and> (0 < buffer_size bs \<longrightarrow> 0 < n \<or> ec \<noteq> None) \<and>
        sent t' = sent t @ map mem (take n (seq_addrs bs)))"

lemma writes_okD:
  assumes "writes_ok sent next" "next (mem, t) bs = (n, ec, mem', t')"
  shows "mem' = mem" "n \<le> buffer_size bs" "0 < buffer_size bs \<Longrightarrow> 0 < n \<or> ec \<noteq> None"
    "sent t' = sent t @ map mem (take n (seq_addrs bs))"
proof -
  from assms(1) have "case next (mem, t) bs of (n, ec, mem', t') \<Rightarrow>
        mem' = mem \<and> n \<le> buffer_size bs \<and> (0 < buffer_size bs \<longrightarrow> 0 < n \<or> ec \<noteq> None) \<and>
        sent t' = sent t @ map mem (take n (seq_addrs bs))" by (simp add: writes_ok_def)
  with assms(2) show "mem' = mem" "n \<le> buffer_size bs" "0 < buffer_size bs \<Longrightarrow> 0 < n \<or> ec \<noteq> None"
    "sent t' = sent t @ map mem (take n (seq_addrs bs))" by simp_all
qed

lemma write_loop_sends:
  assumes w: "writes_ok sent next" and mb: "0 < mb"
  shows "cb_ok bs c \<Longrightarrow> \<exists>n ec' t'. write_buffer_loop mb next Transfer_All (mem, t) c ec = Some (n, ec', mem, t') \<and>
    cb_total_consumed c \<le> n \<and> n \<le> buffer_size bs \<and> (n = buffer_size bs \<or> ec' \<noteq> None) \<and>
    sent t' = sent t @ map mem (take (n - cb_total_consumed c) (drop (cb_total_consumed c) (seq_addrs bs)))"
proof (induction "(buffer_size bs - cb_total_consumed c) + (if ec = None then 1 else 0 :: nat)"
    arbitrary: c t ec rule: less_induct)
  case less
  let ?t = "cb_total_consumed c"
  define m where "m = completion_condition Transfer_All ec ?t"
  have c: "cb_total_size c = buffer_size bs" "?t \<le> buffer_size bs" using less.prems by (auto simp: cb_ok_def)
  show ?case
  proof (cases "cb_empty c \<or> m = 0")
    case True
    then have "?t = buffer_size bs \<or> ec \<noteq> None" using c
      by (auto simp: cb_empty_def m_def completion_condition_def default_max_transfer_size_def split: if_splits)
    then show ?thesis using c True
      by (subst write_buffer_loop.simps) (auto simp: adapt_completion_condition_result_def m_def)
  next
    case False
    then have m: "0 < m" "?t < buffer_size bs" "ec = None" using c
      by (auto simp: cb_empty_def m_def) (metis completion_condition_error not_None_eq less_irrefl)
    obtain k where k: "k \<le> m" "seq_addrs (cb_prepare mb c m) = take k (drop ?t (seq_addrs bs))" "0 < k"
      using cb_prepare_prefix [OF less.prems, of m mb] m mb by auto
    have len: "buffer_size (cb_prepare mb c m) = min k (buffer_size bs - ?t)"
      using arg_cong [OF k(2), of length] by simp
    obtain n e mem' t1 where some: "next (mem, t) (cb_prepare mb c m) = (n, e, mem', t1)" by (metis prod_cases4)
    note W = writes_okD [OF w some]
    have n: "n \<le> buffer_size bs - ?t" "n \<le> k" "0 < n \<or> e \<noteq> None" using W(2,3) len k(3) m(2) by auto
    note cs = cb_consume_ok [OF less.prems n(1)]
    have step: "write_buffer_loop mb next Transfer_All (mem, t) c ec = write_buffer_loop mb next Transfer_All (mem, t1) (cb_consume c n) e"
      using False some W(1) by (subst write_buffer_loop.simps) (simp add: m_def adapt_completion_condition_result_def)
    have "buffer_size bs - cb_total_consumed (cb_consume c n) + (if e = None then 1 else 0 :: nat) <
        buffer_size bs - ?t + (if ec = None then 1 else 0)"
      using n m cs(2) by auto
    from less.hyps [OF this cs(1), of t1] obtain n' ec' t' where ih:
      "write_buffer_loop mb next Transfer_All (mem, t1) (cb_consume c n) e = Some (n', ec', mem, t')"
      "?t + n \<le> n'" "n' \<le> buffer_size bs" "n' = buffer_size bs \<or> ec' \<noteq> None"
      "sent t' = sent t1 @ map mem (take (n' - (?t + n)) (drop (?t + n) (seq_addrs bs)))" unfolding cs(2) by blast
    have "take n (seq_addrs (cb_prepare mb c m)) = take n (drop ?t (seq_addrs bs))" using n(2) by (simp add: k(2) min_absorb1)
    moreover have "take n (drop ?t (seq_addrs bs)) @ take (n' - (?t + n)) (drop (?t + n) (seq_addrs bs)) =
        take (n' - ?t) (drop ?t (seq_addrs bs))"
    proof -
      have "n' - ?t = n + (n' - (?t + n))" using ih(2) by simp
      then show ?thesis by (metis take_add drop_drop add.commute)
    qed
    ultimately have "sent t' = sent t @ map mem (take (n' - ?t) (drop ?t (seq_addrs bs)))"
      using ih(5) W(4) by (simp flip: map_append)
    then show ?thesis unfolding step using ih by auto
  qed
qed

lemma write_sequence_sends:
  assumes "writes_ok sent next" "0 < mb"
  shows "\<exists>n ec t'. write_buffer_sequence mb next (mem, t) bs Transfer_All = Some (n, ec, mem, t') \<and>
    n \<le> buffer_size bs \<and> (n = buffer_size bs \<or> ec \<noteq> None) \<and> sent t' = sent t @ map mem (take n (seq_addrs bs))"
  using write_loop_sends [OF assms cb_ok_ctor [of bs], of mem t None]
  by (simp add: write_buffer_sequence_def consuming_ctor_def)

text \<open>A flush sends a prefix of the contents and forgets it; the function that throws forgets nothing when it throws.\<close>

lemma flush_core:
  assumes "bss_ok (bf_storage b)" "writes_ok sent next" "0 < mb"
  shows "\<exists>n ec t b'.
    write_buffer_sequence mb next (bf_memory b, bf_next b) [buf_limit (bss_data (bf_storage b)) (bss_size (bf_storage b))] Transfer_All =
      Some (n, ec, bf_memory b, t) \<and>
    bf_consume n (b\<lparr>bf_next := t\<rparr>) = Some b' \<and> n \<le> length (stored b) \<and> (n = length (stored b) \<or> ec \<noteq> None) \<and>
    sent t = sent (bf_next b) @ take n (stored b) \<and>
    bss_ok (bf_storage b') \<and> same_place (bf_storage b') (bf_storage b) \<and> bf_next b' = t \<and> stored b' = drop n (stored b)"
proof -
  let ?g = "bf_storage b"
  let ?bs = "[buf_limit (bss_data ?g) (bss_size ?g)]"
  note d = data_addrs [OF assms(1)]
  have sz: "buffer_size ?bs = bss_size ?g" "seq_addrs ?bs = take (bss_size ?g) (buf_addrs (bss_data ?g))"
    using d(2) by (simp_all add: min_absorb2)
  from write_sequence_sends [OF assms(2,3), of "bf_memory b" "bf_next b" ?bs] obtain n ec t where w:
    "write_buffer_sequence mb next (bf_memory b, bf_next b) ?bs Transfer_All = Some (n, ec, bf_memory b, t)"
    "n \<le> bss_size ?g" "n = bss_size ?g \<or> ec \<noteq> None" "sent t = sent (bf_next b) @ map (bf_memory b) (take n (seq_addrs ?bs))"
    unfolding sz(1) by blast
  have "map (bf_memory b) (take n (seq_addrs ?bs)) = take n (stored b)" unfolding d(1) sz(2) by (simp add: take_map)
  moreover have "bss_ok (bf_storage (b\<lparr>bf_next := t\<rparr>))" "n \<le> bss_size (bf_storage (b\<lparr>bf_next := t\<rparr>))" using assms(1) w(2) by simp_all
  from bf_consume_ok [OF this] obtain b' where "bf_consume n (b\<lparr>bf_next := t\<rparr>) = Some b'" "bss_ok (bf_storage b')"
    "same_place (bf_storage b') ?g" "bf_next b' = t" "stored b' = drop n (stored (b\<lparr>bf_next := t\<rparr>))" by auto
  moreover have "stored (b\<lparr>bf_next := t\<rparr>) = stored b" by (simp add: stored_def)
  ultimately show ?thesis using w by auto
qed

lemma write_copy_ok:
  assumes "bss_ok (bf_storage b)" "user_bufs bs (bf_storage b)"
  shows "\<exists>n b'. write_copy bs b = Some (n, b') \<and> n = min (buffer_size bs) (bss_capacity (bf_storage b) - bss_size (bf_storage b)) \<and>
    bss_ok (bf_storage b') \<and> same_place (bf_storage b') (bf_storage b) \<and> bf_next b' = bf_next b \<and>
    stored b' = stored b @ map (bf_memory b) (take n (seq_addrs bs))"
proof -
  let ?g = "bf_storage b"
  define n where "n = min (buffer_size bs) (bss_capacity ?g - bss_size ?g)"
  have le: "bss_size ?g + n \<le> bss_capacity ?g" using size_le_capacity [OF assms(1)] by (auto simp: n_def)
  from bf_resize_ok [OF assms(1) le] obtain b1 where b1: "bf_resize (bss_size ?g + n) b = Some b1" "bss_ok (bf_storage b1)"
    "same_place (bf_storage b1) ?g" "bf_next b1 = bf_next b" "bss_size (bf_storage b1) = bss_size ?g + n"
    "take (bss_size ?g) (stored b1) = take (bss_size ?g + n) (stored b)" "\<forall>a. a \<notin> region ?g \<longrightarrow> bf_memory b1 a = bf_memory b a" by blast
  let ?t = "buf_plus (bss_data (bf_storage b1)) (bss_size ?g)"
  note d = data_addrs [OF b1(2)]
  have reg: "region (bf_storage b1) = region ?g" by (rule same_place_region [OF b1(3)])
  have t: "set (buf_addrs ?t) \<subseteq> region ?g" using d(3) reg set_drop_subset by fastforce
  have tn: "n \<le> ab_size ?t" using d(2) b1(5) by simp
  have user: "set (seq_addrs bs) \<inter> region ?g = {}" using assms(2) by (simp add: user_bufs_def)
  define ds ss where "ds = take n (buf_addrs ?t)" and "ss = seq_addrs bs"
  define mem where "mem = assign_bytes (zip ds ss) (bf_memory b1)"
  define b' where "b' = b1\<lparr>bf_memory := mem\<rparr>"
  have dis: "set ds \<inter> set ss = {}" using t user in_set_takeD [of _ n "buf_addrs ?t"] by (auto simp: ds_def ss_def)
  have cp: "copy_one_multi (bf_memory b1) ?t bs n = (mem, n)"
    using copy_one_loop_eq [of "buf_limit ?t n" bs "bf_memory b1" 0] dis tn
    by (simp add: copy_one_multi_def mem_def ds_def ss_def n_def min_absorb2)
  have nn: "(if buffer_size bs < bss_capacity ?g - bss_size ?g then buffer_size bs else bss_capacity ?g - bss_size ?g) = n"
    by (simp add: n_def min_def)
  have "write_copy bs b = Some (n, b')"
    using b1(1) cp unfolding write_copy_def Let_def nn by (simp add: b'_def)
  moreover have "stored b' = stored b @ map (bf_memory b) (take n (seq_addrs bs))"
  proof -
    let ?as = "take (bss_size (bf_storage b1)) (buf_addrs (bss_data (bf_storage b1)))"
    have split: "?as = take (bss_size ?g) ?as @ ds"
      using d(2) b1(5) by (simp add: ds_def take_add min_absorb1)
    have dst: "distinct ?as" by (simp add: buf_addrs_def)
    have len: "length ds = n" "n \<le> length ss" using tn by (simp_all add: ds_def ss_def n_def)
    have "stored b' = map mem ?as" using data_addrs(1) [of b'] b1(2) by (simp add: b'_def)
    also have "\<dots> = map mem (take (bss_size ?g) ?as) @ map mem ds" by (subst split) simp
    also have "map mem ds = map (bf_memory b1) (take n ss)"
    proof -
      have "distinct ds" by (simp add: ds_def distinct_take distinct_drop) (simp add: buf_addrs_def)
      from assign_map [OF this dis, of n "bf_memory b1"] len show ?thesis by (simp add: mem_def)
    qed
    also have "map (bf_memory b1) (take n ss) = map (bf_memory b) (take n ss)"
      using b1(7) user in_set_takeD [of _ n ss] by (intro map_cong refl) (auto simp: ss_def)
    also have "map mem (take (bss_size ?g) ?as) = map (bf_memory b1) (take (bss_size ?g) ?as)"
    proof (rule map_cong [OF refl])
      fix a assume "a \<in> set (take (bss_size ?g) ?as)"
      then have "a \<notin> set ds" using dst split by (metis distinct_append disjoint_iff)
      then show "mem a = bf_memory b1 a" by (simp add: mem_def assign_other)
    qed
    also have "map (bf_memory b1) (take (bss_size ?g) ?as) = stored b"
      using b1(6) le by (simp add: d(1) take_map)
    finally show ?thesis by (simp add: ss_def)
  qed
  ultimately show ?thesis using b1 by (intro exI [of _ n] exI [of _ b']) (simp add: n_def b'_def)
qed

text \<open>The histories of a stream on which no call throws. \<open>a\<close> is what the stream accepted from its user.\<close>

definition accepted :: "abuf list \<Rightarrow> nat \<Rightarrow> ('b, 't) buffered \<Rightarrow> 'b list" where
  "accepted bs n b = map (bf_memory b) (take n (seq_addrs bs))"

inductive write_history :: "nat \<Rightarrow> ('b, 't) layer \<Rightarrow> ('t \<Rightarrow> 'b list) \<Rightarrow> ('b, 't) buffered \<Rightarrow> 'b list \<Rightarrow> bool" for mb "next" sent where
  wh_start: "bf_storage b = buffered_stream_storage base cap \<Longrightarrow> sent (bf_next b) = [] \<Longrightarrow> write_history mb next sent b []"
| wh_flush_ec: "write_history mb next sent b a \<Longrightarrow> bf_flush_ec mb next b = Some (n, ec, b') \<Longrightarrow> write_history mb next sent b' a"
| wh_flush: "write_history mb next sent b a \<Longrightarrow> bf_flush mb next b = Some (Inr n, b') \<Longrightarrow> write_history mb next sent b' a"
| wh_write_ec: "write_history mb next sent b a \<Longrightarrow> user_bufs bs (bf_storage b) \<Longrightarrow> bf_write_some_ec mb next bs b = Some (n, ec, b') \<Longrightarrow>
    write_history mb next sent b' (a @ accepted bs n b)"
| wh_write: "write_history mb next sent b a \<Longrightarrow> user_bufs bs (bf_storage b) \<Longrightarrow> bf_write_some mb next bs b = Some (Inr n, b') \<Longrightarrow>
    write_history mb next sent b' (a @ accepted bs n b)"
| wh_async: "write_history mb next sent b a \<Longrightarrow> user_bufs bs (bf_storage b) \<Longrightarrow> bf_async_write_some mb next bs b = Some (n, ec, b') \<Longrightarrow>
    write_history mb next sent b' (a @ accepted bs n b)"
| wh_user: "write_history mb next sent b a \<Longrightarrow> \<forall>x \<in> region (bf_storage b). mem x = bf_memory b x \<Longrightarrow>
    write_history mb next sent (b\<lparr>bf_memory := mem\<rparr>) a"

definition write_inv :: "('t \<Rightarrow> 'b list) \<Rightarrow> ('b, 't) buffered \<Rightarrow> 'b list \<Rightarrow> bool" where
  "write_inv sent b a \<longleftrightarrow> bss_ok (bf_storage b) \<and> sent (bf_next b) @ stored b = a"

lemma accepted_0 [simp]: "accepted bs 0 b = []" by (simp add: accepted_def)

lemma write_copy_inv:
  assumes "write_inv sent b a" "user_bufs bs (bf_storage b)" "bf_memory b = bf_memory b0"
  shows "\<exists>n b'. write_copy bs b = Some (n, b') \<and> n = min (buffer_size bs) (bss_capacity (bf_storage b) - bss_size (bf_storage b)) \<and>
    write_inv sent b' (a @ accepted bs n b0)"
proof -
  from write_copy_ok [of b bs] assms obtain n b' where c: "write_copy bs b = Some (n, b')"
    "n = min (buffer_size bs) (bss_capacity (bf_storage b) - bss_size (bf_storage b))" "bss_ok (bf_storage b')"
    "bf_next b' = bf_next b" "stored b' = stored b @ map (bf_memory b) (take n (seq_addrs bs))" by (auto simp: write_inv_def)
  then have "write_inv sent b' (a @ accepted bs n b0)" using assms(1,3) by (auto simp: write_inv_def accepted_def)
  with c(1,2) show ?thesis by blast
qed

text \<open>A flush and what may follow it.\<close>

lemma flush_then_copy:
  assumes "write_inv sent b a" "writes_ok sent next" "0 < mb"
  shows "\<exists>n ec t b1. bf_flush_ec mb next b = Some (n, ec, b1) \<and>
    bf_flush mb next b = Some (case ec of Some e \<Rightarrow> (Inl e, b\<lparr>bf_next := t\<rparr>) | None \<Rightarrow> (Inr n, b1)) \<and>
    write_buffer_sequence mb next (bf_memory b, bf_next b) [buf_limit (bss_data (bf_storage b)) (bss_size (bf_storage b))] Transfer_All =
      Some (n, ec, bf_memory b, t) \<and> buffered_flush_handler n (b\<lparr>bf_next := t\<rparr>) = Some b1 \<and>
    write_inv sent b1 a \<and> same_place (bf_storage b1) (bf_storage b) \<and> bf_memory b1 = bf_memory b \<and>
    sent t = sent (bf_next b) @ take n (stored b) \<and> stored b1 = drop n (stored b) \<and> n \<le> length (stored b) \<and>
    (n = length (stored b) \<or> ec \<noteq> None)"
proof -
  have ok: "bss_ok (bf_storage b)" using assms(1) by (simp add: write_inv_def)
  from flush_core [OF ok assms(2,3)] obtain n ec t b1 where f:
    "write_buffer_sequence mb next (bf_memory b, bf_next b) [buf_limit (bss_data (bf_storage b)) (bss_size (bf_storage b))] Transfer_All =
      Some (n, ec, bf_memory b, t)" "bf_consume n (b\<lparr>bf_next := t\<rparr>) = Some b1" "n \<le> length (stored b)"
    "n = length (stored b) \<or> ec \<noteq> None" "sent t = sent (bf_next b) @ take n (stored b)"
    "bss_ok (bf_storage b1)" "same_place (bf_storage b1) (bf_storage b)" "bf_next b1 = t" "stored b1 = drop n (stored b)" by blast
  have m: "bf_memory b1 = bf_memory b" using f(2) by (auto simp: bf_consume_def)
  have "bf_flush_ec mb next b = Some (n, ec, b1)" using f(1,2) by (simp add: bf_flush_ec_def)
  moreover have "bf_flush mb next b = Some (case ec of Some e \<Rightarrow> (Inl e, b\<lparr>bf_next := t\<rparr>) | None \<Rightarrow> (Inr n, b1))"
    using f(1,2) by (cases ec) (simp_all add: bf_flush_def Let_def)
  moreover have "write_inv sent b1 a" using assms(1) f(5,6,8,9) by (auto simp: write_inv_def)
  moreover have "buffered_flush_handler n (b\<lparr>bf_next := t\<rparr>) = Some b1" using f(2) by (simp add: buffered_flush_handler_def)
  ultimately show ?thesis using f m by blast
qed

lemma flush_throw_again:
  assumes "write_inv sent b a" "writes_ok sent next" "0 < mb" "bf_flush mb next b = Some (Inl e, b')"
  shows "stored b' = stored b \<and> (\<exists>k \<le> length (stored b). sent (bf_next b') = sent (bf_next b) @ take k (stored b))"
proof -
  from flush_then_copy [OF assms(1-3)] obtain n ec t b1 where
    f: "bf_flush mb next b = Some (case ec of Some e \<Rightarrow> (Inl e, b\<lparr>bf_next := t\<rparr>) | None \<Rightarrow> (Inr n, b1))"
      "sent t = sent (bf_next b) @ take n (stored b)" "n \<le> length (stored b)" by blast
  with assms(4) have "b' = b\<lparr>bf_next := t\<rparr>" by (cases ec) auto
  with f(2,3) show ?thesis by (auto simp: stored_def)
qed

lemma write_some_ec_ok:
  assumes "write_inv sent b a" "writes_ok sent next" "0 < mb" "user_bufs bs (bf_storage b)"
  shows "\<exists>n ec b'. bf_write_some_ec mb next bs b = Some (n, ec, b') \<and> write_inv sent b' (a @ accepted bs n b)"
proof (cases "buffer_size bs = 0")
  case True
  then show ?thesis using assms(1) by (simp add: bf_write_some_ec_def)
next
  case F: False
  show ?thesis
  proof (cases "bss_size (bf_storage b) = bss_capacity (bf_storage b)")
    case False
    from write_copy_inv [OF assms(1,4) refl] F False show ?thesis by (auto simp: bf_write_some_ec_def)
  next
    case True
    from flush_then_copy [OF assms(1-3)] obtain k ec b1 where f: "bf_flush_ec mb next b = Some (k, ec, b1)" "write_inv sent b1 a"
      "same_place (bf_storage b1) (bf_storage b)" "bf_memory b1 = bf_memory b" by blast
    from write_copy_inv [OF f(2) user_bufs_same [OF f(3) assms(4)] f(4)] obtain n b2 where
      "write_copy bs b1 = Some (n, b2)" "write_inv sent b2 (a @ accepted bs n b)" by blast
    with F True f show ?thesis by (cases "k = 0") (auto simp: bf_write_some_ec_def)
  qed
qed

lemma write_some_ok:
  assumes "write_inv sent b a" "writes_ok sent next" "0 < mb" "user_bufs bs (bf_storage b)"
  shows "\<exists>r b'. bf_write_some mb next bs b = Some (r, b') \<and> (\<forall>n. r = Inr n \<longrightarrow> write_inv sent b' (a @ accepted bs n b)) \<and>
    (\<forall>e. r = Inl e \<longrightarrow> bf_flush mb next b = Some (Inl e, b'))"
proof (cases "buffer_size bs = 0")
  case True
  then show ?thesis using assms(1) by (simp add: bf_write_some_def)
next
  case F: False
  show ?thesis
  proof (cases "bss_size (bf_storage b) = bss_capacity (bf_storage b)")
    case False
    from write_copy_inv [OF assms(1,4) refl] F False show ?thesis by (auto simp: bf_write_some_def)
  next
    case True
    from flush_then_copy [OF assms(1-3)] obtain k ec t b1 where
      f: "bf_flush mb next b = Some (case ec of Some e \<Rightarrow> (Inl e, b\<lparr>bf_next := t\<rparr>) | None \<Rightarrow> (Inr k, b1))" "write_inv sent b1 a"
      "same_place (bf_storage b1) (bf_storage b)" "bf_memory b1 = bf_memory b" by blast
    from write_copy_inv [OF f(2) user_bufs_same [OF f(3) assms(4)] f(4)] obtain n b2 where
      "write_copy bs b1 = Some (n, b2)" "write_inv sent b2 (a @ accepted bs n b)" by blast
    with F True f show ?thesis by (cases ec) (auto simp: bf_write_some_def)
  qed
qed

lemma null_write:
  assumes "writes_ok sent next" "bf_call next [mk_buf 0 0] b = (n, ec, b')"
  shows "bf_storage b' = bf_storage b" "bf_memory b' = bf_memory b" "sent (bf_next b') = sent (bf_next b)"
proof -
  obtain mem t where c: "next (bf_memory b, bf_next b) [mk_buf 0 0] = (n, ec, mem, t)" "b' = b\<lparr>bf_memory := mem, bf_next := t\<rparr>"
    using assms(2) by (auto simp: bf_call_def split: prod.splits)
  note W = writes_okD [OF assms(1) c(1)]
  show "bf_storage b' = bf_storage b" "bf_memory b' = bf_memory b" "sent (bf_next b') = sent (bf_next b)"
    using W(1,2,4) c(2) by (simp_all add: mk_buf_def)
qed

lemma async_write_some_ok:
  assumes "write_inv sent b a" "writes_ok sent next" "0 < mb" "user_bufs bs (bf_storage b)"
  shows "\<exists>n ec b'. bf_async_write_some mb next bs b = Some (n, ec, b') \<and> write_inv sent b' (a @ accepted bs n b) \<and> (ec \<noteq> None \<longrightarrow> n = 0)"
proof (cases "buffer_size bs = 0 \<or> bss_size (bf_storage b) < bss_capacity (bf_storage b)")
  case True
  obtain n ec b1 where c: "bf_call next [mk_buf 0 0] b = (n, ec, b1)" by (metis prod_cases3)
  note z = null_write [OF assms(2) c]
  have i1: "write_inv sent b1 a" using assms(1) z by (simp add: write_inv_def stored_def)
  have u1: "user_bufs bs (bf_storage b1)" using assms(4) z(1) by simp
  from write_copy_inv [OF i1 u1 z(2)] True c i1 show ?thesis
    by (cases ec) (auto simp: bf_async_write_some_def buffered_write_some_handler_def)
next
  case False
  from flush_then_copy [OF assms(1-3)] obtain k ec t b1 where
    f: "write_buffer_sequence mb next (bf_memory b, bf_next b) [buf_limit (bss_data (bf_storage b)) (bss_size (bf_storage b))] Transfer_All =
      Some (k, ec, bf_memory b, t)" "buffered_flush_handler k (b\<lparr>bf_next := t\<rparr>) = Some b1" "write_inv sent b1 a"
    "same_place (bf_storage b1) (bf_storage b)" "bf_memory b1 = bf_memory b" by blast
  from write_copy_inv [OF f(3) user_bufs_same [OF f(4) assms(4)] f(5)] obtain n b2 where
    "write_copy bs b1 = Some (n, b2)" "write_inv sent b2 (a @ accepted bs n b)" by blast
  with False f show ?thesis by (cases ec) (auto simp: bf_async_write_some_def buffered_write_some_handler_def)
qed

lemma flush_inv:
  assumes "write_inv sent b a" "writes_ok sent next" "0 < mb"
  shows "\<exists>n ec b'. bf_flush_ec mb next b = Some (n, ec, b') \<and> write_inv sent b' a \<and> (ec = None \<longrightarrow> stored b' = [])"
    "bf_flush mb next b = Some (Inr n, b') \<Longrightarrow> write_inv sent b' a"
    "bf_flush mb next b \<noteq> None"
proof -
  from flush_then_copy [OF assms] obtain k ec t b1 where f: "bf_flush_ec mb next b = Some (k, ec, b1)"
    "bf_flush mb next b = Some (case ec of Some e \<Rightarrow> (Inl e, b\<lparr>bf_next := t\<rparr>) | None \<Rightarrow> (Inr k, b1))" "write_inv sent b1 a"
    "stored b1 = drop k (stored b)" "k = length (stored b) \<or> ec \<noteq> None" by blast
  then show "\<exists>n ec b'. bf_flush_ec mb next b = Some (n, ec, b') \<and> write_inv sent b' a \<and> (ec = None \<longrightarrow> stored b' = [])" by auto
  show "bf_flush mb next b \<noteq> None" using f(2) by simp
  show "bf_flush mb next b = Some (Inr n, b') \<Longrightarrow> write_inv sent b' a" using f(2,3) by (cases ec) auto
qed

lemma write_history_inv:
  assumes "writes_ok sent next" "0 < mb"
  shows "write_history mb next sent b a \<Longrightarrow> write_inv sent b a"
proof (induction rule: write_history.induct)
  case (wh_start b base cap)
  then show ?case by (simp add: write_inv_def buffered_stream_storage_def bss_ok_def stored_def)
next
  case (wh_flush_ec b a n ec b')
  then show ?case using flush_inv(1) [OF wh_flush_ec.IH assms] by auto
next
  case (wh_flush b a n b')
  then show ?case using flush_inv(2) [OF wh_flush.IH assms] by auto
next
  case (wh_write_ec b a bs n ec b')
  then show ?case using write_some_ec_ok [OF wh_write_ec.IH assms wh_write_ec.hyps(2)] by auto
next
  case (wh_write b a bs n b')
  then show ?case using write_some_ok [OF wh_write.IH assms wh_write.hyps(2)] by auto
next
  case (wh_async b a bs n ec b')
  then show ?case using async_write_some_ok [OF wh_async.IH assms wh_async.hyps(2)] by auto
next
  case (wh_user b a mem)
  have "stored (b\<lparr>bf_memory := mem\<rparr>) = stored b"
    by (rule stored_same) (use wh_user in \<open>auto simp: write_inv_def\<close>)
  with wh_user.IH show ?case by (simp add: write_inv_def)
qed

text \<open>C18: A buffered write stream sends what it accepted, in order and once, as long as its flush does not throw. After every history of writes,
  asynchronous writes and flushes, with errors, what was sent followed by what the storage holds is what the stream accepted; every
  call returns; a flush without an error leaves the storage empty. But a flush that throws after it sent \<open>k\<close> bytes keeps
  them in the storage, so the next flush sends them again.\<close>

theorem buffered_writes_in_order:
  assumes "writes_ok sent next" "0 < mb" "write_history mb next sent b a"
  shows "sent (bf_next b) @ stored b = a \<and>
    (\<exists>n ec b'. bf_flush_ec mb next b = Some (n, ec, b') \<and> sent (bf_next b') @ stored b' = a \<and> (ec = None \<longrightarrow> stored b' = [])) \<and>
    bf_flush mb next b \<noteq> None \<and>
    (\<forall>e b'. bf_flush mb next b = Some (Inl e, b') \<longrightarrow>
       stored b' = stored b \<and> (\<exists>k \<le> length (stored b). sent (bf_next b') = sent (bf_next b) @ take k (stored b))) \<and>
    (\<forall>bs. user_bufs bs (bf_storage b) \<longrightarrow>
       (\<exists>n ec b'. bf_write_some_ec mb next bs b = Some (n, ec, b') \<and> sent (bf_next b') @ stored b' = a @ accepted bs n b) \<and>
       (\<exists>r b'. bf_write_some mb next bs b = Some (r, b') \<and> (\<forall>n. r = Inr n \<longrightarrow> sent (bf_next b') @ stored b' = a @ accepted bs n b)) \<and>
       (\<exists>n ec b'. bf_async_write_some mb next bs b = Some (n, ec, b') \<and> (ec \<noteq> None \<longrightarrow> n = 0) \<and>
          sent (bf_next b') @ stored b' = a @ accepted bs n b))"
proof -
  note i = write_history_inv [OF assms]
  show ?thesis
  proof (intro conjI allI impI, goal_cases)
    case 1
    show ?case using i by (simp add: write_inv_def)
  next
    case 2
    from flush_inv(1) [OF i assms(1,2)] show ?case by (auto simp: write_inv_def)
  next
    case 3
    show ?case by (rule flush_inv(3) [OF i assms(1,2)])
  next
    case (4 e b')
    then show ?case using flush_throw_again [OF i assms(1,2)] by blast
  next
    case (5 e b')
    then show ?case using flush_throw_again [OF i assms(1,2)] by blast
  next
    case (6 bs)
    from write_some_ec_ok [OF i assms(1,2) 6] show ?case by (auto simp: write_inv_def)
  next
    case (7 bs)
    from write_some_ok [OF i assms(1,2) 7] show ?case by (auto simp: write_inv_def)
  next
    case (8 bs)
    from async_write_some_ok [OF i assms(1,2) 8] show ?case by (auto simp: write_inv_def)
  qed
qed

text \<open>A layer that records what it sends, and fails with its third call after that many bytes.\<close>

definition logging_layer :: "(nat, nat list \<times> nat) layer" where
  "logging_layer x bs =
     (case x of (mem, sent, calls) \<Rightarrow>
        if calls = 1 then (0, Some (Sys_Error 11), mem, sent, 2)
        else (let n = min 2 (buffer_size bs) in (n, None, mem, sent @ map mem (take n (seq_addrs bs)), calls + 1)))"

lemma logging_writes_ok: "writes_ok fst logging_layer"
  by (auto simp: writes_ok_def logging_layer_def Let_def)

definition logging_stream :: "(nat, nat list \<times> nat) buffered" where
  "logging_stream = \<lparr> bf_storage = buffered_stream_storage 100 8, bf_memory = (\<lambda>a. a), bf_next = ([], 0) \<rparr>"

lemma logging_user: "user_bufs [mk_buf 0 3] (bf_storage logging_stream)"
  by (auto simp: user_bufs_def mk_buf_def buf_addrs_def region_def logging_stream_def buffered_stream_storage_def)

lemma logging_value:
  "case bf_write_some_ec 64 logging_layer [mk_buf 0 3] logging_stream of
     Some (n, ec, b) \<Rightarrow> n = 3 \<and> ec = None \<and> bf_next b = ([], 0) \<and>
       bf_storage b = \<lparr> bss_base = 100, bss_capacity = 8, bss_begin = 0, bss_end = 3 \<rparr> \<and> bf_memory b 100 = 0 \<and> bf_memory b 101 = 1
   | None \<Rightarrow> False"
  by code_simp

text \<open>Two of the three bytes of the storage are sent before the error.\<close>

lemma logging_loop:
  "write_buffer_sequence 64 logging_layer (mem, [], 0) [mk_buf 100 3] Transfer_All =
     Some (2, Some (Sys_Error 11), mem, [mem 100, mem 101], 2)"
  by (simp add: write_buffer_sequence_def write_buffer_loop.simps consuming_ctor_def cb_empty_def completion_condition_def
      adapt_completion_condition_result_def default_max_transfer_size_def cb_prepare_def max_prepared_def prepare_loop.simps
      cb_consume_def consume_loop.simps logging_layer_def mk_buf_def buf_plus_def buf_limit_def buf_addrs_def upt_rec Let_def)

theorem buffered_writes_in_order_witness:
  "\<exists>b e b'. write_history 64 logging_layer fst b [0, 1, 2] \<and> fst (bf_next b) @ stored b = [0, 1, 2] \<and>
     bf_flush 64 logging_layer b = Some (Inl e, b') \<and> fst (bf_next b') = [0, 1] \<and> stored b' = stored b"
proof -
  obtain b where b: "bf_write_some_ec 64 logging_layer [mk_buf 0 3] logging_stream = Some (3, None, b)" "bf_next b = ([], 0)"
      "bf_storage b = \<lparr> bss_base = 100, bss_capacity = 8, bss_begin = 0, bss_end = 3 \<rparr>" "bf_memory b 100 = 0" "bf_memory b 101 = 1"
    using logging_value by (auto split: option.splits)
  define b' where "b' = b\<lparr>bf_next := ([0, 1], 2)\<rparr>"
  have "buf_limit (bss_data (bf_storage b)) (bss_size (bf_storage b)) = mk_buf 100 3"
    by (simp add: b(3) bss_data_def bss_size_def buf_plus_def buf_limit_def mk_buf_def)
  then have f: "bf_flush 64 logging_layer b = Some (Inl (Sys_Error 11), b')"
    by (simp add: bf_flush_def logging_loop b(2,4,5) b'_def)
  have f': "fst (bf_next b') = [0, 1]" by (simp add: b'_def)
  have "write_history 64 logging_layer fst logging_stream []"
    by (rule wh_start [of _ 100 8]) (simp_all add: logging_stream_def)
  from wh_write_ec [OF this logging_user b(1)] have h: "write_history 64 logging_layer fst b [0, 1, 2]"
    by (simp add: accepted_def logging_stream_def mk_buf_def buf_addrs_def upt_rec numeral_2_eq_2)
  have "(0 :: nat) < 64" by simp
  note T = buffered_writes_in_order [OF logging_writes_ok this h]
  have "stored b' = stored b" using T f by blast
  moreover have "fst (bf_next b) @ stored b = [0, 1, 2]" using T by blast
  ultimately show ?thesis using h f f' by blast
qed

end
