(* ===== verification/Fifo_Spec.thy ===== *)
theory Fifo_Spec
  imports Xsix_Prelude
begin

text \<open>
  The contract of a first-in first-out store: what a client may rely on, stated once as a locale
  over any representation. The stores of the program (the ring buffer, the thread-safe list, the
  blocking queue) discharge its laws in their own theories.
\<close>

section \<open>Histories of a store\<close>

datatype 'a fifo_op = Put "'a list" | Get nat

fun fifo_run ::
  "('b \<Rightarrow> 'a list \<Rightarrow> 'b res) \<Rightarrow> ('b \<Rightarrow> nat \<Rightarrow> ('b \<times> 'a list) res) \<Rightarrow> 'b \<Rightarrow> 'a fifo_op list \<Rightarrow>
   ('b \<times> 'a list) res" where
  "fifo_run put get b [] = Inr (b, [])"
| "fifo_run put get b (Put xs # ops) = bind_res (put b xs) (\<lambda>b'. fifo_run put get b' ops)"
| "fifo_run put get b (Get n # ops) =
     bind_res (get b n) (\<lambda>(b', out).
     bind_res (fifo_run put get b' ops) (\<lambda>(b'', rest). Inr (b'', out @ rest)))"

text \<open>The abstract store is a list; \<open>cap\<close> bounds what it holds after every step.\<close>

fun list_run :: "'a list \<Rightarrow> 'a fifo_op list \<Rightarrow> 'a list \<times> 'a list" where
  "list_run q [] = (q, [])"
| "list_run q (Put xs # ops) = list_run (q @ xs) ops"
| "list_run q (Get n # ops) = (let (q', rest) = list_run (drop n q) ops in (q', take n q @ rest))"

fun fits :: "nat \<Rightarrow> nat \<Rightarrow> 'a fifo_op list \<Rightarrow> bool" where
  "fits cap n [] = True"
| "fits cap n (Put xs # ops) = (n + length xs \<le> cap \<and> fits cap (n + length xs) ops)"
| "fits cap n (Get k # ops) = fits cap (n - k) ops"

fun inputs :: "'a fifo_op list \<Rightarrow> 'a list" where
  "inputs [] = []"
| "inputs (Put xs # ops) = xs @ inputs ops"
| "inputs (Get n # ops) = inputs ops"

lemma list_run_conserves: "list_run q ops = (q', out) \<Longrightarrow> out @ q' = q @ inputs ops"
proof (induction q ops arbitrary: q' out rule: list_run.induct)
  case (3 q n ops)
  then obtain rest where "list_run (drop n q) ops = (q', rest)" "out = take n q @ rest"
    by (auto split: prod.splits)
  with "3.IH" have "rest @ q' = drop n q @ inputs ops" by blast
  with \<open>out = take n q @ rest\<close> show ?case by (metis append_assoc append_take_drop_id inputs.simps(3))
qed auto

section \<open>The interface\<close>

locale fifo_store =
  fixes inv :: "'b \<Rightarrow> bool"
    and view :: "'b \<Rightarrow> 'a list"
    and cap :: "'b \<Rightarrow> nat"
    and put :: "'b \<Rightarrow> 'a list \<Rightarrow> 'b res"
    and get :: "'b \<Rightarrow> nat \<Rightarrow> ('b \<times> 'a list) res"
  assumes put_law: "inv b \<Longrightarrow> length (view b) + length xs \<le> cap b \<Longrightarrow>
      \<exists>b'. put b xs = Inr b' \<and> inv b' \<and> view b' = view b @ xs \<and> cap b' = cap b"
    and get_law: "inv b \<Longrightarrow>
      \<exists>b'. get b n = Inr (b', take n (view b)) \<and> inv b' \<and> view b' = drop n (view b) \<and> cap b' = cap b"
begin

lemma run_refines_list:
  assumes "inv b" and "fits (cap b) (length (view b)) ops"
  shows "\<exists>b' out. fifo_run put get b ops = Inr (b', out) \<and> inv b' \<and> cap b' = cap b \<and>
    list_run (view b) ops = (view b', out)"
  using assms
proof (induction ops arbitrary: b)
  case Nil
  then show ?case by simp
next
  case (Cons op ops)
  show ?case
  proof (cases op)
    case (Put xs)
    then obtain b1 where "put b xs = Inr b1" "inv b1" "view b1 = view b @ xs" "cap b1 = cap b"
      using put_law [of b xs] Cons.prems by auto
    then show ?thesis using Cons.IH [of b1] Cons.prems Put by auto
  next
    case (Get n)
    obtain b1 where "get b n = Inr (b1, take n (view b))" "inv b1" "view b1 = drop n (view b)"
        "cap b1 = cap b"
      using get_law [of b n] Cons.prems by auto
    then show ?thesis using Cons.IH [of b1] Cons.prems Get by (auto split: prod.splits)
  qed
qed

lemma run_conserves:
  assumes "inv b" and "fits (cap b) (length (view b)) ops"
  shows "\<exists>b' out. fifo_run put get b ops = Inr (b', out) \<and> inv b' \<and>
    out @ view b' = view b @ inputs ops"
  using run_refines_list [OF assms] list_run_conserves by blast

end

end
