(* ===== verification/Buffer.thy ===== *)
theory Buffer
  imports Fifo_Spec
begin

text \<open>
  The ring buffer \<open>xsix::buffer\<close> of \<open>src/src/xsix/buffer.hpp\<close>: its fields, every
  public and private operation, the invariant of a well-formed buffer, the byte sequence such a
  buffer stands for, and the FIFO contract its operations keep while no growth is needed.
  A cell of a heap block is \<open>None\<close> while the byte is indeterminate (fresh from \<open>malloc\<close>).
  \<open>malloc\<close> is taken to succeed, which is what the \<open>XASSERT\<close> after each call demands.
\<close>

section \<open>State\<close>

type_synonym cell = "char option"

record buffer =
  m_data :: "cell list option"
  m_size :: int
  m_head :: int
  m_tail :: int
  m_full :: bool

definition BUFFER_SIZE_SMALL :: int where
  "BUFFER_SIZE_SMALL = 64"

definition BUFFER_SIZE_RAW :: int where
  "BUFFER_SIZE_RAW = 1024"

definition BUFFER_SIZE_MAX :: int where
  "BUFFER_SIZE_MAX = BUFFER_SIZE_RAW * BUFFER_SIZE_RAW"

lemmas buffer_consts = BUFFER_SIZE_SMALL_def BUFFER_SIZE_RAW_def BUFFER_SIZE_MAX_def

section \<open>Observers\<close>

definition buffer_full :: "buffer \<Rightarrow> bool" where
  "buffer_full b = m_full b"

definition buffer_empty :: "buffer \<Rightarrow> bool" where
  "buffer_empty b = (m_head b = m_tail b \<and> \<not> buffer_full b)"

definition buffer_length :: "buffer \<Rightarrow> int" where
  "buffer_length b =
     (if buffer_empty b then 0
      else if buffer_full b then m_size b
      else if m_head b < m_tail b then m_tail b - m_head b
      else (m_size b - m_head b) + m_tail b)"

definition get_free_size :: "buffer \<Rightarrow> int" where
  "get_free_size b = m_size b - buffer_length b"

section \<open>Allocation and growth\<close>

definition buffer_cleanup :: "buffer \<Rightarrow> buffer" where
  "buffer_cleanup b = b\<lparr>m_data := None, m_size := 0, m_head := 0, m_tail := 0, m_full := False\<rparr>"

definition buffer_clear :: "buffer \<Rightarrow> buffer" where
  "buffer_clear b = b\<lparr>m_tail := 0, m_head := 0, m_full := False\<rparr>"

definition is_valid_size :: "int \<Rightarrow> bool" where
  "is_valid_size sz \<longleftrightarrow> sz > 0 \<and> sz \<le> BUFFER_SIZE_MAX"

text \<open>The growth loop; \<open>None\<close> when it never leaves the loop.\<close>

partial_function (option) refix_loop :: "int \<Rightarrow> int \<Rightarrow> int option" where
  "refix_loop tmp newsize =
     (if tmp < newsize then
        (if tmp < BUFFER_SIZE_RAW then refix_loop (tmp * 2) newsize
         else if tmp < BUFFER_SIZE_MAX then refix_loop (tmp + BUFFER_SIZE_RAW) newsize
         else refix_loop tmp newsize)
      else Some tmp)"

definition refix_new_size :: "int \<Rightarrow> int \<Rightarrow> int option" where
  "refix_new_size oldsize newsize =
     (if newsize \<le> BUFFER_SIZE_SMALL then Some BUFFER_SIZE_SMALL
      else refix_loop oldsize newsize)"

definition xmalloc :: "int \<Rightarrow> cell list" where
  "xmalloc n = replicate (nat n) None"

definition buffer_realloc :: "buffer \<Rightarrow> int \<Rightarrow> buffer res" where
  "buffer_realloc b newsize =
     (if newsize \<le> 0 then Inr b
      else
        let new_data = xmalloc newsize in
        bind_res
          (case m_data b of
             None \<Rightarrow> Inr new_data
           | Some d \<Rightarrow>
               if m_head b < m_tail b then
                 bind_res (mem_read d (m_head b) (m_tail b - m_head b)) (mem_write new_data 0)
               else
                 let right_free = m_size b - m_head b in
                 bind_res (mem_read d (m_head b) right_free) (\<lambda>x1.
                 bind_res (mem_write new_data 0 x1) (\<lambda>nd.
                 bind_res (mem_read d 0 (m_tail b)) (mem_write nd right_free))))
          (\<lambda>nd.
             let b1 = b\<lparr>m_data := Some nd, m_head := 0\<rparr>;
                 b2 = b1\<lparr>m_tail := buffer_length b1\<rparr>;
                 b3 = b2\<lparr>m_size := newsize\<rparr>
             in Inr (b3\<lparr>m_full := (m_tail b3 = m_size b3)\<rparr>)))"

definition buffer_resize :: "buffer \<Rightarrow> int \<Rightarrow> (buffer \<times> bool) res" where
  "buffer_resize b newsize =
     (if \<not> is_valid_size newsize then Inr (b, False)
      else if m_size b \<ge> newsize then Inr (b, True)
      else case refix_new_size (m_size b) newsize of
             None \<Rightarrow> Inl Diverges
           | Some newsize' \<Rightarrow>
               if \<not> is_valid_size newsize' then Inr (b, False)
               else bind_res (buffer_realloc b newsize') (\<lambda>b'. Inr (b', True)))"

definition buffer_copy_from :: "buffer \<Rightarrow> cell list option \<Rightarrow> int \<Rightarrow> int \<Rightarrow> buffer res" where
  "buffer_copy_from b src len sz =
     (case src of
        None \<Rightarrow> Inr b
      | Some s \<Rightarrow>
          if len > 0 \<and> len \<le> sz then
            bind_res (chk_i32 (m_tail b + len)) (\<lambda>t.
            bind_res (chk_rem t sz) (\<lambda>tail'.
            bind_res (mem_read s 0 len) (\<lambda>xs.
            bind_res (mem_write (xmalloc len) 0 xs) (\<lambda>d.
              Inr (b\<lparr>m_data := Some d, m_size := sz, m_head := 0, m_tail := tail',
                     m_full := (tail' = sz)\<rparr>)))))
          else Inr b)"

section \<open>Constructors\<close>

definition buffer_raw :: buffer where
  "buffer_raw = \<lparr>m_data = None, m_size = 0, m_head = 0, m_tail = 0, m_full = False\<rparr>"

definition buffer_ctor :: "int \<Rightarrow> buffer res" where
  "buffer_ctor init_size =
     (let b = buffer_cleanup buffer_raw;
          n1 = (if init_size > BUFFER_SIZE_SMALL then init_size else BUFFER_SIZE_SMALL);
          n2 = (if n1 > BUFFER_SIZE_MAX then BUFFER_SIZE_MAX else n1)
      in bind_res (buffer_resize b n2) (\<lambda>(b', ok). Inr b'))"

definition buffer_ctor_string :: "string \<Rightarrow> buffer res" where
  "buffer_ctor_string s =
     (let n = int (length s) in
      buffer_copy_from (buffer_cleanup buffer_raw) (Some (map Some (s @ [nul])))
        (to_i32 n) (to_i32 (to_u64 (n + n div 2))))"

section \<open>Appending\<close>

definition check_full_after_append :: "buffer \<Rightarrow> int \<Rightarrow> int \<Rightarrow> buffer" where
  "check_full_after_append b oldtail newtail = b\<lparr>m_full := (m_head b = newtail)\<rparr>"

definition check_full_after_writeto :: "buffer \<Rightarrow> int \<Rightarrow> int \<Rightarrow> buffer" where
  "check_full_after_writeto b oldhead newhead = b\<lparr>m_full := False\<rparr>"

definition buffer_store :: "buffer \<Rightarrow> cell list \<Rightarrow> int \<Rightarrow> (buffer \<times> int) res" where
  "buffer_store b src sz =
     (case m_data b of
        None \<Rightarrow> Inl Null_Deref
      | Some d \<Rightarrow>
          bind_res
            (if m_head b \<le> m_tail b then
               let right_free = m_size b - m_tail b in
               if sz \<le> right_free
               then bind_res (mem_read src 0 sz) (mem_write d (m_tail b))
               else
                 bind_res (mem_read src 0 right_free) (\<lambda>x1.
                 bind_res (mem_write d (m_tail b) x1) (\<lambda>d1.
                 bind_res (mem_read src right_free (sz - right_free)) (mem_write d1 0)))
             else bind_res (mem_read src 0 sz) (mem_write d (m_tail b)))
            (\<lambda>d'.
               bind_res (chk_i32 (m_tail b + sz)) (\<lambda>s.
               bind_res (chk_rem s (m_size b)) (\<lambda>newtail.
                 Inr (check_full_after_append (b\<lparr>m_data := Some d', m_tail := newtail\<rparr>)
                        (m_tail b) newtail, sz)))))"

definition buffer_append :: "buffer \<Rightarrow> cell list option \<Rightarrow> int \<Rightarrow> (buffer \<times> int) res" where
  "buffer_append b src sz =
     (case src of
        None \<Rightarrow> Inr (b, 0)
      | Some s \<Rightarrow>
          if sz \<le> 0 then Inr (b, 0)
          else if get_free_size b < sz then
            bind_res (chk_i32 (buffer_length b + sz)) (\<lambda>want.
            bind_res (buffer_resize b want) (\<lambda>(b', ok).
              if \<not> ok then Inr (b', 0) else buffer_store b' s sz))
          else buffer_store b s sz)"

section \<open>Reading\<close>

text \<open>
  The two \<open>memcpy\<close> branches that \<open>write_to\<close> and \<open>peek\<close> have in common: \<open>size\<close> bytes
  from the head on go to the start of the block \<open>dst\<close>.
\<close>

definition buffer_copy_out :: "buffer \<Rightarrow> cell list \<Rightarrow> int \<Rightarrow> cell list res" where
  "buffer_copy_out b dst sz =
     (case m_data b of
        None \<Rightarrow> Inl Null_Deref
      | Some d \<Rightarrow>
          if m_head b < m_tail b then
            bind_res (mem_read d (m_head b) sz) (mem_write dst 0)
          else
            let right_free = m_size b - m_head b in
            if sz \<le> right_free then
              bind_res (mem_read d (m_head b) sz) (mem_write dst 0)
            else
              bind_res (mem_read d (m_head b) right_free) (\<lambda>x1.
              bind_res (mem_write dst 0 x1) (\<lambda>dst1.
              bind_res (mem_read d 0 (sz - right_free)) (mem_write dst1 right_free))))"

definition buffer_advance :: "buffer \<Rightarrow> int \<Rightarrow> buffer res" where
  "buffer_advance b sz =
     bind_res (chk_i32 (m_head b + sz)) (\<lambda>s.
     bind_res (chk_rem s (m_size b)) (\<lambda>newhead.
       Inr (check_full_after_writeto (b\<lparr>m_head := newhead\<rparr>) (m_head b) newhead)))"

definition buffer_write_to ::
  "buffer \<Rightarrow> cell list option \<Rightarrow> int \<Rightarrow> (buffer \<times> cell list option \<times> int) res" where
  "buffer_write_to b dst sz =
     (case dst of
        None \<Rightarrow> Inr (b, dst, 0)
      | Some p \<Rightarrow>
          if sz = 0 then Inr (b, dst, 0)
          else if buffer_empty b then Inr (b, dst, 0)
          else
            let n = (if buffer_length b < sz then buffer_length b else sz) in
            bind_res (buffer_copy_out b p n) (\<lambda>p'.
            bind_res (buffer_advance b n) (\<lambda>b'. Inr (b', Some p', n))))"

definition buffer_peek ::
  "buffer \<Rightarrow> cell list option \<Rightarrow> int \<Rightarrow> (cell list option \<times> int) res" where
  "buffer_peek b dst sz =
     (case dst of
        None \<Rightarrow> Inr (dst, 0)
      | Some p \<Rightarrow>
          if sz = 0 then Inr (dst, 0)
          else if buffer_empty b then Inr (dst, 0)
          else
            let n = (if buffer_length b < sz then buffer_length b else sz) in
            bind_res (buffer_copy_out b p n) (\<lambda>p'. Inr (Some p', n)))"

definition buffer_skip :: "buffer \<Rightarrow> int \<Rightarrow> (buffer \<times> bool) res" where
  "buffer_skip b sz =
     (if sz \<le> 0 then Inr (b, False)
      else if buffer_length b < sz then Inr (b, False)
      else bind_res (buffer_advance b sz) (\<lambda>b'. Inr (b', True)))"

section \<open>Text\<close>

text \<open>Reading a C string out of a block: up to the first NUL byte.\<close>

fun string_of_cells :: "cell list \<Rightarrow> string res" where
  "string_of_cells [] = Inl Out_Of_Bounds"
| "string_of_cells (None # cs) = Inl Indeterminate_Read"
| "string_of_cells (Some c # cs) =
     (if c = nul then Inr [] else bind_res (string_of_cells cs) (\<lambda>s. Inr (c # s)))"

definition retrieve_all_as_string :: "buffer \<Rightarrow> string res" where
  "retrieve_all_as_string b =
     (if buffer_empty b then Inr []
      else case m_data b of
        None \<Rightarrow> Inl Null_Deref
      | Some d \<Rightarrow>
          let tmp = replicate 4096 (Some nul) in
          bind_res
            (if m_head b < m_tail b then
               bind_res (mem_read d (m_head b) (buffer_length b)) (mem_write tmp 0)
             else
               let right_free = m_size b - m_head b in
               bind_res (mem_read d (m_head b) right_free) (\<lambda>x1.
               bind_res (mem_write tmp 0 x1) (\<lambda>tmp1.
               bind_res (mem_read d 0 (m_tail b)) (mem_write tmp1 right_free))))
            (\<lambda>tmp'. bind_res (mem_write tmp' (buffer_length b) [Some nul]) string_of_cells))"

definition get_debug_text :: "buffer \<Rightarrow> string res" where
  "get_debug_text b =
     (case m_data b of
        None \<Rightarrow> Inr []
      | Some d \<Rightarrow>
          if buffer_empty b then Inr []
          else bind_res (retrieve_all_as_string b) (\<lambda>s.
            Inr (take (4096 + 256 - 1)
              (''buffer::[head('' @ dec_of_int (m_head b) @ '') tail('' @ dec_of_int (m_tail b) @
               '') length('' @ dec_of_int (buffer_length b) @ '') size('' @ dec_of_int (m_size b) @
               '') free_size('' @ dec_of_int (get_free_size b) @ '') data('' @ [CHR 0x22] @ s @
               [CHR 0x22] @ '')]''))))"

section \<open>Well-formed buffers and the bytes they hold\<close>

definition buffer_inv :: "buffer \<Rightarrow> bool" where
  "buffer_inv b \<longleftrightarrow>
     (case m_data b of None \<Rightarrow> False | Some d \<Rightarrow> int (length d) = m_size b) \<and>
     m_size b \<le> BUFFER_SIZE_MAX \<and>
     0 \<le> m_head b \<and> m_head b < m_size b \<and> 0 \<le> m_tail b \<and> m_tail b < m_size b \<and>
     (m_full b \<longrightarrow> m_head b = m_tail b)"

definition buffer_contents :: "buffer \<Rightarrow> cell list" where
  "buffer_contents b =
     (case m_data b of None \<Rightarrow> []
      | Some d \<Rightarrow> ring_slice d (nat (m_head b)) (nat (buffer_length b)))"

section \<open>The growth loop\<close>

lemmas [code] = refix_loop.simps

lemma refix_loop_returns:
  assumes "0 < tmp" and "newsize \<le> BUFFER_SIZE_MAX"
  shows "\<exists>r. refix_loop tmp newsize = Some r \<and> newsize \<le> r \<and> tmp \<le> r \<and>
             (tmp < newsize \<longrightarrow> r < newsize + BUFFER_SIZE_RAW)"
  using assms(1)
proof (induction "nat (newsize - tmp)" arbitrary: tmp rule: less_induct)
  case less
  show ?case
  proof (cases "tmp < newsize")
    case False
    then show ?thesis by (simp add: refix_loop.simps [of tmp])
  next
    case True
    define tmp' where "tmp' = (if tmp < BUFFER_SIZE_RAW then tmp * 2 else tmp + BUFFER_SIZE_RAW)"
    have step: "refix_loop tmp newsize = refix_loop tmp' newsize"
      using True assms(2) by (simp add: refix_loop.simps [of tmp] tmp'_def)
    have "tmp < tmp'" and near: "tmp' < newsize + BUFFER_SIZE_RAW"
      using less.prems True by (simp_all add: tmp'_def BUFFER_SIZE_RAW_def)
    then obtain r where "refix_loop tmp' newsize = Some r" "newsize \<le> r" "tmp' \<le> r"
      and "tmp' < newsize \<longrightarrow> r < newsize + BUFFER_SIZE_RAW"
      using less.hyps [of tmp'] less.prems True by auto
    moreover have "\<not> tmp' < newsize \<Longrightarrow> refix_loop tmp' newsize = Some tmp'"
      by (simp add: refix_loop.simps [of tmp'])
    ultimately show ?thesis
      using step near \<open>tmp < tmp'\<close> by (cases "tmp' < newsize") auto
  qed
qed

lemma refix_loop_zero:
  assumes ret: "refix_loop tmp newsize = Some r"
  shows "tmp = 0 \<longrightarrow> newsize \<le> 0"
proof (rule refix_loop.raw_induct [where P = "\<lambda>tmp newsize r. tmp = 0 \<longrightarrow> newsize \<le> 0", OF _ ret])
  fix f tmp newsize r
  assume IH: "\<And>tmp newsize r. f tmp newsize = Some r \<Longrightarrow> tmp = 0 \<longrightarrow> newsize \<le> 0"
    and eq: "(if tmp < newsize
        then if tmp < BUFFER_SIZE_RAW then f (tmp * 2) newsize
             else if tmp < BUFFER_SIZE_MAX then f (tmp + BUFFER_SIZE_RAW) newsize
             else f tmp newsize
        else Some tmp) = Some r"
  show "tmp = 0 \<longrightarrow> newsize \<le> 0"
    using IH [of "tmp * 2" newsize r] eq by (auto simp: BUFFER_SIZE_RAW_def split: if_splits)
qed

lemma refix_loop_stuck: "0 < newsize \<Longrightarrow> refix_loop 0 newsize = None"
  using refix_loop_zero [of 0 newsize] by (cases "refix_loop 0 newsize") auto

section \<open>Consequences of the invariant\<close>

lemma buffer_invE:
  assumes "buffer_inv b"
  obtains d h t f where "b = \<lparr>m_data = Some d, m_size = int (length d), m_head = int h,
      m_tail = int t, m_full = f\<rparr>"
    and "h < length d" and "t < length d" and "f \<longrightarrow> h = t" and "int (length d) \<le> 1048576"
proof -
  obtain d where d: "m_data b = Some d" "int (length d) = m_size b"
    using assms by (auto simp: buffer_inv_def split: option.splits)
  show thesis
    by (rule that [of d "nat (m_head b)" "nat (m_tail b)" "m_full b"])
      (use assms d in \<open>auto simp: buffer_inv_def buffer_consts\<close>)
qed

lemma buffer_length_bounds:
  assumes "buffer_inv b"
  shows "0 \<le> buffer_length b" and "buffer_length b \<le> m_size b"
    and "buffer_empty b \<longleftrightarrow> buffer_length b = 0"
    and "m_tail b = (m_head b + buffer_length b) mod m_size b"
    and "buffer_full b \<longleftrightarrow> buffer_length b = m_size b"
  using assms
  by (auto simp: buffer_inv_def buffer_length_def buffer_empty_def buffer_full_def
      split: option.splits)

lemma length_buffer_contents: "buffer_inv b \<Longrightarrow> length (buffer_contents b) = nat (buffer_length b)"
  by (auto simp: buffer_contents_def buffer_inv_def split: option.splits)

text \<open>
  A buffer is determined by its block, its head and the number of bytes it holds: the tail and the
  full flag follow. Every operation is shown to produce a buffer of this form.
\<close>

definition buffer_of :: "cell list \<Rightarrow> nat \<Rightarrow> nat \<Rightarrow> buffer" where
  "buffer_of d h n = \<lparr>m_data = Some d, m_size = int (length d), m_head = int h,
     m_tail = int ((h + n) mod length d), m_full = (n = length d)\<rparr>"

definition buffer_dom :: "cell list \<Rightarrow> nat \<Rightarrow> nat \<Rightarrow> bool" where
  "buffer_dom d h n \<longleftrightarrow> h < length d \<and> n \<le> length d \<and> length d \<le> 1048576"

lemma buffer_of_sel [simp]:
  "m_data (buffer_of d h n) = Some d"
  "m_size (buffer_of d h n) = int (length d)"
  "m_head (buffer_of d h n) = int h"
  "m_tail (buffer_of d h n) = int ((h + n) mod length d)"
  "m_full (buffer_of d h n) = (n = length d)"
  by (simp_all add: buffer_of_def)

lemma ring_tail_eq:
  "h < (s::nat) \<Longrightarrow> n \<le> s \<Longrightarrow> (h + n) mod s = (if h + n < s then h + n else h + n - s)"
  by (auto simp: mod_if)

lemma buffer_length_of [simp]: "buffer_dom d h n \<Longrightarrow> buffer_length (buffer_of d h n) = int n"
  by (auto simp: buffer_dom_def buffer_length_def buffer_empty_def buffer_full_def ring_tail_eq)

lemma buffer_empty_of [simp]: "buffer_dom d h n \<Longrightarrow> buffer_empty (buffer_of d h n) = (n = 0)"
  by (auto simp: buffer_dom_def buffer_empty_def buffer_full_def ring_tail_eq)

lemma buffer_inv_of [simp]: "buffer_dom d h n \<Longrightarrow> buffer_inv (buffer_of d h n)"
  by (auto simp: buffer_dom_def buffer_inv_def buffer_consts ring_tail_eq)

lemma buffer_contents_of [simp]:
  "buffer_dom d h n \<Longrightarrow> buffer_contents (buffer_of d h n) = ring_slice d h n"
  by (simp add: buffer_contents_def)

lemma buffer_inv_cases:
  assumes "buffer_inv b"
  obtains d h n where "b = buffer_of d h n" and "buffer_dom d h n"
proof -
  obtain d h t f where b: "b = \<lparr>m_data = Some d, m_size = int (length d), m_head = int h,
      m_tail = int t, m_full = f\<rparr>"
    and bd: "h < length d" "t < length d" "f \<longrightarrow> h = t" "int (length d) \<le> 1048576"
    using assms by (rule buffer_invE)
  define n where "n = (if f then length d else if h \<le> t then t - h else length d - h + t)"
  show thesis
    by (rule that [of d h n])
      (use bd in \<open>auto simp: b buffer_of_def buffer_dom_def n_def mod_if\<close>)
qed

section \<open>Storing and reading bytes\<close>

lemma buffer_store_of:
  assumes dom: "buffer_dom d h n" and "0 < k" and room: "n + k \<le> length d" and "k \<le> length src"
  shows "buffer_store (buffer_of d h n) src (int k) =
    Inr (buffer_of (ring_put d ((h + n) mod length d) (take k src)) h (n + k), int k)"
proof -
  define t where "t = (h + n) mod length d"
  have t: "t < length d" and teq: "t = (if h + n < length d then h + n else h + n - length d)"
    using dom by (auto simp: buffer_dom_def t_def mod_if)
  have len: "length (ring_put d t (take k src)) = length d"
    using t room by simp
  have tail: "(int t + int k) mod int (length d) = int ((h + (n + k)) mod length d)"
    by (simp add: t_def zmod_int mod_add_left_eq add.assoc)
  have full: "(int h = int ((h + (n + k)) mod length d)) \<longleftrightarrow> n + k = length d"
    using dom \<open>0 < k\<close> room by (auto simp: buffer_dom_def ring_tail_eq)
  have ok: "in_i32 (int t + int k)"
    using dom t room by (auto simp: buffer_dom_def in_i32_def)
  have rem: "chk_rem (int t + int k) (int (length d)) = Inr (int ((h + (n + k)) mod length d))"
    using t tail by (subst chk_rem_nonneg) auto
  show ?thesis
  proof (cases "t + k \<le> length d")
    case True
    then have put: "ring_put d t (take k src) = take t d @ take k src @ drop (t + k) d"
      using assms(4) by (simp add: ring_put_def)
    show ?thesis
      using True assms ok t len rem full
      by (simp add: buffer_store_def buffer_of_def mem_simps t_def [symmetric]
          check_full_after_append_def put)
  next
    case False
    then have "h \<le> t" using teq room dom by (auto simp: buffer_dom_def split: if_splits)
    define r where "r = length d - t"
    have r: "t + r = length d" "r < k" "length d - t = r" "k + t - length d = k - r"
        "int (length d) - int t = int r"
      using False t by (simp_all add: r_def)
    then have put: "ring_put d t (take k src) =
        drop r (take k src) @ drop (k - r) (take t d @ take r src)"
      using assms(4) t room by (auto simp add: ring_put_def Let_def min_def)
    show ?thesis
      using False assms ok t len rem full \<open>h \<le> t\<close> r(2-)
      by (simp add: buffer_store_def buffer_of_def mem_simps t_def [symmetric]
          check_full_after_append_def put Let_def nat_diff_distrib drop_take r(1))
  qed
qed

lemma buffer_copy_out_of:
  assumes dom: "buffer_dom d h n" and "0 < k" and "k \<le> n" and "k \<le> length p"
  shows "buffer_copy_out (buffer_of d h n) p (int k) = Inr (ring_slice d h k @ drop k p)"
proof (cases "h + k \<le> length d")
  case True
  then show ?thesis
    using assms by (auto simp: buffer_copy_out_def mem_simps ring_slice_nowrap buffer_dom_def)
next
  case False
  then have wrap: "ring_slice d h k = drop h d @ take (h + k - length d) d"
    using assms by (intro ring_slice_wrap) (auto simp: buffer_dom_def)
  have nless: "\<not> h < (h + n) mod length d"
    using False assms by (auto simp: buffer_dom_def ring_tail_eq)
  define r where "r = length d - h"
  have r: "h + r = length d" "r < k" "int (length d) - int h = int r"
      "h + k - length d = k - r" "k \<le> length d" "length d - h = r"
    using False assms by (auto simp: buffer_dom_def r_def)
  have "mem_write (drop h d @ drop r p) (int r) (take (k - r) d) =
      Inr (drop h d @ take (k - r) d @ drop k p)"
    using r assms(4) by (subst mem_write_ok) (auto simp: min_def)
  then show ?thesis
    using False assms nless r
    by (simp add: buffer_copy_out_def mem_simps wrap buffer_dom_def Let_def nat_diff_distrib min_def)
qed

lemma buffer_advance_of:
  assumes dom: "buffer_dom d h n" and "0 < k" and "k \<le> n"
  shows "buffer_advance (buffer_of d h n) (int k) =
    Inr (buffer_of d ((h + k) mod length d) (n - k))"
proof -
  have "in_i32 (int h + int k)"
    using assms by (auto simp: buffer_dom_def in_i32_def)
  moreover have "chk_rem (int h + int k) (int (length d)) = Inr (int ((h + k) mod length d))"
    using dom by (subst chk_rem_nonneg) (auto simp: buffer_dom_def zmod_int)
  moreover have "((h + k) mod length d + (n - k)) mod length d = (h + n) mod length d"
    using mod_add_left_eq [of "h + k" "length d" "n - k"] assms by simp
  ultimately show ?thesis
    using assms
    by (auto simp: buffer_advance_def buffer_of_def check_full_after_writeto_def buffer_dom_def)
qed

lemma buffer_dom_advance:
  "buffer_dom d h n \<Longrightarrow> k \<le> n \<Longrightarrow> buffer_dom d ((h + k) mod length d) (n - k)"
  by (auto simp: buffer_dom_def intro: mod_less_divisor)

lemma buffer_dom_store:
  "buffer_dom d h n \<Longrightarrow> n + length xs \<le> length d \<Longrightarrow>
   buffer_dom (ring_put d ((h + n) mod length d) xs) h (n + length xs)"
  by (subst (asm) buffer_dom_def) (auto simp: buffer_dom_def ring_tail_eq)

section \<open>Growth\<close>

text \<open>
  What \<open>realloc\<close> really produces. The new tail is computed by \<open>length()\<close> after \<open>m_head\<close> has
  been reset to 0 and before \<open>m_tail\<close> is updated, so it is the old length only when the head was
  already 0 or the ring was full.
\<close>

lemma buffer_length_head0:
  "buffer_length \<lparr>m_data = x, m_size = int s, m_head = 0, m_tail = int t, m_full = f\<rparr> =
   int (if f then s else t)"
  by (simp add: buffer_length_def buffer_empty_def buffer_full_def)

text \<open>The block that \<open>realloc\<close> builds and the number of bytes it takes to be in use.\<close>

definition realloc_used :: "cell list \<Rightarrow> nat \<Rightarrow> nat \<Rightarrow> nat" where
  "realloc_used d h n = (if n = length d then length d else (h + n) mod length d)"

definition realloc_block :: "cell list \<Rightarrow> nat \<Rightarrow> nat \<Rightarrow> nat \<Rightarrow> cell list" where
  "realloc_block d h n N =
     (let t = (h + n) mod length d in
      if h < t then take n (drop h d) @ replicate (N - n) None
      else drop h d @ take t d @ replicate (N - (length d - h) - t) None)"

lemma ring_tail_cases:
  assumes "buffer_dom d h n"
  obtains (inside) "h < (h + n) mod length d" "(h + n) mod length d = h + n" "h + n < length d" "n < length d"
  | (around) "\<not> h < (h + n) mod length d" "(h + n) mod length d < length d"
      "(h + n) mod length d = (if h + n < length d then h + n else h + n - length d)"
  using assms by (cases "h < (h + n) mod length d") (auto simp: buffer_dom_def mod_if split: if_splits)

lemma length_realloc_block:
  assumes "buffer_dom d h n" and "length d < N"
  shows "length (realloc_block d h n N) = N"
  using assms(1)
proof (cases rule: ring_tail_cases)
  case inside
  then show ?thesis using assms by (simp add: realloc_block_def Let_def buffer_dom_def)
next
  case around
  then show ?thesis using assms by (auto simp: realloc_block_def Let_def buffer_dom_def split: if_splits)
qed

lemma realloc_block_used:
  assumes "buffer_dom d h n"
  shows "take (realloc_used d h n) (realloc_block d h n N) =
    (if n = length d \<or> h = 0 then ring_slice d h n
     else if h + n < length d \<and> 0 < n then ring_slice d h n @ take h (replicate (N - n) None)
     else take ((h + n) mod length d) (ring_slice d h (length d)))"
  using assms
proof (cases rule: ring_tail_cases)
  case inside
  then show ?thesis
    using assms by (auto simp: realloc_used_def realloc_block_def ring_slice_nowrap buffer_dom_def Let_def)
next
  case around
  have "ring_slice d h (length d) = drop h d @ take h d"
    using assms by (subst ring_slice_wrap) (auto simp: buffer_dom_def)
  then show ?thesis
    using around assms
    by (auto simp: realloc_used_def realloc_block_def Let_def buffer_dom_def min_def ring_slice_nowrap split: if_splits)
qed

lemma buffer_realloc_result:
  assumes dom: "buffer_dom d h n" and grow: "length d < N"
  shows "buffer_realloc (buffer_of d h n) (int N) = Inr (buffer_of (realloc_block d h n N) 0 (realloc_used d h n))"
  using dom
proof (cases rule: ring_tail_cases)
  case inside
  then show ?thesis
    using grow dom length_realloc_block [OF dom grow]
    by (simp add: buffer_realloc_def buffer_of_def xmalloc_def mem_simps realloc_used_def realloc_block_def
        buffer_length_def buffer_empty_def buffer_full_def buffer_dom_def Let_def)
next
  case around
  let ?t = "(h + n) mod length d" and ?nd = "realloc_block d h n N"
  have w: "mem_write (drop h d @ replicate (N - (length d - h)) None) (int (length d) - int h) (take ?t d) = Inr ?nd"
    using around grow dom
    by (subst mem_write_ok) (auto simp: realloc_block_def Let_def buffer_dom_def nat_diff_distrib split: if_splits)
  have "buffer_realloc (buffer_of d h n) (int N) =
      Inr \<lparr>m_data = Some ?nd, m_size = int N, m_head = 0, m_tail = int (realloc_used d h n), m_full = False\<rparr>"
    using around(1,2) grow dom w
    by (simp add: buffer_realloc_def buffer_of_def xmalloc_def mem_simps
        buffer_length_head0 realloc_used_def buffer_dom_def Let_def)
  moreover have "realloc_used d h n < N" using around(2) grow by (simp add: realloc_used_def)
  ultimately show ?thesis using grow length_realloc_block [OF dom grow] by (simp add: buffer_of_def)
qed

lemma buffer_realloc_of:
  assumes dom: "buffer_dom d h n" and grow: "length d < N" and max: "N \<le> 1048576"
  shows "\<exists>b'. buffer_realloc (buffer_of d h n) (int N) = Inr b' \<and> buffer_inv b' \<and>
    m_size b' = int N \<and> m_head b' = 0 \<and> \<not> m_full b' \<and>
    buffer_contents b' =
      (if n = length d \<or> h = 0 then ring_slice d h n
       else if h + n < length d \<and> 0 < n then ring_slice d h n @ replicate h None
       else take ((h + n) mod length d) (ring_slice d h (length d)))"
proof -
  let ?nd = "realloc_block d h n N" and ?used = "realloc_used d h n"
  note len = length_realloc_block [OF dom grow]
  have used: "?used < N" using dom grow by (auto simp: realloc_used_def buffer_dom_def intro: less_trans [OF mod_less_divisor])
  have dom': "buffer_dom ?nd 0 ?used" using len used max by (simp add: buffer_dom_def)
  have "buffer_contents (buffer_of ?nd 0 ?used) = take ?used ?nd"
    using dom' by (simp add: ring_slice_nowrap buffer_dom_def)
  moreover have "h + n < length d \<Longrightarrow> h \<le> N - n" using grow by simp
  ultimately show ?thesis
    using buffer_realloc_result [OF dom grow] realloc_block_used [OF dom, of N] dom' len used
    by (intro exI [of _ "buffer_of ?nd 0 ?used"] conjI) (auto simp: min_absorb1)
qed

lemma refix_new_size_returns:
  assumes "0 < oldsize" and "oldsize < newsize" and "newsize \<le> BUFFER_SIZE_MAX"
  shows "\<exists>r. refix_new_size oldsize newsize = Some r \<and> newsize \<le> r \<and>
             r < newsize + BUFFER_SIZE_RAW"
  using refix_loop_returns [OF assms(1,3)] assms(1,2)
  by (auto simp: refix_new_size_def BUFFER_SIZE_SMALL_def BUFFER_SIZE_RAW_def)

text \<open>Growing a buffer whose head is 0, or which is full, keeps its bytes.\<close>

lemma buffer_resize_keeps:
  assumes inv: "buffer_inv b" and head: "m_head b = 0 \<or> m_full b"
    and want: "m_size b < want" "want \<le> BUFFER_SIZE_MAX"
  shows "\<exists>N b' ok. refix_new_size (m_size b) want = Some N \<and> buffer_resize b want = Inr (b', ok) \<and>
     ok = (N \<le> BUFFER_SIZE_MAX) \<and> buffer_inv b' \<and> buffer_contents b' = buffer_contents b \<and>
     (if ok then m_size b' = N \<and> m_head b' = 0 \<and> want \<le> m_size b' else b' = b)"
proof -
  obtain d h n where b: "b = buffer_of d h n" and dom: "buffer_dom d h n"
    using inv by (rule buffer_inv_cases)
  have pos: "0 < m_size b" using dom by (auto simp: b buffer_dom_def)
  then obtain N where N: "refix_new_size (m_size b) want = Some N" "want \<le> N"
    using refix_new_size_returns want by blast
  have valid: "is_valid_size want" using want pos by (simp add: is_valid_size_def)
  show ?thesis
  proof (cases "N \<le> BUFFER_SIZE_MAX")
    case True
    then have vN: "is_valid_size N" "int (nat N) = N" using N want pos by (simp_all add: is_valid_size_def)
    have "length d < nat N" "nat N \<le> 1048576"
      using N want True by (simp_all add: b BUFFER_SIZE_MAX_def BUFFER_SIZE_RAW_def)
    then obtain b' where b': "buffer_realloc b N = Inr b'" "buffer_inv b'" "m_size b' = N" "m_head b' = 0"
      and c: "buffer_contents b' = (if n = length d \<or> h = 0 then ring_slice d h n
       else if h + n < length d \<and> 0 < n then ring_slice d h n @ replicate h None
       else take ((h + n) mod length d) (ring_slice d h (length d)))"
      using buffer_realloc_of [OF dom, of "nat N"] vN(2) by (auto simp: b)
    have "buffer_contents b' = buffer_contents b"
      using head dom by (auto simp: b c)
    then show ?thesis
      using N want b' valid vN True by (auto simp: buffer_resize_def)
  next
    case False
    then show ?thesis
      using N want valid inv by (auto simp: buffer_resize_def is_valid_size_def)
  qed
qed

lemma buffer_store_inv:
  assumes inv: "buffer_inv b" and k: "0 < k" "int k \<le> get_free_size b" "k \<le> length src"
  shows "\<exists>b'. buffer_store b src (int k) = Inr (b', int k) \<and> buffer_inv b' \<and>
    m_size b' = m_size b \<and> m_head b' = m_head b \<and>
    buffer_contents b' = buffer_contents b @ take k src"
proof -
  obtain d h n where b: "b = buffer_of d h n" and dom: "buffer_dom d h n"
    using inv by (rule buffer_inv_cases)
  have room: "n + k \<le> length d" using k(2) dom by (simp add: b get_free_size_def)
  let ?d = "ring_put d ((h + n) mod length d) (take k src)"
  have len: "length (take k src) = k" using k(3) by simp
  have dom': "buffer_dom ?d h (n + k)"
    using buffer_dom_store [OF dom, of "take k src"] room k(3) by (simp add: len)
  have "ring_slice ?d h (n + k) = ring_slice d h n @ take k src"
    using ring_slice_put [of h d n "take k src"] dom room k(3) by (simp add: buffer_dom_def)
  moreover have "length ?d = length d"
    using dom room k(3) by (auto simp: buffer_dom_def ring_tail_eq)
  ultimately show ?thesis
    using buffer_store_of [OF dom k(1) room k(3)] dom' dom by (simp add: b)
qed

lemma buffer_read_inv:
  assumes inv: "buffer_inv b" and k: "0 < k" "int k \<le> buffer_length b" "k \<le> length p"
  shows "\<exists>b'. buffer_copy_out b p (int k) = Inr (take k (buffer_contents b) @ drop k p) \<and>
    buffer_advance b (int k) = Inr b' \<and> buffer_inv b' \<and> m_size b' = m_size b \<and>
    buffer_contents b' = drop k (buffer_contents b)"
proof -
  obtain d h n where b: "b = buffer_of d h n" and dom: "buffer_dom d h n"
    using inv by (rule buffer_inv_cases)
  have kn: "k \<le> n" using k(2) dom by (simp add: b)
  show ?thesis
    using buffer_copy_out_of [OF dom k(1) kn k(3)] buffer_advance_of [OF dom k(1) kn]
      buffer_dom_advance [OF dom kn] dom kn
    by (simp add: b take_ring_slice drop_ring_slice)
qed

lemma buffer_write_to_inv:
  assumes "buffer_inv b" and "0 < sz" and "int (length p) \<ge> min sz (buffer_length b)"
  shows "\<exists>b'. buffer_write_to b (Some p) sz =
      Inr (b', Some (take (nat sz) (buffer_contents b) @ drop (nat (min sz (buffer_length b))) p),
           min sz (buffer_length b)) \<and>
    buffer_inv b' \<and> m_size b' = m_size b \<and>
    buffer_contents b' = drop (nat sz) (buffer_contents b)"
proof (cases "buffer_length b = 0")
  case True
  then have "buffer_contents b = []"
    using length_buffer_contents [OF assms(1)] by simp
  then show ?thesis
    using True assms buffer_length_bounds(3) [OF assms(1)] by (simp add: buffer_write_to_def)
next
  case False
  define k where "k = nat (min sz (buffer_length b))"
  have k: "0 < k" "int k \<le> buffer_length b" "k \<le> length p" "int k = min sz (buffer_length b)"
    using False assms buffer_length_bounds(1,2) [OF assms(1)] by (auto simp: k_def)
  have same: "take k (buffer_contents b) = take (nat sz) (buffer_contents b)"
    "drop k (buffer_contents b) = drop (nat sz) (buffer_contents b)"
    using length_buffer_contents [OF assms(1)] by (auto simp: k_def min_def)
  have n: "(if buffer_length b < sz then buffer_length b else sz) = int k"
    using k(4) by (simp add: min_def)
  obtain b' where b': "buffer_copy_out b p (int k) = Inr (take k (buffer_contents b) @ drop k p)"
      "buffer_advance b (int k) = Inr b'" "buffer_inv b'" "m_size b' = m_size b"
      "buffer_contents b' = drop k (buffer_contents b)"
    using buffer_read_inv [OF assms(1) k(1-3)] by blast
  have "buffer_write_to b (Some p) sz = Inr (b', Some (take k (buffer_contents b) @ drop k p), int k)"
    using assms(2) False buffer_length_bounds(3) [OF assms(1)] b'(1,2)
    by (simp add: buffer_write_to_def n Let_def)
  then show ?thesis
    using b'(3-5) by (simp add: same k_def [symmetric] k(4) [symmetric])
qed

lemma buffer_write_to_peek:
  assumes "buffer_inv b" and "0 < sz" and "int (length p) \<ge> min sz (buffer_length b)"
  shows "buffer_peek b (Some p) sz =
    map_sum id (\<lambda>(b', p', n). (p', n)) (buffer_write_to b (Some p) sz)"
  using buffer_write_to_inv [OF assms]
  by (auto simp: buffer_write_to_def buffer_peek_def Let_def split: if_splits)

lemma buffer_write_to_skip:
  assumes "buffer_inv b" and "0 < sz" and "int (length p) \<ge> min sz (buffer_length b)"
  shows "buffer_skip b sz =
      (if buffer_length b < sz then Inr (b, False)
       else map_sum id (\<lambda>(b', p', n). (b', True)) (buffer_write_to b (Some p) sz))"
  using buffer_write_to_inv [OF assms] assms(2) buffer_length_bounds(3) [OF assms(1)]
  by (auto simp: buffer_write_to_def buffer_skip_def Let_def split: if_splits)

lemma buffer_append_fits:
  assumes "buffer_inv b" and "0 < k" and "int k \<le> get_free_size b" and "k \<le> length src"
  shows "\<exists>b'. buffer_append b (Some src) (int k) = Inr (b', int k) \<and> buffer_inv b' \<and>
    m_size b' = m_size b \<and> buffer_contents b' = buffer_contents b @ take k src"
  using buffer_store_inv [OF assms] assms(2,3) by (auto simp: buffer_append_def)

lemma buffer_append_grows:
  assumes inv: "buffer_inv b" and head: "m_head b = 0 \<or> m_full b"
    and k: "get_free_size b < int k" "k \<le> length src"
    and want: "buffer_length b + int k \<le> BUFFER_SIZE_MAX"
  shows "\<exists>N b' r. refix_new_size (m_size b) (buffer_length b + int k) = Some N \<and>
     buffer_append b (Some src) (int k) = Inr (b', r) \<and> buffer_inv b' \<and>
     (if N \<le> BUFFER_SIZE_MAX
      then r = int k \<and> m_size b' = N \<and> buffer_contents b' = buffer_contents b @ take k src
      else r = 0 \<and> b' = b)"
proof -
  let ?want = "buffer_length b + int k"
  have bnd: "0 \<le> buffer_length b" "0 \<le> get_free_size b"
    using buffer_length_bounds(1,2) [OF inv] by (simp_all add: get_free_size_def)
  have kpos: "0 < k" and big: "m_size b < ?want" and ok: "in_i32 ?want"
    using k(1) bnd want by (auto simp: get_free_size_def in_i32_def buffer_consts)
  obtain N b1 f where N: "refix_new_size (m_size b) ?want = Some N"
    and r: "buffer_resize b ?want = Inr (b1, f)" "f = (N \<le> BUFFER_SIZE_MAX)" "buffer_inv b1"
      "buffer_contents b1 = buffer_contents b"
    and f: "if f then m_size b1 = N \<and> m_head b1 = 0 \<and> ?want \<le> m_size b1 else b1 = b"
    using buffer_resize_keeps [OF inv head big want] by blast
  have app: "buffer_append b (Some src) (int k) =
      (if f then buffer_store b1 src (int k) else Inr (b1, 0))"
    using k(1) kpos ok r(1) by (simp add: buffer_append_def)
  show ?thesis
  proof (cases f)
    case True
    have "nat (buffer_length b1) = nat (buffer_length b)"
      using length_buffer_contents [OF inv] length_buffer_contents [OF r(3)] r(4) by simp
    then have "buffer_length b1 = buffer_length b"
      using bnd buffer_length_bounds(1,2) [OF r(3)] by linarith
    then have "int k \<le> get_free_size b1"
      using f True by (simp add: get_free_size_def)
    from buffer_store_inv [OF r(3) kpos this k(2)] show ?thesis
      using True N r f app by auto
  next
    case False
    then show ?thesis using N r f app by auto
  qed
qed

lemma buffer_realloc_inv:
  assumes inv: "buffer_inv b" and N: "m_size b < N" "N \<le> BUFFER_SIZE_MAX"
  shows "\<exists>b'. buffer_realloc b N = Inr b' \<and> buffer_inv b' \<and> m_size b' = N \<and>
    buffer_contents b' =
      (if m_head b = 0 \<or> m_full b then buffer_contents b
       else if m_head b < m_tail b then buffer_contents b @ replicate (nat (m_head b)) None
       else take (nat (m_tail b)) (ring_slice (the (m_data b)) (nat (m_head b)) (nat (m_size b))))"
proof -
  obtain d h n where b: "b = buffer_of d h n" and dom: "buffer_dom d h n"
    using inv by (rule buffer_inv_cases)
  have "length d < nat N" "nat N \<le> 1048576" "int (nat N) = N"
    using N by (simp_all add: b buffer_consts)
  with buffer_realloc_of [OF dom, of "nat N"] obtain b' where
    b': "buffer_realloc b N = Inr b'" "buffer_inv b'" "m_size b' = N"
    and c: "buffer_contents b' = (if n = length d \<or> h = 0 then ring_slice d h n
       else if h + n < length d \<and> 0 < n then ring_slice d h n @ replicate h None
       else take ((h + n) mod length d) (ring_slice d h (length d)))"
    by (auto simp: b)
  have "(h < (h + n) mod length d) = (h + n < length d \<and> 0 < n)"
    using dom by (auto simp: buffer_dom_def ring_tail_eq)
  then show ?thesis
    using b' c dom by (intro exI [of _ b']) (simp add: b)
qed

section \<open>Constructors\<close>

lemma buffer_ctor_small:
  assumes "n \<le> BUFFER_SIZE_SMALL"
  shows "buffer_ctor n = Inr (buffer_of (replicate 64 None) 0 0)"
proof -
  have "\<not> BUFFER_SIZE_SMALL < n" using assms by simp
  then show ?thesis
    by (simp add: buffer_ctor_def buffer_cleanup_def buffer_raw_def buffer_resize_def
        is_valid_size_def refix_new_size_def buffer_realloc_def xmalloc_def buffer_length_def
        buffer_empty_def buffer_full_def buffer_of_def buffer_consts)
qed

lemma buffer_ctor_large:
  assumes "n > BUFFER_SIZE_SMALL"
  shows "buffer_ctor n = Inl Diverges"
proof -
  define m where "m = (if n > BUFFER_SIZE_MAX then BUFFER_SIZE_MAX else n)"
  have m: "BUFFER_SIZE_SMALL < m" "m \<le> BUFFER_SIZE_MAX"
    using assms by (auto simp: m_def buffer_consts)
  then have "refix_new_size 0 m = None"
    by (simp add: refix_new_size_def refix_loop_stuck buffer_consts)
  then have "buffer_resize (buffer_cleanup buffer_raw) m = Inl Diverges"
    using m by (simp add: buffer_resize_def buffer_cleanup_def buffer_raw_def is_valid_size_def
        buffer_consts)
  then show ?thesis
    using assms by (simp add: buffer_ctor_def m_def [symmetric] Let_def)
qed

lemma buffer_dom_fresh [simp]: "buffer_dom (replicate 64 None) 0 0"
  by (simp add: buffer_dom_def)

lemma buffer_ctor_string_form:
  assumes "s \<noteq> []" and "length s < 2 ^ 30"
  shows "buffer_ctor_string s = Inr \<lparr>m_data = Some (map Some s),
     m_size = int (length s + length s div 2), m_head = 0,
     m_tail = (if length s = 1 then 0 else int (length s)), m_full = False\<rparr>"
proof -
  let ?n = "length s" and ?z = "length s + length s div 2"
  have conv: "to_i32 (int ?n) = int ?n" "to_i32 (to_u64 (int ?n + int ?n div 2)) = int ?z"
    using assms(2) by (simp_all add: to_i32_def to_u64_def zdiv_int)
  have "0 < ?n" "in_i32 (int ?n)" using assms by (auto simp: in_i32_def)
  moreover have "chk_rem (int ?n) (int ?z) = Inr (if ?n = 1 then 0 else int ?n)"
  proof (cases "?n = 1")
    case False
    with \<open>0 < ?n\<close> have "?n < ?z" by arith
    then have "int ?n mod int ?z = int ?n" by (intro mod_pos_pos_trivial) simp_all
    moreover have "chk_rem (int ?n) (int ?z) = Inr (int ?n mod int ?z)"
      by (rule chk_rem_nonneg) (use \<open>?n < ?z\<close> in linarith)+
    ultimately show ?thesis using False by (simp only: if_False)
  qed (simp add: chk_rem_def c_rem_def c_quot_def)
  moreover have "mem_read (map Some (s @ [nul])) 0 (int ?n) = Inr (map Some s)"
    by (simp add: mem_read_def)
  moreover have "mem_write (xmalloc (int ?n)) 0 (map Some s) = Inr (map Some s)"
    by (simp add: mem_write_def xmalloc_def)
  moreover have "(if ?n = 1 then 0 else int ?n) \<noteq> int ?z"
    using \<open>0 < ?n\<close> by (cases "?n = 1") (simp, arith)
  ultimately show ?thesis
    unfolding buffer_ctor_string_def Let_def conv
    by (simp add: buffer_copy_from_def buffer_cleanup_def buffer_raw_def)
qed

section \<open>Text\<close>

lemma string_of_cells_nul:
  "nul \<notin> set s \<Longrightarrow> string_of_cells (map Some s @ Some nul # cs) = Inr s"
  by (induction s) auto

text \<open>What \<open>retrieve_all_as_string\<close> copies into its array of 4096 bytes, in one part or in two.\<close>

definition retrieve_copy :: "cell list \<Rightarrow> nat \<Rightarrow> nat \<Rightarrow> cell list res" where
  "retrieve_copy d h n = (if h < (h + n) mod length d
     then bind_res (mem_read d (int h) (int n)) (mem_write (replicate 4096 (Some nul)) 0)
     else bind_res (mem_read d (int h) (int (length d) - int h)) (\<lambda>x1.
          bind_res (mem_write (replicate 4096 (Some nul)) 0 x1) (\<lambda>tmp1.
          bind_res (mem_read d 0 (int ((h + n) mod length d)))
            (mem_write tmp1 (int (length d) - int h)))))"

lemma retrieve_copy_around:
  assumes dom: "buffer_dom d h n" and "0 < n" and around: "\<not> h < (h + n) mod length d"
    and slice: "ring_slice d h n = map Some s" and n: "n = length s"
  shows "retrieve_copy d h n = (if n \<le> 4096 then Inr (map Some s @ replicate (4096 - n) (Some nul))
                      else Inl Out_Of_Bounds)"
proof -
  define r where "r = length d - h"
  define t where "t = (h + n) mod length d"
  have wrap: "length d \<le> h + n"
    using around dom assms(2) by (auto simp: buffer_dom_def ring_tail_eq split: if_splits)
  have r: "r + t = n" "int (length d) - int h = int r" "length (drop h d) = r" "t < length d"
    using wrap dom by (auto simp: buffer_dom_def r_def t_def ring_tail_eq)
  have sl: "map Some s = drop h d @ take t d"
    using slice wrap dom by (simp add: ring_slice_wrap buffer_dom_def t_def ring_tail_eq)
  have "mem_read d (int h) (int r) = Inr (drop h d)"
    using dom by (simp add: mem_read_def buffer_dom_def r_def)
  moreover have "mem_read d 0 (int t) = Inr (take t d)"
    using r(4) by (simp add: mem_read_def)
  moreover have "mem_write (replicate 4096 (Some nul)) 0 (drop h d) =
      (if r \<le> 4096 then Inr (drop h d @ replicate (4096 - r) (Some nul)) else Inl Out_Of_Bounds)"
    using r(3) by (simp add: mem_write_def del: length_drop)
  moreover have "mem_write (drop h d @ replicate (4096 - r) (Some nul)) (int r) (take t d) =
      (if n \<le> 4096 then Inr (map Some s @ replicate (4096 - n) (Some nul)) else Inl Out_Of_Bounds)"
    if "r \<le> 4096"
    using r that by (auto simp: mem_write_def sl)
  ultimately show ?thesis
    using around r(1,2) by (simp add: retrieve_copy_def t_def [symmetric])
qed

lemma retrieve_copy_eq:
  assumes dom: "buffer_dom d h n" and "0 < n" and slice: "ring_slice d h n = map Some s" and n: "n = length s"
  shows "retrieve_copy d h n = (if n \<le> 4096 then Inr (map Some s @ replicate (4096 - n) (Some nul))
                      else Inl Out_Of_Bounds)"
proof (cases "h < (h + n) mod length d")
  case True
  then have "h + n < length d"
    using dom by (auto simp: buffer_dom_def ring_tail_eq split: if_splits)
  then show ?thesis
    using True slice n assms(2) by (simp add: retrieve_copy_def mem_simps ring_slice_nowrap mem_write_def)
qed (rule retrieve_copy_around [OF dom assms(2) _ slice n])

lemma buffer_retrieve_inv:
  assumes inv: "buffer_inv b" and c: "buffer_contents b = map Some s" and "nul \<notin> set s"
  shows "retrieve_all_as_string b = (if length s < 4096 then Inr s else Inl Out_Of_Bounds)"
proof -
  obtain d h n where b: "b = buffer_of d h n" and dom: "buffer_dom d h n"
    using inv by (rule buffer_inv_cases)
  have n: "n = length s" and slice: "ring_slice d h n = map Some s"
    using c dom by (auto simp: b dest: arg_cong [where f = length])
  have whole: "retrieve_all_as_string b = (if n = 0 then Inr [] else
     bind_res (retrieve_copy d h n) (\<lambda>tmp'. bind_res (mem_write tmp' (int n) [Some nul]) string_of_cells))"
    using dom by (simp add: b retrieve_all_as_string_def retrieve_copy_def Let_def)
  show ?thesis
  proof (cases "n = 0")
    case True
    then show ?thesis using whole n by simp
  next
    case False
    have "mem_write (map Some s @ replicate (4096 - n) (Some nul)) (int n) [Some nul] =
        (if n < 4096 then Inr (map Some s @ Some nul # replicate (4095 - n) (Some nul))
         else Inl Out_Of_Bounds)" if "n \<le> 4096"
      using that n by (simp add: mem_write_def)
    then show ?thesis
      using False whole retrieve_copy_eq [OF dom _ slice n] n assms(3) by (auto simp: string_of_cells_nul)
  qed
qed

section \<open>The buffer as a FIFO store\<close>

text \<open>A client's view: a whole list is appended, and up to \<open>n\<close> bytes are fetched into a block of
  \<open>n\<close> bytes.\<close>

definition buffer_put :: "buffer \<Rightarrow> cell list \<Rightarrow> buffer res" where
  "buffer_put b xs = map_sum id fst (buffer_append b (Some xs) (int (length xs)))"

definition buffer_get :: "buffer \<Rightarrow> nat \<Rightarrow> (buffer \<times> cell list) res" where
  "buffer_get b n =
     map_sum id (\<lambda>(b', p, k). (b', take (nat k) (the p)))
       (buffer_write_to b (Some (replicate n None)) (int n))"

lemma buffer_put_law:
  assumes inv: "buffer_inv b" and room: "length (buffer_contents b) + length xs \<le> nat (m_size b)"
  shows "\<exists>b'. buffer_put b xs = Inr b' \<and> buffer_inv b' \<and>
    buffer_contents b' = buffer_contents b @ xs \<and> nat (m_size b') = nat (m_size b)"
proof (cases "xs = []")
  case True
  then show ?thesis using inv by (simp add: buffer_put_def buffer_append_def)
next
  case False
  have "int (length xs) \<le> get_free_size b"
    using room buffer_length_bounds(1,2) [OF inv]
    unfolding get_free_size_def length_buffer_contents [OF inv] by linarith
  then show ?thesis
    using buffer_append_fits [OF inv _ _ order_refl, of xs] False by (auto simp: buffer_put_def)
qed

lemma buffer_get_law:
  assumes inv: "buffer_inv b"
  shows "\<exists>b'. buffer_get b n = Inr (b', take n (buffer_contents b)) \<and> buffer_inv b' \<and>
    buffer_contents b' = drop n (buffer_contents b) \<and> nat (m_size b') = nat (m_size b)"
proof (cases "n = 0")
  case True
  then show ?thesis using inv by (simp add: buffer_get_def buffer_write_to_def)
next
  case False
  have len: "length (take n (buffer_contents b)) = nat (min (int n) (buffer_length b))"
    using buffer_length_bounds(1) [OF inv] by (auto simp: length_buffer_contents [OF inv] min_def)
  obtain b' where "buffer_write_to b (Some (replicate n None)) (int n) =
      Inr (b', Some (take n (buffer_contents b) @ drop (nat (min (int n) (buffer_length b))) (replicate n None)),
           min (int n) (buffer_length b))" "buffer_inv b'" "m_size b' = m_size b"
      "buffer_contents b' = drop n (buffer_contents b)"
    using buffer_write_to_inv [OF inv, of "int n" "replicate n None"] False by auto
  then show ?thesis
    by (simp add: buffer_get_def len [symmetric])
qed

interpretation ring: fifo_store buffer_inv buffer_contents "\<lambda>b. nat (m_size b)" buffer_put buffer_get
  using buffer_put_law buffer_get_law by unfold_locales

section \<open>Properties\<close>

text \<open>While the bytes fit into the free space, \<open>append\<close> reports the number of bytes stored,
  puts exactly those bytes behind the ones the buffer holds, wherever head and tail stand in the
  ring, and leaves the capacity and the invariant alone.\<close>

theorem buffer_append_fifo:
  assumes "buffer_inv b" and "0 < k" and "int k \<le> get_free_size b" and "k \<le> length src"
  shows "\<exists>b'. buffer_append b (Some src) (int k) = Inr (b', int k) \<and> buffer_inv b' \<and>
    m_size b' = m_size b \<and> buffer_contents b' = buffer_contents b @ take k src"
  using assms by (rule buffer_append_fits)

definition wrapped_buffer :: buffer where
  "wrapped_buffer = \<lparr>m_data = Some [Some CHR ''c'', None, None, Some CHR ''a'', Some CHR ''b''],
     m_size = 5, m_head = 3, m_tail = 1, m_full = False\<rparr>"

lemma wrapped_buffer_facts:
  "buffer_inv wrapped_buffer" "get_free_size wrapped_buffer = 2" "buffer_length wrapped_buffer = 3"
  "buffer_contents wrapped_buffer = map Some ''abc''"
  by (simp_all add: wrapped_buffer_def buffer_inv_def get_free_size_def buffer_length_def
      buffer_empty_def buffer_full_def buffer_contents_def ring_slice_def buffer_consts upt_conv_Cons)

theorem buffer_append_fifo_witness:
  "\<exists>b'. buffer_append wrapped_buffer (Some (map Some ''de'')) (int 2) = Inr (b', int 2) \<and>
    buffer_inv b' \<and> m_size b' = m_size wrapped_buffer \<and> buffer_contents b' = map Some ''abcde''"
  using buffer_append_fifo [of wrapped_buffer 2 "map Some ''de''"]
  by (simp add: wrapped_buffer_facts)

text \<open>\<open>write_to\<close> hands out the oldest bytes, as many as asked for and no more than the buffer
  holds, writes nothing beyond them in the destination, and removes exactly those bytes.\<close>

theorem buffer_write_to_fifo:
  assumes "buffer_inv b" and "0 < sz" and "int (length p) \<ge> min sz (buffer_length b)"
  shows "\<exists>b'. buffer_write_to b (Some p) sz =
      Inr (b', Some (take (nat sz) (buffer_contents b) @ drop (nat (min sz (buffer_length b))) p),
           min sz (buffer_length b)) \<and>
    buffer_inv b' \<and> m_size b' = m_size b \<and>
    buffer_contents b' = drop (nat sz) (buffer_contents b)"
  using assms by (rule buffer_write_to_inv)

theorem buffer_write_to_fifo_witness:
  "\<exists>b'. buffer_write_to wrapped_buffer (Some (replicate 2 None)) 2 =
      Inr (b', Some (map Some ''ab''), 2) \<and> buffer_inv b' \<and> m_size b' = m_size wrapped_buffer \<and>
      buffer_contents b' = map Some ''c''"
  using buffer_write_to_fifo [of wrapped_buffer 2 "replicate 2 None"]
  by (simp add: wrapped_buffer_facts numeral_2_eq_2)

text \<open>\<open>peek\<close> returns what \<open>write_to\<close> would return, and \<open>skip\<close> drops the same bytes without
  copying them; it refuses, without a change, to skip more bytes than the buffer holds.\<close>

theorem buffer_peek_skip:
  assumes "buffer_inv b" and "0 < sz" and "int (length p) \<ge> min sz (buffer_length b)"
  shows "buffer_peek b (Some p) sz =
      map_sum id (\<lambda>(b', p', n). (p', n)) (buffer_write_to b (Some p) sz) \<and>
    buffer_skip b sz =
      (if buffer_length b < sz then Inr (b, False)
       else map_sum id (\<lambda>(b', p', n). (b', True)) (buffer_write_to b (Some p) sz))"
  using buffer_write_to_peek [OF assms] buffer_write_to_skip [OF assms] by blast

theorem buffer_peek_skip_witness:
  "buffer_peek wrapped_buffer (Some (replicate 2 None)) 2 =
      map_sum id (\<lambda>(b', p', n). (p', n)) (buffer_write_to wrapped_buffer (Some (replicate 2 None)) 2) \<and>
   buffer_skip wrapped_buffer 2 =
      map_sum id (\<lambda>(b', p', n). (b', True)) (buffer_write_to wrapped_buffer (Some (replicate 2 None)) 2)"
  using buffer_peek_skip [of wrapped_buffer 2 "replicate 2 None"]
  by (simp add: wrapped_buffer_facts)



text \<open>An \<open>append\<close> that needs a larger block keeps the bytes already held and adds the new ones,
  provided the head of the ring is at 0 or the ring is full. When the size the growth loop arrives
  at exceeds the limit, the call returns 0 and the buffer is unchanged.\<close>

theorem buffer_append_growth:
  assumes "buffer_inv b" and "m_head b = 0 \<or> m_full b"
    and "get_free_size b < int k" "k \<le> length src"
    and "buffer_length b + int k \<le> BUFFER_SIZE_MAX"
  shows "\<exists>N b' r. refix_new_size (m_size b) (buffer_length b + int k) = Some N \<and>
     buffer_append b (Some src) (int k) = Inr (b', r) \<and> buffer_inv b' \<and>
     (if N \<le> BUFFER_SIZE_MAX
      then r = int k \<and> m_size b' = N \<and> buffer_contents b' = buffer_contents b @ take k src
      else r = 0 \<and> b' = b)"
  using assms by (rule buffer_append_grows)

theorem buffer_append_growth_witness:
  "\<exists>b'. buffer_append (buffer_of (replicate 64 None) 0 0) (Some (replicate 65 (Some CHR ''x'')))
       (int 65) = Inr (b', 65) \<and>
     buffer_inv b' \<and> m_size b' = 128 \<and> buffer_contents b' = replicate 65 (Some CHR ''x'')"
proof -
  have "refix_new_size 64 65 = Some 128"
    by (simp add: refix_new_size_def refix_loop.simps buffer_consts)
  then show ?thesis
    using buffer_append_growth [of "buffer_of (replicate 64 None) 0 0" 65 "replicate 65 (Some CHR ''x'')"]
    by (simp add: get_free_size_def buffer_consts)
qed

text \<open>What \<open>realloc\<close> really does to the bytes of a well-formed buffer. They survive when the
  head is at 0 or the ring is full; with the head inside the block and the tail behind it, as many
  indeterminate bytes as the head's offset are counted as data; with the tail at or before the head,
  only the first \<open>m_tail\<close> bytes of the rotated ring are kept, so data is lost (or, for an empty
  ring, stale bytes appear).\<close>

theorem buffer_realloc_contents:
  assumes "buffer_inv b" and "m_size b < N" "N \<le> BUFFER_SIZE_MAX"
  shows "\<exists>b'. buffer_realloc b N = Inr b' \<and> buffer_inv b' \<and> m_size b' = N \<and>
    buffer_contents b' =
      (if m_head b = 0 \<or> m_full b then buffer_contents b
       else if m_head b < m_tail b then buffer_contents b @ replicate (nat (m_head b)) None
       else take (nat (m_tail b)) (ring_slice (the (m_data b)) (nat (m_head b)) (nat (m_size b))))"
  using assms by (rule buffer_realloc_inv)

theorem buffer_realloc_contents_witness:
  "\<exists>b'. buffer_realloc wrapped_buffer 64 = Inr b' \<and> buffer_inv b' \<and> m_size b' = 64 \<and>
    buffer_contents b' = map Some ''a'' \<and> buffer_contents wrapped_buffer = map Some ''abc''"
proof -
  have "m_size wrapped_buffer = 5" "m_head wrapped_buffer = 3" "m_tail wrapped_buffer = 1"
    "\<not> m_full wrapped_buffer"
    "take 1 (ring_slice (the (m_data wrapped_buffer)) 3 5) = map Some ''a''"
    by (simp_all add: wrapped_buffer_def ring_slice_def upt_conv_Cons)
  then show ?thesis
    using buffer_realloc_contents [OF wrapped_buffer_facts(1), of 64]
    by (simp add: wrapped_buffer_facts buffer_consts)
qed

text \<open>The sized constructor returns an empty buffer of 64 bytes for every requested size up to
  64, and never returns for a larger one: the growth loop doubles the size 0 forever.\<close>

theorem buffer_ctor_outcome:
  "buffer_ctor n = (if n \<le> BUFFER_SIZE_SMALL then Inr (buffer_of (replicate 64 None) 0 0) else Inl Diverges) \<and>
   buffer_inv (buffer_of (replicate 64 None) 0 0) \<and> buffer_contents (buffer_of (replicate 64 None) 0 0) = []"
  using buffer_ctor_small [of n] buffer_ctor_large [of n] by simp

text \<open>Building a buffer from a string of two or more bytes yields exactly those bytes, but the
  block allocated is smaller than the recorded size, so the result is not well formed; a string of
  one byte yields an empty buffer, because the tail wraps to 0 and the full flag stays false.\<close>

theorem buffer_ctor_string_outcome:
  assumes "s \<noteq> []" and "length s < 2 ^ 30"
  shows "\<exists>b d. buffer_ctor_string s = Inr b \<and> m_data b = Some d \<and>
    buffer_contents b = (if length s = 1 then [] else map Some s) \<and>
    length d = length s \<and> m_size b = int (length s + length s div 2) \<and>
    (length s \<ge> 2 \<longrightarrow> \<not> buffer_inv b)"
  using buffer_ctor_string_form [OF assms]
  by (auto simp: buffer_contents_def buffer_length_def buffer_empty_def buffer_full_def
      ring_slice_nowrap buffer_inv_def)

theorem buffer_ctor_string_outcome_witness:
  "(\<exists>b d. buffer_ctor_string ''1234'' = Inr b \<and> m_data b = Some d \<and>
     buffer_contents b = map Some ''1234'' \<and> length d = length ''1234'' \<and> m_size b = 6 \<and> \<not> buffer_inv b) \<and>
   (\<exists>b d. buffer_ctor_string ''1'' = Inr b \<and> m_data b = Some d \<and> buffer_contents b = [] \<and>
     length d = 1 \<and> m_size b = 1)"
  using buffer_ctor_string_outcome [of "''1234''"] buffer_ctor_string_outcome [of "''1''"] by simp

text \<open>After the string constructor, every \<open>append\<close> that the recorded size has room for writes
  behind the end of the allocated block.\<close>

theorem buffer_ctor_string_overflow:
  assumes "length s < 2 ^ 30" and "2 \<le> length s" and "0 < k" and "k \<le> length s div 2"
    and "k \<le> length src" and "buffer_ctor_string s = Inr b"
  shows "buffer_append b (Some src) (int k) = Inl Out_Of_Bounds"
proof -
  have b: "b = \<lparr>m_data = Some (map Some s), m_size = int (length s + length s div 2), m_head = 0,
      m_tail = int (length s), m_full = False\<rparr>"
    using buffer_ctor_string_form [of s] assms by (cases s) auto
  have "buffer_length b = int (length s)"
    using assms(2) by (auto simp: b buffer_length_def buffer_empty_def buffer_full_def)
  then show ?thesis
    using assms(3-5)
    by (simp add: buffer_append_def buffer_store_def b get_free_size_def mem_read_def mem_write_def)
qed

theorem buffer_ctor_string_overflow_witness:
  "\<exists>b. buffer_ctor_string ''0123456789'' = Inr b \<and>
     buffer_append b (Some (map Some ''abc'')) (int 3) = Inl Out_Of_Bounds"
  using buffer_ctor_string_form [of "''0123456789''"]
    buffer_ctor_string_overflow [of "''0123456789''" 3 "map Some ''abc''"]
  by simp

text \<open>\<open>retrieve_all_as_string\<close> returns the bytes held when they are fewer than 4096 and contain
  no NUL; with 4096 bytes or more it writes behind its local array.\<close>

theorem buffer_retrieve:
  assumes "buffer_inv b" and "buffer_contents b = map Some s" and "nul \<notin> set s"
  shows "retrieve_all_as_string b = (if length s < 4096 then Inr s else Inl Out_Of_Bounds)"
  using assms by (rule buffer_retrieve_inv)

theorem buffer_retrieve_witness:
  "retrieve_all_as_string wrapped_buffer = Inr ''abc''"
  using buffer_retrieve [of wrapped_buffer "''abc''"]
  by (simp add: wrapped_buffer_facts nul_def)

end
