(* ===== verification/Bits.thy ===== *)
theory Bits
  imports Xsix_Prelude
begin

unbundle bit_operations_syntax

text \<open>
  The bit set \<open>xsix::bits<SlotCount>\<close> of \<open>src/src/xsix/bits.hpp\<close>. The template argument is the
  first argument \<open>n\<close> of every operation; a bit set is its array \<open>m_bytes\<close> of bytes.
\<close>

section \<open>Model\<close>

record bits =
  m_bytes :: "8 word list"

definition BYTE_COUNT :: "nat \<Rightarrow> nat" where
  "BYTE_COUNT n = (n + 7) div 8"

function fill_bytes :: "8 word \<Rightarrow> nat \<Rightarrow> nat \<Rightarrow> 8 word list \<Rightarrow> 8 word list" where
  "fill_bytes v i n bs = (if i < BYTE_COUNT n then fill_bytes v (Suc i) n (bs[i := v]) else bs)"
  by pat_completeness auto
termination
  by (relation "measure (\<lambda>(v, i, n, bs). BYTE_COUNT n - i)") auto

declare fill_bytes.simps [simp del]

definition bits_clear_all :: "nat \<Rightarrow> bits \<Rightarrow> bits" where
  "bits_clear_all n b = b\<lparr>m_bytes := fill_bytes 0x00 0 n (m_bytes b)\<rparr>"

definition bits_set_all :: "nat \<Rightarrow> bits \<Rightarrow> bits" where
  "bits_set_all n b = b\<lparr>m_bytes := fill_bytes 0xFF 0 n (m_bytes b)\<rparr>"

text \<open>The default constructor clears an array of \<open>BYTE_COUNT\<close> bytes with arbitrary contents.\<close>

definition bits_ctor :: "nat \<Rightarrow> 8 word list \<Rightarrow> bits" where
  "bits_ctor n garbage = bits_clear_all n \<lparr>m_bytes = garbage\<rparr>"

definition bits_assign :: "bits \<Rightarrow> bits \<Rightarrow> bits" where
  "bits_assign lhs rhs = lhs\<lparr>m_bytes := m_bytes rhs\<rparr>"

definition bits_set :: "nat \<Rightarrow> bits \<Rightarrow> int \<Rightarrow> bool \<Rightarrow> bits" where
  "bits_set n b index v =
     (if index \<ge> 0 \<and> index < int n then
        let byte_index = nat (c_quot index 8); bit_index = nat (c_rem index 8);
            byte = m_bytes b ! byte_index
        in b\<lparr>m_bytes := (m_bytes b)[byte_index :=
             (if v then byte OR push_bit bit_index 1 else byte AND NOT (push_bit bit_index 1))]\<rparr>
      else b)"

definition bits_get :: "nat \<Rightarrow> bits \<Rightarrow> int \<Rightarrow> bool" where
  "bits_get n b index =
     (if index \<ge> 0 \<and> index < int n then
        let byte_index = nat (c_quot index 8); bit_index = nat (c_rem index 8)
        in (m_bytes b ! byte_index) AND push_bit bit_index 1 \<noteq> 0
      else False)"

definition bits_toggle :: "nat \<Rightarrow> bits \<Rightarrow> int \<Rightarrow> bits" where
  "bits_toggle n b index =
     (if index \<ge> 0 \<and> index < int n then bits_set n b index (\<not> bits_get n b index) else b)"

function bit_string_loop :: "nat \<Rightarrow> bits \<Rightarrow> nat \<Rightarrow> string \<Rightarrow> string" where
  "bit_string_loop n b i result =
     (if i < n
      then bit_string_loop n b (Suc i) (result @ [if bits_get n b (int i) then CHR ''1'' else CHR ''0''])
      else result)"
  by pat_completeness auto
termination
  by (relation "measure (\<lambda>(n, b, i, result). n - i)") auto

declare bit_string_loop.simps [simp del]

definition get_bit_string :: "nat \<Rightarrow> bits \<Rightarrow> string" where
  "get_bit_string n b = bit_string_loop n b 0 []"

definition bits_length :: "nat \<Rightarrow> bits \<Rightarrow> int" where
  "bits_length n b = int n"

definition bits_inv :: "nat \<Rightarrow> bits \<Rightarrow> bool" where
  "bits_inv n b \<longleftrightarrow> length (m_bytes b) = BYTE_COUNT n"

section \<open>Bytes and positions\<close>

declare push_bit_of_1 [simp del]

lemma index_split:
  "0 \<le> i \<Longrightarrow> nat (c_quot i 8) = nat i div 8"
  "0 \<le> i \<Longrightarrow> nat (c_rem i 8) = nat i mod 8"
  by (simp_all add: c_quot_nonneg c_rem_nonneg nat_div_distrib nat_mod_distrib)

lemma byte_in_range: "i < n \<Longrightarrow> i div 8 < BYTE_COUNT n"
  by (simp add: BYTE_COUNT_def)

lemma byte_test: "k < 8 \<Longrightarrow> ((w :: 8 word) AND push_bit k 1 \<noteq> 0) = bit w k"
  by (rule bit_iff_and_push_bit_not_eq_0 [symmetric])

lemma byte_or_bit: "k < 8 \<Longrightarrow> bit ((w :: 8 word) OR push_bit k 1) j \<longleftrightarrow> bit w j \<or> j = k"
  by (auto simp: bit_simps)

lemma byte_and_not_bit: "k < 8 \<Longrightarrow> bit ((w :: 8 word) AND NOT (push_bit k 1)) j \<longleftrightarrow> bit w j \<and> j \<noteq> k"
  by (auto simp: bit_simps dest: bit_imp_le_length)

lemma bits_get_bit:
  "bits_get n b i \<longleftrightarrow> 0 \<le> i \<and> i < int n \<and> bit (m_bytes b ! (nat i div 8)) (nat i mod 8)"
  by (auto simp: bits_get_def index_split byte_test Let_def)

lemma bits_set_bytes:
  assumes "0 \<le> i" and "i < int n"
  shows "m_bytes (bits_set n b i v) = (m_bytes b)[nat i div 8 :=
    (if v then m_bytes b ! (nat i div 8) OR push_bit (nat i mod 8) 1
     else m_bytes b ! (nat i div 8) AND NOT (push_bit (nat i mod 8) 1))]"
  using assms by (simp add: bits_set_def index_split Let_def)

lemma bits_set_inv [simp]: "bits_inv n b \<Longrightarrow> bits_inv n (bits_set n b i v)"
  by (simp add: bits_inv_def bits_set_def Let_def)

lemma same_position: "0 \<le> i \<Longrightarrow> 0 \<le> j \<Longrightarrow> nat i div 8 = nat j div 8 \<Longrightarrow> nat i mod 8 = nat j mod 8 \<Longrightarrow> i = j"
  by (metis div_mult_mod_eq nat_eq_iff2 nat_0_le)

lemma bits_get_set:
  assumes "bits_inv n b"
  shows "bits_get n (bits_set n b i v) j = (if i = j \<and> 0 \<le> i \<and> i < int n then v else bits_get n b j)"
proof (cases "0 \<le> i \<and> i < int n \<and> 0 \<le> j \<and> j < int n")
  case True
  then have len: "nat i div 8 < length (m_bytes b)"
    using assms byte_in_range [of "nat i" n] by (simp add: bits_inv_def nat_less_iff)
  have "nat i div 8 = nat j div 8 \<Longrightarrow> (nat j mod 8 = nat i mod 8) = (i = j)"
    using True same_position [of i j] by auto
  with True len show ?thesis
    by (auto simp: bits_get_bit bits_set_bytes nth_list_update byte_or_bit byte_and_not_bit)
next
  case False
  have "\<not> (0 \<le> i \<and> i < int n) \<Longrightarrow> bits_set n b i v = b"
    by (auto simp: bits_set_def)
  with False show ?thesis by (cases "0 \<le> i \<and> i < int n") (auto simp: bits_get_bit)
qed

lemma bits_toggle_twice:
  assumes "bits_inv n b"
  shows "bits_toggle n (bits_toggle n b i) i = b"
proof (cases "0 \<le> i \<and> i < int n")
  case True
  define k w where "k = nat i mod 8" and "w = m_bytes b ! (nat i div 8)"
  have len: "nat i div 8 < length (m_bytes b)"
    using assms True byte_in_range [of "nat i" n] by (simp add: bits_inv_def nat_less_iff)
  have k: "k < 8" by (simp add: k_def)
  have up: "bit w k \<Longrightarrow> (w AND NOT (push_bit k 1)) OR push_bit k 1 = w"
    using k by (intro bit_eqI) (auto simp: byte_or_bit byte_and_not_bit)
  have down: "\<not> bit w k \<Longrightarrow> (w OR push_bit k 1) AND NOT (push_bit k 1) = w"
    using k by (intro bit_eqI) (auto simp: byte_or_bit byte_and_not_bit)
  have get: "bits_get n b i = bit w k"
    using True by (simp add: bits_get_bit k_def w_def)
  have "m_bytes (bits_toggle n (bits_toggle n b i) i) = (m_bytes b)[nat i div 8 := w]"
    using True len up down
    by (auto simp: bits_toggle_def bits_get_set [OF assms] get bits_set_bytes
        k_def [symmetric] w_def [symmetric])
  then show ?thesis by (simp add: w_def)
next
  case False
  then show ?thesis by (auto simp: bits_toggle_def)
qed

section \<open>Loops\<close>

lemma fill_bytes_length [simp]: "length (fill_bytes v i n bs) = length bs"
  by (induction v i n bs rule: fill_bytes.induct) (subst fill_bytes.simps, simp)

lemma fill_bytes_nth:
  "k < length bs \<Longrightarrow> fill_bytes v i n bs ! k = (if i \<le> k \<and> k < BYTE_COUNT n then v else bs ! k)"
  by (induction v i n bs rule: fill_bytes.induct) (subst fill_bytes.simps, auto simp: nth_list_update)

lemma bits_fill_get:
  assumes "bits_inv n b"
  shows "bits_get n (bits_clear_all n b) j = False"
    and "bits_get n (bits_set_all n b) j = (0 \<le> j \<and> j < int n)"
proof -
  have len: "0 \<le> j \<Longrightarrow> j < int n \<Longrightarrow> nat j div 8 < BYTE_COUNT n"
    by (rule byte_in_range) (simp add: nat_less_iff)
  have mask: "(0xFF :: 8 word) = mask 8" by (simp add: mask_eq_exp_minus_1)
  have ff: "k < 8 \<Longrightarrow> bit (0xFF :: 8 word) k" for k :: nat
    unfolding mask bit_mask_iff by simp
  show "bits_get n (bits_clear_all n b) j = False"
    using assms len by (auto simp: bits_get_bit bits_clear_all_def fill_bytes_nth bits_inv_def)
  show "bits_get n (bits_set_all n b) j = (0 \<le> j \<and> j < int n)"
    using assms len ff by (auto simp: bits_get_bit bits_set_all_def fill_bytes_nth bits_inv_def)
qed

lemma bit_string_loop_eq:
  "i \<le> n \<Longrightarrow> bit_string_loop n b i result =
     result @ map (\<lambda>j. if bits_get n b (int j) then CHR ''1'' else CHR ''0'') [i..<n]"
proof (induction n b i result rule: bit_string_loop.induct)
  case (1 n b i result)
  then show ?case
    by (cases "i < n") (subst bit_string_loop.simps, simp add: upt_conv_Cons)+
qed

section \<open>Properties\<close>

text \<open>The bit set is a store of independent flags: \<open>set\<close> changes the bit at its index and no
  other, does nothing for an index outside the set, and \<open>get\<close> reads back the last value stored.\<close>

theorem bits_store:
  assumes "bits_inv n b"
  shows "bits_inv n (bits_set n b i v) \<and>
    bits_get n (bits_set n b i v) j = (if i = j \<and> 0 \<le> i \<and> i < int n then v else bits_get n b j)"
  using assms by (simp add: bits_get_set)

theorem bits_store_witness:
  "bits_inv 10 \<lparr>m_bytes = [0, 0]\<rparr> \<and> bits_get 10 (bits_set 10 \<lparr>m_bytes = [0, 0]\<rparr> 9 True) 9 \<and>
   \<not> bits_get 10 (bits_set 10 \<lparr>m_bytes = [0, 0]\<rparr> 9 True) 8"
proof -
  have inv: "bits_inv 10 \<lparr>m_bytes = [0, 0]\<rparr>" by (simp add: bits_inv_def BYTE_COUNT_def)
  show ?thesis
    using bits_store [OF inv, of 9 True 9] bits_store [OF inv, of 9 True 8] inv
    by (simp add: bits_get_bit)
qed

text \<open>\<open>toggle\<close> flips exactly one bit of the set and toggling twice restores every byte.\<close>

theorem bits_toggle_involution:
  assumes "bits_inv n b"
  shows "bits_toggle n (bits_toggle n b i) i = b \<and>
    bits_get n (bits_toggle n b i) j =
      (if i = j \<and> 0 \<le> i \<and> i < int n then \<not> bits_get n b j else bits_get n b j)"
  using bits_toggle_twice [OF assms] bits_get_set [OF assms] by (simp add: bits_toggle_def)

theorem bits_toggle_involution_witness:
  "bits_toggle 3 (bits_toggle 3 \<lparr>m_bytes = [5]\<rparr> 1) 1 = \<lparr>m_bytes = [5]\<rparr> \<and>
   bits_get 3 (bits_toggle 3 \<lparr>m_bytes = [5]\<rparr> 1) 1 = (\<not> bits_get 3 \<lparr>m_bytes = [5]\<rparr> 1)"
  using bits_toggle_involution [of 3 "\<lparr>m_bytes = [5]\<rparr>" 1 1]
  by (simp add: bits_inv_def BYTE_COUNT_def)

text \<open>The printed bit string has one character per slot, each saying what \<open>get\<close> returns
  there; it is all zeros after construction and all ones after \<open>set_all\<close>.\<close>

theorem bits_string_reads_slots:
  assumes "length garbage = BYTE_COUNT n"
  shows "(\<forall>b. length (get_bit_string n b) = n \<and>
      (\<forall>i < n. get_bit_string n b ! i = (if bits_get n b (int i) then CHR ''1'' else CHR ''0''))) \<and>
    get_bit_string n (bits_ctor n garbage) = replicate n (CHR ''0'') \<and>
    get_bit_string n (bits_set_all n (bits_ctor n garbage)) = replicate n (CHR ''1'')"
proof -
  have inv: "bits_inv n \<lparr>m_bytes = garbage\<rparr>" "bits_inv n (bits_ctor n garbage)"
    using assms by (simp_all add: bits_inv_def bits_ctor_def bits_clear_all_def)
  have str: "get_bit_string n b = map (\<lambda>j. if bits_get n b (int j) then CHR ''1'' else CHR ''0'') [0..<n]" for b
    by (simp add: get_bit_string_def bit_string_loop_eq)
  have "map (\<lambda>j. if bits_get n (bits_ctor n garbage) (int j) then CHR ''1'' else CHR ''0'') [0..<n] =
      map (\<lambda>_. CHR ''0'') [0..<n]"
    by (simp add: bits_ctor_def bits_fill_get(1) [OF inv(1)])
  moreover have "map (\<lambda>j. if bits_get n (bits_set_all n (bits_ctor n garbage)) (int j)
        then CHR ''1'' else CHR ''0'') [0..<n] = map (\<lambda>_. CHR ''1'') [0..<n]"
    by (simp add: bits_fill_get(2) [OF inv(2)])
  ultimately show ?thesis by (simp add: str map_replicate_const)
qed

theorem bits_string_reads_slots_witness:
  "get_bit_string 3 (bits_ctor 3 [7]) = ''000'' \<and>
   get_bit_string 3 (bits_set_all 3 (bits_ctor 3 [7])) = ''111''"
proof -
  have len: "length [7 :: 8 word] = BYTE_COUNT 3" by (simp add: BYTE_COUNT_def)
  have "replicate 3 (CHR ''0'') = ''000''" "replicate 3 (CHR ''1'') = ''111''"
    by (simp_all add: numeral_3_eq_3)
  with bits_string_reads_slots [OF len] show ?thesis by argo
qed

end
