(* ===== verification/Queues.thy ===== *)
theory Queues
  imports Fifo_Spec
begin

text \<open>
  The two shared containers: \<open>xsix::ThreadSafeList\<close> of \<open>src/src/xsix/thread_safe_list.hpp\<close>, whose
  operations each run under the mutex and so are atomic steps, and \<open>xsix::BlockQueue\<close> of
  \<open>src/src/xsix/block_queue.hpp\<close>, whose \<open>take\<close> waits on a condition variable. The second is a
  transition system over any number of threads, with the mutex, the waiting set and spurious
  wake-ups of \<open>std::condition_variable\<close> as the standard describes them.
\<close>

section \<open>ThreadSafeList\<close>

record 'a thread_safe_list =
  m_list :: "'a list"

definition tsl_size :: "'a thread_safe_list \<Rightarrow> int" where
  "tsl_size l = to_i32 (int (length (m_list l)))"

definition tsl_empty :: "'a thread_safe_list \<Rightarrow> bool" where
  "tsl_empty l = (m_list l = [])"

definition tsl_push_back :: "'a \<Rightarrow> 'a thread_safe_list \<Rightarrow> 'a thread_safe_list" where
  "tsl_push_back e l = l\<lparr>m_list := m_list l @ [e]\<rparr>"

definition tsl_push_front :: "'a \<Rightarrow> 'a thread_safe_list \<Rightarrow> 'a thread_safe_list" where
  "tsl_push_front e l = l\<lparr>m_list := e # m_list l\<rparr>"

definition tsl_back :: "'a thread_safe_list \<Rightarrow> 'a res" where
  "tsl_back l = (case m_list l of [] \<Rightarrow> Inl Empty_Access | x # xs \<Rightarrow> Inr (last (x # xs)))"

definition tsl_front :: "'a thread_safe_list \<Rightarrow> 'a res" where
  "tsl_front l = (case m_list l of [] \<Rightarrow> Inl Empty_Access | x # xs \<Rightarrow> Inr x)"

definition tsl_pop_back :: "'a thread_safe_list \<Rightarrow> 'a thread_safe_list res" where
  "tsl_pop_back l =
     (case m_list l of [] \<Rightarrow> Inl Empty_Access | x # xs \<Rightarrow> Inr (l\<lparr>m_list := butlast (x # xs)\<rparr>))"

definition tsl_pop_front :: "'a thread_safe_list \<Rightarrow> 'a thread_safe_list res" where
  "tsl_pop_front l =
     (case m_list l of [] \<Rightarrow> Inl Empty_Access | x # xs \<Rightarrow> Inr (l\<lparr>m_list := xs\<rparr>))"

text \<open>How the chat room drives the list: whole batches are pushed, and the front is read and popped
  while the list is not empty.\<close>

definition tsl_put :: "'a thread_safe_list \<Rightarrow> 'a list \<Rightarrow> 'a thread_safe_list res" where
  "tsl_put l xs = Inr (fold tsl_push_back xs l)"

fun tsl_get :: "'a thread_safe_list \<Rightarrow> nat \<Rightarrow> ('a thread_safe_list \<times> 'a list) res" where
  "tsl_get l 0 = Inr (l, [])"
| "tsl_get l (Suc n) =
     (if tsl_empty l then Inr (l, [])
      else bind_res (tsl_front l) (\<lambda>x.
           bind_res (tsl_pop_front l) (\<lambda>l'.
           bind_res (tsl_get l' n) (\<lambda>(l'', xs). Inr (l'', x # xs)))))"

section \<open>BlockQueue\<close>

text \<open>A thread that uses the queue is at one of the points where it can be preempted.\<close>

datatype 'a bq_pc =
    Idle
  | Put_Lock 'a | Put_Crit 'a | Put_Unlock
  | Take_Lock | Take_Crit | Take_Wait | Take_Woken | Take_Unlock 'a

record 'a bq_sys =
  m_queue :: "'a list"
  m_mutex :: "nat option"
  pcs :: "'a bq_pc list"
  put_log :: "'a list"
  take_log :: "'a list"

definition bq_init :: "nat \<Rightarrow> 'a bq_sys" where
  "bq_init n = \<lparr>m_queue = [], m_mutex = None, pcs = replicate n Idle, put_log = [], take_log = []\<rparr>"

definition bq_empty :: "'a bq_sys \<Rightarrow> bool" where
  "bq_empty s = (m_queue s = [])"

definition bq_size :: "'a bq_sys \<Rightarrow> nat" where
  "bq_size s = length (m_queue s)"

definition at_pc :: "'a bq_sys \<Rightarrow> nat \<Rightarrow> 'a bq_pc \<Rightarrow> bool" where
  "at_pc s t p \<longleftrightarrow> t < length (pcs s) \<and> pcs s ! t = p"

definition goto :: "nat \<Rightarrow> 'a bq_pc \<Rightarrow> 'a bq_sys \<Rightarrow> 'a bq_sys" where
  "goto t p s = s\<lparr>pcs := (pcs s)[t := p]\<rparr>"

definition bq_push :: "'a \<Rightarrow> 'a bq_sys \<Rightarrow> 'a bq_sys" where
  "bq_push e s = s\<lparr>m_queue := m_queue s @ [e], put_log := put_log s @ [e]\<rparr>"

definition bq_pop :: "'a \<Rightarrow> 'a list \<Rightarrow> 'a bq_sys \<Rightarrow> 'a bq_sys" where
  "bq_pop e q s = s\<lparr>m_queue := q, take_log := take_log s @ [e]\<rparr>"

inductive bq_step :: "'a bq_sys \<Rightarrow> 'a bq_sys \<Rightarrow> bool" where
  call_put: "at_pc s t Idle \<Longrightarrow> bq_step s (goto t (Put_Lock e) s)"
| put_lock: "at_pc s t (Put_Lock e) \<Longrightarrow> m_mutex s = None \<Longrightarrow>
    bq_step s (goto t (Put_Crit e) (s\<lparr>m_mutex := Some t\<rparr>))"
| put_notify: "at_pc s t (Put_Crit e) \<Longrightarrow> at_pc s w Take_Wait \<Longrightarrow>
    bq_step s (goto w Take_Woken (goto t Put_Unlock (bq_push e s)))"
| put_nobody: "at_pc s t (Put_Crit e) \<Longrightarrow> Take_Wait \<notin> set (pcs s) \<Longrightarrow>
    bq_step s (goto t Put_Unlock (bq_push e s))"
| put_unlock: "at_pc s t Put_Unlock \<Longrightarrow> bq_step s (goto t Idle (s\<lparr>m_mutex := None\<rparr>))"
| call_take: "at_pc s t Idle \<Longrightarrow> bq_step s (goto t Take_Lock s)"
| take_lock: "at_pc s t Take_Lock \<Longrightarrow> m_mutex s = None \<Longrightarrow>
    bq_step s (goto t Take_Crit (s\<lparr>m_mutex := Some t\<rparr>))"
| take_wait: "at_pc s t Take_Crit \<Longrightarrow> bq_empty s \<Longrightarrow>
    bq_step s (goto t Take_Wait (s\<lparr>m_mutex := None\<rparr>))"
| take_pop: "at_pc s t Take_Crit \<Longrightarrow> m_queue s = e # q \<Longrightarrow>
    bq_step s (goto t (Take_Unlock e) (bq_pop e q s))"
| take_unlock: "at_pc s t (Take_Unlock e) \<Longrightarrow> bq_step s (goto t Idle (s\<lparr>m_mutex := None\<rparr>))"
| spurious: "at_pc s t Take_Wait \<Longrightarrow> bq_step s (goto t Take_Woken s)"
| relock: "at_pc s t Take_Woken \<Longrightarrow> m_mutex s = None \<Longrightarrow>
    bq_step s (goto t Take_Crit (s\<lparr>m_mutex := Some t\<rparr>))"

inductive bq_reach :: "nat \<Rightarrow> 'a bq_sys \<Rightarrow> bool" for n where
  start: "bq_reach n (bq_init n)"
| step: "bq_reach n s \<Longrightarrow> bq_step s s' \<Longrightarrow> bq_reach n s'"

text \<open>The parts of the invariant: who owns the mutex, what the queue holds, and which takers are up.\<close>

fun holds_lock :: "'a bq_pc \<Rightarrow> bool" where
  "holds_lock (Put_Crit e) = True"
| "holds_lock Put_Unlock = True"
| "holds_lock Take_Crit = True"
| "holds_lock (Take_Unlock e) = True"
| "holds_lock _ = False"

fun awake :: "'a bq_pc \<Rightarrow> bool" where
  "awake Take_Woken = True"
| "awake Take_Crit = True"
| "awake _ = False"

definition mutex_inv :: "'a bq_sys \<Rightarrow> bool" where
  "mutex_inv s \<longleftrightarrow> (\<forall>t < length (pcs s). holds_lock (pcs s ! t) \<longleftrightarrow> m_mutex s = Some t)"

definition fifo_inv :: "'a bq_sys \<Rightarrow> bool" where
  "fifo_inv s \<longleftrightarrow> put_log s = take_log s @ m_queue s"

definition wake_inv :: "'a bq_sys \<Rightarrow> bool" where
  "wake_inv s \<longleftrightarrow>
     (Take_Wait \<in> set (pcs s) \<longrightarrow> length (m_queue s) \<le> length (filter awake (pcs s)))"

section \<open>Facts about the thread-safe list\<close>

lemma tsl_put_view: "m_list (fold tsl_push_back xs l) = m_list l @ xs"
  by (induction xs arbitrary: l) (simp_all add: tsl_push_back_def)

lemma tsl_get_view:
  "tsl_get l n = Inr (l\<lparr>m_list := drop n (m_list l)\<rparr>, take n (m_list l))"
proof (induction l n rule: tsl_get.induct)
  case (2 l n)
  then show ?case
    by (cases "m_list l") (simp_all add: tsl_empty_def tsl_front_def tsl_pop_front_def)
qed simp

interpretation tsl: fifo_store "\<lambda>_. True" m_list "\<lambda>_. bound" tsl_put tsl_get for bound
  by unfold_locales (simp_all add: tsl_put_def tsl_put_view tsl_get_view)

section \<open>Invariants of the blocking queue\<close>

lemma length_pcs_goto [simp]: "length (pcs (goto t p s)) = length (pcs s)"
  by (simp add: goto_def)

lemma goto_sel [simp]:
  "m_queue (goto t p s) = m_queue s" "m_mutex (goto t p s) = m_mutex s"
  "put_log (goto t p s) = put_log s" "take_log (goto t p s) = take_log s"
  "pcs (goto t p s) = (pcs s)[t := p]"
  by (simp_all add: goto_def)

lemma push_pop_sel [simp]:
  "pcs (bq_push e s) = pcs s" "m_mutex (bq_push e s) = m_mutex s"
  "m_queue (bq_push e s) = m_queue s @ [e]"
  "pcs (bq_pop e q s) = pcs s" "m_mutex (bq_pop e q s) = m_mutex s" "m_queue (bq_pop e q s) = q"
  by (simp_all add: bq_push_def bq_pop_def)

lemma filter_update:
  "i < length xs \<Longrightarrow> length (filter P (xs[i := v])) + (if P (xs ! i) then 1 else 0) =
     length (filter P xs) + (if P v then 1 else 0)"
proof (induction xs arbitrary: i)
  case (Cons x xs)
  then show ?case by (cases i) auto
qed simp

lemma in_set_update: "x \<in> set (xs[i := v]) \<Longrightarrow> x \<noteq> v \<Longrightarrow> x \<in> set xs"
  by (metis insertE set_update_subset_insert subsetD)

lemma bq_step_mutex: "bq_step s s' \<Longrightarrow> mutex_inv s \<Longrightarrow> mutex_inv s'"
  by (induction rule: bq_step.induct)
    (auto simp: mutex_inv_def at_pc_def nth_list_update; fastforce)+

lemma bq_step_fifo: "bq_step s s' \<Longrightarrow> fifo_inv s \<Longrightarrow> fifo_inv s'"
  by (induction rule: bq_step.induct) (simp_all add: fifo_inv_def bq_push_def bq_pop_def)

lemma wake_update:
  assumes "at_pc s t q" and "wake_inv s" and "p \<noteq> Take_Wait"
    and "length (m_queue s') + (if awake q then 1 else 0) \<le> length (m_queue s) + (if awake p then 1 else 0)"
    and "pcs s' = (pcs s)[t := p]"
  shows "wake_inv s'"
proof -
  have eq: "length (filter awake (pcs s')) + (if awake q then 1 else 0) =
      length (filter awake (pcs s)) + (if awake p then 1 else 0)"
    using filter_update [of t "pcs s" awake p] assms(1,5) by (simp add: at_pc_def)
  show ?thesis
    unfolding wake_inv_def
  proof
    assume "Take_Wait \<in> set (pcs s')"
    then have "Take_Wait \<in> set (pcs s)"
      using assms(3,5) by (auto dest: in_set_update)
    then have "length (m_queue s) \<le> length (filter awake (pcs s))"
      using assms(2) by (simp add: wake_inv_def)
    with eq assms(4) show "length (m_queue s') \<le> length (filter awake (pcs s'))"
      by linarith
  qed
qed

lemma bq_step_wake: "bq_step s s' \<Longrightarrow> wake_inv s \<Longrightarrow> wake_inv s'"
proof (induction rule: bq_step.induct)
  case (put_notify s t e w)
  let ?s1 = "goto t Put_Unlock s"
  have "t \<noteq> w" using put_notify.hyps by (auto simp: at_pc_def)
  then have w: "at_pc ?s1 w Take_Wait" using put_notify.hyps(2) by (simp add: at_pc_def)
  have "wake_inv ?s1"
    using put_notify.hyps(1) put_notify.prems by (rule wake_update [where p = Put_Unlock]) simp_all
  with w show ?case by (rule wake_update [where p = Take_Woken]) simp_all
next
  case (put_nobody s t e)
  then have "Take_Wait \<notin> set ((pcs s)[t := Put_Unlock])"
    by (auto dest: in_set_update)
  then show ?case by (simp add: wake_inv_def)
next
  case (take_wait s t)
  then show ?case by (simp add: wake_inv_def bq_empty_def)
qed (erule wake_update; simp)+

lemma bq_reach_inv:
  "bq_reach n s \<Longrightarrow> mutex_inv s \<and> fifo_inv s \<and> wake_inv s"
proof (induction rule: bq_reach.induct)
  case start
  show ?case by (auto simp: bq_init_def mutex_inv_def fifo_inv_def wake_inv_def)
next
  case (step s s')
  then show ?case using bq_step_mutex bq_step_fifo bq_step_wake by blast
qed

text \<open>A run of three threads, one of which waits while another puts.\<close>

lemmas bq_run = bq_reach.start bq_reach.step

definition bq_demo :: "nat bq_sys" where
  "bq_demo = \<lparr>m_queue = [7], m_mutex = Some 1, pcs = [Take_Woken, Put_Unlock, Take_Wait],
     put_log = [7], take_log = []\<rparr>"

lemma bq_demo_reach: "bq_reach 3 bq_demo"
proof -
  define s where "s q m p l = \<lparr>m_queue = q, m_mutex = m, pcs = p, put_log = l, take_log = []\<rparr>"
    for q m p and l :: "nat list"
  note defs = s_def bq_init_def goto_def bq_push_def at_pc_def bq_empty_def eval_nat_numeral
  have 0: "bq_reach 3 (s [] None [Idle, Idle, Idle] [])"
    using bq_reach.start [of 3] by (simp add: defs)
  have 1: "bq_reach 3 (s [] None [Take_Lock, Idle, Idle] [])"
    using bq_reach.step [OF 0 bq_step.call_take, of 0] by (simp add: defs)
  have 2: "bq_reach 3 (s [] (Some 0) [Take_Crit, Idle, Idle] [])"
    using bq_reach.step [OF 1 bq_step.take_lock, of 0] by (simp add: defs)
  have 3: "bq_reach 3 (s [] None [Take_Wait, Idle, Idle] [])"
    using bq_reach.step [OF 2 bq_step.take_wait, of 0] by (simp add: defs)
  have 4: "bq_reach 3 (s [] None [Take_Wait, Idle, Take_Lock] [])"
    using bq_reach.step [OF 3 bq_step.call_take, of 2] by (simp add: defs)
  have 5: "bq_reach 3 (s [] (Some 2) [Take_Wait, Idle, Take_Crit] [])"
    using bq_reach.step [OF 4 bq_step.take_lock, of 2] by (simp add: defs)
  have 6: "bq_reach 3 (s [] None [Take_Wait, Idle, Take_Wait] [])"
    using bq_reach.step [OF 5 bq_step.take_wait, of 2] by (simp add: defs)
  have 7: "bq_reach 3 (s [] None [Take_Wait, Put_Lock 7, Take_Wait] [])"
    using bq_reach.step [OF 6 bq_step.call_put, of 1 7] by (simp add: defs)
  have 8: "bq_reach 3 (s [] (Some 1) [Take_Wait, Put_Crit 7, Take_Wait] [])"
    using bq_reach.step [OF 7 bq_step.put_lock, of 1 7] by (simp add: defs)
  have "bq_reach 3 (s [7] (Some 1) [Take_Woken, Put_Unlock, Take_Wait] [7])"
    using bq_reach.step [OF 8 bq_step.put_notify, of 1 7 0] by (simp add: defs)
  then show ?thesis by (simp add: bq_demo_def s_def)
qed

section \<open>Properties\<close>

text \<open>C2: Whatever the threads do and however they are scheduled, the blocking queue hands out the
  elements in the order they were put in, each exactly once: the elements taken followed by the ones
  still queued are the elements put.\<close>

theorem block_queue_fifo:
  assumes "bq_reach n s"
  shows "put_log s = take_log s @ m_queue s"
  using bq_reach_inv [OF assms] by (simp add: fifo_inv_def)

theorem block_queue_fifo_witness:
  "bq_reach 3 bq_demo \<and> put_log bq_demo = take_log bq_demo @ m_queue bq_demo"
  using bq_demo_reach block_queue_fifo [OF bq_demo_reach] by simp

text \<open>At most one thread is inside the critical section of \<open>put\<close> or \<open>take\<close>, and it is the one
  the mutex records; a thread that waits in \<open>take\<close> has released the mutex.\<close>

theorem block_queue_mutual_exclusion:
  assumes "bq_reach n s" and "at_pc s t p" and "at_pc s u q" and "holds_lock p" and "holds_lock q"
  shows "t = u \<and> m_mutex s = Some t"
  using bq_reach_inv [OF assms(1)] assms(2-5) by (auto simp: mutex_inv_def at_pc_def)

theorem block_queue_mutual_exclusion_witness:
  "at_pc bq_demo 1 Put_Unlock \<and> m_mutex bq_demo = Some 1"
  using block_queue_mutual_exclusion [OF bq_demo_reach, of 1 Put_Unlock 1 Put_Unlock]
  by (simp add: bq_demo_def at_pc_def)

text \<open>C3: No wake-up is lost: as long as a thread waits, at least as many takers are on their way to
  the queue as there are elements in it, so an element is never left with only sleeping takers.\<close>

theorem block_queue_no_lost_wakeup:
  assumes "bq_reach n s" and "at_pc s t Take_Wait"
  shows "bq_size s \<le> length (filter awake (pcs s)) \<and>
    (\<not> bq_empty s \<longrightarrow> (\<exists>u. at_pc s u Take_Woken \<or> at_pc s u Take_Crit))"
proof -
  have le: "bq_size s \<le> length (filter awake (pcs s))"
    using bq_reach_inv [OF assms(1)] assms(2) nth_mem [of t "pcs s"]
    by (auto simp: wake_inv_def at_pc_def bq_size_def)
  have "\<exists>u. at_pc s u Take_Woken \<or> at_pc s u Take_Crit" if "\<not> bq_empty s"
  proof -
    have "filter awake (pcs s) \<noteq> []"
      using le that by (auto simp: bq_size_def bq_empty_def)
    then obtain u where "u < length (pcs s)" "awake (pcs s ! u)"
      by (auto simp: filter_empty_conv in_set_conv_nth)
    then have "at_pc s u Take_Woken \<or> at_pc s u Take_Crit"
      by (cases "pcs s ! u") (auto simp: at_pc_def)
    then show ?thesis by blast
  qed
  with le show ?thesis by blast
qed

theorem block_queue_no_lost_wakeup_witness:
  "at_pc bq_demo 2 Take_Wait \<and> bq_size bq_demo \<le> length (filter awake (pcs bq_demo)) \<and> \<not> bq_empty bq_demo"
proof -
  have w: "at_pc bq_demo 2 Take_Wait" by (simp add: bq_demo_def at_pc_def)
  show ?thesis
    using w block_queue_no_lost_wakeup [OF bq_demo_reach w] by (simp add: bq_demo_def bq_empty_def)
qed

text \<open>The thread-safe list used as a send queue is a FIFO store for every history: pushes and
  front-then-pop reads give what a plain list gives, and reading or popping an empty list is the only
  access that is not defined.\<close>

theorem thread_safe_list_fifo:
  "(\<exists>l' out. fifo_run tsl_put tsl_get l ops = Inr (l', out) \<and>
      list_run (m_list l) ops = (m_list l', out) \<and> out @ m_list l' = m_list l @ inputs ops) \<and>
   (tsl_front l = Inl Empty_Access \<longleftrightarrow> tsl_empty l) \<and> (tsl_back l = Inl Empty_Access \<longleftrightarrow> tsl_empty l) \<and>
   (tsl_pop_front l = Inl Empty_Access \<longleftrightarrow> tsl_empty l) \<and>
   (tsl_pop_back l = Inl Empty_Access \<longleftrightarrow> tsl_empty l)"
proof -
  have bound: "\<exists>bd. fits bd n ops" for n
  proof (induction ops arbitrary: n)
    case (Cons op ops)
    show ?case
    proof (cases op)
      case (Put xs)
      obtain bd where "fits bd (n + length xs) ops" using Cons.IH by blast
      moreover have "fits bd m ops \<Longrightarrow> fits (bd + k) m ops" for bd k m and ops :: "'a fifo_op list"
        by (induction bd m ops rule: fits.induct) auto
      ultimately have "fits (bd + (n + length xs)) (n + length xs) ops" by blast
      then show ?thesis using Put by (intro exI [of _ "bd + (n + length xs)"]) simp
    qed (use Cons.IH in simp)
  qed simp
  then obtain bd where "fits bd (length (m_list l)) ops" by blast
  from tsl.run_refines_list [OF TrueI this] list_run_conserves
  show ?thesis
    by (force simp: tsl_empty_def tsl_front_def tsl_back_def tsl_pop_front_def tsl_pop_back_def
        split: list.splits)
qed

end
