(* ===== verification/Fmt.thy ===== *)
theory Fmt
  imports Xsix_Prelude
begin

text \<open>
  The formatter of \<open>src/src/xsix/fmt.hpp\<close>. A \<open>char*\<close> is a block with a position in it; every store
  through the pointer is checked against the block. A format is the text before its terminating NUL.
  Arguments are the value types \<open>v2s\<close> is specialised for, and integers for its general case.
\<close>

section \<open>Model\<close>

datatype fmt_arg = Arg_Int int | Arg_Bool bool | Arg_String string | Arg_CStr string

definition percent :: char where
  "percent = CHR ''%''"

text \<open>\<open>snprintf(buf, n, "%s", s)\<close>: at most \<open>n - 1\<close> characters and a NUL; the return value is the
  length of the whole text.\<close>

definition snprintf_s :: "char list \<Rightarrow> int \<Rightarrow> int \<Rightarrow> string \<Rightarrow> (char list \<times> int) res" where
  "snprintf_s buf pos n s =
     (if n = 0 then Inr (buf, int (length s))
      else bind_res (mem_write buf pos (take (nat (n - 1)) s @ [nul]))
             (\<lambda>buf'. Inr (buf', int (length s))))"

fun arg_text :: "fmt_arg \<Rightarrow> string" where
  "arg_text (Arg_Int i) = dec_of_int i"
| "arg_text (Arg_Bool v) = (if v then ''true'' else ''false'')"
| "arg_text (Arg_String s) = s"
| "arg_text (Arg_CStr s) = c_str s"

definition v2s :: "char list \<Rightarrow> int \<Rightarrow> int \<Rightarrow> fmt_arg \<Rightarrow> (char list \<times> int) res" where
  "v2s buf pos n v = snprintf_s buf pos n (c_str (arg_text v))"

text \<open>The overload without values: it refuses a format with an unpaired percent sign, then copies.\<close>

fun fmt_check :: "string \<Rightarrow> unit res" where
  "fmt_check [] = Inr ()"
| "fmt_check (c # f) =
     (if c = percent \<and> (f = [] \<or> hd f \<noteq> percent)
      then Inl (Runtime_Error ''invalid format string: missing arguments'')
      else fmt_check f)"

fun fmt_copy :: "char list \<Rightarrow> int \<Rightarrow> int \<Rightarrow> string \<Rightarrow> (char list \<times> int) res" where
  "fmt_copy buf cur end_it [] = Inr (buf, cur)"
| "fmt_copy buf cur end_it (c # f) =
     (if cur < end_it
      then bind_res (mem_write buf cur [c]) (\<lambda>buf'. fmt_copy buf' (cur + 1) end_it f)
      else Inr (buf, cur))"

definition fmt_end :: "char list \<Rightarrow> int \<Rightarrow> int \<Rightarrow> string \<Rightarrow> char list res" where
  "fmt_end buf pos buf_size format =
     bind_res (fmt_check format) (\<lambda>_.
     let end_it = pos + buf_size - 1 in
     bind_res (fmt_copy buf pos end_it format) (\<lambda>(buf1, cur).
     bind_res (if cur < end_it then mem_write buf1 cur [nul] else Inr buf1) (\<lambda>buf2.
     mem_write buf2 end_it [nul])))"

text \<open>The overload with values, and its scanning loop.\<close>

function (sequential) fmt_args :: "char list \<Rightarrow> int \<Rightarrow> int \<Rightarrow> string \<Rightarrow> fmt_arg list \<Rightarrow> char list res"
  and fmt_loop :: "char list \<Rightarrow> int \<Rightarrow> int \<Rightarrow> string \<Rightarrow> fmt_arg \<Rightarrow> fmt_arg list \<Rightarrow> char list res" where
  "fmt_args buf pos buf_size format [] = fmt_end buf pos buf_size format"
| "fmt_args buf pos buf_size format (v # vs) =
     (if format = [] \<or> buf_size \<le> 0 then Inr buf
      else fmt_loop buf pos (pos + buf_size - 1) format v vs)"
| "fmt_loop buf cur end_it [] v vs = Inr buf"
| "fmt_loop buf cur end_it (c # f) v vs =
     (if \<not> cur < end_it then Inr buf
      else if c = percent then
        (if f \<noteq> [] \<and> hd f = percent
         then bind_res (mem_write buf cur [percent]) (\<lambda>buf'. fmt_loop buf' cur end_it (tl f) v vs)
         else
           let remain = end_it - cur + 1 in
           bind_res (v2s buf cur remain v) (\<lambda>(buf', value_size).
           let step = (if value_size < remain - 1 then value_size else remain - 1);
               cur' = cur + step
           in fmt_args buf' cur' (end_it - cur' + 1) f vs))
      else bind_res (mem_write buf cur [c]) (\<lambda>buf'. fmt_loop buf' (cur + 1) end_it f v vs))"
  by pat_completeness auto
termination
  by (relation "measure (\<lambda>x. case x of
        Inl (buf, pos, n, f, vs) \<Rightarrow> 2 * (length f + length vs) + 1
      | Inr (buf, cur, e, f, v, vs) \<Rightarrow> 2 * (length f + length vs) + 2)") auto

text \<open>The overload for \<open>std::string\<close>: a zeroed array of 4096 characters.\<close>

definition fmt_string :: "string option \<Rightarrow> string \<Rightarrow> fmt_arg list \<Rightarrow> string res" where
  "fmt_string format old vs =
     (case format of
        None \<Rightarrow> Inr old
      | Some f \<Rightarrow> bind_res (fmt_args (replicate 4096 nul) 0 4096 f vs) (\<lambda>tmp. Inr (c_str tmp)))"

section \<open>Stores at a position\<close>

lemma mem_write_at:
  "length xs \<le> length R \<Longrightarrow>
   mem_write (A @ R) (int (length A)) xs = Inr (A @ xs @ drop (length xs) R)"
  by (simp add: mem_write_def)

lemma mem_write_at1: "mem_write (A @ r # R) (int (length A)) [x] = Inr (A @ x # R)"
  by (simp add: mem_write_def)

lemma fmt_check_ok: "percent \<notin> set f \<Longrightarrow> fmt_check f = Inr ()"
  by (induction f) auto

lemma fmt_check_throws: "percent \<in> set f \<Longrightarrow> \<exists>m. fmt_check f = Inl (Runtime_Error m)"
proof (induction f)
  case (Cons c f)
  then show ?case by (cases f) auto
qed simp

lemma fmt_copy_at:
  "fmt_copy (A @ R) (int (length A)) (int (length A + n)) f =
     (if min (length f) n \<le> length R
      then Inr (A @ take n f @ drop (min (length f) n) R, int (length A + min (length f) n))
      else Inl Out_Of_Bounds)"
proof (induction f arbitrary: A R n)
  case (Cons c f)
  show ?case
  proof (cases n)
    case (Suc m)
    show ?thesis
    proof (cases R)
      case Nil
      then show ?thesis using Suc by (simp add: mem_write_def)
    next
      case (Cons r R')
      have "fmt_copy ((A @ [c]) @ R') (int (length (A @ [c]))) (int (length (A @ [c]) + m)) f =
        (if min (length f) m \<le> length R'
         then Inr ((A @ [c]) @ take m f @ drop (min (length f) m) R', int (length (A @ [c]) + min (length f) m))
         else Inl Out_Of_Bounds)"
        by (rule Cons.IH)
      then show ?thesis
        using Suc Cons by (simp add: mem_write_at1 algebra_simps)
    qed
  qed simp
qed simp

lemma fmt_end_at:
  assumes "percent \<notin> set f" and "m < length R"
  shows "\<exists>T. fmt_end (A @ R) (int (length A)) (int (Suc m)) f =
      Inr (A @ take m f @ nul # T @ drop (Suc m) R) \<and> length T = m - min (length f) m"
proof -
  define k where "k = min (length f) m"
  have k: "k \<le> m" "k \<le> length R" "length (take m f) = k"
    using assms(2) by (auto simp: k_def)
  have e: "int (length A) + int (Suc m) - 1 = int (length A + m)" by simp
  have copy: "fmt_copy (A @ R) (int (length A)) (int (length A + m)) f =
      Inr (A @ take m f @ drop k R, int (length A + k))"
    using k(2) by (simp only: fmt_copy_at k_def [symmetric] if_True)
  note unf = fmt_end_def Let_def e copy fmt_check_ok [OF assms(1)]
  have last: "drop m R = R ! m # drop (Suc m) R"
    using assms(2) by (simp add: Cons_nth_drop_Suc)
  show ?thesis
  proof (cases "k < m")
    case True
    define M where "M = take (m - Suc k) (drop (Suc k) R)"
    have lM: "length M = m - Suc k" using True assms(2) by (simp add: M_def)
    have "drop (m - Suc k) (drop (Suc k) R) = drop m R" using True by simp
    then have "drop (Suc k) R = M @ R ! m # drop (Suc m) R"
      unfolding M_def last [symmetric] by (metis append_take_drop_id)
    then have split: "drop k R = R ! k # M @ R ! m # drop (Suc m) R"
      using Cons_nth_drop_Suc [of k R] True assms(2) by simp
    have w1: "mem_write (A @ take m f @ drop k R) (int (length A + k)) [nul] =
        Inr (A @ take m f @ nul # M @ R ! m # drop (Suc m) R)"
      using mem_write_at1 [of "A @ take m f" "R ! k" _ nul] k(3) split by simp
    have w2: "mem_write (A @ take m f @ nul # M @ R ! m # drop (Suc m) R)
        (int (length A + m)) [nul] = Inr (A @ take m f @ nul # (M @ [nul]) @ drop (Suc m) R)"
      using mem_write_at1 [of "A @ take m f @ nul # M" "R ! m" "drop (Suc m) R" nul] k(3) lM True
      by simp
    have "fmt_end (A @ R) (int (length A)) (int (Suc m)) f =
        Inr (A @ take m f @ nul # (M @ [nul]) @ drop (Suc m) R)"
      unfolding unf
      using True w1 w2 by (simp only: bind_res_simps prod.case if_True of_nat_less_iff nat_add_left_cancel_less)
    moreover have "length (M @ [nul]) = m - min (length f) m"
      using lM True unfolding k_def [symmetric] by simp
    ultimately show ?thesis by blast
  next
    case False
    then have km: "k = m" using k(1) by simp
    have "mem_write (A @ take m f @ drop m R) (int (length A + m)) [nul] =
        Inr (A @ take m f @ nul # drop (Suc m) R)"
      using mem_write_at1 [of "A @ take m f" "R ! m" "drop (Suc m) R" nul] k(3) km last by simp
    then have "fmt_end (A @ R) (int (length A)) (int (Suc m)) f =
        Inr (A @ take m f @ nul # [] @ drop (Suc m) R)"
      unfolding unf km by simp
    moreover have "length [] = m - min (length f) m"
      using km unfolding k_def [symmetric] by simp
    ultimately show ?thesis by blast
  qed
qed

lemma fmt_end_throws:
  "percent \<in> set f \<Longrightarrow> \<exists>m. fmt_end buf pos n f = Inl (Runtime_Error m)"
  using fmt_check_throws by (fastforce simp: fmt_end_def)

lemma v2s_at:
  assumes "m < length R"
  shows "v2s (A @ R) (int (length A)) (int (Suc m)) v =
    Inr (A @ take m (c_str (arg_text v)) @ nul # drop (Suc (min (length (c_str (arg_text v))) m)) R,
         int (length (c_str (arg_text v))))"
  using assms mem_write_at [of "take m (c_str (arg_text v)) @ [nul]" R A]
  by (simp add: v2s_def snprintf_s_def)

section \<open>One step of the scanning loop\<close>

lemma fmt_loop_stop: "fmt_loop (A @ R) (int (length A)) (int (length A + 0)) f v vs = Inr (A @ R)"
  by (cases f) simp_all

lemma fmt_loop_char:
  assumes "c \<noteq> percent"
  shows "fmt_loop (A @ r # R) (int (length A)) (int (length A + Suc k)) (c # f) v vs =
    fmt_loop ((A @ [c]) @ R) (int (length (A @ [c]))) (int (length (A @ [c]) + k)) f v vs"
proof -
  have "int (length A) + 1 = int (length (A @ [c]))" "length A + Suc k = length (A @ [c]) + k"
    by simp_all
  moreover have "int (length A) < int (length A + Suc k)" by simp
  ultimately show ?thesis
    using assms by (simp only: fmt_loop.simps mem_write_at1 bind_res_simps) simp
qed

lemma fmt_loop_escape:
  "fmt_loop (A @ r # R) (int (length A)) (int (length A + Suc k)) (percent # percent # f) v vs =
   fmt_loop (A @ percent # R) (int (length A)) (int (length A + Suc k)) f v vs"
  by (simp add: mem_write_at1)

lemma fmt_loop_value:
  assumes "m < length R" and "0 < m" and "f = [] \<or> hd f \<noteq> percent"
    and "x = c_str (arg_text v)" and "j = min (length x) m"
  shows "fmt_loop (A @ R) (int (length A)) (int (length A + m)) (percent # f) v vs =
    fmt_args ((A @ take m x) @ nul # drop (Suc j) R) (int (length (A @ take m x)))
      (int (Suc (m - j))) f vs"
proof -
  have rem: "int (length A + m) - int (length A) + 1 = int (Suc m)" by simp
  have st: "(if int (length x) < int (Suc m) - 1 then int (length x) else int (Suc m) - 1) = int j"
    using assms(5) by auto
  have w: "v2s (A @ R) (int (length A)) (int (Suc m)) v =
      Inr ((A @ take m x) @ nul # drop (Suc j) R, int (length x))"
    using v2s_at [OF assms(1), of A v] assms(4,5) by simp
  have c: "int (length A) < int (length A + m)" "\<not> (f \<noteq> [] \<and> hd f = percent)" using assms by auto
  have "fmt_loop (A @ R) (int (length A)) (int (length A + m)) (percent # f) v vs =
    fmt_args ((A @ take m x) @ nul # drop (Suc j) R) (int (length A) + int j)
      (int (length A + m) - (int (length A) + int j) + 1) f vs"
    unfolding fmt_loop.simps Let_def rem w bind_res_simps prod.case st
    using c by (simp only: if_False if_True not_not refl not_True_eq_False)
  moreover have "int (length A) + int j = int (length (A @ take m x))" using assms(5) by simp
  moreover have "int (length A + m) - (int (length A) + int j) + 1 = int (Suc (m - j))"
    using assms(5) by simp
  ultimately show ?thesis by (simp only:)
qed

section \<open>Memory safety\<close>

definition fmt_safe :: "nat \<Rightarrow> char list \<Rightarrow> char list \<Rightarrow> char list res \<Rightarrow> bool" where
  "fmt_safe n A R r \<longleftrightarrow>
     (case r of Inr buf \<Rightarrow> \<exists>B. buf = A @ B \<and> length B = length R \<and> drop n B = drop n R
      | Inl e \<Rightarrow> \<exists>m. e = Runtime_Error m)"

lemma fmt_safe_cons:
  assumes "fmt_safe n (A @ xs) R r" and "length R' = length xs + length R"
    and "drop n R = drop (length xs + n) R'"
  shows "fmt_safe (length xs + n) A R' r"
  using assms by (auto simp: fmt_safe_def split: sum.splits)

lemma fmt_safe_refl: "fmt_safe n A R (Inr (A @ R))"
  by (simp add: fmt_safe_def)

lemma fmt_end_safe:
  assumes "m < length R"
  shows "fmt_safe (Suc m) A R (fmt_end (A @ R) (int (length A)) (int (Suc m)) f)"
proof (cases "percent \<in> set f")
  case True
  then show ?thesis
    using fmt_end_throws [of f "A @ R" "int (length A)" "int (Suc m)"] by (auto simp: fmt_safe_def)
next
  case False
  from fmt_end_at [OF False assms] obtain T where
    T: "fmt_end (A @ R) (int (length A)) (int (Suc m)) f = Inr (A @ take m f @ nul # T @ drop (Suc m) R)"
    "length T = m - min (length f) m" by blast
  define X where "X = take m f @ nul # T"
  have X: "length X = Suc m" using T(2) by (simp add: X_def)
  have "fmt_end (A @ R) (int (length A)) (int (Suc m)) f = Inr (A @ X @ drop (Suc m) R)"
    using T(1) by (simp add: X_def)
  then show ?thesis using assms X unfolding fmt_safe_def by simp
qed

lemma fmt_safe_escape:
  assumes "fmt_safe (Suc m) A (percent # R) (fmt_loop (A @ percent # R) (int (length A)) (int (length A + m)) f v vs)"
    and "m = Suc k"
  shows "fmt_safe (Suc m) A (r # R)
    (fmt_loop (A @ r # R) (int (length A)) (int (length A + m)) (percent # percent # f) v vs)"
proof -
  have "fmt_safe (Suc m) A (r # R) (fmt_loop (A @ percent # R) (int (length A)) (int (length A + m)) f v vs)"
    using assms(1) by (simp add: fmt_safe_def split: sum.splits)
  then show ?thesis using fmt_loop_escape [of A r R k f v vs] assms(2) by simp
qed

lemma fmt_safe_value:
  assumes "m < length R" and "0 < m" and "f = [] \<or> hd f \<noteq> percent"
    and x: "x = c_str (arg_text v)" and j: "j = min (length x) m"
    and safe: "fmt_safe (Suc (m - j)) (A @ take m x) (nul # drop (Suc j) R)
      (fmt_args ((A @ take m x) @ nul # drop (Suc j) R) (int (length A) + int j)
        (int (length A + m) - (int (length A) + int j) + 1) f vs)"
  shows "fmt_safe (Suc m) A R (fmt_loop (A @ R) (int (length A)) (int (length A + m)) (percent # f) v vs)"
proof -
  let ?R = "nul # drop (Suc j) R"
  have l: "length (take m x) = j" "j \<le> m" "length ?R = length R - j" using assms(1) by (auto simp: j)
  moreover have "int (length A + m) - (int (length A) + int j) + 1 = int (Suc (m - j))"
    "int (length A) + int j = int (length (A @ take m x))" using l by simp_all
  ultimately have "fmt_safe (Suc (m - j)) (A @ take m x) ?R
      (fmt_loop (A @ R) (int (length A)) (int (length A + m)) (percent # f) v vs)"
    using safe fmt_loop_value [OF assms(1-3) x j, of A vs] by (simp only:)
  from fmt_safe_cons [OF this, of R] show ?thesis
    using l assms(1) by (simp add: Suc_diff_le)
qed

lemma fmt_safe_all:
  "buf = A @ R \<Longrightarrow> pos = int (length A) \<Longrightarrow> buf_size = int (Suc m) \<Longrightarrow> m < length R \<Longrightarrow>
     fmt_safe (Suc m) A R (fmt_args buf pos buf_size f vs)"
  "buf = A @ R \<Longrightarrow> cur = int (length A) \<Longrightarrow> end_it = int (length A + m) \<Longrightarrow> m < length R \<Longrightarrow>
     fmt_safe (Suc m) A R (fmt_loop buf cur end_it f v vs)"
proof (induction buf pos buf_size f vs and buf cur end_it f v vs arbitrary: A R m and A R m
    rule: fmt_args_fmt_loop.induct)
  case (1 buf pos buf_size format)
  then show ?case using fmt_end_safe by simp
next
  case (2 buf pos buf_size format v vs)
  show ?case
  proof (cases "format = []")
    case False
    then show ?thesis using "2.IH" [of A R m] "2.prems" by simp
  qed (use "2.prems" in \<open>simp add: fmt_safe_refl\<close>)
next
  case (3 buf cur end_it v vs)
  then show ?case by (simp add: fmt_safe_refl)
next
  case (4 buf cur end_it c f v vs)
  note [simp] = "4.prems"(1-3)
  obtain r R' where R: "R = r # R'" using "4.prems"(4) by (cases R) auto
  show ?case
  proof (cases m)
    case 0
    then show ?thesis using fmt_loop_stop [of A R "c # f" v vs] by (simp add: fmt_safe_refl)
  next
    case (Suc k)
    have lt: "cur < end_it" using Suc by simp
    consider (esc) "c = percent" "f \<noteq> [] \<and> hd f = percent" | (val) "c = percent" "f = [] \<or> hd f \<noteq> percent"
      | (chr) "c \<noteq> percent" by blast
    then show ?thesis
    proof cases
      case esc
      then obtain g where f: "f = percent # g" by (cases f) auto
      have "fmt_safe (Suc m) A (percent # R') (fmt_loop (A @ percent # R') cur end_it (tl f) v vs)"
        by (rule "4.IH"(1)) (use esc lt "4.prems"(4) R in auto)
      then show ?thesis using fmt_safe_escape [OF _ Suc, of A R' g v vs r] esc(1) R f by simp
    next
      case chr
      have "fmt_safe (Suc k) (A @ [c]) R' (fmt_loop ((A @ [c]) @ R') (cur + 1) end_it f v vs)"
        by (rule "4.IH"(3)) (use chr lt "4.prems"(4) R Suc in auto)
      from fmt_safe_cons [OF this, of R] show ?thesis
        using fmt_loop_char [OF chr, of A r R' k f v vs] R Suc by (simp add: algebra_simps)
    next
      case val
      define x j where "x = c_str (arg_text v)" and "j = min (length x) m"
      have "fmt_safe (Suc (m - j)) (A @ take m x) (nul # drop (Suc j) R)
          (fmt_args ((A @ take m x) @ nul # drop (Suc j) R) (cur + int j) (end_it - (cur + int j) + 1) f vs)"
        by (rule "4.IH"(2) [OF _ _ _ refl _ refl, where xb = "int (length x)"])
          (use val lt "4.prems"(4) in \<open>auto simp: j_def\<close>)
      then show ?thesis
        using fmt_safe_value [OF "4.prems"(4) _ val(2) x_def j_def, of A vs] val(1) Suc by simp
    qed
  qed
qed

section \<open>Formatting\<close>

text \<open>A format is its literal pieces with one percent sign between each two; the text it stands for
  has the values in those places.\<close>

definition pattern :: "string \<Rightarrow> string list \<Rightarrow> string" where
  "pattern p ps = p @ concat (map (\<lambda>q. percent # q) ps)"

definition expansion :: "string \<Rightarrow> string list \<Rightarrow> fmt_arg list \<Rightarrow> string" where
  "expansion p ps vs = p @ concat (map2 (\<lambda>v q. c_str (arg_text v) @ q) vs ps)"

lemma fmt_loop_text:
  "percent \<notin> set p \<Longrightarrow> length p \<le> m \<Longrightarrow> m < length R \<Longrightarrow>
   fmt_loop (A @ R) (int (length A)) (int (length A + m)) (p @ f) v vs =
   fmt_loop ((A @ p) @ drop (length p) R) (int (length (A @ p))) (int (length A + m)) f v vs"
proof (induction p arbitrary: A R m)
  case (Cons c p)
  obtain r R' where R: "R = r # R'" using Cons.prems(3) by (cases R) auto
  obtain k where k: "m = Suc k" using Cons.prems(2) by (cases m) auto
  have "fmt_loop (A @ R) (int (length A)) (int (length A + m)) ((c # p) @ f) v vs =
      fmt_loop ((A @ [c]) @ R') (int (length (A @ [c]))) (int (length (A @ [c]) + k)) (p @ f) v vs"
  proof -
    have "c \<noteq> percent" using Cons.prems(1) by auto
    from fmt_loop_char [OF this, of A r R' k "p @ f" v vs] show ?thesis
      by (simp only: k R append_Cons)
  qed
  also have "\<dots> = fmt_loop (((A @ [c]) @ p) @ drop (length p) R') (int (length ((A @ [c]) @ p)))
      (int (length (A @ [c]) + k)) f v vs"
    by (rule Cons.IH) (use Cons.prems k R in auto)
  finally show ?case using k R by simp
qed simp

lemma fmt_args_expands:
  assumes "length vs = length ps" and "percent \<notin> set p" and "\<forall>q \<in> set ps. percent \<notin> set q"
    and "\<forall>q \<in> set (butlast ps). q \<noteq> []"
    and "length (expansion p ps vs) < m" and "m < length R"
  shows "\<exists>T. fmt_args (A @ R) (int (length A)) (int (Suc m)) (pattern p ps) vs =
     Inr (A @ expansion p ps vs @ nul # T)"
  using assms
proof (induction vs arbitrary: A R m p ps)
  case Nil
  then show ?case
    using fmt_end_at [of p m R A] by (auto simp: pattern_def expansion_def)
next
  case (Cons v vs)
  obtain q qs where ps: "ps = q # qs" using Cons.prems(1) by (cases ps) auto
  define x where "x = c_str (arg_text v)"
  have exp: "expansion p ps (v # vs) = p @ x @ expansion q qs vs"
    by (simp add: expansion_def ps x_def)
  have pat: "pattern p ps = p @ percent # pattern q qs" by (simp add: pattern_def ps)
  define k where "k = m - length p"
  have k: "length x < k" "m = length p + k" "k < length (drop (length p) R)"
    using Cons.prems(5,6) by (auto simp: exp k_def)
  define R1 where "R1 = nul # drop (Suc (length x)) (drop (length p) R)"
  have nx: "pattern q qs = [] \<or> hd (pattern q qs) \<noteq> percent"
    using Cons.prems(3,4) by (cases q; cases qs) (auto simp: pattern_def ps)
  have "fmt_args (A @ R) (int (length A)) (int (Suc m)) (pattern p ps) (v # vs) =
      fmt_loop (A @ R) (int (length A)) (int (length A + m)) (p @ percent # pattern q qs) v vs"
    by (simp add: pat)
  also have "\<dots> = fmt_loop ((A @ p) @ drop (length p) R) (int (length (A @ p)))
      (int (length (A @ p) + k)) (percent # pattern q qs) v vs"
    using fmt_loop_text [of p m R A "percent # pattern q qs" v vs] Cons.prems(2,6) k(2)
    by (simp add: add.assoc)
  also have "\<dots> = fmt_args (((A @ p) @ x) @ R1) (int (length ((A @ p) @ x)))
      (int (Suc (k - length x))) (pattern q qs) vs"
    using fmt_loop_value [OF k(3) _ nx x_def refl, of "A @ p" vs] k(1) by (simp add: R1_def min_def)
  finally have step: "fmt_args (A @ R) (int (length A)) (int (Suc m)) (pattern p ps) (v # vs) =
      fmt_args (((A @ p) @ x) @ R1) (int (length ((A @ p) @ x))) (int (Suc (k - length x)))
        (pattern q qs) vs" .
  have "\<exists>T. fmt_args (((A @ p) @ x) @ R1) (int (length ((A @ p) @ x))) (int (Suc (k - length x)))
        (pattern q qs) vs = Inr (((A @ p) @ x) @ expansion q qs vs @ nul # T)"
  proof (rule Cons.IH)
    show "\<forall>r \<in> set (butlast qs). r \<noteq> []" using Cons.prems(4) by (cases qs) (auto simp: ps)
    show "length (expansion q qs vs) < k - length x" using Cons.prems(5) k(2) by (simp add: exp)
    show "k - length x < length R1" using k by (simp add: R1_def)
  qed (use Cons.prems in \<open>auto simp: ps\<close>)
  then show ?case using step by (simp add: exp)
qed

text \<open>A doubled percent sign is written without moving on, so the next store overwrites it.\<close>

lemma fmt_loop_overwrites:
  assumes "f \<noteq> []" and "Suc k < length (r # T)"
  shows "fmt_loop (A @ r # T) (int (length A)) (int (length A + Suc k)) f v vs =
         fmt_loop (A @ r' # T) (int (length A)) (int (length A + Suc k)) f v vs"
proof -
  obtain c g where f: "f = c # g" using assms(1) by (cases f) auto
  consider (chr) "c \<noteq> percent" | (val) "c = percent" "g = [] \<or> hd g \<noteq> percent"
    | (esc) h where "c = percent" "g = percent # h" by (cases g) auto
  then show ?thesis
  proof cases
    case chr
    then show ?thesis using fmt_loop_char f by metis
  next
    case val
    then show ?thesis
      using fmt_loop_value [of "Suc k" "r # T" g _ v _ A vs] fmt_loop_value [of "Suc k" "r' # T" g _ v _ A vs]
        assms(2) f by simp
  next
    case esc
    then show ?thesis using fmt_loop_escape f by metis
  qed
qed

lemma fmt_args_escape:
  assumes "f \<noteq> []" and "1 < n" and "n \<le> length R"
  shows "fmt_args (A @ R) (int (length A)) (int n) (percent # percent # f) (v # vs) =
         fmt_args (A @ R) (int (length A)) (int n) f (v # vs)"
proof -
  obtain k where n: "n = Suc (Suc k)" using assms(2) by (cases n; cases "n - 1") auto
  obtain r T where R: "R = r # T" using assms(2,3) by (cases R) auto
  have e: "int (length A) + int n - 1 = int (length A + Suc k)" using n by simp
  have "fmt_loop (A @ r # T) (int (length A)) (int (length A + Suc k)) (percent # percent # f) v vs =
        fmt_loop (A @ percent # T) (int (length A)) (int (length A + Suc k)) f v vs"
    by (rule fmt_loop_escape)
  also have "\<dots> = fmt_loop (A @ r # T) (int (length A)) (int (length A + Suc k)) f v vs"
    using assms(1,3) n R by (intro fmt_loop_overwrites) auto
  finally show ?thesis using assms(1) n by (simp only: fmt_args.simps e R) simp
qed

section \<open>Properties\<close>

text \<open>Formatting never stores outside the memory it was given: for every format and every list
  of values, either the call throws, or it only changes the \<open>buf_size\<close> characters from the start
  position on.\<close>

theorem fmt_memory_safe:
  assumes "0 < n" and "n \<le> length R"
  shows "(\<exists>m. fmt_args (A @ R) (int (length A)) (int n) f vs = Inl (Runtime_Error m)) \<or>
    (\<exists>B. fmt_args (A @ R) (int (length A)) (int n) f vs = Inr (A @ B) \<and>
         length B = length R \<and> drop n B = drop n R)"
proof -
  obtain m where n: "n = Suc m" using assms(1) by (cases n) auto
  have "fmt_safe (Suc m) A R (fmt_args (A @ R) (int (length A)) (int n) f vs)"
    using assms(2) n by (intro fmt_safe_all(1)) auto
  then show ?thesis by (auto simp: fmt_safe_def n split: sum.splits)
qed

theorem fmt_memory_safe_witness:
  "(\<exists>m. fmt_args (''ab'' @ ''cdef'') (int (length ''ab'')) (int 3) ''%%%'' [Arg_Int 5] = Inl (Runtime_Error m)) \<or>
   (\<exists>B. fmt_args (''ab'' @ ''cdef'') (int (length ''ab'')) (int 3) ''%%%'' [Arg_Int 5] = Inr (''ab'' @ B) \<and>
     length B = length ''cdef'' \<and> drop 3 B = drop 3 ''cdef'')"
  by (rule fmt_memory_safe) simp_all



text \<open>The overload that runs after the last value rejects every format with a percent sign,
  paired or not, and otherwise stores the format, cut to the room there is, with a NUL behind it. The
  code comments this test as a check of the number of percent signs.\<close>

theorem fmt_end_outcome:
  assumes "m < length R"
  shows "(percent \<in> set f \<longrightarrow> (\<exists>msg. fmt_end (A @ R) (int (length A)) (int (Suc m)) f = Inl (Runtime_Error msg))) \<and>
    (percent \<notin> set f \<longrightarrow> (\<exists>T. fmt_end (A @ R) (int (length A)) (int (Suc m)) f =
        Inr (A @ take m f @ nul # T @ drop (Suc m) R)))"
  using fmt_end_throws [of f] fmt_end_at [of f m R A] assms by blast

theorem fmt_end_outcome_witness:
  "\<exists>msg. fmt_end ([] @ replicate 8 nul) (int (length ([] :: string))) (int (Suc 7)) ''50%%'' = Inl (Runtime_Error msg)"
  using fmt_end_outcome [of 7 "replicate 8 nul" "''50%%''" "[]"] by (simp add: percent_def)

text \<open>Before a further value is consumed, a doubled percent sign produces nothing: it is stored
  but the position does not move, so whatever follows overwrites it and the result is the one the
  format without the two signs gives.\<close>

theorem fmt_escape_vanishes:
  assumes "f \<noteq> []" and "1 < n" and "n \<le> length R"
  shows "fmt_args (A @ R) (int (length A)) (int n) (percent # percent # f) (v # vs) =
         fmt_args (A @ R) (int (length A)) (int n) f (v # vs)"
  using assms by (rule fmt_args_escape)

theorem fmt_escape_vanishes_witness:
  "fmt_args ([] @ replicate 9 nul) (int (length ([] :: string))) (int 9) (percent # percent # ''of %'') [Arg_Int 3] =
   fmt_args ([] @ replicate 9 nul) (int (length ([] :: string))) (int 9) ''of %'' [Arg_Int 3]"
  by (rule fmt_escape_vanishes) simp_all

end
