(* ===== verification/Math_Utils.thy ===== *)
theory Math_Utils
  imports Xsix_Prelude
begin

text \<open>
  The number predicates of \<open>src/src/xsix/utils/math_utils.hpp\<close>. A \<open>uint64_t\<close> is a natural number
  below \<open>2 ^ 64\<close>. The bound of the prime test goes through a \<open>double\<close>: the conversion rounds to 53
  significant bits (nearest, ties to even), \<open>sqrt\<close> is the correctly rounded root of IEEE 754, and the
  conversion back truncates; \<open>u64_to_double\<close> and \<open>sqrt_to_u64\<close> compute exactly that on integers.
\<close>

section \<open>The square root of the standard library\<close>

fun isqrt :: "nat \<Rightarrow> nat" where
  "isqrt n = (if n = 0 then 0 else
     let r = 2 * isqrt (n div 4) in if (r + 1) * (r + 1) \<le> n then r + 1 else r)"

declare isqrt.simps [simp del]

fun bit_len :: "nat \<Rightarrow> nat" where
  "bit_len n = (if n = 0 then 0 else bit_len (n div 2) + 1)"

declare bit_len.simps [simp del]

text \<open>Rounding \<open>n\<close> to a multiple of \<open>u\<close>, ties to the even multiple.\<close>

definition round_even :: "nat \<Rightarrow> nat \<Rightarrow> nat" where
  "round_even n u =
     (let q = n div u; r = n mod u in
      if 2 * r < u \<or> 2 * r = u \<and> even q then q * u else (q + 1) * u)"

definition u64_to_double :: "nat \<Rightarrow> nat" where
  "u64_to_double n = (if n < 2 ^ 53 then n else round_even n (2 ^ (bit_len n - 53)))"

text \<open>
  \<open>2 ^ e \<le> sqrt x < 2 ^ (e + 1)\<close>, so the 53 bits of the result count units of \<open>2 ^ (e - 52)\<close>: the
  exact root is scaled by \<open>2 ^ (52 - e)\<close>, rounded to the nearest integer, and truncated back. The
  square of a half-integer is no integer, so there are no ties.
\<close>

definition sqrt_to_u64 :: "nat \<Rightarrow> nat" where
  "sqrt_to_u64 x = (if x = 0 then 0 else
     let k = 52 - (bit_len (isqrt x) - 1);
         y = x * 4 ^ k;
         q = isqrt y;
         r = (if q * q + q < y then q + 1 else q)
     in r div 2 ^ k)"

section \<open>The predicates\<close>

function prime_loop :: "nat \<Rightarrow> nat \<Rightarrow> nat \<Rightarrow> bool" where
  "prime_loop n i sqrtn =
     (if i \<le> sqrtn then (if n mod i \<noteq> 0 then False else prime_loop n (i + 1) sqrtn) else True)"
  by pat_completeness auto
termination by (relation "measure (\<lambda>(n, i, s). s + 1 - i)") auto

declare prime_loop.simps [simp del]

definition is_prime_number :: "nat \<Rightarrow> bool" where
  "is_prime_number n = (let sqrtn = sqrt_to_u64 (u64_to_double n) in prime_loop n 2 sqrtn)"

text \<open>
  The array has 63 elements and 62 initialisers, so its last element is zero.
\<close>

definition powerOf2 :: "nat list" where
  "powerOf2 = [
     1, 2, 4, 8, 16, 32, 64, 128, 256, 512, 1024, 2048, 4096, 8192, 16384, 32768, 65536,
     131072, 262144, 524288, 1048576, 2097152, 4194304, 8388608, 16777216, 33554432,
     67108864, 134217728, 268435456, 536870912, 1073741824, 2147483648, 4294967296,
     8589934592, 17179869184, 34359738368, 68719476736, 137438953472, 274877906944,
     549755813888, 1099511627776, 2199023255552, 4398046511104, 8796093022208,
     17592186044416, 35184372088832, 70368744177664, 140737488355328, 281474976710656,
     562949953421312, 1125899906842624, 2251799813685248, 4503599627370496,
     18014398509481984, 36028797018963968, 72057594037927936, 144115188075855872,
     288230376151711744, 576460752303423488, 1152921504606846976, 2305843009213693952,
     4611686018427387904, 0]"

fun eq_loop :: "nat \<Rightarrow> nat list \<Rightarrow> bool" where
  "eq_loop n [] = False"
| "eq_loop n (p # ps) = (if n = p then True else eq_loop n ps)"

definition is_powerof2 :: "nat \<Rightarrow> bool" where
  "is_powerof2 n = eq_loop n powerOf2"

fun ge_loop :: "nat \<Rightarrow> nat list \<Rightarrow> nat" where
  "ge_loop n [] = 0"
| "ge_loop n (p # ps) = (if p \<ge> n then p else ge_loop n ps)"

definition min_powerof2 :: "nat \<Rightarrow> nat" where
  "min_powerof2 n = ge_loop n powerOf2"

section \<open>The integer square root\<close>

lemma isqrt_bounds: "isqrt n * isqrt n \<le> n \<and> n < (isqrt n + 1) * (isqrt n + 1)"
proof (induction n rule: isqrt.induct)
  case (1 n)
  show ?case
  proof (cases "n = 0")
    case False
    let ?a = "isqrt (n div 4)"
    from 1 False have a: "?a * ?a \<le> n div 4" "n div 4 < (?a + 1) * (?a + 1)" by auto
    from a(1) have lo: "(2 * ?a) * (2 * ?a) \<le> n" by simp
    from a(2) have "n < 4 * ((?a + 1) * (?a + 1))" by linarith
    then have hi: "n < (2 * ?a + 2) * (2 * ?a + 2)" by (simp add: algebra_simps)
    have "isqrt n = (if (2 * ?a + 1) * (2 * ?a + 1) \<le> n then 2 * ?a + 1 else 2 * ?a)"
      using False isqrt.simps [of n] by (simp add: Let_def)
    then show ?thesis using lo hi by simp
  qed (simp add: isqrt.simps)
qed

lemma isqrt_unique: "s * s \<le> n \<Longrightarrow> n < (s + 1) * (s + 1) \<Longrightarrow> isqrt n = s"
  using isqrt_bounds [of n]
  by (metis Suc_eq_plus1 le_less_trans less_Suc_eq_le mult_le_mono not_le order.antisym)

lemma isqrt_ge: "s * s \<le> n \<Longrightarrow> s \<le> isqrt n"
  using isqrt_bounds [of n] by (metis Suc_eq_plus1 le_less_trans less_Suc_eq_le mult_le_mono not_le)

text \<open>The rounded root never falls below the integer root.\<close>

lemma sqrt_to_u64_ge: "isqrt x \<le> sqrt_to_u64 x"
proof (cases "x = 0")
  case True
  then show ?thesis by (simp add: isqrt.simps)
next
  case False
  let ?k = "52 - (bit_len (isqrt x) - 1)"
  let ?y = "x * 4 ^ ?k"
  have "(isqrt x * 2 ^ ?k) * (isqrt x * 2 ^ ?k) = isqrt x * isqrt x * 4 ^ ?k"
    by (simp add: power_mult_distrib [symmetric] mult.commute mult.left_commute)
  also have "\<dots> \<le> ?y" using isqrt_bounds [of x] by simp
  finally have q: "isqrt x * 2 ^ ?k \<le> isqrt ?y" by (rule isqrt_ge)
  let ?r = "if isqrt ?y * isqrt ?y + isqrt ?y < ?y then isqrt ?y + 1 else isqrt ?y"
  from q have "isqrt x * 2 ^ ?k \<le> ?r" by (auto intro: le_SucI)
  then have "isqrt x \<le> ?r div 2 ^ ?k"
    by (simp only: less_eq_div_iff_mult_less_eq zero_less_power zero_less_numeral)
  with False show ?thesis by (simp only: sqrt_to_u64_def Let_def if_False)
qed

lemma bit_len_le: "n \<noteq> 0 \<Longrightarrow> 0 < bit_len n \<and> 2 ^ (bit_len n - 1) \<le> n"
proof (induction n rule: bit_len.induct)
  case (1 n)
  show ?case
  proof (cases "n div 2 = 0")
    case True
    with 1 show ?thesis by (subst (1 2) bit_len.simps) (simp add: bit_len.simps [of 0])
  next
    case False
    with 1 have ih: "0 < bit_len (n div 2)" "2 ^ (bit_len (n div 2) - 1) \<le> n div 2" by auto
    then have "2 * 2 ^ (bit_len (n div 2) - 1) \<le> n" by linarith
    with ih(1) have "2 ^ bit_len (n div 2) \<le> n" by (cases "bit_len (n div 2)") simp_all
    with 1 show ?thesis by (simp add: bit_len.simps [of n])
  qed
qed

lemma round_even_ge: "u \<noteq> 0 \<Longrightarrow> n - u \<le> round_even n u"
proof -
  assume "u \<noteq> 0"
  then have "n mod u < u" by simp
  then have "n - u \<le> n div u * u" using div_mult_mod_eq [of n u] by linarith
  then show ?thesis by (auto simp: round_even_def Let_def intro: order_trans)
qed

text \<open>The \<open>double\<close> of a 64-bit number is at least half of it, and exact below \<open>2 ^ 53\<close>.\<close>

lemma u64_to_double_ge: "n \<le> 2 * u64_to_double n"
proof (cases "n < 2 ^ 53")
  case False
  let ?u = "2 ^ (bit_len n - 53) :: nat"
  from False have n0: "n \<noteq> 0" by auto
  have "2 * ?u \<le> n"
  proof (cases "53 \<le> bit_len n")
    case True
    then have "bit_len n - 52 = Suc (bit_len n - 53)" by simp
    then have "2 * ?u = 2 ^ (bit_len n - 52)" by (simp only: power_Suc)
    also have "\<dots> \<le> 2 ^ (bit_len n - 1)" by (rule power_increasing) auto
    also have "\<dots> \<le> n" using bit_len_le [OF n0] by simp
    finally show ?thesis .
  next
    case outer: False
    with False show ?thesis by simp
  qed
  with round_even_ge [of ?u n] False show ?thesis by (simp add: u64_to_double_def)
qed (simp add: u64_to_double_def)

section \<open>The prime test\<close>

lemma prime_loop_iff: "prime_loop n i s \<longleftrightarrow> (\<forall>d. i \<le> d \<and> d \<le> s \<longrightarrow> d dvd n)"
proof (induction n i s rule: prime_loop.induct)
  case (1 n i s)
  show ?case
  proof (cases "i \<le> s \<and> n mod i = 0")
    case True
    then have "prime_loop n i s = prime_loop n (i + 1) s" by (simp add: prime_loop.simps [of n i])
    with 1 True show ?thesis
      by (auto simp: mod_eq_0_iff_dvd) (metis Suc_leI le_neq_implies_less)
  next
    case False
    then show ?thesis by (subst prime_loop.simps) (auto simp: mod_eq_0_iff_dvd)
  qed
qed

lemma lcm_all_dvd: "\<forall>d. 2 \<le> d \<and> d \<le> k \<longrightarrow> d dvd n \<Longrightarrow> fold lcm [2..int k] 1 dvd int n"
proof -
  have "\<And>a. a dvd int n \<Longrightarrow> \<forall>d \<in> set ds. d dvd int n \<Longrightarrow> fold lcm ds a dvd int n" for ds
    by (induction ds) auto
  then have gen: "\<forall>d \<in> set ds. d dvd int n \<Longrightarrow> fold lcm ds 1 dvd int n" for ds by simp
  assume all: "\<forall>d. 2 \<le> d \<and> d \<le> k \<longrightarrow> d dvd n"
  show ?thesis
  proof (rule gen, safe)
    fix d assume "d \<in> set [2..int k]"
    then have "2 \<le> nat d \<and> nat d \<le> k" "0 \<le> d" by auto
    with all have "nat d dvd n" by blast
    with \<open>0 \<le> d\<close> show "d dvd int n" by (metis int_nat_eq of_nat_dvd_iff)
  qed
qed

text \<open>No positive 64-bit number is divisible by everything up to 47.\<close>

lemma lcm_47: "fold lcm [2..47] (1 :: int) = 442720643463713815200"
  by code_simp

lemma lcm_20: "fold lcm [2..20] (1 :: int) = 232792560"
  by code_simp

lemma divisible_to_47:
  "\<forall>d. 2 \<le> d \<and> d \<le> 47 \<longrightarrow> d dvd n \<Longrightarrow> 0 < n \<Longrightarrow> 442720643463713815200 \<le> int n"
  using lcm_all_dvd [of 47 n] unfolding of_nat_numeral lcm_47 by (intro zdvd_imp_le) auto

lemma divisible_to_20:
  "\<forall>d. 2 \<le> d \<and> d \<le> 20 \<longrightarrow> d dvd n \<Longrightarrow> 0 < n \<Longrightarrow> 232792560 \<le> int n"
  using lcm_all_dvd [of 20 n] unfolding of_nat_numeral lcm_20 by (intro zdvd_imp_le) auto

lemma all_divide_small:
  assumes n: "0 < n" "(n :: nat) < 2 ^ 64"
    and s: "n < (s + 1) * (s + 1)" and all: "\<forall>d. 2 \<le> d \<and> d \<le> s \<longrightarrow> d dvd n"
  shows "s < 5"
proof (rule ccontr)
  assume "\<not> s < 5"
  have up: "m \<le> s" if "(m :: nat) * m \<le> n" for m
  proof (rule ccontr)
    assume "\<not> m \<le> s"
    then have "(s + 1) * (s + 1) \<le> m * m" by (intro mult_le_mono) auto
    with that s show False by simp
  qed
  from all \<open>\<not> s < 5\<close> have "3 dvd n" "4 dvd n" "5 dvd n" by auto
  then have "60 dvd n" by presburger
  with n(1) have "60 \<le> n" by (simp add: dvd_imp_le)
  then have "7 \<le> s" by (intro up) simp
  with all have "7 dvd n" by auto
  with \<open>60 dvd n\<close> have "420 dvd n" by presburger
  with n(1) have "420 \<le> n" by (simp add: dvd_imp_le)
  then have s20: "20 \<le> s" by (intro up) simp
  then have "232792560 \<le> int n" using all n(1) by (intro divisible_to_20) auto
  then have "47 \<le> s" by (intro up) simp
  then have "442720643463713815200 \<le> int n" using all n(1) by (intro divisible_to_47) auto
  with n(2) show False by simp
qed

text \<open>What the loop accepts must be divisible by everything up to its square root.\<close>

lemma prime_test_cases:
  assumes "n < 2 ^ 64" and "is_prime_number n"
  shows "n \<in> {0, 1, 2, 3, 4, 6, 8, 12, 24}"
proof (cases "n = 0")
  case False
  let ?s = "sqrt_to_u64 (u64_to_double n)"
  from assms(2) have all: "\<forall>d. 2 \<le> d \<and> d \<le> ?s \<longrightarrow> d dvd n"
    by (simp add: is_prime_number_def prime_loop_iff)
  show ?thesis
  proof (cases "n < 2 ^ 53")
    case True
    then have s: "isqrt n \<le> ?s" using sqrt_to_u64_ge [of n] by (simp add: u64_to_double_def)
    with all have all': "\<forall>d. 2 \<le> d \<and> d \<le> isqrt n \<longrightarrow> d dvd n" by (meson order_trans)
    have "isqrt n < 5"
      using False assms(1) isqrt_bounds [of n] all' by (intro all_divide_small) auto
    then consider "isqrt n = 0" | "isqrt n = 1" | "isqrt n = 2" | "isqrt n = 3" | "isqrt n = 4"
      by linarith
    then show ?thesis
    proof cases
      case 3
      with isqrt_bounds [of n] all' have "4 \<le> n" "n < 9" "2 dvd n" by auto
      then show ?thesis by simp presburger
    next
      case 4
      with isqrt_bounds [of n] all' have "9 \<le> n" "n < 16" "2 dvd n" "3 dvd n" by auto
      then show ?thesis by simp presburger
    next
      case 5
      with isqrt_bounds [of n] all' have "16 \<le> n" "n < 25" "4 dvd n" "3 dvd n" by auto
      then show ?thesis by simp presburger
    qed (use isqrt_bounds [of n] False in auto)
  next
    case big: False
    then have "47 * 47 \<le> u64_to_double n" using u64_to_double_ge [of n] by simp
    then have "47 \<le> ?s" using isqrt_ge sqrt_to_u64_ge order_trans by blast
    with all False have "442720643463713815200 \<le> int n" by (intro divisible_to_47) auto
    with assms(1) show ?thesis by simp
  qed
qed simp

text \<open>Below \<open>2 ^ 52\<close> the root of the \<open>double\<close> is the integer root.\<close>

lemma round_up_not_reached:
  assumes "y \<le> (t * t - 1) * (p * p)" and "q * q + q < (y :: nat)" and "t \<le> p" and "0 < t"
  shows "q + 1 < t * p"
proof (rule ccontr)
  assume "\<not> q + 1 < t * p"
  then have q: "t * p \<le> q + 1" by simp
  have "t * p * (t * p) \<le> q * q + q + t * p"
  proof -
    have "t * p * (t * p) \<le> (q + 1) * (t * p)" using q by (rule mult_le_mono1)
    also have "\<dots> = q * (t * p) + t * p" by simp
    also have "\<dots> \<le> q * (q + 1) + t * p" using q by (intro add_mono mult_le_mono) simp_all
    finally show ?thesis by (simp add: algebra_simps)
  qed
  moreover have "t * p * (t * p) = (t * t - 1) * (p * p) + p * p"
    using assms(4) by (cases t) (simp_all add: algebra_simps)
  moreover have "t * p \<le> p * p" using assms(3) by simp
  ultimately show False using assms(1,2) by linarith
qed

lemma sqrt_to_u64_exact:
  assumes "x < 2 ^ 52"
  shows "sqrt_to_u64 x = isqrt x"
proof (cases "x = 0")
  case True
  then show ?thesis by (simp add: sqrt_to_u64_def isqrt.simps)
next
  case False
  let ?s = "isqrt x"
  let ?k = "52 - (bit_len ?s - 1)"
  let ?y = "x * 4 ^ ?k"
  have pk: "(4 :: nat) ^ ?k = 2 ^ ?k * 2 ^ ?k" by (simp add: power_mult_distrib [symmetric])
  have s: "?s < 2 ^ 26"
  proof (rule ccontr)
    assume "\<not> ?s < 2 ^ 26"
    then have "2 ^ 26 * 2 ^ 26 \<le> ?s * ?s" by (intro mult_le_mono) simp_all
    with isqrt_bounds [of x] assms show False by simp
  qed
  have s0: "?s \<noteq> 0" using isqrt_bounds [of x] False by (metis add_0 less_one mult_1)
  have "bit_len ?s - 1 < 26"
    using bit_len_le [OF s0] s by (meson le_less_trans one_less_numeral_iff power_less_imp_less_exp semiring_norm(76))
  then have "26 \<le> ?k" by simp
  then have "(2 :: nat) ^ 26 \<le> 2 ^ ?k" by (intro power_increasing) auto
  with s have tp: "?s + 1 \<le> 2 ^ ?k" by simp
  have "x \<le> (?s + 1) * (?s + 1) - 1" using isqrt_bounds [of x] by linarith
  then have "?y \<le> ((?s + 1) * (?s + 1) - 1) * 4 ^ ?k" by (rule mult_le_mono1)
  then have y: "?y \<le> ((?s + 1) * (?s + 1) - 1) * (2 ^ ?k * 2 ^ ?k)" unfolding pk .
  let ?q = "isqrt ?y"
  let ?r = "if ?q * ?q + ?q < ?y then ?q + 1 else ?q"
  have "?r < (?s + 1) * 2 ^ ?k"
  proof (cases "?q * ?q + ?q < ?y")
    case True
    with round_up_not_reached [OF y True tp] show ?thesis by simp
  next
    case up: False
    have "?q * ?q < ((?s + 1) * 2 ^ ?k) * ((?s + 1) * 2 ^ ?k)"
    proof -
      have "?q * ?q \<le> ?y" using isqrt_bounds [of ?y] by blast
      also have "\<dots> < (?s + 1) * (?s + 1) * 4 ^ ?k"
        using isqrt_bounds [of x] by (intro mult_less_mono1) auto
      finally show ?thesis by (simp only: pk mult.assoc mult.commute mult.left_commute)
    qed
    then have "?q < (?s + 1) * 2 ^ ?k" by (meson leD leI mult_le_mono)
    with up show ?thesis by simp
  qed
  then have "?r div 2 ^ ?k < ?s + 1"
    by (simp only: div_less_iff_less_mult zero_less_power zero_less_numeral)
  then have "sqrt_to_u64 x < ?s + 1" using False by (simp only: sqrt_to_u64_def Let_def if_False)
  with sqrt_to_u64_ge [of x] show ?thesis by linarith
qed

lemma is_prime_number_small: "n < 2 ^ 52 \<Longrightarrow> is_prime_number n = prime_loop n 2 (isqrt n)"
  by (simp add: is_prime_number_def u64_to_double_def sqrt_to_u64_exact)

lemma prime_test_accepts: "n \<in> {0, 1, 2, 3, 4, 6, 8, 12, 24} \<Longrightarrow> is_prime_number n"
proof -
  have "isqrt 0 = 0" "isqrt 1 = 1" "isqrt 2 = 1" "isqrt 3 = 1" "isqrt 4 = 2" "isqrt 6 = 2"
    "isqrt 8 = 2" "isqrt 12 = 3" "isqrt 24 = 4" by (intro isqrt_unique; simp)+
  then show "n \<in> {0, 1, 2, 3, 4, 6, 8, 12, 24} \<Longrightarrow> ?thesis"
    by (auto simp: is_prime_number_small prime_loop.simps)
qed

section \<open>Properties\<close>

text \<open>The prime test of \<open>math_utils.hpp\<close> has its condition inverted (it rejects a number as soon
  as some candidate does not divide it), so over all of \<open>uint64_t\<close>, the rounding of the
  floating-point bound included, it answers true on exactly nine numbers: 2 and 3 are the only primes
  among them.\<close>

theorem is_prime_number_accepts_exactly:
  "{n. n < 2 ^ 64 \<and> is_prime_number n} = {0, 1, 2, 3, 4, 6, 8, 12, 24}"
proof (rule set_eqI)
  fix n
  show "n \<in> {n. n < 2 ^ 64 \<and> is_prime_number n} \<longleftrightarrow> n \<in> {0, 1, 2, 3, 4, 6, 8, 12, 24}"
    using prime_test_cases [of n] prime_test_accepts [of n] by auto
qed

lemma eq_loop_iff: "eq_loop n ps \<longleftrightarrow> n \<in> set ps"
  by (induction ps) auto

definition powers :: "nat list" where
  "powers = map (\<lambda>k. 2 ^ k) ([0..<53] @ [54..<63])"

lemma powers_mem: "p \<in> set powers \<longleftrightarrow> (\<exists>k \<le> 62. k \<noteq> 53 \<and> p = 2 ^ k)"
proof -
  have "set ([0..<53] @ [54..<63]) = {k. k \<le> 62 \<and> k \<noteq> (53 :: nat)}"
    unfolding set_append set_upt by auto
  then show ?thesis unfolding powers_def set_map by auto
qed

lemma powerOf2_table: "powerOf2 = powers @ [0]"
  by (simp add: powerOf2_def powers_def upt_rec)

text \<open>\<open>is_powerof2\<close> answers true on exactly 0 and the powers \<open>2 ^ 0\<close> to \<open>2 ^ 62\<close> other than
  \<open>2 ^ 53\<close>: the table skips \<open>2 ^ 53\<close>, so its 63rd element is the zero that fills the array, and the
  largest 64-bit power \<open>2 ^ 63\<close> is not in it.\<close>

theorem is_powerof2_iff:
  "is_powerof2 n \<longleftrightarrow> n = 0 \<or> (\<exists>k \<le> 62. k \<noteq> 53 \<and> n = 2 ^ k)"
  unfolding is_powerof2_def eq_loop_iff powerOf2_table set_append powers_mem [symmetric] by auto

lemma ge_loop_append:
  "ge_loop n (ps @ qs) = (if \<exists>p \<in> set ps. n \<le> p then ge_loop n ps else ge_loop n qs)"
  by (induction ps) auto

lemma ge_loop_sorted:
  "sorted ps \<Longrightarrow> \<exists>p \<in> set ps. n \<le> p \<Longrightarrow>
   ge_loop n ps \<in> set ps \<and> n \<le> ge_loop n ps \<and> (\<forall>p \<in> set ps. n \<le> p \<longrightarrow> ge_loop n ps \<le> p)"
  by (induction ps) auto

lemma powers_sorted: "sorted powers"
proof -
  have "sorted ([0..<53] @ [54..<63])" unfolding sorted_append by auto
  then show ?thesis
    unfolding powers_def sorted_map by (rule sorted_wrt_mono_rel [rotated]) simp
qed

text \<open>For every argument up to \<open>2 ^ 62\<close>, \<open>min_powerof2\<close> returns the least power of two of the
  table (all but \<open>2 ^ 53\<close>) that is not below it, and 0 above; in particular \<open>2 ^ 53\<close>, a power
  of two, is answered with \<open>2 ^ 54\<close>.\<close>

theorem min_powerof2_least:
  "min_powerof2 n =
     (if n \<le> 2 ^ 62 then (LEAST p. n \<le> p \<and> (\<exists>k \<le> 62. k \<noteq> 53 \<and> p = 2 ^ k)) else 0)"
proof -
  have top: "p \<le> 2 ^ 62" if "p \<in> set powers" for p
    using that unfolding powers_mem by (metis one_le_numeral power_increasing)
  have in62: "2 ^ 62 \<in> set powers" unfolding powers_mem by (intro exI [of _ 62]) simp
  have eq: "min_powerof2 n = (if \<exists>p \<in> set powers. n \<le> p then ge_loop n powers else ge_loop n [0])"
    unfolding min_powerof2_def powerOf2_table ge_loop_append ..
  show ?thesis
  proof (cases "n \<le> 2 ^ 62")
    case True
    with in62 have ex: "\<exists>p \<in> set powers. n \<le> p" by blast
    from ge_loop_sorted [OF powers_sorted ex]
    have "(LEAST p. n \<le> p \<and> p \<in> set powers) = ge_loop n powers"
      by (intro Least_equality) blast+
    with True eq ex show ?thesis unfolding powers_mem by simp
  next
    case False
    then have "\<not> (\<exists>p \<in> set powers. n \<le> p)" using top by (meson order_trans)
    with eq False show ?thesis by simp
  qed
qed

end
