(* ===== verification/String_Utils.thy ===== *)
theory String_Utils
  imports Xsix_Prelude "HOL-Library.Sublist"
begin

text \<open>
  The string helpers of \<open>src/src/xsix/utils/string_utils.hpp\<close>, over the members of \<open>std::string\<close>
  they call. Positions are \<open>size_type\<close> values: naturals below \<open>2 ^ 64\<close> with \<open>npos\<close> the largest, and
  a subtraction wraps. \<open>substr\<close> throws when its start is past the end. The \<open>while\<close> loop of
  \<open>split\<close> is a partial function, so that running forever would be \<open>None\<close>.
\<close>

section \<open>Members of std::string\<close>

definition npos :: nat where
  "npos = 2 ^ 64 - 1"

text \<open>The first position of a suffix, which starts at \<open>i\<close>, whose character satisfies \<open>P\<close>.\<close>

fun find_pos :: "(char \<Rightarrow> bool) \<Rightarrow> string \<Rightarrow> nat \<Rightarrow> nat" where
  "find_pos P [] i = npos"
| "find_pos P (c # cs) i = (if P c then i else find_pos P cs (i + 1))"

definition find_first_of :: "string \<Rightarrow> string \<Rightarrow> nat \<Rightarrow> nat" where
  "find_first_of s chars pos = find_pos (\<lambda>c. c \<in> set chars) (drop pos s) pos"

definition find_first_not_of :: "string \<Rightarrow> string \<Rightarrow> nat \<Rightarrow> nat" where
  "find_first_not_of s chars pos = find_pos (\<lambda>c. c \<notin> set chars) (drop pos s) pos"

definition size_sub :: "nat \<Rightarrow> nat \<Rightarrow> nat" where
  "size_sub a b = nat ((int a - int b) mod 2 ^ 64)"

definition substr :: "string \<Rightarrow> nat \<Rightarrow> nat \<Rightarrow> string res" where
  "substr s pos n =
     (if length s < pos then Inl (Runtime_Error ''out_of_range'') else Inr (take n (drop pos s)))"

section \<open>split\<close>

partial_function (option) split_loop ::
    "string \<Rightarrow> string \<Rightarrow> string list \<Rightarrow> nat \<Rightarrow> nat \<Rightarrow> string list res option" where
  "split_loop src delim tokens lastPos pos =
     (if npos \<noteq> pos \<or> npos \<noteq> lastPos then
        (case substr src lastPos (size_sub pos lastPos) of
           Inl e \<Rightarrow> Some (Inl e)
         | Inr t \<Rightarrow>
             let lastPos' = find_first_not_of src delim pos;
                 pos' = find_first_of src delim lastPos'
             in split_loop src delim (tokens @ [t]) lastPos' pos')
      else Some (Inr tokens))"

definition split :: "string \<Rightarrow> string \<Rightarrow> string list res option" where
  "split src delim =
     (let lastPos = find_first_not_of src delim 0;
          pos = find_first_of src delim lastPos
      in split_loop src delim [] lastPos pos)"

text \<open>The overload that fills a vector of the caller clears it first.\<close>

definition split_into :: "string \<Rightarrow> string \<Rightarrow> string list \<Rightarrow> string list res option" where
  "split_into src delim tokens =
     (let tokens = [];
          lastPos = find_first_not_of src delim 0;
          pos = find_first_of src delim lastPos
      in split_loop src delim tokens lastPos pos)"

section \<open>Trimming\<close>

definition not_blank :: "char \<Rightarrow> bool" where
  "not_blank ch \<longleftrightarrow> ch \<noteq> CHR '' '' \<and> ch \<noteq> CHR 0x09 \<and> ch \<noteq> CHR 0x0A"

text \<open>\<open>std::find_if\<close> as the distance from the start of the range; the end when nothing is found.\<close>

fun find_if :: "(char \<Rightarrow> bool) \<Rightarrow> string \<Rightarrow> nat" where
  "find_if P [] = 0"
| "find_if P (c # cs) = (if P c then 0 else find_if P cs + 1)"

definition ltrim :: "string \<Rightarrow> string" where
  "ltrim src = drop (find_if not_blank src) src"

text \<open>The base of a reverse iterator \<open>k\<close> steps into the range is \<open>k\<close> positions before the end.\<close>

definition rtrim :: "string \<Rightarrow> string" where
  "rtrim src = take (length src - find_if not_blank (rev src)) src"

definition trim :: "string \<Rightarrow> string" where
  "trim src = rtrim (ltrim src)"

definition ltrim_copy :: "string \<Rightarrow> string" where
  "ltrim_copy src = (let tmp = src in ltrim tmp)"

definition rtrim_copy :: "string \<Rightarrow> string" where
  "rtrim_copy src = (let tmp = src in rtrim tmp)"

definition trim_copy :: "string \<Rightarrow> string" where
  "trim_copy src = (let tmp = src in trim tmp)"

section \<open>Prefixes and suffixes\<close>

function prefix_loop :: "string \<Rightarrow> string \<Rightarrow> nat \<Rightarrow> bool" where
  "prefix_loop src pre i =
     (if i < length pre then
        (if pre ! i \<noteq> src ! i then False else prefix_loop src pre (i + 1))
      else True)"
  by pat_completeness auto
termination by (relation "measure (\<lambda>(s, p, i). length p - i)") auto

definition has_prefix :: "string \<Rightarrow> string \<Rightarrow> bool" where
  "has_prefix src pre =
     (if length pre > length src then False else prefix_loop src pre 0)"

function suffix_loop :: "string \<Rightarrow> string \<Rightarrow> nat \<Rightarrow> nat \<Rightarrow> bool" where
  "suffix_loop src suf offset i =
     (if i < length suf then
        (let index = i + offset in
         if index \<ge> length src then False
         else if suf ! i \<noteq> src ! index then False
         else suffix_loop src suf offset (i + 1))
      else True)"
  by pat_completeness auto
termination by (relation "measure (\<lambda>(s, p, k, i). length p - i)") auto

definition has_suffix :: "string \<Rightarrow> string \<Rightarrow> bool" where
  "has_suffix src suf =
     (if length suf > length src then False
      else let offset = length src - length suf in suffix_loop src suf offset 0)"

declare prefix_loop.simps [simp del] suffix_loop.simps [simp del]

section \<open>Tokens, the specification of split\<close>

text \<open>The maximal runs of characters that are not delimiters, in order.\<close>

function tokens_of :: "char set \<Rightarrow> string \<Rightarrow> string list" where
  "tokens_of D [] = []"
| "tokens_of D (c # cs) =
     (if c \<in> D then tokens_of D cs
      else (c # takeWhile (\<lambda>c. c \<notin> D) cs) # tokens_of D (dropWhile (\<lambda>c. c \<notin> D) cs))"
  by pat_completeness auto
termination
  by (relation "measure (\<lambda>(D, s). length s)") (auto simp: le_imp_less_Suc length_dropWhile_le)

lemma tokens_of_dropWhile: "tokens_of D (dropWhile (\<lambda>c. c \<in> D) s) = tokens_of D s"
  by (induction s) auto

lemma tokens_of_concat: "concat (tokens_of D s) = filter (\<lambda>c. c \<notin> D) s"
proof (induction D s rule: tokens_of.induct)
  case (2 D c cs)
  have "filter (\<lambda>c. c \<notin> D) cs =
      takeWhile (\<lambda>c. c \<notin> D) cs @ filter (\<lambda>c. c \<notin> D) (dropWhile (\<lambda>c. c \<notin> D) cs)"
    by (induction cs) auto
  with 2 show ?case by auto
qed simp

lemma tokens_of_token: "t \<in> set (tokens_of D s) \<Longrightarrow> t \<noteq> [] \<and> set t \<inter> D = {}"
  by (induction D s rule: tokens_of.induct) (auto split: if_splits dest: set_takeWhileD)

section \<open>Lemmas\<close>

lemma find_pos_eq:
  "find_pos P s i =
     (if \<exists>c \<in> set s. P c then i + length (takeWhile (\<lambda>c. \<not> P c) s) else npos)"
  by (induction s arbitrary: i) auto

lemma drop_takeWhile_length: "drop (length (takeWhile P s)) s = dropWhile P s"
  by (induction s) auto

lemma find_first_not_of_cases:
  obtains "find_first_not_of s d p = npos" and "tokens_of (set d) (drop p s) = []"
  | k c cs where "find_first_not_of s d p = k" and "p \<le> k" and "k < length s"
      and "drop k s = c # cs" and "c \<notin> set d"
      and "tokens_of (set d) (drop p s) = tokens_of (set d) (drop k s)"
proof (cases "\<exists>c \<in> set (drop p s). c \<notin> set d")
  case False
  then have "find_first_not_of s d p = npos" by (auto simp: find_first_not_of_def find_pos_eq)
  moreover have "tokens_of (set d) xs = []" if "\<forall>c \<in> set xs. c \<in> set d" for xs
    using that by (induction xs) auto
  ultimately show thesis using False that(1) by blast
next
  case True
  let ?k = "p + length (takeWhile (\<lambda>c. c \<in> set d) (drop p s))"
  have k: "find_first_not_of s d p = ?k" using True by (auto simp: find_first_not_of_def find_pos_eq)
  have dk: "drop ?k s = dropWhile (\<lambda>c. c \<in> set d) (drop p s)"
    by (simp add: drop_takeWhile_length [symmetric] add.commute)
  from True have "dropWhile (\<lambda>c. c \<in> set d) (drop p s) \<noteq> []" by (auto simp: dropWhile_eq_Nil_conv)
  then obtain c cs where c: "dropWhile (\<lambda>c. c \<in> set d) (drop p s) = c # cs"
    by (cases "dropWhile (\<lambda>c. c \<in> set d) (drop p s)") auto
  then have "c \<notin> set d" by (simp add: dropWhile_eq_Cons_conv)
  moreover from c dk have "?k < length s" by (metis drop_eq_Nil leI list.distinct(1))
  ultimately show thesis
    using k dk c that(2) [of ?k c cs] tokens_of_dropWhile [of "set d" "drop p s"] by auto
qed
lemma size_sub_le: "b \<le> a \<Longrightarrow> a < 2 ^ 64 \<Longrightarrow> size_sub a b = a - b"
  by (simp add: size_sub_def nat_diff_distrib')

text \<open>
  From a position \<open>p\<close>, the loop appends exactly the tokens of the rest of the string and returns.
\<close>

text \<open>The next token: the characters up to the next delimiter, or to the end of the string.\<close>

lemma split_run:
  assumes "length src < npos" and "k < length src" and "src ! k \<notin> set delim"
  defines "run \<equiv> takeWhile (\<lambda>c. c \<notin> set delim) (drop k src)" and "q \<equiv> find_first_of src delim k"
  shows "substr src k (size_sub q k) = Inr run" (is ?sub)
    and "tokens_of (set delim) (drop k src) = run # tokens_of (set delim) (drop q src)" (is ?tok)
    and "k < q" (is ?lt)
proof -
  obtain c cs where cs: "drop k src = c # cs" "c \<notin> set delim" using assms(2,3) by (metis Cons_nth_drop_Suc)
  have "?sub \<and> ?tok \<and> ?lt"
  proof (cases "\<exists>c \<in> set (drop k src). c \<in> set delim")
    case True
    then have q: "q = k + length run" by (auto simp: q_def run_def find_first_of_def find_pos_eq)
    have "k + length run \<le> length src"
      using length_takeWhile_le [of "\<lambda>c. c \<notin> set delim" "drop k src"] assms(2) by (simp add: run_def)
    with q assms(1) have "size_sub q k = length run" by (simp add: size_sub_le npos_def)
    then have "?sub" using assms(2) by (simp add: substr_def run_def takeWhile_eq_take [symmetric])
    moreover have "drop q src = dropWhile (\<lambda>c. c \<notin> set delim) (drop k src)"
      unfolding q run_def by (simp add: drop_takeWhile_length [symmetric] add.commute)
    ultimately show ?thesis using cs q by (simp add: run_def)
  next
    case False
    then have q: "q = npos" and all: "run = drop k src"
      by (auto simp: q_def run_def find_first_of_def find_pos_eq takeWhile_eq_all_conv)
    have "size_sub npos k = npos - k" using assms(1,2) by (intro size_sub_le) (auto simp: npos_def)
    then have "?sub" unfolding q all using assms(1,2) by (simp add: substr_def)
    moreover have "tokens_of (set delim) (dropWhile (\<lambda>c. c \<notin> set delim) cs) = []"
    proof -
      have "dropWhile (\<lambda>c. c \<notin> set delim) cs = []" using cs(1) False by (simp add: dropWhile_eq_Nil_conv)
      then show ?thesis by (simp only: tokens_of.simps)
    qed
    ultimately show ?thesis using q cs assms(1,2) by (simp add: run_def)
  qed
  then show ?sub ?tok ?lt by blast+
qed

lemma split_loop_tokens:
  assumes "length src < npos"
  shows "split_loop src delim acc (find_first_not_of src delim p)
           (find_first_of src delim (find_first_not_of src delim p)) =
         Some (Inr (acc @ tokens_of (set delim) (drop p src)))"
proof (induction "length src - p" arbitrary: p acc rule: less_induct)
  case less
  have none: "find_first_of src delim npos = npos" "find_first_not_of src delim npos = npos"
    using assms by (simp_all add: find_first_of_def find_first_not_of_def)
  show ?case
  proof (cases rule: find_first_not_of_cases [of src delim p])
    case 1
    then show ?thesis by (simp add: split_loop.simps none)
  next
    case (2 k c cs)
    let ?run = "takeWhile (\<lambda>c. c \<notin> set delim) (drop k src)"
    let ?q = "find_first_of src delim k"
    let ?l = "find_first_not_of src delim ?q"
    have "src ! k = c" using 2 by (simp add: nth_via_drop)
    note run = split_run [OF assms, of k delim] this
    have "split_loop src delim acc k ?q =
        split_loop src delim (acc @ [?run]) ?l (find_first_of src delim ?l)"
      using run 2 assms by (subst split_loop.simps) (auto simp: Let_def)
    also have "\<dots> = Some (Inr ((acc @ [?run]) @ tokens_of (set delim) (drop ?q src)))"
      using run 2 by (intro less.hyps) auto
    finally show ?thesis using 2 run by simp
  qed
qed

lemma find_if_eq: "find_if P s = length (takeWhile (\<lambda>c. \<not> P c) s)"
  by (induction s) auto

lemma ltrim_dropWhile: "ltrim s = dropWhile (\<lambda>c. \<not> not_blank c) s"
  by (simp add: ltrim_def find_if_eq drop_takeWhile_length)

lemma rtrim_dropWhile: "rtrim s = rev (dropWhile (\<lambda>c. \<not> not_blank c) (rev s))"
  by (simp add: rtrim_def find_if_eq drop_takeWhile_length [symmetric] rev_drop)

lemma rtrim_split:
  obtains b where "s = rtrim s @ b" and "\<forall>c \<in> set b. \<not> not_blank c"
proof -
  let ?b = "rev (takeWhile (\<lambda>c. \<not> not_blank c) (rev s))"
  have "s = rtrim s @ ?b"
    unfolding rtrim_dropWhile by (metis rev_append rev_rev_ident takeWhile_dropWhile_id)
  moreover have "\<forall>c \<in> set ?b. \<not> not_blank c" by (auto dest: set_takeWhileD)
  ultimately show thesis by (rule that)
qed

lemma rtrim_last: "rtrim s \<noteq> [] \<Longrightarrow> not_blank (last (rtrim s))"
  unfolding rtrim_dropWhile by (metis hd_dropWhile last_rev rev_is_Nil_conv)

lemma rtrim_hd: "rtrim s \<noteq> [] \<Longrightarrow> hd (rtrim s) = hd s"
  by (metis rtrim_split hd_append2)

lemma prefix_loop_iff:
  "prefix_loop s p i \<longleftrightarrow> (\<forall>j. i \<le> j \<and> j < length p \<longrightarrow> p ! j = s ! j)"
proof (induction s p i rule: prefix_loop.induct)
  case (1 s p i)
  then show ?case
    by (subst prefix_loop.simps) (auto, metis Suc_leI le_neq_implies_less)
qed

lemma suffix_loop_iff:
  "k + length p \<le> length s \<Longrightarrow>
   suffix_loop s p k i \<longleftrightarrow> (\<forall>j. i \<le> j \<and> j < length p \<longrightarrow> p ! j = s ! (j + k))"
proof (induction s p k i rule: suffix_loop.induct)
  case (1 s p k i)
  then show ?case
    by (subst suffix_loop.simps) (auto simp: Let_def, metis Suc_leI le_neq_implies_less)
qed

section \<open>Properties\<close>

text \<open>For every string shorter than \<open>npos\<close> and every set of delimiters, both overloads of
  \<open>split\<close> return (no exception, no endless loop) the maximal delimiter-free runs of the source in
  order: no token is empty or holds a delimiter, and together they are the source without its
  delimiters. What the caller's vector held before does not matter.\<close>

theorem split_returns_tokens:
  assumes "length src < npos"
  shows "\<exists>ts. split src delim = Some (Inr ts) \<and> split_into src delim old = Some (Inr ts) \<and>
    ts = tokens_of (set delim) src \<and> concat ts = filter (\<lambda>c. c \<notin> set delim) src \<and>
    (\<forall>t \<in> set ts. t \<noteq> [] \<and> set t \<inter> set delim = {})"
  using split_loop_tokens [OF assms, of delim "[]" 0] tokens_of_concat tokens_of_token
  by (simp add: split_def split_into_def Let_def)

theorem split_returns_tokens_witness:
  "length ''a,bc,,d'' < npos \<and> split ''a,bc,,d'' '','' = Some (Inr [''a'', ''bc'', ''d''])"
proof -
  have n: "length ''a,bc,,d'' < npos" by (simp add: npos_def)
  from split_returns_tokens [OF n, of "'',''"] n show ?thesis by auto
qed

text \<open>\<open>trim\<close> removes blanks (space, tab, newline) at both ends and nothing else: the source is
  blanks, the result, blanks, and the result neither starts nor ends with a blank.\<close>

theorem trim_removes_blank_ends:
  "\<exists>a b. src = a @ trim src @ b \<and> (\<forall>c \<in> set (a @ b). \<not> not_blank c) \<and>
     (trim src \<noteq> [] \<longrightarrow> not_blank (hd (trim src)) \<and> not_blank (last (trim src)))"
proof -
  let ?a = "takeWhile (\<lambda>c. \<not> not_blank c) src"
  obtain b where b: "ltrim src = rtrim (ltrim src) @ b" "\<forall>c \<in> set b. \<not> not_blank c"
    by (rule rtrim_split)
  have "src = ?a @ trim src @ b"
    using b(1) by (simp add: trim_def ltrim_dropWhile)
  moreover have "\<forall>c \<in> set (?a @ b). \<not> not_blank c" using b(2) by (auto dest: set_takeWhileD)
  moreover have "not_blank (hd (trim src)) \<and> not_blank (last (trim src))" if "trim src \<noteq> []"
  proof -
    from that have "hd (trim src) = hd (ltrim src)" "ltrim src \<noteq> []"
      using b(1) by (auto simp: trim_def rtrim_hd)
    then have "not_blank (hd (trim src))" by (metis hd_dropWhile ltrim_dropWhile)
    with that rtrim_last show ?thesis by (simp add: trim_def)
  qed
  ultimately show ?thesis by blast
qed

theorem trim_removes_blank_ends_witness:
  "trim '' a b '' = ''a b'' \<and> not_blank (hd ''a b'') \<and> not_blank (last ''a b'')"
proof -
  have "trim '' a b '' = ''a b''" by code_simp
  with trim_removes_blank_ends [of "'' a b ''"] show ?thesis by auto
qed

text \<open>\<open>has_prefix\<close> and \<open>has_suffix\<close> decide the prefix and the suffix relation, for arguments of
  any lengths.\<close>

theorem has_prefix_suffix:
  "has_prefix src p = prefix p src \<and> has_suffix src q = suffix q src"
proof
  show "has_prefix src p = prefix p src"
    by (auto simp: has_prefix_def prefix_loop_iff prefix_def list_eq_iff_nth_eq nth_append
        intro!: exI [of _ "drop (length p) src"])
  show "has_suffix src q = suffix q src"
  proof (cases "length q \<le> length src")
    case True
    let ?k = "length src - length q"
    have "has_suffix src q \<longleftrightarrow> drop ?k src = q"
      using True by (auto simp: has_suffix_def suffix_loop_iff list_eq_iff_nth_eq add.commute)
    also have "\<dots> \<longleftrightarrow> suffix q src"
      by (metis True append_take_drop_id diff_diff_cancel length_drop suffix_drop suffix_def
          append_eq_append_conv)
    finally show ?thesis .
  next
    case False
    then show ?thesis by (auto simp: has_suffix_def dest: suffix_length_le)
  qed
qed

end
