(* ===== verification/Xtime.thy ===== *)
theory Xtime
  imports Xsix_Prelude
begin

text \<open>
  Clock values of \<open>src/src/xsix/time\<close>: \<open>gettimeofday.h\<close>, \<open>duration.h\<close> and \<open>timestamp.h\<close>. A
  \<open>long\<close> has 64 bits on Linux and 32 on Windows, so the functions that convert to \<open>long\<close> take its
  width \<open>L\<close> as their first argument. Division truncates towards zero. A signed 64-bit result out of
  range is a fault; unsigned results wrap.
\<close>

section \<open>gettimeofday.h\<close>

record timeval =
  tv_sec :: int
  tv_usec :: int

definition to_long :: "nat \<Rightarrow> int \<Rightarrow> int" where
  "to_long L x = (x + 2 ^ (L - 1)) mod 2 ^ L - 2 ^ (L - 1)"

text \<open>
  The Windows \<open>gettimeofday\<close>; \<open>hi\<close> and \<open>lo\<close> are the two halves of the \<open>FILETIME\<close> that the system
  returned, and \<open>long\<close> has 32 bits there.
\<close>

definition gettimeofday :: "32 word \<Rightarrow> 32 word \<Rightarrow> timeval" where
  "gettimeofday hi lo =
     (let intervals = or (push_bit 32 (ucast hi)) (ucast lo) :: 64 word;
          intervals = intervals - 116444736000000000
      in \<lparr> tv_sec = to_long 32 (uint (intervals div 10000000)),
           tv_usec = to_long 32 (uint ((intervals mod 10000000) div 10)) \<rparr>)"

definition utcmicrosecond :: "timeval \<Rightarrow> int" where
  "utcmicrosecond tv = to_u64 (to_u64 (tv_sec tv) * 1000000 + tv_usec tv)"

definition timevalconv :: "nat \<Rightarrow> int \<Rightarrow> timeval" where
  "timevalconv L time_us =
     \<lparr> tv_sec = c_quot (to_long L time_us) 1000000, tv_usec = c_rem (to_long L time_us) 1000000 \<rparr>"

section \<open>duration.h\<close>

definition kNanosecond :: int where "kNanosecond = 1"
definition kMicrosecond :: int where "kMicrosecond = 1000"
definition kMilliseoncd :: int where "kMilliseoncd = 1000 * kMicrosecond"
definition kSecond :: int where "kSecond = 1000 * kMilliseoncd"
definition kMinute :: int where "kMinute = 60 * kSecond"
definition kHour :: int where "kHour = 60 * kMinute"

lemmas k_defs = kNanosecond_def kMicrosecond_def kMilliseoncd_def kSecond_def kMinute_def kHour_def

record duration =
  d_ns :: int

definition duration_default :: duration where
  "duration_default = \<lparr> d_ns = 0 \<rparr>"

text \<open>\<open>tv_sec * kSecond + tv_usec * kMicrosecond\<close> in 64-bit arithmetic.\<close>

definition timeval_ns :: "timeval \<Rightarrow> int res" where
  "timeval_ns t =
     bind_res (chk_i64 (tv_sec t * kSecond)) (\<lambda>s.
     bind_res (chk_i64 (tv_usec t * kMicrosecond)) (\<lambda>u. chk_i64 (s + u)))"

definition duration_of_timeval :: "timeval \<Rightarrow> duration res" where
  "duration_of_timeval t = bind_res (timeval_ns t) (\<lambda>n. Inr \<lparr> d_ns = n \<rparr>)"

definition duration_of_ns :: "int \<Rightarrow> duration" where
  "duration_of_ns n = \<lparr> d_ns = n \<rparr>"

definition d_seconds :: "duration \<Rightarrow> int" where "d_seconds d = c_quot (d_ns d) kSecond"
definition d_millseconds :: "duration \<Rightarrow> int" where "d_millseconds d = c_quot (d_ns d) kMilliseoncd"
definition d_microseconds :: "duration \<Rightarrow> int" where "d_microseconds d = c_quot (d_ns d) kMicrosecond"
definition d_nanoseconds :: "duration \<Rightarrow> int" where "d_nanoseconds d = d_ns d"
definition d_minutes :: "duration \<Rightarrow> int" where "d_minutes d = c_quot (d_ns d) kMinute"
definition d_hours :: "duration \<Rightarrow> int" where "d_hours d = c_quot (d_ns d) kHour"

definition make_time_val :: "nat \<Rightarrow> int \<Rightarrow> timeval" where
  "make_time_val L ns =
     \<lparr> tv_sec = to_long L (c_quot ns kSecond),
       tv_usec = c_quot (to_long L (c_rem ns kSecond)) (to_long L kMicrosecond) \<rparr>"

definition d_get_time_val :: "nat \<Rightarrow> duration \<Rightarrow> timeval" where
  "d_get_time_val L d = make_time_val L (d_ns d)"

definition d_lt :: "duration \<Rightarrow> duration \<Rightarrow> bool" where "d_lt a b \<longleftrightarrow> d_ns a < d_ns b"
definition d_le :: "duration \<Rightarrow> duration \<Rightarrow> bool" where "d_le a b \<longleftrightarrow> d_ns a \<le> d_ns b"
definition d_gt :: "duration \<Rightarrow> duration \<Rightarrow> bool" where "d_gt a b \<longleftrightarrow> d_ns a > d_ns b"
definition d_ge :: "duration \<Rightarrow> duration \<Rightarrow> bool" where "d_ge a b \<longleftrightarrow> d_ns a \<ge> d_ns b"
definition d_eq :: "duration \<Rightarrow> duration \<Rightarrow> bool" where "d_eq a b \<longleftrightarrow> d_ns a = d_ns b"

definition d_add_assign :: "duration \<Rightarrow> duration \<Rightarrow> duration res" where
  "d_add_assign d rhs = bind_res (chk_i64 (d_ns d + d_ns rhs)) (\<lambda>n. Inr (d\<lparr>d_ns := n\<rparr>))"

definition d_sub_assign :: "duration \<Rightarrow> duration \<Rightarrow> duration res" where
  "d_sub_assign d rhs = bind_res (chk_i64 (d_ns d - d_ns rhs)) (\<lambda>n. Inr (d\<lparr>d_ns := n\<rparr>))"

section \<open>timestamp.h\<close>

record timestamp =
  t_ns :: int

definition timestamp_default :: timestamp where
  "timestamp_default = \<lparr> t_ns = 0 \<rparr>"

definition timestamp_of_ns :: "int \<Rightarrow> timestamp" where
  "timestamp_of_ns n = \<lparr> t_ns = n \<rparr>"

text \<open>
  \<open>now\<close> multiplies an unsigned by a signed 64-bit value, so the product wraps, and converts it to
  \<open>int64_t\<close>; its argument is what \<open>gettimeofday\<close> stored.
\<close>

definition timestamp_now :: "timeval \<Rightarrow> timestamp" where
  "timestamp_now tv = timestamp_of_ns (to_i64 (to_u64 (utcmicrosecond tv * kMicrosecond)))"

definition timestamp_of_timeval :: "timeval \<Rightarrow> timestamp res" where
  "timestamp_of_timeval t = bind_res (timeval_ns t) (\<lambda>n. Inr \<lparr> t_ns = n \<rparr>)"

definition t_make_time_val :: "nat \<Rightarrow> timestamp \<Rightarrow> timeval" where
  "t_make_time_val L t =
     \<lparr> tv_sec = to_long L (c_quot (t_ns t) kSecond),
       tv_usec = c_quot (to_long L (c_rem (t_ns t) kSecond)) (to_long L kMicrosecond) \<rparr>"

definition t_get_timeval :: "nat \<Rightarrow> timestamp \<Rightarrow> timeval" where
  "t_get_timeval L t = t_make_time_val L t"

definition t_unix :: "timestamp \<Rightarrow> int" where "t_unix t = c_quot (t_ns t) kSecond"
definition t_unixnano :: "timestamp \<Rightarrow> int" where "t_unixnano t = t_ns t"
definition t_unixmills :: "timestamp \<Rightarrow> int" where "t_unixmills t = c_quot (t_ns t) kMilliseoncd"

text \<open>
  \<open>yymmhhmmss\<close> prints what \<open>localtime\<close> makes of the seconds; the time zone rules are an argument.
  \<open>strftime\<close> stores the text with its NUL when it fits in 80 bytes, and \<open>localtime\<close> may
  return a null pointer.
\<close>

record tm =
  tm_year :: int
  tm_mon :: int
  tm_mday :: int
  tm_hour :: int
  tm_min :: int
  tm_sec :: int

definition pad2 :: "int \<Rightarrow> string" where
  "pad2 n = (if 0 \<le> n \<and> n < 10 then CHR ''0'' # dec_of_int n else dec_of_int n)"

definition strftime_text :: "tm \<Rightarrow> string" where
  "strftime_text t =
     dec_of_int (1900 + tm_year t) @ ''-'' @ pad2 (tm_mon t + 1) @ ''-'' @ pad2 (tm_mday t) @ '' '' @
     pad2 (tm_hour t) @ '':'' @ pad2 (tm_min t) @ '':'' @ pad2 (tm_sec t)"

definition yymmhhmmss :: "(int \<Rightarrow> tm option) \<Rightarrow> timestamp \<Rightarrow> string res" where
  "yymmhhmmss localtime t =
     (let ts = t_unix t in
      case localtime ts of
        None \<Rightarrow> Inl Null_Deref
      | Some r \<Rightarrow>
          let text = strftime_text r in
          if length text < 80 then Inr text else Inl Indeterminate_Read)"

definition t_lt :: "timestamp \<Rightarrow> timestamp \<Rightarrow> bool" where "t_lt a b \<longleftrightarrow> t_ns a < t_ns b"
definition t_eq :: "timestamp \<Rightarrow> timestamp \<Rightarrow> bool" where "t_eq a b \<longleftrightarrow> t_ns a = t_ns b"

definition t_add_assign :: "timestamp \<Rightarrow> duration \<Rightarrow> timestamp res" where
  "t_add_assign t rhs = bind_res (chk_i64 (t_ns t + d_nanoseconds rhs)) (\<lambda>n. Inr (t\<lparr>t_ns := n\<rparr>))"

definition t_add :: "timestamp \<Rightarrow> duration \<Rightarrow> timestamp res" where
  "t_add t d = bind_res (chk_i64 (t_ns t + d_nanoseconds d)) (\<lambda>n. Inr (t\<lparr>t_ns := n\<rparr>))"

definition t_plus :: "timestamp \<Rightarrow> duration \<Rightarrow> timestamp res" where
  "t_plus t rhs = (let tmp = t in t_add_assign tmp rhs)"

definition t_sub_assign :: "timestamp \<Rightarrow> duration \<Rightarrow> timestamp res" where
  "t_sub_assign t rhs = bind_res (chk_i64 (t_ns t - d_nanoseconds rhs)) (\<lambda>n. Inr (t\<lparr>t_ns := n\<rparr>))"

definition t_minus :: "timestamp \<Rightarrow> duration \<Rightarrow> timestamp res" where
  "t_minus t rhs = (let tmp = t in t_sub_assign tmp rhs)"

definition t_diff :: "timestamp \<Rightarrow> timestamp \<Rightarrow> duration res" where
  "t_diff t rhs = bind_res (chk_i64 (t_ns t - t_ns rhs)) (\<lambda>n. Inr (duration_of_ns n))"

section \<open>Lemmas\<close>

lemma to_long_id: "0 < L \<Longrightarrow> - (2 ^ (L - 1)) \<le> x \<Longrightarrow> x < 2 ^ (L - 1) \<Longrightarrow> to_long L x = x"
proof -
  assume a: "0 < L" "- (2 ^ (L - 1)) \<le> x" "x < 2 ^ (L - 1)"
  then have "(2 :: int) ^ L = 2 * 2 ^ (L - 1)" by (metis power_minus_mult mult.commute)
  with a show ?thesis by (simp add: to_long_def)
qed

lemma to_long_small: "L \<in> {32, 64} \<Longrightarrow> \<bar>x\<bar> < 2 ^ 31 \<Longrightarrow> to_long L x = x"
  by (intro to_long_id) auto

lemma to_u64_to_long_64: "to_u64 (to_long 64 x) = to_u64 x"
  by (simp add: to_u64_def to_long_def mod_diff_left_eq)

lemma utcmicrosecond_conv: "utcmicrosecond (timevalconv L t) = to_u64 (to_long L t)"
proof -
  have "to_u64 (to_u64 q * 1000000 + r) = to_u64 (1000000 * q + r)" for q r
    unfolding to_u64_def by (metis mod_add_left_eq mod_mult_left_eq mult.commute)
  then show ?thesis
    by (simp add: utcmicrosecond_def timevalconv_def c_quot_rem)
qed

lemma c_rem_bound: "0 < b \<Longrightarrow> \<bar>c_rem a b\<bar> < b"
  by (cases "0 \<le> a") (simp_all add: c_rem_nonneg c_rem_neg)

lemma c_quot_mult_add:
  "0 < b \<Longrightarrow> 0 \<le> s \<Longrightarrow> 0 \<le> r \<Longrightarrow> r < b \<Longrightarrow> c_quot (s * b + r) b = s \<and> c_rem (s * b + r) b = r"
  by (simp add: c_quot_nonneg c_rem_nonneg)

lemma timeval_ns_ok:
  assumes "0 \<le> tv_sec t" "tv_sec t \<le> 9223372035" "0 \<le> tv_usec t" "tv_usec t < 1000000"
  shows "timeval_ns t = Inr (tv_sec t * 1000000000 + tv_usec t * 1000)"
proof -
  have "in_i64 (tv_sec t * 1000000000)" "in_i64 (tv_usec t * 1000)"
    "in_i64 (tv_sec t * 1000000000 + tv_usec t * 1000)" using assms by (auto simp: in_i64_def)
  then show ?thesis by (simp add: timeval_ns_def k_defs)
qed

lemma make_time_val_ok:
  assumes "L \<in> {32, 64}" "0 \<le> s" "to_long L s = s" "0 \<le> u" "u < 1000000"
  shows "make_time_val L (s * 1000000000 + u * 1000) = \<lparr> tv_sec = s, tv_usec = u \<rparr>"
proof -
  have "to_long L (u * 1000) = u * 1000" "to_long L 1000 = 1000"
    using assms by (auto intro!: to_long_small)
  then show ?thesis
    using assms c_quot_mult_add [of 1000000000 s "u * 1000"]
    by (simp add: make_time_val_def k_defs c_quot_nonneg)
qed

lemma t_make_time_val_eq: "t_make_time_val L t = make_time_val L (t_ns t)"
  by (simp add: t_make_time_val_def make_time_val_def)

text \<open>The two halves of a \<open>FILETIME\<close> form the 64-bit count of 100 ns intervals.\<close>

lemma or_push_bit: "0 \<le> l \<Longrightarrow> l < 2 ^ n \<Longrightarrow> or (push_bit n h) l = h * 2 ^ n + (l :: int)"
proof -
  assume l: "0 \<le> l" "l < 2 ^ n"
  have nb: "\<not> bit l m" if "n \<le> m" for m
    using l that by (metis bit_take_bit_iff not_le take_bit_int_eq_self)
  have "and (push_bit n h) l = 0"
    by (rule bit_eqI) (use nb in \<open>auto simp: bit_and_iff bit_push_bit_iff\<close>)
  then show ?thesis using plus_and_or [of "push_bit n h" l] by (simp add: push_bit_eq_mult)
qed

lemma filetime_join:
  "uint (or (push_bit 32 (ucast (hi :: 32 word))) (ucast (lo :: 32 word)) :: 64 word) =
   uint hi * 2 ^ 32 + uint lo"
proof -
  have hi: "uint hi < 2 ^ 32" "0 \<le> uint hi" and lo: "uint lo < 2 ^ 32" "0 \<le> uint lo"
    using uint_lt2p [of hi] uint_lt2p [of lo] by simp_all
  have "uint (push_bit 32 (ucast hi) :: 64 word) = push_bit 32 (uint hi)"
    using hi unfolding unsigned_push_bit_eq unsigned_ucast_eq
    by (simp add: take_bit_int_eq_self push_bit_eq_mult)
  moreover have "uint (ucast lo :: 64 word) = uint lo"
    using lo by (simp add: unsigned_ucast_eq take_bit_int_eq_self)
  ultimately show ?thesis using or_push_bit [of "uint lo" 32 "uint hi"] lo
    by (simp add: unsigned_or_eq)
qed

lemma gettimeofday_eq:
  assumes ft: "ft = uint hi * 2 ^ 32 + uint lo" and "116444736000000000 \<le> ft"
    and "ft < 116444736000000000 + 2 ^ 31 * 10000000"
  shows "gettimeofday hi lo =
    \<lparr> tv_sec = (ft - 116444736000000000) div 10000000,
      tv_usec = (ft - 116444736000000000) mod 10000000 div 10 \<rparr>"
proof -
  let ?w = "or (push_bit 32 (ucast hi)) (ucast lo) :: 64 word"
  let ?i = "ft - 116444736000000000"
  have "uint (?w - 116444736000000000) = ?i"
    using assms unfolding uint_word_ariths filetime_join by simp
  then have "uint ((?w - 116444736000000000) div 10000000) = ?i div 10000000"
    "uint ((?w - 116444736000000000) mod 10000000 div 10) = ?i mod 10000000 div 10"
    by (simp_all add: uint_div uint_mod)
  moreover have "?i div 10000000 < 2 ^ 31" "0 \<le> ?i div 10000000" using assms by auto
  moreover have "?i mod 10000000 div 10 < 2 ^ 31" "0 \<le> ?i mod 10000000 div 10" by auto
  ultimately show ?thesis
    by (simp add: gettimeofday_def Let_def to_long_id)
qed

lemma div10_split: "i div 10000000 * 1000000 + i mod 10000000 div 10 = (i :: int) div 10"
proof -
  have "(i mod 10000000 + i div 10000000 * 1000000 * 10) div 10 =
      i div 10000000 * 1000000 + i mod 10000000 div 10"
    by (rule div_mult_self1) simp
  then show ?thesis by simp
qed

section \<open>Properties\<close>

text \<open>Converting microseconds to a \<open>timeval\<close> and back gives the same 64-bit number where
  \<open>long\<close> has 64 bits, and its sign-extended low 32 bits where \<open>long\<close> has 32 bits (Windows),
  because \<open>timevalconv\<close> casts before it divides.\<close>

theorem timevalconv_roundtrip:
  assumes "0 \<le> t" and "t < 2 ^ 64"
  shows "utcmicrosecond (timevalconv 64 t) = t \<and>
    utcmicrosecond (timevalconv 32 t) = to_u64 (to_i32 t)"
proof -
  have "to_long 32 t = to_i32 t" by (simp add: to_long_def to_i32_def)
  with assms show ?thesis by (simp add: utcmicrosecond_conv to_u64_to_long_64)
qed

theorem timevalconv_roundtrip_witness:
  "utcmicrosecond (timevalconv 64 5000000123) = 5000000123 \<and>
   utcmicrosecond (timevalconv 32 5000000123) = 705032827"
  using timevalconv_roundtrip [of 5000000123] by (simp add: to_i32_def to_u64_def)

text \<open>A normalised non-negative \<open>timeval\<close> (within the range of a nanosecond count) survives
  the way through \<open>Duration\<close> and through \<open>Timestamp\<close> unchanged, on 32-bit and 64-bit \<open>long\<close>, and
  the constructors do not overflow.\<close>

theorem timeval_roundtrip:
  assumes "L \<in> {32, 64}" and "0 \<le> s" and "s \<le> 9223372035" and "to_long L s = s"
    and "0 \<le> u" and "u < 1000000"
  shows "bind_res (duration_of_timeval \<lparr> tv_sec = s, tv_usec = u \<rparr>) (\<lambda>d. Inr (d_get_time_val L d)) =
      Inr \<lparr> tv_sec = s, tv_usec = u \<rparr> \<and>
    bind_res (timestamp_of_timeval \<lparr> tv_sec = s, tv_usec = u \<rparr>) (\<lambda>t. Inr (t_get_timeval L t)) =
      Inr \<lparr> tv_sec = s, tv_usec = u \<rparr>"
  using assms timeval_ns_ok [of "\<lparr> tv_sec = s, tv_usec = u \<rparr>"] make_time_val_ok [of L s u]
  by (simp add: duration_of_timeval_def timestamp_of_timeval_def d_get_time_val_def
      t_get_timeval_def t_make_time_val_eq)

theorem timeval_roundtrip_witness:
  "bind_res (duration_of_timeval \<lparr> tv_sec = 1600000000, tv_usec = 42 \<rparr>)
     (\<lambda>d. Inr (d_get_time_val 32 d)) = Inr \<lparr> tv_sec = 1600000000, tv_usec = 42 \<rparr>"
  using timeval_roundtrip [of 32 1600000000 42] by (simp add: to_long_def)

text \<open>\<open>Timestamp\<close> arithmetic: when \<open>t + d\<close> is representable, adding and subtracting \<open>d\<close>
  cancel, the difference of the two timestamps is \<open>d\<close>, and the order of the timestamps is the sign
  of \<open>d\<close>; when it is not, every form of the addition is an overflow.\<close>

theorem timestamp_arithmetic:
  assumes "in_i64 (t_ns t)" and "in_i64 (d_ns d)"
  shows "(if in_i64 (t_ns t + d_ns d) then
      \<exists>t'. t_plus t d = Inr t' \<and> t_add t d = Inr t' \<and> t_minus t' d = Inr t \<and> t_diff t' t = Inr d \<and>
        t_lt t t' = d_lt duration_default d \<and> t_eq t t' = d_eq duration_default d
    else t_plus t d = Inl Signed_Overflow \<and> t_add t d = Inl Signed_Overflow)"
  using assms
  by (cases d) (auto simp: t_plus_def t_add_assign_def t_add_def t_minus_def t_sub_assign_def t_diff_def
      d_nanoseconds_def duration_of_ns_def t_lt_def d_lt_def t_eq_def d_eq_def duration_default_def
      chk_i64_def)

theorem timestamp_arithmetic_witness:
  "\<exists>t'. t_plus \<lparr> t_ns = 5 \<rparr> \<lparr> d_ns = 7 \<rparr> = Inr t' \<and> t_diff t' \<lparr> t_ns = 5 \<rparr> = Inr \<lparr> d_ns = 7 \<rparr>"
  using timestamp_arithmetic [of "\<lparr> t_ns = 5 \<rparr>" "\<lparr> d_ns = 7 \<rparr>"] by (auto simp: in_i64_def)

text \<open>On Windows, for every \<open>FILETIME\<close> from 1970 until the seconds leave 32 bits, the timestamp
  of \<open>Timestamp::now\<close> is the number of whole microseconds since 1970, in nanoseconds.\<close>

theorem windows_now:
  assumes "ft = uint hi * 2 ^ 32 + uint lo" and "116444736000000000 \<le> ft"
    and "ft < 116444736000000000 + 2 ^ 31 * 10000000"
  shows "t_ns (timestamp_now (gettimeofday hi lo)) = (ft - 116444736000000000) div 10 * 1000"
proof -
  let ?i = "ft - 116444736000000000"
  have sum: "?i div 10000000 * 1000000 + ?i mod 10000000 div 10 = ?i div 10"
    by (rule div10_split)
  have r: "0 \<le> ?i div 10000000" "?i div 10000000 < 2 ^ 31" using assms(2,3) by auto
  have q: "0 \<le> ?i div 10" "?i div 10 < 2 ^ 31 * 1000000" using assms(2,3) by auto
  have "utcmicrosecond (gettimeofday hi lo) = ?i div 10"
    unfolding gettimeofday_eq [OF assms] using sum r q by (simp add: utcmicrosecond_def)
  then show ?thesis
    using q by (simp add: timestamp_now_def timestamp_of_ns_def k_defs in_i64_def)
qed

theorem windows_now_witness:
  "t_ns (timestamp_now (gettimeofday 30000000 5)) = 1240428288000000 * 1000"
  using windows_now [of 128849018880000005 30000000 5] by simp

end
