(* ===== verification/Std_Map.thy ===== *)
theory Std_Map
  imports Xsix_Prelude
begin

text \<open>
  \<open>std::map\<close> as the registries of the program use it (\<open>LoggerManager\<close>, \<open>ActorCore\<close>,
  \<open>TCPServer\<close>): a list of pairs in ascending key order, which is the order of iteration. The locale
  states the contract those registries rely on and what follows from it for any sequence of
  registrations and removals.
\<close>

section \<open>Operations\<close>

fun om_find :: "('k :: linorder \<times> 'v) list \<Rightarrow> 'k \<Rightarrow> 'v option" where
  "om_find [] k = None"
| "om_find ((k', v) # m) k = (if k' = k then Some v else om_find m k)"

text \<open>\<open>insert\<close> leaves an element with the same key alone.\<close>

fun om_insert :: "'k :: linorder \<Rightarrow> 'v \<Rightarrow> ('k \<times> 'v) list \<Rightarrow> ('k \<times> 'v) list" where
  "om_insert k v [] = [(k, v)]"
| "om_insert k v ((k', v') # m) =
     (if k < k' then (k, v) # (k', v') # m
      else if k = k' then (k', v') # m
      else (k', v') # om_insert k v m)"

fun om_erase :: "'k :: linorder \<Rightarrow> ('k \<times> 'v) list \<Rightarrow> ('k \<times> 'v) list" where
  "om_erase k [] = []"
| "om_erase k ((k', v') # m) = (if k' = k then m else (k', v') # om_erase k m)"

definition om_inv :: "('k :: linorder \<times> 'v) list \<Rightarrow> bool" where
  "om_inv m \<longleftrightarrow> sorted_wrt (<) (map fst m)"

section \<open>The contract\<close>

locale registry =
  fixes inv :: "'m \<Rightarrow> bool"
    and find :: "'m \<Rightarrow> 'k \<Rightarrow> 'v option"
    and ins :: "'k \<Rightarrow> 'v \<Rightarrow> 'm \<Rightarrow> 'm"
    and del :: "'k \<Rightarrow> 'm \<Rightarrow> 'm"
  assumes find_ins: "inv m \<Longrightarrow>
      find (ins k v m) k' = (if k' = k then (case find m k of None \<Rightarrow> Some v | Some w \<Rightarrow> Some w) else find m k')"
    and find_del: "inv m \<Longrightarrow> find (del k m) k' = (if k' = k then None else find m k')"
    and inv_ins: "inv m \<Longrightarrow> inv (ins k v m)"
    and inv_del: "inv m \<Longrightarrow> inv (del k m)"
begin

text \<open>Removing what was just inserted restores every lookup when the key was free.\<close>

lemma del_ins: "inv m \<Longrightarrow> find m k = None \<Longrightarrow> find (del k (ins k v m)) k' = find m k'"
  by (simp add: find_del inv_ins find_ins)

text \<open>A relation between keys and values that holds of every entry survives both operations.\<close>

lemma keyed_ins:
  "inv m \<Longrightarrow> \<forall>k v. find m k = Some v \<longrightarrow> P k v \<Longrightarrow> P k v \<Longrightarrow>
   \<forall>k' v'. find (ins k v m) k' = Some v' \<longrightarrow> P k' v'"
  by (auto simp: find_ins split: if_splits option.splits)

lemma keyed_del:
  "inv m \<Longrightarrow> \<forall>k v. find m k = Some v \<longrightarrow> P k v \<Longrightarrow>
   \<forall>k' v'. find (del k m) k' = Some v' \<longrightarrow> P k' v'"
  by (auto simp: find_del split: if_splits)

text \<open>Registering a list of pairs: the first registration of a key wins.\<close>

lemma find_fold_ins:
  "inv m \<Longrightarrow>
   inv (fold (\<lambda>(k, v). ins k v) kvs m) \<and>
   find (fold (\<lambda>(k, v). ins k v) kvs m) k =
     (case find m k of Some w \<Rightarrow> Some w | None \<Rightarrow> map_of kvs k)"
proof (induction kvs arbitrary: m)
  case (Cons kv kvs)
  obtain k0 v0 where kv: "kv = (k0, v0)" by (cases kv)
  from Cons.IH [OF inv_ins [OF Cons.prems, of k0 v0]] show ?case
    using Cons.prems by (auto simp: kv find_ins split: option.splits)
qed (simp split: option.splits)

end

section \<open>The implementation\<close>

lemma om_inv_Cons: "om_inv ((k, v) # m) \<longleftrightarrow> (\<forall>k' \<in> fst ` set m. k < k') \<and> om_inv m"
  by (auto simp: om_inv_def)

lemma om_find_None: "om_find m k = None \<longleftrightarrow> k \<notin> fst ` set m"
  by (induction m k rule: om_find.induct) auto

lemma om_find_mem: "om_inv m \<Longrightarrow> om_find m k = Some v \<longleftrightarrow> (k, v) \<in> set m"
proof (induction m k rule: om_find.induct)
  case (2 k' v' m k)
  then have "om_inv m" "\<forall>j \<in> fst ` set m. k' < j" by (auto simp: om_inv_Cons)
  with 2 show ?case by (auto simp: om_inv_Cons)
qed simp

lemma om_insert_keys: "fst ` set (om_insert k v m) = insert k (fst ` set m)"
  by (induction k v m rule: om_insert.induct) auto

lemma om_erase_subset: "set (om_erase k m) \<subseteq> set m"
  by (induction k m rule: om_erase.induct) auto

lemma om_inv_insert: "om_inv m \<Longrightarrow> om_inv (om_insert k v m)"
proof (induction k v m rule: om_insert.induct)
  case (2 k v k' v' m)
  then show ?case by (auto simp: om_inv_Cons om_insert_keys)
qed (simp add: om_inv_def)

lemma om_inv_erase: "om_inv m \<Longrightarrow> om_inv (om_erase k m)"
  using om_erase_subset [of k] by (induction k m rule: om_erase.induct) (fastforce simp: om_inv_Cons)+

lemma om_find_insert:
  "om_inv m \<Longrightarrow> om_find (om_insert k v m) k' =
     (if k' = k then (case om_find m k of None \<Rightarrow> Some v | Some w \<Rightarrow> Some w) else om_find m k')"
proof (induction k v m rule: om_insert.induct)
  case (2 k v j w m)
  then have lt: "\<forall>i \<in> fst ` set m. j < i" and inv: "om_inv m" by (auto simp: om_inv_Cons)
  from lt have "om_find m k = None" if "k < j" using that by (auto simp: om_find_None)
  with 2 inv show ?case by auto
qed simp

lemma om_find_erase:
  "om_inv m \<Longrightarrow> om_find (om_erase k m) k' = (if k' = k then None else om_find m k')"
proof (induction k m rule: om_erase.induct)
  case (2 k j w m)
  then have "\<forall>i \<in> fst ` set m. j < i" by (auto simp: om_inv_Cons)
  then have "om_find m j = None" by (auto simp: om_find_None)
  with 2 show ?case by (auto simp: om_inv_Cons)
qed simp

interpretation om: registry "om_inv :: ('k :: linorder \<times> 'v) list \<Rightarrow> bool" om_find om_insert om_erase
  by unfold_locales (simp_all add: om_find_insert om_find_erase om_inv_insert om_inv_erase)

lemma om_inv_Nil [simp]: "om_inv []"
  by (simp add: om_inv_def)

lemma om_erase_absent: "om_find m k = None \<Longrightarrow> om_erase k m = m"
  by (induction m k rule: om_find.induct) (auto split: if_splits)

lemma om_insert_present: "om_inv m \<Longrightarrow> om_find m k = Some w \<Longrightarrow> om_insert k v m = m"
proof (induction k v m rule: om_insert.induct)
  case (2 k v j w' m)
  then have "\<forall>i \<in> fst ` set m. j < i" by (auto simp: om_inv_Cons)
  then have "om_find m k = None" if "k < j" using that by (auto simp: om_find_None)
  with 2 show ?case by (auto simp: om_inv_Cons split: if_splits)
qed simp

lemma om_insert_set:
  "om_find m k = None \<Longrightarrow> set (om_insert k v m) = insert (k, v) (set m)"
  by (induction k v m rule: om_insert.induct) (auto split: if_splits)

lemma om_erase_set: "om_inv m \<Longrightarrow> set (om_erase k m) = {p \<in> set m. fst p \<noteq> k}"
proof (induction k m rule: om_erase.induct)
  case (2 k j w m)
  then have "\<forall>i \<in> fst ` set m. j < i" by (auto simp: om_inv_Cons)
  with 2 show ?case by (auto simp: om_inv_Cons)
qed simp

end
