(* ===== verification/Logger.thy ===== *)
theory Logger
  imports Fmt Xtime Std_Map "HOL-Library.List_Lexorder" "HOL-Library.Char_ord"
begin

text \<open>
  The logger of \<open>src/src/xsix/log\<close>: \<open>Logger\<close> with its cache blocks, and \<open>LoggerManager\<close> with its
  registry of raw pointers. The file system is a map from paths to contents; whether \<open>fopen\<close> succeeds
  is an argument, as are the clock reading and the time zone rules. Loggers live in an object
  store, so that a pointer left in the registry can dangle. The call of \<open>printf\<close> on Windows is not
  modelled; it does not touch the logger.
\<close>

section \<open>Cache blocks\<close>

text \<open>A \<open>std::array\<close> of \<open>1024 * 1024\<close> characters: its size is its maximal size.\<close>

definition CACHE_BLOCK_SIZE :: nat where
  "CACHE_BLOCK_SIZE = 1024 * 1024"

definition get_available_cache_block :: "char list" where
  "get_available_cache_block = replicate CACHE_BLOCK_SIZE nul"

definition array_size :: "char list \<Rightarrow> int" where "array_size b = int (length b)"
definition array_max_size :: "char list \<Rightarrow> int" where "array_max_size b = int (length b)"

record logger =
  lg_has_manager :: bool
  lg_file_name :: string
  lg_file_path :: string
  lg_curr :: "char list option"
  lg_ready :: "char list list"

definition get_curr_cache_block_usable_size :: "logger \<Rightarrow> int" where
  "get_curr_cache_block_usable_size lg =
     (case lg_curr lg of
        None \<Rightarrow> 0
      | Some b \<Rightarrow> to_i32 (to_u64 (array_max_size b - array_size b - 1)))"

definition swap_cache_block :: "logger \<Rightarrow> logger" where
  "swap_cache_block lg =
     (case lg_curr lg of
        None \<Rightarrow> lg
      | Some b \<Rightarrow> lg\<lparr>lg_ready := lg_ready lg @ [b], lg_curr := Some get_available_cache_block\<rparr>)"

section \<open>Logger::log\<close>

definition log_prefix_format :: string where
  "log_prefix_format = CHR ''{'' # CHR 0x22 # ''logtime'' @ [CHR 0x22, CHR '':'', CHR 0x22, percent, CHR 0x22] @ '', ''"

definition log_suffix_format :: string where
  "log_suffix_format = [CHR ''}'', CHR 0x0A]"

text \<open>The three copies go to \<open>end()\<close> of the current block.\<close>

definition copy_to_end :: "char list \<Rightarrow> string \<Rightarrow> char list res" where
  "copy_to_end b s = mem_write b (array_size b) s"

definition logger_log :: "(int \<Rightarrow> tm option) \<Rightarrow> timeval \<Rightarrow> logger \<Rightarrow> string option \<Rightarrow> logger res" where
  "logger_log localtime tv lg logstr =
     (case logstr of
        None \<Rightarrow> Inr lg
      | Some s \<Rightarrow>
          bind_res (yymmhhmmss localtime (timestamp_now tv)) (\<lambda>ts.
          bind_res (fmt_args (replicate 64 nul) 0 64 log_prefix_format [Arg_String ts]) (\<lambda>log_prefix.
          bind_res (fmt_args (replicate 4 nul) 0 4 log_suffix_format []) (\<lambda>log_suffix.
          let logstr_size = int (length (c_str s));
              log_prefix_size = int (length (c_str log_prefix));
              log_suffix_size = int (length (c_str log_suffix));
              log_total_size = to_u64 (log_prefix_size + logstr_size + log_suffix_size);
              curr_usable_size = to_u64 (get_curr_cache_block_usable_size lg);
              lg = (if log_total_size \<ge> curr_usable_size then swap_cache_block lg else lg);
              curr_usable_size = to_u64 (get_curr_cache_block_usable_size lg)
          in if log_total_size < curr_usable_size then
               (case lg_curr lg of
                  None \<Rightarrow> Inl Null_Deref
                | Some b \<Rightarrow>
                    bind_res (copy_to_end b (c_str log_prefix)) (\<lambda>b.
                    bind_res (copy_to_end b (c_str s)) (\<lambda>b.
                    bind_res (copy_to_end b (c_str log_suffix)) (\<lambda>b.
                    Inr (lg\<lparr>lg_curr := Some b\<rparr>)))))
             else Inr lg))))"

text \<open>The function template \<open>xsix::log\<close>.\<close>

definition log_fmt ::
    "(int \<Rightarrow> tm option) \<Rightarrow> timeval \<Rightarrow> logger \<Rightarrow> string \<Rightarrow> fmt_arg list \<Rightarrow> logger res" where
  "log_fmt localtime tv lg format args =
     bind_res (fmt_args (replicate 4096 nul) 0 4096 format args) (\<lambda>tmpbuf.
     logger_log localtime tv lg (Some (c_str tmpbuf)))"

section \<open>Logger::flush\<close>

type_synonym files = "string \<Rightarrow> string"

definition logger_flush :: "bool \<Rightarrow> logger \<Rightarrow> files \<Rightarrow> logger \<times> files" where
  "logger_flush fopen_ok lg fs =
     (let lg = swap_cache_block lg in
      if fopen_ok then
        (lg\<lparr>lg_ready := []\<rparr>,
         fs(lg_file_path lg := fold (\<lambda>ptr out. out @ ptr) (lg_ready lg) (fs (lg_file_path lg))))
      else (lg, fs))"

section \<open>LoggerManager\<close>

record logger_manager =
  lm_log_root_path :: string
  lm_logger_map :: "(string \<times> nat) list"

record log_world =
  lw_objects :: "nat \<Rightarrow> logger option"
  lw_manager :: logger_manager
  lw_files :: files

definition logger_manager_ctor :: "string \<Rightarrow> logger_manager" where
  "logger_manager_ctor log_root_dir_path = \<lparr> lm_log_root_path = log_root_dir_path, lm_logger_map = [] \<rparr>"

definition g_logger_manager :: logger_manager where
  "g_logger_manager = logger_manager_ctor ''log''"

definition get_logger_count :: "logger_manager \<Rightarrow> nat" where
  "get_logger_count m = length (lm_logger_map m)"

definition add_logger :: "logger_manager \<Rightarrow> (nat \<times> string) option \<Rightarrow> logger_manager" where
  "add_logger m lg =
     (case lg of
        None \<Rightarrow> m
      | Some (addr, name) \<Rightarrow>
          (case om_find (lm_logger_map m) name of
             None \<Rightarrow> m\<lparr>lm_logger_map := om_insert name addr (lm_logger_map m)\<rparr>
           | Some _ \<Rightarrow> m))"

definition remove_logger :: "logger_manager \<Rightarrow> string \<Rightarrow> logger_manager" where
  "remove_logger m logger_name =
     (case om_find (lm_logger_map m) logger_name of
        None \<Rightarrow> m
      | Some _ \<Rightarrow> m\<lparr>lm_logger_map := om_erase logger_name (lm_logger_map m)\<rparr>)"

definition logger_ctor :: "log_world \<Rightarrow> nat \<Rightarrow> string \<Rightarrow> bool \<Rightarrow> log_world" where
  "logger_ctor w addr log_file_name has_manager =
     (let lg = \<lparr> lg_has_manager = has_manager, lg_file_name = log_file_name,
                 lg_file_path = ''./log/'' @ log_file_name @ ''.log'',
                 lg_curr = Some get_available_cache_block, lg_ready = [] \<rparr>;
          w = w\<lparr>lw_objects := (lw_objects w)(addr := Some lg)\<rparr>
      in if has_manager
         then w\<lparr>lw_manager := add_logger (lw_manager w) (Some (addr, log_file_name))\<rparr>
         else w)"

text \<open>A flush through a pointer; a pointer to a destroyed logger is used after its end.\<close>

definition flush_at :: "(string \<Rightarrow> bool) \<Rightarrow> nat \<Rightarrow> log_world \<Rightarrow> log_world res" where
  "flush_at fopen_ok addr w =
     (case lw_objects w addr of
        None \<Rightarrow> Inl Use_After_Free
      | Some lg \<Rightarrow>
          let (lg', fs') = logger_flush (fopen_ok (lg_file_path lg)) lg (lw_files w)
          in Inr (w\<lparr>lw_objects := (lw_objects w)(addr := Some lg'), lw_files := fs'\<rparr>))"

definition logger_dtor :: "(string \<Rightarrow> bool) \<Rightarrow> log_world \<Rightarrow> nat \<Rightarrow> log_world res" where
  "logger_dtor fopen_ok w addr =
     bind_res (flush_at fopen_ok addr w) (\<lambda>w.
     Inr (w\<lparr>lw_objects := (lw_objects w)(addr := None)\<rparr>))"

fun flush_loop :: "(string \<Rightarrow> bool) \<Rightarrow> (string \<times> nat) list \<Rightarrow> log_world \<Rightarrow> log_world res" where
  "flush_loop fopen_ok [] w = Inr w"
| "flush_loop fopen_ok ((name, addr) # m) w =
     bind_res (flush_at fopen_ok addr w) (\<lambda>w. flush_loop fopen_ok m w)"

definition flush_all_logger :: "(string \<Rightarrow> bool) \<Rightarrow> log_world \<Rightarrow> log_world res" where
  "flush_all_logger fopen_ok w = flush_loop fopen_ok (lm_logger_map (lw_manager w)) w"

section \<open>Lemmas\<close>

lemma to_u64_minus_one: "to_u64 (to_i32 (to_u64 (- 1))) = 2 ^ 64 - 1"
  by (simp add: to_u64_def to_i32_def)

lemma usable_size: "lg_curr lg = Some b \<Longrightarrow> to_u64 (get_curr_cache_block_usable_size lg) = 2 ^ 64 - 1"
  by (simp add: get_curr_cache_block_usable_size_def array_max_size_def array_size_def to_u64_minus_one)

lemma copy_to_end_overflows: "s \<noteq> [] \<Longrightarrow> copy_to_end b s = Inl Out_Of_Bounds"
  by (simp add: copy_to_end_def mem_write_def array_size_def)

lemma log_prefix_pattern:
  "log_prefix_format = pattern (CHR ''{'' # CHR 0x22 # ''logtime'' @ [CHR 0x22, CHR '':'', CHR 0x22]) [CHR 0x22 # '', '']"
  by (simp add: log_prefix_format_def pattern_def)

lemma log_prefix_text:
  assumes "length ts < 48"
  shows "\<exists>buf. fmt_args (replicate 64 nul) 0 64 log_prefix_format [Arg_String ts] = Inr buf \<and> c_str buf \<noteq> []"
proof -
  let ?p = "CHR ''{'' # CHR 0x22 # ''logtime'' @ [CHR 0x22, CHR '':'', CHR 0x22]"
  let ?ps = "[CHR 0x22 # '', '']"
  have len: "length (expansion ?p ?ps [Arg_String ts]) < 63"
  proof -
    have "length (c_str ts) \<le> length ts" by (simp add: c_str_def length_takeWhile_le)
    with assms show ?thesis by (simp add: expansion_def)
  qed
  have "\<exists>T. fmt_args ([] @ replicate 64 nul) (int (length ([] :: string))) (int (Suc 63)) (pattern ?p ?ps) [Arg_String ts] =
      Inr ([] @ expansion ?p ?ps [Arg_String ts] @ nul # T)"
    by (rule fmt_args_expands) (use len in \<open>simp_all add: percent_def\<close>)
  then obtain T where "fmt_args (replicate 64 nul) 0 64 log_prefix_format [Arg_String ts] =
      Inr (expansion ?p ?ps [Arg_String ts] @ nul # T)"
    unfolding log_prefix_pattern by auto
  moreover have "c_str (expansion ?p ?ps [Arg_String ts] @ nul # T) \<noteq> []"
    by (simp add: expansion_def c_str_def nul_def)
  ultimately show ?thesis by blast
qed

lemma log_suffix_text: "\<exists>buf. fmt_args (replicate 4 nul) 0 4 log_suffix_format [] = Inr buf \<and> length buf = 4"
proof -
  have "\<exists>T. fmt_end ([] @ replicate 4 nul) (int (length ([] :: string))) (int (Suc 3)) log_suffix_format =
      Inr ([] @ take 3 log_suffix_format @ nul # T @ drop (Suc 3) (replicate 4 nul)) \<and>
      length T = 3 - min (length log_suffix_format) 3"
    by (rule fmt_end_at) (simp_all add: log_suffix_format_def percent_def)
  then show ?thesis by (auto simp: log_suffix_format_def)
qed

lemma logger_log_overflows:
  assumes "lg_curr lg = Some b" and "yymmhhmmss localtime (timestamp_now tv) = Inr ts"
    and "length ts < 48" and "length s < 2 ^ 63"
  shows "logger_log localtime tv lg (Some s) = Inl Out_Of_Bounds"
proof -
  obtain pb where pb: "fmt_args (replicate 64 nul) 0 64 log_prefix_format [Arg_String ts] = Inr pb"
    "c_str pb \<noteq> []" using log_prefix_text [OF assms(3)] by blast
  obtain sb where sb: "fmt_args (replicate 4 nul) 0 4 log_suffix_format [] = Inr sb" "length sb = 4"
    using log_suffix_text by blast
  have "length pb = 64"
  proof -
    have "fmt_safe (Suc 63) [] (replicate 64 nul)
        (fmt_args ([] @ replicate 64 nul) (int (length ([] :: string))) (int (Suc 63)) log_prefix_format [Arg_String ts])"
      by (rule fmt_safe_all(1)) simp_all
    with pb(1) show ?thesis by (simp add: fmt_safe_def)
  qed
  then have "length (c_str pb) \<le> 64" "length (c_str sb) \<le> 4" "length (c_str s) \<le> length s"
    using sb(2) length_takeWhile_le unfolding c_str_def by metis+
  then have total: "to_u64 (int (length (c_str pb)) + int (length (c_str s)) + int (length (c_str sb))) < 2 ^ 64 - 1"
    using assms(4) by simp
  show ?thesis
    using assms(1,2) pb sb total usable_size [OF assms(1)] copy_to_end_overflows [OF pb(2), of b]
    by (simp add: logger_log_def Let_def)
qed

fun flush_history :: "bool list \<Rightarrow> logger \<Rightarrow> files \<Rightarrow> logger \<times> files" where
  "flush_history [] lg fs = (lg, fs)"
| "flush_history (ok # oks) lg fs = (case logger_flush ok lg fs of (lg', fs') \<Rightarrow> flush_history oks lg' fs')"

lemma fold_append_concat: "fold (\<lambda>x out. out @ x) xs acc = acc @ concat xs"
  by (induction xs arbitrary: acc) auto

lemma logger_flush_step:
  assumes "lg_curr lg = Some b" and "logger_flush ok lg fs = (lg', fs')"
  shows "lg_curr lg' = Some get_available_cache_block \<and> lg_file_path lg' = lg_file_path lg \<and>
    fs' (lg_file_path lg) @ concat (lg_ready lg') = fs (lg_file_path lg) @ concat (lg_ready lg) @ b \<and>
    (ok \<longrightarrow> lg_ready lg' = []) \<and> (\<forall>p. p \<noteq> lg_file_path lg \<longrightarrow> fs' p = fs p)"
  using assms by (auto simp: logger_flush_def swap_cache_block_def Let_def fold_append_concat split: if_splits)

lemma flush_history_conserves:
  assumes "lg_curr lg = Some get_available_cache_block" and "flush_history oks lg fs = (lg', fs')"
  shows "lg_curr lg' = Some get_available_cache_block \<and>
    fs' (lg_file_path lg) @ concat (lg_ready lg') =
      fs (lg_file_path lg) @ concat (lg_ready lg) @ replicate (length oks * CACHE_BLOCK_SIZE) nul \<and>
    (oks \<noteq> [] \<and> last oks \<longrightarrow> lg_ready lg' = [])"
  using assms
proof (induction oks arbitrary: lg fs)
  case (Cons ok oks)
  obtain lg1 fs1 where st: "logger_flush ok lg fs = (lg1, fs1)" by force
  note step = logger_flush_step [OF Cons.prems(1) st]
  from Cons.prems(2) st have "flush_history oks lg1 fs1 = (lg', fs')" by simp
  with Cons.IH [of lg1 fs1] step have ih: "lg_curr lg' = Some get_available_cache_block \<and>
    fs' (lg_file_path lg) @ concat (lg_ready lg') =
      fs1 (lg_file_path lg) @ concat (lg_ready lg1) @ replicate (length oks * CACHE_BLOCK_SIZE) nul \<and>
    (oks \<noteq> [] \<and> last oks \<longrightarrow> lg_ready lg' = [])" by auto
  have "fs1 (lg_file_path lg) @ concat (lg_ready lg1) @ replicate (length oks * CACHE_BLOCK_SIZE) nul =
    (fs (lg_file_path lg) @ concat (lg_ready lg) @ get_available_cache_block) @
      replicate (length oks * CACHE_BLOCK_SIZE) nul"
    using step by (metis append_assoc)
  also have "\<dots> = fs (lg_file_path lg) @ concat (lg_ready lg) @
      replicate (length (ok # oks) * CACHE_BLOCK_SIZE) nul"
    by (simp add: get_available_cache_block_def replicate_add)
  finally have eq: "fs1 (lg_file_path lg) @ concat (lg_ready lg1) @ replicate (length oks * CACHE_BLOCK_SIZE) nul =
    fs (lg_file_path lg) @ concat (lg_ready lg) @ replicate (length (ok # oks) * CACHE_BLOCK_SIZE) nul" .
  have "lg_ready lg' = []" if "last (ok # oks)"
  proof (cases "oks = []")
    case True
    with Cons.prems(2) st step that show ?thesis by auto
  next
    case False
    with ih that show ?thesis by simp
  qed
  with ih eq show ?case by simp
qed simp

lemma flush_at_fault: "flush_at ok a w = Inl e \<Longrightarrow> e = Use_After_Free \<and> lw_objects w a = None"
  by (auto simp: flush_at_def split: option.splits prod.splits)

lemma flush_at_keeps:
  "flush_at ok a w = Inr w' \<Longrightarrow>
   (\<forall>x. (lw_objects w' x = None) = (lw_objects w x = None)) \<and> lw_manager w' = lw_manager w"
  by (auto simp: flush_at_def split: option.splits prod.splits if_splits)

lemma flush_loop_ok:
  "(\<exists>w'. flush_loop ok m w = Inr w') \<longleftrightarrow> (\<forall>(name, addr) \<in> set m. lw_objects w addr \<noteq> None)"
proof (induction ok m w rule: flush_loop.induct)
  case (2 ok name addr m w)
  show ?case
  proof (cases "flush_at ok addr w")
    case (Inl e)
    with flush_at_fault [OF Inl] show ?thesis by auto
  next
    case (Inr w1)
    then have "lw_objects w addr \<noteq> None" by (auto simp: flush_at_def split: option.splits)
    with Inr 2 [of w1] flush_at_keeps [OF Inr] show ?thesis by auto
  qed
qed simp

lemma flush_loop_fault: "flush_loop ok m w = Inl e \<Longrightarrow> e = Use_After_Free"
  by (induction ok m w rule: flush_loop.induct) (auto simp: bind_res_eq_Inl dest: flush_at_fault)

section \<open>Properties\<close>

text \<open>Logging writes outside the cache block. A \<open>std::array\<close> is always full, so the usable size is
  computed as -1, which as \<open>std::size_t\<close> exceeds every length: no block is ever swapped, and the
  prefix is copied to \<open>end()\<close>. Every call of \<open>Logger::log\<close> with a text on a constructed logger
  ends in an out-of-bounds store, whatever the text.\<close>

theorem logger_log_out_of_bounds:
  assumes "lg_curr lg = Some b" and "yymmhhmmss localtime (timestamp_now tv) = Inr ts"
    and "length ts < 48" and "length s < 2 ^ 63"
  shows "logger_log localtime tv lg (Some s) = Inl Out_Of_Bounds \<and>
    logger_log localtime tv lg None = Inr lg"
  using logger_log_overflows [OF assms] by (simp add: logger_log_def)

definition new_year :: tm where
  "new_year = \<lparr> tm_year = 70, tm_mon = 0, tm_mday = 1, tm_hour = 8, tm_min = 0, tm_sec = 0 \<rparr>"

lemma new_year_text: "yymmhhmmss (\<lambda>_. Some new_year) t = Inr ''1970-01-01 08:00:00''"
proof -
  have "strftime_text new_year = ''1970-01-01 08:00:00''" by code_simp
  then show ?thesis by (simp add: yymmhhmmss_def Let_def)
qed

theorem logger_log_out_of_bounds_witness:
  "logger_log (\<lambda>_. Some new_year) \<lparr> tv_sec = 0, tv_usec = 0 \<rparr>
     \<lparr> lg_has_manager = False, lg_file_name = ''a'', lg_file_path = ''./log/a.log'',
       lg_curr = Some [nul, nul], lg_ready = [] \<rparr> (Some ''hello'') = Inl Out_Of_Bounds"
  using logger_log_out_of_bounds [OF _ new_year_text] by simp


definition empty_log_world :: log_world where
  "empty_log_world = \<lparr> lw_objects = (\<lambda>_. None), lw_manager = g_logger_manager, lw_files = (\<lambda>_. []) \<rparr>"


text \<open>The registry of \<open>LoggerManager\<close> holds raw pointers that the destructor of \<open>Logger\<close> does not
  remove: \<open>flush_all_logger\<close> succeeds exactly when every registered logger is still alive, and after
  a logger that was registered under a free name is destroyed, it uses a dangling pointer.\<close>

theorem flush_all_needs_live_loggers:
  assumes "om_inv (lm_logger_map (lw_manager w))" and "om_find (lm_logger_map (lw_manager w)) name = None"
    and "logger_dtor ok1 (logger_ctor w addr name True) addr = Inr w'"
  shows "((\<exists>w1. flush_all_logger ok2 w = Inr w1) \<longleftrightarrow>
      (\<forall>(n, a) \<in> set (lm_logger_map (lw_manager w)). lw_objects w a \<noteq> None)) \<and>
    flush_all_logger ok2 w' = Inl Use_After_Free"
proof -
  let ?w = "logger_ctor w addr name True"
  from assms(3) obtain w1 where w1: "flush_at ok1 addr ?w = Inr w1"
    and w': "w' = w1\<lparr>lw_objects := (lw_objects w1)(addr := None)\<rparr>"
    by (auto simp: logger_dtor_def)
  have "lw_manager w' = lw_manager ?w" using flush_at_keeps [OF w1] w' by simp
  moreover have "(name, addr) \<in> set (lm_logger_map (lw_manager ?w))"
    using assms(1,2) by (simp add: logger_ctor_def Let_def add_logger_def om_insert_set)
  ultimately have "\<not> (\<exists>w2. flush_all_logger ok2 w' = Inr w2)"
    unfolding flush_all_logger_def flush_loop_ok using w' by auto
  moreover have "flush_all_logger ok2 w' = Inl Use_After_Free \<or> (\<exists>w2. flush_all_logger ok2 w' = Inr w2)"
    unfolding flush_all_logger_def using flush_loop_fault by (metis sum.exhaust)
  ultimately show ?thesis by (auto simp: flush_all_logger_def flush_loop_ok)
qed

theorem flush_all_needs_live_loggers_witness:
  "\<exists>w'. logger_dtor (\<lambda>_. True) (logger_ctor empty_log_world 1 ''a'' True) 1 = Inr w' \<and>
     flush_all_logger (\<lambda>_. True) w' = Inl Use_After_Free"
proof -
  have "\<exists>w'. logger_dtor (\<lambda>_. True) (logger_ctor empty_log_world 1 ''a'' True) 1 = Inr w'"
    by (simp add: logger_dtor_def flush_at_def logger_ctor_def logger_flush_def swap_cache_block_def Let_def)
  then obtain w' where d: "logger_dtor (\<lambda>_. True) (logger_ctor empty_log_world 1 ''a'' True) 1 = Inr w'"
    by blast
  have "flush_all_logger (\<lambda>_. True) w' = Inl Use_After_Free"
    using flush_all_needs_live_loggers [OF _ _ d]
    by (simp add: empty_log_world_def g_logger_manager_def logger_manager_ctor_def)
  with d show ?thesis by blast
qed

end
