(* ===== verification/Actor.thy ===== *)
theory Actor
  imports Std_Map
begin

text \<open>
  The actors of \<open>src/src/xsix/actor\<close> and of \<open>src/examples/actor/actor.cc\<close>. Actors live in a heap and
  are named by addresses (the shared pointers of the code); \<open>ActorCore\<close> keeps a map from ids to
  addresses. What a message does to an actor (\<open>IActorMessage::handle_msg\<close> is pure virtual) is a
  parameter \<open>hm\<close>. \<open>ActorCore::run\<close> and the workers of its thread pool interleave: every atomic
  operation on \<open>m_state\<close>, every critical section and every message is a step of its own.
\<close>

section \<open>actor_base.h and actor_base.cc\<close>

definition STATE_READY_TICK :: int where "STATE_READY_TICK = 0"
definition STATE_TICKING :: int where "STATE_TICKING = 1"

datatype actor_class = Actor_Base | Test_Actor

record ('m, 'd) actor =
  a_class :: actor_class
  a_id :: int
  a_state :: int
  a_msg_vec :: "'m option list"
  a_last_tick_timestamp :: "int option"
  a_data :: 'd

text \<open>The constructor leaves \<open>m_last_tick_timestamp\<close> uninitialised.\<close>

definition actor_ctor :: "actor_class \<Rightarrow> int \<Rightarrow> 'd \<Rightarrow> ('m, 'd) actor" where
  "actor_ctor c aid d =
     \<lparr> a_class = c, a_id = aid, a_state = STATE_READY_TICK, a_msg_vec = [],
       a_last_tick_timestamp = None, a_data = d \<rparr>"

definition set_id :: "int \<Rightarrow> ('m, 'd) actor \<Rightarrow> ('m, 'd) actor" where
  "set_id i a = a\<lparr>a_id := i\<rparr>"

definition set_state :: "int \<Rightarrow> ('m, 'd) actor \<Rightarrow> ('m, 'd) actor" where
  "set_state st a = a\<lparr>a_state := st\<rparr>"

definition set_last_tick_timestamp :: "int \<Rightarrow> ('m, 'd) actor \<Rightarrow> ('m, 'd) actor" where
  "set_last_tick_timestamp ts a = a\<lparr>a_last_tick_timestamp := Some ts\<rparr>"

definition get_last_tick_timestamp :: "('m, 'd) actor \<Rightarrow> int res" where
  "get_last_tick_timestamp a =
     (case a_last_tick_timestamp a of None \<Rightarrow> Inl Indeterminate_Read | Some ts \<Rightarrow> Inr ts)"

text \<open>\<open>get_tick_interval\<close> is virtual; the test actor of the example overrides it.\<close>

fun get_tick_interval :: "('m, 'd) actor \<Rightarrow> int res" where
  "get_tick_interval a =
     (case a_class a of
        Actor_Base \<Rightarrow> Inr 100
      | Test_Actor \<Rightarrow> chk_i32 (1000 * a_id a))"

definition actor_init :: "('m, 'd) actor \<Rightarrow> ('m, 'd) actor" where
  "actor_init a = set_state STATE_READY_TICK a"

definition ready_tick :: "('m, 'd) actor \<Rightarrow> int \<Rightarrow> bool res" where
  "ready_tick a ts =
     (if a_state a \<noteq> STATE_READY_TICK then Inr False
      else bind_res (get_last_tick_timestamp a) (\<lambda>lt.
           bind_res (chk_i64 (ts - lt)) (\<lambda>interval.
           bind_res (get_tick_interval a) (\<lambda>ti.
           if interval < ti then Inr False else Inr True))))"

definition addmsg :: "'m option \<Rightarrow> ('m, 'd) actor \<Rightarrow> ('m, 'd) actor" where
  "addmsg msgptr a = a\<lparr>a_msg_vec := a_msg_vec a @ [msgptr]\<rparr>"

fun handle_loop ::
    "('m \<Rightarrow> ('m, 'd) actor \<Rightarrow> ('m, 'd) actor) \<Rightarrow> 'm option list \<Rightarrow> ('m, 'd) actor \<Rightarrow> ('m, 'd) actor" where
  "handle_loop hm [] a = a"
| "handle_loop hm (msgptr # msglist) a =
     (case msgptr of
        None \<Rightarrow> handle_loop hm msglist a
      | Some m \<Rightarrow> handle_loop hm msglist (hm m a))"

definition handle_all_msg ::
    "('m \<Rightarrow> ('m, 'd) actor \<Rightarrow> ('m, 'd) actor) \<Rightarrow> ('m, 'd) actor \<Rightarrow> ('m, 'd) actor" where
  "handle_all_msg hm a = (let msglist = a_msg_vec a in handle_loop hm msglist a)"

text \<open>The test actor prints a line after the inherited \<open>tick\<close>; it changes nothing.\<close>

definition tick ::
    "('m \<Rightarrow> ('m, 'd) actor \<Rightarrow> ('m, 'd) actor) \<Rightarrow> ('m, 'd) actor \<Rightarrow> ('m, 'd) actor" where
  "tick hm a = handle_all_msg hm (set_state STATE_TICKING a)"

section \<open>actor_core.cc\<close>

text \<open>Control points of the thread in \<open>run\<close> and of a worker that executes a posted task.\<close>

datatype main_pc =
    M_now
  | M_visit "nat list" int
  | M_set_state nat "nat list" int
  | M_set_last nat "nat list" int
  | M_post nat "nat list" int
  | M_fault cerr

datatype 'm worker_pc =
    W_tick
  | W_copy
  | W_handle "'m option list"
  | W_ready

record ('m, 'd) actor_core =
  c_heap :: "nat \<Rightarrow> ('m, 'd) actor"
  c_actor_map :: "(int \<times> nat) list"
  c_threads :: nat
  c_queue :: "nat list"
  c_running :: "(nat \<times> 'm worker_pc) list"
  c_main :: main_pc

definition core_ctor :: "nat \<Rightarrow> (nat \<Rightarrow> ('m, 'd) actor) \<Rightarrow> ('m, 'd) actor_core" where
  "core_ctor n h =
     \<lparr> c_heap = h, c_actor_map = [], c_threads = n, c_queue = [], c_running = [], c_main = M_now \<rparr>"

definition register_actor :: "nat option \<Rightarrow> ('m, 'd) actor_core \<Rightarrow> ('m, 'd) actor_core" where
  "register_actor actor_ptr s =
     (case actor_ptr of
        None \<Rightarrow> s
      | Some p \<Rightarrow>
          let aid = a_id (c_heap s p) in
          (case om_find (c_actor_map s) aid of
             None \<Rightarrow> s\<lparr>c_actor_map := om_insert aid p (c_actor_map s)\<rparr>
           | Some _ \<Rightarrow> s))"

text \<open>One step of \<open>run\<close>; \<open>now\<close> is the clock reading, used where the loop starts a round.\<close>

fun run_step :: "int \<Rightarrow> ('m, 'd) actor_core \<Rightarrow> ('m, 'd) actor_core" where
  "run_step now s =
     (case c_main s of
        M_now \<Rightarrow> s\<lparr>c_main := M_visit (map snd (c_actor_map s)) now\<rparr>
      | M_visit [] t \<Rightarrow> s\<lparr>c_main := M_now\<rparr>
      | M_visit (p # ps) t \<Rightarrow>
          (case ready_tick (c_heap s p) t of
             Inl e \<Rightarrow> s\<lparr>c_main := M_fault e\<rparr>
           | Inr True \<Rightarrow> s\<lparr>c_main := M_set_state p ps t\<rparr>
           | Inr False \<Rightarrow> s\<lparr>c_main := M_visit ps t\<rparr>)
      | M_set_state p ps t \<Rightarrow>
          s\<lparr>c_heap := (c_heap s)(p := set_state STATE_TICKING (c_heap s p)), c_main := M_set_last p ps t\<rparr>
      | M_set_last p ps t \<Rightarrow>
          s\<lparr>c_heap := (c_heap s)(p := set_last_tick_timestamp t (c_heap s p)), c_main := M_post p ps t\<rparr>
      | M_post p ps t \<Rightarrow> s\<lparr>c_queue := c_queue s @ [p], c_main := M_visit ps t\<rparr>
      | M_fault e \<Rightarrow> s)"

declare run_step.simps [simp del]

text \<open>One step of the task: \<open>tick\<close> with \<open>handle_all_msg\<close>, then the state becomes ready again.\<close>

fun task_step ::
    "('m \<Rightarrow> ('m, 'd) actor \<Rightarrow> ('m, 'd) actor) \<Rightarrow> (nat \<Rightarrow> ('m, 'd) actor) \<Rightarrow> nat \<Rightarrow> 'm worker_pc \<Rightarrow>
     (nat \<Rightarrow> ('m, 'd) actor) \<times> 'm worker_pc option" where
  "task_step hm h p W_tick = (h(p := set_state STATE_TICKING (h p)), Some W_copy)"
| "task_step hm h p W_copy = (h, Some (W_handle (a_msg_vec (h p))))"
| "task_step hm h p (W_handle []) = (h, Some W_ready)"
| "task_step hm h p (W_handle (msgptr # msglist)) =
     (case msgptr of
        None \<Rightarrow> (h, Some (W_handle msglist))
      | Some m \<Rightarrow> (h(p := hm m (h p)), Some (W_handle msglist)))"
| "task_step hm h p W_ready = (h(p := set_state STATE_READY_TICK (h p)), None)"

inductive core_step ::
    "('m \<Rightarrow> ('m, 'd) actor \<Rightarrow> ('m, 'd) actor) \<Rightarrow> ('m, 'd) actor_core \<Rightarrow> ('m, 'd) actor_core \<Rightarrow> bool"
  for hm where
  run: "core_step hm s (run_step now s)"
| start: "c_queue s = p # q \<Longrightarrow> length (c_running s) < c_threads s \<Longrightarrow>
    core_step hm s (s\<lparr>c_queue := q, c_running := c_running s @ [(p, W_tick)]\<rparr>)"
| work: "c_running s = us @ (p, pc) # vs \<Longrightarrow> task_step hm (c_heap s) p pc = (h, Some pc') \<Longrightarrow>
    core_step hm s (s\<lparr>c_heap := h, c_running := us @ (p, pc') # vs\<rparr>)"
| finish: "c_running s = us @ (p, pc) # vs \<Longrightarrow> task_step hm (c_heap s) p pc = (h, None) \<Longrightarrow>
    core_step hm s (s\<lparr>c_heap := h, c_running := us @ vs\<rparr>)"
| message: "core_step hm s (s\<lparr>c_heap := (c_heap s)(p := addmsg msgptr (c_heap s p))\<rparr>)"

inductive core_reach ::
    "('m \<Rightarrow> ('m, 'd) actor \<Rightarrow> ('m, 'd) actor) \<Rightarrow> ('m, 'd) actor_core \<Rightarrow> ('m, 'd) actor_core \<Rightarrow> bool"
  for hm where
  refl: "core_reach hm s s"
| step: "core_reach hm s t \<Longrightarrow> core_step hm t u \<Longrightarrow> core_reach hm s u"

section \<open>The invariant: one task per ticking actor\<close>

definition announced :: "main_pc \<Rightarrow> nat \<Rightarrow> nat" where
  "announced m p =
     (case m of M_set_last q ps t \<Rightarrow> (if q = p then 1 else 0)
      | M_post q ps t \<Rightarrow> (if q = p then 1 else 0) | _ \<Rightarrow> 0)"

definition outstanding :: "('m, 'd) actor_core \<Rightarrow> nat \<Rightarrow> nat" where
  "outstanding s p =
     announced (c_main s) p + count_list (c_queue s) p + count_list (map fst (c_running s)) p"

definition task_inv :: "('m, 'd) actor_core \<Rightarrow> bool" where
  "task_inv s \<longleftrightarrow>
     (\<forall>p. a_state (c_heap s p) = STATE_READY_TICK \<and> outstanding s p = 0 \<or>
          a_state (c_heap s p) = STATE_TICKING \<and> outstanding s p = 1) \<and>
     (\<forall>p ps t. c_main s = M_set_state p ps t \<longrightarrow> a_state (c_heap s p) = STATE_READY_TICK)"

lemmas state_defs = STATE_READY_TICK_def STATE_TICKING_def set_state_def set_last_tick_timestamp_def
  addmsg_def

lemma count_list_append [simp]: "count_list (xs @ ys) x = count_list xs x + count_list ys x"
  by (induction xs) auto

lemma task_inv_D:
  assumes "task_inv s"
  shows "a_state (c_heap s p) = STATE_READY_TICK \<and> outstanding s p = 0 \<or>
    a_state (c_heap s p) = STATE_TICKING \<and> outstanding s p = 1"
  using assms by (auto simp: task_inv_def)

lemma ready_tick_state: "ready_tick a t = Inr True \<Longrightarrow> a_state a = STATE_READY_TICK"
  by (auto simp: ready_tick_def split: if_splits)

lemma task_inv_cong:
  assumes "task_inv s" and "\<forall>p. a_state (c_heap t p) = a_state (c_heap s p)"
    and "\<forall>p. outstanding t p = outstanding s p"
    and "\<forall>p ps u. c_main t = M_set_state p ps u \<longrightarrow> a_state (c_heap s p) = STATE_READY_TICK"
  shows "task_inv t"
  using assms by (auto simp: task_inv_def)

lemma run_step_inv:
  assumes inv: "task_inv s"
  shows "task_inv (run_step now s)"
proof (cases "c_main s")
  case M_now
  with inv show ?thesis
    by (intro task_inv_cong [OF inv]) (auto simp: run_step.simps outstanding_def announced_def)
next
  case (M_visit ps t)
  with inv show ?thesis
    by (intro task_inv_cong [OF inv])
      (auto simp: run_step.simps outstanding_def announced_def dest: ready_tick_state
        split: list.splits sum.splits bool.splits)
next
  case (M_set_state p ps t)
  with inv have st: "a_state (c_heap s p) = STATE_READY_TICK" by (auto simp: task_inv_def)
  with task_inv_D [OF inv, of p] have o: "outstanding s p = 0"
    by (auto simp: STATE_READY_TICK_def STATE_TICKING_def)
  have "outstanding (run_step now s) q = outstanding s q + (if q = p then 1 else 0)" for q
    using M_set_state by (auto simp: run_step.simps outstanding_def announced_def)
  moreover have "c_heap (run_step now s) = (c_heap s)(p := set_state STATE_TICKING (c_heap s p))"
    "c_main (run_step now s) = M_set_last p ps t" using M_set_state by (simp_all add: run_step.simps)
  ultimately show ?thesis
    using task_inv_D [OF inv] o by (auto simp: task_inv_def set_state_def)
next
  case (M_set_last p ps t)
  with inv show ?thesis
    by (intro task_inv_cong [OF inv])
      (auto simp: run_step.simps outstanding_def announced_def set_last_tick_timestamp_def)
next
  case (M_post p ps t)
  with inv show ?thesis
    by (intro task_inv_cong [OF inv]) (auto simp: run_step.simps outstanding_def announced_def)
qed (use inv in \<open>simp add: run_step.simps\<close>)

text \<open>A task never moves the state of another actor, and only its last step makes it ready.\<close>

lemma task_step_state:
  assumes "\<forall>m a. a_state (hm m a) = a_state a" and "task_step hm h p pc = (h', pc')"
  shows "(\<forall>q. q \<noteq> p \<longrightarrow> h' q = h q) \<and>
    (case pc' of None \<Rightarrow> a_state (h' p) = STATE_READY_TICK
     | Some _ \<Rightarrow> a_state (h' p) = a_state (h p) \<or> a_state (h' p) = STATE_TICKING)"
  using assms by (cases "(hm, h, p, pc)" rule: task_step.cases) (auto simp: set_state_def split: option.splits)

lemma core_step_inv:
  assumes hm: "\<forall>m a. a_state (hm m a) = a_state a" and "core_step hm s t" and inv: "task_inv s"
  shows "task_inv t"
  using assms(2)
proof (cases rule: core_step.cases)
  case (run now)
  with inv show ?thesis by (simp add: run_step_inv)
next
  case (start p q)
  with inv show ?thesis
    by (intro task_inv_cong [OF inv]) (auto simp: outstanding_def task_inv_def)
next
  case (work us p pc vs h pc')
  have "outstanding s p \<noteq> 0" using work by (simp add: outstanding_def)
  with task_inv_D [OF inv, of p] have st: "a_state (c_heap s p) = STATE_TICKING" by auto
  with inv have nm: "\<not> (\<exists>ps t. c_main s = M_set_state p ps t)"
    by (auto simp: task_inv_def STATE_READY_TICK_def STATE_TICKING_def)
  from task_step_state [OF hm work(3)] st
  have h: "\<forall>q. a_state (h q) = a_state (c_heap s q)" by (auto, metis)
  have "outstanding t q = outstanding s q" for q using work by (simp add: outstanding_def)
  with work inv h show ?thesis by (auto simp: task_inv_def)
next
  case (finish us p pc vs h)
  have o: "outstanding s p \<noteq> 0" using finish by (simp add: outstanding_def)
  with task_inv_D [OF inv, of p] have st: "a_state (c_heap s p) = STATE_TICKING" "outstanding s p = 1"
    by auto
  have ot: "outstanding t q = (if q = p then 0 else outstanding s q)" for q
    using finish st(2) by (auto simp: outstanding_def)
  from task_step_state [OF hm finish(3)]
  have "a_state (h p) = STATE_READY_TICK" "\<forall>q. q \<noteq> p \<longrightarrow> h q = c_heap s q" by auto
  with finish inv ot show ?thesis by (auto simp: task_inv_def) metis
next
  case (message p msgptr)
  with inv show ?thesis by (auto simp: task_inv_def outstanding_def addmsg_def)
qed

lemma core_reach_inv:
  assumes "\<forall>m a. a_state (hm m a) = a_state a" and "core_reach hm s t" and "task_inv s"
  shows "task_inv t"
  using assms(2,3)
proof (induction rule: core_reach.induct)
  case (step s t u)
  with core_step_inv [OF assms(1)] show ?case by blast
qed

lemma register_keeps:
  "c_heap (register_actor p s) = c_heap s" "c_queue (register_actor p s) = c_queue s"
  "c_running (register_actor p s) = c_running s" "c_main (register_actor p s) = c_main s"
  by (auto simp: register_actor_def Let_def split: option.splits)

lemma registered_keeps:
  "c_heap (fold register_actor ps s) = c_heap s \<and> c_queue (fold register_actor ps s) = c_queue s \<and>
   c_running (fold register_actor ps s) = c_running s \<and> c_main (fold register_actor ps s) = c_main s"
  by (induction ps arbitrary: s) (simp_all add: register_keeps)

lemma fresh_core_inv:
  assumes "\<forall>p. a_state (h p) = STATE_READY_TICK"
  shows "task_inv (fold register_actor ps (core_ctor n h))"
  using assms registered_keeps [of ps "core_ctor n h"]
  by (simp add: task_inv_def outstanding_def announced_def core_ctor_def)

section \<open>Messages over many ticks\<close>

definition some_msgs :: "'m option list \<Rightarrow> 'm list" where
  "some_msgs xs = map the (filter (\<lambda>x. x \<noteq> None) xs)"

lemma handle_loop_fold: "handle_loop hm xs a = fold hm (some_msgs xs) a"
  by (induction hm xs a rule: handle_loop.induct) (auto simp: some_msgs_def split: option.splits)

text \<open>A task that runs to its end without interference executes \<open>tick\<close> and makes the actor ready.\<close>

fun run_task ::
    "nat \<Rightarrow> ('m \<Rightarrow> ('m, 'd) actor \<Rightarrow> ('m, 'd) actor) \<Rightarrow> (nat \<Rightarrow> ('m, 'd) actor) \<Rightarrow> nat \<Rightarrow>
     'm worker_pc option \<Rightarrow> (nat \<Rightarrow> ('m, 'd) actor) option" where
  "run_task n hm h p None = Some h"
| "run_task 0 hm h p (Some pc) = None"
| "run_task (Suc n) hm h p (Some pc) =
     (case task_step hm h p pc of (h', pc') \<Rightarrow> run_task n hm h' p pc')"

lemma run_task_handle:
  "length xs + 1 < n \<Longrightarrow>
   run_task n hm h p (Some (W_handle xs)) =
     Some (h(p := set_state STATE_READY_TICK (handle_loop hm xs (h p))))"
proof (induction xs arbitrary: n h)
  case Nil
  then obtain m where "n = Suc (Suc m)" by (auto dest: less_imp_Suc_add)
  then show ?case by (simp add: fun_upd_def)
next
  case (Cons x xs)
  then obtain m where n: "n = Suc m" by (cases n) auto
  with Cons show ?case by (cases x) auto
qed

lemma run_task_tick:
  assumes "length (a_msg_vec (h p)) + 3 < n"
  shows "run_task n hm h p (Some W_tick) = Some (h(p := set_state STATE_READY_TICK (tick hm (h p))))"
proof -
  from assms obtain m where n: "n = Suc (Suc m)" by (auto dest: less_imp_Suc_add)
  with assms run_task_handle [of "a_msg_vec (h p)" m hm "h(p := set_state STATE_TICKING (h p))" p]
  show ?thesis by (simp add: tick_def handle_all_msg_def Let_def set_state_def)
qed

lemma hm_fold:
  assumes "\<forall>m a. a_msg_vec (hm m a) = a_msg_vec a" and "\<forall>m st a. hm m (set_state st a) = set_state st (hm m a)"
  shows "a_msg_vec (fold hm ms a) = a_msg_vec a \<and> fold hm ms (set_state st a) = set_state st (fold hm ms a)"
  using assms by (induction ms arbitrary: a) auto

lemma concat_replicate_Suc: "concat (replicate (Suc k) xs) = concat (replicate k xs) @ xs"
  by (induction k) simp_all

lemma tick_again:
  assumes "\<forall>m a. a_msg_vec (hm m a) = a_msg_vec a" and "\<forall>m st a. hm m (set_state st a) = set_state st (hm m a)"
  shows "((\<lambda>a. set_state STATE_READY_TICK (tick hm a)) ^^ k) (set_state STATE_READY_TICK a) =
    set_state STATE_READY_TICK (fold hm (concat (replicate k (some_msgs (a_msg_vec a)))) a)"
proof (induction k)
  case (Suc k)
  let ?ms = "some_msgs (a_msg_vec a)"
  let ?b = "fold hm (concat (replicate k ?ms)) a"
  have mv: "a_msg_vec ?b = a_msg_vec a" using hm_fold [OF assms] by blast
  have sm: "a_msg_vec (set_state st x) = a_msg_vec x" "set_state st (set_state st' x) = set_state st x"
    for st st' and x :: "('a, 'b) actor" by (simp_all add: set_state_def)
  have "tick hm (set_state STATE_READY_TICK ?b) = set_state STATE_TICKING (fold hm ?ms ?b)"
    using hm_fold [OF assms] mv by (simp add: tick_def handle_all_msg_def Let_def handle_loop_fold sm)
  with Suc show ?case by (simp add: sm concat_replicate_Suc del: replicate_Suc)
qed simp

section \<open>Properties\<close>

text \<open>C5: No actor is ever ticked by two workers at once. Whatever the interleaving of \<open>run\<close>, of the
  workers of the pool and of senders, an actor has at most one task queued or running, and none while
  its state is \<open>STATE_READY_TICK\<close> (for messages that leave the state alone, and actors that start
  ready).\<close>

theorem actor_ticked_by_one_worker:
  assumes "\<forall>m a. a_state (hm m a) = a_state a" and "\<forall>p. a_state (h p) = STATE_READY_TICK"
    and "core_reach hm (fold register_actor ps (core_ctor n h)) s"
  shows "count_list (c_queue s) p + count_list (map fst (c_running s)) p \<le> 1 \<and>
    (a_state (c_heap s p) = STATE_READY_TICK \<longrightarrow> p \<notin> set (c_queue s) \<and> p \<notin> fst ` set (c_running s))"
proof -
  have inv: "task_inv s" using core_reach_inv [OF assms(1,3) fresh_core_inv [OF assms(2)]] .
  from task_inv_D [OF inv, of p]
  have le: "outstanding s p \<le> 1" and z: "a_state (c_heap s p) = STATE_READY_TICK \<Longrightarrow> outstanding s p = 0"
    by (auto simp: STATE_READY_TICK_def STATE_TICKING_def)
  from z show ?thesis
    using le by (auto simp: outstanding_def count_list_0_iff)
qed

definition demo_heap :: "nat \<Rightarrow> (nat, nat) actor" where
  "demo_heap p = set_last_tick_timestamp 0 (actor_ctor Actor_Base (int p) 0)"

definition demo_core :: "(nat, nat) actor_core" where
  "demo_core = register_actor (Some 1) (core_ctor 2 demo_heap)"

theorem actor_ticked_by_one_worker_witness:
  "\<exists>s. core_reach (\<lambda>m a. a\<lparr>a_data := a_data a + m\<rparr>) (fold register_actor [Some 1] (core_ctor 2 demo_heap)) s \<and>
     c_main s = M_visit [] 100 \<and> count_list (c_queue s) 1 + count_list (map fst (c_running s)) 1 \<le> 1 \<and>
     c_queue s = [1]"
proof -
  let ?hm = "\<lambda>m (a :: (nat, nat) actor). a\<lparr>a_data := a_data a + m\<rparr>"
  let ?init = "fold register_actor [Some 1] (core_ctor 2 demo_heap)"
  let ?s = "(run_step 100 ^^ 5) ?init"
  have reach: "core_reach ?hm s ((run_step 100 ^^ k) s)" for k s
    by (induction k) (auto intro: core_reach.intros core_step.run)
  have "c_main ?s = M_visit [] 100 \<and> c_queue ?s = [1]"
    by (simp add: run_step.simps numeral_eq_Suc register_actor_def core_ctor_def demo_heap_def actor_ctor_def
        ready_tick_def get_last_tick_timestamp_def chk_i64_def in_i64_def state_defs Let_def)
  moreover have "count_list (c_queue ?s) 1 + count_list (map fst (c_running ?s)) 1 \<le> 1"
    using actor_ticked_by_one_worker [OF _ _ reach [of ?init 5], of 1]
    by (simp add: demo_heap_def actor_ctor_def set_last_tick_timestamp_def)
  ultimately show ?thesis using reach [of ?init 5] by blast
qed

text \<open>A tick copies the message vector and never empties it, so every later tick handles every
  message again: after \<open>k\<close> ticks a message sent before the first has been handled \<open>k\<close> times (for
  messages that do not touch the vector or the state).\<close>

theorem actor_handles_messages_again:
  assumes "\<forall>m a. a_msg_vec (hm m a) = a_msg_vec a" and "\<forall>m st a. hm m (set_state st a) = set_state st (hm m a)"
  shows "((\<lambda>a. set_state STATE_READY_TICK (tick hm a)) ^^ k) (set_state STATE_READY_TICK a) =
    set_state STATE_READY_TICK (fold hm (concat (replicate k (some_msgs (a_msg_vec a)))) a)"
  using assms by (rule tick_again)

theorem actor_handles_messages_again_witness:
  "a_data (((\<lambda>a. set_state STATE_READY_TICK (tick (\<lambda>m a. a\<lparr>a_data := a_data a + m\<rparr>) a)) ^^ 3)
     (set_state STATE_READY_TICK (addmsg (Some 5) (actor_ctor Actor_Base 1 (0 :: nat))))) = 15"
  using actor_handles_messages_again [of "\<lambda>m a. a\<lparr>a_data := a_data a + m\<rparr>" 3
      "addmsg (Some 5) (actor_ctor Actor_Base 1 (0 :: nat))"]
  by (simp add: set_state_def addmsg_def actor_ctor_def some_msgs_def numeral_eq_Suc)

text \<open>The example program reads an indeterminate value: the constructor does not initialise the time
  of the last tick, and the first visit of \<open>run\<close> to a freshly constructed actor, whatever its
  class, id and the clock, subtracts it.\<close>

theorem actor_first_visit_uninitialised:
  "c_main ((run_step now ^^ 2) (register_actor (Some p) (core_ctor n (\<lambda>_. actor_ctor c i d)))) =
   M_fault Indeterminate_Read"
  by (simp add: run_step.simps numeral_eq_Suc register_actor_def core_ctor_def actor_ctor_def ready_tick_def
      get_last_tick_timestamp_def state_defs Let_def)

end
