(* ===== verification/Network.thy ===== *)
theory Network
  imports Std_Map
begin

text \<open>
  The TCP framework of \<open>src/src/xsix/network\<close>: \<open>TCPConnection\<close>, the class template \<open>TCPServer\<close> and
  \<open>TCPClient\<close>. Connection objects live in a heap and are named by addresses (the shared pointers);
  derived classes extend the connection record, and their virtual \<open>start\<close> and \<open>tick\<close> are arguments.
  The network itself is the environment: it completes a pending accept or connect with or without
  an error, and a round of \<open>poll\<close> may run any handlers.
\<close>

section \<open>tcp_connection.hpp\<close>

record tcp_connection =
  conn_id :: int
  conn_parent :: bool
  conn_open :: bool

record endpoint =
  ep_ip :: string
  ep_port :: int

definition conn_is_valid :: "'e tcp_connection_scheme \<Rightarrow> bool" where
  "conn_is_valid c = conn_open c"

definition conn_set_id :: "int \<Rightarrow> 'e tcp_connection_scheme \<Rightarrow> 'e tcp_connection_scheme" where
  "conn_set_id i c = c\<lparr>conn_id := i\<rparr>"

text \<open>\<open>local_endpoint()\<close> and \<open>remote_endpoint()\<close> throw when the socket has none.\<close>

definition conn_ip :: "endpoint option \<Rightarrow> string res" where
  "conn_ip ep = (case ep of None \<Rightarrow> Inl (Runtime_Error ''not connected'') | Some e \<Rightarrow> Inr (ep_ip e))"

definition conn_port :: "endpoint option \<Rightarrow> int res" where
  "conn_port ep = (case ep of None \<Rightarrow> Inl (Runtime_Error ''not connected'') | Some e \<Rightarrow> Inr (to_i32 (ep_port e)))"

definition conn_address :: "endpoint option \<Rightarrow> string res" where
  "conn_address ep =
     bind_res (conn_ip ep) (\<lambda>ip. bind_res (conn_port ep) (\<lambda>port.
     Inr (''('' @ ip @ '':'' @ dec_of_int port @ '')'')))"

text \<open>\<open>broadcast\<close> hands the message to the parent, when there is one.\<close>

definition conn_broadcast ::
    "('s \<Rightarrow> char list \<Rightarrow> int \<Rightarrow> 's res) \<Rightarrow> 'e tcp_connection_scheme \<Rightarrow> char list \<Rightarrow> int \<Rightarrow> 's \<Rightarrow> 's res" where
  "conn_broadcast parent_broadcast c msg msgsize s =
     (if conn_parent c then parent_broadcast s msg msgsize else Inr s)"

definition conn_handle_error :: "'e tcp_connection_scheme \<Rightarrow> 'e tcp_connection_scheme" where
  "conn_handle_error c = (if \<not> conn_open c then c else c\<lparr>conn_open := False\<rparr>)"

section \<open>tcp_server.hpp\<close>

record 'e tcp_server =
  sv_quit :: bool
  sv_acceptor_open :: bool
  sv_next_conn_id :: int
  sv_conn_map :: "(int \<times> nat) list"
  sv_heap :: "nat \<Rightarrow> 'e tcp_connection_scheme"
  sv_fresh :: nat
  sv_accepting :: "nat option"

definition server_ctor :: "(nat \<Rightarrow> 'e tcp_connection_scheme) \<Rightarrow> 'e tcp_server" where
  "server_ctor h =
     \<lparr> sv_quit = False, sv_acceptor_open = True, sv_next_conn_id = 0, sv_conn_map = [], sv_heap = h,
       sv_fresh = 0, sv_accepting = None \<rparr>"

definition get_conn :: "'e tcp_server \<Rightarrow> int \<Rightarrow> nat option" where
  "get_conn s connid = om_find (sv_conn_map s) connid"

definition add_conn :: "'e tcp_server \<Rightarrow> nat option \<Rightarrow> 'e tcp_server res" where
  "add_conn s connptr =
     (case connptr of
        None \<Rightarrow> Inr s
      | Some p \<Rightarrow>
          (case om_find (sv_conn_map s) (sv_next_conn_id s) of
             Some _ \<Rightarrow> Inr s
           | None \<Rightarrow>
               bind_res (chk_i32 (sv_next_conn_id s + 1)) (\<lambda>n.
               let h = (sv_heap s)(p := conn_set_id (sv_next_conn_id s) (sv_heap s p))
               in Inr (s\<lparr>sv_next_conn_id := n, sv_heap := h,
                         sv_conn_map := om_insert (conn_id (h p)) p (sv_conn_map s)\<rparr>))))"

definition remove_conn :: "'e tcp_server \<Rightarrow> int \<Rightarrow> 'e tcp_server" where
  "remove_conn s connid =
     (case om_find (sv_conn_map s) connid of
        None \<Rightarrow> s
      | Some _ \<Rightarrow> s\<lparr>sv_conn_map := om_erase connid (sv_conn_map s)\<rparr>)"

definition handle_accept_new_connection ::
    "('e tcp_connection_scheme \<Rightarrow> 'e tcp_connection_scheme) \<Rightarrow> 'e tcp_server \<Rightarrow> nat option \<Rightarrow>
     'e tcp_server res" where
  "handle_accept_new_connection start s connptr =
     (case connptr of
        None \<Rightarrow> Inr s
      | Some p \<Rightarrow>
          bind_res (add_conn s (Some p)) (\<lambda>s.
          Inr (s\<lparr>sv_heap := (sv_heap s)(p := start (sv_heap s p))\<rparr>)))"

definition handle_remove_connection :: "'e tcp_server \<Rightarrow> nat option \<Rightarrow> 'e tcp_server" where
  "handle_remove_connection s connptr =
     (case connptr of
        None \<Rightarrow> s
      | Some p \<Rightarrow> remove_conn s (conn_id (sv_heap s p)))"

text \<open>\<open>new ConnectionT(m_io_context, parent)\<close> at a fresh address; \<open>mk\<close> is the derived constructor.\<close>

definition create_new_connection :: "'e tcp_connection_scheme \<Rightarrow> 'e tcp_server \<Rightarrow> 'e tcp_server \<times> nat" where
  "create_new_connection mk s =
     (s\<lparr>sv_heap := (sv_heap s)(sv_fresh s := mk), sv_fresh := sv_fresh s + 1\<rparr>, sv_fresh s)"

definition async_accept :: "'e tcp_connection_scheme \<Rightarrow> 'e tcp_server \<Rightarrow> 'e tcp_server" where
  "async_accept mk s =
     (case create_new_connection mk s of (s, p) \<Rightarrow> s\<lparr>sv_accepting := Some p\<rparr>)"

text \<open>The completion handler of \<open>async_accept\<close>; on success the peer socket is open.\<close>

definition on_accept ::
    "('e tcp_connection_scheme \<Rightarrow> 'e tcp_connection_scheme) \<Rightarrow> 'e tcp_connection_scheme \<Rightarrow> bool \<Rightarrow>
     'e tcp_server \<Rightarrow> 'e tcp_server res" where
  "on_accept start mk ec s =
     (case sv_accepting s of
        None \<Rightarrow> Inr s
      | Some p \<Rightarrow>
          let s = s\<lparr>sv_accepting := None\<rparr> in
          if \<not> ec then
            let s = s\<lparr>sv_heap := (sv_heap s)(p := (sv_heap s p)\<lparr>conn_open := True\<rparr>)\<rparr> in
            bind_res (handle_accept_new_connection start s (Some p)) (\<lambda>s. Inr (async_accept mk s))
          else Inr s)"

definition server_start :: "'e tcp_connection_scheme \<Rightarrow> 'e tcp_server \<Rightarrow> 'e tcp_server" where
  "server_start mk s = async_accept mk s"

definition server_stop :: "'e tcp_server \<Rightarrow> 'e tcp_server" where
  "server_stop s = s\<lparr>sv_quit := False\<rparr>"

text \<open>One pass of the loop body: tick the valid connections, then remove the others.\<close>

fun tick_loop ::
    "('e tcp_connection_scheme \<Rightarrow> 'e tcp_connection_scheme) \<Rightarrow> (int \<times> nat) list \<Rightarrow> 'e tcp_server \<Rightarrow>
     nat list \<Rightarrow> 'e tcp_server \<times> nat list" where
  "tick_loop tick [] s invalid_connection = (s, invalid_connection)"
| "tick_loop tick ((k, p) # m) s invalid_connection =
     (if conn_is_valid (sv_heap s p)
      then tick_loop tick m (s\<lparr>sv_heap := (sv_heap s)(p := tick (sv_heap s p))\<rparr>) invalid_connection
      else tick_loop tick m s (invalid_connection @ [p]))"

fun remove_loop :: "nat list \<Rightarrow> 'e tcp_server \<Rightarrow> 'e tcp_server" where
  "remove_loop [] s = s"
| "remove_loop (p # ps) s = remove_loop ps (handle_remove_connection s (Some p))"

definition tick_and_reap ::
    "('e tcp_connection_scheme \<Rightarrow> 'e tcp_connection_scheme) \<Rightarrow> 'e tcp_server \<Rightarrow> 'e tcp_server" where
  "tick_and_reap tick s =
     (case tick_loop tick (sv_conn_map s) s [] of (s, invalid_connection) \<Rightarrow> remove_loop invalid_connection s)"

text \<open>The loop with a bound on its passes; \<open>poll k\<close> is what the handlers do in pass \<open>k\<close>.\<close>

fun loop_passes ::
    "nat \<Rightarrow> (nat \<Rightarrow> 'e tcp_server \<Rightarrow> 'e tcp_server res) \<Rightarrow>
     ('e tcp_connection_scheme \<Rightarrow> 'e tcp_connection_scheme) \<Rightarrow> nat \<Rightarrow> 'e tcp_server \<Rightarrow>
     'e tcp_server res option" where
  "loop_passes 0 poll tick k s = None"
| "loop_passes (Suc n) poll tick k s =
     (if sv_quit s then Some (Inr s)
      else if \<not> sv_acceptor_open s then Some (Inr s)
      else case poll k s of
             Inl e \<Rightarrow> Some (Inl e)
           | Inr s \<Rightarrow> loop_passes n poll tick (k + 1) (tick_and_reap tick s))"

definition server_loop ::
    "nat \<Rightarrow> (nat \<Rightarrow> 'e tcp_server \<Rightarrow> 'e tcp_server res) \<Rightarrow>
     ('e tcp_connection_scheme \<Rightarrow> 'e tcp_connection_scheme) \<Rightarrow> 'e tcp_server \<Rightarrow>
     'e tcp_server res option" where
  "server_loop fuel poll tick s = loop_passes fuel poll tick 0 (s\<lparr>sv_quit := False\<rparr>)"

section \<open>tcp_client.hpp\<close>

record 'e tcp_client =
  cl_quit :: bool
  cl_conn :: "'e tcp_connection_scheme"
  cl_connecting :: bool

definition client_ctor :: "'e tcp_connection_scheme \<Rightarrow> 'e tcp_client" where
  "client_ctor mk = \<lparr> cl_quit = False, cl_conn = mk, cl_connecting = False \<rparr>"

definition client_dtor :: "'e tcp_client \<Rightarrow> 'e tcp_client" where
  "client_dtor c =
     (if conn_open (cl_conn c) then c\<lparr>cl_conn := (cl_conn c)\<lparr>conn_open := False\<rparr>\<rparr> else c)"

text \<open>\<open>async_connect\<close> opens the socket when it starts.\<close>

definition async_connect :: "'e tcp_client \<Rightarrow> 'e tcp_client" where
  "async_connect c = c\<lparr>cl_conn := (cl_conn c)\<lparr>conn_open := True\<rparr>, cl_connecting := True\<rparr>"

definition on_connect ::
    "('e tcp_connection_scheme \<Rightarrow> 'e tcp_connection_scheme res) \<Rightarrow>
     ('e tcp_connection_scheme \<Rightarrow> 'e tcp_connection_scheme res) \<Rightarrow> bool \<Rightarrow> 'e tcp_client \<Rightarrow> 'e tcp_client res" where
  "on_connect established start ec c =
     (let c = c\<lparr>cl_connecting := False\<rparr> in
      if ec then Inr (c\<lparr>cl_conn := conn_handle_error (cl_conn c)\<rparr>)
      else bind_res (established (cl_conn c)) (\<lambda>cc.
           bind_res (start cc) (\<lambda>cc. Inr (c\<lparr>cl_conn := cc\<rparr>))))"

fun client_passes ::
    "nat \<Rightarrow> (nat \<Rightarrow> 'e tcp_client \<Rightarrow> 'e tcp_client res) \<Rightarrow> nat \<Rightarrow> 'e tcp_client \<Rightarrow> 'e tcp_client res option" where
  "client_passes 0 poll k c = None"
| "client_passes (Suc n) poll k c =
     (if cl_quit c then Some (Inr c)
      else if \<not> conn_open (cl_conn c) then Some (Inr c)
      else case poll k c of
             Inl e \<Rightarrow> Some (Inl e)
           | Inr c \<Rightarrow> client_passes n poll (k + 1) c)"

definition client_loop ::
    "nat \<Rightarrow> (nat \<Rightarrow> 'e tcp_client \<Rightarrow> 'e tcp_client res) \<Rightarrow> 'e tcp_client \<Rightarrow> 'e tcp_client res option" where
  "client_loop fuel poll c = client_passes fuel poll 0 (c\<lparr>cl_quit := False\<rparr>)"

section \<open>The invariant of the connection map\<close>

definition sv_inv :: "'e tcp_server \<Rightarrow> bool" where
  "sv_inv s \<longleftrightarrow>
     om_inv (sv_conn_map s) \<and> 0 \<le> sv_next_conn_id s \<and>
     (\<forall>(k, p) \<in> set (sv_conn_map s).
        conn_id (sv_heap s p) = k \<and> 0 \<le> k \<and> k < sv_next_conn_id s \<and> p < sv_fresh s) \<and>
     (\<forall>p. sv_accepting s = Some p \<longrightarrow> p < sv_fresh s \<and> p \<notin> snd ` set (sv_conn_map s))"

text \<open>
  What can happen to a server: an accept completes, a handler of a connection changes that
  connection (never its id), a pass of the loop body, \<open>stop\<close>, or the acceptor is closed.
\<close>

inductive sv_step ::
    "('e tcp_connection_scheme \<Rightarrow> 'e tcp_connection_scheme) \<Rightarrow> ('e tcp_connection_scheme \<Rightarrow> 'e tcp_connection_scheme) \<Rightarrow>
     'e tcp_connection_scheme \<Rightarrow> 'e tcp_server \<Rightarrow> 'e tcp_server \<Rightarrow> bool"
  for start tick mk where
  accepted: "on_accept start mk ec s = Inr t \<Longrightarrow> sv_step start tick mk s t"
| handler: "conn_id c = conn_id (sv_heap s p) \<Longrightarrow>
    sv_step start tick mk s (s\<lparr>sv_heap := (sv_heap s)(p := c)\<rparr>)"
| pass: "sv_step start tick mk s (tick_and_reap tick s)"
| stop: "sv_step start tick mk s (server_stop s)"
| close: "sv_step start tick mk s (s\<lparr>sv_acceptor_open := False\<rparr>)"

inductive sv_reach ::
    "('e tcp_connection_scheme \<Rightarrow> 'e tcp_connection_scheme) \<Rightarrow> ('e tcp_connection_scheme \<Rightarrow> 'e tcp_connection_scheme) \<Rightarrow>
     'e tcp_connection_scheme \<Rightarrow> (nat \<Rightarrow> 'e tcp_connection_scheme) \<Rightarrow> 'e tcp_server \<Rightarrow> bool"
  for start tick mk h where
  init: "sv_reach start tick mk h (server_start mk (server_ctor h))"
| step: "sv_reach start tick mk h s \<Longrightarrow> sv_step start tick mk s t \<Longrightarrow> sv_reach start tick mk h t"

lemma sv_inv_keys: "sv_inv s \<Longrightarrow> (k, p) \<in> set (sv_conn_map s) \<Longrightarrow>
   conn_id (sv_heap s p) = k \<and> 0 \<le> k \<and> k < sv_next_conn_id s \<and> p < sv_fresh s"
  by (auto simp: sv_inv_def)

lemma sv_inv_next_free: "sv_inv s \<Longrightarrow> om_find (sv_conn_map s) (sv_next_conn_id s) = None"
  by (auto simp: om_find_None dest: sv_inv_keys)

text \<open>Replacing an object keeps the invariant when its id stays.\<close>

lemma sv_inv_heap:
  "sv_inv s \<Longrightarrow> \<forall>p. conn_id (h p) = conn_id (sv_heap s p) \<Longrightarrow> sv_inv (s\<lparr>sv_heap := h\<rparr>)"
  by (auto simp: sv_inv_def)

lemma async_accept_inv: "sv_inv s \<Longrightarrow> sv_inv (async_accept mk s)"
  by (auto simp: async_accept_def create_new_connection_def sv_inv_def)

lemma add_conn_ok:
  assumes "sv_inv s" and "sv_next_conn_id s + 1 < 2 ^ 31"
  shows "add_conn s (Some p) =
    Inr (s\<lparr>sv_next_conn_id := sv_next_conn_id s + 1,
           sv_heap := (sv_heap s)(p := conn_set_id (sv_next_conn_id s) (sv_heap s p)),
           sv_conn_map := om_insert (sv_next_conn_id s) p (sv_conn_map s)\<rparr>)"
proof -
  have "in_i32 (sv_next_conn_id s + 1)" using assms by (simp add: sv_inv_def in_i32_def)
  then show ?thesis
    by (simp add: add_conn_def sv_inv_next_free [OF assms(1)] Let_def conn_set_id_def)
qed

lemma add_conn_full:
  assumes "sv_inv s" and "\<not> sv_next_conn_id s + 1 < 2 ^ 31"
  shows "add_conn s (Some p) = Inl Signed_Overflow"
  using assms by (simp add: add_conn_def sv_inv_next_free [OF assms(1)] chk_i32_def in_i32_def)

lemma add_conn_inv:
  assumes inv: "sv_inv s" and "sv_accepting s = None" and p: "p < sv_fresh s" "p \<notin> snd ` set (sv_conn_map s)"
    and "add_conn s (Some p) = Inr t"
  shows "sv_inv t \<and> sv_accepting t = None"
proof -
  have lt: "sv_next_conn_id s + 1 < 2 ^ 31" using add_conn_full [OF inv] assms(5) by fastforce
  have "set (om_insert (sv_next_conn_id s) p (sv_conn_map s)) =
      insert (sv_next_conn_id s, p) (set (sv_conn_map s))"
    by (rule om_insert_set) (rule sv_inv_next_free [OF inv])
  moreover have "conn_id (((sv_heap s)(p := conn_set_id n (sv_heap s p))) q) = k"
    if "(k, q) \<in> set (sv_conn_map s)" for k q n
    using p(2) that sv_inv_keys [OF inv that] by force
  moreover have "t = s\<lparr>sv_next_conn_id := sv_next_conn_id s + 1,
           sv_heap := (sv_heap s)(p := conn_set_id (sv_next_conn_id s) (sv_heap s p)),
           sv_conn_map := om_insert (sv_next_conn_id s) p (sv_conn_map s)\<rparr>"
    using add_conn_ok [OF inv lt, of p] assms(5) by simp
  moreover have "om_inv (om_insert (sv_next_conn_id s) p (sv_conn_map s))" "0 \<le> sv_next_conn_id s"
    using inv by (auto simp: sv_inv_def om_inv_insert)
  ultimately show ?thesis
    using assms(2) p by (auto simp: sv_inv_def conn_set_id_def image_iff dest: sv_inv_keys [OF inv])
qed

lemma accept_inv:
  assumes ids: "\<forall>c. conn_id (start c) = conn_id c" and inv: "sv_inv s" and "on_accept start mk ec s = Inr t"
  shows "sv_inv t"
proof (cases "sv_accepting s")
  case None
  with inv assms(3) show ?thesis by (simp add: on_accept_def)
next
  case (Some p)
  let ?s = "s\<lparr>sv_accepting := None, sv_heap := (sv_heap s)(p := (sv_heap s p)\<lparr>conn_open := True\<rparr>)\<rparr>"
  have p: "p < sv_fresh s" "p \<notin> snd ` set (sv_conn_map s)" using inv Some by (auto simp: sv_inv_def)
  show ?thesis
  proof (cases ec)
    case True
    with Some inv assms(3) show ?thesis by (auto simp: on_accept_def Let_def sv_inv_def)
  next
    case False
    have open_inv: "sv_inv ?s" using inv by (auto simp: sv_inv_def)
    from assms(3) Some False obtain u where u: "add_conn ?s (Some p) = Inr u"
      and t: "t = async_accept mk (u\<lparr>sv_heap := (sv_heap u)(p := start (sv_heap u p))\<rparr>)"
      by (auto simp: on_accept_def Let_def handle_accept_new_connection_def)
    have "sv_inv u" using add_conn_inv [OF open_inv _ _ _ u] p by simp
    then have "sv_inv (u\<lparr>sv_heap := (sv_heap u)(p := start (sv_heap u p))\<rparr>)"
      by (rule sv_inv_heap) (simp add: ids)
    with t show ?thesis by (simp add: async_accept_inv)
  qed
qed

text \<open>
  The tick pass changes only the valid connections, keeps every id, and collects the addresses of the
  invalid ones.
\<close>

lemma tick_loop_effect:
  assumes "\<forall>c. conn_id (tick c) = conn_id c" and "distinct (map snd m)"
  shows "\<exists>h. tick_loop tick m s acc = (s\<lparr>sv_heap := h\<rparr>,
      acc @ map snd (filter (\<lambda>(k, p). \<not> conn_open (sv_heap s p)) m)) \<and>
    (\<forall>p. conn_id (h p) = conn_id (sv_heap s p))"
  using assms(2)
proof (induction m arbitrary: s acc)
  case Nil
  show ?case by (intro exI [of _ "sv_heap s"]) simp
next
  case (Cons kp m)
  obtain k p where kp: "kp = (k, p)" by (cases kp)
  show ?case
  proof (cases "conn_open (sv_heap s p)")
    case True
    let ?s = "s\<lparr>sv_heap := (sv_heap s)(p := tick (sv_heap s p))\<rparr>"
    from Cons.IH [of ?s acc] Cons.prems kp obtain h where h: "tick_loop tick m ?s acc = (?s\<lparr>sv_heap := h\<rparr>,
        acc @ map snd (filter (\<lambda>(k, p). \<not> conn_open (sv_heap ?s p)) m))"
      "\<forall>q. conn_id (h q) = conn_id (sv_heap ?s q)" by auto
    have "filter (\<lambda>(k, q). \<not> conn_open (sv_heap ?s q)) m = filter (\<lambda>(k, q). \<not> conn_open (sv_heap s q)) m"
      using Cons.prems kp by (intro filter_cong) force+
    with h True kp assms(1) show ?thesis
      by (intro exI [of _ h]) (auto simp: conn_is_valid_def split: if_splits)
  next
    case False
    from Cons.IH [of s "acc @ [p]"] Cons.prems kp obtain h where "tick_loop tick m s (acc @ [p]) = (s\<lparr>sv_heap := h\<rparr>,
        (acc @ [p]) @ map snd (filter (\<lambda>(k, p). \<not> conn_open (sv_heap s p)) m))"
      "\<forall>q. conn_id (h q) = conn_id (sv_heap s q)" by auto
    with False kp show ?thesis by (intro exI [of _ h]) (auto simp: conn_is_valid_def)
  qed
qed

lemma sv_inv_distinct: "sv_inv s \<Longrightarrow> distinct (map snd (sv_conn_map s))"
proof -
  assume inv: "sv_inv s"
  then have "distinct (map fst (sv_conn_map s))"
    by (auto simp: sv_inv_def om_inv_def strict_sorted_iff)
  then have d: "distinct (sv_conn_map s)" by (simp add: distinct_map)
  have "inj_on snd (set (sv_conn_map s))"
    by (rule inj_onI) (metis inv prod.collapse sv_inv_keys)
  with d show ?thesis by (simp add: distinct_map)
qed

lemma remove_loop_effect:
  assumes "om_inv (sv_conn_map s)"
  shows "\<exists>m. remove_loop ps s = s\<lparr>sv_conn_map := m\<rparr> \<and> om_inv m \<and>
    set m = {(k, p) \<in> set (sv_conn_map s). k \<notin> (\<lambda>q. conn_id (sv_heap s q)) ` set ps}"
  using assms
proof (induction ps arbitrary: s)
  case Nil
  then show ?case by (intro exI [of _ "sv_conn_map s"]) auto
next
  case (Cons p ps)
  let ?k = "conn_id (sv_heap s p)"
  have r: "handle_remove_connection s (Some p) = s\<lparr>sv_conn_map := om_erase ?k (sv_conn_map s)\<rparr>"
    by (auto simp: handle_remove_connection_def remove_conn_def om_erase_absent split: option.splits)
  from Cons.IH [of "s\<lparr>sv_conn_map := om_erase ?k (sv_conn_map s)\<rparr>"] Cons.prems
  show ?case by (fastforce simp: r om_inv_erase om_erase_set)
qed

lemma tick_and_reap_effect:
  assumes ids: "\<forall>c. conn_id (tick c) = conn_id c" and inv: "sv_inv s"
  shows "\<exists>h m. tick_and_reap tick s = s\<lparr>sv_heap := h, sv_conn_map := m\<rparr> \<and> om_inv m \<and>
    (\<forall>p. conn_id (h p) = conn_id (sv_heap s p)) \<and>
    set m = {(k, p) \<in> set (sv_conn_map s). conn_open (sv_heap s p)}"
proof -
  let ?bad = "map snd (filter (\<lambda>(k, p). \<not> conn_open (sv_heap s p)) (sv_conn_map s))"
  obtain h where h: "tick_loop tick (sv_conn_map s) s [] = (s\<lparr>sv_heap := h\<rparr>, ?bad)"
    "\<forall>p. conn_id (h p) = conn_id (sv_heap s p)"
    using tick_loop_effect [OF ids sv_inv_distinct [OF inv], of s "[]"] by auto
  obtain m where m: "remove_loop ?bad (s\<lparr>sv_heap := h\<rparr>) = s\<lparr>sv_heap := h\<rparr>\<lparr>sv_conn_map := m\<rparr>" "om_inv m"
    "set m = {(k, p) \<in> set (sv_conn_map s). k \<notin> (\<lambda>q. conn_id (h q)) ` set ?bad}"
    using remove_loop_effect [of "s\<lparr>sv_heap := h\<rparr>" ?bad] inv by (auto simp: sv_inv_def)
  have uniq: "p = q" if "(k, p) \<in> set (sv_conn_map s)" "(k, q) \<in> set (sv_conn_map s)" for k p q
    using that inv by (metis om_find_mem option.inject sv_inv_def)
  have "k \<in> (\<lambda>q. conn_id (h q)) ` set ?bad \<longleftrightarrow> (\<exists>q. (k, q) \<in> set (sv_conn_map s) \<and> \<not> conn_open (sv_heap s q))"
    for k
    using sv_inv_keys [OF inv] h(2) by (force simp: image_iff)
  then have "k \<in> (\<lambda>q. conn_id (h q)) ` set ?bad \<longleftrightarrow> \<not> conn_open (sv_heap s p)"
    if "(k, p) \<in> set (sv_conn_map s)" for k p
    using that uniq by blast
  then have "set m = {(k, p) \<in> set (sv_conn_map s). conn_open (sv_heap s p)}" unfolding m(3) by auto
  moreover have "tick_and_reap tick s = s\<lparr>sv_heap := h, sv_conn_map := m\<rparr>"
    by (simp add: tick_and_reap_def h m)
  ultimately show ?thesis using m(2) h(2) by blast
qed

lemma tick_and_reap_inv:
  assumes ids: "\<forall>c. conn_id (tick c) = conn_id c" and inv: "sv_inv s"
  shows "sv_inv (tick_and_reap tick s)"
proof -
  from tick_and_reap_effect [OF ids inv] obtain h m where
    t: "tick_and_reap tick s = s\<lparr>sv_heap := h, sv_conn_map := m\<rparr>" and m: "om_inv m"
    "set m = {(k, p) \<in> set (sv_conn_map s). conn_open (sv_heap s p)}"
    and h: "\<forall>p. conn_id (h p) = conn_id (sv_heap s p)" by blast
  have "\<forall>(k, p) \<in> set m. conn_id (h p) = k \<and> 0 \<le> k \<and> k < sv_next_conn_id s \<and> p < sv_fresh s"
    unfolding m(2) using h sv_inv_keys [OF inv] by auto
  moreover have "snd ` set m \<subseteq> snd ` set (sv_conn_map s)" unfolding m(2) by force
  then have "\<forall>p. sv_accepting s = Some p \<longrightarrow> p < sv_fresh s \<and> p \<notin> snd ` set m"
    using inv unfolding sv_inv_def by blast
  ultimately show ?thesis
    unfolding t sv_inv_def using m(1) inv [unfolded sv_inv_def] by simp
qed

lemma sv_step_inv:
  assumes "\<forall>c. conn_id (start c) = conn_id c" and "\<forall>c. conn_id (tick c) = conn_id c"
    and "sv_step start tick mk s t" and "sv_inv s"
  shows "sv_inv t"
  using assms(3)
proof (cases rule: sv_step.cases)
  case (accepted ec)
  then show ?thesis using accept_inv [OF assms(1,4)] by blast
next
  case (handler c p)
  then show ?thesis using sv_inv_heap [OF assms(4)] by simp
next
  case pass
  then show ?thesis using tick_and_reap_inv [OF assms(2,4)] by simp
qed (use assms(4) in \<open>auto simp: server_stop_def sv_inv_def\<close>)

lemma sv_reach_inv:
  assumes "\<forall>c. conn_id (start c) = conn_id c" and "\<forall>c. conn_id (tick c) = conn_id c"
    and "sv_reach start tick mk h s"
  shows "sv_inv s"
  using assms(3)
proof (induction rule: sv_reach.induct)
  case init
  have "sv_inv (server_ctor h)" by (simp add: server_ctor_def sv_inv_def)
  then show ?case by (simp add: server_start_def async_accept_inv)
next
  case (step s t)
  then show ?case using sv_step_inv [OF assms(1,2)] by blast
qed

lemma tick_loop_flags:
  "tick_loop tick m s acc = (t, bad) \<Longrightarrow>
   sv_quit t = sv_quit s \<and> sv_acceptor_open t = sv_acceptor_open s"
  by (induction tick m s acc rule: tick_loop.induct) (auto split: if_splits)

lemma remove_loop_flags:
  "sv_quit (remove_loop ps s) = sv_quit s \<and> sv_acceptor_open (remove_loop ps s) = sv_acceptor_open s"
  by (induction ps s rule: remove_loop.induct)
    (auto simp: handle_remove_connection_def remove_conn_def split: option.splits)

lemma tick_and_reap_flags:
  "sv_quit (tick_and_reap tick s) = sv_quit s \<and> sv_acceptor_open (tick_and_reap tick s) = sv_acceptor_open s"
proof -
  obtain t bad where t: "tick_loop tick (sv_conn_map s) s [] = (t, bad)" by force
  from tick_loop_flags [OF t] show ?thesis by (simp add: tick_and_reap_def t remove_loop_flags)
qed

lemma loop_passes_stopped:
  assumes "\<forall>k s. sv_acceptor_open s \<longrightarrow> (\<exists>t. poll k s = Inr t \<and> sv_acceptor_open t)"
  shows "sv_acceptor_open s \<Longrightarrow> \<not> sv_quit s \<Longrightarrow>
    loop_passes n (\<lambda>k s. bind_res (poll k s) (\<lambda>s. Inr (server_stop s))) tick k s = None"
proof (induction n arbitrary: k s)
  case (Suc n)
  from assms Suc.prems(1) obtain t where t: "poll k s = Inr t" "sv_acceptor_open t" by blast
  from Suc.IH [of "tick_and_reap tick (server_stop t)"] Suc.prems t show ?case
    by (simp add: tick_and_reap_flags server_stop_def)
qed simp

section \<open>Properties\<close>


definition plain_conn :: tcp_connection where
  "plain_conn = \<lparr> conn_id = -1, conn_parent = True, conn_open = False \<rparr>"


text \<open>The completion of an accept: without an error the connection is registered under the next id,
  its socket is open when \<open>start\<close> runs, every other registration stays, and another accept is
  pending; with the largest id handed out the increment overflows. With an error no accept is pending
  any more: the server never accepts again.\<close>

theorem server_accept:
  assumes "\<forall>c. conn_id (start c) = conn_id c" and "\<forall>c. conn_id (tick c) = conn_id c"
    and "sv_reach start tick mk h s" and "sv_accepting s = Some p"
  shows "on_accept start mk True s = Inr (s\<lparr>sv_accepting := None\<rparr>) \<and>
    (if sv_next_conn_id s + 1 < 2 ^ 31 then
       \<exists>t. on_accept start mk False s = Inr t \<and> sv_next_conn_id t = sv_next_conn_id s + 1 \<and>
         sv_accepting t = Some (sv_fresh s) \<and>
         sv_heap t p = start ((sv_heap s p)\<lparr>conn_open := True, conn_id := sv_next_conn_id s\<rparr>) \<and>
         (\<forall>k. get_conn t k = (if k = sv_next_conn_id s then Some p else get_conn s k))
     else on_accept start mk False s = Inl Signed_Overflow)"
proof -
  have inv: "sv_inv s" using assms(1-3) by (rule sv_reach_inv)
  let ?s = "s\<lparr>sv_accepting := None, sv_heap := (sv_heap s)(p := (sv_heap s p)\<lparr>conn_open := True\<rparr>)\<rparr>"
  have inv': "sv_inv ?s" using inv by (auto simp: sv_inv_def)
  have om: "om_inv (sv_conn_map s)" and p: "p < sv_fresh s" using inv assms(4) by (auto simp: sv_inv_def)
  have acc: "on_accept start mk False s =
      bind_res (handle_accept_new_connection start ?s (Some p)) (\<lambda>s. Inr (async_accept mk s))"
    using assms(4) by (simp add: on_accept_def Let_def)
  show ?thesis
  proof (cases "sv_next_conn_id s + 1 < 2 ^ 31")
    case True
    with add_conn_ok [OF inv', of p] p om sv_inv_next_free [OF inv] assms(4) show ?thesis
      unfolding acc
      by (simp add: on_accept_def handle_accept_new_connection_def async_accept_def
          create_new_connection_def get_conn_def om_find_insert conn_set_id_def)
  next
    case False
    with add_conn_full [OF inv', of p] assms(4) show ?thesis
      unfolding acc by (simp add: on_accept_def handle_accept_new_connection_def)
  qed
qed

theorem server_accept_witness:
  "\<exists>t. on_accept (\<lambda>c. c) plain_conn False (server_start plain_conn (server_ctor (\<lambda>_. plain_conn))) = Inr t \<and>
     get_conn t 0 = Some 0"
proof -
  let ?init = "server_start plain_conn (server_ctor (\<lambda>_. plain_conn))"
  have a: "sv_accepting ?init = Some 0" and n: "sv_next_conn_id ?init = 0"
    by (simp_all add: server_start_def async_accept_def create_new_connection_def server_ctor_def)
  from server_accept [where start = "\<lambda>c. c" and tick = "\<lambda>c. c", OF _ _ sv_reach.init a] n show ?thesis by auto
qed

text \<open>\<open>TCPServer::stop\<close> does not stop the server: it stores false into \<open>m_quit\<close>, so even when it is
  called in every pass, \<open>loop\<close> never returns while the acceptor is open and the handlers return.\<close>

theorem server_stop_never_stops:
  assumes "\<forall>k s. sv_acceptor_open s \<longrightarrow> (\<exists>t. poll k s = Inr t \<and> sv_acceptor_open t)"
    and "sv_acceptor_open s"
  shows "server_loop fuel (\<lambda>k s. bind_res (poll k s) (\<lambda>s. Inr (server_stop s))) tick s = None"
  using loop_passes_stopped [OF assms(1), of "s\<lparr>sv_quit := False\<rparr>"] assms(2) by (simp add: server_loop_def)

theorem server_stop_never_stops_witness:
  "server_loop 1000 (\<lambda>k s. bind_res (Inr s) (\<lambda>s. Inr (server_stop s))) (\<lambda>c. c)
     (server_ctor (\<lambda>_. plain_conn)) = None"
  by (rule server_stop_never_stops) (simp_all add: server_ctor_def)

end
