(* ===== verification/Chatroom.thy ===== *)
theory Chatroom
  imports Network Queues Buffer
begin

text \<open>
  The chat room of \<open>src/examples/chatroom\<close>: the message format (\<open>chat_room_msg.hpp\<close>), the connections
  and the broadcast of the server, and the client. A connection extends the record of
  \<open>TCPConnection\<close>; what it has asked asio to do is part of its state: the pending read, and the bytes
  of the pending write as they were when the write was started. \<open>cc_wire\<close> records the bytes whose
  write has completed. Hosts are little-endian. Indices drawn by the random engine are arguments.
\<close>

section \<open>chat_room_msg.hpp\<close>

record chat_room_msg =
  contentsize :: int
  content :: "cell list"

definition msg_clear :: "chat_room_msg \<Rightarrow> chat_room_msg" where
  "msg_clear m = m\<lparr>contentsize := 0\<rparr>"

text \<open>The constructor leaves the array of 1024 characters uninitialised.\<close>

definition msg_ctor :: chat_room_msg where
  "msg_ctor = msg_clear \<lparr> contentsize = 0, content = replicate 1024 None \<rparr>"

definition random_alphabet :: string where
  "random_alphabet = ''_abcdefghijklmnopqrstuvwxyzABCDEFGHIJKLMNOPQRSTUVWXYZ0123456789''"

fun random_loop :: "nat \<Rightarrow> (nat \<Rightarrow> nat) \<Rightarrow> nat \<Rightarrow> string \<Rightarrow> string" where
  "random_loop 0 u2 i result = result"
| "random_loop (Suc n) u2 i result = random_loop n u2 (i + 1) (result @ [random_alphabet ! u2 i])"

definition get_random_msg :: "(nat \<Rightarrow> nat) \<Rightarrow> string" where
  "get_random_msg u2 = random_loop 10 u2 0 ''''"

text \<open>Byte order: the value of a 16-bit word after \<open>htons\<close> on a little-endian host, and its bytes.\<close>

definition htons :: "int \<Rightarrow> int" where
  "htons n = (n mod 256) * 256 + n div 256"

definition ntohs :: "int \<Rightarrow> int" where
  "ntohs n = (n mod 256) * 256 + n div 256"

definition u16_bytes :: "int \<Rightarrow> cell list" where
  "u16_bytes n = [Some (char_of (nat (n mod 256))), Some (char_of (nat (n div 256)))]"

fun u16_of_bytes :: "cell list \<Rightarrow> int res" where
  "u16_of_bytes [Some a, Some b] = Inr (int (of_char a) + 256 * int (of_char b))"
| "u16_of_bytes _ = Inl Indeterminate_Read"

definition set_content :: "chat_room_msg \<Rightarrow> cell list \<Rightarrow> int \<Rightarrow> chat_room_msg res" where
  "set_content m src sz =
     bind_res (mem_read src 0 sz) (\<lambda>xs.
     bind_res (mem_write (content m) 0 xs) (\<lambda>c.
     Inr (m\<lparr>content := c, contentsize := to_u16 sz\<rparr>)))"

fun chars_of_cells :: "cell list \<Rightarrow> string res" where
  "chars_of_cells [] = Inr []"
| "chars_of_cells (None # cs) = Inl Indeterminate_Read"
| "chars_of_cells (Some c # cs) = bind_res (chars_of_cells cs) (\<lambda>s. Inr (c # s))"

definition get_content :: "chat_room_msg \<Rightarrow> string res" where
  "get_content m = bind_res (mem_read (content m) 0 (contentsize m)) chars_of_cells"

definition get_buf :: "chat_room_msg \<Rightarrow> cell list res" where
  "get_buf m =
     (let buf = replicate 4096 (Some nul);
          n = htons (contentsize m)
      in bind_res (mem_write buf 0 (u16_bytes n)) (\<lambda>buf.
         bind_res (mem_read (content m) 0 (contentsize m)) (\<lambda>xs.
         bind_res (mem_write buf 2 xs) (\<lambda>buf.
         mem_read buf 0 (2 + contentsize m)))))"

text \<open>Printing goes up to the first NUL of the array.\<close>

definition msg_print :: "chat_room_msg \<Rightarrow> string res" where
  "msg_print m =
     bind_res (string_of_cells (content m)) (\<lambda>s.
     Inr (''content : '' @ s @ '' size : '' @ dec_of_int (contentsize m)))"

section \<open>Connections\<close>

datatype read_op = No_Read | Read_Header | Read_Body int

record chat_conn = tcp_connection +
  cc_tmp_msg :: chat_room_msg
  cc_send_queue :: "chat_room_msg thread_safe_list"
  cc_read :: read_op
  cc_write :: "cell list option"
  cc_wire :: "cell list"

type_synonym chat_server = "unit chat_conn_ext tcp_server"

definition chat_conn_ctor :: "bool \<Rightarrow> chat_conn" where
  "chat_conn_ctor parent =
     \<lparr> conn_id = -1, conn_parent = parent, conn_open = False, cc_tmp_msg = msg_ctor,
       cc_send_queue = \<lparr> m_list = [] \<rparr>, cc_read = No_Read, cc_write = None, cc_wire = [] \<rparr>"

text \<open>What asio delivers into the header: one or two bytes over the bytes that are there.\<close>

definition recv_header :: "cell list \<Rightarrow> chat_room_msg \<Rightarrow> chat_room_msg res" where
  "recv_header bytes m =
     bind_res (mem_write (u16_bytes (contentsize m)) 0 bytes) (\<lambda>h.
     bind_res (u16_of_bytes h) (\<lambda>n. Inr (m\<lparr>contentsize := n\<rparr>)))"

definition recv_body :: "cell list \<Rightarrow> chat_room_msg \<Rightarrow> chat_room_msg res" where
  "recv_body bytes m =
     bind_res (mem_write (content m) 0 bytes) (\<lambda>c. Inr (m\<lparr>content := c\<rparr>))"

section \<open>chat_room_server.cc\<close>

definition srv_read_header :: "chat_conn \<Rightarrow> chat_conn" where
  "srv_read_header c =
     (if \<not> conn_open c then c
      else c\<lparr>cc_tmp_msg := msg_clear (cc_tmp_msg c), cc_read := Read_Header\<rparr>)"

definition srv_start :: "chat_conn \<Rightarrow> chat_conn" where
  "srv_start c = srv_read_header c"

definition srv_handle_error :: "chat_conn \<Rightarrow> chat_conn" where
  "srv_handle_error c = conn_handle_error c"

definition srv_read_body :: "chat_conn \<Rightarrow> chat_conn" where
  "srv_read_body c =
     (if \<not> conn_open c then c
      else let real_content_size = ntohs (contentsize (cc_tmp_msg c))
           in c\<lparr>cc_read := Read_Body real_content_size\<rparr>)"

definition srv_on_header :: "bool \<Rightarrow> cell list \<Rightarrow> chat_conn \<Rightarrow> chat_conn res" where
  "srv_on_header ec bytes c =
     (let c = c\<lparr>cc_read := No_Read\<rparr> in
      if ec then Inr (srv_handle_error c)
      else bind_res (recv_header bytes (cc_tmp_msg c)) (\<lambda>m. Inr (srv_read_body (c\<lparr>cc_tmp_msg := m\<rparr>))))"

definition srv_do_write :: "chat_conn \<Rightarrow> chat_conn res" where
  "srv_do_write c =
     bind_res (tsl_front (cc_send_queue c)) (\<lambda>sendbackmsg.
     bind_res (get_buf sendbackmsg) (\<lambda>sendbuf.
     Inr (c\<lparr>cc_write := Some sendbuf\<rparr>)))"

text \<open>The completion handler of the write; on success all bytes are on the wire.\<close>

definition srv_on_write :: "bool \<Rightarrow> chat_conn \<Rightarrow> chat_conn res" where
  "srv_on_write ec c =
     (case cc_write c of
        None \<Rightarrow> Inr c
      | Some sent \<Rightarrow>
          let c = c\<lparr>cc_write := None\<rparr> in
          if ec then Inr (srv_handle_error c)
          else
            let c = c\<lparr>cc_wire := cc_wire c @ sent\<rparr> in
            bind_res (tsl_pop_front (cc_send_queue c)) (\<lambda>q.
            let c = c\<lparr>cc_send_queue := q\<rparr> in
            if \<not> tsl_empty (cc_send_queue c) then srv_do_write c else Inr c))"

definition send_msg_to_client :: "cell list \<Rightarrow> int \<Rightarrow> chat_conn \<Rightarrow> chat_conn res" where
  "send_msg_to_client msg msgsize c =
     bind_res (set_content msg_ctor msg msgsize) (\<lambda>sendbackmsg.
     let iswriting = \<not> tsl_empty (cc_send_queue c);
         c = c\<lparr>cc_send_queue := tsl_push_back sendbackmsg (cc_send_queue c)\<rparr>
     in if \<not> iswriting then srv_do_write c else Inr c)"

fun broadcast_loop :: "(int \<times> nat) list \<Rightarrow> cell list \<Rightarrow> int \<Rightarrow> chat_server \<Rightarrow> chat_server res" where
  "broadcast_loop [] msg sz s = Inr s"
| "broadcast_loop ((k, p) # m) msg sz s =
     bind_res (send_msg_to_client msg sz (sv_heap s p)) (\<lambda>c.
     broadcast_loop m msg sz (s\<lparr>sv_heap := (sv_heap s)(p := c)\<rparr>))"

definition chat_broadcast :: "chat_server \<Rightarrow> char list \<Rightarrow> int \<Rightarrow> chat_server res" where
  "chat_broadcast s msg sz = broadcast_loop (sv_conn_map s) (map Some msg) (to_i32 sz) s"

text \<open>\<open>snprintf(buf, 4096, "guest(%d):%s", ...)\<close> returns the length of the whole text.\<close>

definition guest_text :: "int \<Rightarrow> string \<Rightarrow> string" where
  "guest_text cid s = ''guest('' @ dec_of_int cid @ ''):'' @ c_str s"

definition srv_handle_message :: "chat_server \<Rightarrow> nat \<Rightarrow> chat_server res" where
  "srv_handle_message s p =
     (let c = sv_heap s p;
          real_content_size = ntohs (contentsize (cc_tmp_msg c))
      in bind_res (mem_read (content (cc_tmp_msg c)) 0 real_content_size) (\<lambda>cells.
         bind_res (chars_of_cells cells) (\<lambda>recv_real_msg.
         let text = guest_text (conn_id c) recv_real_msg in
         bind_res (mem_write (replicate 4096 nul) 0 (take 4095 text @ [nul])) (\<lambda>buf.
         let sendbacksize = int (length text)
         in conn_broadcast chat_broadcast c buf sendbacksize s))))"

definition srv_on_body :: "bool \<Rightarrow> cell list \<Rightarrow> nat \<Rightarrow> chat_server \<Rightarrow> chat_server res" where
  "srv_on_body ec bytes p s =
     (let s = s\<lparr>sv_heap := (sv_heap s)(p := (sv_heap s p)\<lparr>cc_read := No_Read\<rparr>)\<rparr> in
      if ec then Inr (s\<lparr>sv_heap := (sv_heap s)(p := srv_handle_error (sv_heap s p))\<rparr>)
      else
        bind_res (recv_body bytes (cc_tmp_msg (sv_heap s p))) (\<lambda>m.
        let s = s\<lparr>sv_heap := (sv_heap s)(p := (sv_heap s p)\<lparr>cc_tmp_msg := m\<rparr>)\<rparr> in
        bind_res (srv_handle_message s p) (\<lambda>s.
        Inr (s\<lparr>sv_heap := (sv_heap s)(p := srv_read_header (sv_heap s p))\<rparr>))))"

definition chat_handle_accept :: "chat_server \<Rightarrow> nat option \<Rightarrow> chat_server res" where
  "chat_handle_accept s connptr =
     bind_res (handle_accept_new_connection srv_start s connptr) (\<lambda>s.
     case connptr of None \<Rightarrow> Inl Null_Deref | Some _ \<Rightarrow> Inr s)"

definition chat_handle_remove :: "chat_server \<Rightarrow> nat option \<Rightarrow> chat_server res" where
  "chat_handle_remove s connptr =
     (let s = handle_remove_connection s connptr in
      case connptr of None \<Rightarrow> Inl Null_Deref | Some _ \<Rightarrow> Inr s)"

section \<open>chat_room_client.cc\<close>

definition cli_do_write :: "chat_conn \<Rightarrow> chat_conn res" where
  "cli_do_write c =
     bind_res (tsl_front (cc_send_queue c)) (\<lambda>sendbackmsg.
     bind_res (get_buf sendbackmsg) (\<lambda>sendbuf.
     Inr (c\<lparr>cc_write := Some sendbuf\<rparr>)))"

definition cli_send_random_msg :: "(nat \<Rightarrow> nat) \<Rightarrow> chat_conn \<Rightarrow> chat_conn res" where
  "cli_send_random_msg u2 c =
     (let s = get_random_msg u2 in
      bind_res (set_content msg_ctor (map Some s @ [Some nul]) (to_i32 (int (length s)))) (\<lambda>msg.
      let iswriting = \<not> tsl_empty (cc_send_queue c);
          c = c\<lparr>cc_send_queue := tsl_push_back msg (cc_send_queue c)\<rparr>
      in if \<not> iswriting then cli_do_write c else Inr c))"

definition cli_read_header :: "chat_conn \<Rightarrow> chat_conn" where
  "cli_read_header c =
     (if \<not> conn_open c then c
      else c\<lparr>cc_tmp_msg := msg_clear (cc_tmp_msg c), cc_read := Read_Header\<rparr>)"

definition cli_start :: "(nat \<Rightarrow> nat) \<Rightarrow> chat_conn \<Rightarrow> chat_conn res" where
  "cli_start u2 c = bind_res (cli_send_random_msg u2 c) (\<lambda>c. Inr (cli_read_header c))"

text \<open>Errors are printed differently by kind; the connection is closed in every case.\<close>

definition cli_handle_error :: "chat_conn \<Rightarrow> chat_conn" where
  "cli_handle_error c = conn_handle_error c"

definition cli_on_write :: "bool \<Rightarrow> chat_conn \<Rightarrow> chat_conn res" where
  "cli_on_write ec c =
     (case cc_write c of
        None \<Rightarrow> Inr c
      | Some sent \<Rightarrow>
          let c = c\<lparr>cc_write := None\<rparr> in
          if ec then Inr (cli_handle_error c)
          else
            let c = c\<lparr>cc_wire := cc_wire c @ sent\<rparr> in
            bind_res (tsl_pop_front (cc_send_queue c)) (\<lambda>q.
            let c = c\<lparr>cc_send_queue := q\<rparr> in
            if \<not> tsl_empty (cc_send_queue c) then cli_do_write c else Inr c))"

definition cli_read_body :: "chat_conn \<Rightarrow> chat_conn" where
  "cli_read_body c =
     (if \<not> conn_open c then c
      else let real_content_size = ntohs (contentsize (cc_tmp_msg c))
           in c\<lparr>cc_read := Read_Body real_content_size\<rparr>)"

definition cli_on_header :: "bool \<Rightarrow> cell list \<Rightarrow> chat_conn \<Rightarrow> chat_conn res" where
  "cli_on_header ec bytes c =
     (let c = c\<lparr>cc_read := No_Read\<rparr> in
      if ec then Inr (cli_handle_error c)
      else bind_res (recv_header bytes (cc_tmp_msg c)) (\<lambda>m. Inr (cli_read_body (c\<lparr>cc_tmp_msg := m\<rparr>))))"

text \<open>The handler prints the message, returned here beside the connection, and sends the next one.\<close>

definition cli_handle_message :: "(nat \<Rightarrow> nat) \<Rightarrow> chat_conn \<Rightarrow> (chat_conn \<times> string) res" where
  "cli_handle_message u2 c =
     (let real_content_size = ntohs (contentsize (cc_tmp_msg c)) in
      bind_res (mem_read (content (cc_tmp_msg c)) 0 real_content_size) (\<lambda>cells.
      bind_res (chars_of_cells cells) (\<lambda>msg.
      bind_res (cli_send_random_msg u2 c) (\<lambda>c. Inr (c, msg)))))"

definition cli_on_body :: "(nat \<Rightarrow> nat) \<Rightarrow> bool \<Rightarrow> cell list \<Rightarrow> chat_conn \<Rightarrow> (chat_conn \<times> string) res" where
  "cli_on_body u2 ec bytes c =
     (let c = c\<lparr>cc_read := No_Read\<rparr> in
      if ec then Inr (cli_handle_error c, '''')
      else
        bind_res (recv_body bytes (cc_tmp_msg c)) (\<lambda>m.
        bind_res (cli_handle_message u2 (c\<lparr>cc_tmp_msg := m\<rparr>)) (\<lambda>(c, msg).
        Inr (cli_read_header c, msg))))"

definition cli_handle_connection_established :: "endpoint option \<Rightarrow> endpoint option \<Rightarrow> chat_conn \<Rightarrow> chat_conn res" where
  "cli_handle_connection_established local_ep remote_ep c =
     bind_res (conn_address local_ep) (\<lambda>_. bind_res (conn_address remote_ep) (\<lambda>_. Inr c))"

section \<open>Frames\<close>

text \<open>The message that holds a text, and its frame: the length in network byte order, then the text.\<close>

definition msg_of :: "string \<Rightarrow> chat_room_msg" where
  "msg_of s = \<lparr> contentsize = int (length s),
     content = map Some s @ replicate (1024 - length s) None \<rparr>"

definition frame :: "string \<Rightarrow> cell list" where
  "frame s = Some (char_of (length s div 256)) # Some (char_of (length s mod 256)) # map Some s"

lemma length_u16_bytes [simp]: "length (u16_bytes n) = 2"
  by (simp add: u16_bytes_def)

lemma chars_of_cells_Some [simp]: "chars_of_cells (map Some s) = Inr s"
  by (induction s) auto

lemma to_u16_id: "0 \<le> n \<Longrightarrow> n < 65536 \<Longrightarrow> to_u16 n = n"
  by (simp add: to_u16_def)

lemma htons_bytes: "0 \<le> n \<Longrightarrow> n < 65536 \<Longrightarrow>
  u16_bytes (htons n) = [Some (char_of (nat (n div 256))), Some (char_of (nat (n mod 256)))]"
proof -
  assume n: "0 \<le> n" "n < 65536"
  then have "htons n mod 256 = n div 256" "htons n div 256 = n mod 256"
    by (simp_all add: htons_def)
  then show ?thesis by (simp add: u16_bytes_def)
qed

lemma ntohs_htons: "0 \<le> n \<Longrightarrow> n < 65536 \<Longrightarrow> ntohs (htons n) = n"
proof -
  assume n: "0 \<le> n" "n < 65536"
  then have "htons n mod 256 = n div 256" "htons n div 256 = n mod 256"
    by (simp_all add: htons_def)
  then show ?thesis by (simp add: ntohs_def)
qed

lemma u16_of_htons: "0 \<le> n \<Longrightarrow> n < 65536 \<Longrightarrow> u16_of_bytes (u16_bytes (htons n)) = Inr (htons n)"
  by (simp add: htons_bytes) (simp add: htons_def)

lemma frame_split: "length s \<le> 1024 \<Longrightarrow> frame s = u16_bytes (htons (int (length s))) @ map Some s"
  by (simp add: frame_def htons_bytes nat_div_distrib nat_mod_distrib)

lemma set_content_ok:
  assumes "length s \<le> 1024"
  shows "set_content msg_ctor (map Some s @ rest) (int (length s)) = Inr (msg_of s)"
proof -
  have "mem_read (map Some s @ rest) 0 (int (length s)) = Inr (map Some s)"
    by (simp add: mem_read_def)
  moreover have "mem_write (content msg_ctor) 0 (map Some s) =
      Inr (map Some s @ replicate (1024 - length s) None)"
    using assms by (simp add: mem_write_def msg_ctor_def msg_clear_def)
  ultimately show ?thesis
    using assms by (simp add: set_content_def to_u16_id msg_of_def msg_ctor_def msg_clear_def)
qed

lemma set_content_overflow:
  assumes "1024 < sz"
  shows "set_content msg_ctor src sz = Inl Out_Of_Bounds"
proof (cases "mem_read src 0 sz")
  case (Inl e)
  then show ?thesis by (auto simp: set_content_def mem_read_def split: if_splits)
next
  case (Inr xs)
  with assms mem_read_length [OF Inr] show ?thesis
    by (simp add: set_content_def mem_write_def msg_ctor_def msg_clear_def)
qed

lemma mem_read_content: "mem_read (content (msg_of s)) 0 (int (length s)) = Inr (map Some s)"
  by (simp add: mem_read_def msg_of_def)

lemma get_content_ok: "get_content (msg_of s) = Inr s"
  using mem_read_content [of s] by (simp add: get_content_def msg_of_def)

lemma get_buf_ok:
  assumes "length s \<le> 1024"
  shows "get_buf (msg_of s) = Inr (frame s)"
proof -
  let ?h = "u16_bytes (htons (int (length s)))"
  have "mem_write (replicate 4096 (Some nul)) 0 ?h = Inr (?h @ replicate 4094 (Some nul))"
    by (simp add: mem_write_def)
  moreover have "mem_write (?h @ replicate 4094 (Some nul)) 2 (map Some s) =
      Inr (?h @ map Some s @ replicate (4094 - length s) (Some nul))"
    using assms by (simp add: mem_write_def)
  moreover have "mem_read (?h @ map Some s @ replicate (4094 - length s) (Some nul)) 0 (2 + int (length s)) =
      Inr (?h @ map Some s)"
    using assms by (simp add: mem_read_def nat_add_distrib)
  ultimately show ?thesis
    using mem_read_content [of s] assms
    by (simp add: get_buf_def Let_def msg_of_def frame_split [OF assms])
qed

lemma recv_header_ok:
  assumes "length s \<le> 1024"
  shows "recv_header (take 2 (frame s)) (msg_clear m) = Inr (m\<lparr>contentsize := htons (int (length s))\<rparr>)"
proof -
  have "take 2 (frame s) = u16_bytes (htons (int (length s)))" by (simp add: frame_split [OF assms])
  moreover have "mem_write (u16_bytes x) 0 (u16_bytes y) = Inr (u16_bytes y)" for x y
    by (simp add: mem_write_def)
  ultimately show ?thesis
    using assms u16_of_htons [of "int (length s)"] by (simp add: recv_header_def msg_clear_def)
qed

section \<open>The send queue\<close>

datatype chat_op = Send string | Written

fun chat_run :: "chat_op list \<Rightarrow> chat_conn \<Rightarrow> chat_conn res" where
  "chat_run [] c = Inr c"
| "chat_run (Send s # ops) c =
     bind_res (send_msg_to_client (map Some s) (int (length s)) c) (chat_run ops)"
| "chat_run (Written # ops) c = bind_res (srv_on_write False c) (chat_run ops)"

fun sent_texts :: "chat_op list \<Rightarrow> string list" where
  "sent_texts [] = []"
| "sent_texts (Send s # ops) = s # sent_texts ops"
| "sent_texts (Written # ops) = sent_texts ops"

text \<open>The queue holds the texts still to be written, the first of which is being written.\<close>

definition send_inv :: "string list \<Rightarrow> chat_conn \<Rightarrow> bool" where
  "send_inv ts c \<longleftrightarrow>
     m_list (cc_send_queue c) = map msg_of ts \<and> (\<forall>t \<in> set ts. length t \<le> 1024) \<and>
     cc_write c = (case ts of [] \<Rightarrow> None | t # _ \<Rightarrow> Some (frame t))"

lemma do_write_front:
  assumes "m_list (cc_send_queue c) = msg_of t # q" and "length t \<le> 1024"
  shows "srv_do_write c = Inr (c\<lparr>cc_write := Some (frame t)\<rparr>)"
  using assms by (simp add: srv_do_write_def tsl_front_def get_buf_ok)

lemma send_appends:
  assumes "length s \<le> 1024"
  shows "\<exists>c'. send_msg_to_client (map Some s @ rest) (int (length s)) c = Inr c' \<and>
    m_list (cc_send_queue c') = m_list (cc_send_queue c) @ [msg_of s] \<and> cc_wire c' = cc_wire c \<and>
    conn_id c' = conn_id c \<and>
    cc_write c' = (if m_list (cc_send_queue c) = [] then Some (frame s) else cc_write c)"
proof (cases "m_list (cc_send_queue c) = []")
  case True
  let ?c = "c\<lparr>cc_send_queue := tsl_push_back (msg_of s) (cc_send_queue c)\<rparr>"
  have "srv_do_write ?c = Inr (?c\<lparr>cc_write := Some (frame s)\<rparr>)"
    by (rule do_write_front) (use True assms in \<open>simp_all add: tsl_push_back_def\<close>)
  with True show ?thesis
    by (simp add: send_msg_to_client_def set_content_ok [OF assms] tsl_empty_def Let_def tsl_push_back_def)
next
  case False
  then show ?thesis
    by (simp add: send_msg_to_client_def set_content_ok [OF assms] tsl_empty_def Let_def tsl_push_back_def)
qed

lemma send_step:
  assumes "send_inv ts c" and "length s \<le> 1024"
  shows "\<exists>c'. send_msg_to_client (map Some s) (int (length s)) c = Inr c' \<and> send_inv (ts @ [s]) c' \<and>
    cc_wire c' = cc_wire c"
  using send_appends [OF assms(2), of "[]" c] assms by (cases ts) (auto simp: send_inv_def)

lemma written_step:
  assumes "send_inv ts c"
  shows "\<exists>c'. srv_on_write False c = Inr c' \<and> send_inv (tl ts) c' \<and>
    cc_wire c' = cc_wire c @ concat (map frame (take 1 ts))"
proof (cases ts)
  case Nil
  with assms show ?thesis by (simp add: send_inv_def srv_on_write_def)
next
  case (Cons t us)
  let ?c = "c\<lparr>cc_write := None, cc_wire := cc_wire c @ frame t,
      cc_send_queue := (cc_send_queue c)\<lparr>m_list := map msg_of us\<rparr>\<rparr>"
  have step: "srv_on_write False c = (if us = [] then Inr ?c else srv_do_write ?c)"
    using assms Cons by (simp add: send_inv_def srv_on_write_def Let_def tsl_pop_front_def tsl_empty_def)
  show ?thesis
  proof (cases us)
    case Nil
    with step Cons show ?thesis by (simp add: send_inv_def)
  next
    case (Cons u vs)
    have "srv_do_write ?c = Inr (?c\<lparr>cc_write := Some (frame u)\<rparr>)"
      by (rule do_write_front) (use assms Cons \<open>ts = t # us\<close> in \<open>auto simp: send_inv_def\<close>)
    with step Cons \<open>ts = t # us\<close> assms show ?thesis by (auto simp: send_inv_def)
  qed
qed

lemma chat_run_sends:
  assumes "send_inv ts c" and "\<forall>t \<in> set (sent_texts ops). length t \<le> 1024"
  shows "\<exists>c' us. chat_run ops c = Inr c' \<and> send_inv us c' \<and>
    cc_wire c' @ concat (map frame us) = cc_wire c @ concat (map frame ts) @ concat (map frame (sent_texts ops))"
  using assms
proof (induction ops arbitrary: ts c)
  case (Cons op ops)
  show ?case
  proof (cases op)
    case (Send s)
    with Cons.prems obtain c1 where "send_msg_to_client (map Some s) (int (length s)) c = Inr c1"
      "send_inv (ts @ [s]) c1" "cc_wire c1 = cc_wire c" using send_step by fastforce
    with Cons.IH [of "ts @ [s]" c1] Cons.prems(2) Send show ?thesis by auto
  next
    case Written
    from written_step [OF Cons.prems(1)] obtain c1 where c1: "srv_on_write False c = Inr c1"
      "send_inv (tl ts) c1" "cc_wire c1 = cc_wire c @ concat (map frame (take 1 ts))" by blast
    have "concat (map frame (take 1 ts)) @ concat (map frame (tl ts)) = concat (map frame ts)"
      by (cases ts) simp_all
    then have "cc_wire c1 @ concat (map frame (tl ts)) = cc_wire c @ concat (map frame ts)"
      using c1(3) by simp
    moreover obtain c' us where "chat_run ops c1 = Inr c'" "send_inv us c'"
      "cc_wire c' @ concat (map frame us) =
        cc_wire c1 @ concat (map frame (tl ts)) @ concat (map frame (sent_texts ops))"
      using Cons.IH [OF c1(2)] Cons.prems(2) Written by auto
    ultimately show ?thesis using Written c1(1) by (metis append_assoc bind_res_simps(2) chat_run.simps(3)
        sent_texts.simps(3))
  qed
qed auto

section \<open>The broadcast\<close>

lemma broadcast_loop_ok:
  assumes "length t \<le> 1024" and "distinct (map snd m)"
  shows "\<exists>h. broadcast_loop m (map Some t @ rest) (int (length t)) s = Inr (s\<lparr>sv_heap := h\<rparr>) \<and>
    (\<forall>p. m_list (cc_send_queue (h p)) =
       (if p \<in> snd ` set m then m_list (cc_send_queue (sv_heap s p)) @ [msg_of t]
        else m_list (cc_send_queue (sv_heap s p))))"
  using assms(2)
proof (induction m arbitrary: s)
  case Nil
  then show ?case by (intro exI [of _ "sv_heap s"]) simp
next
  case (Cons kp m)
  obtain k p where kp: "kp = (k, p)" by (cases kp)
  from send_appends [OF assms(1)] obtain c where
    c: "send_msg_to_client (map Some t @ rest) (int (length t)) (sv_heap s p) = Inr c"
      "m_list (cc_send_queue c) = m_list (cc_send_queue (sv_heap s p)) @ [msg_of t]" by blast
  let ?s = "s\<lparr>sv_heap := (sv_heap s)(p := c)\<rparr>"
  from Cons.IH [of ?s] Cons.prems kp obtain h where
    h: "broadcast_loop m (map Some t @ rest) (int (length t)) ?s = Inr (?s\<lparr>sv_heap := h\<rparr>)"
      "\<forall>q. m_list (cc_send_queue (h q)) =
       (if q \<in> snd ` set m then m_list (cc_send_queue (sv_heap ?s q)) @ [msg_of t]
        else m_list (cc_send_queue (sv_heap ?s q)))" by auto
  have "p \<notin> snd ` set m" using Cons.prems kp by simp
  with h c kp show ?case by (intro exI [of _ h]) auto
qed

lemma broadcast_loop_overflow:
  "1024 < sz \<Longrightarrow> m \<noteq> [] \<Longrightarrow> broadcast_loop m msg sz s = Inl Out_Of_Bounds"
  by (cases m) (auto simp: send_msg_to_client_def set_content_overflow)

lemma handle_message_broadcast:
  assumes "mem_read (content (cc_tmp_msg (sv_heap s p))) 0 (ntohs (contentsize (cc_tmp_msg (sv_heap s p)))) =
      Inr (map Some r)"
    and "conn_parent (sv_heap s p)" and t: "t = guest_text (conn_id (sv_heap s p)) r" and "length t < 4096"
  shows "srv_handle_message s p =
    broadcast_loop (sv_conn_map s) (map Some t @ map Some (replicate (4096 - length t) nul)) (int (length t)) s"
proof -
  have "mem_write (replicate 4096 nul) 0 (take 4095 t @ [nul]) = Inr (t @ replicate (4096 - length t) nul)"
    using assms(4)
    by (simp add: mem_write_def replicate_Suc [symmetric] Suc_diff_Suc del: replicate_Suc)
  moreover have "in_i32 (int (length t))" using assms(4) by (simp add: in_i32_def)
  ultimately show ?thesis
    using assms(1,2) t by (simp add: srv_handle_message_def Let_def conn_broadcast_def chat_broadcast_def)
qed

section \<open>Properties\<close>

text \<open>C36: The message format round-trips: a text of at most 1024 characters is stored and read back
  unchanged, its frame is the length in network byte order followed by the text, and a client that
  receives the two header bytes asks for exactly the text, which it then reads back unchanged.\<close>

theorem chat_frame_roundtrip:
  assumes "length s \<le> 1024" and "conn_open c" and "length (content (cc_tmp_msg c)) = 1024"
  shows "set_content msg_ctor (map Some s) (int (length s)) = Inr (msg_of s) \<and>
    get_content (msg_of s) = Inr s \<and> get_buf (msg_of s) = Inr (frame s) \<and>
    (\<exists>c'. cli_on_header False (take 2 (frame s)) (cli_read_header c) = Inr c' \<and>
       cc_read c' = Read_Body (int (length s)) \<and>
       (\<exists>m. recv_body (drop 2 (frame s)) (cc_tmp_msg c') = Inr m \<and>
          mem_read (content m) 0 (ntohs (contentsize m)) = Inr (map Some s)))"
proof -
  let ?n = "int (length s)"
  let ?c = "c\<lparr>cc_tmp_msg := (cc_tmp_msg c)\<lparr>contentsize := htons ?n\<rparr>, cc_read := Read_Body ?n\<rparr>"
  have hdr: "cli_on_header False (take 2 (frame s)) (cli_read_header c) = Inr ?c"
    using assms(1,2) recv_header_ok [OF assms(1), of "cc_tmp_msg c"] ntohs_htons [of ?n]
    by (simp add: cli_on_header_def cli_read_header_def cli_read_body_def Let_def)
  have "drop 2 (frame s) = map Some s" by (simp add: frame_def)
  moreover have "mem_write (content (cc_tmp_msg c)) 0 (map Some s) =
      Inr (map Some s @ drop (length s) (content (cc_tmp_msg c)))"
    using assms(1,3) by (simp add: mem_write_def)
  ultimately have "recv_body (drop 2 (frame s)) (cc_tmp_msg ?c) =
      Inr ((cc_tmp_msg c)\<lparr>contentsize := htons ?n, content := map Some s @ drop (length s) (content (cc_tmp_msg c))\<rparr>)"
    by (simp add: recv_body_def)
  moreover have "mem_read (map Some s @ drop (length s) (content (cc_tmp_msg c))) 0 (ntohs (htons ?n)) = Inr (map Some s)"
    using assms(1) ntohs_htons [of ?n] by (simp add: mem_read_def)
  ultimately show ?thesis
    using hdr set_content_ok [OF assms(1), of "[]"] get_content_ok [of s] get_buf_ok [OF assms(1)] by simp
qed

theorem chat_frame_roundtrip_witness:
  "get_buf (msg_of ''hi'') = Inr [Some (CHR 0x00), Some (CHR 0x02), Some (CHR ''h''), Some (CHR ''i'')]"
proof -
  have f: "frame ''hi'' = [Some (CHR 0x00), Some (CHR 0x02), Some (CHR ''h''), Some (CHR ''i'')]"
    by code_simp
  have "length (content msg_ctor) = 1024" by (simp add: msg_ctor_def msg_clear_def)
  with chat_frame_roundtrip [of "''hi''" "(chat_conn_ctor True)\<lparr>conn_open := True\<rparr>"] f show ?thesis
    by (simp add: chat_conn_ctor_def)
qed



text \<open>A message that a guest sends is broadcast to every registered connection, appended once to
  each send queue, as long as the text with its \<open>guest(id):\<close> prefix has at most 1024 characters; a
  longer one, which a well-formed frame can carry, overflows the message array of the first
  connection.\<close>

theorem chat_broadcast_outcome:
  assumes "sv_inv s" and "conn_parent (sv_heap s p)" and "length r \<le> 1024"
    and "mem_read (content (cc_tmp_msg (sv_heap s p))) 0 (ntohs (contentsize (cc_tmp_msg (sv_heap s p)))) =
      Inr (map Some r)"
    and "t = guest_text (conn_id (sv_heap s p)) r" and "length t < 4096"
  shows "if length t \<le> 1024 then
      \<exists>s'. srv_handle_message s p = Inr s' \<and>
        (\<forall>q. m_list (cc_send_queue (sv_heap s' q)) = m_list (cc_send_queue (sv_heap s q)) @
           (if q \<in> snd ` set (sv_conn_map s) then [msg_of t] else []))
    else sv_conn_map s = [] \<or> srv_handle_message s p = Inl Out_Of_Bounds"
proof (cases "length t \<le> 1024")
  case True
  from broadcast_loop_ok [OF True sv_inv_distinct [OF assms(1)],
      of "map Some (replicate (4096 - length t) nul)" s]
  show ?thesis unfolding handle_message_broadcast [OF assms(4,2,5,6)] using True by auto
next
  case False
  then have "1024 < int (length t)" by simp
  from broadcast_loop_overflow [OF this] False show ?thesis
    unfolding handle_message_broadcast [OF assms(4,2,5,6)] by auto
qed

definition demo_server :: chat_server where
  "demo_server = \<lparr> sv_quit = False, sv_acceptor_open = True, sv_next_conn_id = 1, sv_conn_map = [(0, 0)],
     sv_heap = (\<lambda>_. (chat_conn_ctor True)\<lparr>conn_id := 0, conn_open := True,
       cc_tmp_msg := (msg_of (replicate 1020 (CHR ''x'')))\<lparr>contentsize := htons 1020\<rparr>\<rparr>),
     sv_fresh = 1, sv_accepting = None \<rparr>"

theorem chat_broadcast_outcome_witness:
  "srv_handle_message demo_server 0 = Inl Out_Of_Bounds"
proof -
  let ?r = "replicate 1020 (CHR ''x'')"
  have r: "mem_read (content (cc_tmp_msg (sv_heap demo_server 0))) 0
      (ntohs (contentsize (cc_tmp_msg (sv_heap demo_server 0)))) = Inr (map Some ?r)"
    using mem_read_content [of ?r] ntohs_htons [of 1020] by (simp add: demo_server_def msg_of_def)
  have i: "sv_inv demo_server" by (simp add: demo_server_def sv_inv_def om_inv_def)
  have d: "dec_of_int 0 = ''0''" by code_simp
  have c: "c_str ?r = ?r" by (rule c_str_no_nul) (simp add: nul_def)
  have t: "length (guest_text (conn_id (sv_heap demo_server 0)) ?r) = 1029"
    unfolding guest_text_def c by (simp add: demo_server_def d)
  have p: "conn_parent (sv_heap demo_server 0)" "sv_conn_map demo_server \<noteq> []"
    by (simp_all add: demo_server_def chat_conn_ctor_def)
  from chat_broadcast_outcome [OF i p(1) _ r refl] t p(2) show ?thesis by simp
qed

end
