(* ===== verification/Echo.thy ===== *)
theory Echo
  imports Network
begin

text \<open>
  The echo server and client of \<open>src/examples/echo\<close>. A connection extends the record of
  \<open>TCPConnection\<close> with its receive buffer of 1024 characters, whether a read is pending, and the
  writes it has started, each with the bytes its buffer held when it was started; several can be in
  flight at once.
\<close>

section \<open>Connections\<close>

record echo_conn = tcp_connection +
  ec_recv_buffer :: "char list"
  ec_reading :: bool
  ec_writes :: "char list list"

definition echo_conn_ctor :: "bool \<Rightarrow> char list \<Rightarrow> echo_conn" where
  "echo_conn_ctor parent garbage =
     \<lparr> conn_id = -1, conn_parent = parent, conn_open = False, ec_recv_buffer = garbage,
       ec_reading = False, ec_writes = [] \<rparr>"

section \<open>echo_server.cc\<close>

definition srv_error :: "echo_conn \<Rightarrow> echo_conn" where
  "srv_error c = conn_handle_error c"

definition srv_send :: "char list option \<Rightarrow> int \<Rightarrow> echo_conn \<Rightarrow> echo_conn res" where
  "srv_send msg msgsize c =
     (case msg of
        None \<Rightarrow> Inr c
      | Some src \<Rightarrow>
          if msgsize < 0 then Inr c
          else if \<not> conn_open c then Inr c
          else
            bind_res (mem_read src 0 msgsize) (\<lambda>xs.
            bind_res (mem_write (replicate 4096 nul) 0 xs) (\<lambda>buf.
            bind_res (mem_read buf 0 msgsize) (\<lambda>out.
            Inr (c\<lparr>ec_writes := ec_writes c @ [out]\<rparr>)))))"

definition srv_async_recv :: "echo_conn \<Rightarrow> echo_conn" where
  "srv_async_recv c = (if \<not> conn_open c then c else c\<lparr>ec_reading := True\<rparr>)"

definition echo_srv_start :: "echo_conn \<Rightarrow> echo_conn" where
  "echo_srv_start c = srv_async_recv c"

text \<open>The completion handler of the read: asio has stored \<open>data\<close> at the start of the buffer.\<close>

definition srv_on_recv :: "bool \<Rightarrow> char list \<Rightarrow> echo_conn \<Rightarrow> echo_conn res" where
  "srv_on_recv ec data c =
     (let c = c\<lparr>ec_reading := False\<rparr> in
      if ec then Inr (srv_error c)
      else
        bind_res (mem_write (ec_recv_buffer c) 0 data) (\<lambda>b.
        let c = c\<lparr>ec_recv_buffer := b\<rparr> in
        bind_res (mem_read (ec_recv_buffer c) 0 (int (length data))) (\<lambda>msg.
        bind_res (srv_send (Some (msg @ [nul])) (to_i32 (int (length msg))) c) (\<lambda>c.
        Inr (srv_async_recv c)))))"

definition srv_on_sent :: "bool \<Rightarrow> nat \<Rightarrow> echo_conn \<Rightarrow> echo_conn" where
  "srv_on_sent ec i c =
     (let c = c\<lparr>ec_writes := take i (ec_writes c) @ drop (Suc i) (ec_writes c)\<rparr>
      in if ec then srv_error c else c)"

type_synonym echo_server = "unit echo_conn_ext tcp_server"

definition echo_handle_accept :: "echo_server \<Rightarrow> nat option \<Rightarrow> echo_server res" where
  "echo_handle_accept s connptr =
     bind_res (handle_accept_new_connection echo_srv_start s connptr) (\<lambda>s.
     case connptr of None \<Rightarrow> Inl Null_Deref | Some _ \<Rightarrow> Inr s)"

definition echo_handle_remove :: "echo_server \<Rightarrow> nat option \<Rightarrow> echo_server res" where
  "echo_handle_remove s connptr =
     (let s = handle_remove_connection s connptr in
      case connptr of None \<Rightarrow> Inl Null_Deref | Some _ \<Rightarrow> Inr s)"

section \<open>echo_client.cc\<close>

definition cli_error :: "echo_conn \<Rightarrow> echo_conn" where
  "cli_error c = conn_handle_error c"

definition cli_send :: "char list option \<Rightarrow> int \<Rightarrow> echo_conn \<Rightarrow> echo_conn res" where
  "cli_send msg msgsize c =
     (case msg of
        None \<Rightarrow> Inr c
      | Some src \<Rightarrow>
          if msgsize < 0 then Inr c
          else if \<not> conn_open c then Inr c
          else
            bind_res (mem_read src 0 msgsize) (\<lambda>xs.
            bind_res (mem_write (replicate 4096 nul) 0 xs) (\<lambda>buf.
            bind_res (mem_read buf 0 msgsize) (\<lambda>out.
            Inr (c\<lparr>ec_writes := ec_writes c @ [out]\<rparr>)))))"

definition cli_async_recv :: "echo_conn \<Rightarrow> echo_conn" where
  "cli_async_recv c = (if \<not> conn_open c then c else c\<lparr>ec_reading := True\<rparr>)"

definition cli_on_recv :: "bool \<Rightarrow> char list \<Rightarrow> echo_conn \<Rightarrow> echo_conn res" where
  "cli_on_recv ec data c =
     (let c = c\<lparr>ec_reading := False\<rparr> in
      if ec then Inr (cli_error c)
      else
        bind_res (mem_write (ec_recv_buffer c) 0 data) (\<lambda>b.
        let c = c\<lparr>ec_recv_buffer := b\<rparr> in
        bind_res (mem_read (ec_recv_buffer c) 0 (int (length data))) (\<lambda>msg.
        bind_res (cli_send (Some (msg @ [nul])) (to_i32 (int (length msg))) c) (\<lambda>c.
        Inr (cli_async_recv c)))))"

definition echo_cli_start :: "echo_conn \<Rightarrow> echo_conn res" where
  "echo_cli_start c =
     (let msg = ''sixday'' in
      bind_res (cli_send (Some (msg @ [nul])) (to_i32 (int (length msg))) c) (\<lambda>c.
      Inr (cli_async_recv c)))"

definition echo_cli_established :: "endpoint option \<Rightarrow> endpoint option \<Rightarrow> echo_conn \<Rightarrow> echo_conn res" where
  "echo_cli_established local_ep remote_ep c =
     bind_res (conn_address local_ep) (\<lambda>_. bind_res (conn_address remote_ep) (\<lambda>_. Inr c))"

section \<open>Lemmas\<close>

lemma srv_send_ok:
  assumes "conn_open c" and "length xs \<le> 4096"
  shows "srv_send (Some (xs @ rest)) (int (length xs)) c = Inr (c\<lparr>ec_writes := ec_writes c @ [xs]\<rparr>)"
  using assms by (simp add: srv_send_def mem_read_def mem_write_def)

lemma cli_send_eq: "cli_send = srv_send"
  by (intro ext) (simp add: cli_send_def srv_send_def)

lemma srv_on_recv_ok:
  assumes "conn_open c" and "length (ec_recv_buffer c) = 1024" and "length data \<le> 1024"
  shows "\<exists>b. srv_on_recv False data c =
      Inr (c\<lparr>ec_recv_buffer := b, ec_writes := ec_writes c @ [data], ec_reading := True\<rparr>) \<and> length b = 1024"
proof -
  let ?b = "data @ drop (length data) (ec_recv_buffer c)"
  have "mem_write (ec_recv_buffer c) 0 data = Inr ?b" "mem_read ?b 0 (int (length data)) = Inr data"
    using assms(2,3) by (simp_all add: mem_write_def mem_read_def)
  moreover have "in_i32 (int (length data))" using assms(3) by (simp add: in_i32_def)
  moreover have "length ?b = 1024" using assms(2,3) by simp
  ultimately show ?thesis
    using assms(1,3) srv_send_ok [of "c\<lparr>ec_reading := False, ec_recv_buffer := ?b\<rparr>" data "[nul]"]
    by (intro exI [of _ ?b]) (simp add: srv_on_recv_def Let_def srv_async_recv_def)
qed

fun recv_all :: "char list list \<Rightarrow> echo_conn \<Rightarrow> echo_conn res" where
  "recv_all [] c = Inr c"
| "recv_all (d # ds) c = bind_res (srv_on_recv False d c) (recv_all ds)"

lemma recv_all_ok:
  assumes "conn_open c" and "length (ec_recv_buffer c) = 1024" and "\<forall>d \<in> set ds. length d \<le> 1024"
  shows "\<exists>c'. recv_all ds c = Inr c' \<and> ec_writes c' = ec_writes c @ ds \<and> conn_open c' \<and>
    (ds \<noteq> [] \<longrightarrow> ec_reading c')"
  using assms
proof (induction ds arbitrary: c)
  case (Cons d ds)
  then obtain b where b: "srv_on_recv False d c =
      Inr (c\<lparr>ec_recv_buffer := b, ec_writes := ec_writes c @ [d], ec_reading := True\<rparr>)" "length b = 1024"
    using srv_on_recv_ok [of c d] by auto
  let ?c = "c\<lparr>ec_recv_buffer := b, ec_writes := ec_writes c @ [d], ec_reading := True\<rparr>"
  obtain c' where c': "recv_all ds ?c = Inr c'" "ec_writes c' = ec_writes ?c @ ds" "conn_open c'"
    "ds \<noteq> [] \<longrightarrow> ec_reading c'"
    using Cons.IH [of ?c] Cons.prems b(2) by auto
  with b(1) show ?case by (cases "ds = []") auto
qed simp

section \<open>Properties\<close>

text \<open>The echo server echoes: for every sequence of received chunks of at most 1024 bytes on an open
  connection, no store leaves a buffer, the writes it starts are the chunks themselves, in order, and
  after each chunk a read is pending again.\<close>

theorem echo_server_echoes:
  assumes "conn_open c" and "length (ec_recv_buffer c) = 1024" and "\<forall>d \<in> set ds. length d \<le> 1024"
  shows "\<exists>c'. recv_all ds c = Inr c' \<and> ec_writes c' = ec_writes c @ ds \<and> conn_open c' \<and>
    (ds \<noteq> [] \<longrightarrow> ec_reading c')"
  using assms by (rule recv_all_ok)

theorem echo_server_echoes_witness:
  "\<exists>c'. recv_all [''six'', ''day''] ((echo_conn_ctor True (replicate 1024 nul))\<lparr>conn_open := True\<rparr>) = Inr c' \<and>
     ec_writes c' = [''six'', ''day'']"
  using echo_server_echoes [of "(echo_conn_ctor True (replicate 1024 nul))\<lparr>conn_open := True\<rparr>" "[''six'', ''day'']"]
  by (auto simp: echo_conn_ctor_def)

end
