(* ===== verification/Asio_Op_Queue.thy ===== *)
theory Asio_Op_Queue
  imports Xsix_Prelude
begin

text \<open>
  The intrusive queue of operations that carries every handler of asio:
  \<open>src/3rd/asio/include/asio/detail/op_queue.hpp\<close>. Operations are addresses, and the member \<open>next_\<close>
  of each of them is a heap from addresses to pointers; a queue is the two pointers \<open>front_\<close> and
  \<open>back_\<close>. The abstraction relation says which list of operations a queue stands for, and every
  operation is shown to act on that list.
\<close>

section \<open>op_queue_access\<close>

type_synonym op_ptr = "nat option"
type_synonym op_heap = "nat \<Rightarrow> op_ptr"

definition access_next :: "op_heap \<Rightarrow> nat \<Rightarrow> op_ptr" where
  "access_next nx o1 = nx o1"

definition access_set_next :: "op_heap \<Rightarrow> nat \<Rightarrow> op_ptr \<Rightarrow> op_heap" where
  "access_set_next nx o1 o2 = nx(o1 := o2)"

section \<open>op_queue\<close>

record op_queue =
  q_front :: op_ptr
  q_back :: op_ptr

definition op_queue_ctor :: op_queue where
  "op_queue_ctor = \<lparr> q_front = None, q_back = None \<rparr>"

definition oq_front :: "op_queue \<Rightarrow> op_ptr" where
  "oq_front q = q_front q"

definition oq_pop :: "op_heap \<Rightarrow> op_queue \<Rightarrow> op_heap \<times> op_queue" where
  "oq_pop nx q =
     (case q_front q of
        None \<Rightarrow> (nx, q)
      | Some tmp \<Rightarrow>
          let q = q\<lparr>q_front := access_next nx tmp\<rparr>;
              q = (if q_front q = None then q\<lparr>q_back := None\<rparr> else q)
          in (access_set_next nx tmp None, q))"

definition oq_push :: "op_heap \<Rightarrow> op_queue \<Rightarrow> nat \<Rightarrow> op_heap \<times> op_queue" where
  "oq_push nx q h =
     (let nx = access_set_next nx h None in
      case q_back q of
        Some b \<Rightarrow> (access_set_next nx b (Some h), q\<lparr>q_back := Some h\<rparr>)
      | None \<Rightarrow> (nx, q\<lparr>q_front := Some h, q_back := Some h\<rparr>))"

text \<open>Pushing a whole queue empties the source.\<close>

definition oq_push_queue :: "op_heap \<Rightarrow> op_queue \<Rightarrow> op_queue \<Rightarrow> op_heap \<times> op_queue \<times> op_queue" where
  "oq_push_queue nx q other =
     (case q_front other of
        None \<Rightarrow> (nx, q, other)
      | Some other_front \<Rightarrow>
          let (nx, q) = (case q_back q of
                 Some b \<Rightarrow> (access_set_next nx b (Some other_front), q)
               | None \<Rightarrow> (nx, q\<lparr>q_front := Some other_front\<rparr>));
              q = q\<lparr>q_back := q_back other\<rparr>
          in (nx, q, other\<lparr>q_front := None, q_back := None\<rparr>))"

definition oq_empty :: "op_queue \<Rightarrow> bool" where
  "oq_empty q \<longleftrightarrow> q_front q = None"

definition is_enqueued :: "op_heap \<Rightarrow> op_queue \<Rightarrow> nat \<Rightarrow> bool" where
  "is_enqueued nx q o1 \<longleftrightarrow> access_next nx o1 \<noteq> None \<or> q_back q = Some o1"

text \<open>The destructor pops and destroys every operation; it returns what it destroyed.\<close>

partial_function (option) oq_dtor :: "op_heap \<Rightarrow> op_queue \<Rightarrow> (op_heap \<times> nat list) option" where
  "oq_dtor nx q =
     (case q_front q of
        None \<Rightarrow> Some (nx, [])
      | Some p \<Rightarrow>
          (case oq_pop nx q of (nx, q) \<Rightarrow>
             Option.bind (oq_dtor nx q) (\<lambda>(nx, ds). Some (nx, p # ds))))"

section \<open>The list a queue stands for\<close>

fun chain :: "op_heap \<Rightarrow> op_ptr \<Rightarrow> nat list \<Rightarrow> bool" where
  "chain nx p [] \<longleftrightarrow> p = None"
| "chain nx p (x # xs) \<longleftrightarrow> p = Some x \<and> chain nx (nx x) xs"

definition oq_rep :: "op_heap \<Rightarrow> op_queue \<Rightarrow> nat list \<Rightarrow> bool" where
  "oq_rep nx q xs \<longleftrightarrow>
     chain nx (q_front q) xs \<and> distinct xs \<and> q_back q = (if xs = [] then None else Some (last xs))"

named_theorems oq_defs \<open>definitions of the queue operations\<close>

lemmas [oq_defs] = access_next_def access_set_next_def oq_pop_def oq_push_def oq_push_queue_def
  oq_rep_def Let_def

lemma chain_frame [simp]: "x \<notin> set xs \<Longrightarrow> chain (nx(x := p)) f xs = chain nx f xs"
  by (induction xs arbitrary: f) auto

lemma chain_cong: "\<forall>x \<in> set xs. nx' x = nx x \<Longrightarrow> chain nx' f xs = chain nx f xs"
  by (induction xs arbitrary: f) auto

text \<open>Linking the end of one chain to the start of another.\<close>

lemma chain_append:
  "xs \<noteq> [] \<Longrightarrow> distinct xs \<Longrightarrow> last xs \<notin> set ys \<Longrightarrow> chain nx f xs \<Longrightarrow> chain nx (Some y) ys \<Longrightarrow>
   chain (nx(last xs := Some y)) f (xs @ ys)"
proof (induction xs arbitrary: f)
  case (Cons x xs)
  show ?case
  proof (cases "xs = []")
    case True
    then have "chain (nx(x := Some y)) (Some y) ys"
      using Cons.prems chain_frame [of x ys nx "Some y" "Some y"] by simp
    moreover have "(nx(x := Some y)) x = Some y" by simp
    ultimately show ?thesis
      using Cons.prems True by (simp only: last.simps if_True append_Cons append_Nil chain.simps simp_thms)
  next
    case False
    with Cons.prems have "last xs \<noteq> x" by auto
    with Cons False show ?thesis by auto
  qed
qed simp

lemma chain_last: "chain nx f xs \<Longrightarrow> xs \<noteq> [] \<Longrightarrow> nx (last xs) = None"
  by (induction xs arbitrary: f) (auto split: if_splits)

lemma chain_inner: "chain nx f xs \<Longrightarrow> x \<in> set xs \<Longrightarrow> x \<noteq> last xs \<Longrightarrow> nx x \<noteq> None"
proof (induction xs arbitrary: f)
  case (Cons a xs)
  then show ?case by (cases xs) auto
qed simp

lemma oq_rep_ctor: "oq_rep nx op_queue_ctor []"
  by (simp add: oq_rep_def op_queue_ctor_def)

lemma oq_rep_front: "oq_rep nx q xs \<Longrightarrow> oq_front q = (case xs of [] \<Rightarrow> None | x # _ \<Rightarrow> Some x)"
  by (cases xs) (auto simp: oq_rep_def oq_front_def)

lemma oq_rep_empty: "oq_rep nx q xs \<Longrightarrow> oq_empty q \<longleftrightarrow> xs = []"
  by (cases xs) (auto simp: oq_rep_def oq_empty_def)

lemma oq_rep_frame: "oq_rep nx q xs \<Longrightarrow> \<forall>x \<in> set xs. nx' x = nx x \<Longrightarrow> oq_rep nx' q xs"
  using chain_cong [of xs nx' nx] by (simp add: oq_rep_def)

lemma oq_pop_rep:
  assumes "oq_rep nx q xs"
  shows "oq_pop nx q = (case xs of [] \<Rightarrow> (nx, q) | x # _ \<Rightarrow> (nx(x := None), snd (oq_pop nx q))) \<and>
    oq_rep (fst (oq_pop nx q)) (snd (oq_pop nx q)) (tl xs)"
proof (cases xs)
  case Nil
  with assms show ?thesis by (simp add: oq_defs)
next
  case (Cons x ys)
  with assms show ?thesis by (cases ys) (auto simp: oq_defs)
qed

lemma oq_push_rep:
  assumes "oq_rep nx q xs" and "h \<notin> set xs" and "oq_push nx q h = (nx', q')"
  shows "oq_rep nx' q' (xs @ [h]) \<and> (\<forall>o1. o1 \<notin> insert h (set xs) \<longrightarrow> nx' o1 = nx o1)"
proof (cases "xs = []")
  case True
  with assms show ?thesis by (auto simp: oq_defs)
next
  case False
  let ?nx = "nx(h := None)"
  have "chain (?nx(last xs := Some h)) (q_front q) (xs @ [h])"
    by (rule chain_append) (use assms False in \<open>auto simp: oq_defs\<close>)
  moreover have "nx' = ?nx(last xs := Some h)" "q' = q\<lparr>q_back := Some h\<rparr>"
    using assms False by (simp_all add: oq_defs)
  moreover have "last xs \<in> set xs" using False by simp
  ultimately show ?thesis using assms(1,2) by (auto simp: oq_rep_def)
qed

lemma oq_push_queue_rep:
  assumes "oq_rep nx q xs" and "oq_rep nx r ys" and "set xs \<inter> set ys = {}"
    and "oq_push_queue nx q r = (nx', q', r')"
  shows "oq_rep nx' q' (xs @ ys) \<and> oq_rep nx' r' [] \<and> (\<forall>o1. o1 \<notin> set xs \<longrightarrow> nx' o1 = nx o1)"
proof (cases ys)
  case Nil
  with assms show ?thesis by (auto simp: oq_defs)
next
  case (Cons y zs)
  show ?thesis
  proof (cases "xs = []")
    case True
    with assms Cons show ?thesis by (auto simp: oq_defs)
  next
    case False
    have "last xs \<notin> set ys" using assms(3) False last_in_set by blast
    then have "chain (nx(last xs := Some y)) (q_front q) (xs @ ys)"
      by (intro chain_append) (use assms False Cons in \<open>auto simp: oq_defs\<close>)
    moreover have "nx' = nx(last xs := Some y)" "q' = q\<lparr>q_back := Some (last ys)\<rparr>"
      "r' = r\<lparr>q_front := None, q_back := None\<rparr>"
      using assms False Cons by (simp_all add: oq_defs)
    moreover have "last xs \<in> set xs" using False by simp
    ultimately show ?thesis using assms(1-3) Cons by (auto simp: oq_rep_def)
  qed
qed

lemma is_enqueued_rep:
  assumes "oq_rep nx q xs" and "o1 \<in> set xs \<or> nx o1 = None"
  shows "is_enqueued nx q o1 \<longleftrightarrow> o1 \<in> set xs"
proof (cases "o1 \<in> set xs")
  case True
  with assms(1) chain_inner [of nx "q_front q" xs o1] show ?thesis
    by (cases "o1 = last xs") (auto simp: is_enqueued_def access_next_def oq_rep_def)
next
  case False
  with assms show ?thesis by (auto simp: is_enqueued_def access_next_def oq_rep_def)
qed

lemma oq_dtor_rep:
  assumes "oq_rep nx q xs"
  shows "\<exists>nx'. oq_dtor nx q = Some (nx', xs) \<and> (\<forall>o1. nx' o1 = (if o1 \<in> set xs then None else nx o1))"
  using assms
proof (induction xs arbitrary: nx q)
  case Nil
  then show ?case by (subst oq_dtor.simps) (simp add: oq_rep_def)
next
  case (Cons x xs)
  obtain nx1 q1 where p: "oq_pop nx q = (nx1, q1)" by force
  from oq_pop_rep [OF Cons.prems] p have r: "oq_rep nx1 q1 xs" "nx1 = nx(x := None)" by auto
  from Cons.IH [OF r(1)] obtain nx' where
    d: "oq_dtor nx1 q1 = Some (nx', xs)" "\<forall>o1. nx' o1 = (if o1 \<in> set xs then None else nx1 o1)" by blast
  have "q_front q = Some x" using Cons.prems by (simp add: oq_rep_def)
  then have "oq_dtor nx q = Some (nx', x # xs)" by (subst oq_dtor.simps) (simp add: p d(1))
  with d(2) r(2) show ?case by auto
qed

section \<open>Histories\<close>

text \<open>
  A client of the queue: it pushes an operation that is not enqueued, pops one, or moves in a queue it
  built from other operations.
\<close>

datatype oq_op = Oq_Push nat | Oq_Pop | Oq_Splice "nat list"

fun push_all :: "op_heap \<Rightarrow> op_queue \<Rightarrow> nat list \<Rightarrow> op_heap \<times> op_queue" where
  "push_all nx q [] = (nx, q)"
| "push_all nx q (x # xs) = (case oq_push nx q x of (nx, q) \<Rightarrow> push_all nx q xs)"

fun oq_run :: "oq_op list \<Rightarrow> op_heap \<Rightarrow> op_queue \<Rightarrow> op_heap \<times> op_queue \<times> nat list" where
  "oq_run [] nx q = (nx, q, [])"
| "oq_run (Oq_Push h # ops) nx q = (case oq_push nx q h of (nx, q) \<Rightarrow> oq_run ops nx q)"
| "oq_run (Oq_Pop # ops) nx q =
     (case oq_pop nx q of (nx', q') \<Rightarrow>
      case oq_run ops nx' q' of (nx', q', out) \<Rightarrow>
        (nx', q', (case oq_front q of None \<Rightarrow> out | Some x \<Rightarrow> x # out)))"
| "oq_run (Oq_Splice xs # ops) nx q =
     (case push_all nx op_queue_ctor xs of (nx, r) \<Rightarrow>
      case oq_push_queue nx q r of (nx, q, r) \<Rightarrow> oq_run ops nx q)"

fun abs_run :: "oq_op list \<Rightarrow> nat list \<Rightarrow> nat list \<times> nat list" where
  "abs_run [] xs = (xs, [])"
| "abs_run (Oq_Push h # ops) xs = abs_run ops (xs @ [h])"
| "abs_run (Oq_Pop # ops) xs = (case abs_run ops (tl xs) of (ys, out) \<Rightarrow> (ys, take 1 xs @ out))"
| "abs_run (Oq_Splice zs # ops) xs = abs_run ops (xs @ zs)"

fun oq_fresh :: "oq_op list \<Rightarrow> nat list \<Rightarrow> bool" where
  "oq_fresh [] xs \<longleftrightarrow> True"
| "oq_fresh (Oq_Push h # ops) xs \<longleftrightarrow> h \<notin> set xs \<and> oq_fresh ops (xs @ [h])"
| "oq_fresh (Oq_Pop # ops) xs \<longleftrightarrow> oq_fresh ops (tl xs)"
| "oq_fresh (Oq_Splice zs # ops) xs \<longleftrightarrow> distinct zs \<and> set zs \<inter> set xs = {} \<and> oq_fresh ops (xs @ zs)"

lemma push_all_rep:
  "oq_rep nx r ys \<Longrightarrow> distinct zs \<Longrightarrow> set zs \<inter> set ys = {} \<Longrightarrow> push_all nx r zs = (nx', r') \<Longrightarrow>
   oq_rep nx' r' (ys @ zs) \<and> (\<forall>o1. o1 \<notin> set ys \<union> set zs \<longrightarrow> nx' o1 = nx o1)"
proof (induction zs arbitrary: nx r ys)
  case (Cons z zs)
  obtain nx1 r1 where p: "oq_push nx r z = (nx1, r1)" by force
  have step: "oq_rep nx1 r1 (ys @ [z])" "\<forall>o1. o1 \<notin> insert z (set ys) \<longrightarrow> nx1 o1 = nx o1"
    using oq_push_rep [OF Cons.prems(1) _ p] Cons.prems(3) by auto
  have "oq_rep nx' r' ((ys @ [z]) @ zs) \<and> (\<forall>o1. o1 \<notin> set (ys @ [z]) \<union> set zs \<longrightarrow> nx' o1 = nx1 o1)"
    by (rule Cons.IH [OF step(1)]) (use Cons.prems p in auto)
  with step(2) show ?case by auto
qed simp

lemma oq_run_refines:
  "oq_rep nx q xs \<Longrightarrow> oq_fresh ops xs \<Longrightarrow> oq_run ops nx q = (nx', q', out) \<Longrightarrow>
   \<exists>ys. abs_run ops xs = (ys, out) \<and> oq_rep nx' q' ys"
proof (induction ops arbitrary: nx q xs nx' q' out)
  case (Cons op ops)
  show ?case
  proof (cases op)
    case (Oq_Push h)
    obtain nx1 q1 where p: "oq_push nx q h = (nx1, q1)" by force
    with oq_push_rep [OF Cons.prems(1) _ p] Cons.IH [of nx1 q1 "xs @ [h]" nx' q' out] Cons.prems Oq_Push
    show ?thesis by simp
  next
    case Oq_Pop
    obtain nx1 q1 where p: "oq_pop nx q = (nx1, q1)" by force
    obtain nx2 q2 out2 where r: "oq_run ops nx1 q1 = (nx2, q2, out2)" by (cases "oq_run ops nx1 q1") auto
    have "oq_rep nx1 q1 (tl xs)" using oq_pop_rep [OF Cons.prems(1)] p by simp
    from Cons.IH [OF this _ r] Cons.prems(2) Oq_Pop
    obtain ys where "abs_run ops (tl xs) = (ys, out2)" "oq_rep nx2 q2 ys" by auto
    with Cons.prems(3) p r Oq_Pop oq_rep_front [OF Cons.prems(1)] show ?thesis
      by (cases xs) auto
  next
    case (Oq_Splice zs)
    obtain nx1 r1 where b: "push_all nx op_queue_ctor zs = (nx1, r1)" by force
    obtain nx2 q2 r2 where s: "oq_push_queue nx1 q r1 = (nx2, q2, r2)" by (cases "oq_push_queue nx1 q r1") auto
    have zs: "distinct zs" "set zs \<inter> set xs = {}" using Cons.prems(2) Oq_Splice by auto
    have rep: "oq_rep nx1 r1 zs" "\<forall>o1. o1 \<notin> set zs \<longrightarrow> nx1 o1 = nx o1"
      using push_all_rep [OF oq_rep_ctor zs(1) _ b] by auto
    have "oq_rep nx1 q xs" by (rule oq_rep_frame [OF Cons.prems(1)]) (use rep(2) zs(2) in auto)
    then have "oq_rep nx2 q2 (xs @ zs)" using oq_push_queue_rep [OF _ rep(1) _ s] zs(2) by auto
    with Cons.IH [of nx2 q2 "xs @ zs" nx' q' out] Cons.prems Oq_Splice b s show ?thesis by simp
  qed
qed simp

section \<open>Properties\<close>

text \<open>The intrusive operation queue of asio implements a list: for every history of pushes of
  operations not yet enqueued, pops, and splices of whole queues, the operations come out in the order
  they went in, and afterwards the pointers represent exactly the operations that remain, each of which
  (and nothing else unlinked) \<open>is_enqueued\<close> reports.\<close>

theorem op_queue_refines_list:
  assumes "oq_rep nx q xs" and "oq_fresh ops xs" and "oq_run ops nx q = (nx', q', out)"
  shows "\<exists>ys. abs_run ops xs = (ys, out) \<and> oq_rep nx' q' ys \<and> (oq_empty q' \<longleftrightarrow> ys = []) \<and>
    (\<forall>o1. (o1 \<in> set ys \<or> nx' o1 = None) \<longrightarrow> (is_enqueued nx' q' o1 \<longleftrightarrow> o1 \<in> set ys))"
proof -
  obtain ys where "abs_run ops xs = (ys, out)" "oq_rep nx' q' ys"
    using oq_run_refines [OF assms] by blast
  with is_enqueued_rep oq_rep_empty show ?thesis by blast
qed

theorem op_queue_refines_list_witness:
  "\<exists>nx' q'. oq_run [Oq_Push 7, Oq_Splice [8, 9], Oq_Pop, Oq_Pop] (\<lambda>_. None) op_queue_ctor = (nx', q', [7, 8]) \<and>
     oq_rep nx' q' [9]"
proof -
  obtain nx' q' out where r: "oq_run [Oq_Push 7, Oq_Splice [8, 9], Oq_Pop, Oq_Pop] (\<lambda>_. None) op_queue_ctor = (nx', q', out)"
    by (cases "oq_run [Oq_Push 7, Oq_Splice [8, 9], Oq_Pop, Oq_Pop] (\<lambda>_. None) op_queue_ctor") auto
  have f: "oq_fresh [Oq_Push 7, Oq_Splice [8, 9], Oq_Pop, Oq_Pop] []" by simp
  from op_queue_refines_list [OF oq_rep_ctor f r] r show ?thesis by auto
qed

end
