(* ===== verification/Asio_Address.thy ===== *)
theory Asio_Address
  imports Xsix_Prelude
begin

unbundle bit_operations_syntax

text \<open>
  Internet addresses and networks of asio: \<open>ip/impl/address_v4.ipp\<close>, \<open>ip/impl/address_v6.ipp\<close>,
  \<open>ip/network_v4.hpp\<close>, \<open>ip/impl/network_v4.ipp\<close>, \<open>ip/impl/network_v6.ipp\<close> and the address iterators. An
  IPv4 address is the four bytes of \<open>s_addr\<close> in memory, in network order, and \<open>uint_type\<close> is a 32-bit
  word; an IPv6 address is its sixteen bytes and its scope. The text forms use \<open>inet_pton\<close> and
  \<open>inet_ntop\<close> of the platform and are not modelled.
\<close>

section \<open>IPv4 addresses\<close>

datatype address_v4 = V4 (v4_b0: "8 word") (v4_b1: "8 word") (v4_b2: "8 word") (v4_b3: "8 word")

definition network_to_host_long :: "address_v4 \<Rightarrow> 32 word" where
  "network_to_host_long v =
     push_bit 24 (ucast (v4_b0 v)) OR push_bit 16 (ucast (v4_b1 v)) OR push_bit 8 (ucast (v4_b2 v)) OR ucast (v4_b3 v)"

definition host_to_network_long :: "32 word \<Rightarrow> address_v4" where
  "host_to_network_long value =
     V4 (ucast (drop_bit 24 value AND 0xFF)) (ucast (drop_bit 16 value AND 0xFF))
        (ucast (drop_bit 8 value AND 0xFF)) (ucast (value AND 0xFF))"

definition v4_default :: address_v4 where
  "v4_default = V4 0 0 0 0"

definition v4_of_bytes :: "8 word list \<Rightarrow> address_v4" where
  "v4_of_bytes bytes = V4 (bytes ! 0) (bytes ! 1) (bytes ! 2) (bytes ! 3)"

definition v4_of_uint :: "32 word \<Rightarrow> address_v4" where
  "v4_of_uint addr = host_to_network_long addr"

definition v4_to_bytes :: "address_v4 \<Rightarrow> 8 word list" where
  "v4_to_bytes a = [v4_b0 a, v4_b1 a, v4_b2 a, v4_b3 a]"

definition v4_to_uint :: "address_v4 \<Rightarrow> 32 word" where
  "v4_to_uint a = network_to_host_long a"

definition v4_is_loopback :: "address_v4 \<Rightarrow> bool" where
  "v4_is_loopback a \<longleftrightarrow> v4_to_uint a AND 0xFF000000 = 0x7F000000"

definition v4_is_unspecified :: "address_v4 \<Rightarrow> bool" where
  "v4_is_unspecified a \<longleftrightarrow> v4_to_uint a = 0"

definition v4_is_class_a :: "address_v4 \<Rightarrow> bool" where
  "v4_is_class_a a \<longleftrightarrow> v4_to_uint a AND 0x80000000 = 0"

definition v4_is_class_b :: "address_v4 \<Rightarrow> bool" where
  "v4_is_class_b a \<longleftrightarrow> v4_to_uint a AND 0xC0000000 = 0x80000000"

definition v4_is_class_c :: "address_v4 \<Rightarrow> bool" where
  "v4_is_class_c a \<longleftrightarrow> v4_to_uint a AND 0xE0000000 = 0xC0000000"

definition v4_is_multicast :: "address_v4 \<Rightarrow> bool" where
  "v4_is_multicast a \<longleftrightarrow> v4_to_uint a AND 0xF0000000 = 0xE0000000"

definition v4_broadcast :: "address_v4 \<Rightarrow> address_v4 \<Rightarrow> address_v4" where
  "v4_broadcast addr msk = v4_of_uint (v4_to_uint addr OR (v4_to_uint msk XOR 0xFFFFFFFF))"

definition v4_netmask :: "address_v4 \<Rightarrow> address_v4" where
  "v4_netmask addr =
     (if v4_is_class_a addr then v4_of_uint 0xFF000000
      else if v4_is_class_b addr then v4_of_uint 0xFFFF0000
      else if v4_is_class_c addr then v4_of_uint 0xFFFFFF00
      else v4_of_uint 0xFFFFFFFF)"

definition v4_inc :: "address_v4 \<Rightarrow> address_v4" where
  "v4_inc a = v4_of_uint ((v4_to_uint a + 1) AND 0xFFFFFFFF)"

definition v4_dec :: "address_v4 \<Rightarrow> address_v4" where
  "v4_dec a = v4_of_uint ((v4_to_uint a - 1) AND 0xFFFFFFFF)"

section \<open>IPv4 networks\<close>

datatype addr_error = Out_Of_Range string | Invalid_Argument string | Bad_Address_Cast

record network_v4 =
  n4_address :: address_v4
  n4_prefix_length :: nat

definition network_v4_prefix :: "address_v4 \<Rightarrow> nat \<Rightarrow> addr_error + network_v4" where
  "network_v4_prefix addr prefix_len =
     (if prefix_len > 32 then Inl (Out_Of_Range ''prefix length too large'')
      else Inr \<lparr> n4_address = addr, n4_prefix_length = prefix_len \<rparr>)"

text \<open>The bits of one mask byte, with the fall-through of the \<open>switch\<close>, and whether the mask is finished.\<close>

definition mask_byte :: "8 word \<Rightarrow> (nat \<times> bool) option" where
  "mask_byte b =
     (if b = 255 then Some (8, False)
      else if b = 254 then Some (7, True)
      else if b = 252 then Some (6, True)
      else if b = 248 then Some (5, True)
      else if b = 240 then Some (4, True)
      else if b = 224 then Some (3, True)
      else if b = 192 then Some (2, True)
      else if b = 128 then Some (1, True)
      else if b = 0 then Some (0, True)
      else None)"

fun mask_loop :: "8 word list \<Rightarrow> bool \<Rightarrow> nat \<Rightarrow> addr_error + nat" where
  "mask_loop [] finished n = Inr n"
| "mask_loop (b # bs) finished n =
     (if finished then
        (if b \<noteq> 0 then Inl (Invalid_Argument ''non-contiguous netmask'') else mask_loop bs finished n)
      else case mask_byte b of
        None \<Rightarrow> Inl (Out_Of_Range ''non-contiguous netmask'')
      | Some (k, fin) \<Rightarrow> mask_loop bs fin (n + k))"

definition network_v4_mask :: "address_v4 \<Rightarrow> address_v4 \<Rightarrow> addr_error + network_v4" where
  "network_v4_mask addr msk =
     (case mask_loop (v4_to_bytes msk) False 0 of
        Inl e \<Rightarrow> Inl e
      | Inr n \<Rightarrow> Inr \<lparr> n4_address = addr, n4_prefix_length = n \<rparr>)"

definition n4_netmask :: "network_v4 \<Rightarrow> address_v4" where
  "n4_netmask n =
     (let nmbits = 0xFFFFFFFF :: 32 word;
          nmbits = (if n4_prefix_length n = 0 then 0 else push_bit (32 - n4_prefix_length n) nmbits)
      in v4_of_uint nmbits)"

definition n4_network :: "network_v4 \<Rightarrow> address_v4" where
  "n4_network n = v4_of_uint (v4_to_uint (n4_address n) AND v4_to_uint (n4_netmask n))"

definition n4_broadcast :: "network_v4 \<Rightarrow> address_v4" where
  "n4_broadcast n =
     v4_of_uint (v4_to_uint (n4_network n) OR (v4_to_uint (n4_netmask n) XOR 0xFFFFFFFF))"

definition n4_canonical :: "network_v4 \<Rightarrow> addr_error + network_v4" where
  "n4_canonical n = network_v4_mask (n4_network n) (n4_netmask n)"

definition n4_is_host :: "network_v4 \<Rightarrow> bool" where
  "n4_is_host n \<longleftrightarrow> n4_prefix_length n = 32"

definition n4_hosts :: "network_v4 \<Rightarrow> address_v4 \<times> address_v4" where
  "n4_hosts n =
     (if n4_is_host n then (n4_address n, v4_of_uint (v4_to_uint (n4_address n) + 1))
      else (v4_of_uint (v4_to_uint (n4_network n) + 1), n4_broadcast n))"

definition n4_is_subnet_of :: "network_v4 \<Rightarrow> network_v4 \<Rightarrow> bool" where
  "n4_is_subnet_of n other =
     (if n4_prefix_length other \<ge> n4_prefix_length n then False
      else case network_v4_prefix (n4_address n) (n4_prefix_length other) of
        Inl e \<Rightarrow> False
      | Inr me \<Rightarrow> n4_canonical other = n4_canonical me)"

definition range4_size :: "address_v4 \<times> address_v4 \<Rightarrow> 32 word" where
  "range4_size r = v4_to_uint (snd r) - v4_to_uint (fst r)"

definition range4_find :: "address_v4 \<times> address_v4 \<Rightarrow> address_v4 \<Rightarrow> address_v4" where
  "range4_find r addr =
     (if v4_to_uint addr \<ge> v4_to_uint (fst r) \<and> v4_to_uint addr < v4_to_uint (snd r) then addr else snd r)"

section \<open>IPv6 addresses\<close>

record address_v6 =
  v6_bytes :: "8 word list"
  v6_scope_id :: nat

definition v6_default :: address_v6 where
  "v6_default = \<lparr> v6_bytes = replicate 16 0, v6_scope_id = 0 \<rparr>"

definition v6_of_bytes :: "8 word list \<Rightarrow> nat \<Rightarrow> address_v6" where
  "v6_of_bytes bytes scope = \<lparr> v6_bytes = take 16 bytes, v6_scope_id = scope \<rparr>"

definition v6_to_bytes :: "address_v6 \<Rightarrow> 8 word list" where
  "v6_to_bytes a = v6_bytes a"

definition v6_is_loopback :: "address_v6 \<Rightarrow> bool" where
  "v6_is_loopback a \<longleftrightarrow> (\<forall>i < 15. v6_bytes a ! i = 0) \<and> v6_bytes a ! 15 = 1"

definition v6_is_unspecified :: "address_v6 \<Rightarrow> bool" where
  "v6_is_unspecified a \<longleftrightarrow> (\<forall>i < 16. v6_bytes a ! i = 0)"

definition v6_is_link_local :: "address_v6 \<Rightarrow> bool" where
  "v6_is_link_local a \<longleftrightarrow> v6_bytes a ! 0 = 0xFE \<and> v6_bytes a ! 1 AND 0xC0 = 0x80"

definition v6_is_site_local :: "address_v6 \<Rightarrow> bool" where
  "v6_is_site_local a \<longleftrightarrow> v6_bytes a ! 0 = 0xFE \<and> v6_bytes a ! 1 AND 0xC0 = 0xC0"

definition v6_is_v4_mapped :: "address_v6 \<Rightarrow> bool" where
  "v6_is_v4_mapped a \<longleftrightarrow> (\<forall>i < 10. v6_bytes a ! i = 0) \<and> v6_bytes a ! 10 = 0xFF \<and> v6_bytes a ! 11 = 0xFF"

definition v6_is_v4_compatible :: "address_v6 \<Rightarrow> bool" where
  "v6_is_v4_compatible a \<longleftrightarrow> (\<forall>i < 12. v6_bytes a ! i = 0) \<and>
     \<not> (v6_bytes a ! 12 = 0 \<and> v6_bytes a ! 13 = 0 \<and> v6_bytes a ! 14 = 0 \<and>
        (v6_bytes a ! 15 = 0 \<or> v6_bytes a ! 15 = 1))"

definition v6_is_multicast :: "address_v6 \<Rightarrow> bool" where
  "v6_is_multicast a \<longleftrightarrow> v6_bytes a ! 0 = 0xFF"

definition v6_is_multicast_global :: "address_v6 \<Rightarrow> bool" where
  "v6_is_multicast_global a \<longleftrightarrow> v6_bytes a ! 0 = 0xFF \<and> v6_bytes a ! 1 AND 0x0F = 0x0E"

definition v6_is_multicast_link_local :: "address_v6 \<Rightarrow> bool" where
  "v6_is_multicast_link_local a \<longleftrightarrow> v6_bytes a ! 0 = 0xFF \<and> v6_bytes a ! 1 AND 0x0F = 0x02"

definition v6_is_multicast_node_local :: "address_v6 \<Rightarrow> bool" where
  "v6_is_multicast_node_local a \<longleftrightarrow> v6_bytes a ! 0 = 0xFF \<and> v6_bytes a ! 1 AND 0x0F = 0x01"

definition v6_is_multicast_org_local :: "address_v6 \<Rightarrow> bool" where
  "v6_is_multicast_org_local a \<longleftrightarrow> v6_bytes a ! 0 = 0xFF \<and> v6_bytes a ! 1 AND 0x0F = 0x08"

definition v6_is_multicast_site_local :: "address_v6 \<Rightarrow> bool" where
  "v6_is_multicast_site_local a \<longleftrightarrow> v6_bytes a ! 0 = 0xFF \<and> v6_bytes a ! 1 AND 0x0F = 0x05"

definition v6_to_v4 :: "address_v6 \<Rightarrow> addr_error + address_v4" where
  "v6_to_v4 a =
     (if \<not> v6_is_v4_mapped a \<and> \<not> v6_is_v4_compatible a then Inl Bad_Address_Cast
      else Inr (v4_of_bytes [v6_bytes a ! 12, v6_bytes a ! 13, v6_bytes a ! 14, v6_bytes a ! 15]))"

text \<open>\<open>memcmp\<close> on the bytes, and the two comparisons.\<close>

fun memcmp_bytes :: "8 word list \<Rightarrow> 8 word list \<Rightarrow> int" where
  "memcmp_bytes (x # xs) (y # ys) = (if x < y then -1 else if x > y then 1 else memcmp_bytes xs ys)"
| "memcmp_bytes _ _ = 0"

definition v6_eq :: "address_v6 \<Rightarrow> address_v6 \<Rightarrow> bool" where
  "v6_eq a1 a2 \<longleftrightarrow> memcmp_bytes (v6_bytes a1) (v6_bytes a2) = 0 \<and> v6_scope_id a1 = v6_scope_id a2"

definition v6_less :: "address_v6 \<Rightarrow> address_v6 \<Rightarrow> bool" where
  "v6_less a1 a2 =
     (let memcmp_result = memcmp_bytes (v6_bytes a1) (v6_bytes a2) in
      if memcmp_result < 0 then True
      else if memcmp_result > 0 then False
      else v6_scope_id a1 < v6_scope_id a2)"

definition v6_loopback :: address_v6 where
  "v6_loopback = v6_default\<lparr>v6_bytes := (v6_bytes v6_default)[15 := 1]\<rparr>"

definition make_v4_mapped :: "address_v4 \<Rightarrow> address_v6" where
  "make_v4_mapped a = v6_of_bytes ([0, 0, 0, 0, 0, 0, 0, 0, 0, 0, 0xFF, 0xFF] @ v4_to_bytes a) 0"

definition v4_compatible :: "address_v4 \<Rightarrow> address_v6" where
  "v4_compatible a = v6_of_bytes ([0, 0, 0, 0, 0, 0, 0, 0, 0, 0, 0, 0] @ v4_to_bytes a) 0"

definition make_v4_of_mapped :: "address_v6 \<Rightarrow> addr_error + address_v4" where
  "make_v4_of_mapped a =
     (if \<not> v6_is_v4_mapped a then Inl Bad_Address_Cast
      else Inr (v4_of_bytes [v6_to_bytes a ! 12, v6_to_bytes a ! 13, v6_to_bytes a ! 14, v6_to_bytes a ! 15]))"

text \<open>The loops of the iterator, from byte \<open>i\<close> down to byte 0.\<close>

fun inc_from :: "8 word list \<Rightarrow> nat \<Rightarrow> 8 word list" where
  "inc_from bs i =
     (if bs ! i < 0xFF then bs[i := bs ! i + 1]
      else let bs = bs[i := 0] in case i of 0 \<Rightarrow> bs | Suc j \<Rightarrow> inc_from bs j)"

fun dec_from :: "8 word list \<Rightarrow> nat \<Rightarrow> 8 word list" where
  "dec_from bs i =
     (if bs ! i > 0 then bs[i := bs ! i - 1]
      else let bs = bs[i := 0xFF] in case i of 0 \<Rightarrow> bs | Suc j \<Rightarrow> dec_from bs j)"

declare inc_from.simps [simp del] dec_from.simps [simp del]

definition v6_inc :: "address_v6 \<Rightarrow> address_v6" where
  "v6_inc a = a\<lparr>v6_bytes := inc_from (v6_bytes a) 15\<rparr>"

definition v6_dec :: "address_v6 \<Rightarrow> address_v6" where
  "v6_dec a = a\<lparr>v6_bytes := dec_from (v6_bytes a) 15\<rparr>"

section \<open>IPv6 networks\<close>

record network_v6 =
  n6_address :: address_v6
  n6_prefix_length :: nat

definition network_v6_prefix :: "address_v6 \<Rightarrow> nat \<Rightarrow> addr_error + network_v6" where
  "network_v6_prefix addr prefix_len =
     (if prefix_len > 128 then Inl (Out_Of_Range ''prefix length too large'')
      else Inr \<lparr> n6_address = addr, n6_prefix_length = prefix_len \<rparr>)"

text \<open>The byte \<open>i\<close> of the first and of the last address; the \<open>int\<close> mask is cut to the byte.\<close>

definition first_byte :: "nat \<Rightarrow> nat \<Rightarrow> 8 word \<Rightarrow> 8 word" where
  "first_byte prefix_length i b =
     (if prefix_length \<le> i * 8 then 0
      else if prefix_length < (i + 1) * 8 then b AND ucast (drop_bit (prefix_length mod 8) (0xFF00 :: 32 word))
      else b)"

definition last_byte :: "nat \<Rightarrow> nat \<Rightarrow> 8 word \<Rightarrow> 8 word" where
  "last_byte prefix_length i b =
     (if prefix_length \<le> i * 8 then 0xFF
      else if prefix_length < (i + 1) * 8 then b OR ucast (drop_bit (prefix_length mod 8) (0xFF :: 32 word))
      else b)"

definition n6_network :: "network_v6 \<Rightarrow> address_v6" where
  "n6_network n =
     v6_of_bytes (map (\<lambda>i. first_byte (n6_prefix_length n) i (v6_to_bytes (n6_address n) ! i)) [0..<16])
       (v6_scope_id (n6_address n))"

definition n6_hosts :: "network_v6 \<Rightarrow> address_v6 \<times> address_v6" where
  "n6_hosts n =
     (let begin_bytes = map (\<lambda>i. first_byte (n6_prefix_length n) i (v6_to_bytes (n6_address n) ! i)) [0..<16];
          end_bytes = map (\<lambda>i. last_byte (n6_prefix_length n) i (v6_to_bytes (n6_address n) ! i)) [0..<16]
      in (v6_of_bytes begin_bytes (v6_scope_id (n6_address n)),
          v6_inc (v6_of_bytes end_bytes (v6_scope_id (n6_address n)))))"

definition n6_canonical :: "network_v6 \<Rightarrow> addr_error + network_v6" where
  "n6_canonical n = network_v6_prefix (n6_network n) (n6_prefix_length n)"

definition n6_is_subnet_of :: "network_v6 \<Rightarrow> network_v6 \<Rightarrow> bool" where
  "n6_is_subnet_of n other =
     (if n6_prefix_length other \<ge> n6_prefix_length n then False
      else case network_v6_prefix (n6_address n) (n6_prefix_length other) of
        Inl e \<Rightarrow> False
      | Inr me \<Rightarrow> (case (n6_canonical other, n6_canonical me) of
          (Inr a, Inr b) \<Rightarrow> v6_eq (n6_address a) (n6_address b) \<and> n6_prefix_length a = n6_prefix_length b
        | _ \<Rightarrow> False))"

section \<open>Conversions\<close>

lemma bit_255: "bit (255 :: int) n \<longleftrightarrow> n < 8" "bit (255 :: nat) n \<longleftrightarrow> n < 8"
  "bit (0xFFFFFFFF :: int) n \<longleftrightarrow> n < 32" "bit (0xFFFFFFFF :: nat) n \<longleftrightarrow> n < 32"
proof -
  have "(255 :: int) = mask 8" "(255 :: nat) = mask 8" "(0xFFFFFFFF :: int) = mask 32" "(0xFFFFFFFF :: nat) = mask 32"
    by (simp_all add: mask_eq_exp_minus_1)
  then show "bit (255 :: int) n \<longleftrightarrow> n < 8" "bit (255 :: nat) n \<longleftrightarrow> n < 8"
    "bit (0xFFFFFFFF :: int) n \<longleftrightarrow> n < 32" "bit (0xFFFFFFFF :: nat) n \<longleftrightarrow> n < 32"
    by (simp_all only: bit_mask_iff possible_bit_def) simp_all
qed

lemma byte_beyond: "8 \<le> n \<Longrightarrow> \<not> bit (b :: 8 word) n"
  using bit_imp_le_length [of b n] by auto

lemma v4_to_of_uint [simp]: "v4_to_uint (v4_of_uint w) = w"
proof (rule bit_word_eqI)
  fix n assume n: "n < LENGTH(32)"
  consider "n < 8" | "8 \<le> n" "n < 16" | "16 \<le> n" "n < 24" | "24 \<le> n" "n < 32" using n by force
  then show "bit (v4_to_uint (v4_of_uint w)) n \<longleftrightarrow> bit w n"
    by cases (auto simp: v4_to_uint_def v4_of_uint_def network_to_host_long_def host_to_network_long_def
        bit_simps bit_255)
qed

lemma v4_of_to_uint [simp]: "v4_of_uint (v4_to_uint a) = a"
proof (cases a)
  case (V4 x y z w)
  show ?thesis unfolding V4
    by (auto simp: v4_to_uint_def v4_of_uint_def network_to_host_long_def host_to_network_long_def intro!: bit_word_eqI)
       (auto simp: bit_simps bit_255 byte_beyond)
qed

lemma v4_to_uint_inject: "v4_to_uint a = v4_to_uint b \<longleftrightarrow> a = b"
  by (metis v4_of_to_uint)

lemma v4_bytes_roundtrip [simp]: "v4_of_bytes (v4_to_bytes a) = a"
  "length bs = 4 \<Longrightarrow> v4_to_bytes (v4_of_bytes bs) = bs"
  by (cases a, simp add: v4_of_bytes_def v4_to_bytes_def)
     (auto simp: v4_of_bytes_def v4_to_bytes_def numeral_eq_Suc length_Suc_conv)

section \<open>Netmasks\<close>

definition netmask_word :: "nat \<Rightarrow> 32 word" where
  "netmask_word p = (if p = 0 then 0 else push_bit (32 - p) 0xFFFFFFFF)"

lemma n4_netmask_word: "v4_to_uint (n4_netmask n) = netmask_word (n4_prefix_length n)"
  by (simp add: n4_netmask_def netmask_word_def Let_def)

lemma bit_netmask: "p \<le> 32 \<Longrightarrow> bit (netmask_word p) i \<longleftrightarrow> 32 - p \<le> i \<and> i < 32"
  by (auto simp: netmask_word_def bit_simps bit_255)

lemma netmask_mono: "p \<le> q \<Longrightarrow> q \<le> 32 \<Longrightarrow> netmask_word p AND netmask_word q = netmask_word p"
  by (rule bit_word_eqI) (auto simp: bit_simps bit_netmask)

definition mask_bits :: "nat \<Rightarrow> 8 word" where
  "mask_bits k = [0, 128, 192, 224, 240, 248, 252, 254, 255] ! k"

lemma mask_byte_iff: "mask_byte b = Some (k, fin) \<longleftrightarrow> k \<le> 8 \<and> b = mask_bits k \<and> (fin \<longleftrightarrow> k < 8)"
proof -
  have "k \<le> 8 \<Longrightarrow> k = 0 \<or> k = 1 \<or> k = 2 \<or> k = 3 \<or> k = 4 \<or> k = 5 \<or> k = 6 \<or> k = 7 \<or> k = 8" by linarith
  then show ?thesis by (auto simp: mask_byte_def mask_bits_def split: if_splits)
qed

lemma bit_mask_bits: "k \<le> 8 \<Longrightarrow> i < 8 \<Longrightarrow> bit (mask_bits k) i \<longleftrightarrow> 8 - k \<le> i"
proof -
  assume a: "k \<le> 8" "i < 8"
  then have "k = 0 \<or> k = 1 \<or> k = 2 \<or> k = 3 \<or> k = 4 \<or> k = 5 \<or> k = 6 \<or> k = 7 \<or> k = 8"
    "i = 0 \<or> i = 1 \<or> i = 2 \<or> i = 3 \<or> i = 4 \<or> i = 5 \<or> i = 6 \<or> i = 7" by linarith+
  then show ?thesis by (elim disjE) (simp_all add: mask_bits_def)
qed

text \<open>The masks the constructor accepts, byte by byte.\<close>

fun mask_pattern :: "nat \<Rightarrow> nat \<Rightarrow> 8 word list" where
  "mask_pattern m 0 = []"
| "mask_pattern m (Suc l) = mask_bits (min 8 m) # mask_pattern (m - 8) l"

lemma mask_bits_inj: "j \<le> 8 \<Longrightarrow> k \<le> 8 \<Longrightarrow> mask_bits j = mask_bits k \<Longrightarrow> j = k"
  using mask_byte_iff [of "mask_bits j" j "j < 8"] mask_byte_iff [of "mask_bits j" k "k < 8"] by auto

lemma mask_loop_finished: "mask_loop bs True n = Inr p \<longleftrightarrow> p = n \<and> bs = mask_pattern 0 (length bs)"
  by (induction bs) (auto simp: mask_bits_def)

lemma mask_loop_iff:
  "mask_loop bs False n = Inr p \<longleftrightarrow> (\<exists>m \<le> 8 * length bs. p = n + m \<and> bs = mask_pattern m (length bs))"
proof (induction bs arbitrary: n)
  case (Cons b bs)
  show ?case
  proof (cases "mask_byte b")
    case None
    then have "b \<noteq> mask_bits (min 8 m)" for m using mask_byte_iff [of b "min 8 m" "min 8 m < 8"] by auto
    then show ?thesis using None by auto
  next
    case (Some kf)
    then obtain k fin where kf: "mask_byte b = Some (k, fin)" by (cases kf) auto
    then have k: "k \<le> 8" "b = mask_bits k" "fin \<longleftrightarrow> k < 8" by (auto simp: mask_byte_iff)
    have inj: "b = mask_bits (min 8 m) \<longleftrightarrow> min 8 m = k" for m using k mask_bits_inj [of "min 8 m" k] by auto
    show ?thesis
    proof (cases "k < 8")
      case True
      then have "min 8 m = k \<longleftrightarrow> m = k" for m by auto
      then show ?thesis using kf k(1,3) True by (auto simp: inj mask_loop_finished)
    next
      case False
      then have k8: "k = 8" using k(1) by simp
      have "(\<exists>m \<le> 8 * length bs. p = n + 8 + m \<and> bs = mask_pattern m (length bs)) \<longleftrightarrow>
          (\<exists>m \<le> 8 * length (b # bs). p = n + m \<and> b # bs = mask_pattern m (length (b # bs)))"
      proof
        assume "\<exists>m \<le> 8 * length bs. p = n + 8 + m \<and> bs = mask_pattern m (length bs)"
        then obtain m where "m \<le> 8 * length bs" "p = n + 8 + m" "bs = mask_pattern m (length bs)" by blast
        then show "\<exists>m \<le> 8 * length (b # bs). p = n + m \<and> b # bs = mask_pattern m (length (b # bs))"
          by (intro exI [of _ "8 + m"]) (simp add: k(2) k8)
      next
        assume "\<exists>m \<le> 8 * length (b # bs). p = n + m \<and> b # bs = mask_pattern m (length (b # bs))"
        then obtain m where "m \<le> 8 * length (b # bs)" "p = n + m" "b # bs = mask_pattern m (length (b # bs))" by blast
        moreover from this have "8 \<le> m" using inj [of m] k8 by auto
        ultimately show "\<exists>m \<le> 8 * length bs. p = n + 8 + m \<and> bs = mask_pattern m (length bs)"
          by (intro exI [of _ "m - 8"]) auto
      qed
      then show ?thesis using kf k(3) k8 Cons.IH [of "n + 8"] by simp
    qed
  qed
qed auto

lemma mask_pattern_netmask: "p \<le> 32 \<Longrightarrow> v4_to_bytes (v4_of_uint (netmask_word p)) = mask_pattern p 4"
proof -
  assume p: "p \<le> 32"
  have b: "(ucast (drop_bit j (netmask_word p) AND 0xFF) :: 8 word) = mask_bits (min 8 (p - (24 - j)))" if "j \<le> 24" for j
  proof (rule bit_word_eqI)
    fix i assume "i < LENGTH(8)"
    then show "bit (ucast (drop_bit j (netmask_word p) AND 0xFF) :: 8 word) i \<longleftrightarrow> bit (mask_bits (min 8 (p - (24 - j)))) i"
      using p that by (auto simp: bit_simps bit_255 bit_netmask bit_mask_bits)
  qed
  show ?thesis using b [of 24] b [of 16] b [of 8] b [of 0]
    by (simp add: v4_to_bytes_def v4_of_uint_def host_to_network_long_def numeral_eq_Suc)
qed

lemma network_v4_mask_iff:
  "network_v4_mask addr msk = Inr n \<longleftrightarrow>
     n4_prefix_length n \<le> 32 \<and> n4_address n = addr \<and> n4_netmask n = msk"
proof -
  have nm: "n4_netmask n = v4_of_uint (netmask_word (n4_prefix_length n))"
    by (simp add: n4_netmask_def netmask_word_def Let_def)
  have len: "length (v4_to_bytes msk) = 4" by (simp add: v4_to_bytes_def)
  have "network_v4_mask addr msk = Inr n \<longleftrightarrow>
      mask_loop (v4_to_bytes msk) False 0 = Inr (n4_prefix_length n) \<and> n4_address n = addr"
    by (cases n) (auto simp: network_v4_mask_def split: sum.splits)
  also have "mask_loop (v4_to_bytes msk) False 0 = Inr (n4_prefix_length n) \<longleftrightarrow>
      n4_prefix_length n \<le> 32 \<and> v4_to_bytes msk = mask_pattern (n4_prefix_length n) 4"
    by (auto simp: mask_loop_iff len)
  also have "\<dots> \<longleftrightarrow> n4_prefix_length n \<le> 32 \<and> n4_netmask n = msk"
    using mask_pattern_netmask [of "n4_prefix_length n"] unfolding nm
    by (metis v4_bytes_roundtrip(1))
  finally show ?thesis by blast
qed

section \<open>Subnets\<close>

definition in_network :: "network_v4 \<Rightarrow> address_v4 \<Rightarrow> bool" where
  "in_network n x \<longleftrightarrow> v4_to_uint x AND netmask_word (n4_prefix_length n) =
     v4_to_uint (n4_address n) AND netmask_word (n4_prefix_length n)"

lemma n4_canonical_eq:
  "n4_prefix_length n \<le> 32 \<Longrightarrow>
   n4_canonical n = Inr \<lparr> n4_address = n4_network n, n4_prefix_length = n4_prefix_length n \<rparr>"
  unfolding n4_canonical_def by (subst network_v4_mask_iff) (simp add: n4_netmask_def)

lemma n4_network_uint:
  "v4_to_uint (n4_network n) = v4_to_uint (n4_address n) AND netmask_word (n4_prefix_length n)"
  by (simp add: n4_network_def n4_netmask_word)

lemma subnet_iff:
  assumes "n4_prefix_length n \<le> 32" "n4_prefix_length other \<le> 32"
  shows "n4_is_subnet_of n other \<longleftrightarrow> n4_prefix_length other < n4_prefix_length n \<and>
    v4_to_uint (n4_address other) AND netmask_word (n4_prefix_length other) =
    v4_to_uint (n4_address n) AND netmask_word (n4_prefix_length other)"
proof (cases "n4_prefix_length other < n4_prefix_length n")
  case True
  let ?me = "\<lparr> n4_address = n4_address n, n4_prefix_length = n4_prefix_length other \<rparr>"
  have "n4_is_subnet_of n other \<longleftrightarrow> n4_canonical other = n4_canonical ?me"
    using True assms by (simp add: n4_is_subnet_of_def network_v4_prefix_def)
  also have "\<dots> \<longleftrightarrow> n4_network other = n4_network ?me"
    using n4_canonical_eq [of other] n4_canonical_eq [of ?me] assms(2) by simp
  also have "\<dots> \<longleftrightarrow> v4_to_uint (n4_network other) = v4_to_uint (n4_network ?me)"
    by (simp add: v4_to_uint_inject)
  finally show ?thesis using True by (simp add: n4_network_uint)
qed (simp add: n4_is_subnet_of_def)

lemma subnet_contains:
  assumes "n4_prefix_length n \<le> 32" "n4_prefix_length other < n4_prefix_length n"
  shows "(\<forall>x. in_network n x \<longrightarrow> in_network other x) \<longleftrightarrow>
    v4_to_uint (n4_address other) AND netmask_word (n4_prefix_length other) =
    v4_to_uint (n4_address n) AND netmask_word (n4_prefix_length other)"
proof -
  let ?M = "netmask_word (n4_prefix_length n)" and ?O = "netmask_word (n4_prefix_length other)"
  have mo: "?M AND ?O = ?O"
    using netmask_mono [of "n4_prefix_length other" "n4_prefix_length n"] assms by (simp add: and.commute)
  have sub: "x AND ?O = y AND ?O" if "x AND ?M = y AND ?M" for x y
    using arg_cong [OF that, of "\<lambda>w. w AND ?O"] mo by (simp add: and.assoc)
  show ?thesis
  proof
    assume all: "\<forall>x. in_network n x \<longrightarrow> in_network other x"
    have "in_network n (n4_address n)" by (simp add: in_network_def)
    then have "in_network other (n4_address n)" using all by blast
    then show "v4_to_uint (n4_address other) AND ?O = v4_to_uint (n4_address n) AND ?O"
      by (simp add: in_network_def)
  next
    assume "v4_to_uint (n4_address other) AND ?O = v4_to_uint (n4_address n) AND ?O"
    then show "\<forall>x. in_network n x \<longrightarrow> in_network other x"
      unfolding in_network_def using sub by metis
  qed
qed

section \<open>Counting in sixteen bytes\<close>

text \<open>The value of a byte list, most significant byte first.\<close>

definition be_val :: "8 word list \<Rightarrow> int" where
  "be_val bs = foldl (\<lambda>v b. v * 256 + uint b) 0 bs"

lemma be_val_simps [simp]: "be_val [] = 0" "be_val (bs @ [b]) = be_val bs * 256 + uint b"
  by (simp_all add: be_val_def)

lemma byte_range: "0 \<le> uint (b :: 8 word)" "uint b \<le> 255"
  using uint_bounded [of b] by auto

lemma be_val_range: "0 \<le> be_val bs \<and> be_val bs < 256 ^ length bs"
proof (induction bs rule: rev_induct)
  case (snoc b bs)
  then show ?case using byte_range [of b] by auto
qed simp

lemma be_val_inj: "length xs = length ys \<Longrightarrow> be_val xs = be_val ys \<Longrightarrow> xs = ys"
proof (induction xs arbitrary: ys rule: rev_induct)
  case (snoc x xs)
  obtain zs z where ys: "ys = zs @ [z]" using snoc.prems(1) by (cases ys rule: rev_cases) auto
  have e: "be_val xs * 256 + uint x = be_val zs * 256 + uint z" using snoc.prems(2) ys by simp
  have "uint x = (be_val xs * 256 + uint x) mod 256" "uint z = (be_val zs * 256 + uint z) mod 256"
    using byte_range [of x] byte_range [of z] by simp_all
  then have "uint x = uint z" using e by simp
  then show ?case using e snoc.IH [of zs] snoc.prems(1) ys by (simp add: word_uint_eq_iff)
qed simp

lemma length_inc_from [simp]: "length (inc_from bs i) = length bs"
  by (induction bs i rule: inc_from.induct) (subst inc_from.simps, auto simp: Let_def split: nat.splits)

lemma length_dec_from [simp]: "length (dec_from bs i) = length bs"
  by (induction bs i rule: dec_from.induct) (subst dec_from.simps, auto simp: Let_def split: nat.splits)

text \<open>A byte that does not carry, and one that does.\<close>

lemma byte_carry:
  assumes "0 \<le> v" "v < 256 ^ i" "0 \<le> (b :: int)" "b < 256"
  shows "v * 256 + b = (v * 256 + b) mod 256 ^ Suc i"
proof -
  have "v * 256 + b < 256 ^ i * 256" using assms by linarith
  then show ?thesis using assms by (simp add: mult.commute)
qed

lemma byte_inc:
  fixes b :: "8 word"
  shows "b < 0xFF \<Longrightarrow> uint (b + 1) = uint b + 1" "b < 0xFF \<Longrightarrow> uint b < 255" "\<not> b < 0xFF \<Longrightarrow> uint b = 255"
  using byte_range [of b] by (auto simp: word_less_def uint_word_ariths)

lemma be_val_byte: "be_val [c] = uint c"
  using be_val_simps(2) [of "[]" c] by simp

lemma inc_from_first: "bs \<noteq> [] \<Longrightarrow> inc_from bs 0 = (if hd bs < 0xFF then hd bs + 1 else 0) # tl bs"
  by (cases bs) (subst inc_from.simps, simp)+

lemma inc_from_later:
  "inc_from bs (Suc j) = (if bs ! Suc j < 0xFF then bs[Suc j := bs ! Suc j + 1] else inc_from (bs[Suc j := 0]) j)"
  by (subst inc_from.simps) (simp add: Let_def)

lemma be_val_carry:
  assumes "Suc j < length xs" and "be_val (take (Suc j) xs) = (v + 1) mod 256 ^ Suc j" and "xs ! Suc j = 0"
  shows "be_val (take (Suc (Suc j)) xs) = (v * 256 + 255 + 1) mod 256 ^ Suc (Suc j)"
proof -
  have "be_val (take (Suc (Suc j)) xs) = (v + 1) mod 256 ^ Suc j * 256"
    using assms by (simp add: take_Suc_conv_app_nth [of "Suc j"])
  also have "\<dots> = (v * 256 + 255 + 1) mod 256 ^ Suc (Suc j)"
    using mod_mult_mult2 [of "v + 1" 256 "256 ^ Suc j"] by (simp add: algebra_simps)
  finally show ?thesis .
qed

lemma inc_from_value:
  "i < length bs \<Longrightarrow> be_val (take (Suc i) (inc_from bs i)) = (be_val (take (Suc i) bs) + 1) mod 256 ^ Suc i \<and>
   drop (Suc i) (inc_from bs i) = drop (Suc i) bs"
proof (induction i arbitrary: bs)
  case 0
  then obtain b cs where "bs = b # cs" by (cases bs) auto
  then show ?case using byte_inc [of b] byte_range [of b] by (simp add: inc_from_first be_val_byte)
next
  case (Suc j)
  let ?i = "Suc j"
  define v where "v = be_val (take ?i bs)"
  have t: "take (Suc ?i) xs = take ?i xs @ [xs ! ?i]" if "length xs = length bs" for xs :: "8 word list"
    using Suc.prems that by (simp add: take_Suc_conv_app_nth)
  have v: "0 \<le> v" "v < 256 ^ ?i" using be_val_range [of "take ?i bs"] Suc.prems by (auto simp: v_def)
  have val: "be_val (take (Suc ?i) bs) = v * 256 + uint (bs ! ?i)" by (simp add: t v_def)
  show ?case
  proof (cases "bs ! ?i < 0xFF")
    case True
    note u = byte_inc(1,2) [OF True]
    have "be_val (take (Suc ?i) (bs[?i := bs ! ?i + 1])) = v * 256 + (uint (bs ! ?i) + 1)"
      using Suc.prems u(1) by (simp add: t v_def)
    moreover have "v * 256 + (uint (bs ! ?i) + 1) = (v * 256 + (uint (bs ! ?i) + 1)) mod 256 ^ Suc ?i"
      using v u(2) byte_range(1) [of "bs ! ?i"] by (intro byte_carry) auto
    ultimately show ?thesis using True by (simp add: val add.assoc inc_from_later)
  next
    case False
    let ?z = "bs[?i := 0]"
    have ih: "be_val (take ?i (inc_from ?z j)) = (v + 1) mod 256 ^ ?i" "drop ?i (inc_from ?z j) = drop ?i ?z"
      using Suc.IH [of ?z] Suc.prems by (simp_all add: v_def)
    have "inc_from ?z j ! ?i = 0" using arg_cong [OF ih(2), of hd] Suc.prems by (simp add: hd_drop_conv_nth)
    moreover have "drop (Suc ?i) xs = tl (drop ?i xs)" for xs :: "8 word list" by (simp add: drop_Suc tl_drop)
    then have "drop (Suc ?i) (inc_from ?z j) = drop (Suc ?i) bs" using ih(2)
      by (metis drop_update_cancel lessI)
    ultimately show ?thesis
      using be_val_carry [OF _ ih(1)] Suc.prems byte_inc(3) [OF False] False val by (simp add: inc_from_later)
  qed
qed

lemma dec_from_update: "j < i \<Longrightarrow> dec_from (bs[i := x]) j = (dec_from bs j)[i := x]"
proof (induction j arbitrary: bs)
  case 0
  then show ?case by (subst (1 2) dec_from.simps) (simp add: list_update_swap)
next
  case (Suc j)
  have sw: "bs[i := x, Suc j := y] = bs[Suc j := y, i := x]" for y
    using Suc.prems by (intro list_update_swap) simp
  show ?case using Suc by (subst (1 2) dec_from.simps) (simp add: Let_def sw)
qed

lemma dec_from_beyond: "j < i \<Longrightarrow> dec_from bs j ! i = bs ! i"
proof (induction j arbitrary: bs)
  case 0
  then show ?case by (subst dec_from.simps) simp
next
  case (Suc j)
  then show ?case by (subst dec_from.simps) (simp add: Let_def)
qed

lemma inc_dec_from: "i < length bs \<Longrightarrow> inc_from (dec_from bs i) i = bs"
proof (induction i arbitrary: bs)
  case 0
  have l: "b - 1 < 0xFF" if "b > 0" for b :: "8 word"
    using that by (simp add: word_less_def uint_word_ariths) (use byte_range [of b] in simp)
  show ?case
  proof (cases "bs ! 0 > 0")
    case True
    then have "dec_from bs 0 = bs[0 := bs ! 0 - 1]" by (subst dec_from.simps) simp
    then show ?thesis using l [OF True] 0 by (subst inc_from.simps) simp
  next
    case False
    then have z: "bs ! 0 = 0" by (simp add: word_gt_0)
    have "dec_from bs 0 = bs[0 := 0xFF]" using z by (subst dec_from.simps) simp
    then show ?thesis using 0 z list_update_id [of bs 0] by (subst inc_from.simps) simp
  qed
next
  case (Suc j)
  let ?i = "Suc j"
  have l: "b - 1 < 0xFF" if "b > 0" for b :: "8 word"
    using that by (simp add: word_less_def uint_word_ariths) (use byte_range [of b] in simp)
  show ?case
  proof (cases "bs ! ?i > 0")
    case True
    then have "dec_from bs ?i = bs[?i := bs ! ?i - 1]" by (subst dec_from.simps) simp
    then show ?thesis using l [OF True] Suc.prems by (subst inc_from.simps) simp
  next
    case False
    then have z: "bs ! ?i = 0" by (simp add: word_gt_0)
    have d: "dec_from bs ?i = (dec_from bs j)[?i := 0xFF]"
      using z dec_from_update [of j ?i bs "0xFF"] by (subst dec_from.simps) (simp add: Let_def)
    have "inc_from (dec_from bs ?i) ?i = inc_from ((dec_from bs j)[?i := 0]) j"
      unfolding d using Suc.prems by (subst inc_from.simps) (simp add: Let_def)
    also have "(dec_from bs j)[?i := 0] = dec_from bs j"
      using dec_from_beyond [of j ?i bs] z list_update_id [of "dec_from bs j" ?i] by simp
    finally show ?thesis using Suc.IH [of bs] Suc.prems by simp
  qed
qed

section \<open>Well-formed IPv6 addresses\<close>

definition v6_wf :: "address_v6 \<Rightarrow> bool" where
  "v6_wf a \<longleftrightarrow> length (v6_bytes a) = 16"

definition v6_val :: "address_v6 \<Rightarrow> int" where
  "v6_val a = be_val (v6_bytes a)"

lemma v6_inc_val: "v6_wf a \<Longrightarrow> v6_val (v6_inc a) = (v6_val a + 1) mod 2 ^ 128"
  using inc_from_value [of 15 "v6_bytes a"] by (simp add: v6_wf_def v6_val_def v6_inc_def)

lemma v6_inc_dec: "v6_wf a \<Longrightarrow> v6_inc (v6_dec a) = a"
  using inc_dec_from [of 15 "v6_bytes a"] by (simp add: v6_wf_def v6_inc_def v6_dec_def)

lemma v6_dec_val: "v6_wf a \<Longrightarrow> v6_val (v6_dec a) = (v6_val a - 1) mod 2 ^ 128"
proof -
  assume wf: "v6_wf a"
  then have wd: "v6_wf (v6_dec a)" by (simp add: v6_wf_def v6_dec_def)
  have "v6_val a = (v6_val (v6_dec a) + 1) mod 2 ^ 128" using v6_inc_val [OF wd] v6_inc_dec [OF wf] by simp
  then have "(v6_val a - 1) mod 2 ^ 128 = v6_val (v6_dec a) mod 2 ^ 128" by (simp add: mod_simps)
  moreover have "0 \<le> v6_val (v6_dec a) \<and> v6_val (v6_dec a) < 2 ^ 128"
    using be_val_range [of "v6_bytes (v6_dec a)"] wd by (simp add: v6_val_def v6_wf_def)
  ultimately show ?thesis by simp
qed

lemma memcmp_zero: "length xs = length ys \<Longrightarrow> memcmp_bytes xs ys = 0 \<longleftrightarrow> xs = ys"
  by (induction xs ys rule: memcmp_bytes.induct) auto

lemma be_val_Cons: "be_val (b # bs) = uint b * 256 ^ length bs + be_val bs"
proof (induction bs rule: rev_induct)
  case Nil
  then show ?case by (simp add: be_val_def)
next
  case (snoc x xs)
  have "be_val (b # xs @ [x]) = be_val (b # xs) * 256 + uint x" using be_val_simps(2) [of "b # xs" x] by simp
  then show ?case using snoc by (simp add: algebra_simps)
qed

lemma memcmp_less: "length xs = length ys \<Longrightarrow> memcmp_bytes xs ys < 0 \<longleftrightarrow> be_val xs < be_val ys"
proof (induction xs ys rule: memcmp_bytes.induct)
  case (1 x xs y ys)
  have r: "0 \<le> be_val xs" "be_val xs < 256 ^ length xs" "0 \<le> be_val ys" "be_val ys < 256 ^ length xs"
    using be_val_range [of xs] be_val_range [of ys] 1(2) by auto
  have lt: "uint a * 256 ^ length xs + p < uint c * 256 ^ length xs + q"
    if "a < c" "p < 256 ^ length xs" "0 \<le> q" for a c :: "8 word" and p q :: int
  proof -
    have "(uint a + 1) * 256 ^ length xs \<le> uint c * 256 ^ length xs"
      using that(1) by (intro mult_right_mono) (auto simp: word_less_def)
    then show ?thesis using that(2,3) by (simp add: algebra_simps)
  qed
  consider "x < y" | "y < x" | "x = y" by (meson linorder_neqE)
  then show ?case
  proof cases
    case 1
    then show ?thesis using lt [of x y "be_val xs" "be_val ys"] r \<open>length (x # xs) = length (y # ys)\<close>
      by (simp add: be_val_Cons)
  next
    case 2
    then show ?thesis using lt [of y x "be_val ys" "be_val xs"] r \<open>length (x # xs) = length (y # ys)\<close>
      by (simp add: be_val_Cons)
  next
    case 3
    then show ?thesis using 1 by (simp add: be_val_Cons)
  qed
qed auto

section \<open>Properties of addresses\<close>

text \<open>A netmask and a prefix length determine each other. The constructor of \<open>network_v4\<close> from an
  address and a mask succeeds exactly for the masks that \<open>netmask\<close> produces, and then recovers the prefix
  length, at most 32; every other mask, with a bit set after one that is clear, is rejected with an
  exception.\<close>

theorem netmask_roundtrip:
  "network_v4_mask addr msk = Inr n \<longleftrightarrow>
     n4_prefix_length n \<le> 32 \<and> n4_address n = addr \<and> n4_netmask n = msk"
  by (rule network_v4_mask_iff)

text \<open>\<open>is_subnet_of\<close> decides strict containment: for valid prefix lengths, a network is a subnet of
  another exactly when its prefix is longer and every address of it is an address of the other.\<close>

theorem is_subnet_of_containment:
  assumes "n4_prefix_length n \<le> 32" and "n4_prefix_length other \<le> 32"
  shows "n4_is_subnet_of n other \<longleftrightarrow>
    n4_prefix_length other < n4_prefix_length n \<and> (\<forall>x. in_network n x \<longrightarrow> in_network other x)"
proof (cases "n4_prefix_length other < n4_prefix_length n")
  case True
  then show ?thesis unfolding subnet_iff [OF assms] subnet_contains [OF assms(1) True] by blast
next
  case False
  then show ?thesis using subnet_iff [OF assms] by blast
qed

theorem is_subnet_of_containment_witness:
  "n4_is_subnet_of \<lparr> n4_address = V4 10 1 2 0, n4_prefix_length = 24 \<rparr>
     \<lparr> n4_address = V4 10 1 0 0, n4_prefix_length = 16 \<rparr> \<and>
   in_network \<lparr> n4_address = V4 10 1 0 0, n4_prefix_length = 16 \<rparr> (V4 10 1 2 9)"
proof -
  let ?a = "\<lparr> n4_address = V4 10 1 2 0, n4_prefix_length = 24 \<rparr>" and ?b = "\<lparr> n4_address = V4 10 1 0 0, n4_prefix_length = 16 \<rparr>"
  have s: "n4_is_subnet_of ?a ?b" and i: "in_network ?a (V4 10 1 2 9)"
    by (simp_all add: subnet_iff in_network_def netmask_word_def v4_to_uint_def network_to_host_long_def)
  show ?thesis using is_subnet_of_containment [of ?a ?b] s i by simp
qed

text \<open>The IPv6 iterator counts modulo \<open>2 ^ 128\<close>. On an address of sixteen bytes, incrementing and
  decrementing add and subtract one with wrap-around, keep sixteen bytes and the scope, and undo each
  other; and the order of addresses with the same scope is the order of their values.\<close>

theorem v6_iterator_counts:
  assumes "v6_wf a" and "v6_wf b"
  shows "v6_val (v6_inc a) = (v6_val a + 1) mod 2 ^ 128 \<and> v6_val (v6_dec a) = (v6_val a - 1) mod 2 ^ 128 \<and>
    v6_wf (v6_inc a) \<and> v6_wf (v6_dec a) \<and> v6_inc (v6_dec a) = a \<and> v6_dec (v6_inc a) = a \<and>
    (v6_less a b \<longleftrightarrow> v6_val a < v6_val b \<or> v6_val a = v6_val b \<and> v6_scope_id a < v6_scope_id b)"
proof -
  have w: "v6_wf (v6_inc a)" "v6_wf (v6_dec a)" "v6_wf (v6_dec (v6_inc a))"
    using assms(1) by (simp_all add: v6_wf_def v6_inc_def v6_dec_def)
  have rng: "0 \<le> v6_val a \<and> v6_val a < 2 ^ 128"
    using be_val_range [of "v6_bytes a"] assms(1) by (simp add: v6_val_def v6_wf_def)
  have "v6_val (v6_dec (v6_inc a)) = v6_val a"
    using v6_dec_val [OF w(1)] v6_inc_val [OF assms(1)] rng by (simp add: mod_simps)
  then have "v6_bytes (v6_dec (v6_inc a)) = v6_bytes a"
    using be_val_inj w(3) assms(1) by (metis v6_val_def v6_wf_def)
  then have di: "v6_dec (v6_inc a) = a" by (simp add: v6_dec_def v6_inc_def)
  have len: "length (v6_bytes a) = length (v6_bytes b)" using assms by (simp add: v6_wf_def)
  have "v6_less a b \<longleftrightarrow> v6_val a < v6_val b \<or> v6_val a = v6_val b \<and> v6_scope_id a < v6_scope_id b"
    using memcmp_less [OF len] memcmp_zero [OF len] be_val_inj [OF len]
    by (auto simp: v6_less_def v6_val_def Let_def)
  then show ?thesis using v6_inc_val v6_dec_val v6_inc_dec di w assms(1) by blast
qed

theorem v6_iterator_counts_witness:
  "v6_val (v6_inc v6_loopback) = (v6_val v6_loopback + 1) mod 2 ^ 128"
proof -
  have "v6_wf v6_loopback" by (simp add: v6_wf_def v6_loopback_def v6_default_def)
  then show ?thesis using v6_iterator_counts [of v6_loopback v6_loopback] by blast
qed


end
