(* ===== verification/Asio_Stream.thy ===== *)
theory Asio_Stream
  imports Asio_Transfer Asio_Reactor
begin

unbundle bit_operations_syntax

text \<open>
  Where the layers of asio meet: the single transfers that a composed \<open>async_write\<close> or \<open>async_read\<close> asks for
  are the send and receive operations of the reactor. The completions the composed operation gets are
  the results of \<open>do_perform\<close>, or those of an operation that is posted without having moved a byte (aborted,
  refused, or with nothing to transfer). What the system promises of one transfer then gives what the
  composed operation needs of a stream.
\<close>

section \<open>Bounds of one transfer\<close>

lemma non_blocking_loop_bound:
  assumes "non_blocking_loop is_stream attempt bt w = Some ((finished, ec, n), w')"
    and "\<And>w b e w'. attempt w = ((b, e), w') \<Longrightarrow> b \<le> int sz"
  shows "n \<le> max sz bt"
proof -
  have "(\<forall>w b e w'. attempt w = ((b, e), w') \<longrightarrow> b \<le> int sz) \<longrightarrow> fst r = (finished, ec, n) \<longrightarrow> n \<le> max sz bt"
    if "non_blocking_loop is_stream attempt bt w = Some r" for r finished ec n
    using that
  proof (induction arbitrary: finished ec n rule: non_blocking_loop.raw_induct [rotated 1, consumes 1])
    case (1 loop is_stream attempt bt w r)
    obtain b e w1 where a: "attempt w = ((b, e), w1)" by (metis surj_pair)
    show ?case
    proof (intro impI)
      assume bound: "\<forall>w b e w'. attempt w = ((b, e), w') \<longrightarrow> b \<le> int sz" and r: "fst r = (finished, ec, n)"
      then have "b \<le> int sz" using a by blast
      then show "n \<le> max sz bt"
        using 1 a r bound by (auto simp: Let_def split: if_splits) force+
    qed
  qed
  then show ?thesis using assms by fastforce
qed

text \<open>What the system promises of the sending and receiving calls of one socket.\<close>

definition socket_contract :: "'s os \<Rightarrow> int \<Rightarrow> bool" where
  "socket_contract os s \<longleftrightarrow>
     (\<forall>bs flags. transfer_contract (buffer_size bs) (sys_sendmsg os s bs flags) \<and>
        transfer_contract (buffer_size bs) (sys_recvmsg os s bs flags)) \<and>
     (\<forall>b flags. transfer_contract (ab_size b) (sys_send os s b flags) \<and>
        transfer_contract (ab_size b) (sys_recv os s b flags))"

lemma attempt_bounds:
  assumes "socket_contract os s"
  shows "so_send os s bs flags w = ((b, e), w') \<Longrightarrow> b \<le> int (buffer_size bs)"
    "so_recv os s bs flags w = ((b, e), w') \<Longrightarrow> b \<le> int (buffer_size bs)"
    "so_send1 os s b1 flags w = ((b, e), w') \<Longrightarrow> b \<le> int (ab_size b1)"
    "so_recv1 os s b1 flags w = ((b, e), w') \<Longrightarrow> b \<le> int (ab_size b1)"
proof -
  have c: "transfer_contract (buffer_size bs) (sys_sendmsg os s bs (flags OR MSG_NOSIGNAL))"
    "transfer_contract (buffer_size bs) (sys_recvmsg os s bs flags)"
    "transfer_contract (ab_size b1) (sys_send os s b1 (flags OR MSG_NOSIGNAL))"
    "transfer_contract (ab_size b1) (sys_recv os s b1 flags)"
    using assms by (simp_all add: socket_contract_def)
  show "so_send os s bs flags w = ((b, e), w') \<Longrightarrow> b \<le> int (buffer_size bs)"
    "so_recv os s bs flags w = ((b, e), w') \<Longrightarrow> b \<le> int (buffer_size bs)"
    "so_send1 os s b1 flags w = ((b, e), w') \<Longrightarrow> b \<le> int (ab_size b1)"
    "so_recv1 os s b1 flags w = ((b, e), w') \<Longrightarrow> b \<le> int (ab_size b1)"
    by (auto simp: so_send_def so_recv_def so_send1_def so_recv1_def split: prod.splits
        dest: c [THEN transfer_contractD(1)])
qed

lemma buffer_size_take: "buffer_size (take k bs) \<le> buffer_size bs"
  by (induction bs arbitrary: k) (simp_all add: take_Cons split: nat.split)

definition send_result ::
    "'s os \<Rightarrow> int \<Rightarrow> state_type \<Rightarrow> nat \<Rightarrow> abuf list \<Rightarrow> error_code \<times> nat \<Rightarrow> bool" where
  "send_result os s state flags bs c \<longleftrightarrow> snd c = 0 \<or>
     (\<exists>single ro w st w'. (single \<longrightarrow> length bs = 1) \<and> ro_bytes ro = 0 \<and> st \<noteq> Not_Done \<and>
        send_do_perform os s state single bs flags ro w = Some (st, \<lparr> ro_ec = fst c, ro_bytes = snd c \<rparr>, w'))"

definition recv_result ::
    "'s os \<Rightarrow> int \<Rightarrow> state_type \<Rightarrow> nat \<Rightarrow> abuf list \<Rightarrow> error_code \<times> nat \<Rightarrow> bool" where
  "recv_result os s state flags bs c \<longleftrightarrow> snd c = 0 \<or>
     (\<exists>single ro w st w'. (single \<longrightarrow> length bs = 1) \<and> ro_bytes ro = 0 \<and> st \<noteq> Not_Done \<and>
        recv_do_perform os s state single bs flags ro w = Some (st, \<lparr> ro_ec = fst c, ro_bytes = snd c \<rparr>, w'))"

lemma non_blocking_bounds:
  assumes "socket_contract os s"
  shows "non_blocking_send os s bs flags 0 w = Some ((finished, ec, n), w') \<Longrightarrow> n \<le> buffer_size bs"
    "non_blocking_recv os s bs flags is_stream 0 w = Some ((finished, ec, n), w') \<Longrightarrow> n \<le> buffer_size bs"
    "non_blocking_send1 os s b flags 0 w = Some ((finished, ec, n), w') \<Longrightarrow> n \<le> ab_size b"
    "non_blocking_recv1 os s b flags is_stream 0 w = Some ((finished, ec, n), w') \<Longrightarrow> n \<le> ab_size b"
  unfolding non_blocking_send_def non_blocking_recv_def non_blocking_send1_def non_blocking_recv1_def
  by (drule non_blocking_loop_bound, erule attempt_bounds [OF assms], simp)+

lemma do_perform_bound:
  assumes "socket_contract os s" "single \<longrightarrow> length bs = 1" "ro_bytes ro = 0"
  shows "send_do_perform os s state single bs flags ro w = Some (st, ro', w') \<Longrightarrow> ro_bytes ro' \<le> buffer_size bs"
    and "recv_do_perform os s state single bs flags ro w = Some (st, ro', w') \<Longrightarrow> ro_bytes ro' \<le> buffer_size bs"
proof -
  have hd: "single \<Longrightarrow> ab_size (hd bs) = buffer_size bs" using assms(2) by (cases bs) auto
  have take: "buffer_size (adapter_buffers bs) \<le> buffer_size bs" by (simp add: adapter_buffers_def buffer_size_take)
  note bounds = non_blocking_bounds [OF assms(1)]
  show "ro_bytes ro' \<le> buffer_size bs"
    if perform: "send_do_perform os s state single bs flags ro w = Some (st, ro', w')"
  proof (cases single)
    case True
    then obtain fin ec where "non_blocking_send1 os s (hd bs) flags 0 w = Some ((fin, ec, ro_bytes ro'), w')"
      using perform assms(3) by (auto simp: send_do_perform_def Let_def split: option.splits)
    then show ?thesis using bounds(3) hd [OF True] by fastforce
  next
    case False
    then obtain fin ec where "non_blocking_send os s (adapter_buffers bs) flags 0 w = Some ((fin, ec, ro_bytes ro'), w')"
      using perform assms(3) by (auto simp: send_do_perform_def Let_def split: option.splits)
    then show ?thesis using bounds(1) take by fastforce
  qed
  show "ro_bytes ro' \<le> buffer_size bs"
    if perform: "recv_do_perform os s state single bs flags ro w = Some (st, ro', w')"
  proof (cases single)
    case True
    then obtain fin ec where
      "non_blocking_recv1 os s (hd bs) flags (has state stream_oriented) 0 w = Some ((fin, ec, ro_bytes ro'), w')"
      using perform assms(3) by (auto simp: recv_do_perform_def Let_def split: option.splits)
    then show ?thesis using bounds(4) hd [OF True] by fastforce
  next
    case False
    then obtain fin ec where "non_blocking_recv os s (adapter_buffers bs) flags (has state stream_oriented) 0 w =
        Some ((fin, ec, ro_bytes ro'), w')"
      using perform assms(3) by (auto simp: recv_do_perform_def Let_def split: option.splits)
    then show ?thesis using bounds(2) take by fastforce
  qed
qed

section \<open>The completions of a composed operation\<close>

text \<open>Every completion belongs to the transfer that was pending when it came.\<close>

fun from_results ::
    "(abuf list \<Rightarrow> error_code \<times> nat \<Rightarrow> bool) \<Rightarrow> 'op op_call \<Rightarrow> 'op \<Rightarrow> abuf list \<Rightarrow> (error_code \<times> nat) list \<Rightarrow> bool" where
  "from_results result call op pending [] \<longleftrightarrow> True"
| "from_results result call op pending (c # cs) \<longleftrightarrow> result pending c \<and>
     (case call op (fst c) (snd c) 0 of (op', Async_Some bs) \<Rightarrow> from_results result call op' bs cs | _ \<Rightarrow> True)"

lemma from_results_ok:
  assumes "\<And>bs c. result bs c \<Longrightarrow> snd c \<le> buffer_size bs"
  shows "from_results result call op pending cs \<Longrightarrow> completions_ok call op pending cs"
proof (induction cs arbitrary: op pending)
  case (Cons c cs)
  then show ?case using assms by (cases c) (auto split: prod.split op_action.split)
qed simp

lemma result_bounds:
  assumes "socket_contract os s"
  shows "send_result os s state flags bs c \<Longrightarrow> snd c \<le> buffer_size bs"
    "recv_result os s state flags bs c \<Longrightarrow> snd c \<le> buffer_size bs"
proof -
  show "snd c \<le> buffer_size bs" if "send_result os s state flags bs c"
    using that do_perform_bound(1) [OF assms] unfolding send_result_def by (metis le0 rop.select_convs(2))
  show "snd c \<le> buffer_size bs" if "recv_result os s state flags bs c"
    using that do_perform_bound(2) [OF assms] unfolding recv_result_def by (metis le0 rop.select_convs(2))
qed

lemma socket_completions_ok:
  assumes "socket_contract os s"
  shows "from_results (send_result os s state flags) call op pending cs \<Longrightarrow> completions_ok call op pending cs"
    "from_results (recv_result os s state flags) call op pending cs \<Longrightarrow> completions_ok call op pending cs"
  by (blast intro: from_results_ok result_bounds [OF assms])+

end
