(* ===== verification/Asio_Read_Until.thy ===== *)
theory Asio_Read_Until
  imports Asio_Error "HOL-Library.Sublist"
begin

text \<open>
  Reading up to a delimiter: \<open>src/3rd/asio/include/asio/impl/read_until.hpp\<close>, with the dynamic buffer over a
  string of \<open>buffer.hpp\<close>. The functions of the source are templates over the buffer; here they take the
  operations of the buffer as a record, one for the interface of version 1 (\<open>prepare\<close> and \<open>commit\<close>) and one for
  version 2 (\<open>grow\<close> and \<open>shrink\<close>). The stream is a parameter: the bytes a read of at most \<open>n\<close> bytes delivers, its
  error and the next state. How a string allocates is a parameter as well. The overloads for \<open>streambuf\<close> are in
  \<open>Asio_Streambuf\<close>; those for regular expressions are left out.
\<close>

section \<open>Searching\<close>

datatype search_outcome = Full_Match | Partial_Match | No_Match

text \<open>The inner loop at one position; the flag tells that at least one character has matched.\<close>

fun match_here :: "'a list \<Rightarrow> 'a list \<Rightarrow> bool \<Rightarrow> search_outcome" where
  "match_here xs [] started = Full_Match"
| "match_here [] (d # ds) started = (if started then Partial_Match else No_Match)"
| "match_here (x # xs) (d # ds) started = (if x \<noteq> d then No_Match else match_here xs ds True)"

fun partial_search :: "'a list \<Rightarrow> 'a list \<Rightarrow> nat \<Rightarrow> nat \<times> bool" where
  "partial_search [] d i = (i, False)"
| "partial_search (x # xs) d i =
     (case match_here (x # xs) d False of
        Full_Match \<Rightarrow> (i, True)
      | Partial_Match \<Rightarrow> (i, False)
      | No_Match \<Rightarrow> partial_search xs d (i + 1))"

fun find_char :: "'a list \<Rightarrow> 'a \<Rightarrow> nat \<Rightarrow> nat" where
  "find_char [] c i = i"
| "find_char (x # xs) c i = (if x = c then i else find_char xs c (i + 1))"

text \<open>The look at the data from the search position: the length up to the end of a match, or the next search
  position.\<close>

type_synonym matcher = "string \<Rightarrow> nat \<Rightarrow> nat + nat"

definition match_delim :: "char \<Rightarrow> matcher" where
  "match_delim delim data pos =
     (let i = find_char (drop pos data) delim pos in if i \<noteq> length data then Inl (i + 1) else Inr (length data))"

definition match_string :: "string \<Rightarrow> matcher" where
  "match_string delim data pos =
     (case partial_search (drop pos data) delim pos of (i, full) \<Rightarrow>
        if i \<noteq> length data then (if full then Inl (i + length delim) else Inr i) else Inr (length data))"

definition match_condition :: "(string \<Rightarrow> nat \<times> bool) \<Rightarrow> matcher" where
  "match_condition cond data pos =
     (case cond (drop pos data) of (i, full) \<Rightarrow>
        if full then Inl (pos + i) else if pos + i \<noteq> length data then Inr (pos + i) else Inr (length data))"

section \<open>The dynamic buffer over a string\<close>

record std_string =
  ss_chars :: string
  ss_capacity :: nat

type_synonym allocation = "nat \<Rightarrow> nat \<Rightarrow> nat"

definition ss_resize :: "allocation \<Rightarrow> nat \<Rightarrow> std_string \<Rightarrow> std_string" where
  "ss_resize alloc n s =
     \<lparr> ss_chars = take n (ss_chars s) @ replicate (n - length (ss_chars s)) (CHR 0x00),
       ss_capacity = (if n \<le> ss_capacity s then ss_capacity s else alloc (ss_capacity s) n) \<rparr>"

definition ss_erase_front :: "nat \<Rightarrow> std_string \<Rightarrow> std_string" where
  "ss_erase_front n s = s\<lparr>ss_chars := drop n (ss_chars s)\<rparr>"

text \<open>\<open>size_\<close> is the largest \<open>size_t\<close>, here \<open>None\<close>, until \<open>prepare\<close> enables the behaviour of version 1.\<close>

record dynamic_string_buffer =
  db_string :: std_string
  db_size_field :: "nat option"
  db_max_size :: nat

definition dynamic_string_buffer_ctor :: "std_string \<Rightarrow> nat \<Rightarrow> dynamic_string_buffer" where
  "dynamic_string_buffer_ctor s maximum_size = \<lparr> db_string = s, db_size_field = None, db_max_size = maximum_size \<rparr>"

definition db_size :: "dynamic_string_buffer \<Rightarrow> nat" where
  "db_size b = (case db_size_field b of Some n \<Rightarrow> n | None \<Rightarrow> min (length (ss_chars (db_string b))) (db_max_size b))"

definition db_capacity :: "dynamic_string_buffer \<Rightarrow> nat" where
  "db_capacity b = min (ss_capacity (db_string b)) (db_max_size b)"

definition db_data :: "dynamic_string_buffer \<Rightarrow> string" where
  "db_data b = (case db_size_field b of Some n \<Rightarrow> take n (ss_chars (db_string b)) | None \<Rightarrow> ss_chars (db_string b))"

definition db_data_at :: "dynamic_string_buffer \<Rightarrow> nat \<Rightarrow> nat \<Rightarrow> string" where
  "db_data_at b pos n = take n (drop pos (take (db_max_size b) (ss_chars (db_string b))))"

definition too_long :: "dynamic_string_buffer \<Rightarrow> nat \<Rightarrow> bool" where
  "too_long b n \<longleftrightarrow> db_size b > db_max_size b \<or> db_max_size b - db_size b < n"

definition db_resize :: "allocation \<Rightarrow> nat \<Rightarrow> dynamic_string_buffer \<Rightarrow> dynamic_string_buffer" where
  "db_resize alloc n b = b\<lparr>db_string := ss_resize alloc n (db_string b)\<rparr>"

definition db_prepare :: "allocation \<Rightarrow> dynamic_string_buffer \<Rightarrow> nat \<Rightarrow> dynamic_string_buffer res" where
  "db_prepare alloc b n =
     (if too_long b n then Inl (Runtime_Error ''dynamic_string_buffer too long'')
      else
        let sz = (case db_size_field b of Some k \<Rightarrow> k | None \<Rightarrow> length (ss_chars (db_string b)))
        in Inr (db_resize alloc (sz + n) (b\<lparr>db_size_field := Some sz\<rparr>)))"

text \<open>With \<open>size_\<close> still at its largest value the sum wraps around, and a commit of nothing asks for a string of the
  largest size.\<close>

definition db_commit :: "allocation \<Rightarrow> dynamic_string_buffer \<Rightarrow> nat \<Rightarrow> dynamic_string_buffer res" where
  "db_commit alloc b n =
     (let len = length (ss_chars (db_string b)) in
      case db_size_field b of
        Some k \<Rightarrow> (let k = k + min n (len - k) in Inr (db_resize alloc k (b\<lparr>db_size_field := Some k\<rparr>)))
      | None \<Rightarrow>
          if n = 0 then Inl (Runtime_Error ''basic_string::resize'')
          else (let k = min n (len + 1) - 1 in Inr (db_resize alloc k (b\<lparr>db_size_field := Some k\<rparr>))))"

definition db_grow :: "allocation \<Rightarrow> dynamic_string_buffer \<Rightarrow> nat \<Rightarrow> dynamic_string_buffer res" where
  "db_grow alloc b n =
     (if too_long b n then Inl (Runtime_Error ''dynamic_string_buffer too long'')
      else Inr (db_resize alloc (db_size b + n) b))"

definition db_shrink :: "allocation \<Rightarrow> dynamic_string_buffer \<Rightarrow> nat \<Rightarrow> dynamic_string_buffer" where
  "db_shrink alloc b n = db_resize alloc (if n > db_size b then 0 else db_size b - n) b"

definition db_consume :: "dynamic_string_buffer \<Rightarrow> nat \<Rightarrow> dynamic_string_buffer" where
  "db_consume b n =
     (case db_size_field b of
        Some k \<Rightarrow> b\<lparr>db_string := ss_erase_front (min n k) (db_string b), db_size_field := Some (k - min n k)\<rparr>
      | None \<Rightarrow> b\<lparr>db_string := ss_erase_front n (db_string b)\<rparr>)"

text \<open>What a stream does to the memory it was given.\<close>

definition db_write :: "nat \<Rightarrow> string \<Rightarrow> dynamic_string_buffer \<Rightarrow> dynamic_string_buffer" where
  "db_write pos bytes b =
     b\<lparr>db_string := (db_string b)\<lparr>ss_chars :=
         take pos (ss_chars (db_string b)) @ bytes @ drop (pos + length bytes) (ss_chars (db_string b))\<rparr>\<rparr>"

section \<open>The loops\<close>

text \<open>The operations on the buffer that the loops use: \<open>dy_prepare\<close> makes room for \<open>n\<close> bytes, \<open>dy_write\<close> puts
  bytes at the start of this room, and \<open>dy_commit\<close> keeps so many of the \<open>n\<close>.\<close>

record 'b dyn_ops =
  dy_data :: "'b \<Rightarrow> string"
  dy_size :: "'b \<Rightarrow> nat"
  dy_max_size :: "'b \<Rightarrow> nat"
  dy_capacity :: "'b \<Rightarrow> nat"
  dy_prepare :: "'b \<Rightarrow> nat \<Rightarrow> 'b res"
  dy_write :: "'b \<Rightarrow> nat \<Rightarrow> string \<Rightarrow> 'b"
  dy_commit :: "'b \<Rightarrow> nat \<Rightarrow> nat \<Rightarrow> 'b res"

definition v1_ops :: "allocation \<Rightarrow> dynamic_string_buffer dyn_ops" where
  "v1_ops alloc = \<lparr> dy_data = db_data, dy_size = db_size, dy_max_size = db_max_size, dy_capacity = db_capacity,
     dy_prepare = db_prepare alloc, dy_write = (\<lambda>b n bytes. db_write (db_size b) bytes b),
     dy_commit = (\<lambda>b n k. db_commit alloc b k) \<rparr>"

definition v2_ops :: "allocation \<Rightarrow> dynamic_string_buffer dyn_ops" where
  "v2_ops alloc = \<lparr> dy_data = (\<lambda>b. db_data_at b 0 (db_size b)), dy_size = db_size, dy_max_size = db_max_size,
     dy_capacity = db_capacity, dy_prepare = db_grow alloc,
     dy_write = (\<lambda>b n bytes. db_write (db_size b - n) bytes b),
     dy_commit = (\<lambda>b n k. Inr (db_shrink alloc b (n - k))) \<rparr>"

type_synonym 's read_some = "'s \<Rightarrow> nat \<Rightarrow> string \<times> error_code \<times> 's"

definition bytes_to_read :: "'b dyn_ops \<Rightarrow> 'b \<Rightarrow> nat" where
  "bytes_to_read ops b =
     min (max 512 (dy_capacity ops b - dy_size ops b)) (min 65536 (dy_max_size ops b - dy_size ops b))"

partial_function (option) read_until_loop ::
    "'b dyn_ops \<Rightarrow> matcher \<Rightarrow> 's read_some \<Rightarrow> 's \<Rightarrow> 'b \<Rightarrow> nat \<Rightarrow> ((nat \<times> error_code) \<times> 'b \<times> 's) res option" where
  "read_until_loop ops look some s b pos =
     (case look (dy_data ops b) pos of
        Inl n \<Rightarrow> Some (Inr ((n, None), b, s))
      | Inr pos \<Rightarrow>
          if dy_size ops b = dy_max_size ops b then Some (Inr ((0, misc not_found), b, s))
          else
            let n = bytes_to_read ops b in
            (case dy_prepare ops b n of
               Inl e \<Rightarrow> Some (Inl e)
             | Inr b \<Rightarrow>
                 (case some s n of (bytes, ec, s) \<Rightarrow>
                    (case dy_commit ops (dy_write ops b n bytes) n (length bytes) of
                       Inl e \<Rightarrow> Some (Inl e)
                     | Inr b \<Rightarrow> if ec \<noteq> None then Some (Inr ((0, ec), b, s)) else read_until_loop ops look some s b pos))))"

definition read_until_delim_v1 where
  "read_until_delim_v1 alloc some s b delim = read_until_loop (v1_ops alloc) (match_delim delim) some s b 0"

definition read_until_string_v1 where
  "read_until_string_v1 alloc some s b delim = read_until_loop (v1_ops alloc) (match_string delim) some s b 0"

definition read_until_condition_v1 where
  "read_until_condition_v1 alloc some s b cond = read_until_loop (v1_ops alloc) (match_condition cond) some s b 0"

definition read_until_delim_v2 where
  "read_until_delim_v2 alloc some s b delim = read_until_loop (v2_ops alloc) (match_delim delim) some s b 0"

definition read_until_string_v2 where
  "read_until_string_v2 alloc some s b delim = read_until_loop (v2_ops alloc) (match_string delim) some s b 0"

definition read_until_condition_v2 where
  "read_until_condition_v2 alloc some s b cond = read_until_loop (v2_ops alloc) (match_condition cond) some s b 0"

section \<open>The asynchronous operations\<close>

text \<open>The members of the operation objects; \<open>not_found\<close>, the largest \<open>size_t\<close>, is \<open>None\<close>. A call either starts
  a read of so many bytes or calls the handler.\<close>

record 'b ru_op =
  ru_buffers :: 'b
  ru_search_position :: "nat option"
  ru_bytes_to_read :: nat

datatype ru_action = Async_Read_Some nat | Ru_Handler error_code nat

definition ru_ctor :: "'b \<Rightarrow> 'b ru_op" where
  "ru_ctor b = \<lparr> ru_buffers = b, ru_search_position = Some 0, ru_bytes_to_read = 0 \<rparr>"

definition ru_look :: "'b dyn_ops \<Rightarrow> matcher \<Rightarrow> 'b ru_op \<Rightarrow> 'b ru_op" where
  "ru_look ops look op =
     (let b = ru_buffers op in
      case look (dy_data ops b) (case ru_search_position op of Some p \<Rightarrow> p | None \<Rightarrow> 2 ^ 64 - 1) of
        Inl n \<Rightarrow> op\<lparr>ru_search_position := Some n, ru_bytes_to_read := 0\<rparr>
      | Inr p \<Rightarrow>
          if dy_size ops b = dy_max_size ops b then op\<lparr>ru_search_position := None, ru_bytes_to_read := 0\<rparr>
          else op\<lparr>ru_search_position := Some p, ru_bytes_to_read := bytes_to_read ops b\<rparr>)"

definition ru_start_read :: "'b dyn_ops \<Rightarrow> 'b ru_op \<Rightarrow> ('b ru_op \<times> ru_action) res" where
  "ru_start_read ops op =
     bind_res (dy_prepare ops (ru_buffers op) (ru_bytes_to_read op))
       (\<lambda>b. Inr (op\<lparr>ru_buffers := b\<rparr>, Async_Read_Some (ru_bytes_to_read op)))"

definition ru_finish :: "'b ru_op \<Rightarrow> error_code \<Rightarrow> ru_action" where
  "ru_finish op ec =
     (case ru_search_position op of
        None \<Rightarrow> Ru_Handler (misc not_found) 0
      | Some p \<Rightarrow> Ru_Handler ec (if ec \<noteq> None then 0 else p))"

definition ru_call ::
    "'b dyn_ops \<Rightarrow> matcher \<Rightarrow> 'b ru_op \<Rightarrow> error_code \<Rightarrow> nat \<Rightarrow> nat \<Rightarrow> ('b ru_op \<times> ru_action) res" where
  "ru_call ops look op ec bytes_transferred start =
     (if start = 1 then ru_start_read ops (ru_look ops look op)
      else
        bind_res (dy_commit ops (ru_buffers op) (ru_bytes_to_read op) bytes_transferred) (\<lambda>b.
          let op = op\<lparr>ru_buffers := b\<rparr> in
          if ec \<noteq> None \<or> bytes_transferred = 0 then Inr (op, ru_finish op ec)
          else
            let op = ru_look ops look op in
            if ru_bytes_to_read op = 0 then Inr (op, ru_finish op ec) else ru_start_read ops op))"

text \<open>The operation with its stream: each read is completed by the stream.\<close>

partial_function (option) ru_run ::
    "'b dyn_ops \<Rightarrow> matcher \<Rightarrow> 's read_some \<Rightarrow> 's \<Rightarrow> 'b ru_op \<Rightarrow> nat \<Rightarrow> ((nat \<times> error_code) \<times> 'b \<times> 's) res option" where
  "ru_run ops look some s op n =
     (case some s n of (bytes, ec, s) \<Rightarrow>
        (case ru_call ops look (op\<lparr>ru_buffers := dy_write ops (ru_buffers op) n bytes\<rparr>) ec (length bytes) 0 of
           Inl e \<Rightarrow> Some (Inl e)
         | Inr (op, act) \<Rightarrow>
             (case act of
                Async_Read_Some n \<Rightarrow> ru_run ops look some s op n
              | Ru_Handler ec n \<Rightarrow> Some (Inr ((n, ec), ru_buffers op, s)))))"

definition async_read_until ::
    "'b dyn_ops \<Rightarrow> matcher \<Rightarrow> 's read_some \<Rightarrow> 's \<Rightarrow> 'b \<Rightarrow> ((nat \<times> error_code) \<times> 'b \<times> 's) res option" where
  "async_read_until ops look some s b =
     (case ru_call ops look (ru_ctor b) None 0 1 of
        Inl e \<Rightarrow> Some (Inl e)
      | Inr (op, act) \<Rightarrow>
          (case act of
             Async_Read_Some n \<Rightarrow> ru_run ops look some s op n
           | Ru_Handler ec n \<Rightarrow> Some (Inr ((n, ec), ru_buffers op, s))))"

text \<open>The six operation classes.\<close>

definition async_read_until_delim_v1 where
  "async_read_until_delim_v1 alloc some s b delim = async_read_until (v1_ops alloc) (match_delim delim) some s b"

definition async_read_until_string_v1 where
  "async_read_until_string_v1 alloc some s b delim = async_read_until (v1_ops alloc) (match_string delim) some s b"

definition async_read_until_condition_v1 where
  "async_read_until_condition_v1 alloc some s b cond = async_read_until (v1_ops alloc) (match_condition cond) some s b"

definition async_read_until_delim_v2 where
  "async_read_until_delim_v2 alloc some s b delim = async_read_until (v2_ops alloc) (match_delim delim) some s b"

definition async_read_until_string_v2 where
  "async_read_until_string_v2 alloc some s b delim = async_read_until (v2_ops alloc) (match_string delim) some s b"

definition async_read_until_condition_v2 where
  "async_read_until_condition_v2 alloc some s b cond = async_read_until (v2_ops alloc) (match_condition cond) some s b"

section \<open>What the searches find\<close>

lemma match_here_started:
  "match_here xs d True = (if prefix d xs then Full_Match else if prefix xs d then Partial_Match else No_Match)"
  by (induction xs d True rule: match_here.induct) auto

lemma match_here_eq:
  "match_here (x # xs) d False =
     (if prefix d (x # xs) then Full_Match else if prefix (x # xs) d then Partial_Match else No_Match)"
  by (cases d) (auto simp: match_here_started)

text \<open>Positions at which the delimiter cannot begin, whatever is appended to the data.\<close>

definition ruled_out :: "'a list \<Rightarrow> 'a list \<Rightarrow> nat \<Rightarrow> bool" where
  "ruled_out d data pos \<longleftrightarrow> (\<forall>i < pos. drop i data \<parallel> d)"

lemma ruled_out_append: "ruled_out d data pos \<Longrightarrow> pos \<le> length data \<Longrightarrow> ruled_out d (data @ rest) pos"
proof -
  have "xs @ rest \<parallel> d" if "xs \<parallel> d" for xs
    using that by (auto simp: prefix_def append_eq_append_conv2 elim!: parallelE intro!: parallelI)
  then show "ruled_out d data pos \<Longrightarrow> pos \<le> length data \<Longrightarrow> ?thesis" by (auto simp: ruled_out_def)
qed

text \<open>The delimiter first ends after \<open>n\<close> characters of the data.\<close>

definition first_end :: "'a list \<Rightarrow> 'a list \<Rightarrow> nat \<Rightarrow> bool" where
  "first_end d data n \<longleftrightarrow> length d \<le> n \<and> n \<le> length data \<and> prefix d (drop (n - length d) data) \<and>
     (\<forall>i < n - length d. \<not> prefix d (drop i data))"

definition absent :: "'a list \<Rightarrow> 'a list \<Rightarrow> bool" where
  "absent d data \<longleftrightarrow> (\<forall>i. \<not> prefix d (drop i data))"

lemma partial_search_spec:
  "partial_search xs d i = (p, full) \<Longrightarrow> i \<le> p \<and> p \<le> i + length xs \<and> ruled_out d xs (p - i) \<and>
     (if full then p < i + length xs \<and> prefix d (drop (p - i) xs)
      else p = i + length xs \<or> (prefix (drop (p - i) xs) d \<and> \<not> prefix d (drop (p - i) xs)))"
proof (induction xs d i arbitrary: p full rule: partial_search.induct)
  case (1 d i)
  then show ?case by (auto simp: ruled_out_def)
next
  case (2 x xs d i)
  show ?case
  proof (cases "match_here (x # xs) d False")
    case No_Match
    then have par: "x # xs \<parallel> d" by (auto simp: match_here_eq parallel_def split: if_splits)
    have ih: "i + 1 \<le> p \<and> p \<le> i + 1 + length xs \<and> ruled_out d xs (p - (i + 1)) \<and>
      (if full then p < i + 1 + length xs \<and> prefix d (drop (p - (i + 1)) xs)
       else p = i + 1 + length xs \<or> (prefix (drop (p - (i + 1)) xs) d \<and> \<not> prefix d (drop (p - (i + 1)) xs)))"
      using "2.IH" [OF No_Match, of p full] "2.prems" No_Match by (cases full) simp_all
    obtain k where k: "p = Suc (i + k)" using ih by (metis Suc_eq_plus1 add.commute add_Suc_right le_Suc_ex)
    have "ruled_out d (x # xs) (Suc k)"
      using par ih k by (auto simp: ruled_out_def less_Suc_eq_0_disj)
    then show ?thesis using ih k by (auto split: if_splits)
  qed (use 2 in \<open>auto simp: match_here_eq ruled_out_def split: if_splits\<close>)
qed

lemma match_string_spec:
  assumes "d \<noteq> []" "ruled_out d data pos" "pos \<le> length data"
  shows "case match_string d data pos of Inl n \<Rightarrow> first_end d data n
    | Inr q \<Rightarrow> q \<le> length data \<and> ruled_out d data q \<and> absent d data"
proof -
  obtain p full where ps: "partial_search (drop pos data) d pos = (p, full)" by force
  note sp = partial_search_spec [OF ps]
  have p: "pos \<le> p" "p \<le> length data" using sp assms(3) by auto
  have dp: "drop (p - pos) (drop pos data) = drop p data" using p(1) by simp
  have ro: "ruled_out d data p"
    unfolding ruled_out_def
  proof (intro allI impI)
    fix i assume "i < p"
    show "drop i data \<parallel> d"
    proof (cases "i < pos")
      case False
      moreover have "i - pos < p - pos" using False \<open>i < p\<close> by simp
      ultimately have "drop (i - pos) (drop pos data) \<parallel> d" using sp unfolding ruled_out_def by blast
      then show ?thesis using False by simp
    qed (use assms(2) in \<open>simp add: ruled_out_def\<close>)
  qed
  show ?thesis
  proof (cases full)
    case True
    then have m: "p < length data" "prefix d (drop p data)" using sp dp p assms(3) by auto
    then have "length d \<le> length data - p" using prefix_length_le by fastforce
    then have "first_end d data (p + length d)"
      using m ro by (auto simp: first_end_def ruled_out_def parallel_def)
    then show ?thesis using ps True m by (simp add: match_string_def)
  next
    case False
    have later: "\<not> prefix d (drop i data)" if "\<not> i < p" for i
    proof
      assume pre: "prefix d (drop i data)"
      then have len: "length d \<le> length data - i" using prefix_length_le by fastforce
      have "p = length data \<or> prefix (drop p data) d \<and> \<not> prefix d (drop p data)"
        using sp False dp p assms(3) by auto
      then show False
      proof
        assume "p = length data"
        then show False using len that assms(1) by auto
      next
        assume partial: "prefix (drop p data) d \<and> \<not> prefix d (drop p data)"
        then have "length data - p \<le> length d" using prefix_length_le by fastforce
        moreover have "0 < length d" using assms(1) by simp
        ultimately have "i = p" using len that by linarith
        then show False using partial pre by simp
      qed
    qed
    have "absent d data" using later ro by (auto simp: absent_def ruled_out_def parallel_def)
    moreover have "match_string d data pos = Inr p" using ps False by (auto simp: match_string_def)
    ultimately show ?thesis using ro p(2) by simp
  qed
qed

text \<open>A single character is searched like the string that consists of it.\<close>

lemma find_char_search: "partial_search xs [c] i = (find_char xs c i, find_char xs c i \<noteq> i + length xs)"
  by (induction xs c i rule: find_char.induct) auto

lemma match_delim_string: "pos \<le> length data \<Longrightarrow> match_delim c data pos = match_string [c] data pos"
  by (simp add: match_delim_def match_string_def find_char_search Let_def)

lemma match_string_next: "match_string d data pos = Inr q \<Longrightarrow> pos \<le> length data \<Longrightarrow> q \<le> length data"
  using partial_search_spec [of "drop pos data" d pos]
  by (auto simp: match_string_def split: prod.splits if_splits)

section \<open>The loop over any dynamic buffer\<close>

text \<open>A stream delivers at most what was asked for, and something or an error if anything was asked for.\<close>

definition stream_ok :: "'s read_some \<Rightarrow> bool" where
  "stream_ok some \<longleftrightarrow> (\<forall>s n bytes ec s'. some s n = (bytes, ec, s') \<longrightarrow>
     length bytes \<le> n \<and> (0 < n \<longrightarrow> bytes \<noteq> [] \<or> ec \<noteq> None))"

inductive reads :: "'s read_some \<Rightarrow> 's \<Rightarrow> string \<Rightarrow> 's \<Rightarrow> bool" for some :: "'s read_some" where
  reads_none: "reads some s [] s"
| reads_more: "some s n = (bytes, ec, s1) \<Longrightarrow> reads some s1 bs s2 \<Longrightarrow> reads some s (bytes @ bs) s2"

lemma reads_one: "some s n = (bytes, ec, s1) \<Longrightarrow> reads some s bytes s1"
  using reads_more [OF _ reads_none] by fastforce

definition read_outcome :: "'s read_some \<Rightarrow> string \<Rightarrow> string \<Rightarrow> nat \<Rightarrow> nat \<Rightarrow> error_code \<Rightarrow> bool" where
  "read_outcome some d data maximum n ec \<longleftrightarrow>
     (if ec = None then first_end d data n
      else n = 0 \<and> (ec = misc not_found \<and> length data = maximum \<and> absent d data \<or>
                    (\<exists>s k bytes s'. some s k = (bytes, ec, s'))))"

locale dynamic_buffer =
  fixes ops :: "'b dyn_ops" and valid :: "'b \<Rightarrow> bool"
  assumes size: "valid b \<Longrightarrow> dy_size ops b = length (dy_data ops b) \<and> dy_size ops b \<le> dy_max_size ops b"
    and fill: "valid b \<Longrightarrow> n \<le> dy_max_size ops b - dy_size ops b \<Longrightarrow> n \<le> 65536 \<Longrightarrow> length bytes \<le> n \<Longrightarrow>
      \<exists>b1 b2. dy_prepare ops b n = Inr b1 \<and> dy_commit ops (dy_write ops b1 n bytes) n (length bytes) = Inr b2 \<and>
        valid b2 \<and> dy_data ops b2 = dy_data ops b @ bytes \<and> dy_max_size ops b2 = dy_max_size ops b"
begin

lemma bytes_to_read_fits:
  "bytes_to_read ops b \<le> dy_max_size ops b - dy_size ops b"
  "dy_size ops b < dy_max_size ops b \<Longrightarrow> 0 < bytes_to_read ops b"
  "bytes_to_read ops b \<le> 65536"
  by (auto simp: bytes_to_read_def)

text \<open>One turn of the loop that reads.\<close>

lemma read_turn:
  assumes "valid b" "dy_size ops b \<noteq> dy_max_size ops b"
    and "stream_ok some" "some s (bytes_to_read ops b) = (bytes, ec, s1)"
  shows "\<exists>b1 b2. dy_prepare ops b (bytes_to_read ops b) = Inr b1 \<and>
    dy_commit ops (dy_write ops b1 (bytes_to_read ops b) bytes) (bytes_to_read ops b) (length bytes) = Inr b2 \<and>
    valid b2 \<and> dy_data ops b2 = dy_data ops b @ bytes \<and> dy_max_size ops b2 = dy_max_size ops b \<and>
    (bytes \<noteq> [] \<or> ec \<noteq> None) \<and>
    (\<forall>look pos q. look (dy_data ops b) pos = Inr q \<longrightarrow> read_until_loop ops look some s b pos =
       (if ec \<noteq> None then Some (Inr ((0, ec), b2, s1)) else read_until_loop ops look some s1 b2 q))"
proof -
  have n: "0 < bytes_to_read ops b" using size [OF assms(1)] assms(2) by (intro bytes_to_read_fits(2)) simp
  have st: "length bytes \<le> bytes_to_read ops b" "bytes \<noteq> [] \<or> ec \<noteq> None"
    using assms(3,4) n unfolding stream_ok_def by blast+
  obtain b1 b2 where b: "dy_prepare ops b (bytes_to_read ops b) = Inr b1"
    "dy_commit ops (dy_write ops b1 (bytes_to_read ops b) bytes) (bytes_to_read ops b) (length bytes) = Inr b2"
    "valid b2" "dy_data ops b2 = dy_data ops b @ bytes" "dy_max_size ops b2 = dy_max_size ops b"
    using fill [OF assms(1) bytes_to_read_fits(1,3) st(1)] by blast
  have "read_until_loop ops look some s b pos =
       (if ec \<noteq> None then Some (Inr ((0, ec), b2, s1)) else read_until_loop ops look some s1 b2 q)"
    if "look (dy_data ops b) pos = Inr q" for look pos q
    using that assms(2,4) b(1,2) by (subst read_until_loop.simps) (simp add: Let_def)
  then show ?thesis using b st(2) by blast
qed

lemma read_until_string:
  assumes "stream_ok some" "d \<noteq> []" "valid b" "ruled_out d (dy_data ops b) pos" "pos \<le> length (dy_data ops b)"
  shows "\<exists>n ec b' s' bs. read_until_loop ops (match_string d) some s b pos = Some (Inr ((n, ec), b', s')) \<and>
    valid b' \<and> dy_data ops b' = dy_data ops b @ bs \<and> reads some s bs s' \<and>
    read_outcome some d (dy_data ops b') (dy_max_size ops b) n ec"
  using assms(3-5)
proof (induction "dy_max_size ops b - dy_size ops b" arbitrary: b s pos rule: less_induct)
  case less
  note look = match_string_spec [OF assms(2) less.prems(2,3)]
  show ?case
  proof (cases "match_string d (dy_data ops b) pos")
    case (Inl n)
    have "read_until_loop ops (match_string d) some s b pos = Some (Inr ((n, None), b, s))"
      using Inl by (subst read_until_loop.simps) simp
    moreover have "dy_data ops b = dy_data ops b @ []" by simp
    moreover have "read_outcome some d (dy_data ops b) (dy_max_size ops b) n None"
      using look Inl by (simp add: read_outcome_def)
    ultimately show ?thesis using less.prems(1) reads_none by metis
  next
    case (Inr q)
    then have q: "q \<le> length (dy_data ops b)" "ruled_out d (dy_data ops b) q" "absent d (dy_data ops b)"
      using look by simp_all
    show ?thesis
    proof (cases "dy_size ops b = dy_max_size ops b")
      case True
      then have "read_until_loop ops (match_string d) some s b pos = Some (Inr ((0, misc not_found), b, s))"
        using Inr by (subst read_until_loop.simps) simp
      moreover have "dy_data ops b = dy_data ops b @ []" by simp
      moreover have "read_outcome some d (dy_data ops b) (dy_max_size ops b) 0 (misc not_found)"
        using True q(3) size [OF less.prems(1)] by (simp add: read_outcome_def)
      ultimately show ?thesis using less.prems(1) reads_none by metis
    next
      case False
      obtain bytes ec s1 where some: "some s (bytes_to_read ops b) = (bytes, ec, s1)" by (metis prod_cases3)
      obtain b2 where b2: "valid b2" "dy_data ops b2 = dy_data ops b @ bytes" "dy_max_size ops b2 = dy_max_size ops b"
        "bytes \<noteq> [] \<or> ec \<noteq> None"
        "read_until_loop ops (match_string d) some s b pos = (if ec \<noteq> None then Some (Inr ((0, ec), b2, s1))
          else read_until_loop ops (match_string d) some s1 b2 q)"
        using read_turn [where some = some, OF less.prems(1) False assms(1) some] Inr by blast
      show ?thesis
      proof (cases "ec = None")
        case True
        have "dy_max_size ops b2 - dy_size ops b2 < dy_max_size ops b - dy_size ops b"
          using b2(1-4) True size [OF less.prems(1)] size [OF b2(1)] False by (cases bytes) auto
        moreover have "ruled_out d (dy_data ops b2) q" "q \<le> length (dy_data ops b2)"
          using b2(2) q ruled_out_append by fastforce+
        ultimately obtain n ec' b' s' bs where
          "read_until_loop ops (match_string d) some s1 b2 q = Some (Inr ((n, ec'), b', s'))" "valid b'"
          "dy_data ops b' = dy_data ops b2 @ bs" "reads some s1 bs s'"
          "read_outcome some d (dy_data ops b') (dy_max_size ops b2) n ec'"
          using less.hyps [OF _ b2(1)] by blast
        moreover have "reads some s (bytes @ bs) s'" using reads_more [of some, OF some] calculation(4) .
        ultimately show ?thesis using b2 True by (metis append.assoc)
      next
        case False
        then have "read_until_loop ops (match_string d) some s b pos = Some (Inr ((0, ec), b2, s1))"
          using b2(5) by simp
        moreover have "read_outcome some d (dy_data ops b2) (dy_max_size ops b) 0 ec"
          using False some by (auto simp: read_outcome_def)
        ultimately show ?thesis using b2(1,2) reads_one [of some, OF some] by blast
      qed
    qed
  qed
qed

lemma read_until_delim:
  assumes "stream_ok some" "valid b" "pos \<le> length (dy_data ops b)"
  shows "read_until_loop ops (match_delim c) some s b pos = read_until_loop ops (match_string [c]) some s b pos"
  using assms(2,3)
proof (induction "dy_max_size ops b - dy_size ops b" arbitrary: b s pos rule: less_induct)
  case less
  note same = match_delim_string [OF less.prems(2), of c]
  show ?case
  proof (cases "match_string [c] (dy_data ops b) pos")
    case (Inr q)
    show ?thesis
    proof (cases "dy_size ops b = dy_max_size ops b")
      case False
      obtain bytes ec s1 where some: "some s (bytes_to_read ops b) = (bytes, ec, s1)" by (metis prod_cases3)
      have q: "q \<le> length (dy_data ops b)" using match_string_next [OF Inr less.prems(2)] .
      obtain b2 where b2: "valid b2" "dy_data ops b2 = dy_data ops b @ bytes" "dy_max_size ops b2 = dy_max_size ops b"
        "bytes \<noteq> [] \<or> ec \<noteq> None"
        "\<And>look. look (dy_data ops b) pos = Inr q \<Longrightarrow> read_until_loop ops look some s b pos =
          (if ec \<noteq> None then Some (Inr ((0, ec), b2, s1)) else read_until_loop ops look some s1 b2 q)"
        using read_turn [where some = some, OF less.prems(1) False assms(1) some] by metis
      have "read_until_loop ops (match_delim c) some s1 b2 q = read_until_loop ops (match_string [c]) some s1 b2 q"
        if "ec = None"
        using that b2(1-4) size [OF less.prems(1)] size [OF b2(1)] False q by (intro less.hyps) (cases bytes; auto)+
      then show ?thesis using b2(5) same Inr by simp
    qed (subst (1 2) read_until_loop.simps, simp add: same Inr)
  qed (subst (1 2) read_until_loop.simps, simp add: same)
qed

text \<open>From the first read on, the asynchronous operation does what the loop does.\<close>

lemma ru_run_eq:
  assumes "stream_ok some" "valid b" "look (dy_data ops b) pos = Inr q" "dy_size ops b \<noteq> dy_max_size ops b"
    and "dy_prepare ops b (bytes_to_read ops b) = Inr b1"
  shows "ru_run ops look some s \<lparr> ru_buffers = b1, ru_search_position = Some q, ru_bytes_to_read = bytes_to_read ops b \<rparr>
      (bytes_to_read ops b) = read_until_loop ops look some s b pos"
  using assms(2-5)
proof (induction "dy_max_size ops b - dy_size ops b" arbitrary: b b1 s pos q rule: less_induct)
  case less
  let ?n = "bytes_to_read ops b"
  obtain bytes ec s1 where some: "some s ?n = (bytes, ec, s1)" by (metis prod_cases3)
  obtain b2 where b2: "valid b2" "dy_data ops b2 = dy_data ops b @ bytes" "dy_max_size ops b2 = dy_max_size ops b"
    "bytes \<noteq> [] \<or> ec \<noteq> None" "dy_commit ops (dy_write ops b1 ?n bytes) ?n (length bytes) = Inr b2"
    "read_until_loop ops look some s b pos =
      (if ec \<noteq> None then Some (Inr ((0, ec), b2, s1)) else read_until_loop ops look some s1 b2 q)"
    using read_turn [where some = some, OF less.prems(1,3) assms(1) some] less.prems(2,4) by (metis sum.inject(2))
  have call: "ru_run ops look some s \<lparr> ru_buffers = b1, ru_search_position = Some q, ru_bytes_to_read = ?n \<rparr> ?n =
      (case ru_call ops look \<lparr> ru_buffers = dy_write ops b1 ?n bytes, ru_search_position = Some q,
             ru_bytes_to_read = ?n \<rparr> ec (length bytes) 0 of
         Inl e \<Rightarrow> Some (Inl e)
       | Inr (op, Async_Read_Some n) \<Rightarrow> ru_run ops look some s1 op n
       | Inr (op, Ru_Handler ec n) \<Rightarrow> Some (Inr ((n, ec), ru_buffers op, s1)))"
    using some by (subst ru_run.simps) simp
  show ?case
  proof (cases "ec = None")
    case False
    then show ?thesis using call b2(5,6) by (simp add: ru_call_def Let_def ru_finish_def)
  next
    case True
    then have k: "length bytes \<noteq> 0" using b2(4) by simp
    show ?thesis
    proof (cases "look (dy_data ops b2) q")
      case (Inl m)
      then show ?thesis using call b2(5,6) True k
        by (simp add: ru_call_def Let_def ru_finish_def ru_look_def) (subst read_until_loop.simps, simp)
    next
      case (Inr q')
      show ?thesis
      proof (cases "dy_size ops b2 = dy_max_size ops b2")
        case full: True
        then show ?thesis using call b2(5,6) True k Inr
          by (simp add: ru_call_def Let_def ru_finish_def ru_look_def) (subst read_until_loop.simps, simp)
      next
        case False
        obtain b3 where b3: "dy_prepare ops b2 (bytes_to_read ops b2) = Inr b3"
          using fill [OF b2(1) bytes_to_read_fits(1,3), of "[]"] by auto
        have "0 < bytes_to_read ops b2" using size [OF b2(1)] False by (intro bytes_to_read_fits(2)) simp
        moreover have "dy_max_size ops b2 - dy_size ops b2 < dy_max_size ops b - dy_size ops b"
        proof -
          have "dy_size ops b2 = dy_size ops b + length bytes"
            using size [OF less.prems(1)] size [OF b2(1)] b2(2) by simp
          then show ?thesis using k size [OF b2(1)] b2(3) by linarith
        qed
        ultimately show ?thesis
          using call b2(5,6) True k Inr False b3 less.hyps [OF _ b2(1) Inr False b3, of s1]
          by (simp add: ru_call_def Let_def ru_look_def ru_start_read_def)
      qed
    qed
  qed
qed

lemma async_read_until_agrees:
  assumes "stream_ok some" "\<forall>s. some s 0 = ([], None, s)" "valid b"
    and "read_until_loop ops look some s b 0 = Some (Inr ((n, ec), b', s'))"
  shows "\<exists>b''. async_read_until ops look some s b = Some (Inr ((n, ec), b'', s')) \<and> dy_data ops b'' = dy_data ops b'"
proof (cases "\<exists>q. look (dy_data ops b) 0 = Inr q \<and> dy_size ops b \<noteq> dy_max_size ops b")
  case True
  then obtain q where q: "look (dy_data ops b) 0 = Inr q" "dy_size ops b \<noteq> dy_max_size ops b" by blast
  obtain b1 where b1: "dy_prepare ops b (bytes_to_read ops b) = Inr b1"
    using fill [OF assms(3) bytes_to_read_fits(1,3), of "[]"] by auto
  have "async_read_until ops look some s b = read_until_loop ops look some s b 0"
    using ru_run_eq [where some = some and look = look and pos = 0, OF assms(1,3) q b1, of s] q b1
    by (simp add: async_read_until_def ru_call_def ru_ctor_def ru_look_def ru_start_read_def Let_def)
  then show ?thesis using assms(4) by simp
next
  case False
  obtain b1 b2 where b: "dy_prepare ops b 0 = Inr b1" "dy_commit ops (dy_write ops b1 0 []) 0 0 = Inr b2"
    "dy_data ops b2 = dy_data ops b"
    using fill [OF assms(3), of 0 "[]"] by auto
  have "Some (Inr ((n, ec), b', s')) = (case look (dy_data ops b) 0 of Inl n \<Rightarrow> Some (Inr ((n, None), b, s))
      | Inr _ \<Rightarrow> Some (Inr ((0, misc not_found), b, s)))"
    using assms(4) False by (subst (asm) read_until_loop.simps) (auto split: sum.splits)
  then show ?thesis using False b assms(2)
    by (auto simp: async_read_until_def ru_call_def ru_ctor_def ru_look_def ru_start_read_def Let_def ru_run.simps
        ru_finish_def split: sum.splits)
qed

end

section \<open>The two interfaces\<close>

definition v1_valid :: "dynamic_string_buffer \<Rightarrow> bool" where
  "v1_valid b \<longleftrightarrow> length (ss_chars (db_string b)) \<le> db_max_size b \<and>
     (\<forall>n. db_size_field b = Some n \<longrightarrow> n = length (ss_chars (db_string b)))"

definition v2_valid :: "dynamic_string_buffer \<Rightarrow> bool" where
  "v2_valid b \<longleftrightarrow> length (ss_chars (db_string b)) \<le> db_max_size b \<and> db_size_field b = None"

abbreviation db_chars :: "dynamic_string_buffer \<Rightarrow> string" where
  "db_chars b \<equiv> ss_chars (db_string b)"

lemma db_resize_fields [simp]:
  "db_chars (db_resize alloc n b) = take n (db_chars b) @ replicate (n - length (db_chars b)) (CHR 0x00)"
  "db_size_field (db_resize alloc n b) = db_size_field b" "db_max_size (db_resize alloc n b) = db_max_size b"
  by (simp_all add: db_resize_def ss_resize_def)

lemma db_write_fields [simp]:
  "db_chars (db_write pos bytes b) = take pos (db_chars b) @ bytes @ drop (pos + length bytes) (db_chars b)"
  "db_size_field (db_write pos bytes b) = db_size_field b" "db_max_size (db_write pos bytes b) = db_max_size b"
  by (simp_all add: db_write_def)

lemma v1_size: "v1_valid b \<Longrightarrow> db_size b = length (db_chars b) \<and> db_data b = db_chars b"
  by (auto simp: v1_valid_def db_size_def db_data_def split: option.split)

lemma v2_size: "v2_valid b \<Longrightarrow> db_size b = length (db_chars b) \<and> db_data_at b 0 (length (db_chars b)) = db_chars b"
  by (auto simp: v2_valid_def db_size_def db_data_at_def)

text \<open>The string after \<open>n\<close> bytes of room were made and some of them were filled and kept.\<close>

definition filled :: "allocation \<Rightarrow> nat \<Rightarrow> string \<Rightarrow> std_string \<Rightarrow> std_string" where
  "filled alloc n bytes str =
     (let len = length (ss_chars str) in
      ss_resize alloc (len + length bytes)
        ((ss_resize alloc (len + n) str)\<lparr>ss_chars := ss_chars str @ bytes @ replicate (n - length bytes) (CHR 0x00)\<rparr>))"

lemma v1_fill:
  assumes v: "v1_valid b" and n: "n \<le> db_max_size b - db_size b" and l: "length bytes \<le> n"
  shows "\<exists>b1 b2. db_prepare alloc b n = Inr b1 \<and> db_commit alloc (db_write (db_size b1) bytes b1) (length bytes) = Inr b2 \<and>
    v1_valid b2 \<and> db_data b2 = db_data b @ bytes \<and> db_max_size b2 = db_max_size b \<and>
    db_string b2 = filled alloc n bytes (db_string b)"
proof -
  let ?L = "length (db_chars b)"
  define b1 where "b1 = db_resize alloc (?L + n) (b\<lparr>db_size_field := Some ?L\<rparr>)"
  have sz: "db_size b = ?L" "?L + n \<le> db_max_size b"
    using v1_size [OF v] n v by (auto simp: v1_valid_def)
  have "(case db_size_field b of Some k \<Rightarrow> k | None \<Rightarrow> ?L) = ?L"
    using v by (auto simp: v1_valid_def split: option.split)
  then have prep: "db_prepare alloc b n = Inr b1" using sz by (simp add: db_prepare_def too_long_def b1_def Let_def)
  let ?w = "db_write (db_size b1) bytes b1"
  have w: "db_chars ?w = db_chars b @ bytes @ replicate (n - length bytes) (CHR 0x00)" "db_size_field ?w = Some ?L"
    "db_max_size ?w = db_max_size b"
    using l by (simp_all add: b1_def db_size_def)
  define b2 where "b2 = db_resize alloc (?L + length bytes) (?w\<lparr>db_size_field := Some (?L + length bytes)\<rparr>)"
  have "db_commit alloc ?w (length bytes) = Inr b2"
    using w l by (simp add: db_commit_def Let_def b2_def)
  moreover have "db_chars b2 = db_chars b @ bytes" "db_size_field b2 = Some (?L + length bytes)"
    "db_max_size b2 = db_max_size b"
    using w l by (simp_all add: b2_def)
  moreover from this have "v1_valid b2" using sz l by (simp add: v1_valid_def)
  moreover have "db_string ?w = (db_string b1)\<lparr>ss_chars := db_chars ?w\<rparr>" by (simp add: db_write_def)
  then have "db_string b2 = filled alloc n bytes (db_string b)"
    unfolding b2_def filled_def w(1) by (simp add: db_resize_def b1_def Let_def)
  ultimately show ?thesis using prep v1_size [OF v] v1_size [of b2] by auto
qed

lemma v2_fill:
  assumes v: "v2_valid b" and n: "n \<le> db_max_size b - db_size b" and l: "length bytes \<le> n"
  shows "\<exists>b1 b2. db_grow alloc b n = Inr b1 \<and> db_shrink alloc (db_write (db_size b1 - n) bytes b1) (n - length bytes) = b2 \<and>
    v2_valid b2 \<and> db_data_at b2 0 (db_size b2) = db_data_at b 0 (db_size b) @ bytes \<and> db_max_size b2 = db_max_size b \<and>
    db_string b2 = filled alloc n bytes (db_string b)"
proof -
  let ?L = "length (db_chars b)"
  define b1 where "b1 = db_resize alloc (?L + n) b"
  have sz: "db_size b = ?L" "?L + n \<le> db_max_size b" "db_size_field b = None"
    using v2_size [OF v] n v by (auto simp: v2_valid_def)
  then have grow: "db_grow alloc b n = Inr b1" by (simp add: db_grow_def too_long_def b1_def)
  have b1: "db_size b1 = ?L + n" using sz by (simp add: b1_def db_size_def)
  let ?w = "db_write (db_size b1 - n) bytes b1"
  have w: "db_chars ?w = db_chars b @ bytes @ replicate (n - length bytes) (CHR 0x00)" "db_size_field ?w = None"
    "db_max_size ?w = db_max_size b"
    using l sz(3) unfolding b1 by (simp_all add: b1_def)
  have "db_size ?w = ?L + n" using w l sz(2) by (simp add: db_size_def)
  then have shrink: "db_shrink alloc ?w (n - length bytes) = db_resize alloc (?L + length bytes) ?w"
    using l by (simp add: db_shrink_def)
  let ?b2 = "db_resize alloc (?L + length bytes) ?w"
  have b2: "db_chars ?b2 = db_chars b @ bytes" "db_max_size ?b2 = db_max_size b" "v2_valid ?b2"
    using w l sz(2) by (simp_all add: v2_valid_def)
  then have "db_data_at ?b2 0 (db_size ?b2) = db_data_at b 0 (db_size b) @ bytes"
    using v2_size [OF v] v2_size [OF b2(3)] by metis
  moreover have "db_string ?w = (db_string b1)\<lparr>ss_chars := db_chars ?w\<rparr>" by (simp add: db_write_def)
  then have "db_string ?b2 = filled alloc n bytes (db_string b)"
    unfolding filled_def w(1) by (simp add: db_resize_def b1_def Let_def)
  ultimately show ?thesis using grow shrink b2(2,3) by blast
qed

interpretation v1: dynamic_buffer "v1_ops alloc" v1_valid
proof
  show "dy_size (v1_ops alloc) b = length (dy_data (v1_ops alloc) b) \<and> dy_size (v1_ops alloc) b \<le> dy_max_size (v1_ops alloc) b"
    if "v1_valid b" for b
    using v1_size [OF that] that by (simp add: v1_ops_def v1_valid_def)
next
  fix b n and bytes :: string
  assume "v1_valid b" "n \<le> dy_max_size (v1_ops alloc) b - dy_size (v1_ops alloc) b" "length bytes \<le> n"
  then show "\<exists>b1 b2. dy_prepare (v1_ops alloc) b n = Inr b1 \<and>
      dy_commit (v1_ops alloc) (dy_write (v1_ops alloc) b1 n bytes) n (length bytes) = Inr b2 \<and> v1_valid b2 \<and>
      dy_data (v1_ops alloc) b2 = dy_data (v1_ops alloc) b @ bytes \<and>
      dy_max_size (v1_ops alloc) b2 = dy_max_size (v1_ops alloc) b"
    using v1_fill [of b n bytes alloc] by (auto simp: v1_ops_def)
qed

interpretation v2: dynamic_buffer "v2_ops alloc" v2_valid
proof
  show "dy_size (v2_ops alloc) b = length (dy_data (v2_ops alloc) b) \<and> dy_size (v2_ops alloc) b \<le> dy_max_size (v2_ops alloc) b"
    if "v2_valid b" for b
    using v2_size [OF that] that by (simp add: v2_ops_def v2_valid_def)
next
  fix b n and bytes :: string
  assume "v2_valid b" "n \<le> dy_max_size (v2_ops alloc) b - dy_size (v2_ops alloc) b" "length bytes \<le> n"
  then show "\<exists>b1 b2. dy_prepare (v2_ops alloc) b n = Inr b1 \<and>
      dy_commit (v2_ops alloc) (dy_write (v2_ops alloc) b1 n bytes) n (length bytes) = Inr b2 \<and> v2_valid b2 \<and>
      dy_data (v2_ops alloc) b2 = dy_data (v2_ops alloc) b @ bytes \<and>
      dy_max_size (v2_ops alloc) b2 = dy_max_size (v2_ops alloc) b"
    using v2_fill [of b n bytes alloc] by (auto simp: v2_ops_def)
qed

text \<open>Two buffers of the two versions over the same string.\<close>

definition twins :: "dynamic_string_buffer \<Rightarrow> dynamic_string_buffer \<Rightarrow> bool" where
  "twins b c \<longleftrightarrow> v1_valid b \<and> v2_valid c \<and> db_string b = db_string c \<and> db_max_size b = db_max_size c"

lemma twins_ops:
  assumes "twins b c"
  shows "dy_data (v2_ops alloc) c = dy_data (v1_ops alloc) b" "dy_size (v2_ops alloc) c = dy_size (v1_ops alloc) b"
    "dy_max_size (v2_ops alloc) c = dy_max_size (v1_ops alloc) b"
    "bytes_to_read (v2_ops alloc) c = bytes_to_read (v1_ops alloc) b"
  using assms v1_size [of b] v2_size [of c]
  by (auto simp: twins_def v1_ops_def v2_ops_def bytes_to_read_def db_capacity_def)

lemma twins_fill:
  assumes "twins b c" "n \<le> db_max_size b - db_size b" "length bytes \<le> n"
    and "dy_prepare (v1_ops alloc) b n = Inr b1" "dy_commit (v1_ops alloc) (dy_write (v1_ops alloc) b1 n bytes) n (length bytes) = Inr b2"
    and "dy_prepare (v2_ops alloc) c n = Inr c1" "dy_commit (v2_ops alloc) (dy_write (v2_ops alloc) c1 n bytes) n (length bytes) = Inr c2"
  shows "twins b2 c2"
proof -
  have n: "n \<le> db_max_size c - db_size c" using assms(1,2) v1_size [of b] v2_size [of c] by (simp add: twins_def)
  show ?thesis
    using v1_fill [of b n bytes alloc] v2_fill [OF _ n assms(3), of alloc] assms
    by (auto simp: twins_def v1_ops_def v2_ops_def)
qed

lemma v1_v2_agree:
  assumes "stream_ok some" "twins b c"
  shows "\<exists>n ec b' c' s'. read_until_loop (v1_ops alloc) look some s b pos = Some (Inr ((n, ec), b', s')) \<and>
    read_until_loop (v2_ops alloc) look some s c pos = Some (Inr ((n, ec), c', s')) \<and> twins b' c'"
  using assms(2)
proof (induction "db_max_size b - db_size b" arbitrary: b c s pos rule: less_induct)
  case less
  let ?v1 = "v1_ops alloc" and ?v2 = "v2_ops alloc"
  have v: "v1_valid b" "v2_valid c" using less.prems by (simp_all add: twins_def)
  note t = twins_ops [OF less.prems, of alloc]
  show ?case
  proof (cases "\<exists>q. look (dy_data ?v1 b) pos = Inr q \<and> dy_size ?v1 b \<noteq> dy_max_size ?v1 b")
    case False
    then show ?thesis using t less.prems
      by (subst (1 2) read_until_loop.simps) (auto split: sum.splits)
  next
    case True
    then obtain q where q: "look (dy_data ?v1 b) pos = Inr q" and ne: "dy_size ?v1 b \<noteq> dy_max_size ?v1 b" by blast
    let ?n = "bytes_to_read ?v1 b"
    obtain bytes ec s1 where some: "some s ?n = (bytes, ec, s1)" by (metis prod_cases3)
    obtain b1 b2 where b: "dy_prepare ?v1 b ?n = Inr b1" "dy_commit ?v1 (dy_write ?v1 b1 ?n bytes) ?n (length bytes) = Inr b2"
      "dy_data ?v1 b2 = dy_data ?v1 b @ bytes" "dy_max_size ?v1 b2 = dy_max_size ?v1 b" "bytes \<noteq> [] \<or> ec \<noteq> None"
      "read_until_loop ?v1 look some s b pos = (if ec \<noteq> None then Some (Inr ((0, ec), b2, s1)) else read_until_loop ?v1 look some s1 b2 q)"
      using v1.read_turn [where some = some, OF v(1) ne assms(1) some] q by blast
    obtain c1 c2 where c: "dy_prepare ?v2 c ?n = Inr c1" "dy_commit ?v2 (dy_write ?v2 c1 ?n bytes) ?n (length bytes) = Inr c2"
      "read_until_loop ?v2 look some s c pos = (if ec \<noteq> None then Some (Inr ((0, ec), c2, s1)) else read_until_loop ?v2 look some s1 c2 q)"
      using v2.read_turn [where some = some and alloc = alloc, OF v(2) _ assms(1), unfolded t, OF ne some] q by blast
    have fits: "?n \<le> db_max_size b - db_size b" using v1.bytes_to_read_fits(1) [of alloc b] by (simp add: v1_ops_def)
    have "length bytes \<le> ?n" using assms(1) some unfolding stream_ok_def by blast
    from twins_fill [OF less.prems fits this b(1,2) c(1,2)] have tw: "twins b2 c2" .
    show ?thesis
    proof (cases "ec = None")
      case True
      have v2: "v1_valid b2" using tw by (simp add: twins_def)
      have sz: "db_size b2 = db_size b + length bytes" "db_max_size b2 = db_max_size b" "db_size b2 \<le> db_max_size b2"
        using b(3,4) v1.size [OF v(1), of alloc] v1.size [OF v2, of alloc] by (simp_all add: v1_ops_def)
      moreover have "0 < length bytes" using b(5) True by simp
      ultimately have "db_max_size b2 - db_size b2 < db_max_size b - db_size b" by linarith
      from less.hyps [OF this tw, of s1 q] show ?thesis using b(6) c(3) True by simp
    qed (use b(6) c(3) tw in simp)
  qed
qed

section \<open>Properties of reading up to a delimiter\<close>

text \<open>C29: \<open>read_until\<close> returns, and what it returns is right. On every stream that delivers a byte or an error when it
  is asked for bytes, the loop ends. The buffer then holds what it held before, followed by exactly the bytes
  read from the stream. Without an error the result is the length of the data up to the end of the first
  occurrence of the delimiter, however the delimiter was split over the reads. With an error it is 0, and either
  the stream reported the error, or the buffer is full and the delimiter does not occur in it.\<close>

theorem read_until_first_match:
  assumes "stream_ok some" "d \<noteq> []" "v1_valid b"
  shows "\<exists>n ec b' s' bs. read_until_string_v1 alloc some s b d = Some (Inr ((n, ec), b', s')) \<and>
    v1_valid b' \<and> db_data b' = db_data b @ bs \<and> reads some s bs s' \<and>
    read_outcome some d (db_data b') (db_max_size b) n ec"
  using v1.read_until_string [OF assms, where pos = 0 and alloc = alloc and s = s]
  by (simp add: read_until_string_v1_def ruled_out_def v1_ops_def)

text \<open>A stream that delivers at most three bytes at a time.\<close>

definition three_bytes :: "string read_some" where
  "three_bytes s n =
     (if n = 0 then ([], None, s) else if s = [] then ([], misc eof, [])
      else (take (min 3 n) s, None, drop (min 3 n) s))"

lemma three_bytes_ok: "stream_ok three_bytes" "\<forall>s. three_bytes s 0 = ([], None, s)"
  by (auto simp: stream_ok_def three_bytes_def misc_def)

definition empty_buffer :: "nat \<Rightarrow> dynamic_string_buffer" where
  "empty_buffer maximum = dynamic_string_buffer_ctor \<lparr> ss_chars = [], ss_capacity = 0 \<rparr> maximum"

lemmas read_until_eval = read_until_string_v1_def read_until_loop.simps empty_buffer_def dynamic_string_buffer_ctor_def
  three_bytes_def v1_ops_def match_string_def bytes_to_read_def db_size_def db_data_def db_prepare_def db_commit_def
  db_write_def db_resize_def ss_resize_def too_long_def db_capacity_def Let_def

theorem read_until_first_match_witness:
  "\<exists>b' s'. read_until_string_v1 (\<lambda>_ n. n) three_bytes ''abxyxyz'' (empty_buffer 100) ''xyz'' = Some (Inr ((7, None), b', s')) \<and>
     first_end ''xyz'' ''abxyxyz'' 7"
proof -
  have run: "\<exists>b' s'. read_until_string_v1 (\<lambda>_ n. n) three_bytes ''abxyxyz'' (empty_buffer 100) ''xyz'' =
      Some (Inr ((7, None), b', s')) \<and> db_data b' = ''abxyxyz''"
    by (simp add: read_until_eval)
  have v: "v1_valid (empty_buffer 100)"
    by (simp add: v1_valid_def empty_buffer_def dynamic_string_buffer_ctor_def)
  obtain n ec b' s' where r:
    "read_until_string_v1 (\<lambda>_ n. n) three_bytes ''abxyxyz'' (empty_buffer 100) ''xyz'' = Some (Inr ((n, ec), b', s'))"
    "read_outcome three_bytes ''xyz'' (db_data b') (db_max_size (empty_buffer 100)) n ec"
    using read_until_first_match [OF three_bytes_ok(1) _ v, of "''xyz''" "\<lambda>_ n. n" "''abxyxyz''"] by blast
  with run have "n = 7" "ec = None" "db_data b' = ''abxyxyz''" by auto
  with r show ?thesis by (auto simp: read_outcome_def)
qed



section \<open>Taking data out of the buffer\<close>

text \<open>A line that was found is consumed from the front; what follows it stays for the next call.\<close>

lemma db_consume_data:
  "v1_valid b \<Longrightarrow> v1_valid (db_consume b n) \<and> db_data (db_consume b n) = drop n (db_data b)"
  "v2_valid b \<Longrightarrow> v2_valid (db_consume b n) \<and>
     db_data_at (db_consume b n) 0 (db_size (db_consume b n)) = drop n (db_data_at b 0 (db_size b))"
proof -
  assume v: "v1_valid b"
  then have "v1_valid (db_consume b n)"
    by (auto simp: v1_valid_def db_consume_def ss_erase_front_def split: option.splits)
  moreover have "db_chars (db_consume b n) = drop n (db_chars b)"
    using v by (auto simp: v1_valid_def db_consume_def ss_erase_front_def min_def split: option.split)
  ultimately show "v1_valid (db_consume b n) \<and> db_data (db_consume b n) = drop n (db_data b)"
    using v v1_size by metis
next
  assume v: "v2_valid b"
  then have "v2_valid (db_consume b n)" by (auto simp: v2_valid_def db_consume_def ss_erase_front_def)
  moreover have "db_chars (db_consume b n) = drop n (db_chars b)"
    using v by (simp add: v2_valid_def db_consume_def ss_erase_front_def)
  ultimately show "v2_valid (db_consume b n) \<and>
     db_data_at (db_consume b n) 0 (db_size (db_consume b n)) = drop n (db_data_at b 0 (db_size b))"
    using v v2_size by metis
qed

end
