(* ===== verification/Asio_Streambuf.thy ===== *)
theory Asio_Streambuf
  imports Asio_Read_Until Fifo_Spec
begin

text \<open>
  The stream buffer: \<open>src/3rd/asio/include/asio/basic_streambuf.hpp\<close>. The vector is the string of
  \<open>Asio_Read_Until\<close>, characters and capacity, and the pointers of \<open>std::streambuf\<close> into it are offsets;
  \<open>eback\<close> is always the start. A call that throws leaves a buffer behind, so \<open>reserve\<close> returns one in either case,
  with a flag that is false when it throws. Of \<open>std::streambuf\<close> itself, \<open>sputc\<close>, \<open>sgetc\<close> and \<open>sbumpc\<close> are modelled as
  the standard defines them, over the two functions overridden here.
\<close>

section \<open>The buffer\<close>

record streambuf =
  sb_max_size :: nat
  sb_buffer :: std_string
  sb_gptr :: nat
  sb_egptr :: nat
  sb_pptr :: nat
  sb_epptr :: nat

abbreviation sb_chars :: "streambuf \<Rightarrow> string" where
  "sb_chars b \<equiv> ss_chars (sb_buffer b)"

definition buffer_delta :: nat where
  "buffer_delta = 128"

definition basic_streambuf :: "allocation \<Rightarrow> nat \<Rightarrow> streambuf" where
  "basic_streambuf alloc maximum_size =
     (let pend = min maximum_size buffer_delta
      in \<lparr> sb_max_size = maximum_size, sb_buffer = ss_resize alloc (max pend 1) \<lparr> ss_chars = [], ss_capacity = 0 \<rparr>,
           sb_gptr = 0, sb_egptr = 0, sb_pptr = 0, sb_epptr = pend \<rparr>)"

definition sb_size :: "streambuf \<Rightarrow> nat" where
  "sb_size b = sb_pptr b - sb_gptr b"

definition sb_capacity :: "streambuf \<Rightarrow> nat" where
  "sb_capacity b = ss_capacity (sb_buffer b)"

definition sb_data :: "streambuf \<Rightarrow> string" where
  "sb_data b = take (sb_pptr b - sb_gptr b) (drop (sb_gptr b) (sb_chars b))"

text \<open>\<open>pbump\<close> and \<open>gbump\<close> take an \<open>int\<close>, to which the callers convert their count.\<close>

definition sb_bump :: "nat \<Rightarrow> nat \<Rightarrow> nat res" where
  "sb_bump p n =
     (let q = int p + to_i32 (int n) in if q < 0 then Inl Out_Of_Bounds else Inr (nat q))"

definition sb_reserve :: "allocation \<Rightarrow> streambuf \<Rightarrow> nat \<Rightarrow> streambuf \<times> bool" where
  "sb_reserve alloc b n =
     (let gnext = sb_gptr b; pnext = sb_pptr b; pend = sb_epptr b in
      if n \<le> pend - pnext then (b, True)
      else
        let b = (if gnext > 0
                 then b\<lparr>sb_buffer := (sb_buffer b)\<lparr>ss_chars :=
                          take (pnext - gnext) (drop gnext (sb_chars b)) @ drop (pnext - gnext) (sb_chars b)\<rparr>\<rparr>
                 else b);
            pnext = (if gnext > 0 then pnext - gnext else pnext)
        in if n > pend - pnext
           then (if n \<le> sb_max_size b \<and> pnext \<le> sb_max_size b - n
                 then (b\<lparr>sb_buffer := ss_resize alloc (max (pnext + n) 1) (sb_buffer b), sb_gptr := 0, sb_egptr := pnext,
                         sb_pptr := pnext, sb_epptr := pnext + n\<rparr>, True)
                 else (b, False))
           else (b\<lparr>sb_gptr := 0, sb_egptr := pnext, sb_pptr := pnext, sb_epptr := pend\<rparr>, True))"

definition stb_prepare :: "allocation \<Rightarrow> streambuf \<Rightarrow> nat \<Rightarrow> streambuf \<times> bool" where
  "stb_prepare alloc b n = sb_reserve alloc b n"

text \<open>What the owner of the prepared memory writes to its start.\<close>

definition sb_write :: "string \<Rightarrow> streambuf \<Rightarrow> streambuf" where
  "sb_write bytes b = b\<lparr>sb_buffer := (sb_buffer b)\<lparr>ss_chars :=
     take (sb_pptr b) (sb_chars b) @ bytes @ drop (sb_pptr b + length bytes) (sb_chars b)\<rparr>\<rparr>"

definition sb_commit :: "streambuf \<Rightarrow> nat \<Rightarrow> streambuf res" where
  "sb_commit b n =
     bind_res (sb_bump (sb_pptr b) (min n (sb_epptr b - sb_pptr b)))
       (\<lambda>p. Inr (b\<lparr>sb_pptr := p, sb_egptr := p\<rparr>))"

definition stb_consume :: "streambuf \<Rightarrow> nat \<Rightarrow> streambuf res" where
  "stb_consume b n =
     (let b = (if sb_egptr b < sb_pptr b then b\<lparr>sb_egptr := sb_pptr b\<rparr> else b);
          n = (if sb_gptr b + n > sb_pptr b then sb_pptr b - sb_gptr b else n)
      in bind_res (sb_bump (sb_gptr b) n) (\<lambda>g. Inr (b\<lparr>sb_gptr := g\<rparr>)))"

definition sb_underflow :: "streambuf \<Rightarrow> streambuf \<times> char option" where
  "sb_underflow b =
     (if sb_gptr b < sb_pptr b
      then (b\<lparr>sb_egptr := sb_pptr b\<rparr>, Some (sb_chars b ! sb_gptr b)) else (b, None))"

text \<open>The argument of \<open>overflow\<close> is a character or the end of file.\<close>

definition sb_put_char :: "char \<Rightarrow> streambuf \<Rightarrow> streambuf" where
  "sb_put_char c b = b\<lparr>sb_buffer := (sb_buffer b)\<lparr>ss_chars := (sb_chars b)[sb_pptr b := c]\<rparr>, sb_pptr := sb_pptr b + 1\<rparr>"

definition sb_overflow :: "allocation \<Rightarrow> streambuf \<Rightarrow> char option \<Rightarrow> streambuf \<times> bool" where
  "sb_overflow alloc b c =
     (case c of
        None \<Rightarrow> (b, True)
      | Some c \<Rightarrow>
          (case (if sb_pptr b = sb_epptr b then
                   let buffer_size = sb_pptr b - sb_gptr b in
                   if buffer_size < sb_max_size b \<and> sb_max_size b - buffer_size < buffer_delta
                   then sb_reserve alloc b (sb_max_size b - buffer_size) else sb_reserve alloc b buffer_delta
                 else (b, True)) of
             (b, ok) \<Rightarrow> if ok then (sb_put_char c b, True) else (b, False)))"

definition sb_sputc :: "allocation \<Rightarrow> streambuf \<Rightarrow> char \<Rightarrow> streambuf \<times> bool" where
  "sb_sputc alloc b c = (if sb_pptr b < sb_epptr b then (sb_put_char c b, True) else sb_overflow alloc b (Some c))"

definition sb_sgetc :: "streambuf \<Rightarrow> streambuf \<times> char option" where
  "sb_sgetc b = (if sb_gptr b < sb_egptr b then (b, Some (sb_chars b ! sb_gptr b)) else sb_underflow b)"

definition sb_sbumpc :: "streambuf \<Rightarrow> streambuf \<times> char option" where
  "sb_sbumpc b =
     (case sb_sgetc b of (b, c) \<Rightarrow>
        (case c of Some c \<Rightarrow> (b\<lparr>sb_gptr := sb_gptr b + 1\<rparr>, Some c) | None \<Rightarrow> (b, None)))"

definition read_size_helper :: "streambuf \<Rightarrow> nat \<Rightarrow> nat" where
  "read_size_helper b max_size =
     min (max 512 (sb_capacity b - sb_size b)) (min max_size (sb_max_size b - sb_size b))"

section \<open>The invariant\<close>

definition sb_ok :: "streambuf \<Rightarrow> bool" where
  "sb_ok b \<longleftrightarrow> sb_gptr b \<le> sb_egptr b \<and> sb_egptr b \<le> sb_pptr b \<and> sb_pptr b \<le> sb_epptr b \<and>
     sb_epptr b \<le> length (sb_chars b) \<and> sb_epptr b \<le> sb_max_size b"

lemma sb_ok_size: "sb_ok b \<Longrightarrow> sb_size b = length (sb_data b) \<and> sb_size b \<le> sb_max_size b"
  by (auto simp: sb_ok_def sb_size_def sb_data_def)

lemma sb_ctor_ok: "sb_ok (basic_streambuf alloc m)" "sb_data (basic_streambuf alloc m) = []"
  "sb_max_size (basic_streambuf alloc m) = m"
  by (auto simp: sb_ok_def basic_streambuf_def Let_def ss_resize_def sb_data_def)

lemma sb_bump_ok: "n < 2 ^ 31 \<Longrightarrow> sb_bump p n = Inr (p + n)"
  by (simp add: sb_bump_def Let_def in_i32_def)

section \<open>Making room\<close>

text \<open>The characters after the shift to the front, which is also right when there is nothing to shift.\<close>

definition sb_shifted :: "streambuf \<Rightarrow> streambuf" where
  "sb_shifted b = b\<lparr>sb_buffer := (sb_buffer b)\<lparr>ss_chars := sb_data b @ drop (sb_size b) (sb_chars b)\<rparr>\<rparr>"

lemma sb_shifted_fields [simp]:
  "sb_chars (sb_shifted b) = sb_data b @ drop (sb_size b) (sb_chars b)" "sb_gptr (sb_shifted b) = sb_gptr b"
  "sb_pptr (sb_shifted b) = sb_pptr b" "sb_epptr (sb_shifted b) = sb_epptr b" "sb_egptr (sb_shifted b) = sb_egptr b"
  "sb_max_size (sb_shifted b) = sb_max_size b"
  by (simp_all add: sb_shifted_def)

lemma sb_reserve_eq:
  "sb_reserve alloc b n =
     (if n \<le> sb_epptr b - sb_pptr b then (b, True)
      else if n > sb_epptr b - sb_size b
      then (if n \<le> sb_max_size b \<and> sb_size b \<le> sb_max_size b - n
            then ((sb_shifted b)\<lparr>sb_buffer := ss_resize alloc (max (sb_size b + n) 1) (sb_buffer (sb_shifted b)), sb_gptr := 0,
                    sb_egptr := sb_size b, sb_pptr := sb_size b, sb_epptr := sb_size b + n\<rparr>, True)
            else (sb_shifted b, False))
      else ((sb_shifted b)\<lparr>sb_gptr := 0, sb_egptr := sb_size b, sb_pptr := sb_size b, sb_epptr := sb_epptr b\<rparr>, True))"
proof (cases "sb_gptr b = 0")
  case True
  then have "sb_shifted b = b" by (simp add: sb_shifted_def sb_data_def sb_size_def)
  then show ?thesis using True by (simp add: sb_reserve_def Let_def sb_size_def)
next
  case False
  then show ?thesis by (simp add: sb_reserve_def Let_def sb_size_def sb_data_def sb_shifted_def)
qed

lemma sb_data_front: "sb_gptr b = 0 \<Longrightarrow> sb_data b = take (sb_pptr b) (sb_chars b)"
  by (simp add: sb_data_def)

lemma sb_reserve_fits:
  assumes "sb_ok b" "n \<le> sb_max_size b - sb_size b"
  shows "\<exists>b'. sb_reserve alloc b n = (b', True) \<and> sb_ok b' \<and> sb_data b' = sb_data b \<and> sb_max_size b' = sb_max_size b \<and>
    n \<le> sb_epptr b' - sb_pptr b'"
proof -
  have o: "sb_gptr b \<le> sb_pptr b" "sb_pptr b \<le> sb_epptr b" "sb_epptr b \<le> length (sb_chars b)" "sb_epptr b \<le> sb_max_size b"
    using assms(1) by (auto simp: sb_ok_def)
  have sz: "length (sb_data b) = sb_size b" "sb_size b \<le> sb_pptr b" using o by (auto simp: sb_data_def sb_size_def)
  consider "n \<le> sb_epptr b - sb_pptr b" | "\<not> n \<le> sb_epptr b - sb_pptr b" "n > sb_epptr b - sb_size b"
    | "\<not> n \<le> sb_epptr b - sb_pptr b" "\<not> n > sb_epptr b - sb_size b" by blast
  then show ?thesis
  proof cases
    case 1
    then show ?thesis using assms(1) by (simp add: sb_reserve_eq)
  next
    case 2
    then have "n \<le> sb_max_size b \<and> sb_size b \<le> sb_max_size b - n" using assms(2) o sz by linarith
    then show ?thesis using 2 o sz assms(2)
      by (auto simp: sb_reserve_eq sb_ok_def sb_data_front ss_resize_def sb_shifted_def)
  next
    case 3
    then show ?thesis using o sz
      by (auto simp: sb_reserve_eq sb_ok_def sb_data_front sb_shifted_def)
  qed
qed

lemma sb_reserve_throws:
  assumes "sb_ok b" "n > sb_max_size b - sb_size b"
  shows "sb_reserve alloc b n = (sb_shifted b, False)"
  using assms by (auto simp: sb_reserve_eq sb_ok_def sb_size_def)


section \<open>Both ways to write and both ways to read\<close>

lemma sb_write_data:
  assumes "sb_ok b" "length bytes \<le> sb_epptr b - sb_pptr b"
  shows "sb_chars (sb_write bytes b) = take (sb_pptr b) (sb_chars b) @ bytes @ drop (sb_pptr b + length bytes) (sb_chars b)"
    "length (sb_chars (sb_write bytes b)) = length (sb_chars b)"
  using assms by (auto simp: sb_write_def sb_ok_def)

lemma sb_grow_data:
  assumes "sb_ok b" "length bytes \<le> sb_epptr b - sb_pptr b"
    and "sb_chars b' = take (sb_pptr b) (sb_chars b) @ bytes @ drop (sb_pptr b + length bytes) (sb_chars b)"
    and "sb_gptr b' = sb_gptr b" "sb_pptr b' = sb_pptr b + length bytes" "sb_epptr b' = sb_epptr b" "sb_max_size b' = sb_max_size b"
    and "sb_egptr b' = sb_egptr b \<or> sb_egptr b' = sb_pptr b'"
  shows "sb_ok b'" "sb_data b' = sb_data b @ bytes"
proof -
  have o: "sb_gptr b \<le> sb_egptr b" "sb_egptr b \<le> sb_pptr b" "sb_pptr b \<le> sb_epptr b" "sb_epptr b \<le> length (sb_chars b)"
    "sb_epptr b \<le> sb_max_size b" using assms(1) by (auto simp: sb_ok_def)
  then show "sb_ok b'" using assms(2-8) by (auto simp: sb_ok_def)
  have "take (sb_pptr b') (sb_chars b') = take (sb_pptr b) (sb_chars b) @ bytes" using assms(2,3,5) o by simp
  moreover have "sb_data x = drop (sb_gptr x) (take (sb_pptr x) (sb_chars x))" for x
    by (simp add: sb_data_def drop_take)
  ultimately show "sb_data b' = sb_data b @ bytes" using assms(4) o by simp
qed

lemma sb_commit_ok:
  assumes "sb_ok b" "length bytes \<le> sb_epptr b - sb_pptr b" "length bytes < 2 ^ 31"
  shows "\<exists>b'. sb_commit (sb_write bytes b) (length bytes) = Inr b' \<and> sb_ok b' \<and> sb_data b' = sb_data b @ bytes \<and>
    sb_max_size b' = sb_max_size b"
proof -
  define b' where "b' = (sb_write bytes b)\<lparr>sb_pptr := sb_pptr b + length bytes, sb_egptr := sb_pptr b + length bytes\<rparr>"
  have f: "sb_pptr (sb_write bytes b) = sb_pptr b" "sb_epptr (sb_write bytes b) = sb_epptr b" by (simp_all add: sb_write_def)
  then have "sb_commit (sb_write bytes b) (length bytes) = Inr b'"
    using assms(2,3) by (simp add: sb_commit_def sb_bump_ok min_absorb1 b'_def bind_res_def)
  moreover have "sb_ok b'" "sb_data b' = sb_data b @ bytes"
    by (rule sb_grow_data [OF assms(1,2)]; simp add: b'_def sb_write_def)+
  ultimately show ?thesis by (simp add: b'_def sb_write_def)
qed

lemma sb_put_char_ok:
  assumes "sb_ok b" "sb_pptr b < sb_epptr b"
  shows "sb_ok (sb_put_char c b)" "sb_data (sb_put_char c b) = sb_data b @ [c]" "sb_max_size (sb_put_char c b) = sb_max_size b"
proof -
  have chars: "(sb_chars b)[sb_pptr b := c] = take (sb_pptr b) (sb_chars b) @ [c] @ drop (sb_pptr b + length [c]) (sb_chars b)"
    using assms by (simp add: sb_ok_def upd_conv_take_nth_drop)
  have "length [c] \<le> sb_epptr b - sb_pptr b" using assms(2) by simp
  note g = sb_grow_data [OF assms(1) this, of "sb_put_char c b"]
  show "sb_ok (sb_put_char c b)" "sb_data (sb_put_char c b) = sb_data b @ [c]"
    using g chars by (simp_all add: sb_put_char_def)
qed (simp add: sb_put_char_def)

lemma sb_sputc_ok:
  assumes "sb_ok b"
  shows "sb_size b < sb_max_size b \<Longrightarrow> \<exists>b'. sb_sputc alloc b c = (b', True) \<and> sb_ok b' \<and> sb_data b' = sb_data b @ [c] \<and>
      sb_max_size b' = sb_max_size b"
    "sb_size b = sb_max_size b \<Longrightarrow> sb_sputc alloc b c = (b, False)"
proof -
  have o: "sb_gptr b \<le> sb_pptr b" "sb_pptr b \<le> sb_epptr b" "sb_epptr b \<le> sb_max_size b" using assms by (auto simp: sb_ok_def)
  assume room: "sb_size b < sb_max_size b"
  show "\<exists>b'. sb_sputc alloc b c = (b', True) \<and> sb_ok b' \<and> sb_data b' = sb_data b @ [c] \<and> sb_max_size b' = sb_max_size b"
  proof (cases "sb_pptr b < sb_epptr b")
    case True
    then show ?thesis using sb_put_char_ok [OF assms] by (simp add: sb_sputc_def)
  next
    case False
    define n where "n = (if sb_max_size b - sb_size b < buffer_delta then sb_max_size b - sb_size b else buffer_delta)"
    have n: "n \<le> sb_max_size b - sb_size b" "0 < n" using room by (auto simp: n_def buffer_delta_def)
    obtain b' where b': "sb_reserve alloc b n = (b', True)" "sb_ok b'" "sb_data b' = sb_data b" "sb_max_size b' = sb_max_size b"
        "n \<le> sb_epptr b' - sb_pptr b'" using sb_reserve_fits [OF assms n(1)] by blast
    have "sb_sputc alloc b c = (sb_put_char c b', True)"
      using False o room b'(1) by (auto simp: sb_sputc_def sb_overflow_def Let_def n_def sb_size_def)
    then show ?thesis using sb_put_char_ok [OF b'(2)] b'(3-5) n(2) by simp
  qed
next
  assume full: "sb_size b = sb_max_size b"
  have o: "sb_gptr b \<le> sb_pptr b" "sb_pptr b \<le> sb_epptr b" "sb_epptr b \<le> sb_max_size b" using assms by (auto simp: sb_ok_def)
  then have eq: "sb_gptr b = 0 \<or> sb_max_size b = 0" "sb_pptr b = sb_epptr b" using full by (auto simp: sb_size_def)
  have "sb_gptr b = 0" using eq o by auto
  then have "sb_shifted b = b" by (simp add: sb_shifted_def sb_data_def sb_size_def)
  moreover have "sb_reserve alloc b buffer_delta = (sb_shifted b, False)"
    using full by (intro sb_reserve_throws [OF assms]) (simp add: buffer_delta_def)
  ultimately show "sb_sputc alloc b c = (b, False)"
    using eq full by (simp add: sb_sputc_def sb_overflow_def Let_def sb_size_def)
qed

lemma sb_consume_ok:
  assumes "sb_ok b" "sb_size b < 2 ^ 31"
  shows "\<exists>b'. stb_consume b n = Inr b' \<and> sb_ok b' \<and> sb_data b' = drop n (sb_data b) \<and> sb_max_size b' = sb_max_size b"
proof -
  define k where "k = (if sb_gptr b + n > sb_pptr b then sb_pptr b - sb_gptr b else n)"
  define b' where "b' = b\<lparr>sb_egptr := sb_pptr b, sb_gptr := sb_gptr b + k\<rparr>"
  have o: "sb_gptr b \<le> sb_egptr b" "sb_egptr b \<le> sb_pptr b" "sb_pptr b \<le> sb_epptr b" "sb_epptr b \<le> length (sb_chars b)"
    "sb_epptr b \<le> sb_max_size b" using assms(1) by (auto simp: sb_ok_def)
  have k: "k \<le> sb_size b" "sb_gptr b + k \<le> sb_pptr b" using o(1,2) by (auto simp: k_def sb_size_def)
  then have "sb_bump (sb_gptr b) k = Inr (sb_gptr b + k)" using assms(2) by (intro sb_bump_ok) simp
  then have "stb_consume b n = Inr b'"
    using o(2) by (cases "sb_egptr b < sb_pptr b") (auto simp: stb_consume_def Let_def bind_res_def b'_def k_def split: if_splits)
  moreover have "sb_ok b'" using o k by (simp add: sb_ok_def b'_def)
  moreover have "sb_data b' = drop n (sb_data b)" using o
    by (auto simp: sb_data_def b'_def k_def drop_take add.commute)
  ultimately show ?thesis by (simp add: b'_def)
qed

lemma sb_sbumpc_ok:
  assumes "sb_ok b"
  shows "sb_data b = c # cs \<Longrightarrow> \<exists>b'. sb_sbumpc b = (b', Some c) \<and> sb_ok b' \<and> sb_data b' = cs \<and> sb_max_size b' = sb_max_size b"
    "sb_data b = [] \<Longrightarrow> sb_sbumpc b = (b, None)"
proof -
  have o: "sb_gptr b \<le> sb_egptr b" "sb_egptr b \<le> sb_pptr b" "sb_pptr b \<le> sb_epptr b" "sb_epptr b \<le> length (sb_chars b)"
    "sb_epptr b \<le> sb_max_size b" using assms(1) by (auto simp: sb_ok_def)
  show "sb_sbumpc b = (b, None)" if "sb_data b = []"
  proof -
    have "sb_gptr b = sb_pptr b" using that o by (auto simp: sb_data_def)
    then show ?thesis using o by (simp add: sb_sbumpc_def sb_sgetc_def sb_underflow_def)
  qed
  assume d: "sb_data b = c # cs"
  then have lt: "sb_gptr b < sb_pptr b" by (auto simp: sb_data_def intro: ccontr)
  have "drop (sb_gptr b) (sb_chars b) = sb_chars b ! sb_gptr b # drop (Suc (sb_gptr b)) (sb_chars b)"
    using lt o by (intro Cons_nth_drop_Suc [symmetric]) simp
  then have "sb_data b = sb_chars b ! sb_gptr b # take (sb_pptr b - Suc (sb_gptr b)) (drop (Suc (sb_gptr b)) (sb_chars b))"
    using lt by (simp add: sb_data_def take_Cons' Suc_diff_Suc)
  then have cc: "sb_chars b ! sb_gptr b = c" "take (sb_pptr b - Suc (sb_gptr b)) (drop (Suc (sb_gptr b)) (sb_chars b)) = cs"
    using d by simp_all
  define e where "e = (if sb_gptr b < sb_egptr b then sb_egptr b else sb_pptr b)"
  have "sb_sbumpc b = (b\<lparr>sb_egptr := e, sb_gptr := sb_gptr b + 1\<rparr>, Some c)"
    using lt cc(1) by (simp add: sb_sbumpc_def sb_sgetc_def sb_underflow_def e_def)
  moreover have "sb_ok (b\<lparr>sb_egptr := e, sb_gptr := sb_gptr b + 1\<rparr>)" using lt o by (auto simp: sb_ok_def e_def)
  moreover have "sb_data (b\<lparr>sb_egptr := e, sb_gptr := sb_gptr b + 1\<rparr>) = cs" using cc(2) by (simp add: sb_data_def)
  ultimately show "\<exists>b'. sb_sbumpc b = (b', Some c) \<and> sb_ok b' \<and> sb_data b' = cs \<and> sb_max_size b' = sb_max_size b" by simp
qed


section \<open>A store, and a dynamic buffer\<close>

text \<open>A writer goes through \<open>prepare\<close> and \<open>commit\<close> or through the characters of a stream, a reader takes the data and
  consumes it or reads characters; \<open>sputn\<close> and \<open>sgetn\<close> are the loops over the single characters.\<close>

fun sb_sputn :: "allocation \<Rightarrow> streambuf \<Rightarrow> string \<Rightarrow> streambuf res" where
  "sb_sputn alloc b [] = Inr b"
| "sb_sputn alloc b (c # cs) =
     (case sb_sputc alloc b c of (b, ok) \<Rightarrow>
        if ok then sb_sputn alloc b cs else Inl (Runtime_Error ''asio::streambuf too long''))"

fun sb_sgetn :: "streambuf \<Rightarrow> nat \<Rightarrow> streambuf \<times> string" where
  "sb_sgetn b 0 = (b, [])"
| "sb_sgetn b (Suc n) =
     (case sb_sbumpc b of (b, c) \<Rightarrow>
        (case c of None \<Rightarrow> (b, []) | Some c \<Rightarrow> (case sb_sgetn b n of (b, cs) \<Rightarrow> (b, c # cs))))"

definition sb_prepare_res :: "allocation \<Rightarrow> streambuf \<Rightarrow> nat \<Rightarrow> streambuf res" where
  "sb_prepare_res alloc b n =
     (case stb_prepare alloc b n of (b, ok) \<Rightarrow>
        if ok then Inr b else Inl (Runtime_Error ''asio::streambuf too long''))"

definition sb_put :: "allocation \<Rightarrow> bool \<Rightarrow> streambuf \<Rightarrow> string \<Rightarrow> streambuf res" where
  "sb_put alloc by_char b xs =
     (if by_char then sb_sputn alloc b xs
      else bind_res (sb_prepare_res alloc b (length xs)) (\<lambda>b. sb_commit (sb_write xs b) (length xs)))"

definition sb_get :: "bool \<Rightarrow> streambuf \<Rightarrow> nat \<Rightarrow> (streambuf \<times> string) res" where
  "sb_get by_char b n =
     (if by_char then Inr (sb_sgetn b n)
      else bind_res (stb_consume b n) (\<lambda>b'. Inr (b', take n (sb_data b))))"

definition sb_cap :: "streambuf \<Rightarrow> nat" where
  "sb_cap b = min (sb_max_size b) (2 ^ 31 - 1)"

definition sb_inv :: "streambuf \<Rightarrow> bool" where
  "sb_inv b \<longleftrightarrow> sb_ok b \<and> length (sb_data b) \<le> sb_cap b"

lemma sb_sputn_ok:
  "sb_ok b \<Longrightarrow> length (sb_data b) + length xs \<le> sb_max_size b \<Longrightarrow>
   \<exists>b'. sb_sputn alloc b xs = Inr b' \<and> sb_ok b' \<and> sb_data b' = sb_data b @ xs \<and> sb_max_size b' = sb_max_size b"
proof (induction xs arbitrary: b)
  case (Cons c cs)
  have "sb_size b < sb_max_size b" using Cons.prems sb_ok_size [OF Cons.prems(1)] by simp
  then obtain b1 where 1: "sb_sputc alloc b c = (b1, True)" "sb_ok b1" "sb_data b1 = sb_data b @ [c]"
      "sb_max_size b1 = sb_max_size b" using sb_sputc_ok(1) [OF Cons.prems(1)] by blast
  then show ?case using Cons.IH [OF 1(2)] Cons.prems(2) by auto
qed simp

lemma sb_sgetn_ok:
  "sb_ok b \<Longrightarrow> \<exists>b'. sb_sgetn b n = (b', take n (sb_data b)) \<and> sb_ok b' \<and> sb_data b' = drop n (sb_data b) \<and>
     sb_max_size b' = sb_max_size b"
proof (induction n arbitrary: b)
  case (Suc n)
  show ?case
  proof (cases "sb_data b")
    case Nil
    then show ?thesis using sb_sbumpc_ok(2) [OF Suc.prems] Suc.prems by simp
  next
    case (Cons c cs)
    then obtain b1 where 1: "sb_sbumpc b = (b1, Some c)" "sb_ok b1" "sb_data b1 = cs" "sb_max_size b1 = sb_max_size b"
      using sb_sbumpc_ok(1) [OF Suc.prems] by blast
    then show ?thesis using Suc.IH [OF 1(2)] Cons by auto
  qed
qed simp

lemma sb_prepare_fill:
  assumes "sb_ok b" "n \<le> sb_max_size b - sb_size b" "length bytes \<le> n" "length bytes < 2 ^ 31"
  shows "\<exists>b1 b2. sb_prepare_res alloc b n = Inr b1 \<and> sb_commit (sb_write bytes b1) (length bytes) = Inr b2 \<and> sb_ok b2 \<and>
    sb_data b2 = sb_data b @ bytes \<and> sb_max_size b2 = sb_max_size b"
proof -
  obtain b1 where 1: "sb_reserve alloc b n = (b1, True)" "sb_ok b1" "sb_data b1 = sb_data b" "sb_max_size b1 = sb_max_size b"
      "n \<le> sb_epptr b1 - sb_pptr b1" using sb_reserve_fits [OF assms(1,2)] by blast
  have "length bytes \<le> sb_epptr b1 - sb_pptr b1" using 1(5) assms(3) by simp
  from sb_commit_ok [OF 1(2) this assms(4)] show ?thesis using 1 by (simp add: sb_prepare_res_def stb_prepare_def)
qed

interpretation sbuf: fifo_store sb_inv sb_data sb_cap "sb_put alloc by_char" "sb_get by_char'"
proof
  fix b and xs :: string
  assume b: "sb_inv b" "length (sb_data b) + length xs \<le> sb_cap b"
  then have ok: "sb_ok b" "length (sb_data b) + length xs \<le> sb_max_size b" "length xs < 2 ^ 31"
    by (simp_all add: sb_inv_def sb_cap_def)
  have fits: "length xs \<le> sb_max_size b - sb_size b" using ok(2) sb_ok_size [OF ok(1)] by simp
  show "\<exists>b'. sb_put alloc by_char b xs = Inr b' \<and> sb_inv b' \<and> sb_data b' = sb_data b @ xs \<and> sb_cap b' = sb_cap b"
    using sb_sputn_ok [OF ok(1,2), of alloc] sb_prepare_fill [OF ok(1) fits order_refl ok(3), of alloc] b(2)
    by (auto simp: sb_put_def sb_inv_def sb_cap_def bind_res_def)
next
  fix b n assume b: "sb_inv b"
  then have ok: "sb_ok b" "sb_size b < 2 ^ 31" using sb_ok_size by (auto simp: sb_inv_def sb_cap_def)
  show "\<exists>b'. sb_get by_char' b n = Inr (b', take n (sb_data b)) \<and> sb_inv b' \<and> sb_data b' = drop n (sb_data b) \<and> sb_cap b' = sb_cap b"
    using sb_sgetn_ok [OF ok(1), of n] sb_consume_ok [OF ok, of n] b
    by (auto simp: sb_get_def sb_inv_def sb_cap_def bind_res_def)
qed

text \<open>\<open>basic_streambuf_ref\<close>, through which \<open>read_until\<close> uses a stream buffer.\<close>

definition sb_ops :: "allocation \<Rightarrow> streambuf dyn_ops" where
  "sb_ops alloc = \<lparr> dy_data = sb_data, dy_size = sb_size, dy_max_size = sb_max_size, dy_capacity = sb_capacity,
     dy_prepare = sb_prepare_res alloc, dy_write = (\<lambda>b n bytes. sb_write bytes b), dy_commit = (\<lambda>b n k. sb_commit b k) \<rparr>"

interpretation sbr: dynamic_buffer "sb_ops alloc" sb_ok
proof
  show "dy_size (sb_ops alloc) b = length (dy_data (sb_ops alloc) b) \<and> dy_size (sb_ops alloc) b \<le> dy_max_size (sb_ops alloc) b"
    if "sb_ok b" for b
    using sb_ok_size [OF that] by (simp add: sb_ops_def)
next
  fix b n and bytes :: string
  assume "sb_ok b" "n \<le> dy_max_size (sb_ops alloc) b - dy_size (sb_ops alloc) b" "n \<le> 65536" "length bytes \<le> n"
  then show "\<exists>b1 b2. dy_prepare (sb_ops alloc) b n = Inr b1 \<and>
      dy_commit (sb_ops alloc) (dy_write (sb_ops alloc) b1 n bytes) n (length bytes) = Inr b2 \<and> sb_ok b2 \<and>
      dy_data (sb_ops alloc) b2 = dy_data (sb_ops alloc) b @ bytes \<and>
      dy_max_size (sb_ops alloc) b2 = dy_max_size (sb_ops alloc) b"
    using sb_prepare_fill [of b n bytes alloc] by (simp add: sb_ops_def)
qed

definition read_until_streambuf where
  "read_until_streambuf alloc some s b delim = read_until_loop (sb_ops alloc) (match_string delim) some s b 0"

definition async_read_until_streambuf where
  "async_read_until_streambuf alloc some s b delim = async_read_until (sb_ops alloc) (match_string delim) some s b"

section \<open>Properties of stream buffers\<close>



text \<open>C32: What \<open>prepare\<close> does to a stream buffer. It throws exactly when the data and the new room together would exceed
  the maximum size. When it succeeds the data is the same and there is room for the bytes asked for. When it
  throws, the data may be damaged: the bytes were moved to the front and the pointers were not, so the byte at
  each position is the one that was as far behind it as bytes had been consumed, as far as there is one.\<close>

theorem streambuf_prepare_outcome:
  assumes "sb_ok b" "stb_prepare alloc b n = (b', ok)"
  shows "(ok \<longleftrightarrow> sb_size b + n \<le> sb_max_size b) \<and> sb_ok b' \<and> sb_max_size b' = sb_max_size b \<and> sb_size b' = sb_size b \<and>
    (ok \<longrightarrow> sb_data b' = sb_data b \<and> n \<le> sb_epptr b' - sb_pptr b') \<and>
    (\<not> ok \<longrightarrow> (\<forall>i < sb_size b. sb_data b' ! i =
       (if sb_gptr b + i < sb_size b then sb_data b ! (sb_gptr b + i) else sb_data b ! i)))"
proof (cases "n \<le> sb_max_size b - sb_size b")
  case True
  then have "sb_size b + n \<le> sb_max_size b" using sb_ok_size [OF assms(1)] by linarith
  moreover obtain b1 where "sb_reserve alloc b n = (b1, True)" "sb_ok b1" "sb_data b1 = sb_data b" "sb_max_size b1 = sb_max_size b"
      "n \<le> sb_epptr b1 - sb_pptr b1" using sb_reserve_fits [OF assms(1) True] by blast
  moreover from this have "sb_size b1 = sb_size b" using sb_ok_size assms(1) by metis
  ultimately show ?thesis using assms(2) by (simp add: stb_prepare_def)
next
  case False
  have o: "sb_gptr b \<le> sb_pptr b" "sb_pptr b \<le> length (sb_chars b)" using assms(1) by (auto simp: sb_ok_def)
  have sz: "length (sb_data b) = sb_size b" using sb_ok_size [OF assms(1)] by simp
  have r: "b' = sb_shifted b" "\<not> ok" using assms sb_reserve_throws [OF assms(1)] False by (auto simp: stb_prepare_def)
  have byte: "sb_data b ! i = sb_chars b ! (sb_gptr b + i)" if "i < sb_size b" for i
    using that o by (simp add: sb_data_def sb_size_def)
  have "sb_data b' ! i = (if sb_gptr b + i < sb_size b then sb_data b ! (sb_gptr b + i) else sb_data b ! i)"
    if i: "i < sb_size b" for i
  proof -
    have "sb_data b' = take (sb_size b) (drop (sb_gptr b) (sb_data b @ drop (sb_size b) (sb_chars b)))"
      by (simp only: r(1) sb_data_def [of "sb_shifted b"] sb_shifted_fields sb_size_def)
    then have "sb_data b' ! i = (sb_data b @ drop (sb_size b) (sb_chars b)) ! (sb_gptr b + i)"
      using i o sz by (simp add: sb_size_def del: drop_append)
    also have "\<dots> = (if sb_gptr b + i < sb_size b then sb_data b ! (sb_gptr b + i) else sb_chars b ! (sb_gptr b + i))"
      using o sz i by (simp add: nth_append sb_size_def add.commute)
    finally show ?thesis using byte [OF i] by simp
  qed
  moreover have "sb_ok b'" using assms(1) sz o by (auto simp: r sb_ok_def sb_size_def)
  ultimately show ?thesis using r False by (simp add: sb_size_def)
qed

definition consumed_streambuf :: streambuf where
  "consumed_streambuf = \<lparr> sb_max_size = 6, sb_buffer = \<lparr> ss_chars = ''abcdef'', ss_capacity = 6 \<rparr>, sb_gptr = 2, sb_egptr = 6,
     sb_pptr = 6, sb_epptr = 6 \<rparr>"

theorem streambuf_prepare_outcome_witness:
  "sb_data consumed_streambuf = ''cdef'' \<and> (\<exists>b'. stb_prepare (\<lambda>_ n. n) consumed_streambuf 3 = (b', False) \<and> sb_ok b' \<and>
     sb_data b' = ''efef'')"
proof -
  have ok: "sb_ok consumed_streambuf" by (simp add: sb_ok_def consumed_streambuf_def)
  obtain b' x where p: "stb_prepare (\<lambda>_ n. n) consumed_streambuf 3 = (b', x)" by (metis surj_pair)
  note o = streambuf_prepare_outcome [OF ok p]
  have "\<not> x" using o by (simp add: sb_size_def consumed_streambuf_def)
  moreover have "sb_data b' = ''efef''"
    using p by (auto simp: stb_prepare_def sb_reserve_def Let_def consumed_streambuf_def sb_data_def numeral_2_eq_2)
  ultimately show ?thesis using o p by (simp add: sb_data_def consumed_streambuf_def)
qed

text \<open>\<open>read_until\<close> over a stream buffer returns the first match, as over a string: the buffer then holds what it held,
  followed by exactly the bytes read, and the result is the length of the data up to the end of the first
  occurrence of the delimiter, or an error. The asynchronous operation does the same.\<close>

theorem read_until_streambuf_first_match:
  assumes "stream_ok some" "\<forall>s. some s 0 = ([], None, s)" "d \<noteq> []" "sb_ok b"
  shows "\<exists>n ec b' s' bs. read_until_streambuf alloc some s b d = Some (Inr ((n, ec), b', s')) \<and>
    sb_ok b' \<and> sb_data b' = sb_data b @ bs \<and> reads some s bs s' \<and> read_outcome some d (sb_data b') (sb_max_size b) n ec \<and>
    (\<exists>b''. async_read_until_streambuf alloc some s b d = Some (Inr ((n, ec), b'', s')) \<and> sb_data b'' = sb_data b')"
proof -
  have f: "dy_data (sb_ops alloc) = sb_data" "dy_max_size (sb_ops alloc) = sb_max_size" by (simp_all add: sb_ops_def)
  obtain n ec b' s' bs where r: "read_until_loop (sb_ops alloc) (match_string d) some s b 0 = Some (Inr ((n, ec), b', s'))"
      "sb_ok b'" "sb_data b' = sb_data b @ bs" "reads some s bs s'" "read_outcome some d (sb_data b') (sb_max_size b) n ec"
    using sbr.read_until_string [OF assms(1,3,4), where pos = 0 and alloc = alloc and s = s] unfolding f
    by (auto simp: ruled_out_def)
  show ?thesis
    using r sbr.async_read_until_agrees [OF assms(1,2,4) r(1)]
    unfolding read_until_streambuf_def async_read_until_streambuf_def f by blast
qed

theorem read_until_streambuf_first_match_witness:
  "\<exists>n ec b' s'. read_until_streambuf (\<lambda>_ n. n) three_bytes ''abxyxyz'' (basic_streambuf (\<lambda>_ n. n) 100) ''xyz'' =
     Some (Inr ((n, ec), b', s')) \<and> sb_ok b' \<and> read_outcome three_bytes ''xyz'' (sb_data b') 100 n ec"
proof -
  note c = sb_ctor_ok [of "\<lambda>_ n. n" 100]
  show ?thesis
    using read_until_streambuf_first_match [OF three_bytes_ok _ c(1), of "''xyz''" "\<lambda>_ n. n" "''abxyxyz''"] c(3) by auto
qed

end
