(* ===== verification/Asio_Buffers_Iterator.thy ===== *)
theory Asio_Buffers_Iterator
  imports Asio_Buffer
begin

text \<open>
  The iterator over the bytes of a buffer sequence: \<open>src/3rd/asio/include/asio/buffers_iterator.hpp\<close>. The iterators
  \<open>begin_\<close>, \<open>current_\<close> and \<open>end_\<close> into the sequence are positions in the list \<open>bs\<close>, which every operation
  takes. A failed assertion is a fault. The loops that go forward and the search for the previous buffer follow
  the list; the loop of a negative \<open>advance\<close> goes on while it makes no progress, so its result is \<open>None\<close> when it
  does not return.
\<close>

section \<open>The iterator\<close>

record buffers_iterator =
  bi_current_buffer :: abuf
  bi_current_buffer_position :: nat
  bi_current :: nat
  bi_position :: nat

definition no_buffer :: abuf where
  "no_buffer = mk_buf 0 0"

definition out_of_bounds :: "'a res" where
  "out_of_bounds = Inl (Runtime_Error ''iterator out of bounds'')"

text \<open>The loop to the next buffer that is not empty, over the rest of the sequence.\<close>

fun bi_skip :: "abuf list \<Rightarrow> buffers_iterator \<Rightarrow> buffers_iterator" where
  "bi_skip [] it = it"
| "bi_skip (b # rest) it =
     (let it = it\<lparr>bi_current_buffer := b\<rparr>
      in if ab_size b > 0 then it else bi_skip rest (it\<lparr>bi_current := bi_current it + 1\<rparr>))"

definition bi_begin :: "abuf list \<Rightarrow> buffers_iterator" where
  "bi_begin bs = bi_skip bs
     \<lparr> bi_current_buffer = no_buffer, bi_current_buffer_position = 0, bi_current = 0, bi_position = 0 \<rparr>"

fun bi_end_loop :: "abuf list \<Rightarrow> buffers_iterator \<Rightarrow> buffers_iterator" where
  "bi_end_loop [] it = it"
| "bi_end_loop (b # rest) it =
     bi_end_loop rest (it\<lparr>bi_position := bi_position it + ab_size b, bi_current := bi_current it + 1\<rparr>)"

definition bi_end :: "abuf list \<Rightarrow> buffers_iterator" where
  "bi_end bs = bi_end_loop bs
     \<lparr> bi_current_buffer = no_buffer, bi_current_buffer_position = 0, bi_current = 0, bi_position = 0 \<rparr>"

definition bi_dereference :: "buffers_iterator \<Rightarrow> nat res" where
  "bi_dereference it =
     (if bi_current_buffer_position it < ab_size (bi_current_buffer it)
      then Inr (ab_data (bi_current_buffer it) + bi_current_buffer_position it) else Inl Out_Of_Bounds)"

definition bi_equal :: "buffers_iterator \<Rightarrow> buffers_iterator \<Rightarrow> bool" where
  "bi_equal it other \<longleftrightarrow> bi_position it = bi_position other"

definition bi_distance_to :: "buffers_iterator \<Rightarrow> buffers_iterator \<Rightarrow> int" where
  "bi_distance_to it other = int (bi_position other) - int (bi_position it)"

definition bi_less :: "buffers_iterator \<Rightarrow> buffers_iterator \<Rightarrow> bool" where
  "bi_less a b \<longleftrightarrow> bi_distance_to a b > 0"

definition bi_increment :: "abuf list \<Rightarrow> buffers_iterator \<Rightarrow> buffers_iterator res" where
  "bi_increment bs it =
     (if bi_current it = length bs then out_of_bounds
      else
        let it = it\<lparr>bi_position := bi_position it + 1, bi_current_buffer_position := bi_current_buffer_position it + 1\<rparr>
        in if bi_current_buffer_position it \<noteq> ab_size (bi_current_buffer it) then Inr it
           else
             let it = it\<lparr>bi_current := bi_current it + 1, bi_current_buffer_position := 0\<rparr>
             in Inr (bi_skip (drop (bi_current it) bs) it))"

text \<open>The previous buffer that is not empty.\<close>

fun bi_previous :: "abuf list \<Rightarrow> nat \<Rightarrow> nat option" where
  "bi_previous bs 0 = None"
| "bi_previous bs (Suc i) = (if ab_size (bs ! i) > 0 then Some i else bi_previous bs i)"

definition bi_decrement :: "abuf list \<Rightarrow> buffers_iterator \<Rightarrow> buffers_iterator res" where
  "bi_decrement bs it =
     (if bi_position it = 0 then out_of_bounds
      else
        let it = it\<lparr>bi_position := bi_position it - 1\<rparr>
        in if bi_current_buffer_position it \<noteq> 0
           then Inr (it\<lparr>bi_current_buffer_position := bi_current_buffer_position it - 1\<rparr>)
           else (case bi_previous bs (bi_current it) of
                   None \<Rightarrow> Inr it
                 | Some i \<Rightarrow> Inr (it\<lparr>bi_current := i, bi_current_buffer := bs ! i,
                              bi_current_buffer_position := ab_size (bs ! i) - 1\<rparr>)))"

text \<open>\<open>rest\<close> is what follows the current buffer.\<close>

fun bi_forward :: "abuf list \<Rightarrow> nat \<Rightarrow> buffers_iterator \<Rightarrow> buffers_iterator res" where
  "bi_forward rest n it =
     (let balance = ab_size (bi_current_buffer it) - bi_current_buffer_position it in
      if balance > n
      then Inr (it\<lparr>bi_position := bi_position it + n, bi_current_buffer_position := bi_current_buffer_position it + n\<rparr>)
      else
        let n = n - balance;
            it = it\<lparr>bi_position := bi_position it + balance, bi_current := bi_current it + 1\<rparr>
        in (case rest of
              [] \<Rightarrow> if n = 0 then Inr (it\<lparr>bi_current_buffer := no_buffer, bi_current_buffer_position := 0\<rparr>) else out_of_bounds
            | b # rest \<Rightarrow> bi_forward rest n (it\<lparr>bi_current_buffer := b, bi_current_buffer_position := 0\<rparr>)))"

declare bi_forward.simps [simp del]

partial_function (option) bi_backward :: "abuf list \<Rightarrow> nat \<Rightarrow> buffers_iterator \<Rightarrow> buffers_iterator res option" where
  "bi_backward bs abs_n it =
     (if bi_current_buffer_position it \<ge> abs_n
      then Some (Inr (it\<lparr>bi_position := bi_position it - abs_n,
                         bi_current_buffer_position := bi_current_buffer_position it - abs_n\<rparr>))
      else
        let abs_n = abs_n - bi_current_buffer_position it;
            it = it\<lparr>bi_position := bi_position it - bi_current_buffer_position it\<rparr>
        in if bi_current it = 0
           then Some (if abs_n = 0 then Inr (it\<lparr>bi_current_buffer_position := 0\<rparr>) else out_of_bounds)
           else (case bi_previous bs (bi_current it) of
                   None \<Rightarrow> bi_backward bs abs_n it
                 | Some i \<Rightarrow> bi_backward bs abs_n (it\<lparr>bi_current := i, bi_current_buffer := bs ! i,
                              bi_current_buffer_position := ab_size (bs ! i)\<rparr>)))"

definition bi_advance :: "abuf list \<Rightarrow> int \<Rightarrow> buffers_iterator \<Rightarrow> buffers_iterator res option" where
  "bi_advance bs n it =
     (if n > 0 then
        Some (if bi_current it = length bs then out_of_bounds
              else bi_forward (drop (bi_current it + 1) bs) (nat n) it)
      else if n < 0 then
        (let abs_n = nat (- n) in
         if bi_position it < abs_n then Some out_of_bounds else bi_backward bs abs_n it)
      else Some (Inr it))"

definition bi_index :: "abuf list \<Rightarrow> int \<Rightarrow> buffers_iterator \<Rightarrow> nat res option" where
  "bi_index bs difference it =
     map_option (\<lambda>tmp. bind_res tmp bi_dereference) (bi_advance bs difference it)"

section \<open>The iterator at an index\<close>

definition bi_at :: "abuf list \<Rightarrow> nat \<Rightarrow> buffers_iterator \<Rightarrow> bool" where
  "bi_at bs k it \<longleftrightarrow> bi_position it = k \<and>
     (if k < buffer_size bs
      then bi_current it < length bs \<and> bi_current_buffer it = bs ! bi_current it \<and>
           bi_current_buffer_position it < ab_size (bi_current_buffer it) \<and>
           k = buffer_size (take (bi_current it) bs) + bi_current_buffer_position it
      else k = buffer_size bs \<and> bi_current it = length bs \<and> bi_current_buffer_position it = 0)"

lemma buffer_size_append [simp]: "buffer_size (xs @ ys) = buffer_size xs + buffer_size ys"
  by (induction xs) simp_all

lemma buffer_size_split:
  assumes "c < length bs"
  shows "buffer_size bs = buffer_size (take c bs) + ab_size (bs ! c) + buffer_size (drop (Suc c) bs)"
    "buffer_size (take (Suc c) bs) = buffer_size (take c bs) + ab_size (bs ! c)"
proof -
  have "bs = take c bs @ bs ! c # drop (Suc c) bs" using assms by (rule id_take_nth_drop)
  then have "buffer_size bs = buffer_size (take c bs @ bs ! c # drop (Suc c) bs)" by simp
  then show "buffer_size bs = buffer_size (take c bs) + ab_size (bs ! c) + buffer_size (drop (Suc c) bs)" by simp
  show "buffer_size (take (Suc c) bs) = buffer_size (take c bs) + ab_size (bs ! c)"
    using assms by (simp add: take_Suc_conv_app_nth)
qed

lemma drop_ConsD:
  assumes "x # xs = drop c bs"
  shows "c < length bs" "bs ! c = x" "xs = drop (Suc c) bs"
proof -
  show c: "c < length bs" using assms by (metis drop_all not_le list.distinct(1))
  show "bs ! c = x" "xs = drop (Suc c) bs" using assms Cons_nth_drop_Suc [OF c] by (metis list.inject)+
qed

text \<open>At the start of a buffer, empty or not, with the sequence behind it.\<close>

lemma bi_skip_at:
  assumes "bi_current it \<le> length bs" "rest = drop (bi_current it) bs" "bi_current_buffer_position it = 0"
    and "bi_position it = buffer_size (take (bi_current it) bs)"
  shows "bi_at bs (bi_position it) (bi_skip rest it)"
  using assms
proof (induction rest it rule: bi_skip.induct)
  case (1 it)
  then show ?case by (simp add: bi_at_def)
next
  case (2 b rest it)
  let ?c = "bi_current it"
  have c: "?c < length bs" "bs ! ?c = b" "rest = drop (Suc ?c) bs" by (rule drop_ConsD [OF "2.prems"(2)])+
  note sz = buffer_size_split [OF c(1)]
  show ?case
  proof (cases "ab_size b > 0")
    case True
    then show ?thesis using "2.prems"(3,4) c sz by (simp add: bi_at_def Let_def)
  next
    case False
    then show ?thesis using "2.IH" [OF refl] "2.prems"(3,4) c sz by (simp add: Let_def)
  qed
qed


lemma bi_begin_at: "bi_at bs 0 (bi_begin bs)"
  using bi_skip_at [of "\<lparr> bi_current_buffer = no_buffer, bi_current_buffer_position = 0, bi_current = 0, bi_position = 0 \<rparr>" bs bs]
  by (simp add: bi_begin_def)

lemma bi_end_loop_eq:
  "bi_end_loop bs it = it\<lparr>bi_position := bi_position it + buffer_size bs, bi_current := bi_current it + length bs\<rparr>"
  by (induction bs it rule: bi_end_loop.induct) (simp_all add: ac_simps)

lemma bi_end_at: "bi_at bs (buffer_size bs) (bi_end bs)"
  by (simp add: bi_end_def bi_end_loop_eq bi_at_def)

lemma bi_at_inside:
  assumes "bi_at bs k it" "k < buffer_size bs"
  shows "bi_current it < length bs" "bi_current_buffer it = bs ! bi_current it"
    "bi_current_buffer_position it < ab_size (bi_current_buffer it)"
    "k = buffer_size (take (bi_current it) bs) + bi_current_buffer_position it" "bi_position it = k"
  using assms by (auto simp: bi_at_def)

lemma bi_increment_at:
  assumes "bi_at bs k it" "k < buffer_size bs"
  shows "\<exists>it'. bi_increment bs it = Inr it' \<and> bi_at bs (k + 1) it'"
proof -
  let ?c = "bi_current it" and ?p = "bi_current_buffer_position it"
  note a = bi_at_inside [OF assms] and sz = buffer_size_split [OF bi_at_inside(1) [OF assms]]
  define it1 where "it1 = it\<lparr>bi_position := k + 1, bi_current_buffer_position := ?p + 1\<rparr>"
  show ?thesis
  proof (cases "?p + 1 = ab_size (bi_current_buffer it)")
    case False
    then have "bi_at bs (k + 1) it1" using a sz by (simp add: bi_at_def it1_def)
    moreover have "bi_increment bs it = Inr it1" using a False by (simp add: bi_increment_def Let_def it1_def)
    ultimately show ?thesis by blast
  next
    case True
    define it2 where "it2 = it\<lparr>bi_position := k + 1, bi_current := ?c + 1, bi_current_buffer_position := 0\<rparr>"
    have "bi_at bs (bi_position it2) (bi_skip (drop (bi_current it2) bs) it2)"
      using a sz True by (intro bi_skip_at) (simp_all add: it2_def)
    moreover have "bi_increment bs it = Inr (bi_skip (drop (bi_current it2) bs) it2)"
      using a True by (simp add: bi_increment_def Let_def it2_def)
    ultimately show ?thesis by (simp add: it2_def)
  qed
qed

lemma bi_previous_Some:
  "c \<le> length bs \<Longrightarrow> bi_previous bs c = Some i \<Longrightarrow>
   i < c \<and> ab_size (bs ! i) > 0 \<and> buffer_size (take c bs) = buffer_size (take i bs) + ab_size (bs ! i)"
proof (induction bs c rule: bi_previous.induct)
  case (2 bs j)
  then show ?case using buffer_size_split(2) [of j bs] by (auto split: if_splits)
qed simp

lemma bi_previous_None: "c \<le> length bs \<Longrightarrow> bi_previous bs c = None \<Longrightarrow> buffer_size (take c bs) = 0"
proof (induction bs c rule: bi_previous.induct)
  case (2 bs j)
  then show ?case using buffer_size_split(2) [of j bs] by (auto split: if_splits)
qed simp

text \<open>Where the current buffer starts.\<close>

lemma bi_at_start:
  assumes "bi_at bs k it"
  shows "k = buffer_size (take (bi_current it) bs) + bi_current_buffer_position it" "bi_current it \<le> length bs"
    "bi_position it = k" "k \<le> buffer_size bs"
  using assms by (auto simp: bi_at_def split: if_splits)

lemma bi_decrement_at:
  assumes "bi_at bs k it" "0 < k"
  shows "\<exists>it'. bi_decrement bs it = Inr it' \<and> bi_at bs (k - 1) it'"
proof -
  let ?c = "bi_current it" and ?p = "bi_current_buffer_position it"
  note s = bi_at_start [OF assms(1)]
  show ?thesis
  proof (cases "?p = 0")
    case False
    then have "k < buffer_size bs" using assms(1) s(4) by (auto simp: bi_at_def split: if_splits)
    note a = bi_at_inside [OF assms(1) this]
    have "bi_at bs (k - 1) (it\<lparr>bi_position := k - 1, bi_current_buffer_position := ?p - 1\<rparr>)"
      using a False \<open>k < buffer_size bs\<close> by (auto simp: bi_at_def)
    then show ?thesis using False assms(2) s(3) by (simp add: bi_decrement_def Let_def)
  next
    case True
    then obtain i where i: "bi_previous bs ?c = Some i" using bi_previous_None [OF s(2)] s(1) assms(2) by fastforce
    note pr = bi_previous_Some [OF s(2) i]
    let ?it' = "it\<lparr>bi_position := k - 1, bi_current := i, bi_current_buffer := bs ! i, bi_current_buffer_position := ab_size (bs ! i) - 1\<rparr>"
    have "k - 1 < buffer_size bs" "k - 1 = buffer_size (take i bs) + (ab_size (bs ! i) - 1)" using pr s(1,4) True assms(2) by linarith+
    then have "bi_at bs (k - 1) ?it'" using pr s(2) by (simp add: bi_at_def)
    then show ?thesis using True assms(2) s(3) i by (simp add: bi_decrement_def Let_def)
  qed
qed

text \<open>Going forward from any position in a buffer, its end included.\<close>

lemma bi_forward_at:
  assumes "bi_current it < length bs" "bi_current_buffer it = bs ! bi_current it"
    and "bi_current_buffer_position it \<le> ab_size (bi_current_buffer it)" "rest = drop (Suc (bi_current it)) bs"
    and "bi_position it = buffer_size (take (bi_current it) bs) + bi_current_buffer_position it"
    and "bi_position it + n \<le> buffer_size bs"
  shows "\<exists>it'. bi_forward rest n it = Inr it' \<and> bi_at bs (bi_position it + n) it'"
  using assms
proof (induction rest n it rule: bi_forward.induct)
  case (1 rest n it)
  let ?c = "bi_current it" and ?p = "bi_current_buffer_position it" and ?balance = "ab_size (bi_current_buffer it) - bi_current_buffer_position it"
  have cb: "ab_size (bi_current_buffer it) = ab_size (bs ! ?c)" using "1.prems"(2) by simp
  note sz = buffer_size_split [OF "1.prems"(1)]
  show ?case
  proof (cases "?balance > n")
    case True
    let ?it' = "it\<lparr>bi_position := bi_position it + n, bi_current_buffer_position := ?p + n\<rparr>"
    have "bi_forward rest n it = Inr ?it'" using True by (subst bi_forward.simps) simp
    moreover have "bi_position it + n < buffer_size bs" "?p + n < ab_size (bi_current_buffer it)"
      using True cb "1.prems"(5) sz(1) by linarith+
    then have "bi_at bs (bi_position it + n) ?it'" using "1.prems"(1,2,5) by (simp add: bi_at_def)
    ultimately show ?thesis by blast
  next
    case False
    show ?thesis
    proof (cases rest)
      case Nil
      then have last: "Suc ?c = length bs" "buffer_size (drop (Suc ?c) bs) = 0" using "1.prems"(1,4) by simp_all
      let ?it' = "it\<lparr>bi_position := bi_position it + ?balance, bi_current := ?c + 1, bi_current_buffer := no_buffer,
          bi_current_buffer_position := 0\<rparr>"
      have n: "n = ?balance" "bi_position it + ?balance = buffer_size bs" using last(2) cb "1.prems"(3,5,6) sz False by linarith+
      have "bi_forward rest n it = Inr ?it'" using Nil n(1) by (subst bi_forward.simps) (simp add: Let_def)
      moreover have "bi_at bs (bi_position it + n) ?it'" using n last(1) by (simp add: bi_at_def)
      ultimately show ?thesis by blast
    next
      case (Cons b rest')
      have c: "Suc ?c < length bs" "bs ! Suc ?c = b" "rest' = drop (Suc (Suc ?c)) bs"
        using drop_ConsD [of b rest' "Suc ?c" bs] "1.prems"(4) Cons by simp_all
      let ?it = "it\<lparr>bi_position := bi_position it + ?balance, bi_current := ?c + 1, bi_current_buffer := b, bi_current_buffer_position := 0\<rparr>"
      have "bi_forward rest n it = bi_forward rest' (n - ?balance) ?it"
        using False Cons by (subst bi_forward.simps) (simp add: Let_def)
      moreover have "\<exists>it'. bi_forward rest' (n - ?balance) ?it = Inr it' \<and> bi_at bs (bi_position ?it + (n - ?balance)) it'"
        using "1.IH" [OF refl False refl refl Cons] c sz "1.prems" False by (simp add: Let_def)
      moreover have "bi_position ?it + (n - ?balance) = bi_position it + n" using False by simp
      ultimately show ?thesis by simp
    qed
  qed
qed

text \<open>Going backward from any position in a buffer, its end included, by at least one byte.\<close>

lemma bi_backward_at:
  assumes "bi_current it < length bs" "bi_current_buffer it = bs ! bi_current it" "0 < abs_n"
    and "bi_current_buffer_position it \<le> ab_size (bi_current_buffer it)"
    and "bi_position it = buffer_size (take (bi_current it) bs) + bi_current_buffer_position it" "abs_n \<le> bi_position it"
  shows "\<exists>it'. bi_backward bs abs_n it = Some (Inr it') \<and> bi_at bs (bi_position it - abs_n) it'"
  using assms
proof (induction "bi_current it" arbitrary: it abs_n rule: less_induct)
  case less
  let ?c = "bi_current it" and ?p = "bi_current_buffer_position it"
  have cb: "ab_size (bi_current_buffer it) = ab_size (bs ! ?c)" using less.prems(2) by simp
  note sz = buffer_size_split [OF less.prems(1)]
  show ?case
  proof (cases "abs_n \<le> ?p")
    case True
    let ?it' = "it\<lparr>bi_position := bi_position it - abs_n, bi_current_buffer_position := ?p - abs_n\<rparr>"
    have "bi_backward bs abs_n it = Some (Inr ?it')" using True by (subst bi_backward.simps) simp
    moreover have "bi_position it - abs_n < buffer_size bs" "?p - abs_n < ab_size (bi_current_buffer it)"
      "bi_position it - abs_n = buffer_size (take ?c bs) + (?p - abs_n)"
      using True cb less.prems(3-5) sz(1) by linarith+
    then have "bi_at bs (bi_position it - abs_n) ?it'" using less.prems(1,2) by (simp add: bi_at_def)
    ultimately show ?thesis by blast
  next
    case False
    then have "buffer_size (take ?c bs) > 0" using less.prems(5,6) by linarith
    then have "?c \<noteq> 0" by (intro notI) simp
    then obtain i where i: "bi_previous bs ?c = Some i" "?c \<noteq> 0"
      using \<open>buffer_size (take ?c bs) > 0\<close> bi_previous_None [of ?c bs] less.prems(1) by (cases "bi_previous bs ?c") auto
    have pr: "i < ?c" "ab_size (bs ! i) > 0" "buffer_size (take ?c bs) = buffer_size (take i bs) + ab_size (bs ! i)"
      using bi_previous_Some [of ?c bs i] i(1) less.prems(1) by simp_all
    let ?it = "it\<lparr>bi_position := bi_position it - ?p, bi_current := i, bi_current_buffer := bs ! i, bi_current_buffer_position := ab_size (bs ! i)\<rparr>"
    have "bi_backward bs abs_n it = bi_backward bs (abs_n - ?p) ?it"
      using False i by (subst bi_backward.simps) (simp add: Let_def)
    moreover have "\<exists>it'. bi_backward bs (abs_n - ?p) ?it = Some (Inr it') \<and> bi_at bs (bi_position ?it - (abs_n - ?p)) it'"
      by (rule less.hyps) (use pr less.prems False in simp_all)
    moreover have "bi_position ?it - (abs_n - ?p) = bi_position it - abs_n" using False by simp
    ultimately show ?thesis by simp
  qed
qed

lemma bi_backward_end:
  assumes "bi_at bs (buffer_size bs) it" "0 < abs_n" "abs_n \<le> buffer_size bs"
  shows "\<exists>it'. bi_backward bs abs_n it = Some (Inr it') \<and> bi_at bs (buffer_size bs - abs_n) it'"
proof -
  have a: "bi_position it = buffer_size bs" "bi_current it = length bs" "bi_current_buffer_position it = 0"
    using assms(1) by (simp_all add: bi_at_def)
  obtain i where i: "bi_previous bs (length bs) = Some i"
    using bi_previous_None [of "length bs" bs] assms(2,3) by (cases "bi_previous bs (length bs)") auto
  have pr: "i < length bs" "ab_size (bs ! i) > 0" "buffer_size bs = buffer_size (take i bs) + ab_size (bs ! i)"
    using bi_previous_Some [of "length bs" bs i] i by simp_all
  let ?it = "it\<lparr>bi_current := i, bi_current_buffer := bs ! i, bi_current_buffer_position := ab_size (bs ! i)\<rparr>"
  have eq: "?it\<lparr>bi_position := buffer_size bs\<rparr> = ?it" by (rule buffers_iterator.equality) (simp_all add: a)
  have "bi_backward bs abs_n it = bi_backward bs abs_n (?it\<lparr>bi_position := buffer_size bs\<rparr>)"
    using a assms(2) i pr(1) by (subst bi_backward.simps) (auto simp: Let_def intro!: arg_cong [where f = "bi_backward bs abs_n"])
  then have "bi_backward bs abs_n it = bi_backward bs abs_n ?it" unfolding eq .
  moreover have "\<exists>it'. bi_backward bs abs_n ?it = Some (Inr it') \<and> bi_at bs (bi_position ?it - abs_n) it'"
    by (rule bi_backward_at) (use pr a assms in simp_all)
  ultimately show ?thesis using a by simp
qed

lemma bi_advance_at:
  assumes "bi_at bs k it" "0 \<le> int k + n" "int k + n \<le> int (buffer_size bs)"
  shows "\<exists>it'. bi_advance bs n it = Some (Inr it') \<and> bi_at bs (nat (int k + n)) it'"
proof -
  note s = bi_at_start [OF assms(1)]
  consider "n = 0" | "n > 0" | "n < 0" "k < buffer_size bs" | "n < 0" "k = buffer_size bs" using s(4) by linarith
  then show ?thesis
  proof cases
    case 1
    then show ?thesis using assms(1) by (simp add: bi_advance_def)
  next
    case 2
    then have "k < buffer_size bs" using assms(3) by simp
    note a = bi_at_inside [OF assms(1) this]
    have "\<exists>it'. bi_forward (drop (Suc (bi_current it)) bs) (nat n) it = Inr it' \<and> bi_at bs (bi_position it + nat n) it'"
      by (rule bi_forward_at) (use a 2 assms(3) in simp_all)
    moreover have "bi_position it + nat n = nat (int k + n)" using a 2 by simp
    ultimately show ?thesis using a 2 by (simp add: bi_advance_def)
  next
    case 3
    note a = bi_at_inside [OF assms(1) 3(2)]
    have "\<exists>it'. bi_backward bs (nat (- n)) it = Some (Inr it') \<and> bi_at bs (bi_position it - nat (- n)) it'"
      by (rule bi_backward_at) (use a 3 assms(2) in simp_all)
    moreover have "bi_position it - nat (- n) = nat (int k + n)" "\<not> bi_position it < nat (- n)" using a 3 assms(2) by simp_all
    ultimately show ?thesis using 3 by (simp add: bi_advance_def Let_def)
  next
    case 4
    have "\<exists>it'. bi_backward bs (nat (- n)) it = Some (Inr it') \<and> bi_at bs (buffer_size bs - nat (- n)) it'"
      by (rule bi_backward_end) (use 4 assms in simp_all)
    moreover have "buffer_size bs - nat (- n) = nat (int k + n)" "\<not> bi_position it < nat (- n)" using s 4 assms(2) by simp_all
    ultimately show ?thesis using 4 by (simp add: bi_advance_def Let_def)
  qed
qed


lemma bi_dereference_at:
  assumes "bi_at bs k it" "k < buffer_size bs"
  shows "bi_dereference it = Inr (seq_addrs bs ! k)"
proof -
  let ?c = "bi_current it" and ?p = "bi_current_buffer_position it"
  note a = bi_at_inside [OF assms]
  have "seq_addrs bs = seq_addrs (take ?c bs @ bs ! ?c # drop (Suc ?c) bs)" using a(1) by (simp add: id_take_nth_drop [symmetric])
  then have "seq_addrs bs = seq_addrs (take ?c bs) @ buf_addrs (bs ! ?c) @ seq_addrs (drop (Suc ?c) bs)" by (simp add: seq_addrs_def)
  moreover have "?p < length (buf_addrs (bs ! ?c))" using a(2,3) by (simp add: buf_addrs_def)
  ultimately have "seq_addrs bs ! k = buf_addrs (bs ! ?c) ! ?p"
    using a(4) by (simp add: nth_append length_seq_addrs)
  then show ?thesis using a(2,3) by (simp add: bi_dereference_def buf_addrs_def)
qed

section \<open>Histories of moves\<close>

datatype bi_move = Bi_Inc | Bi_Dec | Bi_Advance int

fun bi_delta :: "bi_move \<Rightarrow> int" where
  "bi_delta Bi_Inc = 1"
| "bi_delta Bi_Dec = - 1"
| "bi_delta (Bi_Advance n) = n"

fun bi_move_by :: "abuf list \<Rightarrow> bi_move \<Rightarrow> buffers_iterator \<Rightarrow> buffers_iterator res option" where
  "bi_move_by bs Bi_Inc it = Some (bi_increment bs it)"
| "bi_move_by bs Bi_Dec it = Some (bi_decrement bs it)"
| "bi_move_by bs (Bi_Advance n) it = bi_advance bs n it"

fun bi_run :: "abuf list \<Rightarrow> bi_move list \<Rightarrow> buffers_iterator \<Rightarrow> buffers_iterator res option" where
  "bi_run bs [] it = Some (Inr it)"
| "bi_run bs (m # ms) it =
     (case bi_move_by bs m it of
        None \<Rightarrow> None
      | Some (Inl e) \<Rightarrow> Some (Inl e)
      | Some (Inr it) \<Rightarrow> bi_run bs ms it)"

text \<open>The index after the moves, if it stays within the bytes and their end.\<close>

fun bi_target :: "nat \<Rightarrow> int \<Rightarrow> bi_move list \<Rightarrow> int option" where
  "bi_target len k [] = Some k"
| "bi_target len k (m # ms) =
     (if 0 \<le> k + bi_delta m \<and> k + bi_delta m \<le> int len then bi_target len (k + bi_delta m) ms else None)"

lemma bi_move_by_at:
  assumes "bi_at bs k it" "0 \<le> int k + bi_delta m" "int k + bi_delta m \<le> int (buffer_size bs)"
  shows "\<exists>it'. bi_move_by bs m it = Some (Inr it') \<and> bi_at bs (nat (int k + bi_delta m)) it'"
proof (cases m)
  case Bi_Inc
  then show ?thesis using bi_increment_at [OF assms(1)] assms(3) by (simp add: nat_add_distrib)
next
  case Bi_Dec
  then have "0 < k" using assms(2) by simp
  then show ?thesis using Bi_Dec bi_decrement_at [OF assms(1)] by (auto simp: nat_diff_distrib)
next
  case (Bi_Advance n)
  then show ?thesis using bi_advance_at [OF assms(1)] assms(2,3) by simp
qed

lemma bi_run_at:
  "bi_at bs k it \<Longrightarrow> bi_target (buffer_size bs) (int k) ms = Some t \<Longrightarrow>
   \<exists>it' j. bi_run bs ms it = Some (Inr it') \<and> bi_at bs j it' \<and> t = int j"
proof (induction ms arbitrary: k it)
  case (Cons m ms)
  then have r: "0 \<le> int k + bi_delta m" "int k + bi_delta m \<le> int (buffer_size bs)"
    "bi_target (buffer_size bs) (int (nat (int k + bi_delta m))) ms = Some t" by (simp_all split: if_splits)
  then obtain it' where "bi_move_by bs m it = Some (Inr it')" "bi_at bs (nat (int k + bi_delta m)) it'"
    using bi_move_by_at [OF Cons.prems(1)] by blast
  then show ?case using Cons.IH r(3) by simp
qed auto

section \<open>Properties of the iterator\<close>

text \<open>C33: The iterator over a buffer sequence is an index into its bytes. From the beginning or from the end, every
  sequence of increments, decrements and advances by any distance that stays within the bytes succeeds and
  returns, however the bytes are spread over the buffers and wherever buffers are empty; the position is the sum
  of the moves, and dereferencing gives the address of the byte with that index.\<close>

theorem buffers_iterator_is_index:
  assumes "start = bi_begin bs \<and> k = 0 \<or> start = bi_end bs \<and> k = int (buffer_size bs)"
    and "bi_target (buffer_size bs) k moves = Some t"
  shows "\<exists>it. bi_run bs moves start = Some (Inr it) \<and> int (bi_position it) = t \<and>
    (t < int (buffer_size bs) \<longrightarrow> bi_dereference it = Inr (seq_addrs bs ! nat t))"
proof -
  have "bi_at bs (nat k) start" "int (nat k) = k" using assms(1) bi_begin_at bi_end_at by auto
  then obtain it j where "bi_run bs moves start = Some (Inr it)" "bi_at bs j it" "t = int j"
    using bi_run_at [of bs "nat k" start moves t] assms(2) by auto
  then show ?thesis using bi_at_start(3) [of bs j it] bi_dereference_at [of bs j it] by simp
qed

theorem buffers_iterator_is_index_witness:
  "\<exists>it. bi_run [mk_buf 9 0, mk_buf 100 3, mk_buf 5 0, mk_buf 200 2, mk_buf 7 0] [Bi_Dec, Bi_Advance (- 2), Bi_Inc, Bi_Advance (- 1)]
      (bi_end [mk_buf 9 0, mk_buf 100 3, mk_buf 5 0, mk_buf 200 2, mk_buf 7 0]) = Some (Inr it) \<and>
    int (bi_position it) = 2 \<and> bi_dereference it = Inr 102"
proof -
  define bs where "bs = [mk_buf 9 0, mk_buf 100 3, mk_buf 5 0, mk_buf 200 2, mk_buf 7 0]"
  define moves where "moves = [Bi_Dec, Bi_Advance (- 2), Bi_Inc, Bi_Advance (- 1)]"
  have h: "buffer_size bs = 5" "bi_target 5 5 moves = Some 2" "seq_addrs bs ! 2 = 102"
    by (simp_all add: bs_def moves_def mk_buf_def buf_addrs_def upt_conv_Cons)
  then obtain it where "bi_run bs moves (bi_end bs) = Some (Inr it)" "int (bi_position it) = 2" "bi_dereference it = Inr 102"
    using buffers_iterator_is_index [of "bi_end bs" bs 5 moves 2] by auto
  then show ?thesis unfolding bs_def moves_def by blast
qed

end
