(* ===== verification/Asio_Deadline_Timer.thy ===== *)
theory Asio_Deadline_Timer
  imports Asio_Reactor
begin

text \<open>
  The service behind the timers of asio: \<open>src/3rd/asio/include/asio/detail/deadline_timer_service.hpp\<close>, over the
  timer queue of \<open>Asio_Timer_Queue\<close> and the reactor of \<open>Asio_Reactor\<close>. A timer is the address of its
  \<open>per_timer_data\<close> together with a record of its other two fields; \<open>i\<close> is the place of the service's
  queue in the reactor's list of queues. The error code that the calls take is cleared by all of them, so
  it is not shown. A system of timers in one context is a record, its calls are the commands \<open>dt_cmd\<close>,
  and the specification of the service is a map from timers to their expiry and the operations that wait.
\<close>

section \<open>The service\<close>

record timer_impl =
  ti_expiry :: int
  ti_might_have_pending_waits :: bool

definition dt_construct :: timer_impl where
  "dt_construct = \<lparr> ti_expiry = 0, ti_might_have_pending_waits = False \<rparr>"

definition dt_cancel :: "nat \<Rightarrow> nat \<Rightarrow> timer_impl \<Rightarrow> 'w reactor \<Rightarrow> nat \<times> timer_impl \<times> 'w reactor" where
  "dt_cancel i p impl r =
     (if \<not> ti_might_have_pending_waits impl then (0, impl, r)
      else (case er_cancel_timer i p size_t_max r of (n, r) \<Rightarrow>
        (n, impl\<lparr>ti_might_have_pending_waits := False\<rparr>, r)))"

definition dt_destroy :: "nat \<Rightarrow> nat \<Rightarrow> timer_impl \<Rightarrow> 'w reactor \<Rightarrow> timer_impl \<times> 'w reactor" where
  "dt_destroy i p impl r = (case dt_cancel i p impl r of (_, impl, r) \<Rightarrow> (impl, r))"

definition dt_cancel_one :: "nat \<Rightarrow> nat \<Rightarrow> timer_impl \<Rightarrow> 'w reactor \<Rightarrow> nat \<times> timer_impl \<times> 'w reactor" where
  "dt_cancel_one i p impl r =
     (if \<not> ti_might_have_pending_waits impl then (0, impl, r)
      else (case er_cancel_timer i p 1 r of (n, r) \<Rightarrow>
        (n, if n = 0 then impl\<lparr>ti_might_have_pending_waits := False\<rparr> else impl, r)))"

definition dt_expiry :: "timer_impl \<Rightarrow> int" where
  "dt_expiry impl = ti_expiry impl"

definition dt_remaining :: "int \<Rightarrow> timer_impl \<Rightarrow> int res" where
  "dt_remaining now impl = time_subtract (dt_expiry impl) now"

definition dt_expires_at :: "nat \<Rightarrow> nat \<Rightarrow> timer_impl \<Rightarrow> int \<Rightarrow> 'w reactor \<Rightarrow> nat \<times> timer_impl \<times> 'w reactor" where
  "dt_expires_at i p impl expiry_time r =
     (case dt_cancel i p impl r of (n, impl, r) \<Rightarrow> (n, impl\<lparr>ti_expiry := expiry_time\<rparr>, r))"

definition dt_expires_after ::
    "nat \<Rightarrow> nat \<Rightarrow> timer_impl \<Rightarrow> int \<Rightarrow> int \<Rightarrow> 'w reactor \<Rightarrow> (nat \<times> timer_impl \<times> 'w reactor) res" where
  "dt_expires_after i p impl now d r = bind_res (time_add now d) (\<lambda>t. Inr (dt_expires_at i p impl t r))"

definition dt_async_wait :: "nat \<Rightarrow> nat \<Rightarrow> timer_impl \<Rightarrow> nat \<Rightarrow> 'w reactor \<Rightarrow> timer_impl \<times> 'w reactor" where
  "dt_async_wait i p impl op r =
     (let impl = impl\<lparr>ti_might_have_pending_waits := True\<rparr>
      in (impl, snd (schedule_timer i (ti_expiry impl) p op r)))"

text \<open>Moving a timer: the fields go to the target and the source is as after \<open>construct\<close>. A timer can be assigned
  from one of another context; then its own reactor cancels what waits on it.\<close>

definition dt_move_construct ::
    "nat \<Rightarrow> nat \<Rightarrow> nat \<Rightarrow> timer_impl \<Rightarrow> 'w reactor \<Rightarrow> timer_impl \<times> timer_impl \<times> 'w reactor" where
  "dt_move_construct i p q other r = (other, dt_construct, er_move_timer i p q r)"

definition dt_move_assign ::
    "nat \<Rightarrow> nat \<Rightarrow> timer_impl \<Rightarrow> nat \<Rightarrow> timer_impl \<Rightarrow> 'w reactor \<Rightarrow> timer_impl \<times> timer_impl \<times> 'w reactor" where
  "dt_move_assign i p impl q other r = (other, dt_construct, er_move_timer i p q r)"

definition dt_move_assign_from ::
    "nat \<Rightarrow> nat \<Rightarrow> timer_impl \<Rightarrow> 'w reactor \<Rightarrow> nat \<Rightarrow> nat \<Rightarrow> timer_impl \<Rightarrow> 'w reactor \<Rightarrow>
     timer_impl \<times> timer_impl \<times> 'w reactor \<times> 'w reactor" where
  "dt_move_assign_from i p impl r j q other r2 =
     (let r = (if ti_might_have_pending_waits impl then snd (er_cancel_timer i p size_t_max r) else r)
      in (other, dt_construct, r, er_move_timer j p q r2))"

text \<open>The constructor and the destructor of the service.\<close>

definition do_add_timer_queue :: "timer_queue \<Rightarrow> 'w reactor \<Rightarrow> 'w reactor" where
  "do_add_timer_queue q r = r\<lparr>er_timers := q # er_timers r\<rparr>"

definition do_remove_timer_queue :: "nat \<Rightarrow> 'w reactor \<Rightarrow> 'w reactor" where
  "do_remove_timer_queue i r = r\<lparr>er_timers := take i (er_timers r) @ drop (i + 1) (er_timers r)\<rparr>"

definition dt_service_ctor :: "'w reactor \<Rightarrow> 'w reactor" where
  "dt_service_ctor r = do_add_timer_queue timer_queue_ctor (r\<lparr>er_sched := init_task (er_sched r)\<rparr>)"

section \<open>The blocking wait\<close>

definition so_select :: "(int \<times> int \<Rightarrow> 's sys_call) \<Rightarrow> int \<times> int \<Rightarrow> 's \<Rightarrow> (int \<times> error_code) \<times> 's" where
  "so_select sys_select timeout w =
     (case sys_select timeout w of ((result, errno), w) \<Rightarrow> ((result, get_last_error errno (result < 0)), w))"

definition dt_do_wait ::
    "(int \<times> int \<Rightarrow> 's sys_call) \<Rightarrow> nat \<Rightarrow> nat \<Rightarrow> int \<Rightarrow> 's \<Rightarrow> (error_code \<times> 's) res" where
  "dt_do_wait sys_select pnum pden timeout w =
     bind_res (total_seconds pnum pden timeout) (\<lambda>tv_sec.
     bind_res (total_microseconds pnum pden timeout) (\<lambda>usec.
     Inr (case so_select sys_select (tv_sec, c_rem usec 1000000) w of ((_, ec), w) \<Rightarrow> (ec, w))))"

partial_function (option) dt_wait_loop ::
    "('s \<Rightarrow> int \<times> 's) \<Rightarrow> (int \<times> int \<Rightarrow> 's sys_call) \<Rightarrow> nat \<Rightarrow> nat \<Rightarrow> timer_impl \<Rightarrow> int \<Rightarrow> error_code \<Rightarrow> 's \<Rightarrow>
     (error_code \<times> 's) res option" where
  "dt_wait_loop clock sys_select pnum pden impl now ec w =
     (if less_than now (ti_expiry impl) \<and> ec = None then
        (case bind_res (time_subtract (ti_expiry impl) now) (\<lambda>d. dt_do_wait sys_select pnum pden d w) of
           Inl f \<Rightarrow> Some (Inl f)
         | Inr (ec, w) \<Rightarrow> (case clock w of (now, w) \<Rightarrow> dt_wait_loop clock sys_select pnum pden impl now ec w))
      else Some (Inr (ec, w)))"

definition dt_wait ::
    "('s \<Rightarrow> int \<times> 's) \<Rightarrow> (int \<times> int \<Rightarrow> 's sys_call) \<Rightarrow> nat \<Rightarrow> nat \<Rightarrow> timer_impl \<Rightarrow> 's \<Rightarrow> (error_code \<times> 's) res option" where
  "dt_wait clock sys_select pnum pden impl w =
     (case clock w of (now, w) \<Rightarrow> dt_wait_loop clock sys_select pnum pden impl now None w)"

section \<open>Timers in one context\<close>

text \<open>The timers that live are a list of addresses; the reactor has one timer queue. A command returns the number of
  the call and the operations it hands out: those posted to the scheduler, or for \<open>run\<close> those of the timers.\<close>

datatype dt_cmd = Dt_Construct nat | Dt_Destroy nat | Dt_Cancel nat | Dt_Cancel_One nat | Dt_Expires_At nat int
  | Dt_Expires_After nat int int | Dt_Async_Wait nat nat | Dt_Move_Construct nat nat | Dt_Move_Assign nat nat
  | Dt_Run int "(epoll_ptr \<times> 32 word) list"

record 'w timer_system =
  dy_reactor :: "'w reactor"
  dy_impls :: "nat \<Rightarrow> timer_impl"

definition posted_after :: "'w reactor \<Rightarrow> 'w reactor \<Rightarrow> nat list" where
  "posted_after r r' =
     List.map_filter (\<lambda>x. case x of Q_Op op \<Rightarrow> Some op | _ \<Rightarrow> None)
       (drop (length (sc_op_queue (er_sched r))) (sc_op_queue (er_sched r'))) @
     drop (length (th_private_queue (er_thread r))) (th_private_queue (er_thread r'))"

text \<open>A new timer object, and the effect of a call on one timer.\<close>

definition new_timer_data :: "nat \<Rightarrow> 'w reactor \<Rightarrow> 'w reactor" where
  "new_timer_data p r = r\<lparr>er_timers := (er_timers r)[0 := upd_timer p (\<lambda>_. per_timer_ctor) (er_timers r ! 0)]\<rparr>"

definition after_call :: "nat \<Rightarrow> nat \<times> timer_impl \<times> 'w reactor \<Rightarrow> 'w timer_system \<Rightarrow> 'w timer_system \<times> nat \<times> nat list" where
  "after_call p x y = (case x of (n, impl, r) \<Rightarrow>
     (\<lparr> dy_reactor = r, dy_impls = (dy_impls y)(p := impl) \<rparr>, n, posted_after (dy_reactor y) r))"

definition after_move ::
    "nat \<Rightarrow> nat \<Rightarrow> timer_impl \<times> timer_impl \<times> 'w reactor \<Rightarrow> 'w timer_system \<Rightarrow> 'w timer_system \<times> nat \<times> nat list" where
  "after_move p q x y = (case x of (impl, other, r) \<Rightarrow>
     (\<lparr> dy_reactor = r, dy_impls = (dy_impls y)(p := impl, q := other) \<rparr>, 0, posted_after (dy_reactor y) r))"

fun dt_exec :: "dt_cmd \<Rightarrow> 'w timer_system \<Rightarrow> ('w timer_system \<times> nat \<times> nat list) option" where
  "dt_exec (Dt_Construct p) y = Some (after_call p (0, dt_construct, new_timer_data p (dy_reactor y)) y)"
| "dt_exec (Dt_Destroy p) y = Some (after_call p (0, dt_destroy 0 p (dy_impls y p) (dy_reactor y)) y)"
| "dt_exec (Dt_Cancel p) y = Some (after_call p (dt_cancel 0 p (dy_impls y p) (dy_reactor y)) y)"
| "dt_exec (Dt_Cancel_One p) y = Some (after_call p (dt_cancel_one 0 p (dy_impls y p) (dy_reactor y)) y)"
| "dt_exec (Dt_Expires_At p t) y = Some (after_call p (dt_expires_at 0 p (dy_impls y p) t (dy_reactor y)) y)"
| "dt_exec (Dt_Expires_After p now d) y =
     (case dt_expires_after 0 p (dy_impls y p) now d (dy_reactor y) of
        Inl _ \<Rightarrow> None | Inr x \<Rightarrow> Some (after_call p x y))"
| "dt_exec (Dt_Async_Wait p op) y = Some (after_call p (0, dt_async_wait 0 p (dy_impls y p) op (dy_reactor y)) y)"
| "dt_exec (Dt_Move_Construct p q) y =
     Some (after_move p q (dt_move_construct 0 p q (dy_impls y q) (new_timer_data p (dy_reactor y))) y)"
| "dt_exec (Dt_Move_Assign p q) y =
     Some (after_move p q (dt_move_assign 0 p (dy_impls y p) q (dy_impls y q) (dy_reactor y)) y)"
| "dt_exec (Dt_Run now events) y =
     (case er_run now events (dy_reactor y) of
        None \<Rightarrow> None
      | Some (items, r) \<Rightarrow>
          Some (y\<lparr>dy_reactor := r\<rparr>, 0, List.map_filter (\<lambda>x. case x of It_Op op \<Rightarrow> Some op | _ \<Rightarrow> None) items))"

fun dt_run :: "dt_cmd list \<Rightarrow> 'w timer_system \<Rightarrow> ('w timer_system \<times> (nat \<times> nat list) list) option" where
  "dt_run [] y = Some (y, [])"
| "dt_run (c # cs) y =
     (case dt_exec c y of
        None \<Rightarrow> None
      | Some (y, res) \<Rightarrow> (case dt_run cs y of None \<Rightarrow> None | Some (y, rs) \<Rightarrow> Some (y, res # rs)))"

definition timer_system_init :: "'w reactor \<Rightarrow> (nat \<Rightarrow> timer_impl) \<Rightarrow> 'w timer_system" where
  "timer_system_init r im = \<lparr> dy_reactor = dt_service_ctor r, dy_impls = im \<rparr>"

section \<open>The specification\<close>

text \<open>A timer that lives has an expiry and the operations that wait for it. The expiry of a pending wait is always
  that of its timer, because a new expiry cancels.\<close>

type_synonym timer_spec_state = "nat \<rightharpoonup> int \<times> nat list"

definition waits :: "timer_spec_state \<Rightarrow> nat \<Rightarrow> nat list" where
  "waits m p = (case m p of None \<Rightarrow> [] | Some (t, os) \<Rightarrow> os)"

definition expiry_of :: "timer_spec_state \<Rightarrow> nat \<Rightarrow> int" where
  "expiry_of m p = (case m p of None \<Rightarrow> 0 | Some (t, os) \<Rightarrow> t)"

fun dt_next :: "dt_cmd \<Rightarrow> timer_spec_state \<Rightarrow> timer_spec_state" where
  "dt_next (Dt_Construct p) m = m(p \<mapsto> (0, []))"
| "dt_next (Dt_Destroy p) m = m(p := None)"
| "dt_next (Dt_Cancel p) m = m(p \<mapsto> (expiry_of m p, []))"
| "dt_next (Dt_Cancel_One p) m = m(p \<mapsto> (expiry_of m p, drop 1 (waits m p)))"
| "dt_next (Dt_Expires_At p t) m = m(p \<mapsto> (t, []))"
| "dt_next (Dt_Expires_After p now d) m = m(p \<mapsto> (clamp64 (now + d), []))"
| "dt_next (Dt_Async_Wait p op) m = m(p \<mapsto> (expiry_of m p, waits m p @ [op]))"
| "dt_next (Dt_Move_Construct p q) m = m(p := m q, q \<mapsto> (0, []))"
| "dt_next (Dt_Move_Assign p q) m = m(p := m q, q \<mapsto> (0, []))"
| "dt_next (Dt_Run now events) m = (\<lambda>p. map_option (\<lambda>(t, os). (t, if t \<le> now then [] else os)) (m p))"

fun dt_result :: "dt_cmd \<Rightarrow> timer_spec_state \<Rightarrow> nat \<times> nat list \<Rightarrow> bool" where
  "dt_result (Dt_Construct p) m res \<longleftrightarrow> res = (0, [])"
| "dt_result (Dt_Destroy p) m res \<longleftrightarrow> res = (0, waits m p)"
| "dt_result (Dt_Cancel p) m res \<longleftrightarrow> res = (length (waits m p), waits m p)"
| "dt_result (Dt_Cancel_One p) m res \<longleftrightarrow> res = (min 1 (length (waits m p)), take 1 (waits m p))"
| "dt_result (Dt_Expires_At p t) m res \<longleftrightarrow> res = (length (waits m p), waits m p)"
| "dt_result (Dt_Expires_After p now d) m res \<longleftrightarrow> res = (length (waits m p), waits m p)"
| "dt_result (Dt_Async_Wait p op) m res \<longleftrightarrow> res = (0, [])"
| "dt_result (Dt_Move_Construct p q) m res \<longleftrightarrow> res = (0, [])"
| "dt_result (Dt_Move_Assign p q) m res \<longleftrightarrow> res = (0, waits m p)"
| "dt_result (Dt_Run now events) m res \<longleftrightarrow>
     (\<exists>ps. distinct ps \<and> set ps = {p. waits m p \<noteq> [] \<and> expiry_of m p \<le> now} \<and> sorted (map (expiry_of m) ps) \<and>
        res = (0, concat (map (waits m) ps)))"

text \<open>What a program may do: use timers that live, at addresses that are not null, fewer than \<open>2\<^sup>6\<^sup>4\<close> waits on one;
  and the events of a run say that the timers are to be checked, if the reactor has a timer descriptor.\<close>

fun dt_allowed :: "bool \<Rightarrow> dt_cmd \<Rightarrow> timer_spec_state \<Rightarrow> bool" where
  "dt_allowed fd (Dt_Construct p) m \<longleftrightarrow> m p = None \<and> 0 < p \<and> p < 2 ^ 64"
| "dt_allowed fd (Dt_Destroy p) m \<longleftrightarrow> m p \<noteq> None"
| "dt_allowed fd (Dt_Cancel p) m \<longleftrightarrow> m p \<noteq> None"
| "dt_allowed fd (Dt_Cancel_One p) m \<longleftrightarrow> m p \<noteq> None"
| "dt_allowed fd (Dt_Expires_At p t) m \<longleftrightarrow> m p \<noteq> None"
| "dt_allowed fd (Dt_Expires_After p now d) m \<longleftrightarrow> m p \<noteq> None \<and> in_i64 now \<and> in_i64 d"
| "dt_allowed fd (Dt_Async_Wait p op) m \<longleftrightarrow> m p \<noteq> None \<and> length (waits m p) < size_t_max"
| "dt_allowed fd (Dt_Move_Construct p q) m \<longleftrightarrow> m p = None \<and> 0 < p \<and> p < 2 ^ 64 \<and> m q \<noteq> None"
| "dt_allowed fd (Dt_Move_Assign p q) m \<longleftrightarrow> m p \<noteq> None \<and> m q \<noteq> None \<and> p \<noteq> q"
| "dt_allowed fd (Dt_Run now events) m \<longleftrightarrow> fd \<longrightarrow> Ptr_Timer \<in> fst ` set events"

fun dt_allowed_run :: "bool \<Rightarrow> dt_cmd list \<Rightarrow> timer_spec_state \<Rightarrow> bool" where
  "dt_allowed_run fd [] m \<longleftrightarrow> True"
| "dt_allowed_run fd (c # cs) m \<longleftrightarrow> dt_allowed fd c m \<and> dt_allowed_run fd cs (dt_next c m)"

fun dt_results :: "dt_cmd list \<Rightarrow> timer_spec_state \<Rightarrow> (nat \<times> nat list) list \<Rightarrow> bool" where
  "dt_results [] m rs \<longleftrightarrow> rs = []"
| "dt_results (c # cs) m rs \<longleftrightarrow>
     (case rs of [] \<Rightarrow> False | res # rs \<Rightarrow> dt_result c m res \<and> dt_results cs (dt_next c m) rs)"

section \<open>Idle timers\<close>

text \<open>A timer that is not in the heap has the index that stands for none; \<open>move_timer\<close> relies on it when it moves an
  idle timer.\<close>

definition idle_ok :: "timer_queue \<Rightarrow> bool" where
  "idle_ok s \<longleftrightarrow> (\<forall>p. p \<notin> snd ` set (tq_heap s) \<longrightarrow> pt_index (tq_data s p) = no_index)"

lemma idle_ctor: "idle_ok timer_queue_ctor"
  by (simp add: idle_ok_def timer_queue_ctor_def per_timer_ctor_def)

lemma idle_rearranged: "rearranged s s' \<Longrightarrow> idle_ok s \<Longrightarrow> idle_ok s'"
  using rearranged_set [of s s'] by (simp add: idle_ok_def rearranged_def)

lemma idle_upd_ops [simp]: "idle_ok (upd_timer p (\<lambda>d. d\<lparr>pt_ops := f d\<rparr>) s) = idle_ok s"
  by (simp add: idle_ok_def)

lemma idle_pushed:
  assumes "idle_ok s"
  shows "idle_ok (pushed s t p)"
proof -
  define b where "b = (set_index p (length (tq_heap s)) s)\<lparr>tq_heap := tq_heap s @ [(t, p)]\<rparr>"
  have "rearranged b (pushed s t p)"
    using up_heap_rearranged [of "length (tq_heap s)" b] by (simp add: pushed_def b_def)
  moreover have "idle_ok b" using assms by (simp add: idle_ok_def b_def set_index_def upd_timer_def)
  ultimately show ?thesis by (rule idle_rearranged)
qed

lemma idle_enqueue:
  assumes "tq_inv s ts" "idle_ok s" "enqueue_timer s t p op = (s', first)"
  shows "idle_ok s'"
proof -
  define s1 where "s1 = (if is_active s p then s else link_front (pushed s t p) p)"
  have "idle_ok s1"
  proof (cases "is_active s p")
    case True
    then show ?thesis using assms(2) by (simp add: s1_def)
  next
    case False
    then have "p \<notin> snd ` set (tq_heap s)"
      using tq_inv_active [of s ts p] assms(1) by (auto simp: tq_inv_def linked_inv_def)
    then have "same_list s (pushed s t p)" using pushed_spec(2) assms(1) by (simp add: tq_inv_def linked_inv_def)
    then have "tq_timers (pushed s t p) \<noteq> Some p" using False by (simp add: same_list_def is_active_def)
    from link_front_fields [OF this] show ?thesis
      using idle_pushed [OF assms(2), of t p] False by (simp add: s1_def idle_ok_def)
  qed
  then show ?thesis using assms(3) by (auto simp: enqueue_timer_eq Let_def s1_def)
qed

lemma idle_remove:
  assumes "linked_inv s ts" "(t, p) \<in> set (tq_heap s)" "idle_ok s"
  shows "idle_ok (remove_timer s p)"
proof -
  let ?h = "tq_heap s" and ?n = "length (tq_heap s)" and ?r = "remove_from_heap s p"
  have inv: "heap_inv s" using assms(1) by (simp add: linked_inv_def)
  obtain i where i: "i < ?n" "?h ! i = (t, p)" using assms(2) by (auto simp: in_set_conv_nth)
  have ix: "pt_index (tq_data s p) = i" using inv i by (force simp: heap_inv_def index_ok_def)
  have ne: "?h \<noteq> []" using i by auto
  have heap: "snd ` set ?h = insert p (snd ` set (tq_heap ?r))"
    using remove_from_heap_spec [OF inv assms(2)] by (metis image_insert mset_eq_setD list.simps(15) mset.simps(2) snd_conv)
  have "idle_ok ?r"
  proof (cases "i = ?n - 1")
    case True
    then have r: "?r = (set_index p no_index s)\<lparr>tq_heap := butlast ?h\<rparr>"
      using ix i(1) ne by (simp add: remove_from_heap_def Let_def set_index_def upd_timer_def)
    then show ?thesis using assms(3) heap by (auto simp: idle_ok_def set_index_def upd_timer_def)
  next
    case False
    let ?s2 = "swapped_out s p i"
    have lt: "i < ?n - 1" using i(1) False by simp
    have "?r = up_heap ?s2 i \<or> ?r = down_heap ?s2 i"
      using ix i(1) ne False by (simp add: remove_from_heap_def Let_def swapped_out_def set_index_def upd_timer_def)
    then have re: "rearranged ?s2 ?r"
      using lt up_heap_rearranged [of i ?s2] down_heap_rearranged [of i ?s2] by (auto simp: swapped_out_def)
    have "q \<notin> snd ` set ?h \<Longrightarrow> tq_data (swap_heap s i (?n - 1)) q = tq_data s q" for q
      using swap_heap_rearranged [of i s "?n - 1"] i(1) lt by (simp add: rearranged_def)
    then have "idle_ok ?s2" using assms(3) heap rearranged_set [OF re]
      by (auto simp: idle_ok_def swapped_out_def set_index_def upd_timer_def)
    with re show ?thesis by (rule idle_rearranged)
  qed
  moreover have "tq_heap (remove_timer s p) = tq_heap ?r" "pt_index (tq_data (remove_timer s p) q) = pt_index (tq_data ?r q)" for q
    by (simp_all add: remove_timer_def unlink_timer_def Let_def set_next_def set_prev_def upd_timer_def split: option.split)
  ultimately show ?thesis by (simp add: idle_ok_def)
qed

lemma idle_cancel:
  assumes "tq_inv s ts" "idle_ok s" "cancel_timer s p ops m = (s', ops', n)"
  shows "idle_ok s'"
proof (cases "p \<in> set ts")
  case True
  have li: "linked_inv s ts" using assms(1) by (simp add: tq_inv_def)
  note b = cancelled_facts [OF li, of p m]
  have idle: "idle_ok (cancelled s p m)" using assms(2) by (simp add: cancelled_def idle_ok_def)
  obtain t where "(t, p) \<in> set (tq_heap (cancelled s p m))" using b(1) True by (auto simp: linked_inv_def)
  from idle_remove [OF b(1) this idle] idle show ?thesis
    using cancel_active [OF li True, of ops m] assms(3) by (auto split: if_splits)
next
  case False
  then have "\<not> is_active s p" using tq_inv_active [of s ts p] assms(1) by (simp add: tq_inv_def)
  then show ?thesis using assms(2,3) by (auto simp: cancel_timer_def is_active_def)
qed

lemma idle_ready_loop:
  "tq_inv s ts \<Longrightarrow> idle_ok s \<Longrightarrow> ready_loop now s ops = Some (s', out) \<Longrightarrow> idle_ok s'"
proof (induction "length (tq_heap s)" arbitrary: s ts ops)
  case 0
  then show ?case using ready_loop.simps [of now s ops] by simp
next
  case (Suc n)
  then have ne: "tq_heap s \<noteq> []" by auto
  obtain t p where root: "tq_heap s ! 0 = (t, p)" by (cases "tq_heap s ! 0")
  define s1 where "s1 = remove_timer (upd_timer p (\<lambda>d. d\<lparr>pt_ops := []\<rparr>) s) p"
  note turn = ready_turn [OF Suc.prems(1) ne root, folded s1_def]
  show ?case
  proof (cases "t \<le> now")
    case True
    have "size (mset (tq_heap s)) = Suc (size (mset (tq_heap s1)))" using turn(2) by simp
    then have "n = length (tq_heap s1)" using Suc.hyps(2) by simp
    moreover have "(t, p) \<in> set (tq_heap (upd_timer p (\<lambda>d. d\<lparr>pt_ops := []\<rparr>) s))"
      using ne root by simp (metis length_greater_0_conv nth_mem)
    then have "idle_ok s1" unfolding s1_def
      using idle_remove [of "upd_timer p (\<lambda>d. d\<lparr>pt_ops := []\<rparr>) s" ts t p] Suc.prems(1,2) by (simp add: tq_inv_def)
    moreover have "ready_loop now s1 (ops @ pt_ops (tq_data s p)) = Some (s', out)"
      using Suc.prems(3) ne root True by (subst (asm) ready_loop.simps) (simp add: less_than_def s1_def Let_def)
    ultimately show ?thesis using Suc.hyps(1) turn(1) by blast
  next
    case False
    then have "s' = s" using Suc.prems(3) root by (subst (asm) ready_loop.simps) (simp add: less_than_def)
    then show ?thesis using Suc.prems(2) by simp
  qed
qed

lemma not_linked:
  assumes "tq_inv s ts" "p \<notin> set ts"
  shows "pt_prev (tq_data s p) = None" "pt_next (tq_data s p) = None" "tq_timers s \<noteq> Some p" "pt_ops (tq_data s p) = []"
    "p \<notin> snd ` set (tq_heap s)"
proof -
  have d: "dlist_of s ts" and h: "set ts = snd ` set (tq_heap s)" using assms(1) by (simp_all add: tq_inv_def linked_inv_def)
  show "pt_prev (tq_data s p) = None" "pt_next (tq_data s p) = None" using d assms(2) by (simp_all add: dlist_of_def)
  show "tq_timers s \<noteq> Some p" using d assms(2) by (cases ts) (auto simp: dlist_of_def)
  show "pt_ops (tq_data s p) = []" using assms by (auto simp: tq_inv_def)
  show "p \<notin> snd ` set (tq_heap s)" using h assms(2) by simp
qed

text \<open>Moving an idle timer onto another idle one changes nothing.\<close>

lemma move_idle:
  assumes "tq_inv s ts" "idle_ok s" "length (tq_heap s) \<le> no_index" "source \<notin> set ts" "target \<notin> set ts" "source \<noteq> target"
  shows "move_timer s target source = s"
proof -
  note a = not_linked [OF assms(1,4)] and b = not_linked [OF assms(1,5)]
  have i: "pt_index (tq_data s source) = no_index" "pt_index (tq_data s target) = no_index"
    using assms(2) a(5) b(5) by (simp_all add: idle_ok_def)
  note f = move_fields [of source target s, OF assms(6)]
  have "tq_data (move_timer s target source) x = tq_data s x" for x
    by (rule per_timer_data.equality) (use f a b i in simp_all)
  then have "tq_data (move_timer s target source) = tq_data s" ..
  then show ?thesis by (intro timer_queue.equality) (use f a b i assms(3) in simp_all)
qed

lemma move_links_index: "pt_index (tq_data (move_links s target source) q) = pt_index (tq_data s q)"
proof -
  have set: "pt_index (tq_data (set_next a x s) q) = pt_index (tq_data s q)"
    "pt_index (tq_data (set_prev a x s) q) = pt_index (tq_data s q)" for a x s
    by (simp_all add: set_next_def set_prev_def upd_timer_def)
  show ?thesis by (simp add: move_links_def Let_def set split: option.split)
qed

lemma idle_move:
  assumes "tq_inv s (us @ source # vs)" "idle_ok s" "target \<notin> set (us @ source # vs)"
  shows "idle_ok (move_timer s target source)"
proof -
  have mv: "tq_inv (move_timer s target source) (us @ target # vs)" using move_timer_spec(1) [OF assms(1,3)] .
  then have heap: "snd ` set (tq_heap (move_timer s target source)) = set (us @ target # vs)"
    "snd ` set (tq_heap s) = set (us @ source # vs)"
    using assms(1) by (simp_all add: tq_inv_def linked_inv_def)
  have d: "dlist_of s (us @ source # vs)" using assms(1) by (simp add: tq_inv_def linked_inv_def)
  have "pt_index (tq_data (move_timer s target source) q) =
      (if q = source then no_index else if q = target then pt_index (tq_data s source) else pt_index (tq_data s q))" for q
    using move_heap_entry_fields(7) [of source target s q] assms(3) by (auto simp: move_timer_def move_links_index)
  then show ?thesis using assms(2) unfolding idle_ok_def heap by auto
qed

section \<open>The simulation\<close>

definition timers_ok :: "timer_queue \<Rightarrow> (nat \<Rightarrow> timer_impl) \<Rightarrow> timer_spec_state \<Rightarrow> bool" where
  "timers_ok q im m \<longleftrightarrow>
     (\<exists>ts. tq_inv q ts \<and> idle_ok q \<and> set ts \<subseteq> dom m) \<and>
     (\<forall>p t os. m p = Some (t, os) \<longrightarrow> 0 < p \<and> p < 2 ^ 64 \<and> ti_expiry (im p) = t \<and> pt_ops (tq_data q p) = os \<and>
        length os \<le> size_t_max \<and> (os \<noteq> [] \<longrightarrow> deadline q p = Some t \<and> ti_might_have_pending_waits (im p)))"

lemma timers_okD:
  assumes "timers_ok q im m" "m p = Some (t, os)"
  shows "0 < p" "p < 2 ^ 64" "ti_expiry (im p) = t" "pt_ops (tq_data q p) = os" "length os \<le> size_t_max"
    "os \<noteq> [] \<Longrightarrow> deadline q p = Some t" "os \<noteq> [] \<Longrightarrow> ti_might_have_pending_waits (im p)"
  using assms by (auto simp: timers_ok_def)

lemma timers_ok_queue: "timers_ok q im m \<Longrightarrow> \<exists>ts. tq_inv q ts \<and> idle_ok q \<and> set ts \<subseteq> dom m"
  by (simp add: timers_ok_def)

text \<open>A timer that nothing waits for may change its fields, be born or die.\<close>

lemma timers_ok_set:
  assumes "timers_ok q im m" "waits m p = []" "0 < p" "p < 2 ^ 64"
  shows "timers_ok q (im(p := x)) (m(p \<mapsto> (ti_expiry x, [])))"
proof -
  obtain ts where ts: "tq_inv q ts" "idle_ok q" "set ts \<subseteq> dom m" using timers_ok_queue [OF assms(1)] by blast
  have "pt_ops (tq_data q p) = []"
  proof (cases "m p")
    case None
    then show ?thesis using ts not_linked(4) [OF ts(1)] by blast
  next
    case (Some a)
    then show ?thesis using timers_okD(4) [OF assms(1)] assms(2) by (cases a) (simp add: waits_def)
  qed
  then show ?thesis using assms(1,3,4) ts unfolding timers_ok_def by auto
qed

lemma timers_ok_drop:
  assumes "timers_ok q im m" "waits m p = []"
  shows "timers_ok q im (m(p := None))"
proof -
  obtain ts where ts: "tq_inv q ts" "idle_ok q" "set ts \<subseteq> dom m" using timers_ok_queue [OF assms(1)] by blast
  have "p \<notin> set ts"
  proof
    assume p: "p \<in> set ts"
    then obtain t os where "m p = Some (t, os)" using ts(3) by fastforce
    then show False using timers_okD(4) [OF assms(1)] assms(2) ts(1) p by (auto simp: waits_def tq_inv_def)
  qed
  then show ?thesis using assms(1) ts unfolding timers_ok_def by auto
qed

lemma timers_ok_impl:
  assumes "timers_ok q im m" "ti_expiry x = ti_expiry (im p)" "waits m p \<noteq> [] \<Longrightarrow> ti_might_have_pending_waits x"
  shows "timers_ok q (im(p := x)) m"
  using assms unfolding timers_ok_def by (auto simp: waits_def)

lemma timers_ok_cancel:
  assumes "timers_ok q im m" "m p = Some (t, os)" "cancel_timer q p [] k = (q', out, n)"
  shows "timers_ok q' im (m(p \<mapsto> (t, drop k os)))" "out = take k os" "n = min (length os) k"
proof -
  obtain ts where ts: "tq_inv q ts" "idle_ok q" "set ts \<subseteq> dom m" using timers_ok_queue [OF assms(1)] by blast
  note sp = cancel_timer_spec [OF ts(1) assms(3)] and d = timers_okD [OF assms(1,2)]
  show "out = take k os" "n = min (length os) k" using sp(1,2) d(4) by simp_all
  let ?us = "if length os \<le> k then remove1 p ts else ts"
  have "set ?us \<subseteq> dom (m(p \<mapsto> (t, drop k os)))" using ts(3) set_remove1_subset [of p ts] by auto
  moreover have "tq_inv q' ?us" using sp(3) d(4) by simp
  ultimately have inv: "\<exists>us. tq_inv q' us \<and> idle_ok q' \<and> set us \<subseteq> dom (m(p \<mapsto> (t, drop k os)))"
    using idle_cancel [OF ts(1,2) assms(3)] by blast
  show "timers_ok q' im (m(p \<mapsto> (t, drop k os)))"
    unfolding timers_ok_def
  proof (intro conjI inv allI impI)
    fix p' t' os' assume m': "(m(p \<mapsto> (t, drop k os))) p' = Some (t', os')"
    show "length os' \<le> size_t_max"
      using m' d(5) timers_okD(5) [OF assms(1), of p' t' os'] by (auto split: if_splits)
    show "0 < p'" "p' < 2 ^ 64" "ti_expiry (im p') = t'" "pt_ops (tq_data q' p') = os'"
      using m' d sp(5) [of p'] timers_okD [OF assms(1), of p' t' os'] by (auto split: if_splits)
    assume ne: "os' \<noteq> []"
    have "p' = p \<Longrightarrow> os \<noteq> []" using m' ne by auto
    then show "deadline q' p' = Some t'" "ti_might_have_pending_waits (im p')"
      using m' ne d sp(4) timers_okD(6,7) [OF assms(1), of p' t' os'] by (auto split: if_splits)
  qed
qed

lemma timers_ok_enqueue:
  assumes "timers_ok q im m" "m p = Some (t, os)" "length os < size_t_max" "ti_might_have_pending_waits (im p)"
    and "enqueue_timer q t p op = (q', first)"
  shows "timers_ok q' im (m(p \<mapsto> (t, os @ [op])))"
proof -
  obtain ts where ts: "tq_inv q ts" "idle_ok q" "set ts \<subseteq> dom m" using timers_ok_queue [OF assms(1)] by blast
  note sp = enqueue_timer_spec [OF ts(1) assms(5)] and d = timers_okD [OF assms(1,2)]
  have "set (if p \<in> set ts then ts else p # ts) \<subseteq> dom (m(p \<mapsto> (t, os @ [op])))" using ts(3) by auto
  then have inv: "\<exists>us. tq_inv q' us \<and> idle_ok q' \<and> set us \<subseteq> dom (m(p \<mapsto> (t, os @ [op])))"
    using sp(1) idle_enqueue [OF ts(1,2) assms(5)] by blast
  have act: "p \<in> set ts \<longleftrightarrow> os \<noteq> []" using ts(1) d(4) by (auto simp: tq_inv_def)
  show ?thesis
    unfolding timers_ok_def
  proof (intro conjI inv allI impI)
    fix p' t' os' assume m': "(m(p \<mapsto> (t, os @ [op]))) p' = Some (t', os')"
    show "length os' \<le> size_t_max"
      using m' assms(3) timers_okD(5) [OF assms(1), of p' t' os'] by (auto split: if_splits)
    show "0 < p'" "p' < 2 ^ 64" "ti_expiry (im p') = t'" "pt_ops (tq_data q' p') = os'"
      using m' d sp(3) [of p'] timers_okD [OF assms(1), of p' t' os'] by (auto split: if_splits)
    assume ne: "os' \<noteq> []"
    show "deadline q' p' = Some t'" "ti_might_have_pending_waits (im p')"
      using m' ne d sp(2) act assms(4) timers_okD(6,7) [OF assms(1), of p' t' os'] by (auto split: if_splits)
  qed
qed

text \<open>Fewer timers than addresses, so that the index of an idle timer is outside the heap.\<close>

lemma timers_ok_length:
  assumes "timers_ok q im m"
  shows "length (tq_heap q) \<le> no_index"
proof -
  obtain ts where ts: "tq_inv q ts" "set ts \<subseteq> dom m" using timers_ok_queue [OF assms] by blast
  have "dom m \<subseteq> {0<..<2 ^ 64}" using timers_okD(1,2) [OF assms] by fastforce
  then have "snd ` set (tq_heap q) \<subseteq> {0<..<2 ^ 64 :: nat}" using ts by (auto simp: tq_inv_def linked_inv_def)
  then have "card (snd ` set (tq_heap q)) \<le> card {0<..<2 ^ 64 :: nat}" by (intro card_mono) simp_all
  moreover have "distinct (map snd (tq_heap q))" using ts(1) by (simp add: tq_inv_def linked_inv_def heap_inv_def)
  then have "card (snd ` set (tq_heap q)) = length (tq_heap q)" using distinct_card by fastforce
  ultimately show ?thesis by (simp add: no_index_def)
qed

lemma timers_ok_move:
  assumes "timers_ok q im m" "m p = Some (u, [])" "m s = Some (t, os)" "p \<noteq> s"
  shows "timers_ok (move_timer q p s) (im(p := im s, s := dt_construct)) (m(p \<mapsto> (t, os), s \<mapsto> (0, [])))"
proof -
  obtain ts where ts: "tq_inv q ts" "idle_ok q" "set ts \<subseteq> dom m" using timers_ok_queue [OF assms(1)] by blast
  note d = timers_okD [OF assms(1)]
  have act: "x \<in> set ts \<longleftrightarrow> pt_ops (tq_data q x) \<noteq> []" for x using ts(1) by (simp add: tq_inv_def)
  have p: "p \<notin> set ts" using act d(4) [OF assms(2)] by simp
  let ?q = "move_timer q p s" and ?m = "m(p \<mapsto> (t, os), s \<mapsto> (0, []))"
  have "(\<exists>us. tq_inv ?q us \<and> idle_ok ?q \<and> set us \<subseteq> dom ?m) \<and>
    (\<forall>x. pt_ops (tq_data ?q x) = (if x = s then [] else if x = p then os else pt_ops (tq_data q x))) \<and>
    (\<forall>x. x \<noteq> s \<longrightarrow> pt_ops (tq_data ?q x) \<noteq> [] \<longrightarrow> deadline ?q x = (if x = p then deadline q s else deadline q x))"
  proof (cases "s \<in> set ts")
    case False
    then have "os = []" using act d(4) [OF assms(3)] by simp
    moreover have "?q = q" using move_idle [OF ts(1,2) timers_ok_length [OF assms(1)] False p] assms(4) by blast
    ultimately show ?thesis using ts d(4) [OF assms(2)] d(4) [OF assms(3)] by auto
  next
    case True
    then obtain us vs where sp: "ts = us @ s # vs" by (metis split_list)
    note mv = move_timer_spec [OF ts(1) [unfolded sp] p [unfolded sp]]
    have "set (us @ p # vs) \<subseteq> dom ?m" using ts(3) by (auto simp: sp)
    then have "\<exists>us. tq_inv ?q us \<and> idle_ok ?q \<and> set us \<subseteq> dom ?m"
      using mv(1) idle_move [OF ts(1) [unfolded sp] ts(2) p [unfolded sp]] by blast
    then show ?thesis using mv(2,3) d(4) [OF assms(3)] by auto
  qed
  then have inv: "\<exists>us. tq_inv ?q us \<and> idle_ok ?q \<and> set us \<subseteq> dom ?m"
    and ops: "\<And>x. pt_ops (tq_data ?q x) = (if x = s then [] else if x = p then os else pt_ops (tq_data q x))"
    and dl: "\<And>x. x \<noteq> s \<Longrightarrow> pt_ops (tq_data ?q x) \<noteq> [] \<Longrightarrow> deadline ?q x = (if x = p then deadline q s else deadline q x)"
    by blast+
  show ?thesis
    unfolding timers_ok_def
  proof (intro conjI inv allI impI)
    fix p' t' os' assume m': "?m p' = Some (t', os')"
    show "0 < p'" "p' < 2 ^ 64" "ti_expiry ((im(p := im s, s := dt_construct)) p') = t'" "pt_ops (tq_data ?q p') = os'"
      "length os' \<le> size_t_max"
      using m' d [OF assms(2)] d [OF assms(3)] d [of p' t' os'] ops [of p'] by (auto simp: dt_construct_def split: if_splits)
    assume ne: "os' \<noteq> []"
    show "deadline ?q p' = Some t'" "ti_might_have_pending_waits ((im(p := im s, s := dt_construct)) p')"
      using m' ne d [OF assms(3)] d [of p' t' os'] ops [of p'] dl [of p'] assms(4) by (auto split: if_splits)
  qed
qed


text \<open>The queue holds exactly the timers on which something waits.\<close>

lemma timers_ok_abs:
  assumes "timers_ok q im m"
  shows "tq_abs q p = (if waits m p = [] then None else Some (expiry_of m p, waits m p))"
proof -
  obtain ts where ts: "tq_inv q ts" "set ts \<subseteq> dom m" using timers_ok_queue [OF assms] by blast
  have act: "p \<in> set ts \<longleftrightarrow> pt_ops (tq_data q p) \<noteq> []" using ts(1) by (simp add: tq_inv_def)
  show ?thesis
  proof (cases "m p")
    case None
    then have "p \<notin> dom (tq_abs q)" using ts tq_abs_dom [OF ts(1)] by auto
    then show ?thesis using None by (auto simp: waits_def)
  next
    case (Some a)
    then obtain t os where m: "m p = Some (t, os)" by (cases a) simp
    note d = timers_okD [OF assms m]
    have "os = [] \<Longrightarrow> tq_abs q p = None" using act d(4) tq_abs_dom [OF ts(1)] by auto
    moreover have "os \<noteq> [] \<Longrightarrow> tq_abs q p = Some (t, os)" using d(4,6) by (simp add: tq_abs_def)
    ultimately show ?thesis using m by (simp add: waits_def expiry_of_def)
  qed
qed

lemma ops_abs:
  assumes "tq_inv q ts"
  shows "pt_ops (tq_data q p) = (case tq_abs q p of None \<Rightarrow> [] | Some (t, os) \<Rightarrow> os)"
proof (cases "tq_abs q p")
  case None
  then have "p \<notin> set ts" using tq_abs_dom [OF assms] by blast
  then show ?thesis using None not_linked(4) [OF assms] by simp
qed (auto simp: tq_abs_def)

inductive_cases timer_spec_readyE: "timer_spec (Tq_Ready now) m m' out"

lemma timers_ok_ready:
  assumes "timers_ok q im m"
  shows "\<exists>q' out. get_ready_timers now q [] = Some (q', out) \<and> timers_ok q' im (dt_next (Dt_Run now events) m) \<and>
    dt_result (Dt_Run now events) m (0, out)"
proof -
  obtain ts where ts: "tq_inv q ts" "idle_ok q" "set ts \<subseteq> dom m" using timers_ok_queue [OF assms] by blast
  obtain q' out ts' where r: "get_ready_timers now q [] = Some (q', out)" "tq_inv q' ts'"
    "timer_spec (Tq_Ready now) (tq_abs q) (tq_abs q') out"
    using exec_ready [OF ts(1), of now] by (auto simp: tq_exec_def)
  from r(3) obtain ps where ps: "fires (tq_abs q) {p \<in> dom (tq_abs q). fst (the (tq_abs q p)) \<le> now} ps out"
      "sorted (map (\<lambda>p. fst (the (tq_abs q p))) ps)" "tq_abs q' = tq_abs q |` {p. now < fst (the (tq_abs q p))}"
    by (rule timer_spec_readyE)
  note a = timers_ok_abs [OF assms]
  have due: "{p \<in> dom (tq_abs q). fst (the (tq_abs q p)) \<le> now} = {p. waits m p \<noteq> [] \<and> expiry_of m p \<le> now}"
    by (auto simp: a split: if_splits)
  have set: "set ps = {p. waits m p \<noteq> [] \<and> expiry_of m p \<le> now}" "distinct ps"
    using ps(1) unfolding fires_def due by simp_all
  have eq: "map (\<lambda>p. fst (the (tq_abs q p))) ps = map (expiry_of m) ps" "map (\<lambda>p. snd (the (tq_abs q p))) ps = map (waits m) ps"
    using set(1) by (auto simp: a)
  have "sorted (map (expiry_of m) ps)" using ps(2) unfolding eq(1) .
  moreover have "out = concat (map (waits m) ps)" using ps(1) unfolding fires_def eq(2) by blast
  ultimately have res: "dt_result (Dt_Run now events) m (0, out)" using set by auto
  note ops = ops_abs [OF r(2)]
  have "idle_ok q'" using r(1) ts idle_ready_loop [OF ts(1,2), of now "[]" q' out] by (auto simp: get_ready_timers_def split: if_splits)
  moreover have "set ts' \<subseteq> dom m"
    using tq_abs_dom [OF r(2)] tq_abs_dom [OF ts(1)] ts(3) unfolding ps(3) dom_restrict by blast
  ultimately have "\<exists>us. tq_inv q' us \<and> idle_ok q' \<and> set us \<subseteq> dom (dt_next (Dt_Run now events) m)"
    using r(2) by (intro exI [of _ ts']) (auto simp: dom_def)
  moreover have "0 < p \<and> p < 2 ^ 64 \<and> ti_expiry (im p) = t \<and> pt_ops (tq_data q' p) = os \<and>
        length os \<le> size_t_max \<and> (os \<noteq> [] \<longrightarrow> deadline q' p = Some t \<and> ti_might_have_pending_waits (im p))"
    if m': "dt_next (Dt_Run now events) m p = Some (t, os)" for p t os
  proof -
    from m' obtain os0 where m: "m p = Some (t, os0)" "os = (if t \<le> now then [] else os0)" by auto
    note d = timers_okD [OF assms m(1)]
    have abs: "tq_abs q' p = (if os = [] then None else Some (t, os))"
      using m by (auto simp: ps(3) restrict_map_def a waits_def expiry_of_def)
    have "deadline q' p = Some t" if "os \<noteq> []" using abs that by (auto simp: tq_abs_def)
    then show ?thesis using d m(2) ops [of p] abs by auto
  qed
  ultimately show ?thesis using r(1) res unfolding timers_ok_def by blast
qed


text \<open>What a call posts is what it appends to one of the two queues.\<close>

lemma posted_after_appended:
  assumes "appended ops r r'"
  shows "posted_after r r' = ops"
proof -
  have "List.map_filter (\<lambda>x. case x of Q_Task \<Rightarrow> None | Q_Op op \<Rightarrow> Some op) (map Q_Op ops) = ops"
    by (induction ops) (simp_all add: List.map_filter_simps)
  then show ?thesis using assms by (auto simp: appended_def posted_after_def Let_def List.map_filter_simps)
qed

lemma posted_after_deferred:
  "er_sched r1 = er_sched r \<Longrightarrow> er_thread r1 = er_thread r \<Longrightarrow> posted_after r (er_post_deferred ops r1) = ops"
  by (rule posted_after_appended [OF er_post_deferred_appended])

lemma er_post_deferred_timers [simp]:
  "er_timers (er_post_deferred ops r) = er_timers r" "er_shutdown (er_post_deferred ops r) = er_shutdown r"
  "er_timer_fd (er_post_deferred ops r) = er_timer_fd r"
  by (simp_all add: er_post_deferred_def split: prod.split)

definition dt_rel :: "bool \<Rightarrow> 'w timer_system \<Rightarrow> timer_spec_state \<Rightarrow> bool" where
  "dt_rel fd y m \<longleftrightarrow> (\<exists>q. er_timers (dy_reactor y) = [q] \<and> timers_ok q (dy_impls y) m) \<and>
     \<not> er_shutdown (dy_reactor y) \<and> er_timer_fd (dy_reactor y) = fd"

lemma posted_after_same [simp]:
  "er_sched r' = er_sched r \<Longrightarrow> er_thread r' = er_thread r \<Longrightarrow> posted_after r r' = []"
  by (simp add: posted_after_def List.map_filter_simps)

text \<open>Cancelling at most \<open>k\<close> waits through the reactor; the early return of the service is right, because a timer
  without the flag has none.\<close>

lemma cancel_through_reactor:
  assumes "dt_rel fd y m" "m p = Some (t, os)" "er_cancel_timer 0 p k (dy_reactor y) = (n, r)"
  shows "dt_rel fd (y\<lparr>dy_reactor := r\<rparr>) (m(p \<mapsto> (t, drop k os)))" "n = min (length os) k"
    "posted_after (dy_reactor y) r = take k os"
proof -
  obtain q where q: "er_timers (dy_reactor y) = [q]" "timers_ok q (dy_impls y) m" using assms(1) by (auto simp: dt_rel_def)
  obtain q' out n' where c: "cancel_timer q p [] k = (q', out, n')" by (metis prod_cases3)
  note sp = timers_ok_cancel [OF q(2) assms(2) c]
  have r: "r = er_post_deferred out ((dy_reactor y)\<lparr>er_timers := [q']\<rparr>)" "n = n'"
    using assms(3) q(1) c by (simp_all add: er_cancel_timer_def)
  show "n = min (length os) k" using sp(3) r by simp
  show "posted_after (dy_reactor y) r = take k os"
    unfolding sp(2) [symmetric] r(1) by (rule posted_after_deferred) simp_all
  show "dt_rel fd (y\<lparr>dy_reactor := r\<rparr>) (m(p \<mapsto> (t, drop k os)))" using assms(1) sp(1) r by (simp add: dt_rel_def)
qed

lemma dt_cancel_sim:
  assumes "dt_rel fd y m" "m p = Some (t, os)" "dt_cancel 0 p (dy_impls y p) (dy_reactor y) = (n, impl, r)"
  shows "dt_rel fd (y\<lparr>dy_reactor := r\<rparr>) (m(p \<mapsto> (t, [])))" "n = length os" "posted_after (dy_reactor y) r = os"
    "ti_expiry impl = t"
proof -
  obtain q where q: "timers_ok q (dy_impls y) m" using assms(1) by (auto simp: dt_rel_def)
  note d = timers_okD [OF q assms(2)]
  have "dt_rel fd (y\<lparr>dy_reactor := r\<rparr>) (m(p \<mapsto> (t, []))) \<and> n = length os \<and> posted_after (dy_reactor y) r = os \<and> ti_expiry impl = t"
  proof (cases "ti_might_have_pending_waits (dy_impls y p)")
    case False
    then have "os = []" using d(7) by blast
    moreover have "n = 0" "impl = dy_impls y p" "r = dy_reactor y" using assms(3) False by (simp_all add: dt_cancel_def)
    moreover have "y\<lparr>dy_reactor := dy_reactor y\<rparr> = y" by simp
    ultimately show ?thesis using assms(1,2) d(3) by (simp add: fun_upd_idem)
  next
    case True
    then have c: "er_cancel_timer 0 p size_t_max (dy_reactor y) = (n, r)" "ti_expiry impl = ti_expiry (dy_impls y p)"
      using assms(3) by (auto simp: dt_cancel_def split: prod.splits)
    show ?thesis using cancel_through_reactor [OF assms(1,2) c(1)] d(3,5) c(2) by simp
  qed
  then show "dt_rel fd (y\<lparr>dy_reactor := r\<rparr>) (m(p \<mapsto> (t, [])))" "n = length os" "posted_after (dy_reactor y) r = os"
    "ti_expiry impl = t" by blast+
qed

lemma timer_system_eta [simp]: "\<lparr> dy_reactor = dy_reactor y, dy_impls = dy_impls y \<rparr> = (y :: 'w timer_system)"
  by simp

lemma dt_rel_set:
  assumes "dt_rel fd (y\<lparr>dy_reactor := r\<rparr>) m" "waits m p = []" "0 < p" "p < 2 ^ 64"
  shows "dt_rel fd \<lparr> dy_reactor = r, dy_impls = (dy_impls y)(p := impl) \<rparr> (m(p \<mapsto> (ti_expiry impl, [])))"
  using assms timers_ok_set [of _ "dy_impls y" m p impl] by (auto simp: dt_rel_def)

lemma dt_rel_address: "dt_rel fd y m \<Longrightarrow> m p = Some (t, os) \<Longrightarrow> 0 < p \<and> p < 2 ^ 64 \<and> ti_expiry (dy_impls y p) = t"
  using timers_okD(1-3) by (fastforce simp: dt_rel_def)


definition dt_sim :: "bool \<Rightarrow> dt_cmd \<Rightarrow> 'w timer_system \<Rightarrow> timer_spec_state \<Rightarrow> bool" where
  "dt_sim fd c y m \<longleftrightarrow>
     (\<exists>y' res. dt_exec c y = Some (y', res) \<and> dt_rel fd y' (dt_next c m) \<and> dt_result c m res)"

lemma dt_sim_cancels:
  assumes "dt_rel fd y m" "m p = Some (t, os)"
  shows "dt_sim fd (Dt_Cancel p) y m" "dt_sim fd (Dt_Destroy p) y m" "dt_sim fd (Dt_Expires_At p u) y m"
proof -
  obtain n impl r where c: "dt_cancel 0 p (dy_impls y p) (dy_reactor y) = (n, impl, r)" by (metis prod_cases3)
  note sp = dt_cancel_sim [OF assms c]
  have w: "waits m p = os" "expiry_of m p = t" using assms(2) by (simp_all add: waits_def expiry_of_def)
  have set: "dt_rel fd \<lparr> dy_reactor = r, dy_impls = (dy_impls y)(p := x) \<rparr> (m(p \<mapsto> (ti_expiry x, [])))" for x
    using dt_rel_set [OF sp(1), of p x] dt_rel_address [OF assms] by (simp add: waits_def)
  show "dt_sim fd (Dt_Cancel p) y m" using set [of impl] sp(2-4) by (simp add: dt_sim_def c after_call_def w)
  show "dt_sim fd (Dt_Expires_At p u) y m"
    using set [of "impl\<lparr>ti_expiry := u\<rparr>"] sp(2-4) by (simp add: dt_sim_def c after_call_def w dt_expires_at_def)
  have "dt_rel fd \<lparr> dy_reactor = r, dy_impls = (dy_impls y)(p := impl) \<rparr> (m(p := None))"
    using set [of impl] timers_ok_drop [of _ "(dy_impls y)(p := impl)" "m(p \<mapsto> (ti_expiry impl, []))" p]
    by (auto simp: dt_rel_def waits_def)
  then show "dt_sim fd (Dt_Destroy p) y m" using sp(2-4) by (simp add: dt_sim_def c after_call_def w dt_destroy_def)
qed

lemma dt_sim_expires_after:
  assumes "dt_rel fd y m" "m p = Some (t, os)" "in_i64 now" "in_i64 d"
  shows "dt_sim fd (Dt_Expires_After p now d) y m"
  using dt_sim_cancels(3) [OF assms(1,2), of "clamp64 (now + d)"] time_add_clamps [OF assms(3,4)]
  by (simp add: dt_sim_def dt_expires_after_def)

lemma dt_rel_impl:
  assumes "dt_rel fd (y\<lparr>dy_reactor := r\<rparr>) m" "ti_expiry impl = ti_expiry (dy_impls y p)"
    and "waits m p \<noteq> [] \<Longrightarrow> ti_might_have_pending_waits impl"
  shows "dt_rel fd \<lparr> dy_reactor = r, dy_impls = (dy_impls y)(p := impl) \<rparr> m"
  using assms timers_ok_impl [of _ "dy_impls y" m impl p] by (auto simp: dt_rel_def)

lemma dt_sim_cancel_one:
  assumes "dt_rel fd y m" "m p = Some (t, os)"
  shows "dt_sim fd (Dt_Cancel_One p) y m"
proof -
  have w: "waits m p = os" "expiry_of m p = t" using assms(2) by (simp_all add: waits_def expiry_of_def)
  obtain q where "timers_ok q (dy_impls y) m" using assms(1) by (auto simp: dt_rel_def)
  note d = timers_okD(3,7) [OF this assms(2)]
  show ?thesis
  proof (cases "ti_might_have_pending_waits (dy_impls y p)")
    case False
    then have "os = []" using d(2) by blast
    moreover have "m(p \<mapsto> (t, [])) = m" if "os = []" using assms(2) that by (simp add: fun_upd_idem)
    moreover have "dt_cancel_one 0 p (dy_impls y p) (dy_reactor y) = (0, dy_impls y p, dy_reactor y)"
      using False by (simp add: dt_cancel_one_def)
    ultimately show ?thesis using assms(1) w by (simp add: dt_sim_def after_call_def)
  next
    case True
    obtain n r where c: "er_cancel_timer 0 p 1 (dy_reactor y) = (n, r)" by (metis surj_pair)
    define impl where "impl = (if n = 0 then (dy_impls y p)\<lparr>ti_might_have_pending_waits := False\<rparr> else dy_impls y p)"
    note sp = cancel_through_reactor [OF assms c]
    have "dt_rel fd \<lparr> dy_reactor = r, dy_impls = (dy_impls y)(p := impl) \<rparr> (m(p \<mapsto> (t, drop 1 os)))"
      by (rule dt_rel_impl [OF sp(1)]) (use True sp(2) in \<open>auto simp: impl_def waits_def min_def split: if_splits\<close>)
    moreover have "dt_cancel_one 0 p (dy_impls y p) (dy_reactor y) = (n, impl, r)"
      using True c by (simp add: dt_cancel_one_def impl_def)
    ultimately show ?thesis using sp(2,3) w by (simp add: dt_sim_def after_call_def min.commute)
  qed
qed

lemma dt_sim_async_wait:
  assumes "dt_rel fd y m" "m p = Some (t, os)" "length os < size_t_max"
  shows "dt_sim fd (Dt_Async_Wait p op) y m"
proof -
  let ?im = "(dy_impls y)(p := (dy_impls y p)\<lparr>ti_might_have_pending_waits := True\<rparr>)"
  obtain q where q: "er_timers (dy_reactor y) = [q]" "timers_ok q (dy_impls y) m" using assms(1) by (auto simp: dt_rel_def)
  obtain q' first where e: "enqueue_timer q t p op = (q', first)" by (metis surj_pair)
  have "timers_ok q ?im m" by (rule timers_ok_impl [OF q(2)]) simp_all
  then have "timers_ok q' ?im (m(p \<mapsto> (t, os @ [op])))" 
    by (rule timers_ok_enqueue) (use assms(2,3) e in simp_all)
  moreover have "snd (schedule_timer 0 t p op (dy_reactor y)) = er_work_started ((dy_reactor y)\<lparr>er_timers := [q']\<rparr>)"
    using assms(1) q(1) e by (simp add: schedule_timer_def dt_rel_def)
  moreover have "ti_expiry (dy_impls y p) = t" using dt_rel_address [OF assms(1,2)] by blast
  moreover have "posted_after r (er_work_started (r\<lparr>er_timers := x\<rparr>)) = []" for r :: "'w reactor" and x
    by (simp add: posted_after_def er_work_started_def work_started_def List.map_filter_simps)
  moreover have "waits m p = os" "expiry_of m p = t" using assms(2) by (simp_all add: waits_def expiry_of_def)
  ultimately show ?thesis using assms(1)
    by (simp add: dt_sim_def after_call_def dt_async_wait_def Let_def dt_rel_def er_work_started_def)
qed

text \<open>The data of a timer that does not live is that of a new one.\<close>

lemma new_timer_data_same:
  assumes "dt_rel fd y m" "m p = None"
  shows "new_timer_data p (dy_reactor y) = dy_reactor y"
proof -
  obtain q ts where q: "er_timers (dy_reactor y) = [q]" "tq_inv q ts" "idle_ok q" "set ts \<subseteq> dom m"
    using assms(1) timers_ok_queue by (fastforce simp: dt_rel_def)
  have "p \<notin> set ts" using assms(2) q(4) by blast
  note n = not_linked [OF q(2) this]
  have "tq_data q p = per_timer_ctor"
    by (rule per_timer_data.equality) (use n q(3) in \<open>simp_all add: per_timer_ctor_def idle_ok_def\<close>)
  then have "upd_timer p (\<lambda>_. per_timer_ctor) q = q" by (simp add: upd_timer_def fun_upd_idem)
  then show ?thesis using q(1) by (simp add: new_timer_data_def)
qed

lemma dt_sim_construct:
  assumes "dt_rel fd y m" "m p = None" "0 < p" "p < 2 ^ 64"
  shows "dt_sim fd (Dt_Construct p) y m" "dt_rel fd (y\<lparr>dy_impls := (dy_impls y)(p := impl)\<rparr>) (m(p \<mapsto> (ti_expiry impl, [])))"
proof -
  have new: "dt_rel fd \<lparr> dy_reactor = dy_reactor y, dy_impls = (dy_impls y)(p := x) \<rparr> (m(p \<mapsto> (ti_expiry x, [])))" for x
    using dt_rel_set [where y = y and r = "dy_reactor y", of fd m p x] assms by (simp add: waits_def)
  show "dt_sim fd (Dt_Construct p) y m"
    using new [of dt_construct] by (simp add: dt_sim_def after_call_def new_timer_data_same [OF assms(1,2)] dt_construct_def)
  show "dt_rel fd (y\<lparr>dy_impls := (dy_impls y)(p := impl)\<rparr>) (m(p \<mapsto> (ti_expiry impl, [])))"
    using new [of impl] by (cases y) simp
qed

lemma er_move_timer_sim:
  assumes "dt_rel fd y m" "m p = Some (u, os0)" "m s = Some (t, os)" "p \<noteq> s"
  shows "dt_rel fd \<lparr> dy_reactor = er_move_timer 0 p s (dy_reactor y), dy_impls = (dy_impls y)(p := dy_impls y s, s := dt_construct) \<rparr>
      (m(p := m s, s \<mapsto> (0, [])))" "posted_after (dy_reactor y) (er_move_timer 0 p s (dy_reactor y)) = os0"
proof -
  obtain q where q: "er_timers (dy_reactor y) = [q]" "timers_ok q (dy_impls y) m" using assms(1) by (auto simp: dt_rel_def)
  obtain q' out n where c: "cancel_timer q p [] size_t_max = (q', out, n)" by (metis prod_cases3)
  note sp = timers_ok_cancel [OF q(2) assms(2) c] and d = timers_okD(5) [OF q(2) assms(2)]
  have ok: "timers_ok q' (dy_impls y) (m(p \<mapsto> (u, [])))" and out: "out = os0" using sp(1,2) d by simp_all
  have mv: "timers_ok (move_timer q' p s) ((dy_impls y)(p := dy_impls y s, s := dt_construct)) (m(p := m s, s \<mapsto> (0, [])))"
    using timers_ok_move [OF ok, of p u s t os] assms(3,4) by simp
  have r: "er_move_timer 0 p s (dy_reactor y) = er_post_deferred os0 ((dy_reactor y)\<lparr>er_timers := [move_timer q' p s]\<rparr>)"
    using q(1) c out by (simp add: er_move_timer_def)
  show "posted_after (dy_reactor y) (er_move_timer 0 p s (dy_reactor y)) = os0"
    unfolding r by (rule posted_after_deferred) simp_all
  show "dt_rel fd \<lparr> dy_reactor = er_move_timer 0 p s (dy_reactor y), dy_impls = (dy_impls y)(p := dy_impls y s, s := dt_construct) \<rparr>
      (m(p := m s, s \<mapsto> (0, [])))" using assms(1) mv by (simp add: dt_rel_def r)
qed

lemma dt_sim_moves:
  assumes "dt_rel fd y m" "m s = Some (t, os)"
  shows "m p = None \<Longrightarrow> 0 < p \<Longrightarrow> p < 2 ^ 64 \<Longrightarrow> dt_sim fd (Dt_Move_Construct p s) y m"
    "m p = Some (u, os0) \<Longrightarrow> p \<noteq> s \<Longrightarrow> dt_sim fd (Dt_Move_Assign p s) y m"
proof -
  assume new: "m p = None" "0 < p" "p < 2 ^ 64"
  then have ne: "p \<noteq> s" using assms(2) by auto
  note born = dt_sim_construct(2) [OF assms(1) new, of dt_construct]
  have "(m(p \<mapsto> (ti_expiry dt_construct, []))) s = Some (t, os)" using assms(2) ne by simp
  note mv = er_move_timer_sim [where m = "m(p \<mapsto> (ti_expiry dt_construct, []))", OF born _ this ne]
  show "dt_sim fd (Dt_Move_Construct p s) y m"
    using mv ne by (simp add: dt_sim_def after_move_def dt_move_construct_def new_timer_data_same [OF assms(1) new(1)] fun_upd_twist)
next
  assume old: "m p = Some (u, os0)" "p \<noteq> s"
  note mv = er_move_timer_sim [OF assms(1) old(1) assms(2) old(2)]
  show "dt_sim fd (Dt_Move_Assign p s) y m"
    using mv old by (simp add: dt_sim_def after_move_def dt_move_assign_def waits_def)
qed


lemma dispatch_event_timers:
  assumes "dispatch_event ev (chk, items, r) = (chk', items', r')" "\<forall>x \<in> set items. \<exists>p. x = It_State p"
  shows "er_timers r' = er_timers r \<and> er_shutdown r' = er_shutdown r \<and> er_timer_fd r' = er_timer_fd r \<and>
    (chk \<or> fst ev = Ptr_Timer \<longrightarrow> chk') \<and> (\<forall>x \<in> set items'. \<exists>p. x = It_State p)"
  using assms by (cases ev; cases "fst ev") (auto simp: dispatch_event_def upd_state_def split: if_splits)

lemma fold_dispatch_timers:
  "fold dispatch_event evs (chk, items, r) = (chk', items', r') \<Longrightarrow> \<forall>x \<in> set items. \<exists>p. x = It_State p \<Longrightarrow>
   er_timers r' = er_timers r \<and> er_shutdown r' = er_shutdown r \<and> er_timer_fd r' = er_timer_fd r \<and>
   (chk \<or> Ptr_Timer \<in> fst ` set evs \<longrightarrow> chk') \<and> (\<forall>x \<in> set items'. \<exists>p. x = It_State p)"
proof (induction evs arbitrary: chk items r)
  case (Cons ev evs)
  obtain chk1 items1 r1 where e: "dispatch_event ev (chk, items, r) = (chk1, items1, r1)" by (metis prod_cases3)
  have "fold dispatch_event evs (chk1, items1, r1) = (chk', items', r')" using Cons.prems(1) e by simp
  from Cons.IH [OF this] dispatch_event_timers [OF e Cons.prems(2)] show ?case by auto
qed simp

lemma dt_sim_run:
  assumes "dt_rel fd y m" "dt_allowed fd (Dt_Run now events) m"
  shows "dt_sim fd (Dt_Run now events) y m"
proof -
  obtain q where q: "er_timers (dy_reactor y) = [q]" "timers_ok q (dy_impls y) m" using assms(1) by (auto simp: dt_rel_def)
  obtain q' out where rdy: "get_ready_timers now q [] = Some (q', out)"
      "timers_ok q' (dy_impls y) (dt_next (Dt_Run now events) m)" "dt_result (Dt_Run now events) m (0, out)"
    using timers_ok_ready [OF q(2)] by blast
  obtain chk items r where f: "fold dispatch_event events (\<not> er_timer_fd (dy_reactor y), [], dy_reactor y) = (chk, items, r)"
    by (metis prod_cases3)
  note ev = fold_dispatch_timers [OF f]
  have states: "\<forall>x \<in> set items. \<exists>p. x = It_State p" and chk: chk and r: "er_timers r = [q]" "\<not> er_shutdown r" "er_timer_fd r = fd"
    using ev assms q(1) by (auto simp: dt_rel_def)
  have "er_run now events (dy_reactor y) = Some (items @ map It_Op out, r\<lparr>er_timers := [q']\<rparr>)"
    using f chk r(1) rdy(1) by (simp add: er_run_def)
  moreover have "List.map_filter (\<lambda>x. case x of It_Op op \<Rightarrow> Some op | _ \<Rightarrow> None) items = []"
    using states by (induction items) (auto simp: List.map_filter_simps)
  moreover have "List.map_filter (\<lambda>x. case x of It_Op op \<Rightarrow> Some op | _ \<Rightarrow> None) (map It_Op out) = out"
    by (induction out) (simp_all add: List.map_filter_simps)
  ultimately have "dt_exec (Dt_Run now events) y = Some (y\<lparr>dy_reactor := r\<lparr>er_timers := [q']\<rparr>\<rparr>, 0, out)"
    by (simp add: List.map_filter_def)
  moreover have "dt_rel fd (y\<lparr>dy_reactor := r\<lparr>er_timers := [q']\<rparr>\<rparr>) (dt_next (Dt_Run now events) m)"
    using rdy(2) r by (simp add: dt_rel_def)
  ultimately show ?thesis using rdy(3) unfolding dt_sim_def by blast
qed

lemma dt_simulation:
  assumes "dt_rel fd y m" "dt_allowed fd c m"
  shows "dt_sim fd c y m"
proof (cases "\<exists>now events. c = Dt_Run now events")
  case True
  then show ?thesis using dt_sim_run assms by blast
next
  case False
  then show ?thesis using assms
    by (cases c) (auto simp: waits_def intro: dt_sim_construct(1) dt_sim_cancels dt_sim_cancel_one dt_sim_expires_after
        dt_sim_async_wait dt_sim_moves)
qed

lemma dt_rel_init:
  "er_timers r = [] \<Longrightarrow> \<not> er_shutdown r \<Longrightarrow> dt_rel (er_timer_fd r) (timer_system_init r im) Map.empty"
  using tq_inv_ctor idle_ctor
  by (force simp: dt_rel_def timer_system_init_def dt_service_ctor_def do_add_timer_queue_def timers_ok_def)

lemma dt_run_simulates:
  "dt_rel fd y m \<Longrightarrow> dt_allowed_run fd cs m \<Longrightarrow> \<exists>y' rs. dt_run cs y = Some (y', rs) \<and> dt_results cs m rs"
proof (induction cs arbitrary: y m)
  case (Cons c cs)
  then obtain y1 res where 1: "dt_exec c y = Some (y1, res)" "dt_rel fd y1 (dt_next c m)" "dt_result c m res"
    using dt_simulation [of fd y m c] by (auto simp: dt_sim_def)
  then obtain y2 rs where "dt_run cs y1 = Some (y2, rs)" "dt_results cs (dt_next c m) rs" using Cons by fastforce
  then show ?case using 1 by simp
qed simp

section \<open>The blocking wait ends at the expiry\<close>

text \<open>A clock that never goes back, and a \<open>select\<close> without descriptors during which it moves on by at least a tick.\<close>

definition ticking :: "('s \<Rightarrow> int) \<Rightarrow> ('s \<Rightarrow> int \<times> 's) \<Rightarrow> (int \<times> int \<Rightarrow> 's sys_call) \<Rightarrow> bool" where
  "ticking time clock sys_select \<longleftrightarrow>
     (\<forall>w. i64_min \<le> time w \<and> fst (clock w) = time w \<and> time w \<le> time (snd (clock w))) \<and>
     (\<forall>tv w. time w < time (snd (sys_select tv w)))"

lemma dt_do_wait_ns:
  "\<exists>ec. dt_do_wait sys_select 1 1000000000 d w =
     Inr (ec, snd (sys_select (c_quot d 1000000000, c_rem (c_quot d 1000) 1000000) w))"
  by (simp add: dt_do_wait_def cast_ns so_select_def del: One_nat_def split: prod.split)

lemma dt_wait_loop_returns:
  assumes "ticking time clock sys_select" "in_i64 (ti_expiry impl)" "i64_min \<le> now" "now \<le> time w"
  shows "\<exists>ec' w'. dt_wait_loop clock sys_select 1 1000000000 impl now ec w = Some (Inr (ec', w')) \<and>
    (ec' = None \<longrightarrow> ti_expiry impl \<le> time w')"
  using assms(3,4)
proof (induction "nat (ti_expiry impl - now)" arbitrary: now ec w rule: less_induct)
  case less
  show ?case
  proof (cases "now < ti_expiry impl \<and> ec = None")
    case False
    then show ?thesis using less.prems by (subst dt_wait_loop.simps) (auto simp: less_than_def)
  next
    case True
    define tv where "tv = (let d = clamp64 (ti_expiry impl - now) in (c_quot d 1000000000, c_rem (c_quot d 1000) 1000000))"
    define w1 where "w1 = snd (sys_select tv w)"
    obtain now1 w2 where c: "clock w1 = (now1, w2)" by (metis surj_pair)
    have "in_i64 now" using True assms(2) less.prems(1) by (simp add: in_i64_iff)
    then have sub: "time_subtract (ti_expiry impl) now = Inr (clamp64 (ti_expiry impl - now))"
      by (rule time_subtract_clamps [OF assms(2)])
    obtain ec1 where dw: "dt_do_wait sys_select 1 1000000000 (clamp64 (ti_expiry impl - now)) w = Inr (ec1, w1)"
      using dt_do_wait_ns [of sys_select "clamp64 (ti_expiry impl - now)" w] by (auto simp: w1_def tv_def Let_def)
    have t: "now1 = time w1" "time w1 \<le> time w2" "i64_min \<le> time w1" "time w < time w1"
      using assms(1) c unfolding ticking_def w1_def by (metis fst_conv snd_conv)+
    have step: "dt_wait_loop clock sys_select 1 1000000000 impl now ec w =
        dt_wait_loop clock sys_select 1 1000000000 impl now1 ec1 w2"
      using True dw c by (subst dt_wait_loop.simps) (simp add: less_than_def sub)
    have "nat (ti_expiry impl - now1) < nat (ti_expiry impl - now)" using True t less.prems(2) by simp
    from less.hyps [OF this, of w2 ec1] show ?thesis unfolding step using t by simp
  qed
qed

lemma dt_wait_returns:
  assumes "ticking time clock sys_select" "in_i64 (ti_expiry impl)"
  shows "\<exists>ec w'. dt_wait clock sys_select 1 1000000000 impl w = Some (Inr (ec, w')) \<and>
    (ec = None \<longrightarrow> ti_expiry impl \<le> time w')"
proof -
  obtain now w1 where c: "clock w = (now, w1)" by (metis surj_pair)
  then have "i64_min \<le> now" "now \<le> time w1" using assms(1) unfolding ticking_def by (metis fst_conv snd_conv)+
  then show ?thesis using dt_wait_loop_returns [OF assms] by (simp add: dt_wait_def c)
qed

section \<open>Properties of timers\<close>


lemma dt_results_Cons:
  "dt_results (c # cs) m rs \<longleftrightarrow> (\<exists>res rs'. rs = res # rs' \<and> dt_result c m res \<and> dt_results cs (dt_next c m) rs')"
  by (cases rs) simp_all

lemma dt_results_snoc:
  "dt_results (cs @ [c]) m rs \<longleftrightarrow> (\<exists>rs' res. rs = rs' @ [res] \<and> dt_results cs m rs' \<and> dt_result c (fold dt_next cs m) res)"
proof (induction cs arbitrary: m rs)
  case (Cons c' cs)
  then show ?case by (simp add: dt_results_Cons del: dt_results.simps(2)) (metis append_Cons)
qed (auto split: list.split)

lemma run_one_due:
  assumes "dt_result (Dt_Run now events) m res" "{p. waits m p \<noteq> [] \<and> expiry_of m p \<le> now} = {p}"
  shows "res = (0, waits m p)"
proof -
  obtain ps where ps: "distinct ps" "set ps = {p}" "res = (0, concat (map (waits m) ps))" using assms by auto
  then have "ps = [p]" by (cases ps) (auto simp: subset_singleton_iff dest: arg_cong [where f = set])
  then show ?thesis using ps(3) by simp
qed


end
