(* ===== verification/Asio_Strand.thy ===== *)
theory Asio_Strand
  imports Main
begin

text \<open>
  Strands: \<open>src/3rd/asio/include/asio/detail/strand_executor_service.hpp\<close> with
  \<open>detail/impl/strand_executor_service.hpp\<close> and \<open>detail/impl/strand_executor_service.ipp\<close>. One strand is a record;
  any number of threads submit functions to it and run the invokers that the executor below holds. Each
  piece of code that takes the mutex is one function on the record, and the steps of the threads, in any
  interleaving, are the relation \<open>strand_step\<close>. The executor below is the number of invokers it has been
  given and not yet run; which thread runs one, and when, is left open. The shutdown of the service comes with
  the destruction of its context, when no thread is in the strand. Not modelled: the list of all strands of a
  service and the choice of a mutex from the pool.
\<close>

section \<open>The strand\<close>

record strand_impl =
  sd_locked :: bool
  sd_shutdown :: bool
  sd_waiting :: "nat list"
  sd_ready :: "nat list"

definition create_implementation :: strand_impl where
  "create_implementation = \<lparr> sd_locked = False, sd_shutdown = False, sd_waiting = [], sd_ready = [] \<rparr>"

datatype enqueue_result = Destroyed | Queued | First

text \<open>The part of \<open>enqueue\<close> under the mutex. The caller that gets \<open>First\<close> pushes its function to the ready queue
  afterwards, without the mutex.\<close>

definition strand_enqueue :: "strand_impl \<Rightarrow> nat \<Rightarrow> strand_impl \<times> enqueue_result" where
  "strand_enqueue s op =
     (if sd_shutdown s then (s, Destroyed)
      else if sd_locked s then (s\<lparr>sd_waiting := sd_waiting s @ [op]\<rparr>, Queued)
      else (s\<lparr>sd_locked := True\<rparr>, First))"

definition ready_push :: "nat \<Rightarrow> strand_impl \<Rightarrow> strand_impl" where
  "ready_push op s = s\<lparr>sd_ready := sd_ready s @ [op]\<rparr>"

text \<open>The destructor of \<open>on_invoker_exit\<close>, and whether the invoker goes back to the executor.\<close>

definition on_invoker_exit :: "strand_impl \<Rightarrow> strand_impl \<times> bool" where
  "on_invoker_exit s =
     (let ready = sd_ready s @ sd_waiting s; more_handlers = (ready \<noteq> [])
      in (s\<lparr>sd_ready := ready, sd_waiting := [], sd_locked := more_handlers\<rparr>, more_handlers))"

definition strand_shutdown :: "strand_impl \<Rightarrow> strand_impl" where
  "strand_shutdown s = s\<lparr>sd_shutdown := True, sd_waiting := [], sd_ready := []\<rparr>"

text \<open>The ways to submit a function; \<open>execute\<close> asks whether the executor never blocks.\<close>

datatype submit = Sk_Execute bool | Sk_Dispatch | Sk_Post | Sk_Defer

fun at_once :: "submit \<Rightarrow> bool" where
  "at_once (Sk_Execute never_blocking) = (\<not> never_blocking)"
| "at_once Sk_Dispatch = True"
| "at_once Sk_Post = False"
| "at_once Sk_Defer = False"

section \<open>The threads\<close>

text \<open>Where a thread is: outside the strand; past \<open>enqueue\<close> as the first, with its function still to be pushed; about
  to give an invoker to the executor; in the loop of an invoker; in a function of the strand; and past
  \<open>on_invoker_exit\<close> with functions left.\<close>

datatype sloc = S_Out | S_First submit nat | S_Schedule submit | S_Invoke | S_Running nat | S_More

text \<open>The call stack of a thread has the strand from the start of an invoker to its end.\<close>

fun running_in_this_thread :: "sloc \<Rightarrow> bool" where
  "running_in_this_thread S_Out = False"
| "running_in_this_thread (S_First k op) = False"
| "running_in_this_thread (S_Schedule k) = False"
| "running_in_this_thread S_Invoke = True"
| "running_in_this_thread (S_Running op) = True"
| "running_in_this_thread S_More = True"

record strand_system =
  sy_impl :: strand_impl
  sy_invokers :: nat
  sy_loc :: "nat \<Rightarrow> sloc"
  sy_accepted :: "nat list"
  sy_ran :: "nat list"
  sy_inline :: "(nat \<times> nat) list"

definition strand_system_init :: strand_system where
  "strand_system_init = \<lparr> sy_impl = create_implementation, sy_invokers = 0, sy_loc = (\<lambda>_. S_Out), sy_accepted = [],
     sy_ran = [], sy_inline = [] \<rparr>"

definition set_loc :: "nat \<Rightarrow> sloc \<Rightarrow> strand_system \<Rightarrow> strand_system" where
  "set_loc i l c = c\<lparr>sy_loc := (sy_loc c)(i := l)\<rparr>"

text \<open>A submission: \<open>execute\<close>, \<open>dispatch\<close>, \<open>post\<close> and \<open>defer\<close> up to the end of \<open>enqueue\<close>. A thread in the strand runs
  the function at once if the call allows it.\<close>

definition strand_submit :: "nat \<Rightarrow> submit \<Rightarrow> nat \<Rightarrow> strand_system \<Rightarrow> strand_system" where
  "strand_submit i k op c =
     (if at_once k \<and> running_in_this_thread (sy_loc c i) then c\<lparr>sy_inline := sy_inline c @ [(i, op)]\<rparr>
      else (case strand_enqueue (sy_impl c) op of (s, r) \<Rightarrow>
        (case r of
           Destroyed \<Rightarrow> c\<lparr>sy_impl := s\<rparr>
         | Queued \<Rightarrow> c\<lparr>sy_impl := s, sy_accepted := sy_accepted c @ [op]\<rparr>
         | First \<Rightarrow> set_loc i (S_First k op) (c\<lparr>sy_impl := s, sy_accepted := sy_accepted c @ [op]\<rparr>))))"

definition strand_leave :: "nat \<Rightarrow> strand_system \<Rightarrow> strand_system" where
  "strand_leave i c =
     (case on_invoker_exit (sy_impl c) of (s, more_handlers) \<Rightarrow>
        set_loc i (if more_handlers then S_More else S_Out) (c\<lparr>sy_impl := s\<rparr>))"

inductive strand_step :: "strand_system \<Rightarrow> strand_system \<Rightarrow> bool" where
  t_submit: "sy_loc c i = S_Out \<or> (\<exists>o1. sy_loc c i = S_Running o1) \<Longrightarrow> strand_step c (strand_submit i k op c)"
| t_push: "sy_loc c i = S_First k op \<Longrightarrow>
     strand_step c (set_loc i (S_Schedule k) (c\<lparr>sy_impl := ready_push op (sy_impl c)\<rparr>))"
| t_schedule: "sy_loc c i = S_Schedule k \<Longrightarrow> strand_step c (set_loc i S_Out (c\<lparr>sy_invokers := sy_invokers c + 1\<rparr>))"
| t_at_once: "sy_loc c i = S_Schedule k \<Longrightarrow> at_once k \<Longrightarrow> strand_step c (set_loc i S_Invoke c)"
| t_invoke: "sy_loc c i = S_Out \<Longrightarrow> 0 < sy_invokers c \<Longrightarrow>
     strand_step c (set_loc i S_Invoke (c\<lparr>sy_invokers := sy_invokers c - 1\<rparr>))"
| t_run: "sy_loc c i = S_Invoke \<Longrightarrow> sd_ready (sy_impl c) = op # ops \<Longrightarrow>
     strand_step c (set_loc i (S_Running op)
       (c\<lparr>sy_impl := (sy_impl c)\<lparr>sd_ready := ops\<rparr>, sy_ran := sy_ran c @ [op]\<rparr>))"
| t_done: "sy_loc c i = S_Running op \<Longrightarrow> strand_step c (set_loc i S_Invoke c)"
| t_leave: "sy_loc c i = S_Invoke \<Longrightarrow> sd_ready (sy_impl c) = [] \<Longrightarrow> strand_step c (strand_leave i c)"
| t_throw: "sy_loc c i = S_Running op \<Longrightarrow> strand_step c (strand_leave i c)"
| t_more: "sy_loc c i = S_More \<Longrightarrow> strand_step c (set_loc i S_Out (c\<lparr>sy_invokers := sy_invokers c + 1\<rparr>))"
| t_shutdown: "(\<forall>i. sy_loc c i = S_Out) \<Longrightarrow> strand_step c (c\<lparr>sy_impl := strand_shutdown (sy_impl c)\<rparr>)"

inductive strand_reachable :: "strand_system \<Rightarrow> bool" where
  strand_start: "strand_reachable strand_system_init"
| strand_next: "strand_reachable c \<Longrightarrow> strand_step c c' \<Longrightarrow> strand_reachable c'"

section \<open>The invariant\<close>

definition holds :: "sloc \<Rightarrow> bool" where
  "holds l \<longleftrightarrow> l \<noteq> S_Out"

definition first_ops :: "sloc \<Rightarrow> nat list" where
  "first_ops l = (case l of S_First k op \<Rightarrow> [op] | _ \<Rightarrow> [])"

text \<open>The lock belongs to one thread or to one invoker, and what was accepted has run, in order, or is still with
  the strand: with the thread that is about to push it, in the ready queue, or in the waiting queue.\<close>

definition one_holder :: "strand_system \<Rightarrow> bool" where
  "one_holder c \<longleftrightarrow>
     (\<forall>i j. holds (sy_loc c i) \<longrightarrow> holds (sy_loc c j) \<longrightarrow> i = j) \<and>
     sy_invokers c \<le> 1 \<and> (0 < sy_invokers c \<longrightarrow> (\<forall>i. \<not> holds (sy_loc c i))) \<and>
     (sd_locked (sy_impl c) \<longleftrightarrow> 0 < sy_invokers c \<or> (\<exists>i. holds (sy_loc c i)))"

definition in_order :: "strand_system \<Rightarrow> bool" where
  "in_order c \<longleftrightarrow>
     (\<not> sd_locked (sy_impl c) \<longrightarrow> sd_ready (sy_impl c) = [] \<and> sd_waiting (sy_impl c) = []) \<and>
     (\<forall>i. first_ops (sy_loc c i) \<noteq> [] \<longrightarrow> sd_ready (sy_impl c) = []) \<and>
     (\<not> sd_shutdown (sy_impl c) \<longrightarrow>
        (\<forall>i. first_ops (sy_loc c i) \<noteq> [] \<longrightarrow>
           sy_accepted c = sy_ran c @ first_ops (sy_loc c i) @ sd_waiting (sy_impl c)) \<and>
        ((\<forall>i. first_ops (sy_loc c i) = []) \<longrightarrow>
           sy_accepted c = sy_ran c @ sd_ready (sy_impl c) @ sd_waiting (sy_impl c)))"

lemma holds_simps [simp]:
  "\<not> holds S_Out" "holds (S_First k op)" "holds (S_Schedule k)" "holds S_Invoke" "holds (S_Running op)" "holds S_More"
  by (simp_all add: holds_def)

lemma first_ops_simps [simp]:
  "first_ops S_Out = []" "first_ops (S_First k op) = [op]" "first_ops (S_Schedule k) = []" "first_ops S_Invoke = []"
  "first_ops (S_Running op) = []" "first_ops S_More = []"
  by (simp_all add: first_ops_def)

lemma first_ops_holds: "first_ops l \<noteq> [] \<Longrightarrow> holds l"
  by (cases l) simp_all

lemma set_loc_fields [simp]:
  "sy_impl (set_loc i l c) = sy_impl c" "sy_invokers (set_loc i l c) = sy_invokers c"
  "sy_accepted (set_loc i l c) = sy_accepted c" "sy_ran (set_loc i l c) = sy_ran c"
  "sy_loc (set_loc i l c) j = (if j = i then l else sy_loc c j)"
  by (simp_all add: set_loc_def)

lemma one_holder_init: "one_holder strand_system_init" "in_order strand_system_init"
  by (simp_all add: one_holder_def in_order_def strand_system_init_def create_implementation_def)

text \<open>A step of the thread that holds the strand: it stays the holder, or gives the lock to an invoker, or releases it.\<close>

lemma one_holder_stay:
  assumes "one_holder c" "holds (sy_loc c i)" "holds l" "sd_locked (sy_impl c') = sd_locked (sy_impl c)"
    and "sy_invokers c' = sy_invokers c" "sy_loc c' = (sy_loc c)(i := l)"
  shows "one_holder c'"
  using assms unfolding one_holder_def by (auto split: if_splits)

lemma one_holder_give:
  assumes "one_holder c" "holds (sy_loc c i)" "sd_locked (sy_impl c')"
    and "sy_invokers c' = sy_invokers c + 1" "sy_loc c' = (sy_loc c)(i := S_Out)"
  shows "one_holder c'"
  using assms unfolding one_holder_def by (auto split: if_splits)

lemma one_holder_release:
  assumes "one_holder c" "holds (sy_loc c i)" "\<not> sd_locked (sy_impl c')"
    and "sy_invokers c' = sy_invokers c" "sy_loc c' = (sy_loc c)(i := S_Out)"
  shows "one_holder c'"
  using assms unfolding one_holder_def by (auto split: if_splits)

lemma holder_locked: "one_holder c \<Longrightarrow> holds (sy_loc c i) \<Longrightarrow> sd_locked (sy_impl c)"
  by (auto simp: one_holder_def)

lemma one_holder_leave:
  assumes "one_holder c" "holds (sy_loc c i)"
  shows "one_holder (strand_leave i c)"
proof (cases "sd_ready (sy_impl c) @ sd_waiting (sy_impl c) = []")
  case True
  show ?thesis
    by (rule one_holder_release [OF assms])
       (use True in \<open>simp_all add: strand_leave_def on_invoker_exit_def Let_def set_loc_def\<close>)
next
  case False
  have locked: "sd_locked (sy_impl c)" by (rule holder_locked [OF assms])
  show ?thesis
    by (rule one_holder_stay [OF assms, of S_More])
       (use False locked in \<open>simp_all add: strand_leave_def on_invoker_exit_def Let_def set_loc_def\<close>)
qed

lemma one_holder_step: "strand_step c c' \<Longrightarrow> one_holder c \<Longrightarrow> one_holder c'"
proof (induction rule: strand_step.induct)
  case (t_submit c i k op)
  show ?case
  proof (cases "sy_loc c i = S_Out \<and> \<not> sd_locked (sy_impl c) \<and> \<not> sd_shutdown (sy_impl c)")
    case True
    then have "\<not> holds (sy_loc c j)" "sy_invokers c = 0" for j using t_submit.prems by (auto simp: one_holder_def)
    then show ?thesis using True by (auto simp: one_holder_def strand_submit_def strand_enqueue_def set_loc_def)
  next
    case False
    then have "sd_shutdown (sy_impl c) \<or> sd_locked (sy_impl c)"
      using t_submit holder_locked [of c i] by auto
    then show ?thesis using t_submit.prems by (auto simp: one_holder_def strand_submit_def strand_enqueue_def)
  qed
next
  case (t_push c i k op)
  then have h: "holds (sy_loc c i)" by simp
  show ?case
    by (rule one_holder_stay [OF t_push.prems h, of "S_Schedule k"])
       (use holder_locked [OF t_push.prems h] in \<open>simp_all add: set_loc_def ready_push_def\<close>)
next
  case (t_schedule c i k)
  then have h: "holds (sy_loc c i)" by simp
  show ?case
    by (rule one_holder_give [OF t_schedule.prems h])
       (use holder_locked [OF t_schedule.prems h] in \<open>simp_all add: set_loc_def\<close>)
next
  case (t_at_once c i k)
  then have h: "holds (sy_loc c i)" by simp
  show ?case
    by (rule one_holder_stay [OF t_at_once.prems h, of S_Invoke])
       (use holder_locked [OF t_at_once.prems h] in \<open>simp_all add: set_loc_def\<close>)
next
  case (t_invoke c i)
  then show ?case by (auto simp: one_holder_def)
next
  case (t_run c i op ops)
  then have h: "holds (sy_loc c i)" by simp
  show ?case
    by (rule one_holder_stay [OF t_run.prems h, of "S_Running op"])
       (use holder_locked [OF t_run.prems h] in \<open>simp_all add: set_loc_def\<close>)
next
  case (t_done c i op)
  then have h: "holds (sy_loc c i)" by simp
  show ?case
    by (rule one_holder_stay [OF t_done.prems h, of S_Invoke])
       (use holder_locked [OF t_done.prems h] in \<open>simp_all add: set_loc_def\<close>)
next
  case (t_leave c i)
  then show ?case by (intro one_holder_leave) simp_all
next
  case (t_throw c i op)
  then show ?case by (intro one_holder_leave) simp_all
next
  case (t_more c i)
  then have h: "holds (sy_loc c i)" by simp
  show ?case
    by (rule one_holder_give [OF t_more.prems h])
       (use holder_locked [OF t_more.prems h] in \<open>simp_all add: set_loc_def\<close>)
next
  case (t_shutdown c)
  then show ?case by (auto simp: one_holder_def strand_shutdown_def)
qed

text \<open>When every other thread is outside, the order is a matter of one thread.\<close>

definition kept :: "strand_system \<Rightarrow> nat list \<Rightarrow> bool" where
  "kept c first \<longleftrightarrow>
     (\<not> sd_locked (sy_impl c) \<longrightarrow> sd_ready (sy_impl c) = [] \<and> sd_waiting (sy_impl c) = []) \<and>
     (first \<noteq> [] \<longrightarrow> sd_ready (sy_impl c) = []) \<and>
     (\<not> sd_shutdown (sy_impl c) \<longrightarrow> sy_accepted c = sy_ran c @ first @ sd_ready (sy_impl c) @ sd_waiting (sy_impl c))"

lemma in_order_alone:
  assumes "\<And>j. j \<noteq> i \<Longrightarrow> sy_loc c j = S_Out"
  shows "in_order c \<longleftrightarrow> kept c (first_ops (sy_loc c i))"
proof -
  define first where "first = first_ops (sy_loc c i)"
  have others: "first_ops (sy_loc c j) = (if j = i then first else [])" for j
    using assms [of j] by (simp add: first_def)
  have any: "(\<forall>j. (if j = i then first else []) \<noteq> [] \<longrightarrow> P j) \<longleftrightarrow> (first \<noteq> [] \<longrightarrow> P i)" for P by auto
  have none: "(\<forall>j. (if j = i then first else []) = []) \<longleftrightarrow> first = []" by auto
  show ?thesis
    unfolding in_order_def kept_def others any none by (cases "first = []") auto
qed

lemma others_out: "one_holder c \<Longrightarrow> holds (sy_loc c i) \<Longrightarrow> j \<noteq> i \<Longrightarrow> sy_loc c j = S_Out"
  unfolding one_holder_def using holds_def by metis

lemma all_out: "one_holder c \<Longrightarrow> \<not> sd_locked (sy_impl c) \<or> 0 < sy_invokers c \<Longrightarrow> sy_loc c j = S_Out"
  unfolding one_holder_def using holds_def by metis

lemma in_order_holder:
  assumes "one_holder c" "in_order c" "holds (sy_loc c i)" "sy_loc c' = (sy_loc c)(i := l)"
    and "sd_locked (sy_impl c) \<Longrightarrow> kept c (first_ops (sy_loc c i)) \<Longrightarrow> kept c' (first_ops l)"
  shows "in_order c'"
proof -
  note out = others_out [OF assms(1,3)]
  have "kept c (first_ops (sy_loc c i))" using in_order_alone [of i c] out assms(2) by blast
  then have "kept c' (first_ops l)" by (rule assms(5) [OF holder_locked [OF assms(1,3)]])
  then show ?thesis using in_order_alone [of i c'] out assms(4) by simp
qed

lemma kept_leave: "holds (sy_loc c i) \<Longrightarrow> first_ops (sy_loc c i) = [] \<Longrightarrow> kept c [] \<Longrightarrow> kept (strand_leave i c) []"
  by (auto simp: kept_def strand_leave_def on_invoker_exit_def Let_def)

lemma in_order_leave:
  assumes "one_holder c" "in_order c" "holds (sy_loc c i)" "first_ops (sy_loc c i) = []"
  shows "in_order (strand_leave i c)"
  by (rule in_order_holder [OF assms(1-3), of _ "if sd_ready (sy_impl c) @ sd_waiting (sy_impl c) = [] then S_Out else S_More"])
     (use kept_leave [OF assms(3,4)] assms(4) in
       \<open>auto simp: strand_leave_def on_invoker_exit_def Let_def set_loc_def\<close>)

lemma in_order_submit:
  assumes "one_holder c" "in_order c" "sy_loc c i = S_Out \<or> (\<exists>o1. sy_loc c i = S_Running o1)"
  shows "in_order (strand_submit i k op c)"
proof (cases "sd_shutdown (sy_impl c) \<or> sd_locked (sy_impl c)")
  case True
  then show ?thesis using assms(2) by (auto simp: in_order_def strand_submit_def strand_enqueue_def)
next
  case False
  then have out: "sy_loc c j = S_Out" for j using all_out [OF assms(1)] by blast
  then have "kept c []" using in_order_alone [of i c] assms(2) by simp
  then have "kept (strand_submit i k op c) [op]"
    using False out by (simp add: kept_def strand_submit_def strand_enqueue_def)
  moreover have "sy_loc (strand_submit i k op c) = (sy_loc c)(i := S_First k op)"
    using False out by (simp add: strand_submit_def strand_enqueue_def set_loc_def)
  ultimately show ?thesis using in_order_alone [of i "strand_submit i k op c"] out by simp
qed

lemma in_order_step: "strand_step c c' \<Longrightarrow> one_holder c \<Longrightarrow> in_order c \<Longrightarrow> in_order c'"
proof (induction rule: strand_step.induct)
  case (t_submit c i k op)
  then show ?case by (intro in_order_submit)
next
  case (t_push c i k op)
  show ?case
    by (rule in_order_holder [OF t_push.prems, of i _ "S_Schedule k"])
       (use t_push.hyps in \<open>auto simp: set_loc_def kept_def ready_push_def\<close>)
next
  case (t_schedule c i k)
  show ?case
    by (rule in_order_holder [OF t_schedule.prems, of i _ S_Out])
       (use t_schedule.hyps in \<open>auto simp: set_loc_def kept_def\<close>)
next
  case (t_at_once c i k)
  show ?case
    by (rule in_order_holder [OF t_at_once.prems, of i _ S_Invoke])
       (use t_at_once.hyps in \<open>auto simp: set_loc_def kept_def\<close>)
next
  case (t_invoke c i)
  then have out: "sy_loc c j = S_Out" for j using all_out [of c] by blast
  then have "kept c []" using in_order_alone [of i c] t_invoke.prems by simp
  then show ?case
    using in_order_alone [of i "set_loc i S_Invoke (c\<lparr>sy_invokers := sy_invokers c - 1\<rparr>)"] out by (simp add: kept_def)
next
  case (t_run c i op ops)
  show ?case
    by (rule in_order_holder [OF t_run.prems, of i _ "S_Running op"])
       (use t_run.hyps in \<open>auto simp: set_loc_def kept_def\<close>)
next
  case (t_done c i op)
  show ?case
    by (rule in_order_holder [OF t_done.prems, of i _ S_Invoke])
       (use t_done.hyps in \<open>auto simp: set_loc_def kept_def\<close>)
next
  case (t_leave c i)
  then show ?case by (intro in_order_leave) simp_all
next
  case (t_throw c i op)
  then show ?case by (intro in_order_leave) simp_all
next
  case (t_more c i)
  show ?case
    by (rule in_order_holder [OF t_more.prems, of i _ S_Out])
       (use t_more.hyps in \<open>auto simp: set_loc_def kept_def\<close>)
next
  case (t_shutdown c)
  then show ?case by (simp add: in_order_def strand_shutdown_def)
qed

lemma strand_invariant: "strand_reachable c \<Longrightarrow> one_holder c \<and> in_order c"
  by (induction rule: strand_reachable.induct) (auto simp: one_holder_init intro: one_holder_step in_order_step)

text \<open>A function submitted from within the strand finds it locked: it is queued, or destroyed after the shutdown, and
  the thread stays where it is.\<close>

lemma submit_inside:
  assumes "strand_reachable c" "sy_loc c i = S_Running o1"
  shows "sy_loc (strand_submit i k op c) = sy_loc c"
  using assms strand_invariant [OF assms(1)] holder_locked [of c i]
  by (auto simp: strand_submit_def strand_enqueue_def)

section \<open>Properties of strands\<close>

text \<open>C9: A strand runs its functions one at a time and in the order in which it accepted them. However submissions from
  any number of threads, from inside the strand too, interleave with the invokers that run it, and even if
  functions throw, at most one thread is in the strand; until the shutdown the functions that have started
  are the first of those accepted, none skipped and none twice. No function is forgotten: while an
  accepted one has not started, either the executor holds exactly one invoker or exactly one thread has the strand.\<close>

theorem strand_serialises:
  assumes "strand_reachable c"
  shows "(\<forall>i j o1 o2. sy_loc c i = S_Running o1 \<longrightarrow> sy_loc c j = S_Running o2 \<longrightarrow> i = j \<and> o1 = o2) \<and>
    (\<not> sd_shutdown (sy_impl c) \<longrightarrow>
       (\<exists>rest. sy_accepted c = sy_ran c @ rest \<and>
          (rest \<noteq> [] \<longrightarrow> sy_invokers c = 1 \<and> (\<forall>i. sy_loc c i = S_Out) \<or>
                        sy_invokers c = 0 \<and> (\<exists>!i. sy_loc c i \<noteq> S_Out))))"
proof -
  have h: "one_holder c" and q: "in_order c" using strand_invariant [OF assms] by simp_all
  have one: "i = j" if "holds (sy_loc c i)" "holds (sy_loc c j)" for i j
    using h that by (simp add: one_holder_def)
  have "i = j \<and> o1 = o2" if "sy_loc c i = S_Running o1" "sy_loc c j = S_Running o2" for i j o1 o2
    using one [of i j] that by simp
  moreover have "\<exists>rest. sy_accepted c = sy_ran c @ rest \<and>
      (rest \<noteq> [] \<longrightarrow> sy_invokers c = 1 \<and> (\<forall>i. sy_loc c i = S_Out) \<or> sy_invokers c = 0 \<and> (\<exists>!i. sy_loc c i \<noteq> S_Out))"
    if run: "\<not> sd_shutdown (sy_impl c)"
  proof -
    obtain rest where rest: "sy_accepted c = sy_ran c @ rest" using q run unfolding in_order_def by metis
    show ?thesis
    proof (cases "sd_locked (sy_impl c)")
      case True
      have "sy_invokers c = 1 \<and> (\<forall>i. sy_loc c i = S_Out) \<or> sy_invokers c = 0 \<and> (\<exists>!i. sy_loc c i \<noteq> S_Out)"
      proof (cases "sy_invokers c = 0")
        case True
        then obtain i where "holds (sy_loc c i)" using h \<open>sd_locked (sy_impl c)\<close> by (auto simp: one_holder_def)
        then have "\<exists>!i. sy_loc c i \<noteq> S_Out" using one unfolding holds_def by metis
        then show ?thesis using True by simp
      next
        case False
        then show ?thesis using h all_out [OF h] by (auto simp: one_holder_def)
      qed
      then show ?thesis using rest by blast
    next
      case False
      then have "sy_loc c i = S_Out" for i using all_out [OF h] by blast
      then have "sy_accepted c = sy_ran c" using q run False by (simp add: in_order_def)
      then show ?thesis by simp
    qed
  qed
  ultimately show ?thesis by blast
qed

theorem strand_serialises_witness:
  "\<exists>c. strand_reachable c \<and> sy_loc c 1 = S_Running 5 \<and> sy_accepted c = [5, 6] \<and> sy_ran c = [5] \<and>
     (\<forall>j o2. sy_loc c j = S_Running o2 \<longrightarrow> 1 = j)"
proof -
  define c1 where "c1 = strand_submit 0 Sk_Post 5 strand_system_init"
  define c2 where "c2 = set_loc 0 (S_Schedule Sk_Post) (c1\<lparr>sy_impl := ready_push 5 (sy_impl c1)\<rparr>)"
  define c3 where "c3 = set_loc 0 S_Out (c2\<lparr>sy_invokers := sy_invokers c2 + 1\<rparr>)"
  define c4 where "c4 = set_loc 1 S_Invoke (c3\<lparr>sy_invokers := sy_invokers c3 - 1\<rparr>)"
  define c5 where "c5 = set_loc 1 (S_Running 5)
    (c4\<lparr>sy_impl := (sy_impl c4)\<lparr>sd_ready := []\<rparr>, sy_ran := sy_ran c4 @ [5]\<rparr>)"
  define c6 where "c6 = strand_submit 0 Sk_Dispatch 6 c5"
  note defs = c1_def c2_def c3_def c4_def c5_def strand_submit_def strand_enqueue_def strand_system_init_def
    create_implementation_def ready_push_def
  have "strand_reachable c1" unfolding c1_def
    by (rule strand_next [OF strand_start t_submit]) (simp add: strand_system_init_def)
  then have "strand_reachable c2" unfolding c2_def by (rule strand_next [OF _ t_push]) (simp add: defs)
  then have "strand_reachable c3" unfolding c3_def by (rule strand_next [OF _ t_schedule]) (simp add: defs)
  then have "strand_reachable c4" unfolding c4_def by (rule strand_next [OF _ t_invoke]) (simp_all add: defs)
  then have "strand_reachable c5" unfolding c5_def by (rule strand_next [OF _ t_run]) (simp_all add: defs)
  then have r: "strand_reachable c6" unfolding c6_def by (rule strand_next [OF _ t_submit]) (simp add: defs)
  have s: "sy_loc c6 1 = S_Running 5" "sy_accepted c6 = [5, 6]" "sy_ran c6 = [5]"
    by (simp_all add: c6_def defs)
  then show ?thesis using r strand_serialises [OF r] by blast
qed

end
