(* ===== verification/Asio_Signal_Set.thy ===== *)
theory Asio_Signal_Set
  imports Asio_Error
begin

text \<open>
  Signal sets: \<open>src/3rd/asio/include/asio/detail/signal_set_service.hpp\<close> and
  \<open>detail/impl/signal_set_service.ipp\<close>. The state is the global \<open>signal_state\<close> of the process with all services,
  sets and registrations in it. Registrations are addresses; the list of a set (\<open>next_in_set_\<close>) and the list of a
  service for a signal (\<open>next_in_table_\<close>, \<open>prev_in_table_\<close>) are lists of them, and an \<open>op_queue\<close> is the list that
  \<open>Asio_Op_Queue\<close> shows it to be. Every function runs under the mutex of the state. Parameters are the results of
  \<open>sigaction\<close> and \<open>pipe\<close>; the pipe itself is a list with a capacity. A scheduler is the list of the operations
  posted to it and its count of work; a reactor is whether it watches the pipe.
\<close>

section \<open>State\<close>

record registration =
  rg_signal_number :: int
  rg_queue :: nat
  rg_undelivered :: nat

record signal_set =
  sg_queue :: "nat list"
  sg_signals :: "nat list"

record signal_op =
  sp_signal_number :: int
  sp_ec :: error_code

record signal_state =
  st_read_descriptor :: int
  st_write_descriptor :: int
  st_pipe :: "int list"
  st_fork_prepared :: bool
  st_service_list :: "nat list"
  st_registration_count :: "int \<Rightarrow> nat"
  st_registrations :: "nat \<Rightarrow> int \<Rightarrow> nat list"
  st_regs :: "nat \<Rightarrow> registration"
  st_fresh :: nat
  st_sets :: "nat \<Rightarrow> signal_set"
  st_ops :: "nat \<Rightarrow> signal_op"
  st_posted :: "nat \<Rightarrow> nat list"
  st_work :: "nat \<Rightarrow> int"
  st_watching :: "nat \<Rightarrow> bool"
  st_handler :: "int \<Rightarrow> bool"

definition max_signal_number :: int where
  "max_signal_number = 65"

text \<open>The result of \<open>sigaction\<close> for a signal: the error, if it fails.\<close>

type_synonym sigaction = "int \<Rightarrow> nat option"

definition set_signals :: "nat \<Rightarrow> nat list \<Rightarrow> signal_state \<Rightarrow> signal_state" where
  "set_signals p rs s = s\<lparr>st_sets := (st_sets s)(p := (st_sets s p)\<lparr>sg_signals := rs\<rparr>)\<rparr>"

definition set_queue :: "nat \<Rightarrow> nat list \<Rightarrow> signal_state \<Rightarrow> signal_state" where
  "set_queue p ops s = s\<lparr>st_sets := (st_sets s)(p := (st_sets s p)\<lparr>sg_queue := ops\<rparr>)\<rparr>"

definition set_undelivered :: "nat \<Rightarrow> nat \<Rightarrow> signal_state \<Rightarrow> signal_state" where
  "set_undelivered r k s = s\<lparr>st_regs := (st_regs s)(r := (st_regs s r)\<lparr>rg_undelivered := k\<rparr>)\<rparr>"

definition post_ops :: "nat \<Rightarrow> nat list \<Rightarrow> signal_state \<Rightarrow> signal_state" where
  "post_ops svc ops s = s\<lparr>st_posted := (st_posted s)(svc := st_posted s svc @ ops)\<rparr>"

section \<open>Sets\<close>

definition sg_construct :: "nat \<Rightarrow> signal_state \<Rightarrow> signal_state" where
  "sg_construct p s = set_signals p [] s"

definition sg_add :: "sigaction \<Rightarrow> nat \<Rightarrow> nat \<Rightarrow> int \<Rightarrow> signal_state \<Rightarrow> error_code \<times> signal_state" where
  "sg_add sa svc p n s =
     (if n < 0 \<or> n \<ge> max_signal_number then (basic invalid_argument, s)
      else
        let signals = sg_signals (st_sets s p);
            before = takeWhile (\<lambda>r. rg_signal_number (st_regs s r) < n) signals;
            next = dropWhile (\<lambda>r. rg_signal_number (st_regs s r) < n) signals
        in if next = [] \<or> rg_signal_number (st_regs s (hd next)) \<noteq> n
           then (case (if st_registration_count s n = 0 then sa n else None) of
                   Some errno \<Rightarrow> (sys_error errno, s)
                 | None \<Rightarrow>
                     let r = st_fresh s;
                         s = s\<lparr>st_fresh := r + 1, st_handler := (st_handler s)(n := True),
                               st_regs := (st_regs s)(r := \<lparr> rg_signal_number = n, rg_queue = p, rg_undelivered = 0 \<rparr>),
                               st_registrations := (st_registrations s)(svc := (st_registrations s svc)(n := r # st_registrations s svc n)),
                               st_registration_count := (st_registration_count s)(n := st_registration_count s n + 1)\<rparr>
                     in (None, set_signals p (before @ r # next) s))
           else (None, s))"

text \<open>What \<open>remove\<close> and \<open>clear\<close> do with a registration once the handler of the process is set back.\<close>

definition drop_registration :: "nat \<Rightarrow> nat \<Rightarrow> signal_state \<Rightarrow> signal_state" where
  "drop_registration svc r s =
     (let n = rg_signal_number (st_regs s r) in
      s\<lparr>st_handler := (st_handler s)(n := (if st_registration_count s n = 1 then False else st_handler s n)),
        st_registrations := (st_registrations s)(svc := (st_registrations s svc)(n := remove1 r (st_registrations s svc n))),
        st_registration_count := (st_registration_count s)(n := st_registration_count s n - 1)\<rparr>)"

definition sg_remove :: "sigaction \<Rightarrow> nat \<Rightarrow> nat \<Rightarrow> int \<Rightarrow> signal_state \<Rightarrow> error_code \<times> signal_state" where
  "sg_remove sa svc p n s =
     (if n < 0 \<or> n \<ge> max_signal_number then (basic invalid_argument, s)
      else
        let signals = sg_signals (st_sets s p);
            before = takeWhile (\<lambda>r. rg_signal_number (st_regs s r) < n) signals
        in (case dropWhile (\<lambda>r. rg_signal_number (st_regs s r) < n) signals of
              [] \<Rightarrow> (None, s)
            | r # after \<Rightarrow>
                if rg_signal_number (st_regs s r) \<noteq> n then (None, s)
                else (case (if st_registration_count s n = 1 then sa n else None) of
                        Some errno \<Rightarrow> (sys_error errno, s)
                      | None \<Rightarrow> (None, drop_registration svc r (set_signals p (before @ after) s)))))"

fun clear_loop :: "sigaction \<Rightarrow> nat \<Rightarrow> nat \<Rightarrow> nat list \<Rightarrow> signal_state \<Rightarrow> error_code \<times> signal_state" where
  "clear_loop sa svc p [] s = (None, s)"
| "clear_loop sa svc p (r # rest) s =
     (let n = rg_signal_number (st_regs s r) in
      case (if st_registration_count s n = 1 then sa n else None) of
        Some errno \<Rightarrow> (sys_error errno, s)
      | None \<Rightarrow> clear_loop sa svc p rest (drop_registration svc r (set_signals p rest s)))"

definition sg_clear :: "sigaction \<Rightarrow> nat \<Rightarrow> nat \<Rightarrow> signal_state \<Rightarrow> error_code \<times> signal_state" where
  "sg_clear sa svc p s = clear_loop sa svc p (sg_signals (st_sets s p)) s"

definition sg_cancel :: "nat \<Rightarrow> nat \<Rightarrow> signal_state \<Rightarrow> signal_state" where
  "sg_cancel svc p s =
     (let ops = sg_queue (st_sets s p);
          s = s\<lparr>st_ops := (\<lambda>op. if op \<in> set ops then (st_ops s op)\<lparr>sp_ec := basic operation_aborted\<rparr> else st_ops s op)\<rparr>
      in post_ops svc ops (set_queue p [] s))"

definition sg_destroy :: "sigaction \<Rightarrow> nat \<Rightarrow> nat \<Rightarrow> signal_state \<Rightarrow> signal_state" where
  "sg_destroy sa svc p s = sg_cancel svc p (snd (sg_clear sa svc p s))"

text \<open>A wait takes the first signal of the set that was not delivered, or waits.\<close>

definition deliver_to :: "int \<Rightarrow> nat list \<Rightarrow> signal_state \<Rightarrow> signal_state" where
  "deliver_to n ops s =
     s\<lparr>st_ops := (\<lambda>op. if op \<in> set ops then (st_ops s op)\<lparr>sp_signal_number := n\<rparr> else st_ops s op)\<rparr>"

fun wait_loop :: "nat \<Rightarrow> nat \<Rightarrow> nat \<Rightarrow> nat list \<Rightarrow> signal_state \<Rightarrow> signal_state" where
  "wait_loop svc p op [] s = set_queue p (sg_queue (st_sets s p) @ [op]) s"
| "wait_loop svc p op (r # rest) s =
     (if rg_undelivered (st_regs s r) > 0
      then post_ops svc [op] (deliver_to (rg_signal_number (st_regs s r)) [op]
             (set_undelivered r (rg_undelivered (st_regs s r) - 1) s))
      else wait_loop svc p op rest s)"

definition start_wait_op :: "nat \<Rightarrow> nat \<Rightarrow> nat \<Rightarrow> signal_state \<Rightarrow> signal_state" where
  "start_wait_op svc p op s =
     wait_loop svc p op (sg_signals (st_sets s p)) (s\<lparr>st_work := (st_work s)(svc := st_work s svc + 1)\<rparr>)"

section \<open>Delivery\<close>

fun deliver_regs :: "int \<Rightarrow> nat list \<Rightarrow> signal_state \<Rightarrow> nat list \<Rightarrow> signal_state \<times> nat list" where
  "deliver_regs n [] s ops = (s, ops)"
| "deliver_regs n (r # rest) s ops =
     (let q = rg_queue (st_regs s r); queued = sg_queue (st_sets s q) in
      if queued = [] then deliver_regs n rest (set_undelivered r (rg_undelivered (st_regs s r) + 1) s) ops
      else deliver_regs n rest (deliver_to n queued (set_queue q [] s)) (ops @ queued))"

definition deliver_service :: "int \<Rightarrow> nat \<Rightarrow> signal_state \<Rightarrow> signal_state" where
  "deliver_service n svc s =
     (case deliver_regs n (st_registrations s svc n) s [] of (s, ops) \<Rightarrow> post_ops svc ops s)"

definition deliver_signal :: "int \<Rightarrow> signal_state \<Rightarrow> signal_state" where
  "deliver_signal n s = fold (deliver_service n) (st_service_list s) s"

text \<open>The handler of the process writes the number to the pipe, if there is room; the operation that waits in the
  reactors reads all of them.\<close>

definition asio_signal_handler :: "nat \<Rightarrow> int \<Rightarrow> signal_state \<Rightarrow> signal_state" where
  "asio_signal_handler capacity n s =
     (if st_write_descriptor s \<noteq> - 1 \<and> length (st_pipe s) < capacity then s\<lparr>st_pipe := st_pipe s @ [n]\<rparr> else s)"

definition pipe_read :: "signal_state \<Rightarrow> signal_state" where
  "pipe_read s =
     fold (\<lambda>n s. if n \<ge> 0 \<and> n < max_signal_number then deliver_signal n s else s) (st_pipe s) (s\<lparr>st_pipe := []\<rparr>)"

section \<open>Services\<close>

definition open_descriptors :: "(int \<times> int) + nat \<Rightarrow> signal_state \<Rightarrow> error_code \<times> signal_state" where
  "open_descriptors pipe s =
     (case pipe of
        Inl (r, w) \<Rightarrow> (None, s\<lparr>st_read_descriptor := r, st_write_descriptor := w, st_pipe := []\<rparr>)
      | Inr errno \<Rightarrow> (sys_error errno, s))"

definition close_descriptors :: "signal_state \<Rightarrow> signal_state" where
  "close_descriptors s = s\<lparr>st_read_descriptor := - 1, st_write_descriptor := - 1, st_pipe := []\<rparr>"

datatype add_outcome = Added | Pipe_Failed error_code | Not_Exclusive

definition add_service :: "(int \<times> int) + nat \<Rightarrow> (nat \<Rightarrow> bool) \<Rightarrow> nat \<Rightarrow> signal_state \<Rightarrow> add_outcome \<times> signal_state" where
  "add_service pipe is_locking svc s =
     (case (if st_service_list s = [] then open_descriptors pipe s else (None, s)) of (ec, s) \<Rightarrow>
        if ec \<noteq> None then (Pipe_Failed ec, s)
        else if st_service_list s \<noteq> [] \<and> (\<not> is_locking svc \<or> \<not> is_locking (hd (st_service_list s)))
        then (Not_Exclusive, s)
        else (Added, s\<lparr>st_service_list := svc # st_service_list s, st_watching := (st_watching s)(svc := True)\<rparr>))"

definition sg_service_ctor :: "(int \<times> int) + nat \<Rightarrow> (nat \<Rightarrow> bool) \<Rightarrow> nat \<Rightarrow> signal_state \<Rightarrow> add_outcome \<times> signal_state" where
  "sg_service_ctor pipe is_locking svc s =
     add_service pipe is_locking svc (s\<lparr>st_registrations := (st_registrations s)(svc := (\<lambda>_. []))\<rparr>)"

definition remove_service :: "nat \<Rightarrow> signal_state \<Rightarrow> signal_state" where
  "remove_service svc s =
     (if svc \<in> set (st_service_list s) then
        let s = s\<lparr>st_watching := (st_watching s)(svc := False), st_service_list := remove1 svc (st_service_list s)\<rparr>
        in if st_service_list s = [] then close_descriptors s else s
      else s)"

text \<open>The queues that \<open>shutdown\<close> gives to \<open>abandon_operations\<close>: each is empty once it is taken.\<close>

fun take_queues :: "nat list \<Rightarrow> signal_state \<Rightarrow> nat list \<Rightarrow> signal_state \<times> nat list" where
  "take_queues [] s ops = (s, ops)"
| "take_queues (r # rest) s ops =
     (let q = rg_queue (st_regs s r) in take_queues rest (set_queue q [] s) (ops @ sg_queue (st_sets s q)))"

definition sg_shutdown :: "nat \<Rightarrow> signal_state \<Rightarrow> signal_state \<times> nat list" where
  "sg_shutdown svc s =
     (let s = remove_service svc s
      in fold (\<lambda>n (s, ops). take_queues (st_registrations s svc n) s ops) (map int [0..<nat max_signal_number]) (s, []))"

datatype fork_event = Fork_Prepare | Fork_Parent | Fork_Child

definition sg_notify_fork :: "(int \<times> int) + nat \<Rightarrow> nat \<Rightarrow> fork_event \<Rightarrow> signal_state \<Rightarrow> error_code \<times> signal_state" where
  "sg_notify_fork pipe svc ev s =
     (case ev of
        Fork_Prepare \<Rightarrow> (None, s\<lparr>st_fork_prepared := True, st_watching := (st_watching s)(svc := False)\<rparr>)
      | Fork_Parent \<Rightarrow>
          (None, if st_fork_prepared s
                 then s\<lparr>st_fork_prepared := False, st_watching := (st_watching s)(svc := True)\<rparr> else s)
      | Fork_Child \<Rightarrow>
          (if st_fork_prepared s
           then (case open_descriptors pipe (close_descriptors s) of (ec, s) \<Rightarrow>
                   if ec \<noteq> None then (ec, s)
                   else (None, s\<lparr>st_fork_prepared := False, st_watching := (st_watching s)(svc := True)\<rparr>))
           else (None, s)))"


section \<open>The registrations\<close>

text \<open>The registrations of all sets for one signal.\<close>

definition live :: "signal_state \<Rightarrow> int \<Rightarrow> nat set" where
  "live s n = {r. r \<in> set (sg_signals (st_sets s (rg_queue (st_regs s r)))) \<and> rg_signal_number (st_regs s r) = n}"

definition set_ok :: "signal_state \<Rightarrow> nat \<Rightarrow> bool" where
  "set_ok s p \<longleftrightarrow>
     (\<forall>r \<in> set (sg_signals (st_sets s p)). r < st_fresh s \<and> rg_queue (st_regs s r) = p \<and>
        0 \<le> rg_signal_number (st_regs s r) \<and> rg_signal_number (st_regs s r) < max_signal_number) \<and>
     sorted_wrt (<) (map (\<lambda>r. rg_signal_number (st_regs s r)) (sg_signals (st_sets s p)))"

definition sig_ok :: "(nat \<Rightarrow> nat) \<Rightarrow> signal_state \<Rightarrow> bool" where
  "sig_ok owner s \<longleftrightarrow> (\<forall>p. set_ok s p) \<and>
     (\<forall>svc n. distinct (st_registrations s svc n) \<and>
        set (st_registrations s svc n) = {r \<in> live s n. owner (rg_queue (st_regs s r)) = svc}) \<and>
     (\<forall>n. st_registration_count s n = card (live s n)) \<and>
     (\<forall>n. st_handler s n \<longleftrightarrow> st_registration_count s n > 0) \<and>
     distinct (st_service_list s)"

text \<open>Most steps leave the registrations alone.\<close>

definition same_regs :: "signal_state \<Rightarrow> signal_state \<Rightarrow> bool" where
  "same_regs s s' \<longleftrightarrow> (\<forall>p. sg_signals (st_sets s' p) = sg_signals (st_sets s p)) \<and>
     (\<forall>r. rg_signal_number (st_regs s' r) = rg_signal_number (st_regs s r) \<and> rg_queue (st_regs s' r) = rg_queue (st_regs s r)) \<and>
     st_fresh s' = st_fresh s \<and> st_registrations s' = st_registrations s \<and>
     st_registration_count s' = st_registration_count s \<and> st_handler s' = st_handler s"

named_theorems sig_defs

lemmas [sig_defs] = set_signals_def set_queue_def set_undelivered_def post_ops_def deliver_to_def

lemma same_regs_refl [simp]: "same_regs s s" by (simp add: same_regs_def)

lemma same_regs_trans [trans]: "same_regs s t \<Longrightarrow> same_regs t u \<Longrightarrow> same_regs s u"
  by (simp add: same_regs_def)

lemma same_regs_live: "same_regs s s' \<Longrightarrow> live s' = live s"
  by (rule ext) (simp add: same_regs_def live_def)

lemma same_regs_ok:
  assumes "same_regs s s'" "distinct (st_service_list s')" "sig_ok owner s"
  shows "sig_ok owner s'"
  using assms(2,3) assms(1) [unfolded same_regs_def] same_regs_live [OF assms(1)]
  unfolding sig_ok_def set_ok_def by simp

lemma sig_okD:
  assumes "sig_ok owner s" "r \<in> set (sg_signals (st_sets s p))"
  shows "r < st_fresh s" "rg_queue (st_regs s r) = p" "0 \<le> rg_signal_number (st_regs s r)"
    "rg_signal_number (st_regs s r) < max_signal_number" "r \<in> live s (rg_signal_number (st_regs s r))"
  using assms by (auto simp: sig_ok_def set_ok_def live_def)

lemma live_finite: "sig_ok owner s \<Longrightarrow> finite (live s n)"
  by (rule finite_subset [of _ "{..<st_fresh s}"]) (auto simp: sig_ok_def set_ok_def live_def)

lemma signals_distinct: "sig_ok owner s \<Longrightarrow> distinct (sg_signals (st_sets s p))"
  unfolding sig_ok_def set_ok_def by (meson distinct_map strict_sorted_iff)

section \<open>Adding and removing\<close>

lemma sorted_signals_split:
  fixes f :: "'a \<Rightarrow> int"
  assumes "sorted_wrt (<) (map f xs)"
  shows "\<forall>x \<in> set (takeWhile (\<lambda>x. f x < n) xs). f x < n"
    "dropWhile (\<lambda>x. f x < n) xs \<noteq> [] \<Longrightarrow> \<forall>x \<in> set (tl (dropWhile (\<lambda>x. f x < n) xs)). f (hd (dropWhile (\<lambda>x. f x < n) xs)) < f x"
    "dropWhile (\<lambda>x. f x < n) xs \<noteq> [] \<Longrightarrow> n \<le> f (hd (dropWhile (\<lambda>x. f x < n) xs))"
proof -
  show "\<forall>x \<in> set (takeWhile (\<lambda>x. f x < n) xs). f x < n" by (auto dest: set_takeWhileD)
  have "sorted_wrt (<) (map f (takeWhile (\<lambda>x. f x < n) xs @ dropWhile (\<lambda>x. f x < n) xs))" using assms by simp
  then have d: "sorted_wrt (<) (map f (dropWhile (\<lambda>x. f x < n) xs))" by (simp only: map_append sorted_wrt_append)
  assume "dropWhile (\<lambda>x. f x < n) xs \<noteq> []"
  then show "\<forall>x \<in> set (tl (dropWhile (\<lambda>x. f x < n) xs)). f (hd (dropWhile (\<lambda>x. f x < n) xs)) < f x"
    using d by (cases "dropWhile (\<lambda>x. f x < n) xs") auto
  from \<open>dropWhile (\<lambda>x. f x < n) xs \<noteq> []\<close> show "n \<le> f (hd (dropWhile (\<lambda>x. f x < n) xs))"
    using hd_dropWhile [of "\<lambda>x. f x < n" xs] by auto
qed

text \<open>A set that contains the signal keeps its registration, one that does not gets a place for it.\<close>

lemma sorted_signals_insert:
  fixes f :: "'a \<Rightarrow> int"
  assumes "sorted_wrt (<) (map f xs)"
    and "dropWhile (\<lambda>x. f x < n) xs = [] \<or> f (hd (dropWhile (\<lambda>x. f x < n) xs)) \<noteq> n"
  shows "\<forall>x \<in> set (dropWhile (\<lambda>x. f x < n) xs). n < f x"
proof (cases "dropWhile (\<lambda>x. f x < n) xs")
  case (Cons y ys)
  with assms(2) sorted_signals_split(3) [OF assms(1), of n] have "n < f y" by auto
  moreover have "\<forall>x \<in> set ys. f y < f x" using sorted_signals_split(2) [OF assms(1), of n] Cons by simp
  ultimately show ?thesis using Cons by auto
next
  case Nil
  then show ?thesis by (simp only:) simp
qed

lemma sg_add_new_ok:
  assumes ok: "sig_ok owner s" and n: "0 \<le> n" "n < max_signal_number"
    and split: "sg_signals (st_sets s p) = before @ next"
    and less: "\<forall>r \<in> set before. rg_signal_number (st_regs s r) < n" "\<forall>r \<in> set next. n < rg_signal_number (st_regs s r)"
  defines "r \<equiv> st_fresh s"
  defines "s' \<equiv> set_signals p (before @ r # next) (s\<lparr>st_fresh := r + 1, st_handler := (st_handler s)(n := True),
      st_regs := (st_regs s)(r := \<lparr> rg_signal_number = n, rg_queue = p, rg_undelivered = 0 \<rparr>),
      st_registrations := (st_registrations s)(owner p := (st_registrations s (owner p))(n := r # st_registrations s (owner p) n)),
      st_registration_count := (st_registration_count s)(n := st_registration_count s n + 1)\<rparr>)"
  shows "sig_ok owner s'"
proof -
  have new: "r \<notin> set (sg_signals (st_sets s q))" for q using sig_okD(1) [OF ok] r_def by blast
  have old: "x \<in> set (sg_signals (st_sets s q)) \<Longrightarrow> x \<noteq> r" for x q using new by blast
  have signals: "sg_signals (st_sets s' q) = (if q = p then before @ r # next else sg_signals (st_sets s q))" for q
    by (simp add: s'_def set_signals_def)
  have live: "live s' m = (if m = n then insert r (live s n) else live s m)" for m
    using new split unfolding live_def s'_def set_signals_def by auto
  have not_live: "r \<notin> live s m" for m unfolding live_def using new by simp
  have regs: "st_regs s' x = (if x = r then \<lparr> rg_signal_number = n, rg_queue = p, rg_undelivered = 0 \<rparr> else st_regs s x)" for x
    by (simp add: s'_def set_signals_def)
  have fresh: "st_fresh s' = r + 1" by (simp add: s'_def set_signals_def)
  have sets: "set_ok s' q" for q
  proof -
    have q: "set_ok s q" using ok by (simp add: sig_ok_def)
    have same: "st_regs s' x = st_regs s x" if "x \<in> set (sg_signals (st_sets s q))" for x
      using old [OF that] by (simp add: regs)
    then have keys: "set xs \<subseteq> set (sg_signals (st_sets s q)) \<Longrightarrow>
        map (\<lambda>x. rg_signal_number (st_regs s' x)) xs = map (\<lambda>x. rg_signal_number (st_regs s x)) xs" for xs by auto
    show ?thesis
    proof (cases "q = p")
      case True
      have "sorted_wrt (<) (map (\<lambda>x. rg_signal_number (st_regs s' x)) (before @ r # next))"
      proof -
        have "map (\<lambda>x. rg_signal_number (st_regs s' x)) before = map (\<lambda>x. rg_signal_number (st_regs s x)) before"
          "map (\<lambda>x. rg_signal_number (st_regs s' x)) next = map (\<lambda>x. rg_signal_number (st_regs s x)) next"
          using True split by (intro keys; simp)+
        moreover have "rg_signal_number (st_regs s' r) = n" by (simp add: regs)
        moreover have "sorted_wrt (<) (map (\<lambda>x. rg_signal_number (st_regs s x)) (before @ next))"
          using q True split by (simp add: set_ok_def)
        ultimately show ?thesis using less by (simp add: sorted_wrt_append del: map_eq_conv)
      qed
      moreover have "\<forall>x \<in> set (before @ r # next). x < r + 1 \<and> rg_queue (st_regs s' x) = p \<and>
          0 \<le> rg_signal_number (st_regs s' x) \<and> rg_signal_number (st_regs s' x) < max_signal_number"
        using q True split n by (auto simp: set_ok_def regs r_def intro: less_SucI)
      ultimately show ?thesis using True by (simp add: set_ok_def signals fresh)
    next
      case False
      have "\<forall>x \<in> set (sg_signals (st_sets s q)). x < r + 1" using q by (auto simp: set_ok_def r_def intro: less_SucI)
      with False q same keys [OF subset_refl] show ?thesis by (simp add: set_ok_def signals fresh del: map_eq_conv)
    qed
  qed
  have table: "distinct (st_registrations s' svc m) \<and>
      set (st_registrations s' svc m) = {x \<in> live s' m. owner (rg_queue (st_regs s' x)) = svc}" for svc m
  proof -
    have t: "distinct (st_registrations s svc m) \<and>
        set (st_registrations s svc m) = {x \<in> live s m. owner (rg_queue (st_regs s x)) = svc}"
      using ok by (simp add: sig_ok_def)
    have "st_registrations s' svc m =
        (if svc = owner p \<and> m = n then r # st_registrations s svc m else st_registrations s svc m)"
      by (simp add: s'_def set_signals_def)
    moreover have "rg_queue (st_regs s' x) = (if x = r then p else rg_queue (st_regs s x))" for x
      by (simp add: s'_def set_signals_def)
    ultimately show ?thesis using t not_live by (auto simp: live)
  qed
  have "st_registration_count s' m = card (live s' m)" for m
    using ok live_finite [OF ok] not_live by (simp add: live sig_ok_def) (simp add: s'_def set_signals_def)
  moreover have "st_handler s' m \<longleftrightarrow> st_registration_count s' m > 0" for m
    using ok by (simp add: s'_def set_signals_def sig_ok_def)
  moreover have "distinct (st_service_list s')" using ok by (simp add: s'_def set_signals_def sig_ok_def)
  ultimately show ?thesis using sets table unfolding sig_ok_def by blast
qed

lemma sg_add_ok:
  assumes ok: "sig_ok owner s"
  shows "sig_ok owner (snd (sg_add sa (owner p) p n s))"
proof -
  let ?f = "\<lambda>r. rg_signal_number (st_regs s r)"
  have sorted: "sorted_wrt (<) (map ?f (sg_signals (st_sets s p)))" using ok by (simp add: sig_ok_def set_ok_def)
  let ?next = "dropWhile (\<lambda>r. ?f r < n) (sg_signals (st_sets s p))"
  show ?thesis
  proof (cases "n < 0 \<or> n \<ge> max_signal_number \<or> \<not> (?next = [] \<or> ?f (hd ?next) \<noteq> n) \<or>
      (if st_registration_count s n = 0 then sa n else None) \<noteq> None")
    case True
    then have "snd (sg_add sa (owner p) p n s) = s" by (auto simp: sg_add_def Let_def split: option.splits)
    with ok show ?thesis by simp
  next
    case False
    then have "sig_ok owner (set_signals p (takeWhile (\<lambda>r. ?f r < n) (sg_signals (st_sets s p)) @ st_fresh s # ?next)
      (s\<lparr>st_fresh := st_fresh s + 1, st_handler := (st_handler s)(n := True),
      st_regs := (st_regs s)(st_fresh s := \<lparr> rg_signal_number = n, rg_queue = p, rg_undelivered = 0 \<rparr>),
      st_registrations := (st_registrations s)(owner p := (st_registrations s (owner p))(n := st_fresh s # st_registrations s (owner p) n)),
      st_registration_count := (st_registration_count s)(n := st_registration_count s n + 1)\<rparr>))"
      using sorted_signals_split(1) [OF sorted, of n] sorted_signals_insert [OF sorted, of n]
      by (intro sg_add_new_ok [OF ok]) auto
    moreover from False have "(case if st_registration_count s n = 0 then sa n else None of
        Some errno \<Rightarrow> x errno | None \<Rightarrow> y) = y" for x and y :: "error_code \<times> signal_state" by auto
    ultimately show ?thesis using False by (simp add: sg_add_def Let_def del: fun_upd_apply)
  qed
qed

lemma drop_registration_ok:
  assumes ok: "sig_ok owner s" and split: "sg_signals (st_sets s p) = before @ r # after"
  shows "sig_ok owner (drop_registration (owner p) r (set_signals p (before @ after) s))"
proof -
  define s' where "s' = drop_registration (owner p) r (set_signals p (before @ after) s)"
  define n where "n = rg_signal_number (st_regs s r)"
  have r: "r \<in> live s n" "rg_queue (st_regs s r) = p" using sig_okD [OF ok, of r p] split n_def by simp_all
  have d: "r \<notin> set before" "r \<notin> set after" using signals_distinct [OF ok, of p] split by auto
  have fields: "st_regs s' = st_regs s" "st_fresh s' = st_fresh s" "st_service_list s' = st_service_list s"
    "st_registration_count s' = (st_registration_count s)(n := st_registration_count s n - 1)"
    "st_handler s' = (st_handler s)(n := (if st_registration_count s n = 1 then False else st_handler s n))"
    "st_registrations s' = (st_registrations s)(owner p := (st_registrations s (owner p))(n := remove1 r (st_registrations s (owner p) n)))"
    by (simp_all add: s'_def drop_registration_def set_signals_def n_def Let_def)
  have signals: "sg_signals (st_sets s' q) = (if q = p then before @ after else sg_signals (st_sets s q))" for q
    by (simp add: s'_def drop_registration_def set_signals_def Let_def)
  have live: "live s' m = live s m - {r}" for m
  proof -
    have "set (before @ after) = set (sg_signals (st_sets s p)) - {r}" using d split by auto
    then have "x \<in> live s' m \<longleftrightarrow> x \<in> live s m - {r}" for x
      using r(2) by (cases "rg_queue (st_regs s x) = p") (auto simp: live_def signals fields(1))
    then show ?thesis by blast
  qed
  have "set_ok s' q" for q
  proof (cases "q = p")
    case True
    have "set_ok s p" using ok by (simp add: sig_ok_def)
    with True show ?thesis by (simp add: set_ok_def signals fields(1,2) split sorted_wrt_append)
  next
    case False
    have "set_ok s q" using ok by (simp add: sig_ok_def)
    with False show ?thesis by (simp add: set_ok_def signals fields(1,2))
  qed
  moreover have "distinct (st_registrations s' svc m) \<and>
      set (st_registrations s' svc m) = {x \<in> live s' m. owner (rg_queue (st_regs s' x)) = svc}" for svc m
  proof -
    let ?T = "{x \<in> live s m. owner (rg_queue (st_regs s x)) = svc}"
    have old: "distinct (st_registrations s svc m)" "set (st_registrations s svc m) = ?T"
      using ok by (simp_all add: sig_ok_def)
    have new: "{x \<in> live s' m. owner (rg_queue (st_regs s' x)) = svc} = ?T - {r}"
      unfolding live fields(1) by blast
    show ?thesis
    proof (cases "svc = owner p \<and> m = n")
      case True
      with old show ?thesis unfolding new by (simp add: fields(6))
    next
      case False
      then have "r \<notin> ?T" using r by (auto simp: live_def)
      moreover from False have "st_registrations s' svc m = st_registrations s svc m" by (simp add: fields(6))
      ultimately show ?thesis using old unfolding new by simp
    qed
  qed
  moreover have card: "st_registration_count s' m = card (live s' m)" for m
  proof -
    have "m \<noteq> n \<Longrightarrow> live s m - {r} = live s m" using r by (auto simp: live_def)
    with ok r live_finite [OF ok, of n] show ?thesis by (auto simp: fields(4) live sig_ok_def)
  qed
  moreover have "st_handler s' m \<longleftrightarrow> st_registration_count s' m > 0" for m
  proof -
    have "st_registration_count s n > 0" using ok r live_finite [OF ok, of n] by (auto simp: sig_ok_def card_gt_0_iff)
    with ok show ?thesis by (auto simp: fields(4,5) sig_ok_def)
  qed
  moreover have "distinct (st_service_list s')" using ok by (simp add: fields(3) sig_ok_def)
  ultimately show ?thesis unfolding sig_ok_def s'_def [symmetric] by blast
qed

lemma sg_remove_ok:
  assumes "sig_ok owner s"
  shows "sig_ok owner (snd (sg_remove sa (owner p) p n s))"
proof -
  have "sig_ok owner (drop_registration (owner p) r
      (set_signals p (takeWhile (\<lambda>r. rg_signal_number (st_regs s r) < n) (sg_signals (st_sets s p)) @ after) s))"
    if "dropWhile (\<lambda>r. rg_signal_number (st_regs s r) < n) (sg_signals (st_sets s p)) = r # after" for r after
    using that by (intro drop_registration_ok [OF assms]) (metis takeWhile_dropWhile_id)
  then show ?thesis using assms by (auto simp: sg_remove_def Let_def split: list.splits option.splits)
qed

lemma clear_loop_ok:
  "sig_ok owner s \<Longrightarrow> sg_signals (st_sets s p) = rs \<Longrightarrow> sig_ok owner (snd (clear_loop sa (owner p) p rs s))"
proof (induction rs arbitrary: s)
  case (Cons r rest)
  have "sig_ok owner (drop_registration (owner p) r (set_signals p rest s))"
    using drop_registration_ok [OF Cons.prems(1), of p "[]" r rest] Cons.prems(2) by simp
  moreover have "sg_signals (st_sets (drop_registration (owner p) r (set_signals p rest s)) p) = rest"
    by (simp add: drop_registration_def set_signals_def Let_def)
  ultimately have "sig_ok owner (snd (clear_loop sa (owner p) p rest (drop_registration (owner p) r (set_signals p rest s))))"
    by (rule Cons.IH)
  with Cons.prems(1) show ?case by (simp add: Let_def split: option.split)
qed simp

section \<open>Waiting and delivery\<close>

lemma same_regs_simps:
  "same_regs s (set_queue p ops s')  \<longleftrightarrow> same_regs s s'" "same_regs s (set_undelivered r k s') \<longleftrightarrow> same_regs s s'"
  "same_regs s (post_ops svc ops s') \<longleftrightarrow> same_regs s s'" "same_regs s (deliver_to n ops s') \<longleftrightarrow> same_regs s s'"
  "same_regs s (s'\<lparr>st_work := w\<rparr>) \<longleftrightarrow> same_regs s s'" "same_regs s (s'\<lparr>st_ops := o'\<rparr>) \<longleftrightarrow> same_regs s s'"
  "same_regs s (s'\<lparr>st_pipe := pipe\<rparr>) \<longleftrightarrow> same_regs s s'" "same_regs s (s'\<lparr>st_service_list := l\<rparr>) \<longleftrightarrow> same_regs s s'"
  "same_regs s (s'\<lparr>st_watching := x\<rparr>) \<longleftrightarrow> same_regs s s'" "same_regs s (s'\<lparr>st_fork_prepared := b\<rparr>) \<longleftrightarrow> same_regs s s'"
  "same_regs s (s'\<lparr>st_read_descriptor := i\<rparr>) \<longleftrightarrow> same_regs s s'" "same_regs s (s'\<lparr>st_write_descriptor := i\<rparr>) \<longleftrightarrow> same_regs s s'"
  by (auto simp: same_regs_def sig_defs)

lemma services_simps:
  "st_service_list (set_queue p ops s) = st_service_list s" "st_service_list (set_undelivered r k s) = st_service_list s"
  "st_service_list (post_ops svc ops s) = st_service_list s" "st_service_list (deliver_to n ops s) = st_service_list s"
  by (simp_all add: sig_defs)

text \<open>What one pass over the registrations of a service does, when no two of them belong to the same set.\<close>

definition delivered :: "int \<Rightarrow> nat list \<Rightarrow> signal_state \<Rightarrow> signal_state" where
  "delivered n rs s =
     (let q = (\<lambda>r. rg_queue (st_regs s r)) in
      s\<lparr>st_sets := (\<lambda>p. if p \<in> q ` set rs then (st_sets s p)\<lparr>sg_queue := []\<rparr> else st_sets s p),
        st_regs := (\<lambda>r. if r \<in> set rs \<and> sg_queue (st_sets s (q r)) = []
                        then (st_regs s r)\<lparr>rg_undelivered := rg_undelivered (st_regs s r) + 1\<rparr> else st_regs s r),
        st_ops := (\<lambda>op. if \<exists>r \<in> set rs. op \<in> set (sg_queue (st_sets s (q r)))
                        then (st_ops s op)\<lparr>sp_signal_number := n\<rparr> else st_ops s op)\<rparr>)"

lemma deliver_regs_eq:
  "distinct rs \<Longrightarrow> inj_on (\<lambda>r. rg_queue (st_regs s r)) (set rs) \<Longrightarrow>
   deliver_regs n rs s ops = (delivered n rs s, ops @ concat (map (\<lambda>r. sg_queue (st_sets s (rg_queue (st_regs s r)))) rs))"
proof (induction rs arbitrary: s ops)
  case Nil
  then show ?case by (simp add: delivered_def)
next
  case (Cons r rest)
  let ?q = "\<lambda>r. rg_queue (st_regs s r)"
  let ?queue = "\<lambda>r. sg_queue (st_sets s (?q r))"
  from Cons.prems have other: "x \<in> set rest \<Longrightarrow> ?q x \<noteq> ?q r" for x by (auto simp: inj_on_def)
  from Cons.prems have rest: "distinct rest" "inj_on ?q (set rest)" "r \<notin> set rest" by auto
  show ?case
  proof (cases "?queue r = []")
    case True
    let ?s = "set_undelivered r (rg_undelivered (st_regs s r) + 1) s"
    have q: "rg_queue (st_regs ?s x) = ?q x" "st_sets ?s = st_sets s" for x by (simp_all add: sig_defs)
    have "delivered n rest ?s = delivered n (r # rest) s"
      unfolding delivered_def Let_def q using True rest(3)
      by (auto simp: sig_defs intro!: signal_state.equality ext)
    with True Cons.IH [of ?s ops] rest q show ?thesis by (simp add: Let_def)
  next
    case False
    let ?s = "deliver_to n (?queue r) (set_queue (?q r) [] s)"
    have q: "st_regs ?s = st_regs s" by (simp add: sig_defs)
    have s: "x \<in> set rest \<Longrightarrow> sg_queue (st_sets ?s (?q x)) = ?queue x" for x using other [of x] by (simp add: sig_defs)
    have "delivered n rest ?s = delivered n (r # rest) s"
      unfolding delivered_def Let_def q using False rest(3) s other
      by (auto simp: sig_defs intro!: signal_state.equality ext)
    moreover have "map (\<lambda>r. sg_queue (st_sets ?s (rg_queue (st_regs ?s r)))) rest = map ?queue rest"
      using s by (simp add: q)
    ultimately show ?thesis using False Cons.IH [of ?s "ops @ ?queue r"] rest q by (simp add: Let_def del: map_eq_conv)
  qed
qed

lemma deliver_regs_same: "same_regs s t \<Longrightarrow> same_regs s (fst (deliver_regs n rs t ops))"
  by (induction n rs t ops rule: deliver_regs.induct) (simp_all add: Let_def same_regs_simps)

lemma deliver_regs_services: "st_service_list (fst (deliver_regs n rs t ops)) = st_service_list t"
  by (induction n rs t ops rule: deliver_regs.induct) (simp_all add: Let_def services_simps)

lemma deliver_service_same: "same_regs s t \<Longrightarrow> same_regs s (deliver_service n svc t)"
  using deliver_regs_same [of s t n "st_registrations t svc n" "[]"]
  by (cases "deliver_regs n (st_registrations t svc n) t []") (simp add: deliver_service_def same_regs_simps)

lemma deliver_service_services: "st_service_list (deliver_service n svc s) = st_service_list s"
  using deliver_regs_services [of n "st_registrations s svc n" s "[]"]
  by (cases "deliver_regs n (st_registrations s svc n) s []") (simp add: deliver_service_def services_simps)

lemma deliver_fold_same:
  "same_regs s (fold (deliver_service n) svcs s) \<and> st_service_list (fold (deliver_service n) svcs s) = st_service_list s"
proof -
  have "same_regs s t \<Longrightarrow> same_regs s (fold (deliver_service n) svcs t) \<and>
      st_service_list (fold (deliver_service n) svcs t) = st_service_list t" for t
    by (induction svcs arbitrary: t) (simp_all add: deliver_service_same deliver_service_services)
  then show ?thesis by simp
qed

lemma deliver_signal_ok: "sig_ok owner s \<Longrightarrow> sig_ok owner (deliver_signal n s)"
  using deliver_fold_same [of s n "st_service_list s"]
  by - (rule same_regs_ok [of s], simp_all add: deliver_signal_def sig_ok_def)

lemma pipe_read_ok: "sig_ok owner s \<Longrightarrow> sig_ok owner (pipe_read s)"
proof -
  assume "sig_ok owner s"
  then have "sig_ok owner (s\<lparr>st_pipe := []\<rparr>)"
    by - (rule same_regs_ok [of s], simp_all add: same_regs_simps sig_ok_def)
  moreover have "sig_ok owner t \<Longrightarrow>
      sig_ok owner (fold (\<lambda>n s. if n \<ge> 0 \<and> n < max_signal_number then deliver_signal n s else s) ns t)" for ns t
    by (induction ns arbitrary: t) (simp_all add: deliver_signal_ok)
  ultimately show ?thesis by (simp add: pipe_read_def)
qed

lemma wait_loop_same: "same_regs s t \<Longrightarrow>
  same_regs s (wait_loop svc p op rs t) \<and> st_service_list (wait_loop svc p op rs t) = st_service_list t"
  by (induction svc p op rs t rule: wait_loop.induct) (simp_all add: same_regs_simps services_simps)

lemma start_wait_op_ok: "sig_ok owner s \<Longrightarrow> sig_ok owner (start_wait_op svc p op s)"
  using wait_loop_same [of s "s\<lparr>st_work := (st_work s)(svc := st_work s svc + 1)\<rparr>" svc p op "sg_signals (st_sets s p)"]
  by - (rule same_regs_ok [of s], simp_all add: start_wait_op_def sig_ok_def same_regs_simps)

lemma sg_cancel_ok: "sig_ok owner s \<Longrightarrow> sig_ok owner (sg_cancel svc p s)"
  by - (rule same_regs_ok [of s], simp_all add: sg_cancel_def Let_def same_regs_simps services_simps sig_ok_def)

lemma sg_clear_ok: "sig_ok owner s \<Longrightarrow> sig_ok owner (snd (sg_clear sa (owner p) p s))"
  by (simp add: sg_clear_def clear_loop_ok)

section \<open>Services come and go\<close>

lemma take_queues_same: "same_regs s t \<Longrightarrow>
  same_regs s (fst (take_queues rs t ops)) \<and> st_service_list (fst (take_queues rs t ops)) = st_service_list t"
  by (induction rs t ops rule: take_queues.induct) (simp_all add: Let_def same_regs_simps services_simps)

lemma close_descriptors_simps:
  "same_regs s (close_descriptors s') \<longleftrightarrow> same_regs s s'" "st_service_list (close_descriptors s') = st_service_list s'"
  by (simp_all add: close_descriptors_def same_regs_simps)

lemma open_descriptors_same:
  "same_regs s (snd (open_descriptors pipe s')) \<longleftrightarrow> same_regs s s'"
  "st_service_list (snd (open_descriptors pipe s')) = st_service_list s'"
  by (simp_all add: open_descriptors_def same_regs_simps split: sum.split)

lemma remove_service_same:
  "same_regs s (remove_service svc s)" "st_service_list (remove_service svc s) = remove1 svc (st_service_list s)"
  by (auto simp: remove_service_def Let_def same_regs_simps close_descriptors_simps remove1_idem)

lemma sg_shutdown_ok: "sig_ok owner s \<Longrightarrow> sig_ok owner (fst (sg_shutdown svc s))"
proof -
  assume ok: "sig_ok owner s"
  have "same_regs s t \<Longrightarrow> same_regs s (fst (fold (\<lambda>n (s, ops). take_queues (st_registrations s svc n) s ops) ns (t, ops))) \<and>
      st_service_list (fst (fold (\<lambda>n (s, ops). take_queues (st_registrations s svc n) s ops) ns (t, ops))) = st_service_list t"
    for ns t ops
  proof (induction ns arbitrary: t ops)
    case (Cons n ns)
    with take_queues_same [of s t "st_registrations t svc n" ops] show ?case
      by (cases "take_queues (st_registrations t svc n) t ops") simp
  qed simp
  from this [OF remove_service_same(1)] ok show ?thesis
    by - (rule same_regs_ok [of s], simp_all add: sg_shutdown_def remove_service_same sig_ok_def)
qed

lemma sg_notify_fork_ok: "sig_ok owner s \<Longrightarrow> sig_ok owner (snd (sg_notify_fork pipe svc ev s))"
proof (rule same_regs_ok [of s])
  assume ok: "sig_ok owner s"
  obtain ec t where opened: "open_descriptors pipe (close_descriptors s) = (ec, t)" by fastforce
  with open_descriptors_same(1) [of s pipe "close_descriptors s"] open_descriptors_same(2) [of pipe "close_descriptors s"]
  have t: "same_regs s t" "st_service_list t = st_service_list s" by (simp_all add: close_descriptors_simps)
  show "same_regs s (snd (sg_notify_fork pipe svc ev s))"
    using t(1) by (cases ev) (simp_all add: sg_notify_fork_def opened same_regs_simps)
  show "distinct (st_service_list (snd (sg_notify_fork pipe svc ev s)))"
    using ok t(2) by (cases ev) (simp_all add: sg_notify_fork_def opened sig_ok_def)
qed

lemma sg_service_ctor_ok:
  assumes ok: "sig_ok owner s" and new: "svc \<notin> set (st_service_list s)" "\<forall>p. owner p = svc \<longrightarrow> sg_signals (st_sets s p) = []"
  shows "sig_ok owner (snd (sg_service_ctor pipe is_locking svc s))"
proof (rule same_regs_ok [of s])
  have "st_registrations s svc n = []" for n
  proof -
    have "set (st_registrations s svc n) = {r \<in> live s n. owner (rg_queue (st_regs s r)) = svc}"
      using ok by (simp add: sig_ok_def)
    moreover have "{r \<in> live s n. owner (rg_queue (st_regs s r)) = svc} = {}" using new(2) by (auto simp: live_def)
    ultimately show ?thesis by simp
  qed
  then have "st_registrations s svc = (\<lambda>_. [])" by (rule ext)
  then have "(st_registrations s)(svc := (\<lambda>_. [])) = st_registrations s" by (simp add: fun_upd_idem_iff)
  then have eq: "sg_service_ctor pipe is_locking svc s = add_service pipe is_locking svc s" by (simp add: sg_service_ctor_def)
  obtain ec t where opened: "(if st_service_list s = [] then open_descriptors pipe s else (None, s)) = (ec, t)" by fastforce
  then have t: "same_regs s t" "st_service_list t = st_service_list s"
    using open_descriptors_same(1) [of s pipe s] open_descriptors_same(2) [of pipe s] by (auto split: if_splits)
  show "same_regs s (snd (sg_service_ctor pipe is_locking svc s))"
    using t(1) unfolding eq add_service_def opened by (simp add: same_regs_simps)
  show "distinct (st_service_list (snd (sg_service_ctor pipe is_locking svc s)))"
    using t(2) ok new(1) unfolding eq add_service_def opened by (auto simp: sig_ok_def)
qed (rule ok)

section \<open>The program\<close>

text \<open>The calls that a program and its signals can make; \<open>owner\<close> is the service of each set. A new service has no sets
  yet, and a new set neither signals nor operations.\<close>

definition initial_signal_state :: signal_state where
  "initial_signal_state =
     \<lparr> st_read_descriptor = - 1, st_write_descriptor = - 1, st_pipe = [], st_fork_prepared = False, st_service_list = [],
       st_registration_count = (\<lambda>_. 0), st_registrations = (\<lambda>_ _. []),
       st_regs = (\<lambda>_. \<lparr> rg_signal_number = 0, rg_queue = 0, rg_undelivered = 0 \<rparr>), st_fresh = 0,
       st_sets = (\<lambda>_. \<lparr> sg_queue = [], sg_signals = [] \<rparr>),
       st_ops = (\<lambda>_. \<lparr> sp_signal_number = 0, sp_ec = None \<rparr>), st_posted = (\<lambda>_. []), st_work = (\<lambda>_. 0),
       st_watching = (\<lambda>_. False), st_handler = (\<lambda>_. False) \<rparr>"

inductive sig_steps :: "(nat \<Rightarrow> nat) \<Rightarrow> signal_state \<Rightarrow> bool" for owner where
  ss_init: "sig_steps owner initial_signal_state"
| ss_service: "sig_steps owner s \<Longrightarrow> svc \<notin> set (st_service_list s) \<Longrightarrow>
    \<forall>p. owner p = svc \<longrightarrow> sg_signals (st_sets s p) = [] \<Longrightarrow>
    sig_steps owner (snd (sg_service_ctor pipe is_locking svc s))"
| ss_shutdown: "sig_steps owner s \<Longrightarrow> sig_steps owner (fst (sg_shutdown svc s))"
| ss_fork: "sig_steps owner s \<Longrightarrow> sig_steps owner (snd (sg_notify_fork pipe svc ev s))"
| ss_construct: "sig_steps owner s \<Longrightarrow> sg_signals (st_sets s p) = [] \<Longrightarrow> sig_steps owner (sg_construct p s)"
| ss_destroy: "sig_steps owner s \<Longrightarrow> sig_steps owner (sg_destroy sa (owner p) p s)"
| ss_add: "sig_steps owner s \<Longrightarrow> sig_steps owner (snd (sg_add sa (owner p) p n s))"
| ss_remove: "sig_steps owner s \<Longrightarrow> sig_steps owner (snd (sg_remove sa (owner p) p n s))"
| ss_clear: "sig_steps owner s \<Longrightarrow> sig_steps owner (snd (sg_clear sa (owner p) p s))"
| ss_cancel: "sig_steps owner s \<Longrightarrow> sig_steps owner (sg_cancel (owner p) p s)"
| ss_wait: "sig_steps owner s \<Longrightarrow> sig_steps owner (start_wait_op (owner p) p op s)"
| ss_signal: "sig_steps owner s \<Longrightarrow> sig_steps owner (asio_signal_handler capacity n s)"
| ss_read: "sig_steps owner s \<Longrightarrow> sig_steps owner (pipe_read s)"

lemma initial_sig_ok: "sig_ok owner initial_signal_state"
  by (simp add: sig_ok_def set_ok_def live_def initial_signal_state_def)

lemma sg_construct_ok: "sig_ok owner s \<Longrightarrow> sg_signals (st_sets s p) = [] \<Longrightarrow> sig_ok owner (sg_construct p s)"
  by - (rule same_regs_ok [of s], auto simp: sg_construct_def set_signals_def same_regs_def sig_ok_def)

lemma asio_signal_handler_ok: "sig_ok owner s \<Longrightarrow> sig_ok owner (asio_signal_handler capacity n s)"
  by - (rule same_regs_ok [of s], auto simp: asio_signal_handler_def same_regs_simps sig_ok_def)

lemma sig_steps_ok: "sig_steps owner s \<Longrightarrow> sig_ok owner s"
  by (induction rule: sig_steps.induct)
    (simp_all add: initial_sig_ok sg_service_ctor_ok sg_shutdown_ok sg_notify_fork_ok sg_construct_ok sg_destroy_def
       sg_add_ok sg_remove_ok sg_clear_ok sg_cancel_ok start_wait_op_ok asio_signal_handler_ok pipe_read_ok)

section \<open>What a delivery does\<close>

definition signals_of :: "signal_state \<Rightarrow> nat \<Rightarrow> int list" where
  "signals_of s p = map (\<lambda>r. rg_signal_number (st_regs s r)) (sg_signals (st_sets s p))"

definition queue_of :: "signal_state \<Rightarrow> nat \<Rightarrow> nat list" where
  "queue_of s r = sg_queue (st_sets s (rg_queue (st_regs s r)))"

lemma live_inj:
  assumes "sig_ok owner s"
  shows "inj_on (\<lambda>r. rg_queue (st_regs s r)) (live s n)"
proof (rule inj_onI)
  fix r r'
  assume r: "r \<in> live s n" "r' \<in> live s n" "rg_queue (st_regs s r) = rg_queue (st_regs s r')"
  let ?p = "rg_queue (st_regs s r)"
  have "distinct (map (\<lambda>r. rg_signal_number (st_regs s r)) (sg_signals (st_sets s ?p)))"
    using assms unfolding sig_ok_def set_ok_def by (meson strict_sorted_iff)
  then have "inj_on (\<lambda>r. rg_signal_number (st_regs s r)) (set (sg_signals (st_sets s ?p)))" by (simp add: distinct_map)
  with r show "r = r'" by (auto simp: live_def inj_on_def)
qed

lemma deliver_service_eq:
  assumes "sig_ok owner s"
  shows "deliver_service n svc s =
    post_ops svc (concat (map (queue_of s) (st_registrations s svc n))) (delivered n (st_registrations s svc n) s)"
proof -
  have "distinct (st_registrations s svc n)" "set (st_registrations s svc n) \<subseteq> live s n"
    using assms by (auto simp: sig_ok_def)
  moreover have "queue_of s = (\<lambda>r. sg_queue (st_sets s (rg_queue (st_regs s r))))" by (simp add: queue_of_def fun_eq_iff)
  ultimately show ?thesis
    using inj_on_subset [OF live_inj [OF assms]] by (simp add: deliver_service_def deliver_regs_eq)
qed

lemma deliver_service_ok: "sig_ok owner s \<Longrightarrow> sig_ok owner (deliver_service n svc s)"
  by (rule same_regs_ok [of s]) (simp_all add: deliver_service_same deliver_service_services sig_ok_def)

text \<open>A delivery to another service leaves a registration alone.\<close>

definition untouched :: "int \<Rightarrow> nat \<Rightarrow> nat \<Rightarrow> nat \<Rightarrow> signal_state \<Rightarrow> signal_state \<Rightarrow> bool" where
  "untouched n svc p r s s' \<longleftrightarrow> st_sets s' p = st_sets s p \<and> st_regs s' r = st_regs s r \<and> st_posted s' svc = st_posted s svc \<and>
     (\<forall>op. sp_signal_number (st_ops s op) = n \<longrightarrow> sp_signal_number (st_ops s' op) = n)"

lemma deliver_service_other:
  assumes ok: "sig_ok owner s" and r: "r \<in> live s n" "rg_queue (st_regs s r) = p" and svc: "svc \<noteq> owner p"
  shows "untouched n (owner p) p r s (deliver_service n svc s)"
proof -
  have t: "set (st_registrations s svc n) = {x \<in> live s n. owner (rg_queue (st_regs s x)) = svc}"
    using ok by (simp add: sig_ok_def)
  then have "r \<notin> set (st_registrations s svc n)" "p \<notin> (\<lambda>x. rg_queue (st_regs s x)) ` set (st_registrations s svc n)"
    using r svc by auto
  then show ?thesis
    using svc by (simp add: deliver_service_eq [OF ok] untouched_def delivered_def post_ops_def)
qed

lemma deliver_fold_other:
  assumes "sig_ok owner s" "r \<in> live s n" "rg_queue (st_regs s r) = p" "owner p \<notin> set svcs"
  shows "untouched n (owner p) p r s (fold (deliver_service n) svcs s)"
  using assms
proof (induction svcs arbitrary: s)
  case (Cons svc svcs)
  let ?s = "deliver_service n svc s"
  have same: "same_regs s ?s" by (simp add: deliver_service_same)
  have "untouched n (owner p) p r s ?s" using Cons.prems by (intro deliver_service_other) auto
  moreover have "untouched n (owner p) p r ?s (fold (deliver_service n) svcs ?s)"
    using Cons.prems same same_regs_live [OF same]
    by (intro Cons.IH) (auto simp: deliver_service_ok same_regs_def)
  ultimately show ?case by (simp add: untouched_def)
qed (simp add: untouched_def)

lemma deliver_signal_effect:
  assumes ok: "sig_ok owner s" and r: "r \<in> live s n" "rg_queue (st_regs s r) = p" and svc: "owner p \<in> set (st_service_list s)"
  defines "s' \<equiv> deliver_signal n s"
  shows "sg_queue (st_sets s' p) = []"
    and "\<forall>op \<in> set (sg_queue (st_sets s p)). sp_signal_number (st_ops s' op) = n"
    and "\<exists>before after. st_posted s' (owner p) = st_posted s (owner p) @ before @ sg_queue (st_sets s p) @ after"
    and "sg_queue (st_sets s p) = [] \<Longrightarrow> rg_undelivered (st_regs s' r) = rg_undelivered (st_regs s r) + 1"
proof -
  obtain A B where split: "st_service_list s = A @ owner p # B" using svc by (meson split_list)
  with ok have "owner p \<notin> set A" "owner p \<notin> set B" by (auto simp: sig_ok_def)
  define s1 where "s1 = fold (deliver_service n) A s"
  define s2 where "s2 = deliver_service n (owner p) s1"
  have s': "s' = fold (deliver_service n) B s2" by (simp add: s'_def deliver_signal_def split s1_def s2_def)
  have same1: "same_regs s s1" and services: "st_service_list s1 = st_service_list s"
    using deliver_fold_same [of s n A] by (simp_all add: s1_def)
  have ok1: "sig_ok owner s1"
    using ok services by (intro same_regs_ok [OF same1 _ ok]) (simp add: sig_ok_def)
  have r1: "r \<in> live s1 n" "rg_queue (st_regs s1 r) = p"
    using r same1 same_regs_live [OF same1] by (simp_all add: same_regs_def)
  have u1: "untouched n (owner p) p r s s1"
    unfolding s1_def using ok r \<open>owner p \<notin> set A\<close> by (intro deliver_fold_other)
  have same2: "same_regs s1 s2" by (simp add: s2_def deliver_service_same)
  have ok2: "sig_ok owner s2" by (simp add: s2_def deliver_service_ok ok1)
  have r2: "r \<in> live s2 n" "rg_queue (st_regs s2 r) = p"
    using r1 same2 same_regs_live [OF same2] by (simp_all add: same_regs_def)
  have u2: "untouched n (owner p) p r s2 s'"
    unfolding s' using ok2 r2 \<open>owner p \<notin> set B\<close> by (intro deliver_fold_other)
  let ?rs = "st_registrations s1 (owner p) n"
  have "r \<in> set ?rs" using ok1 r1 by (simp add: sig_ok_def)
  then obtain C D where rs: "?rs = C @ r # D" by (meson split_list)
  have p: "p \<in> (\<lambda>x. rg_queue (st_regs s1 x)) ` set ?rs" using \<open>r \<in> set ?rs\<close> r1(2) by force
  have s2: "s2 = post_ops (owner p) (concat (map (queue_of s1) ?rs)) (delivered n ?rs s1)"
    unfolding s2_def by (rule deliver_service_eq [OF ok1])
  have q: "queue_of s1 r = sg_queue (st_sets s p)" using u1 r1(2) by (simp add: queue_of_def untouched_def)
  show "sg_queue (st_sets s' p) = []"
    using u2 p by (simp add: untouched_def s2 post_ops_def delivered_def)
  show "\<forall>op \<in> set (sg_queue (st_sets s p)). sp_signal_number (st_ops s' op) = n"
  proof
    fix op assume "op \<in> set (sg_queue (st_sets s p))"
    then have "\<exists>x \<in> set ?rs. op \<in> set (sg_queue (st_sets s1 (rg_queue (st_regs s1 x))))"
      using \<open>r \<in> set ?rs\<close> q by (intro bexI [of _ r]) (simp_all add: queue_of_def)
    then have "sp_signal_number (st_ops s2 op) = n" by (simp add: s2 post_ops_def delivered_def)
    with u2 show "sp_signal_number (st_ops s' op) = n" by (simp add: untouched_def)
  qed
  have "st_posted s' (owner p) = st_posted s (owner p) @
      concat (map (queue_of s1) C) @ sg_queue (st_sets s p) @ concat (map (queue_of s1) D)"
    using u1 u2 by (simp add: untouched_def s2 post_ops_def rs q delivered_def)
  then show "\<exists>before after. st_posted s' (owner p) = st_posted s (owner p) @ before @ sg_queue (st_sets s p) @ after" by blast
  show "rg_undelivered (st_regs s' r) = rg_undelivered (st_regs s r) + 1" if "sg_queue (st_sets s p) = []"
    using u1 u2 that \<open>r \<in> set ?rs\<close> r1(2) by (simp add: untouched_def s2 post_ops_def delivered_def)
qed

text \<open>A wait does not wait when a registration of the set has a signal that was not delivered.\<close>

lemma wait_loop_undelivered:
  assumes "\<exists>r \<in> set rs. rg_undelivered (st_regs s r) > 0"
  shows "st_posted (wait_loop svc p op rs s) svc = st_posted s svc @ [op] \<and>
    (\<exists>r \<in> set rs. sp_signal_number (st_ops (wait_loop svc p op rs s) op) = rg_signal_number (st_regs s r) \<and>
       rg_undelivered (st_regs s r) > 0)"
  using assms by (induction svc p op rs s rule: wait_loop.induct) (auto simp: sig_defs)

section \<open>Properties of signal sets\<close>

text \<open>C11: The registrations of signals are consistent after every sequence of calls and signals, whatever the system answers:
  each set holds valid signals in ascending order and none twice; the process counts, for every signal, the sets that
  hold it, and has its handler installed exactly while that count is positive; and the table of a service lists, once
  each, the registrations of its own sets. Hence a set that removes a signal never takes it from another set.\<close>

theorem signal_registrations_consistent:
  assumes "sig_steps owner s"
  shows "sorted_wrt (<) (signals_of s p) \<and> set (signals_of s p) \<subseteq> {0..<max_signal_number} \<and>
    st_registration_count s n = card {p. n \<in> set (signals_of s p)} \<and>
    (st_handler s n \<longleftrightarrow> (\<exists>p. n \<in> set (signals_of s p))) \<and>
    distinct (map (\<lambda>r. rg_queue (st_regs s r)) (st_registrations s svc n)) \<and>
    (\<lambda>r. rg_queue (st_regs s r)) ` set (st_registrations s svc n) = {p. n \<in> set (signals_of s p) \<and> owner p = svc}"
proof (intro conjI)
  have ok: "sig_ok owner s" by (rule sig_steps_ok [OF assms])
  have set: "set_ok s p" using ok by (simp add: sig_ok_def)
  then show "sorted_wrt (<) (signals_of s p)" "set (signals_of s p) \<subseteq> {0..<max_signal_number}"
    unfolding set_ok_def signals_of_def by auto
  have "p \<in> (\<lambda>r. rg_queue (st_regs s r)) ` live s n \<longleftrightarrow> n \<in> set (signals_of s p)" for p n
    unfolding live_def signals_of_def image_iff set_map using sig_okD(2) [OF ok, of _ p] by blast
  then have sets: "(\<lambda>r. rg_queue (st_regs s r)) ` live s n = {p. n \<in> set (signals_of s p)}" by blast
  have "st_registration_count s n = card (live s n)" using ok by (simp add: sig_ok_def)
  then show count: "st_registration_count s n = card {p. n \<in> set (signals_of s p)}"
    using card_image [OF live_inj [OF ok], of n] by (simp add: sets)
  have "finite {p. n \<in> set (signals_of s p)}" using live_finite [OF ok, of n] sets by (metis finite_imageI)
  then show "st_handler s n \<longleftrightarrow> (\<exists>p. n \<in> set (signals_of s p))"
    using ok count by (auto simp: sig_ok_def card_gt_0_iff)
  have t: "distinct (st_registrations s svc n)"
    "set (st_registrations s svc n) = {r \<in> live s n. owner (rg_queue (st_regs s r)) = svc}"
    using ok by (simp_all add: sig_ok_def)
  then have "set (st_registrations s svc n) \<subseteq> live s n" by blast
  with t(1) show "distinct (map (\<lambda>r. rg_queue (st_regs s r)) (st_registrations s svc n))"
    using inj_on_subset [OF live_inj [OF ok]] by (simp add: distinct_map)
  show "(\<lambda>r. rg_queue (st_regs s r)) ` set (st_registrations s svc n) = {p. n \<in> set (signals_of s p) \<and> owner p = svc}"
  proof -
    have "f ` {r \<in> A. P (f r)} = {p \<in> f ` A. P p}" for f :: "nat \<Rightarrow> nat" and A P by blast
    from this [of "\<lambda>r. rg_queue (st_regs s r)" "live s n" "\<lambda>p. owner p = svc"] show ?thesis
      unfolding t(2) sets by simp
  qed
qed

text \<open>Two services with a set each that waits for signal 2.\<close>

definition signal_example :: signal_state where
  "signal_example =
     (let s = snd (sg_service_ctor (Inl (3, 4)) (\<lambda>_. True) 0 initial_signal_state);
          s = snd (sg_service_ctor (Inl (5, 6)) (\<lambda>_. True) 1 s);
          s = snd (sg_add (\<lambda>_. None) 0 0 15 s);
          s = snd (sg_add (\<lambda>_. None) 0 0 2 s);
          s = snd (sg_add (\<lambda>_. None) 1 1 2 s)
      in start_wait_op 0 0 7 s)"

lemma signal_example_steps: "sig_steps (\<lambda>p. p) signal_example"
proof -
  define s1 where "s1 = snd (sg_service_ctor (Inl (3, 4)) (\<lambda>_. True) 0 initial_signal_state)"
  define s2 where "s2 = snd (sg_service_ctor (Inl (5, 6)) (\<lambda>_. True) 1 s1)"
  have "sig_steps (\<lambda>p. p) s1"
    unfolding s1_def by (rule ss_service [OF ss_init]) (simp_all add: initial_signal_state_def)
  moreover have "1 \<notin> set (st_service_list s1)" "sg_signals (st_sets s1 1) = []"
    by (simp_all add: s1_def sg_service_ctor_def add_service_def open_descriptors_def initial_signal_state_def)
  ultimately have "sig_steps (\<lambda>p. p) s2" unfolding s2_def by (intro ss_service) simp_all
  from ss_wait [OF ss_add [OF ss_add [OF ss_add [OF this, of "\<lambda>_. None" 0 15], of "\<lambda>_. None" 0 2], of "\<lambda>_. None" 1 2], of 0 7]
  show ?thesis by (simp add: signal_example_def Let_def s1_def s2_def)
qed

theorem signal_registrations_consistent_witness:
  "signals_of signal_example 0 = [2, 15] \<and> st_registration_count signal_example 2 = 2 \<and>
   st_registration_count signal_example 2 = card {p. 2 \<in> set (signals_of signal_example p)} \<and> st_handler signal_example 15"
proof -
  have "signals_of signal_example 0 = [2, 15]" "st_registration_count signal_example 2 = 2"
    by (code_simp)+
  moreover have "st_handler signal_example 15" by code_simp
  ultimately show ?thesis
    using signal_registrations_consistent [OF signal_example_steps, of 0 2 0] by simp
qed



text \<open>The flag that a fork was prepared belongs to the process, not to the service: of two services that are told of the
  same fork, only the first watches the pipe again in the parent.\<close>

lemma fork_watches_one_service:
  assumes "svc \<noteq> svc'"
  shows "let s = snd (sg_notify_fork pipe svc Fork_Prepare s); s = snd (sg_notify_fork pipe svc' Fork_Prepare s);
      s = snd (sg_notify_fork pipe svc Fork_Parent s); s = snd (sg_notify_fork pipe svc' Fork_Parent s)
    in st_watching s svc \<and> \<not> st_watching s svc'"
  using assms by (simp add: sg_notify_fork_def Let_def)

end
