(* ===== verification/Spec2Isabelle.thy ===== *)
theory Spec2Isabelle
  imports Asio_Acceptor Asio_Connect Asio_Thread_Info Asio_Service_Registry Asio_Buffered_Stream
    Buffer Bits Queues Fmt Math_Utils String_Utils Xtime Logger Actor Network Chatroom Echo
    Asio_Op_Queue Asio_Timer_Queue Asio_Transfer Asio_Scheduler Asio_Address Asio_Socket_Ops Asio_Reactor
    Asio_Stream Asio_Streambuf Asio_Buffers_Iterator Asio_Deadline_Timer Asio_Strand Asio_Signal_Set
begin

text \<open>
  \<^bold>\<open>Verification of xsix.\<close> The program is a C++ server library (\<open>src/src/xsix\<close>): containers, formatting,
  strings, numbers, time, a logger, actors and a TCP framework, with a chat room, an echo server and an
  actor program as examples (\<open>src/examples\<close>). It runs on the vendored library asio
  (\<open>src/3rd/asio/include/asio\<close>), whose event loop, timers, buffers and composed transfers carry every
  handler and every byte of the servers; the parts of asio with logic of their own are modelled here too.

  \<^bold>\<open>How the parts interact.\<close> A server (\<open>TCPServer\<close>) accepts connections and keeps them in a
  \<open>std::map\<close>; a thread ticks and reaps them. A connection reads a header and a body into a message and
  queues outgoing messages in a \<open>ThreadSafeList\<close>, one pending \<open>async_write\<close> at a time. That call is a
  composed operation of asio: it prepares at most sixteen buffers, lets the socket send some of their
  bytes, and consumes what was sent until its completion condition holds. Its intermediate handlers
  are operations that travel through the scheduler's \<open>op_queue\<close>; the threads that call
  \<open>io_context::run\<close> take them from there, and one of them at a time runs the reactor, whose wait is
  bounded by the earliest deadline of the timer queue. Actors are ticked by the workers of a pool, one task for
  each actor; log records go through cache blocks that a flush writes out.

  \<^bold>\<open>The theories, in the order of their dependencies.\<close>
  \<^item> \<open>Xsix_Prelude\<close>: faults of C++ statements (out-of-bounds, uninitialised, divergence and so on), the
    result type \<open>fault + 'a\<close>, checked blocks of memory, integer conversions and division, decimal printing,
    lemmas on rings over lists. \<open>Fifo_Spec\<close>: the contract of a first-in first-out store as the locale
    \<open>fifo_store\<close>, with the refinement of every history to a list proved once inside it. \<open>Std_Map\<close>:
    \<open>std::map\<close> as sorted association lists, behind the locale \<open>registry\<close>.
  \<^item> \<open>Buffer\<close> (\<open>buffer.hpp\<close>): the ring buffer with 32-bit fields and its cells; every member function. The
    interpretation \<open>ring\<close> of \<open>fifo_store\<close> gives the refinement of appends and reads to a list; further
    lemmas state growth, reallocation, peeking and the constructors with their faults.
  \<^item> \<open>Bits\<close> (\<open>bits.hpp\<close>), \<open>Fmt\<close> (\<open>fmt.hpp\<close>), \<open>Math_Utils\<close> and \<open>String_Utils\<close> (\<open>utils/\<close>), \<open>Xtime\<close>
    (\<open>time/\<close>): one definition for each function, with functional results and, for the formatter, memory safety.
  \<^item> \<open>Queues\<close> (\<open>thread_safe_list.hpp\<close>, \<open>block_queue.hpp\<close>): the list as the interpretation \<open>tsl\<close> of
    \<open>fifo_store\<close>; the blocking queue as a step relation of any number of threads with its mutex and
    condition variable, order of elements and absence of lost wake-ups by rule induction.
  \<^item> \<open>Logger\<close> (\<open>log/\<close>), \<open>Actor\<close> (\<open>actor/\<close>), \<open>Network\<close> (\<open>network/\<close>): stateful components over heaps of
    objects; invariants of the cache blocks, of the set of ticking actors and of the connection map.
  \<^item> \<open>Chatroom\<close> and \<open>Echo\<close> (\<open>src/examples\<close>): message format, connections, broadcast. This theory adds the
    path of a message from a client to every guest.
  \<^item> \<open>Asio_Time\<close> (\<open>detail/chrono_time_traits.hpp\<close>): time arithmetic in 64 bits, shown to saturate.
  \<^item> \<open>Asio_Op_Queue\<close> (\<open>detail/op_queue.hpp\<close>): the intrusive queue over a store of \<open>next_\<close> pointers,
    refined to a list. \<open>Asio_Timer_Queue\<close> (\<open>detail/timer_queue.hpp\<close>): the heap, the doubly linked list and
    the heap positions of the timers, refined to a map from timers to deadlines and operations.
  \<^item> \<open>Asio_Buffer\<close> (\<open>buffer.hpp\<close>): buffers as intervals of a byte store, all the overloads of
    \<open>buffer_copy\<close> against one definition. \<open>Asio_Transfer\<close> (\<open>detail/consuming_buffers.hpp\<close>,
    \<open>completion_condition.hpp\<close>, \<open>impl/write.hpp\<close>, \<open>impl/read.hpp\<close>): positions in buffer sequences and the
    composed operations; the locale \<open>composed_transfer\<close> holds the argument that reads and writes share, with
    the interpretations \<open>wr\<close> and \<open>rd\<close>.
  \<^item> \<open>Asio_Scheduler\<close> (\<open>detail/impl/scheduler.ipp\<close>, \<open>detail/std_event.hpp\<close>): the scheduler, its threads
    and the reactor as a step relation at the granularity of the mutex; conservation of operations,
    exclusive use of the reactor, and the meaning of the count of outstanding work.
  \<^item> \<open>Asio_Error\<close> (\<open>error.hpp\<close>): the error codes. \<open>Asio_Socket_Ops\<close> (\<open>detail/impl/socket_ops.ipp\<close>): the
    operations on sockets over a record \<open>os\<close> of system calls; the flags of a socket mirror its blocking mode,
    and a non-blocking transfer returns the result of its first attempt that is not interrupted.
  \<^item> \<open>Asio_Reactor\<close> (\<open>detail/impl/epoll_reactor.ipp\<close>, the operations \<open>detail/reactive_socket_*_op.hpp\<close>
    and the service \<open>detail/impl/reactive_socket_service_base.ipp\<close>): descriptor states with their three
    queues, and the scheduler they post to. Every sequence of calls conserves the operations and keeps the count
    of work equal to those that wait (\<open>er_steps\<close>), operations complete in order, and closing a socket
    aborts all that wait on it.
  \<^item> \<open>Asio_Stream\<close>: the sends and receives of the reactor as the single transfers of a composed operation; what
    the system promises of one call gives what \<open>Asio_Transfer\<close> assumes of a stream. This theory uses it for
    the path of a chat frame to the socket.
  \<^item> \<open>Asio_Read_Until\<close> (\<open>impl/read_until.hpp\<close>, \<open>dynamic_string_buffer\<close> of \<open>buffer.hpp\<close>): the search for a
    delimiter and the loops around it, over the locale \<open>dynamic_buffer\<close> with the interpretations \<open>v1\<close> and \<open>v2\<close> for
    the two versions of the buffer interface; the loops return the first match, and all variants agree.
  \<^item> \<open>Asio_Streambuf\<close> (\<open>basic_streambuf.hpp\<close>): the stream buffer, an interpretation of \<open>fifo_store\<close> for the refinement
    of its two interfaces to a list and of \<open>dynamic_buffer\<close> for \<open>read_until\<close>; what \<open>prepare\<close> leaves when it throws.
  \<^item> \<open>Asio_Buffers_Iterator\<close> (\<open>buffers_iterator.hpp\<close>): the random access iterator over the bytes of a buffer
    sequence, shown to be an index into them.
  \<^item> \<open>Asio_Deadline_Timer\<close> (\<open>detail/deadline_timer_service.hpp\<close>): the timers of a program, over the reactor and the
    timer queue; every history of calls and reactor runs refines a map from timers to their expiry and the
    operations that wait, and the blocking wait returns and not too early.
  \<^item> \<open>Asio_Strand\<close> (\<open>detail/impl/strand_executor_service.hpp\<close> and \<open>.ipp\<close>): a strand with any number of threads as
    a step relation; its functions run one at a time, in order, and none is forgotten.
  \<^item> \<open>Asio_Signal_Set\<close> (\<open>detail/impl/signal_set_service.ipp\<close>): the signal sets of all services of a process; the
    registrations, their counts and the handlers of the process agree after every history of calls (\<open>sig_steps\<close>), and
    a signal reaches every set that holds it.
  \<^item> \<open>Asio_Acceptor\<close> (\<open>detail/reactive_socket_service.hpp\<close>, \<open>detail/reactive_socket_accept_op.hpp\<close>): the sockets and
    acceptors of a program over the reactor; after every history (\<open>rs_steps\<close>) each open descriptor has one owner.
    \<open>Asio_Connect\<close> (\<open>impl/connect.hpp\<close>): connecting to the first endpoint of a sequence, against a reference by
    recursion over the endpoints, synchronously and with \<open>range_connect_op\<close>.
  \<^item> \<open>Asio_Thread_Info\<close> (\<open>detail/thread_info_base.hpp\<close>): the memory that threads keep for handlers; every history
    (\<open>mem_reach\<close>) accounts for every block. \<open>Asio_Service_Registry\<close> (\<open>detail/impl/service_registry.ipp\<close>): the services
    of a context with racing and nested calls (\<open>registry_reach\<close>); one service for each key, destroyed once.
  \<^item> \<open>Asio_Buffered_Stream\<close> (\<open>impl/buffered_read_stream.hpp\<close>, \<open>impl/buffered_write_stream.hpp\<close>): the storage of a buffered stream in
    the memory of \<open>Asio_Buffer\<close>; the bytes that pass through it keep their order (\<open>read_history\<close>, \<open>write_history\<close>).
  \<^item> \<open>Asio_Address\<close> (\<open>ip/\<close>): addresses, iterators, ranges and networks of IPv4 and IPv6 over machine words.

  \<^bold>\<open>Conventions.\<close> A class is a record, a tagged value a datatype, an error a value of a sum type or
  \<open>None\<close>. Integers are \<open>int\<close> with explicit wrap-around or range checks where C++ converts or overflows, and
  words where the code works on bits. Loops are recursive functions with termination proofs; a loop
  that can run forever is either a fault with a proof of divergence (the growth loop of the ring buffer)
  or a \<open>partial_function\<close> into \<open>option\<close>, and then the properties state that it returns. The
  main loops of the TCP server and client, which run until a flag is set, take a number of passes and are
  \<open>None\<close> when it is used up; the property about them holds for every number.
  Parameters stand for the environment: the system clock and time zone, the file system, the effect of
  an actor's message, the stream below a transfer, the results of \<open>sigaction\<close> and \<open>pipe\<close>, the system calls on sockets (\<open>os\<close>) with the
  documented laws \<open>mode_contract\<close>, \<open>socket_contract\<close> and \<open>fd_contract\<close>, the layer below a buffered stream with \<open>reads_ok\<close> and \<open>writes_ok\<close>, \<open>epoll_ctl\<close> and the events of \<open>epoll_wait\<close>, and the completions
  that the operating system reports.

  \<^bold>\<open>Not modelled.\<close> The resolvers, executors, thread pools, coroutines and SSL layer of asio and its reactors for
  other systems, which are calls of the operating system or template plumbing; datagram sockets; the interrupter,
  the timer descriptor and \<open>notify_fork\<close> of the reactor; the list of strands of a service and its pool of mutexes; \<open>dynamic_vector_buffer\<close> and the
  regular expressions of \<open>read_until\<close>;
  in the scheduler, exceptions thrown by handlers, \<open>run\<close> or \<open>poll\<close> called inside a handler and the
  scheduler's own thread; the text forms of addresses; the function \<open>utcsecond\<close>, which returns a
  floating-point number; test programs and build files, which hold no logic of the library.
\<close>

section \<open>From the client's keyboard to every guest\<close>

lemma dec_of_nat_length: "n < 10 ^ k \<Longrightarrow> 0 < k \<Longrightarrow> length (dec_of_nat n) \<le> k"
proof (induction k arbitrary: n)
  case (Suc k)
  show ?case
  proof (cases "n < 10")
    case True
    then show ?thesis by (simp add: dec_of_nat.simps)
  next
    case False
    with Suc.prems(1) have "0 < k" by (cases k) auto
    moreover have "n div 10 < 10 ^ k" using Suc.prems(1) by (simp add: less_mult_imp_div_less mult.commute)
    ultimately have "length (dec_of_nat (n div 10)) \<le> k" by (intro Suc.IH)
    with False show ?thesis by (simp add: dec_of_nat.simps [of n])
  qed
qed simp

lemma random_msg_length: "length (get_random_msg u2) = 10"
proof -
  have "length (random_loop n u2 i r) = n + length r" for n i r
    by (induction n u2 i r rule: random_loop.induct) simp_all
  then show ?thesis by (simp add: get_random_msg_def)
qed

lemma random_msg_chars: "\<forall>i. u2 i \<le> 60 \<Longrightarrow> set (get_random_msg u2) \<subseteq> set (take 61 random_alphabet)"
proof -
  assume u: "\<forall>i. u2 i \<le> 60"
  have mem: "random_alphabet ! u2 i \<in> set (take 61 random_alphabet)" for i
  proof -
    have "random_alphabet ! u2 i = take 61 random_alphabet ! u2 i"
      using u [rule_format, of i] by simp
    moreover have "u2 i < length (take 61 random_alphabet)"
      using u [rule_format, of i] by (simp add: random_alphabet_def le_imp_less_Suc)
    ultimately show ?thesis by (metis nth_mem)
  qed
  have "set (random_loop n u2 i r) \<subseteq> set r \<union> set (take 61 random_alphabet)" for n i r
  proof (induction n arbitrary: i r)
    case (Suc n)
    from Suc [of "i + 1" "r @ [random_alphabet ! u2 i]"] mem [of i] show ?case by auto
  qed simp
  then show ?thesis unfolding get_random_msg_def by fastforce
qed

text \<open>A client whose queue is empty starts to write the frame of its random message at once.\<close>

lemma client_sends_frame:
  assumes "m_list (cc_send_queue c) = []"
  shows "\<exists>c'. cli_send_random_msg u2 c = Inr c' \<and> cc_write c' = Some (frame (get_random_msg u2))"
proof -
  let ?t = "get_random_msg u2"
  have len: "length ?t \<le> 1024" and i: "to_i32 (int (length ?t)) = int (length ?t)"
    by (simp_all add: random_msg_length in_i32_def)
  have "set_content msg_ctor (map Some ?t @ [Some nul]) (int (length ?t)) = Inr (msg_of ?t)"
    using len by (rule set_content_ok)
  with assms i get_buf_ok [OF len] show ?thesis
    by (simp add: cli_send_random_msg_def Let_def tsl_empty_def tsl_push_back_def cli_do_write_def tsl_front_def)
qed

text \<open>A connection of the server that receives a whole frame reads back its text.\<close>

lemma server_reads_frame:
  assumes "length t \<le> 1024" and "conn_open c" and "length (content (cc_tmp_msg c)) = 1024"
  shows "\<exists>m. srv_on_header False (take 2 (frame t)) (srv_read_header c) =
      Inr (c\<lparr>cc_tmp_msg := m, cc_read := Read_Body (int (length t))\<rparr>) \<and>
    (\<exists>m'. recv_body (drop 2 (frame t)) m = Inr m' \<and>
       mem_read (content m') 0 (ntohs (contentsize m')) = Inr (map Some t))"
proof -
  let ?n = "int (length t)"
  have "srv_on_header False (take 2 (frame t)) (srv_read_header c) =
      Inr (c\<lparr>cc_tmp_msg := (cc_tmp_msg c)\<lparr>contentsize := htons ?n\<rparr>, cc_read := Read_Body ?n\<rparr>)"
    using assms(1,2) recv_header_ok [OF assms(1), of "cc_tmp_msg c"] ntohs_htons [of ?n]
    by (simp add: srv_on_header_def srv_read_header_def srv_read_body_def Let_def)
  moreover have "drop 2 (frame t) = map Some t" by (simp add: frame_def)
  then have "recv_body (drop 2 (frame t)) ((cc_tmp_msg c)\<lparr>contentsize := htons ?n\<rparr>) =
      Inr ((cc_tmp_msg c)\<lparr>contentsize := htons ?n, content := map Some t @ drop (length t) (content (cc_tmp_msg c))\<rparr>)"
    using assms(1,3) by (simp add: recv_body_def mem_write_def)
  moreover have "mem_read (map Some t @ drop (length t) (content (cc_tmp_msg c))) 0 (ntohs (htons ?n)) = Inr (map Some t)"
    using assms(1) ntohs_htons [of ?n] by (simp add: mem_read_def)
  ultimately show ?thesis by fastforce
qed

lemma guest_text_fits:
  assumes "0 \<le> k" and "k < 2 ^ 31" and "length t = 10"
  shows "length (guest_text k t) \<le> 1024"
proof -
  have "nat k < 10 ^ 10" using assms(1,2) by simp
  then have "length (dec_of_int k) \<le> 10" using assms(1) dec_of_nat_length [of "nat k" 10] by (simp add: dec_of_int_def)
  moreover have "length (c_str t) \<le> 10" using assms(3) length_takeWhile_le [of _ t] by (metis c_str_def)
  ultimately show ?thesis by (simp add: guest_text_def)
qed

lemma server_broadcasts_body:
  assumes inv: "sv_inv s" and "conn_parent (sv_heap s p)"
    and body: "recv_body bytes (cc_tmp_msg (sv_heap s p)) = Inr m"
    and read: "mem_read (content m) 0 (ntohs (contentsize m)) = Inr (map Some r)"
    and t: "t = guest_text (conn_id (sv_heap s p)) r" "length t \<le> 1024"
  shows "\<exists>s'. srv_on_body False bytes p s = Inr s' \<and>
    (\<forall>q. m_list (cc_send_queue (sv_heap s' q)) = m_list (cc_send_queue (sv_heap s q)) @
       (if q \<in> snd ` set (sv_conn_map s) then [msg_of t] else []))"
proof -
  let ?c = "(sv_heap s p)\<lparr>cc_read := No_Read, cc_tmp_msg := m\<rparr>"
  let ?s = "s\<lparr>sv_heap := (sv_heap s)(p := ?c)\<rparr>"
  have h: "srv_handle_message ?s p = broadcast_loop (sv_conn_map ?s)
      (map Some t @ map Some (replicate (4096 - length t) nul)) (int (length t)) ?s"
    by (rule handle_message_broadcast) (use assms in simp_all)
  obtain h' where b: "srv_handle_message ?s p = Inr (?s\<lparr>sv_heap := h'\<rparr>)"
    "\<forall>q. m_list (cc_send_queue (h' q)) = (if q \<in> snd ` set (sv_conn_map s)
        then m_list (cc_send_queue (sv_heap ?s q)) @ [msg_of t] else m_list (cc_send_queue (sv_heap ?s q)))"
    unfolding h using broadcast_loop_ok [OF t(2) sv_inv_distinct [OF inv], of _ ?s] by auto
  have keep: "cc_send_queue (srv_read_header c) = cc_send_queue c" for c by (simp add: srv_read_header_def)
  have "srv_on_body False bytes p s = Inr (s\<lparr>sv_heap := h'(p := srv_read_header (h' p))\<rparr>)"
    using body b(1) by (simp add: srv_on_body_def Let_def)
  with b(2) show ?thesis by (auto simp: keep)
qed

section \<open>A frame on its way through the composed write\<close>

text \<open>A composed write of one buffer that holds \<open>bytes\<close>: what was sent is a prefix of them, and all of
  them when the operation ends without an error.\<close>

lemma write_sends_bytes:
  assumes "start_op (write_op_call mb) (write_op_ctor [mk_buf a (length bytes)] Transfer_All) = (op, pending)"
    and "completions_ok (write_op_call mb) op pending cs"
    and "op_run (write_op_call mb) op pending cs = (sent, Some (e, n))" and "(None, 0) \<notin> set cs"
    and bytes: "map mem [a ..< a + length bytes] = bytes"
  shows "map mem sent = take n bytes" "n \<le> length bytes" "e = None \<Longrightarrow> n = length bytes"
proof -
  let ?bs = "[mk_buf a (length bytes)]"
  have addrs: "map mem (seq_addrs ?bs) = bytes" "buffer_size ?bs = length bytes"
    using bytes by (simp_all add: buf_addrs_def mk_buf_def)
  note d = wr.run_delivers [OF assms(1-3)]
  have s: "sent = take n (seq_addrs ?bs)" "n = length sent" using d by auto
  show "map mem sent = take n bytes" using s(1) addrs(1) by (metis take_map)
  show "n \<le> length bytes" using s addrs(2) by (metis length_seq_addrs length_take min.cobounded1)
  show "n = length bytes" if "e = None"
    using d that assms(4) addrs(2)
    by (auto simp: stops_at_def completion_condition_def default_max_transfer_size_def)
qed

section \<open>Properties\<close>

text \<open>C6: The chat room end to end: a client with an empty queue writes the frame of its random message;
  when a connection of the server receives that frame, in its two reads, nothing faults (the text of
  ten characters with any id prefix fits the message array), and every registered connection, the
  sender included, gets the text with the sender's id appended to its send queue exactly once.\<close>

theorem chat_message_reaches_every_guest:
  assumes "m_list (cc_send_queue c) = []" and "sv_inv s" and "get_conn s k = Some p" and "k < 2 ^ 31"
    and "conn_open (sv_heap s p)" and "conn_parent (sv_heap s p)"
    and "length (content (cc_tmp_msg (sv_heap s p))) = 1024"
  shows "\<exists>c' f c1 s'. cli_send_random_msg u2 c = Inr c' \<and> cc_write c' = Some f \<and>
    srv_on_header False (take 2 f) (srv_read_header (sv_heap s p)) = Inr c1 \<and>
    srv_on_body False (drop 2 f) p (s\<lparr>sv_heap := (sv_heap s)(p := c1)\<rparr>) = Inr s' \<and>
    (\<forall>q. m_list (cc_send_queue (sv_heap s' q)) = m_list (cc_send_queue (sv_heap s q)) @
       (if q \<in> snd ` set (sv_conn_map s) then [msg_of (guest_text k (get_random_msg u2))] else []))"
proof -
  let ?t = "get_random_msg u2"
  have mem: "(k, p) \<in> set (sv_conn_map s)"
    using assms(2,3) by (simp add: get_conn_def om_find_mem sv_inv_def)
  have k: "conn_id (sv_heap s p) = k" "0 \<le> k" using sv_inv_keys [OF assms(2) mem] by simp_all
  have len: "length ?t \<le> 1024" by (simp add: random_msg_length)
  obtain c' where c': "cli_send_random_msg u2 c = Inr c'" "cc_write c' = Some (frame ?t)"
    using client_sends_frame [OF assms(1)] by blast
  obtain m m' where m: "srv_on_header False (take 2 (frame ?t)) (srv_read_header (sv_heap s p)) =
      Inr ((sv_heap s p)\<lparr>cc_tmp_msg := m, cc_read := Read_Body (int (length ?t))\<rparr>)"
    "recv_body (drop 2 (frame ?t)) m = Inr m'" "mem_read (content m') 0 (ntohs (contentsize m')) = Inr (map Some ?t)"
    using server_reads_frame [OF len assms(5,7)] by blast
  let ?c = "(sv_heap s p)\<lparr>cc_tmp_msg := m, cc_read := Read_Body (int (length ?t))\<rparr>"
  let ?s = "s\<lparr>sv_heap := (sv_heap s)(p := ?c)\<rparr>"
  have "sv_inv ?s" by (rule sv_inv_heap [OF assms(2)]) simp
  moreover have "length (guest_text (conn_id (sv_heap ?s p)) ?t) \<le> 1024"
    using guest_text_fits [OF k(2) assms(4) random_msg_length] k(1) by simp
  ultimately obtain s' where "srv_on_body False (drop 2 (frame ?t)) p ?s = Inr s'"
    "\<forall>q. m_list (cc_send_queue (sv_heap s' q)) = m_list (cc_send_queue (sv_heap ?s q)) @
       (if q \<in> snd ` set (sv_conn_map ?s) then [msg_of (guest_text (conn_id (sv_heap ?s p)) ?t)] else [])"
    using server_broadcasts_body [of ?s p "drop 2 (frame ?t)" m' ?t] m(2,3) assms(6) by auto
  moreover have "cc_send_queue (sv_heap ?s q) = cc_send_queue (sv_heap s q)" for q by simp
  moreover have "conn_id (sv_heap ?s p) = k" using k(1) by simp
  ultimately have "\<forall>q. m_list (cc_send_queue (sv_heap s' q)) = m_list (cc_send_queue (sv_heap s q)) @
       (if q \<in> snd ` set (sv_conn_map s) then [msg_of (guest_text k ?t)] else [])" by simp
  with c' m(1) \<open>srv_on_body False (drop 2 (frame ?t)) p ?s = Inr s'\<close> show ?thesis by blast
qed

theorem chat_message_reaches_every_guest_witness:
  "\<exists>c' f c1 s'. cli_send_random_msg (\<lambda>i. i) (chat_conn_ctor False) = Inr c' \<and> cc_write c' = Some f \<and>
     srv_on_header False (take 2 f) (srv_read_header (sv_heap demo_server 0)) = Inr c1 \<and>
     srv_on_body False (drop 2 f) 0 (demo_server\<lparr>sv_heap := (sv_heap demo_server)(0 := c1)\<rparr>) = Inr s'"
proof -
  have i: "sv_inv demo_server" "get_conn demo_server 0 = Some 0"
    by (simp_all add: demo_server_def sv_inv_def om_inv_def get_conn_def)
  have p: "conn_open (sv_heap demo_server 0)" "conn_parent (sv_heap demo_server 0)"
    "length (content (cc_tmp_msg (sv_heap demo_server 0))) = 1024"
    by (simp_all add: demo_server_def chat_conn_ctor_def msg_of_def)
  have q: "m_list (cc_send_queue (chat_conn_ctor False)) = []" by (simp add: chat_conn_ctor_def)
  have k: "(0 :: int) < 2 ^ 31" by simp
  from chat_message_reaches_every_guest [OF q i k p, of "\<lambda>i. i"] show ?thesis by blast
qed


definition writing_conn :: chat_conn where
  "writing_conn = (chat_conn_ctor True)\<lparr>cc_send_queue := \<lparr> m_list = [msg_of ''a''] \<rparr>, cc_write := Some (frame ''a'')\<rparr>"

text \<open>A system that sends at most two bytes at a time.\<close>

definition two_byte_os :: "unit os" where
  "two_byte_os = \<lparr> sys_accept = \<lambda>_ w. ((- 1, E_AGAIN), w), sys_bind = \<lambda>_ w. ((0, 0), w), sys_close = \<lambda>_ w. ((0, 0), w),
     sys_connect = \<lambda>_ w. ((0, 0), w), sys_listen = \<lambda>_ _ w. ((0, 0), w), sys_shutdown = \<lambda>_ _ w. ((0, 0), w),
     sys_socket = \<lambda>_ _ _ w. ((3, 0), w), sys_poll = \<lambda>_ _ _ w. ((1, 0), w), sys_recv = \<lambda>_ _ _ w. ((0, 0), w),
     sys_recvmsg = \<lambda>_ _ _ w. ((0, 0), w), sys_send = \<lambda>_ b _ w. ((int (min 2 (ab_size b)), 0), w),
     sys_sendmsg = \<lambda>_ bs _ w. ((int (min 2 (buffer_size bs)), 0), w),
     sys_ioctl = \<lambda>_ _ arg w. ((0, 0, arg), w),
     sys_setsockopt = \<lambda>_ _ _ _ w. ((0, 0), w), sys_getsockopt = \<lambda>_ _ _ n w. ((0, 0, [0], n), w) \<rparr>"


end
